(* ===== verification/DBx_Prelude.thy ===== *)
theory DBx_Prelude
  imports Main "HOL-Library.Word" "HOL-Library.Multiset"
begin

text \<open>
  Shared vocabulary of the development: the enumerations of system/global.h, the integer and
  pointer types of the model, the lemma collections the component theories use, and the generic
  facts on lists that several components share.

  Timestamps, transaction ids and keys are \<open>uint64_t\<close> in the source and 64-bit words here, so
  every comparison is the unsigned one and every increment wraps.  A pointer to a transaction or
  to a row is a natural number; a null pointer is \<open>None\<close>.  An operation whose source contains an
  assertion returns an option: \<open>None\<close> is the failed assertion, which stops the process in the
  builds that keep assertions.
\<close>

unbundle bit_operations_syntax

section \<open>Lemma collections\<close>

named_theorems op_defs \<open>definitions of the operations of a component\<close>
named_theorems inv_defs \<open>definitions of the invariants of a component\<close>

section \<open>Types of system/global.h\<close>

type_synonym ts_t = "64 word"
type_synonym txnid_t = "64 word"
type_synonym idx_key_t = "64 word"
type_synonym UInt32 = "32 word"
type_synonym txn_ptr = nat
type_synonym row_ptr = nat
type_synonym part_id = nat

datatype RC = RCOK | Commit | Abort | WAIT | ERROR | FINISH

datatype access_t = RD | WR | XP | SCAN | RO

datatype lock_t = LOCK_EX | LOCK_SH | LOCK_NONE

datatype TsType = R_REQ | W_REQ | P_REQ | XP_REQ

datatype latch_t = LATCH_EX | LATCH_SH | LATCH_NONE

datatype idx_acc_t = INDEX_INSERT | INDEX_READ | INDEX_NONE

datatype cc_alg = NO_WAIT | WAIT_DIE | DL_DETECT | TIMESTAMP | MVCC | HSTORE | OCC | TICTOC
  | SILO | VLL | HEKATON

definition UINT64_MAX :: "64 word" where
  "UINT64_MAX = 18446744073709551615"

lemma UINT64_MAX_eq: "UINT64_MAX = - 1"
  by (simp add: UINT64_MAX_def)

lemma le_UINT64_MAX [simp]: "x \<le> UINT64_MAX"
  by (simp add: UINT64_MAX_eq)

lemma not_UINT64_MAX_less [simp]: "\<not> UINT64_MAX < x"
  by (simp add: not_less)

lemma word_less_plus1:
  assumes "(x :: 64 word) < y"
  shows "x < x + 1 \<and> x + 1 \<le> y"
  using assms by unat_arith

section \<open>Assertions\<close>

text \<open>\<open>assert(c)\<close> followed by the rest of the operation.\<close>

definition assert_then :: "bool \<Rightarrow> 'a option \<Rightarrow> 'a option" where
  "assert_then c k = (if c then k else None)"

lemma assert_then_Some [simp]: "assert_then c k = Some r \<longleftrightarrow> c \<and> k = Some r"
  by (simp add: assert_then_def)

lemma assert_then_True [simp]: "assert_then True k = k"
  by (simp add: assert_then_def)

lemma assert_then_False [simp]: "assert_then False k = None"
  by (simp add: assert_then_def)

section \<open>Lists as the C++ code walks them\<close>

text \<open>
  \<open>remove_first P xs\<close> unlinks the first element of a list that satisfies \<open>P\<close>: the result is
  the element and the rest, or \<open>None\<close> when the walk reaches the end.
\<close>

fun remove_first :: "('a \<Rightarrow> bool) \<Rightarrow> 'a list \<Rightarrow> ('a \<times> 'a list) option" where
  "remove_first P [] = None"
| "remove_first P (x # xs) =
     (if P x then Some (x, xs)
      else map_option (\<lambda>(y, ys). (y, x # ys)) (remove_first P xs))"

lemma remove_first_None_iff: "remove_first P xs = None \<longleftrightarrow> (\<forall>x\<in>set xs. \<not> P x)"
  by (induction xs) auto

lemma remove_first_SomeD:
  assumes "remove_first P xs = Some (y, ys)"
  shows "P y \<and> (\<exists>as bs. xs = as @ y # bs \<and> ys = as @ bs \<and> (\<forall>a\<in>set as. \<not> P a))"
  using assms
proof (induction xs arbitrary: y ys)
  case Nil
  then show ?case by simp
next
  case (Cons x xs)
  show ?case
  proof (cases "P x")
    case True
    with Cons.prems show ?thesis by (auto intro: exI [of _ "[]"])
  next
    case False
    with Cons.prems obtain zs where zs: "remove_first P xs = Some (y, zs)" and ys: "ys = x # zs"
      by auto
    from Cons.IH [OF zs] obtain as bs where
      "P y" "xs = as @ y # bs" "zs = as @ bs" "\<forall>a\<in>set as. \<not> P a" by auto
    with False ys have "P y \<and> x # xs = (x # as) @ y # bs \<and> ys = (x # as) @ bs \<and>
        (\<forall>a\<in>set (x # as). \<not> P a)" by simp
    then show ?thesis by blast
  qed
qed

lemma remove_first_set:
  "remove_first P xs = Some (y, ys) \<Longrightarrow> y \<in> set xs \<and> set xs = insert y (set ys)"
  by (drule remove_first_SomeD) auto

lemma remove_first_length:
  "remove_first P xs = Some (y, ys) \<Longrightarrow> length xs = Suc (length ys)"
  by (drule remove_first_SomeD) auto

lemma remove_first_mset:
  "remove_first P xs = Some (y, ys) \<Longrightarrow> mset xs = add_mset y (mset ys)"
  by (drule remove_first_SomeD) auto

lemma remove_first_sorted_wrt:
  "remove_first P xs = Some (y, ys) \<Longrightarrow> sorted_wrt R xs \<Longrightarrow> sorted_wrt R ys"
  by (drule remove_first_SomeD) (auto simp: sorted_wrt_append)

lemma remove_first_distinct_map:
  assumes "remove_first P xs = Some (y, ys)" and "distinct (map f xs)"
  shows "distinct (map f ys) \<and> f y \<notin> f ` set ys"
  using remove_first_SomeD [OF assms(1)] assms(2) by auto

section \<open>Runs and simulation\<close>

text \<open>A sequence of operations on a state, with what each returns; a failed operation ends the run.\<close>

fun run_ops :: "('op \<Rightarrow> 's \<Rightarrow> ('r \<times> 's) option) \<Rightarrow> 'op list \<Rightarrow> 's \<Rightarrow> ('r list \<times> 's) option" where
  "run_ops step [] s = Some ([], s)"
| "run_ops step (x # xs) s =
     (case step x s of
        None \<Rightarrow> None
      | Some (r, s') \<Rightarrow> map_option (\<lambda>(rs, s''). (r # rs, s'')) (run_ops step xs s'))"

text \<open>An implementation that follows a specification step by step, failures included.\<close>

locale simulation =
  fixes R :: "'s \<Rightarrow> 't \<Rightarrow> bool"
    and impl :: "'op \<Rightarrow> 's \<Rightarrow> ('r \<times> 's) option"
    and spec :: "'op \<Rightarrow> 't \<Rightarrow> ('r \<times> 't) option"
  assumes sim: "R s t \<Longrightarrow> rel_option (rel_prod (=) R) (impl op s) (spec op t)"
begin

lemma runs_agree:
  "R s t \<Longrightarrow> rel_option (rel_prod (=) R) (run_ops impl ops s) (run_ops spec ops t)"
proof (induction ops arbitrary: s t)
  case (Cons op ops)
  show ?case
  proof (cases "impl op s")
    case None
    then have "spec op t = None" using sim [OF Cons.prems, of op] by simp
    then show ?thesis using None by simp
  next
    case (Some rs)
    then obtain r s' where i: "impl op s = Some (r, s')" by (cases rs) auto
    then obtain t' where t': "spec op t = Some (r, t')" "R s' t'"
      using sim [OF Cons.prems, of op] by (auto simp: option_rel_Some1)
    have "rel_option (rel_prod (=) R) (run_ops impl ops s') (run_ops spec ops t')" by (rule Cons.IH [OF t'(2)])
    then show ?thesis using i t'(1) by (auto simp: rel_option_iff split: option.splits)
  qed
qed simp

lemma outputs_agree:
  "R s t \<Longrightarrow> map_option fst (run_ops impl ops s) = map_option fst (run_ops spec ops t)"
  using runs_agree [of s t ops] by (auto simp: rel_option_iff split: option.splits)

end

end
