(* ===== verification/Row_Lock.thy ===== *)
theory Row_Lock
  imports DBx_Prelude
begin

text \<open>
  The per-row lock manager of two-phase locking: concurrency\_control/row\_lock.h and row\_lock.cpp,
  for the three algorithms NO\_WAIT, WAIT\_DIE and DL\_DETECT.  Each operation runs under the row's
  latch from its first to its last statement, so one call is one step.

  The owner and waiter lists are lists of entries (theory Linked\_List relates the pointer
  macros to them): the owner list grows at the head (\<open>STACK_PUSH\<close>), the waiter list is kept from
  head to tail.  The fields of \<open>txn_man\<close> the lock manager reads and writes are the record
  \<open>txn_lk\<close>; every worker thread owns one \<open>txn_man\<close>, so a transaction pointer is the number
  of its thread.  The checks of \<open>DEBUG_ASSERT\<close> are off in every shipped configuration and are
  left out; the other assertions are kept.
\<close>

record LockEntry =
  le_type :: lock_t
  le_txn :: txn_ptr

record Row_lock =
  lock_type :: lock_t
  owner_cnt :: nat
  waiter_cnt :: nat
  owners :: "LockEntry list"
  waiters :: "LockEntry list"

record txn_lk =
  lk_ts :: ts_t
  lk_txn_id :: txnid_t
  lock_ready :: bool
  lock_abort :: bool

type_synonym lk_txns = "txn_ptr \<Rightarrow> txn_lk"

section \<open>Operations\<close>

definition lock_init :: Row_lock where
  "lock_init = \<lparr>lock_type = LOCK_NONE, owner_cnt = 0, waiter_cnt = 0, owners = [], waiters = []\<rparr>"

definition conflict_lock :: "lock_t \<Rightarrow> lock_t \<Rightarrow> bool" where
  "conflict_lock l1 l2 =
     (if l1 = LOCK_NONE \<or> l2 = LOCK_NONE then False
      else if l1 = LOCK_EX \<or> l2 = LOCK_EX then True
      else False)"

text \<open>Whether the request has to queue up: lines 70 to 77.\<close>

definition get_conflict :: "cc_alg \<Rightarrow> lk_txns \<Rightarrow> Row_lock \<Rightarrow> lock_t \<Rightarrow> txn_ptr \<Rightarrow> bool" where
  "get_conflict alg tm lk type txn =
     (let conflict = conflict_lock (lock_type lk) type;
          conflict = (if alg = WAIT_DIE \<and> \<not> conflict
                      then (case waiters lk of
                              [] \<Rightarrow> False
                            | w # _ \<Rightarrow> lk_ts (tm txn) < lk_ts (tm (le_txn w)))
                      else conflict)
      in if alg = DL_DETECT \<and> waiters lk \<noteq> [] then True else conflict)"

text \<open>The walk over the owners that decides whether a WAIT\_DIE request may wait: 103 to 111.\<close>

fun canwait :: "lk_txns \<Rightarrow> txn_ptr \<Rightarrow> LockEntry list \<Rightarrow> bool" where
  "canwait tm txn [] = True"
| "canwait tm txn (en # ens) =
     (if lk_ts (tm (le_txn en)) < lk_ts (tm txn) then False else canwait tm txn ens)"

text \<open>The walk to the insertion point in the waiter list and the insertion: 115 to 127.\<close>

fun insert_waiter :: "lk_txns \<Rightarrow> LockEntry \<Rightarrow> LockEntry list \<Rightarrow> LockEntry list" where
  "insert_waiter tm entry [] = [entry]"
| "insert_waiter tm entry (en # ens) =
     (if lk_ts (tm (le_txn entry)) < lk_ts (tm (le_txn en))
      then en # insert_waiter tm entry ens
      else entry # en # ens)"

text \<open>The ids the new waiter depends on, from the tail back to the head, then the owners: 149 to 167.\<close>

definition wait_for_ids :: "lk_txns \<Rightarrow> Row_lock \<Rightarrow> lock_t \<Rightarrow> txnid_t list" where
  "wait_for_ids tm lk type =
     map (\<lambda>en. lk_txn_id (tm (le_txn en)))
       (filter (\<lambda>en. conflict_lock type (le_type en)) (rev (butlast (waiters lk))))
     @ (if conflict_lock type (lock_type lk)
        then map (\<lambda>en. lk_txn_id (tm (le_txn en))) (owners lk) else [])"

definition lock_get ::
  "nat \<Rightarrow> cc_alg \<Rightarrow> lock_t \<Rightarrow> txn_ptr \<Rightarrow> Row_lock \<Rightarrow> lk_txns
     \<Rightarrow> (RC \<times> txnid_t list \<times> Row_lock \<times> lk_txns) option" where
  "lock_get g_thread_cnt alg type txn lk tm =
     assert_then (alg = DL_DETECT \<or> alg = NO_WAIT \<or> alg = WAIT_DIE)
     (assert_then (owner_cnt lk \<le> g_thread_cnt)
     (assert_then (waiter_cnt lk < g_thread_cnt)
     (let entry = \<lparr>le_type = type, le_txn = txn\<rparr>;
          tm' = tm(txn := (tm txn)\<lparr>lock_ready := False\<rparr>)
      in if get_conflict alg tm lk type txn then
           (if alg = NO_WAIT then Some (Abort, [], lk, tm)
            else if alg = DL_DETECT then
              (let lk' = lk\<lparr>waiters := waiters lk @ [entry], waiter_cnt := waiter_cnt lk + 1\<rparr>;
                   ids = wait_for_ids tm lk' type
               in assert_then (ids \<noteq> []) (Some (WAIT, ids, lk', tm')))
            else if canwait tm txn (owners lk) then
              Some (WAIT, [], lk\<lparr>waiters := insert_waiter tm entry (waiters lk),
                                waiter_cnt := waiter_cnt lk + 1\<rparr>, tm')
            else Some (Abort, [], lk, tm))
         else
           assert_then (alg = DL_DETECT \<longrightarrow> waiters lk = [])
           (Some (RCOK, [], lk\<lparr>owners := entry # owners lk, owner_cnt := owner_cnt lk + 1,
                              lock_type := type\<rparr>, tm)))))"

text \<open>The promotion loop at the end of a release: 232 to 242.\<close>

fun promote_waiters :: "LockEntry list \<Rightarrow> Row_lock \<Rightarrow> lk_txns \<Rightarrow> (Row_lock \<times> lk_txns) option" where
  "promote_waiters [] lk tm = Some (lk\<lparr>waiters := []\<rparr>, tm)"
| "promote_waiters (w # ws) lk tm =
     (if conflict_lock (lock_type lk) (le_type w) then Some (lk\<lparr>waiters := w # ws\<rparr>, tm)
      else assert_then (\<not> lock_ready (tm (le_txn w)))
        (promote_waiters ws
           (lk\<lparr>owners := w # owners lk, owner_cnt := owner_cnt lk + 1,
              waiter_cnt := waiter_cnt lk - 1, lock_type := le_type w\<rparr>)
           (tm(le_txn w := (tm (le_txn w))\<lparr>lock_ready := True\<rparr>))))"

text \<open>Unlinking the entry of the transaction: 194 to 223.\<close>

definition unlink_entry :: "txn_ptr \<Rightarrow> Row_lock \<Rightarrow> Row_lock option" where
  "unlink_entry txn lk =
     (case remove_first (\<lambda>en. le_txn en = txn) (owners lk) of
        Some (_, os) \<Rightarrow>
          Some (lk\<lparr>owners := os, owner_cnt := owner_cnt lk - 1,
                  lock_type := (if owner_cnt lk - 1 = 0 then LOCK_NONE else lock_type lk)\<rparr>)
      | None \<Rightarrow>
          (case remove_first (\<lambda>en. le_txn en = txn) (waiters lk) of
             None \<Rightarrow> None
           | Some (_, ws) \<Rightarrow> Some (lk\<lparr>waiters := ws, waiter_cnt := waiter_cnt lk - 1\<rparr>)))"

definition lock_release :: "txn_ptr \<Rightarrow> Row_lock \<Rightarrow> lk_txns \<Rightarrow> (Row_lock \<times> lk_txns) option" where
  "lock_release txn lk tm =
     (case unlink_entry txn lk of
        None \<Rightarrow> None
      | Some lk1 \<Rightarrow>
          assert_then (owner_cnt lk1 = 0 \<longrightarrow> lock_type lk1 = LOCK_NONE)
          (case promote_waiters (waiters lk1) lk1 tm of
             None \<Rightarrow> None
           | Some (lk2, tm2) \<Rightarrow>
               assert_then ((owners lk2 = []) = (owner_cnt lk2 = 0)) (Some (lk2, tm2))))"

section \<open>The invariant of one row\<close>

definition lock_inv :: "cc_alg \<Rightarrow> Row_lock \<Rightarrow> bool" where
  "lock_inv alg lk \<longleftrightarrow>
     owner_cnt lk = length (owners lk) \<and> waiter_cnt lk = length (waiters lk) \<and>
     (lock_type lk = LOCK_NONE \<longleftrightarrow> owners lk = []) \<and>
     (\<forall>e\<in>set (owners lk). le_type e = lock_type lk) \<and>
     (lock_type lk = LOCK_EX \<longrightarrow> length (owners lk) = 1) \<and>
     (\<forall>e\<in>set (waiters lk). le_type e \<noteq> LOCK_NONE) \<and>
     distinct (map le_txn (owners lk @ waiters lk)) \<and>
     (alg = NO_WAIT \<longrightarrow> waiters lk = [])"

definition head_blocked :: "Row_lock \<Rightarrow> bool" where
  "head_blocked lk \<longleftrightarrow>
     (case waiters lk of [] \<Rightarrow> True | w # _ \<Rightarrow> conflict_lock (lock_type lk) (le_type w))"

text \<open>WAIT\_DIE keeps the waiters youngest first, all of them older than every owner.\<close>

definition wait_die_inv :: "(txn_ptr \<Rightarrow> ts_t) \<Rightarrow> Row_lock \<Rightarrow> bool" where
  "wait_die_inv ts lk \<longleftrightarrow>
     sorted_wrt (\<lambda>a b. ts (le_txn b) < ts (le_txn a)) (waiters lk) \<and>
     (\<forall>w\<in>set (waiters lk). \<forall>e\<in>set (owners lk). ts (le_txn w) < ts (le_txn e))"

definition row_txns :: "Row_lock \<Rightarrow> txn_ptr set" where
  "row_txns lk = le_txn ` set (owners lk @ waiters lk)"

definition row_waiters :: "Row_lock \<Rightarrow> txn_ptr set" where
  "row_waiters lk = le_txn ` set (waiters lk)"

definition row_owners :: "Row_lock \<Rightarrow> txn_ptr set" where
  "row_owners lk = le_txn ` set (owners lk)"

lemmas row_set_defs = row_txns_def row_waiters_def row_owners_def

lemma conflict_lock_simps [simp]:
  "\<not> conflict_lock LOCK_NONE l" "\<not> conflict_lock l LOCK_NONE"
  "conflict_lock LOCK_EX l = (l \<noteq> LOCK_NONE)" "conflict_lock l LOCK_EX = (l \<noteq> LOCK_NONE)"
  "\<not> conflict_lock LOCK_SH LOCK_SH"
  by (auto simp: conflict_lock_def)

lemma conflict_lock_iff:
  "conflict_lock a b \<longleftrightarrow> a \<noteq> LOCK_NONE \<and> b \<noteq> LOCK_NONE \<and> (a = LOCK_EX \<or> b = LOCK_EX)"
  by (auto simp: conflict_lock_def)

lemma canwait_iff: "canwait tm txn ens \<longleftrightarrow> (\<forall>e\<in>set ens. lk_ts (tm txn) \<le> lk_ts (tm (le_txn e)))"
  by (induction ens) auto

lemma insert_waiter_mset: "mset (insert_waiter tm e ws) = add_mset e (mset ws)"
  by (induction ws) auto

lemma insert_waiter_set [simp]: "set (insert_waiter tm e ws) = insert e (set ws)"
  by (induction ws) auto

lemma insert_waiter_length [simp]: "length (insert_waiter tm e ws) = Suc (length ws)"
  by (induction ws) auto

lemma insert_waiter_distinct:
  "distinct (map le_txn (insert_waiter tm e ws)) \<longleftrightarrow>
     le_txn e \<notin> le_txn ` set ws \<and> distinct (map le_txn ws)"
  by (induction ws) auto

lemma insert_waiter_sorted:
  assumes "sorted_wrt (\<lambda>a b. lk_ts (tm (le_txn b)) < lk_ts (tm (le_txn a))) ws"
    and "\<And>w. w \<in> set ws \<Longrightarrow> lk_ts (tm (le_txn w)) \<noteq> lk_ts (tm (le_txn e))"
  shows "sorted_wrt (\<lambda>a b. lk_ts (tm (le_txn b)) < lk_ts (tm (le_txn a))) (insert_waiter tm e ws)"
  using assms by (induction ws) (auto, force)

section \<open>Every operation keeps the invariant\<close>

lemma lock_inv_init: "lock_inv alg lock_init \<and> head_blocked lock_init \<and> wait_die_inv ts lock_init"
  by (simp add: lock_inv_def head_blocked_def wait_die_inv_def lock_init_def)

lemma get_conflict_False:
  assumes "\<not> get_conflict alg tm lk type txn"
  shows "\<not> conflict_lock (lock_type lk) type"
    and "alg = DL_DETECT \<Longrightarrow> waiters lk = []"
    and "alg = WAIT_DIE \<Longrightarrow> waiters lk \<noteq> [] \<Longrightarrow>
           lk_ts (tm (le_txn (hd (waiters lk)))) \<le> lk_ts (tm txn)"
  using assms by (auto simp: get_conflict_def Let_def split: if_splits list.splits)

lemma get_conflict_True_no_waiters:
  "get_conflict alg tm lk type txn \<Longrightarrow> waiters lk = [] \<Longrightarrow> conflict_lock (lock_type lk) type"
  by (auto simp: get_conflict_def Let_def split: if_splits)

text \<open>The possible outcomes of a request, as the three ways it can leave the row.\<close>

lemma lock_get_cases:
  assumes "lock_get n alg type txn lk tm = Some (rc, ids, lk', tm')"
  obtains (abort) "rc = Abort" "lk' = lk" "tm' = tm" "get_conflict alg tm lk type txn"
      "alg = NO_WAIT \<or> (alg = WAIT_DIE \<and> \<not> canwait tm txn (owners lk))"
  | (granted) "rc = RCOK" "tm' = tm" "\<not> get_conflict alg tm lk type txn"
      "lk' = lk\<lparr>owners := \<lparr>le_type = type, le_txn = txn\<rparr> # owners lk,
                owner_cnt := owner_cnt lk + 1, lock_type := type\<rparr>"
  | (wait_tail) "rc = WAIT" "alg = DL_DETECT" "get_conflict alg tm lk type txn"
      "tm' = tm(txn := (tm txn)\<lparr>lock_ready := False\<rparr>)"
      "lk' = lk\<lparr>waiters := waiters lk @ [\<lparr>le_type = type, le_txn = txn\<rparr>],
                waiter_cnt := waiter_cnt lk + 1\<rparr>"
  | (wait_sorted) "rc = WAIT" "alg = WAIT_DIE" "get_conflict alg tm lk type txn"
      "canwait tm txn (owners lk)" "tm' = tm(txn := (tm txn)\<lparr>lock_ready := False\<rparr>)"
      "lk' = lk\<lparr>waiters := insert_waiter tm \<lparr>le_type = type, le_txn = txn\<rparr> (waiters lk),
                waiter_cnt := waiter_cnt lk + 1\<rparr>"
proof (cases "get_conflict alg tm lk type txn")
  case False
  with assms show thesis by (intro granted) (simp_all add: lock_get_def Let_def)
next
  case conf: True
  show thesis
  proof (cases "alg = NO_WAIT \<or> alg = DL_DETECT")
    case True
    with conf assms show thesis
      by (elim disjE) (simp_all add: lock_get_def Let_def abort wait_tail)
  next
    case False
    with assms have "alg = WAIT_DIE" by (simp add: lock_get_def)
    with conf assms show thesis
      by (cases "canwait tm txn (owners lk)")
        (simp_all add: lock_get_def Let_def abort wait_sorted)
  qed
qed

lemma lock_get_keeps_inv:
  assumes get: "lock_get n alg type txn lk tm = Some (rc, ids, lk', tm')"
    and inv: "lock_inv alg lk" and new: "txn \<notin> row_txns lk" and ty: "type \<noteq> LOCK_NONE"
  shows "lock_inv alg lk'"
  using get
proof (cases rule: lock_get_cases)
  case granted
  have nc: "\<not> conflict_lock (lock_type lk) type" using granted by (simp add: get_conflict_False)
  show ?thesis
    using inv new ty nc granted
    by (cases type; cases "lock_type lk") (auto simp: lock_inv_def row_txns_def)
qed (use inv new ty in \<open>auto simp: lock_inv_def row_txns_def insert_waiter_distinct\<close>)

lemma lock_get_keeps_head_blocked:
  assumes get: "lock_get n alg type txn lk tm = Some (rc, ids, lk', tm')"
    and inv: "lock_inv alg lk" and hb: "head_blocked lk" and ty: "type \<noteq> LOCK_NONE"
  shows "head_blocked lk'"
  using get
proof (cases rule: lock_get_cases)
  case granted
  have nc: "\<not> conflict_lock (lock_type lk) type" using granted by (simp add: get_conflict_False)
  show ?thesis
    using granted nc hb ty by (auto simp: head_blocked_def conflict_lock_iff split: list.splits)
next
  case wait_tail
  then show ?thesis
    using hb get_conflict_True_no_waiters [of alg tm lk type txn]
    by (auto simp: head_blocked_def split: list.splits)
next
  case wait_sorted
  show ?thesis
  proof (cases "waiters lk")
    case Nil
    then show ?thesis using wait_sorted get_conflict_True_no_waiters
      by (auto simp: head_blocked_def)
  next
    case (Cons w ws)
    have "\<not> lk_ts (tm txn) < lk_ts (tm (le_txn w)) \<Longrightarrow> conflict_lock (lock_type lk) type"
      using wait_sorted Cons by (auto simp: get_conflict_def Let_def split: if_splits)
    then show ?thesis using hb wait_sorted Cons by (auto simp: head_blocked_def)
  qed
qed (use hb in simp)

lemma lock_get_keeps_wait_die:
  assumes get: "lock_get n WAIT_DIE type txn lk tm = Some (rc, ids, lk', tm')"
    and wd: "wait_die_inv (\<lambda>t. lk_ts (tm t)) lk"
    and fresh: "\<And>t. t \<in> row_txns lk \<Longrightarrow> lk_ts (tm t) \<noteq> lk_ts (tm txn)"
  shows "wait_die_inv (\<lambda>t. lk_ts (tm' t)) lk'"
  using get
proof (cases rule: lock_get_cases)
  case granted
  have "lk_ts (tm (le_txn w)) < lk_ts (tm txn)" if w: "w \<in> set (waiters lk)" for w
  proof -
    obtain v vs where v: "waiters lk = v # vs" using w by (cases "waiters lk") auto
    have "lk_ts (tm (le_txn v)) \<le> lk_ts (tm txn)"
      using granted v get_conflict_False(3) by fastforce
    moreover have "lk_ts (tm (le_txn w)) \<le> lk_ts (tm (le_txn v))"
      using wd w v by (auto simp: wait_die_inv_def)
    moreover have "lk_ts (tm (le_txn w)) \<noteq> lk_ts (tm txn)"
      using fresh w by (auto simp: row_txns_def)
    ultimately show ?thesis by order
  qed
  then show ?thesis using granted wd by (auto simp: wait_die_inv_def)
next
  case wait_sorted
  have ts: "(\<lambda>t. lk_ts (tm' t)) = (\<lambda>t. lk_ts (tm t))" using wait_sorted by auto
  have "lk_ts (tm txn) < lk_ts (tm (le_txn e))" if "e \<in> set (owners lk)" for e
    using wait_sorted that fresh [of "le_txn e"] by (force simp: canwait_iff row_txns_def order.strict_iff_order)
  then show ?thesis
    unfolding ts
    using wait_sorted(6) wd fresh insert_waiter_sorted [of tm "waiters lk" "\<lparr>le_type = type, le_txn = txn\<rparr>"]
    by (auto simp: wait_die_inv_def row_txns_def)
qed (use wd in simp_all)

text \<open>Removing the transaction's entry.\<close>

lemma row_txns_remove:
  assumes "xs = as @ y # bs" "ys = as @ bs" "distinct (map f (xs @ zs))"
  shows "f ` set xs - {f y} = f ` set ys" and "f ` set zs - {f y} = f ` set zs"
proof -
  have "f y \<notin> f ` set ys" "f y \<notin> f ` set zs" "f ` set xs = insert (f y) (f ` set ys)"
    using assms by auto
  then show "f ` set xs - {f y} = f ` set ys" "f ` set zs - {f y} = f ` set zs"
    by auto
qed

lemma unlink_entry_ok:
  assumes inv: "lock_inv alg lk" and mem: "txn \<in> row_txns lk"
  shows "\<exists>lk1. unlink_entry txn lk = Some lk1 \<and> lock_inv alg lk1 \<and>
           row_txns lk1 = row_txns lk - {txn} \<and>
           row_waiters lk1 = row_waiters lk - {txn} \<and> set (owners lk1) \<subseteq> set (owners lk) \<and>
           (\<forall>ts. wait_die_inv ts lk \<longrightarrow> wait_die_inv ts lk1)"
proof (cases "remove_first (\<lambda>en. le_txn en = txn) (owners lk)")
  case (Some a)
  then obtain y os where rf: "remove_first (\<lambda>en. le_txn en = txn) (owners lk) = Some (y, os)"
    by (cases a) auto
  from remove_first_SomeD [OF rf] obtain as bs where
    os: "owners lk = as @ y # bs" "os = as @ bs" "le_txn y = txn" by auto
  have empty: "owner_cnt lk - 1 = 0 \<longleftrightarrow> os = []" using inv os by (auto simp: lock_inv_def)
  let ?lk = "lk\<lparr>owners := os, owner_cnt := owner_cnt lk - 1,
               lock_type := (if owner_cnt lk - 1 = 0 then LOCK_NONE else lock_type lk)\<rparr>"
  have "unlink_entry txn lk = Some ?lk" using rf by (simp add: unlink_entry_def)
  moreover have "lock_inv alg ?lk"
    using inv os empty by (auto simp: lock_inv_def)
  moreover have "row_txns ?lk = row_txns lk - {txn}" "row_waiters ?lk = row_waiters lk - {txn}"
    using inv os row_txns_remove [of "owners lk" as y bs os le_txn "waiters lk"]
    by (simp_all add: lock_inv_def row_set_defs image_Un Un_Diff)
  moreover have "wait_die_inv ts lk \<Longrightarrow> wait_die_inv ts ?lk" for ts
    using os by (auto simp: wait_die_inv_def)
  ultimately show ?thesis using os by auto
next
  case None
  then have no: "txn \<notin> row_owners lk" by (auto simp: remove_first_None_iff row_owners_def)
  with mem have "\<exists>en\<in>set (waiters lk). le_txn en = txn" by (auto simp: row_set_defs)
  then obtain y ws where rf: "remove_first (\<lambda>en. le_txn en = txn) (waiters lk) = Some (y, ws)"
    by (metis (mono_tags, lifting) not_None_eq remove_first_None_iff surj_pair)
  from remove_first_SomeD [OF rf] obtain as bs where
    ws: "waiters lk = as @ y # bs" "ws = as @ bs" "le_txn y = txn" by auto
  let ?lk = "lk\<lparr>waiters := ws, waiter_cnt := waiter_cnt lk - 1\<rparr>"
  have "unlink_entry txn lk = Some ?lk" using rf None by (simp add: unlink_entry_def)
  moreover have "lock_inv alg ?lk" using inv ws by (auto simp: lock_inv_def)
  moreover have "row_txns ?lk = row_txns lk - {txn}" "row_waiters ?lk = row_waiters lk - {txn}"
    using inv ws no row_txns_remove [of "waiters lk" as y bs ws le_txn "owners lk"]
    by (simp_all add: lock_inv_def row_set_defs image_Un Un_commute Un_Diff)
  moreover have "wait_die_inv ts lk \<Longrightarrow> wait_die_inv ts ?lk" for ts
    using ws by (auto simp: wait_die_inv_def sorted_wrt_append)
  ultimately show ?thesis by auto
qed

text \<open>The promotion loop moves a prefix of the waiters to the owners and wakes exactly those.\<close>

lemma promote_waiters_ok:
  assumes "lock_inv alg (lk\<lparr>waiters := ws\<rparr>)"
    and "\<forall>w\<in>set ws. \<not> lock_ready (tm (le_txn w))"
  shows "\<exists>as bs lk' tm'. ws = as @ bs \<and> promote_waiters ws lk tm = Some (lk', tm') \<and>
           waiters lk' = bs \<and> owners lk' = rev as @ owners lk \<and> lock_inv alg lk' \<and>
           head_blocked lk' \<and>
           (\<forall>t. tm' t = (if t \<in> le_txn ` set as then (tm t)\<lparr>lock_ready := True\<rparr> else tm t))"
  using assms
proof (induction ws arbitrary: lk tm)
  case Nil
  then show ?case by (auto simp: head_blocked_def)
next
  case (Cons w ws)
  show ?case
  proof (cases "conflict_lock (lock_type lk) (le_type w)")
    case True
    with Cons.prems show ?thesis 
      by (intro exI [of _ "[]"] exI [of _ "w # ws"] exI [of _ "lk\<lparr>waiters := w # ws\<rparr>"] exI [of _ tm])
        (simp add: head_blocked_def)
  next
    case False
    let ?lk = "lk\<lparr>owners := w # owners lk, owner_cnt := owner_cnt lk + 1,
                 waiter_cnt := waiter_cnt lk - 1, lock_type := le_type w\<rparr>"
    let ?tm = "tm(le_txn w := (tm (le_txn w))\<lparr>lock_ready := True\<rparr>)"
    have inv: "lock_inv alg (?lk\<lparr>waiters := ws\<rparr>)"
      using Cons.prems(1) False
      by (cases "le_type w"; cases "lock_type lk") (auto simp: lock_inv_def)
    have notin: "le_txn w \<notin> le_txn ` set ws"
      using Cons.prems(1) by (auto simp: lock_inv_def)
    then have rdy: "\<forall>v\<in>set ws. \<not> lock_ready (?tm (le_txn v))"
      using Cons.prems(2) by (metis fun_upd_other image_eqI list.set_intros(2))
    from Cons.IH [OF inv rdy] obtain as bs lk' tm' where
      IH: "ws = as @ bs" "promote_waiters ws ?lk ?tm = Some (lk', tm')" "waiters lk' = bs"
        "owners lk' = rev as @ owners ?lk" "lock_inv alg lk'" "head_blocked lk'"
        "\<forall>t. tm' t = (if t \<in> le_txn ` set as then (?tm t)\<lparr>lock_ready := True\<rparr> else ?tm t)"
      by blast
    have "promote_waiters (w # ws) lk tm = Some (lk', tm')"
      using False Cons.prems(2) IH(2) by simp
    moreover have "\<forall>t. tm' t = (if t \<in> le_txn ` set (w # as) then (tm t)\<lparr>lock_ready := True\<rparr> else tm t)"
      using IH(7) by simp
    moreover have "w # ws = (w # as) @ bs" "owners lk' = rev (w # as) @ owners lk"
      using IH(1,4) by simp_all
    ultimately show ?thesis using IH(3,5,6) by blast
  qed
qed

lemma lock_release_ok:
  assumes inv: "lock_inv alg lk" and mem: "txn \<in> row_txns lk"
    and rdy: "\<forall>t\<in>row_waiters lk. \<not> lock_ready (tm t)"
  shows "\<exists>lk' tm' woken. lock_release txn lk tm = Some (lk', tm') \<and> lock_inv alg lk' \<and>
           head_blocked lk' \<and> row_txns lk' = row_txns lk - {txn} \<and>
           woken \<subseteq> row_waiters lk - {txn} \<and> row_waiters lk' = row_waiters lk - {txn} - woken \<and>
           (\<forall>t. tm' t = (if t \<in> woken then (tm t)\<lparr>lock_ready := True\<rparr> else tm t)) \<and>
           (\<forall>ts. wait_die_inv ts lk \<longrightarrow> wait_die_inv ts lk')"
proof -
  from unlink_entry_ok [OF inv mem] obtain lk1 where
    u: "unlink_entry txn lk = Some lk1" "lock_inv alg lk1" "row_txns lk1 = row_txns lk - {txn}"
      "row_waiters lk1 = row_waiters lk - {txn}"
      "\<forall>ts. wait_die_inv ts lk \<longrightarrow> wait_die_inv ts lk1" by blast
  have inv1: "lock_inv alg (lk1\<lparr>waiters := waiters lk1\<rparr>)" using u(2) by simp
  have rdy1: "\<forall>w\<in>set (waiters lk1). \<not> lock_ready (tm (le_txn w))"
    using rdy u(4) unfolding row_waiters_def by blast
  from promote_waiters_ok [OF inv1 rdy1] obtain as bs lk2 tm2 where
    p: "waiters lk1 = as @ bs" "promote_waiters (waiters lk1) lk1 tm = Some (lk2, tm2)"
      "waiters lk2 = bs" "owners lk2 = rev as @ owners lk1" "lock_inv alg lk2" "head_blocked lk2"
      "\<forall>t. tm2 t = (if t \<in> le_txn ` set as then (tm t)\<lparr>lock_ready := True\<rparr> else tm t)" by blast
  have "lock_release txn lk tm = Some (lk2, tm2)"
    using u(1,2) p(2,5) by (simp add: lock_release_def lock_inv_def)
  moreover have "row_txns lk2 = row_txns lk - {txn}"
    using u(3) p(1,3,4) by (auto simp: row_txns_def)
  moreover have "distinct (map le_txn (as @ bs))" using u(2) p(1) by (simp add: lock_inv_def)
  then have "row_waiters lk2 = row_waiters lk1 - le_txn ` set as"
    using p(1,3) by (auto simp: row_waiters_def)
  moreover have "le_txn ` set as \<subseteq> row_waiters lk1" using p(1) by (auto simp: row_waiters_def)
  moreover have "wait_die_inv ts lk1 \<Longrightarrow> wait_die_inv ts lk2" for ts
    using p(1,3,4) by (auto simp: wait_die_inv_def sorted_wrt_append)
  ultimately show ?thesis
    using p(5,6,7) u(4,5) by (intro exI [of _ lk2] exI [of _ tm2] exI [of _ "le_txn ` set as"]) auto
qed

text \<open>
  A transaction that blocks under DL\_DETECT is always given someone to depend on, so
  \<open>ASSERT(txncnt > 0)\<close> cannot fail.
\<close>

lemma wait_for_ids_nonempty:
  assumes inv: "lock_inv alg lk" and hb: "head_blocked lk" and ty: "type \<noteq> LOCK_NONE"
    and conf: "get_conflict DL_DETECT tm lk type txn"
  shows "wait_for_ids tm (lk\<lparr>waiters := waiters lk @ [e], waiter_cnt := c\<rparr>) type \<noteq> []"
proof (cases "conflict_lock type (lock_type lk)")
  case True
  then have "owners lk \<noteq> []" using inv by (auto simp: lock_inv_def)
  with True show ?thesis by (simp add: wait_for_ids_def)
next
  case False
  then have "waiters lk \<noteq> []"
    using conf get_conflict_True_no_waiters [OF conf] by (auto simp: conflict_lock_iff)
  then obtain w ws where w: "waiters lk = w # ws" by (cases "waiters lk") auto
  with hb False ty have "conflict_lock type (le_type w)"
    by (auto simp: head_blocked_def conflict_lock_iff)
  then show ?thesis using w by (auto simp: wait_for_ids_def filter_empty_conv)
qed

lemma card_row_txns:
  assumes "lock_inv alg lk"
  shows "card (row_txns lk) = owner_cnt lk + waiter_cnt lk"
proof -
  have d: "distinct (map le_txn (owners lk @ waiters lk))" using assms by (simp add: lock_inv_def)
  have "row_txns lk = set (map le_txn (owners lk @ waiters lk))"
    by (simp add: row_txns_def image_Un)
  then have "card (row_txns lk) = length (map le_txn (owners lk @ waiters lk))"
    using distinct_card [OF d] by simp
  then show ?thesis using assms by (simp add: lock_inv_def)
qed

text \<open>No assertion of a request can fail when the threads' entries are distinct.\<close>

lemma lock_get_total:
  assumes inv: "lock_inv alg lk" and hb: "head_blocked lk" and ty: "type \<noteq> LOCK_NONE"
    and alg: "alg = DL_DETECT \<or> alg = NO_WAIT \<or> alg = WAIT_DIE"
    and thd: "row_txns lk \<subseteq> {..<n}" and txn: "txn < n" and new: "txn \<notin> row_txns lk"
  shows "\<exists>res. lock_get n alg type txn lk tm = Some res"
proof -
  have "card (row_txns lk) < card {..<n}"
    using thd txn new by (intro psubset_card_mono) auto
  then have cnt: "owner_cnt lk \<le> n" "waiter_cnt lk < n"
    using card_row_txns [OF inv] by auto
  have "alg = DL_DETECT \<Longrightarrow> get_conflict alg tm lk type txn \<Longrightarrow>
      wait_for_ids tm (lk\<lparr>waiters := waiters lk @ [\<lparr>le_type = type, le_txn = txn\<rparr>],
        waiter_cnt := waiter_cnt lk + 1\<rparr>) type \<noteq> []"
    using wait_for_ids_nonempty [OF inv hb ty] by simp
  then show ?thesis
    using alg cnt get_conflict_False(2) [of alg tm lk type txn]
    by (auto simp: lock_get_def Let_def assert_then_def)
qed

end
