(* ===== verification/Lock_System.thy ===== *)
theory Lock_System
  imports Row_Lock
begin

text \<open>
  All rows and all worker threads of a two-phase-locking run: threads request locks, are granted,
  wait or die, and release, in any interleaving of the latched operations of Row\_Lock.  A thread
  that waits spins in \<open>row_t::get_row\<close> (storage/row.cpp 25 to 85) and issues no other request; it
  leaves the waiter list by being promoted, or, under DL\_DETECT, by giving up after
  \<open>lock_abort\<close> was set.
\<close>

record lock_sys =
  sys_rows :: "row_ptr \<Rightarrow> Row_lock"
  sys_txns :: lk_txns

definition sys_waiting :: "lock_sys \<Rightarrow> txn_ptr \<Rightarrow> row_ptr \<Rightarrow> bool" where
  "sys_waiting s t r \<longleftrightarrow> t \<in> row_waiters (sys_rows s r)"

definition sys_holds :: "lock_sys \<Rightarrow> txn_ptr \<Rightarrow> row_ptr \<Rightarrow> bool" where
  "sys_holds s t r \<longleftrightarrow> t \<in> row_owners (sys_rows s r)"

abbreviation sys_ts :: "lock_sys \<Rightarrow> txn_ptr \<Rightarrow> ts_t" where
  "sys_ts s t \<equiv> lk_ts (sys_txns s t)"

text \<open>
  The lock type of an access (storage/row.cpp 13).
\<close>

definition lock_type_of :: "access_t \<Rightarrow> lock_t" where
  "lock_type_of a = (if a = RD \<or> a = SCAN then LOCK_SH else LOCK_EX)"

inductive lock_step :: "nat \<Rightarrow> cc_alg \<Rightarrow> lock_sys \<Rightarrow> lock_sys \<Rightarrow> bool" for n alg where
  request: "t < n \<Longrightarrow> (\<forall>r'. \<not> sys_waiting s t r') \<Longrightarrow> t \<notin> row_txns (sys_rows s r) \<Longrightarrow>
     lock_get n alg (lock_type_of a) t (sys_rows s r) (sys_txns s) = Some (rc, ids, lk', tm') \<Longrightarrow>
     lock_step n alg s (s\<lparr>sys_rows := (sys_rows s)(r := lk'), sys_txns := tm'\<rparr>)"
| release: "t \<in> row_txns (sys_rows s r) \<Longrightarrow> (\<forall>r'. sys_waiting s t r' \<longrightarrow> r' = r) \<Longrightarrow>
     lock_release t (sys_rows s r) (sys_txns s) = Some (lk', tm') \<Longrightarrow>
     lock_step n alg s (s\<lparr>sys_rows := (sys_rows s)(r := lk'), sys_txns := tm'\<rparr>)"
| new_ts: "t < n \<Longrightarrow> (\<forall>r. t \<notin> row_txns (sys_rows s r)) \<Longrightarrow>
     (\<forall>u<n. u \<noteq> t \<longrightarrow> sys_ts s u \<noteq> x) \<Longrightarrow>
     lock_step n alg s (s\<lparr>sys_txns := (sys_txns s)(t := (sys_txns s t)\<lparr>lk_ts := x\<rparr>)\<rparr>)"
| set_abort: "lock_step n alg s
     (s\<lparr>sys_txns := (sys_txns s)(t := (sys_txns s t)\<lparr>lock_abort := b\<rparr>)\<rparr>)"

definition lock_start :: "nat \<Rightarrow> lock_sys \<Rightarrow> bool" where
  "lock_start n s \<longleftrightarrow> (\<forall>r. sys_rows s r = lock_init) \<and> inj_on (sys_ts s) {..<n}"

inductive lock_reach :: "nat \<Rightarrow> cc_alg \<Rightarrow> lock_sys \<Rightarrow> bool" for n alg where
  start: "lock_start n s \<Longrightarrow> lock_reach n alg s"
| step: "lock_reach n alg s \<Longrightarrow> lock_step n alg s s' \<Longrightarrow> lock_reach n alg s'"

section \<open>The system invariant\<close>

definition sys_inv :: "nat \<Rightarrow> cc_alg \<Rightarrow> lock_sys \<Rightarrow> bool" where
  "sys_inv n alg s \<longleftrightarrow>
     (\<forall>r. lock_inv alg (sys_rows s r) \<and> head_blocked (sys_rows s r) \<and>
          row_txns (sys_rows s r) \<subseteq> {..<n}) \<and>
     (\<forall>t r r'. sys_waiting s t r \<longrightarrow> sys_waiting s t r' \<longrightarrow> r = r') \<and>
     (\<forall>t r. sys_waiting s t r \<longrightarrow> \<not> lock_ready (sys_txns s t)) \<and>
     inj_on (sys_ts s) {..<n} \<and>
     (alg = WAIT_DIE \<longrightarrow> (\<forall>r. wait_die_inv (sys_ts s) (sys_rows s r)))"

lemma lock_type_of_not_NONE [simp]: "lock_type_of a \<noteq> LOCK_NONE"
  by (simp add: lock_type_of_def)

lemma row_txns_eq: "row_txns lk = row_owners lk \<union> row_waiters lk"
  by (auto simp: row_set_defs)

text \<open>
  Who a waiting thread waits for: the owners of its row and the waiters that stand ahead of it.
\<close>

definition ahead :: "LockEntry list \<Rightarrow> txn_ptr \<Rightarrow> txn_ptr set" where
  "ahead ws t = le_txn ` set (takeWhile (\<lambda>e. le_txn e \<noteq> t) ws)"

definition waits_for :: "lock_sys \<Rightarrow> (txn_ptr \<times> txn_ptr) set" where
  "waits_for s = {(a, b). \<exists>r. sys_waiting s a r \<and>
     (sys_holds s b r \<or> b \<in> ahead (waiters (sys_rows s r)) a)}"

lemma sys_inv_start: "lock_start n s \<Longrightarrow> sys_inv n alg s"
  using lock_inv_init
  by (auto simp: lock_start_def sys_inv_def sys_waiting_def row_set_defs lock_init_def)

lemma lock_get_frame:
  assumes "lock_get n alg type txn lk tm = Some (rc, ids, lk', tm')"
  shows "row_txns lk' \<subseteq> insert txn (row_txns lk)"
    and "row_waiters lk' \<subseteq> insert txn (row_waiters lk)"
    and "row_waiters lk \<subseteq> row_waiters lk'"
    and "lk_ts (tm' t) = lk_ts (tm t)"
    and "t \<noteq> txn \<Longrightarrow> tm' t = tm t"
    and "txn \<notin> row_waiters lk \<Longrightarrow> txn \<in> row_waiters lk' \<Longrightarrow> \<not> lock_ready (tm' txn)"
  using assms by (cases rule: lock_get_cases; auto simp: row_set_defs)+

lemma request_keeps_inv:
  assumes inv: "sys_inv n alg s" and t: "t < n" and idle: "\<forall>r'. \<not> sys_waiting s t r'"
    and new: "t \<notin> row_txns (sys_rows s r)"
    and get: "lock_get n alg (lock_type_of a) t (sys_rows s r) (sys_txns s) = Some (rc, ids, lk', tm')"
  shows "sys_inv n alg (s\<lparr>sys_rows := (sys_rows s)(r := lk'), sys_txns := tm'\<rparr>)"
proof -
  note fr = lock_get_frame [OF get]
  let ?s = "s\<lparr>sys_rows := (sys_rows s)(r := lk'), sys_txns := tm'\<rparr>"
  have ts: "sys_ts ?s = sys_ts s" using fr(4) by auto
  have ts': "(\<lambda>t. lk_ts (tm' t)) = sys_ts s" using fr(4) by auto
  have lk': "lock_inv alg lk'" "head_blocked lk'" "row_txns lk' \<subseteq> {..<n}"
    using inv new t fr(1) lock_get_keeps_inv [OF get] lock_get_keeps_head_blocked [OF get]
    by (auto simp: sys_inv_def)
  have wait: "sys_waiting ?s u r' \<Longrightarrow> sys_waiting s u r' \<or> (u = t \<and> r' = r)" for u r'
    using fr(2) by (auto simp: sys_waiting_def split: if_splits)
  have one: "\<forall>u r1 r2. sys_waiting ?s u r1 \<longrightarrow> sys_waiting ?s u r2 \<longrightarrow> r1 = r2"
    using inv idle by (auto simp: sys_inv_def dest!: wait)
  have rdy: "\<not> lock_ready (sys_txns ?s u)" if "sys_waiting ?s u r'" for u r'
  proof (cases "u = t")
    case True
    with that wait idle have "r' = r" by auto
    with True that idle fr(6) show ?thesis by (auto simp: sys_waiting_def)
  next
    case False
    with that wait have "sys_waiting s u r'" by auto
    with False inv fr(5) show ?thesis by (auto simp: sys_inv_def)
  qed
  have wd: "wait_die_inv (sys_ts ?s) (sys_rows ?s r')" if "alg = WAIT_DIE" for r'
  proof -
    have "sys_ts s u \<noteq> sys_ts s t" if u: "u \<in> row_txns (sys_rows s r)" for u
    proof -
      have "u \<in> {..<n}" "u \<noteq> t" using u new inv by (auto simp: sys_inv_def)
      then show ?thesis using inv t by (auto simp: sys_inv_def dest: inj_onD)
    qed
    then have "wait_die_inv (\<lambda>t. lk_ts (tm' t)) lk'"
      using lock_get_keeps_wait_die [OF get [unfolded that]] inv that by (auto simp: sys_inv_def)
    moreover have "wait_die_inv (\<lambda>t. lk_ts (tm' t)) (sys_rows s r')"
      unfolding ts' using inv that by (simp add: sys_inv_def)
    ultimately show ?thesis by simp
  qed
  have "\<forall>r'. lock_inv alg (sys_rows ?s r') \<and> head_blocked (sys_rows ?s r') \<and>
      row_txns (sys_rows ?s r') \<subseteq> {..<n}"
    using lk' inv by (simp add: sys_inv_def)
  moreover have "inj_on (sys_ts ?s) {..<n}" unfolding ts using inv by (simp add: sys_inv_def)
  ultimately show ?thesis
    unfolding sys_inv_def using one rdy wd by blast
qed

lemma release_keeps_inv:
  assumes inv: "sys_inv n alg s" and mem: "t \<in> row_txns (sys_rows s r)"
    and rel: "lock_release t (sys_rows s r) (sys_txns s) = Some (lk', tm')"
  shows "sys_inv n alg (s\<lparr>sys_rows := (sys_rows s)(r := lk'), sys_txns := tm'\<rparr>)"
proof -
  let ?s = "s\<lparr>sys_rows := (sys_rows s)(r := lk'), sys_txns := tm'\<rparr>"
  have "\<forall>u\<in>row_waiters (sys_rows s r). \<not> lock_ready (sys_txns s u)"
    using inv by (auto simp: sys_inv_def sys_waiting_def)
  with inv lock_release_ok [of alg "sys_rows s r" t "sys_txns s", OF _ mem] rel obtain woken where
    ok: "lock_inv alg lk'" "head_blocked lk'" "row_txns lk' = row_txns (sys_rows s r) - {t}"
      "woken \<subseteq> row_waiters (sys_rows s r) - {t}"
      "row_waiters lk' = row_waiters (sys_rows s r) - {t} - woken"
      "\<forall>u. tm' u = (if u \<in> woken then (sys_txns s u)\<lparr>lock_ready := True\<rparr> else sys_txns s u)"
      "\<forall>ts. wait_die_inv ts (sys_rows s r) \<longrightarrow> wait_die_inv ts lk'"
    by (auto simp: sys_inv_def)
  have ts: "sys_ts ?s = sys_ts s" using ok(6) by auto
  have wait: "sys_waiting ?s u r' \<Longrightarrow> sys_waiting s u r' \<and> (r' = r \<longrightarrow> u \<notin> woken)" for u r'
    using ok(5) by (auto simp: sys_waiting_def split: if_splits)
  have unique: "sys_waiting s u r1 \<Longrightarrow> sys_waiting s u r2 \<Longrightarrow> r1 = r2" for u r1 r2
    using inv unfolding sys_inv_def by blast
  have notwoken: "u \<notin> woken" if "sys_waiting ?s u r'" for u r'
    using wait [OF that] unique ok(4) by (auto simp: sys_waiting_def)
  have rdy: "\<not> lock_ready (sys_txns ?s u)" if "sys_waiting ?s u r'" for u r'
    using notwoken [OF that] wait [OF that] ok(6) inv by (auto simp: sys_inv_def)
  show ?thesis
    unfolding sys_inv_def ts
    using inv ok(1-3,7) unique rdy wait by (auto simp: sys_inv_def dest!: wait)
qed

lemma new_ts_keeps_inv:
  assumes inv: "sys_inv n alg s" and t: "t < n" and idle: "\<forall>r. t \<notin> row_txns (sys_rows s r)"
    and fresh: "\<forall>u<n. u \<noteq> t \<longrightarrow> sys_ts s u \<noteq> x"
  shows "sys_inv n alg (s\<lparr>sys_txns := (sys_txns s)(t := (sys_txns s t)\<lparr>lk_ts := x\<rparr>)\<rparr>)"
proof -
  let ?s = "s\<lparr>sys_txns := (sys_txns s)(t := (sys_txns s t)\<lparr>lk_ts := x\<rparr>)\<rparr>"
  have idle': "le_txn e \<noteq> t" if "e \<in> set (owners (sys_rows s r)) \<or> e \<in> set (waiters (sys_rows s r))" for e r
    using idle that by (auto simp: row_txns_def)
  have wd: "wait_die_inv (sys_ts ?s) (sys_rows s r)" if "wait_die_inv (sys_ts s) (sys_rows s r)" for r
  proof -
    have "sorted_wrt (\<lambda>a b. sys_ts ?s (le_txn b) < sys_ts ?s (le_txn a)) (waiters (sys_rows s r))"
      by (rule sorted_wrt_mono_rel [of _ "\<lambda>a b. sys_ts s (le_txn b) < sys_ts s (le_txn a)"])
        (use that idle' in \<open>auto simp: wait_die_inv_def\<close>)
    then show ?thesis using that idle' by (auto simp: wait_die_inv_def)
  qed
  have inj: "inj_on (sys_ts ?s) {..<n}"
    using inv fresh by (auto simp: sys_inv_def inj_on_def)
  show ?thesis
    using inv inj wd by (auto simp: sys_inv_def sys_waiting_def)
qed

lemma set_abort_keeps_inv:
  assumes "sys_inv n alg s"
  shows "sys_inv n alg (s\<lparr>sys_txns := (sys_txns s)(t := (sys_txns s t)\<lparr>lock_abort := b\<rparr>)\<rparr>)"
proof -
  let ?s = "s\<lparr>sys_txns := (sys_txns s)(t := (sys_txns s t)\<lparr>lock_abort := b\<rparr>)\<rparr>"
  have ts: "sys_ts ?s = sys_ts s" by auto
  show ?thesis unfolding sys_inv_def ts using assms by (auto simp: sys_inv_def sys_waiting_def)
qed

lemma lock_step_inv: "lock_step n alg s s' \<Longrightarrow> sys_inv n alg s \<Longrightarrow> sys_inv n alg s'"
  by (induction rule: lock_step.induct)
    (auto intro: request_keeps_inv release_keeps_inv new_ts_keeps_inv set_abort_keeps_inv)

lemma lock_reach_inv: "lock_reach n alg s \<Longrightarrow> sys_inv n alg s"
  by (induction rule: lock_reach.induct) (auto intro: sys_inv_start lock_step_inv)

section \<open>Consequences for every reachable state\<close>

lemma waits_for_older:
  assumes inv: "sys_inv n WAIT_DIE s" and ab: "(a, b) \<in> waits_for s"
  shows "sys_ts s a < sys_ts s b"
proof -
  from ab obtain r where r: "sys_waiting s a r"
    "sys_holds s b r \<or> b \<in> ahead (waiters (sys_rows s r)) a" by (auto simp: waits_for_def)
  have wd: "wait_die_inv (sys_ts s) (sys_rows s r)" using inv by (simp add: sys_inv_def)
  from r(2) show ?thesis
  proof
    assume "sys_holds s b r"
    then show ?thesis using r(1) wd
      by (auto simp: sys_holds_def sys_waiting_def row_set_defs wait_die_inv_def)
  next
    assume b: "b \<in> ahead (waiters (sys_rows s r)) a"
    let ?P = "\<lambda>e. le_txn e \<noteq> a" and ?ws = "waiters (sys_rows s r)"
    obtain e where e: "e \<in> set ?ws" "le_txn e = a"
      using r(1) by (auto simp: sys_waiting_def row_waiters_def)
    then have "dropWhile ?P ?ws \<noteq> []" by (auto simp: dropWhile_eq_Nil_conv)
    then have hd: "le_txn (hd (dropWhile ?P ?ws)) = a" "hd (dropWhile ?P ?ws) \<in> set (dropWhile ?P ?ws)"
      using hd_dropWhile [of ?P ?ws] by auto
    from wd have "sorted_wrt (\<lambda>x y. sys_ts s (le_txn y) < sys_ts s (le_txn x))
        (takeWhile ?P ?ws @ dropWhile ?P ?ws)" by (simp add: wait_die_inv_def)
    then have "\<forall>x\<in>set (takeWhile ?P ?ws). \<forall>y\<in>set (dropWhile ?P ?ws).
        sys_ts s (le_txn y) < sys_ts s (le_txn x)" unfolding sorted_wrt_append by blast
    then have "\<forall>x\<in>set (takeWhile ?P ?ws). sys_ts s a < sys_ts s (le_txn x)" using hd by metis
    then show ?thesis using b unfolding ahead_def by blast
  qed
qed

text \<open>
  C2. In every state a run can reach, under each of the three locking algorithms, two different
  entries in a row's owner list are both shared: an exclusive owner is alone.
\<close>

theorem lock_mutual_exclusion:
  assumes "lock_reach n alg s"
    and "e \<in> set (owners (sys_rows s r))" and "e' \<in> set (owners (sys_rows s r))" and "e \<noteq> e'"
  shows "le_type e = LOCK_SH \<and> le_type e' = LOCK_SH"
proof -
  have inv: "lock_inv alg (sys_rows s r)"
    using lock_reach_inv [OF assms(1)] by (simp add: sys_inv_def)
  have "lock_type (sys_rows s r) \<noteq> LOCK_EX"
    using inv assms(2-4) by (auto simp: lock_inv_def length_Suc_conv)
  moreover have "lock_type (sys_rows s r) \<noteq> LOCK_NONE" using inv assms(2) by (auto simp: lock_inv_def)
  ultimately have "lock_type (sys_rows s r) = LOCK_SH" by (cases "lock_type (sys_rows s r)") auto
  then show ?thesis using inv assms(2,3) by (auto simp: lock_inv_def)
qed


text \<open>
  Under WAIT\_DIE, whenever some thread waits, some thread that is not waiting holds a lock:
  a waiting set always has a running transaction whose release can wake it.
\<close>

theorem wait_die_someone_runs:
  assumes reach: "lock_reach n WAIT_DIE s" and wait: "sys_waiting s t r"
  shows "\<exists>u r'. sys_holds s u r' \<and> (\<forall>r''. \<not> sys_waiting s u r'')"
proof -
  have inv: "sys_inv n WAIT_DIE s" by (rule lock_reach_inv [OF reach])
  let ?W = "{u. \<exists>r. sys_waiting s u r}"
  have sub: "?W \<subseteq> {..<n}" using inv by (auto simp: sys_inv_def sys_waiting_def row_txns_eq)
  then have fin: "finite ?W" by (rule finite_subset) simp
  have "finite (sys_ts s ` ?W)" "sys_ts s ` ?W \<noteq> {}" using fin wait by auto
  then obtain m where m: "m \<in> sys_ts s ` ?W" "\<forall>x\<in>sys_ts s ` ?W. x \<le> m"
    by (meson Max_ge Max_in)
  then obtain u r1 where u: "sys_waiting s u r1" "m = sys_ts s u" by auto
  have "head_blocked (sys_rows s r1)" using inv by (simp add: sys_inv_def)
  then have "conflict_lock (lock_type (sys_rows s r1)) (le_type (hd (waiters (sys_rows s r1))))"
    using u(1) by (cases "waiters (sys_rows s r1)")
      (auto simp: head_blocked_def sys_waiting_def row_waiters_def)
  moreover have "lock_inv WAIT_DIE (sys_rows s r1)" using inv by (simp add: sys_inv_def)
  ultimately have "owners (sys_rows s r1) \<noteq> []" by (auto simp: lock_inv_def)
  then have "sys_holds s (le_txn (hd (owners (sys_rows s r1)))) r1"
    by (simp add: sys_holds_def row_owners_def)
  then obtain v where v: "sys_holds s v r1" by blast
  then have "(u, v) \<in> waits_for s" using u(1) by (auto simp: waits_for_def)
  then have "sys_ts s u < sys_ts s v" by (rule waits_for_older [OF inv])
  then have "\<forall>r''. \<not> sys_waiting s v r''" using m(2) u(2) by (auto simp: not_le)
  with v show ?thesis by blast
qed

text \<open>
  In every reachable state a legal call of \<open>lock_get\<close> or \<open>lock_release\<close> runs to its return:
  none of the assertions on the counters, the waiter list, the ready flags and the dependency ids
  can fail.
\<close>

theorem lock_ops_never_assert:
  assumes reach: "lock_reach n alg s"
    and alg: "alg = DL_DETECT \<or> alg = NO_WAIT \<or> alg = WAIT_DIE" and t: "t < n"
  shows "(t \<notin> row_txns (sys_rows s r) \<longrightarrow>
           (\<exists>res. lock_get n alg (lock_type_of a) t (sys_rows s r) (sys_txns s) = Some res)) \<and>
         (t \<in> row_txns (sys_rows s r) \<longrightarrow>
           (\<exists>res. lock_release t (sys_rows s r) (sys_txns s) = Some res))"
proof -
  have inv: "sys_inv n alg s" by (rule lock_reach_inv [OF reach])
  then have row: "lock_inv alg (sys_rows s r)" "head_blocked (sys_rows s r)"
      "row_txns (sys_rows s r) \<subseteq> {..<n}" "\<forall>t\<in>row_waiters (sys_rows s r). \<not> lock_ready (sys_txns s t)"
    by (auto simp: sys_inv_def sys_waiting_def)
  have "\<exists>res. lock_get n alg (lock_type_of a) t (sys_rows s r) (sys_txns s) = Some res"
    if "t \<notin> row_txns (sys_rows s r)"
    using lock_get_total [OF row(1,2) _ alg row(3) t that] by simp
  moreover have "\<exists>res. lock_release t (sys_rows s r) (sys_txns s) = Some res"
    if "t \<in> row_txns (sys_rows s r)"
    using lock_release_ok [OF row(1) that row(4)] by blast
  ultimately show ?thesis by blast
qed

text \<open>
  C24. No wake-up is lost: in every reachable state a row with waiters has an owner, and its first
  waiter asks for a lock that conflicts with the one that is held.  Under NO\_WAIT there are no
  waiters at all.
\<close>

theorem no_lost_wakeup:
  assumes "lock_reach n alg s" and "waiters (sys_rows s r) = w # ws"
  shows "alg \<noteq> NO_WAIT \<and> (\<exists>e\<in>set (owners (sys_rows s r)). conflict_lock (le_type e) (le_type w))"
proof -
  have inv: "lock_inv alg (sys_rows s r)" "head_blocked (sys_rows s r)"
    using lock_reach_inv [OF assms(1)] by (auto simp: sys_inv_def)
  then have c: "conflict_lock (lock_type (sys_rows s r)) (le_type w)"
    using assms(2) by (simp add: head_blocked_def)
  then obtain e es where "owners (sys_rows s r) = e # es"
    using inv(1) by (cases "owners (sys_rows s r)") (auto simp: lock_inv_def)
  then show ?thesis using c inv(1) assms(2) by (auto simp: lock_inv_def)
qed

section \<open>Witnesses\<close>

text \<open>
  Two threads under WAIT\_DIE: thread 1 (timestamp 1) takes row 0 exclusively, then the older
  thread 0 (timestamp 0) asks for it and waits.
\<close>

definition demo_start :: lock_sys where
  "demo_start = \<lparr>sys_rows = (\<lambda>_. lock_init),
     sys_txns = (\<lambda>t. \<lparr>lk_ts = of_nat t, lk_txn_id = of_nat t, lock_ready = False, lock_abort = False\<rparr>)\<rparr>"

definition demo_held :: lock_sys where
  "demo_held = demo_start\<lparr>sys_rows := (sys_rows demo_start)(0 :=
     \<lparr>lock_type = LOCK_EX, owner_cnt = 1, waiter_cnt = 0,
      owners = [\<lparr>le_type = LOCK_EX, le_txn = 1\<rparr>], waiters = []\<rparr>)\<rparr>"

definition demo_wait :: lock_sys where
  "demo_wait = demo_held\<lparr>sys_rows := (sys_rows demo_held)(0 :=
     \<lparr>lock_type = LOCK_EX, owner_cnt = 1, waiter_cnt = 1,
      owners = [\<lparr>le_type = LOCK_EX, le_txn = 1\<rparr>], waiters = [\<lparr>le_type = LOCK_EX, le_txn = 0\<rparr>]\<rparr>)\<rparr>"

lemmas demo_defs = demo_start_def demo_held_def demo_wait_def lock_init_def
  lock_get_def get_conflict_def lock_type_of_def row_set_defs sys_waiting_def sys_holds_def

lemma demo_held_reach: "lock_reach 2 WAIT_DIE demo_held"
proof (rule lock_reach.step [OF lock_reach.start])
  show "lock_start 2 demo_start"
    by (auto simp: lock_start_def demo_start_def inj_on_def less_2_cases_iff)
  have "lock_get 2 WAIT_DIE (lock_type_of WR) 1 (sys_rows demo_start 0) (sys_txns demo_start)
      = Some (RCOK, [], sys_rows demo_held 0, sys_txns demo_start)"
    by (simp add: demo_defs)
  then have "lock_step 2 WAIT_DIE demo_start
      (demo_start\<lparr>sys_rows := (sys_rows demo_start)(0 := sys_rows demo_held 0), sys_txns := sys_txns demo_start\<rparr>)"
    by (rule lock_step.request [rotated 3]) (simp_all add: demo_defs)
  then show "lock_step 2 WAIT_DIE demo_start demo_held"
    by (simp add: demo_held_def demo_start_def)
qed

lemma demo_wait_reach: "lock_reach 2 WAIT_DIE demo_wait"
proof (rule lock_reach.step [OF demo_held_reach])
  have "lock_get 2 WAIT_DIE (lock_type_of WR) 0 (sys_rows demo_held 0) (sys_txns demo_held)
      = Some (WAIT, [], sys_rows demo_wait 0, sys_txns demo_held)"
    by (auto simp: demo_defs Let_def)
  then have "lock_step 2 WAIT_DIE demo_held
      (demo_held\<lparr>sys_rows := (sys_rows demo_held)(0 := sys_rows demo_wait 0), sys_txns := sys_txns demo_held\<rparr>)"
    by (rule lock_step.request [rotated 3]) (simp_all add: demo_defs)
  then show "lock_step 2 WAIT_DIE demo_held demo_wait"
    by (simp add: demo_wait_def demo_held_def demo_start_def)
qed

text \<open>Two shared owners of row 0 under NO\_WAIT, for mutual exclusion.\<close>

definition demo_shared :: lock_sys where
  "demo_shared = demo_start\<lparr>sys_rows := (sys_rows demo_start)(0 :=
     \<lparr>lock_type = LOCK_SH, owner_cnt = 2, waiter_cnt = 0,
      owners = [\<lparr>le_type = LOCK_SH, le_txn = 1\<rparr>, \<lparr>le_type = LOCK_SH, le_txn = 0\<rparr>],
      waiters = []\<rparr>)\<rparr>"

definition demo_shared1 :: lock_sys where
  "demo_shared1 = demo_start\<lparr>sys_rows := (sys_rows demo_start)(0 :=
     \<lparr>lock_type = LOCK_SH, owner_cnt = 1, waiter_cnt = 0,
      owners = [\<lparr>le_type = LOCK_SH, le_txn = 0\<rparr>], waiters = []\<rparr>)\<rparr>"

lemma demo_shared_reach: "lock_reach 2 NO_WAIT demo_shared"
proof (rule lock_reach.step [OF lock_reach.step [OF lock_reach.start]])
  show "lock_start 2 demo_start"
    by (auto simp: lock_start_def demo_start_def inj_on_def less_2_cases_iff)
  have "lock_get 2 NO_WAIT (lock_type_of RD) 0 (sys_rows demo_start 0) (sys_txns demo_start)
      = Some (RCOK, [], sys_rows demo_shared1 0, sys_txns demo_start)"
    by (simp add: demo_defs demo_shared1_def)
  then have "lock_step 2 NO_WAIT demo_start (demo_start\<lparr>sys_rows :=
      (sys_rows demo_start)(0 := sys_rows demo_shared1 0), sys_txns := sys_txns demo_start\<rparr>)"
    by (rule lock_step.request [rotated 3]) (simp_all add: demo_defs)
  then show "lock_step 2 NO_WAIT demo_start demo_shared1"
    by (simp add: demo_shared1_def demo_start_def)
  have "lock_get 2 NO_WAIT (lock_type_of RD) 1 (sys_rows demo_shared1 0) (sys_txns demo_shared1)
      = Some (RCOK, [], sys_rows demo_shared 0, sys_txns demo_shared1)"
    by (simp add: demo_defs demo_shared1_def demo_shared_def)
  then have "lock_step 2 NO_WAIT demo_shared1 (demo_shared1\<lparr>sys_rows :=
      (sys_rows demo_shared1)(0 := sys_rows demo_shared 0), sys_txns := sys_txns demo_shared1\<rparr>)"
    by (rule lock_step.request [rotated 3]) (simp_all add: demo_defs demo_shared1_def)
  then show "lock_step 2 NO_WAIT demo_shared1 demo_shared"
    by (simp add: demo_shared1_def demo_shared_def demo_start_def)
qed

theorem lock_mutual_exclusion_witness:
  "lock_reach 2 NO_WAIT demo_shared \<and> (LOCK_SH = LOCK_SH \<and> LOCK_SH = LOCK_SH)"
  using lock_mutual_exclusion [OF demo_shared_reach,
    of "\<lparr>le_type = LOCK_SH, le_txn = 1\<rparr>" 0 "\<lparr>le_type = LOCK_SH, le_txn = 0\<rparr>"] demo_shared_reach
  by (simp add: demo_shared_def)


theorem wait_die_someone_runs_witness:
  "\<exists>u r'. sys_holds demo_wait u r' \<and> (\<forall>r''. \<not> sys_waiting demo_wait u r'')"
  by (rule wait_die_someone_runs [OF demo_wait_reach, of 0 0]) (simp add: demo_defs)

theorem lock_ops_never_assert_witness:
  "\<exists>res. lock_release 0 (sys_rows demo_wait 0) (sys_txns demo_wait) = Some res"
  using lock_ops_never_assert [OF demo_wait_reach, of 0 0 WR] by (simp add: demo_defs)

theorem no_lost_wakeup_witness:
  "WAIT_DIE \<noteq> NO_WAIT \<and>
   (\<exists>e\<in>set (owners (sys_rows demo_wait 0)). conflict_lock (le_type e) LOCK_EX)"
  using no_lost_wakeup [OF demo_wait_reach, of 0 "\<lparr>le_type = LOCK_EX, le_txn = 0\<rparr>" "[]"]
  by (simp add: demo_defs)

end
