(* ===== verification/Txn_Locking.thy ===== *)
theory Txn_Locking
  imports Lock_System
begin

text \<open>
  Transactions under two-phase locking: \<open>txn_man::get_row\<close>, \<open>insert_row\<close>, \<open>cleanup\<close> and \<open>finish\<close> of
  system/txn.cpp over \<open>row_t::get_row\<close> and \<open>row_t::return_row\<close> of storage/row.cpp, for the algorithms
  NO\_WAIT, WAIT\_DIE and DL\_DETECT.

  A row's tuple is a value; \<open>row_t::copy\<close> copies all of it (Row\_Storage has the bytes).  The access list
  has the last access first, since \<open>cleanup\<close> walks it from the last to the first.  A thread that waits in
  \<open>row_t::get_row\<close> has a pending access; it goes on when \<open>lock_ready\<close> is set or gives up after
  \<open>lock_abort\<close>.  Between any two latched operations of one thread the others may act, also while it
  cleans up.  The component \<open>reads\<close> of a transaction and the list of committed transactions are not in the
  program: they record what was read and committed.
\<close>

record tpl_cfg =
  cfg_threads :: nat
  cfg_alg :: cc_alg
  MAX_ROW_PER_TXN :: nat
  MAX_WRITE_SET :: nat
  ROLL_BACK :: bool
  REPEATABLE_READ :: bool

record 'd Access =
  ac_type :: access_t
  ac_row :: row_ptr
  ac_orig :: "'d option"

datatype phase = Active | Cleaning RC

record 'd txn_man =
  accesses :: "'d Access list"
  wr_cnt :: nat
  insert_rows :: "row_ptr list"
  pending :: "(access_t \<times> row_ptr) option"
  phase :: phase
  reads :: "(row_ptr \<times> 'd) list"

type_synonym 'd committed = "(row_ptr \<times> 'd) list \<times> (row_ptr \<times> 'd option \<times> 'd) list"

record 'd tpl_sys =
  locks :: lock_sys
  row_data :: "row_ptr \<Rightarrow> 'd"
  txns :: "txn_ptr \<Rightarrow> 'd txn_man"
  history :: "'d committed list"

section \<open>Operations\<close>

definition set_lock :: "row_ptr \<Rightarrow> Row_lock \<Rightarrow> lk_txns \<Rightarrow> 'd tpl_sys \<Rightarrow> 'd tpl_sys" where
  "set_lock r lk tm s = s\<lparr>locks := (locks s)\<lparr>sys_rows := (sys_rows (locks s))(r := lk), sys_txns := tm\<rparr>\<rparr>"

abbreviation upd_txn :: "txn_ptr \<Rightarrow> ('d txn_man \<Rightarrow> 'd txn_man) \<Rightarrow> 'd tpl_sys \<Rightarrow> 'd tpl_sys" where
  "upd_txn t f s \<equiv> s\<lparr>txns := (txns s)(t := f (txns s t))\<rparr>"

text \<open>\<open>row_t::return_row\<close>: on \<open>XP\<close> the old tuple is copied back, then the lock is released.\<close>

definition return_row :: "tpl_cfg \<Rightarrow> access_t \<Rightarrow> txn_ptr \<Rightarrow> row_ptr \<Rightarrow> 'd option \<Rightarrow> 'd tpl_sys \<Rightarrow> 'd tpl_sys option" where
  "return_row cfg type t r row s =
     (case (if ROLL_BACK cfg \<and> type = XP then map_option (\<lambda>d. s\<lparr>row_data := (row_data s)(r := d)\<rparr>) row else Some s) of
        None \<Rightarrow> None
      | Some s1 \<Rightarrow> map_option (\<lambda>(lk, tm). set_lock r lk tm s1) (lock_release t (sys_rows (locks s1) r) (sys_txns (locks s1))))"

definition early_release :: "tpl_cfg \<Rightarrow> access_t \<Rightarrow> bool" where
  "early_release cfg type \<longleftrightarrow> (cfg_alg cfg = NO_WAIT \<or> cfg_alg cfg = DL_DETECT) \<and> REPEATABLE_READ cfg \<and> type = RD"

text \<open>The part of \<open>txn_man::get_row\<close> after the row was obtained.\<close>

definition add_access :: "tpl_cfg \<Rightarrow> txn_ptr \<Rightarrow> access_t \<Rightarrow> row_ptr \<Rightarrow> 'd tpl_sys \<Rightarrow> 'd tpl_sys option" where
  "add_access cfg t type r s =
     (let a = \<lparr>ac_type = type, ac_row = r, ac_orig = (if ROLL_BACK cfg \<and> type = WR then Some (row_data s r) else None)\<rparr>;
          s1 = upd_txn t (\<lambda>x. x\<lparr>accesses := a # accesses x, wr_cnt := wr_cnt x + (if type = WR then 1 else 0), pending := None\<rparr>) s
      in if early_release cfg type then return_row cfg type t r None s1 else Some s1)"

text \<open>The request; \<open>Abort\<close> stands for the null pointer \<open>get_row\<close> returns.\<close>

definition get_row :: "tpl_cfg \<Rightarrow> txn_ptr \<Rightarrow> access_t \<Rightarrow> row_ptr \<Rightarrow> 'd tpl_sys \<Rightarrow> (RC \<times> 'd tpl_sys) option" where
  "get_row cfg t type r s =
     (if MAX_ROW_PER_TXN cfg \<le> length (accesses (txns s t)) then Some (Abort, s)
      else case lock_get (cfg_threads cfg) (cfg_alg cfg) (lock_type_of type) t (sys_rows (locks s) r) (sys_txns (locks s)) of
        None \<Rightarrow> None
      | Some (rc, ids, lk, tm) \<Rightarrow>
          if rc = RCOK then map_option (Pair RCOK) (add_access cfg t type r (set_lock r lk tm s))
          else if rc = Abort then Some (Abort, set_lock r lk tm s)
          else assert_then (cfg_alg cfg = WAIT_DIE \<or> cfg_alg cfg = DL_DETECT)
            (Some (WAIT, upd_txn t (\<lambda>x. x\<lparr>pending := Some (type, r)\<rparr>)
               (set_lock r lk (tm(t := (tm t)\<lparr>lock_abort := False\<rparr>)) s))))"

text \<open>The end of the waiting loop.\<close>

definition get_row_ready :: "tpl_cfg \<Rightarrow> txn_ptr \<Rightarrow> 'd tpl_sys \<Rightarrow> 'd tpl_sys option" where
  "get_row_ready cfg t s =
     (case pending (txns s t) of
        None \<Rightarrow> None
      | Some (type, r) \<Rightarrow> if lock_ready (sys_txns (locks s) t) then add_access cfg t type r s else None)"

definition get_row_abort :: "tpl_cfg \<Rightarrow> txn_ptr \<Rightarrow> 'd tpl_sys \<Rightarrow> 'd tpl_sys option" where
  "get_row_abort cfg t s =
     (case pending (txns s t) of
        None \<Rightarrow> None
      | Some (type, r) \<Rightarrow>
          if lock_abort (sys_txns (locks s) t)
          then map_option (upd_txn t (\<lambda>x. x\<lparr>pending := None\<rparr>)) (return_row cfg type t r None s)
          else None)"

definition insert_row :: "tpl_cfg \<Rightarrow> txn_ptr \<Rightarrow> row_ptr \<Rightarrow> 'd tpl_sys \<Rightarrow> 'd tpl_sys option" where
  "insert_row cfg t r s =
     (if MAX_WRITE_SET cfg \<le> length (insert_rows (txns s t)) then None
      else Some (upd_txn t (\<lambda>x. x\<lparr>insert_rows := insert_rows x @ [r]\<rparr>) s))"

text \<open>One turn of the loop of \<open>cleanup\<close>, and the loop.\<close>

definition cleanup_row :: "tpl_cfg \<Rightarrow> txn_ptr \<Rightarrow> RC \<Rightarrow> 'd tpl_sys \<Rightarrow> 'd tpl_sys option" where
  "cleanup_row cfg t rc s =
     (case accesses (txns s t) of
        [] \<Rightarrow> None
      | a # as \<Rightarrow>
          (let type = (if ac_type a = WR \<and> rc = Abort then XP else ac_type a);
               pop = upd_txn t (\<lambda>x. x\<lparr>accesses := as\<rparr>)
           in if early_release cfg type then Some (pop s)
              else map_option pop (return_row cfg type t (ac_row a) (ac_orig a) s)))"

definition cleanup_end :: "txn_ptr \<Rightarrow> 'd tpl_sys \<Rightarrow> 'd tpl_sys" where
  "cleanup_end t = upd_txn t (\<lambda>x. x\<lparr>accesses := [], wr_cnt := 0, insert_rows := [], phase := Active, reads := []\<rparr>)"

primrec cleanup_rows :: "tpl_cfg \<Rightarrow> txn_ptr \<Rightarrow> RC \<Rightarrow> nat \<Rightarrow> 'd tpl_sys \<Rightarrow> 'd tpl_sys option" where
  "cleanup_rows cfg t rc 0 s = Some s"
| "cleanup_rows cfg t rc (Suc n) s = Option.bind (cleanup_row cfg t rc s) (cleanup_rows cfg t rc n)"

definition cleanup :: "tpl_cfg \<Rightarrow> txn_ptr \<Rightarrow> RC \<Rightarrow> 'd tpl_sys \<Rightarrow> 'd tpl_sys option" where
  "cleanup cfg t rc s = map_option (cleanup_end t) (cleanup_rows cfg t rc (length (accesses (txns s t))) s)"

section \<open>Runs\<close>

text \<open>What a committing transaction leaves in the record: its reads, and its writes with the old tuples.\<close>

definition commit_record :: "txn_ptr \<Rightarrow> 'd tpl_sys \<Rightarrow> 'd committed" where
  "commit_record t s = (reads (txns s t),
     map (\<lambda>a. (ac_row a, ac_orig a, row_data s (ac_row a))) (filter (\<lambda>a. ac_type a = WR) (accesses (txns s t))))"

definition start_cleanup :: "txn_ptr \<Rightarrow> RC \<Rightarrow> 'd tpl_sys \<Rightarrow> 'd tpl_sys" where
  "start_cleanup t rc s =
     (upd_txn t (\<lambda>x. x\<lparr>phase := Cleaning rc\<rparr>) s)
     \<lparr>history := history s @ (if rc = RCOK then [commit_record t s] else [])\<rparr>"

text \<open>\<open>finish\<close> of the locking algorithms.\<close>

definition finish :: "tpl_cfg \<Rightarrow> txn_ptr \<Rightarrow> RC \<Rightarrow> 'd tpl_sys \<Rightarrow> (RC \<times> 'd tpl_sys) option" where
  "finish cfg t rc s = map_option (Pair rc) (cleanup cfg t rc (start_cleanup t rc s))"

inductive tpl_step :: "tpl_cfg \<Rightarrow> 'd tpl_sys \<Rightarrow> 'd tpl_sys \<Rightarrow> bool" for cfg where
  request: "t < cfg_threads cfg \<Longrightarrow> phase (txns s t) = Active \<Longrightarrow> pending (txns s t) = None \<Longrightarrow>
    type \<in> {RD, WR, SCAN} \<Longrightarrow> r \<notin> ac_row ` set (accesses (txns s t)) \<Longrightarrow>
    get_row cfg t type r s = Some (rc, s') \<Longrightarrow> tpl_step cfg s s'"
| ready: "get_row_ready cfg t s = Some s' \<Longrightarrow> tpl_step cfg s s'"
| gives_up: "get_row_abort cfg t s = Some s' \<Longrightarrow> tpl_step cfg s s'"
| told_to_abort: "tpl_step cfg s (s\<lparr>locks := (locks s)\<lparr>sys_txns := (sys_txns (locks s))
    (t := (sys_txns (locks s) t)\<lparr>lock_abort := True\<rparr>)\<rparr>\<rparr>)"
| reads_row: "phase (txns s t) = Active \<Longrightarrow> a \<in> set (accesses (txns s t)) \<Longrightarrow> ac_type a \<noteq> WR \<Longrightarrow>
    tpl_step cfg s (upd_txn t (\<lambda>x. x\<lparr>reads := (ac_row a, row_data s (ac_row a)) # reads x\<rparr>) s)"
| writes_row: "phase (txns s t) = Active \<Longrightarrow> a \<in> set (accesses (txns s t)) \<Longrightarrow> ac_type a = WR \<Longrightarrow>
    tpl_step cfg s (s\<lparr>row_data := (row_data s)(ac_row a := d)\<rparr>)"
| inserts: "phase (txns s t) = Active \<Longrightarrow> insert_row cfg t r s = Some s' \<Longrightarrow> tpl_step cfg s s'"
| ends: "phase (txns s t) = Active \<Longrightarrow> pending (txns s t) = None \<Longrightarrow> rc \<in> {RCOK, Abort} \<Longrightarrow>
    tpl_step cfg s (start_cleanup t rc s)"
| cleans_row: "phase (txns s t) = Cleaning rc \<Longrightarrow> cleanup_row cfg t rc s = Some s' \<Longrightarrow> tpl_step cfg s s'"
| cleaned: "phase (txns s t) = Cleaning rc \<Longrightarrow> accesses (txns s t) = [] \<Longrightarrow> tpl_step cfg s (cleanup_end t s)"
| new_ts: "t < cfg_threads cfg \<Longrightarrow> accesses (txns s t) = [] \<Longrightarrow> pending (txns s t) = None \<Longrightarrow>
    \<forall>u < cfg_threads cfg. u \<noteq> t \<longrightarrow> sys_ts (locks s) u \<noteq> x \<Longrightarrow>
    tpl_step cfg s (s\<lparr>locks := (locks s)\<lparr>sys_txns := (sys_txns (locks s))(t := (sys_txns (locks s) t)\<lparr>lk_ts := x\<rparr>)\<rparr>\<rparr>)"

definition tpl_start :: "tpl_cfg \<Rightarrow> (row_ptr \<Rightarrow> 'd) \<Rightarrow> 'd tpl_sys \<Rightarrow> bool" where
  "tpl_start cfg db s \<longleftrightarrow> lock_start (cfg_threads cfg) (locks s) \<and> row_data s = db \<and> history s = [] \<and>
     (\<forall>t. txns s t = \<lparr>accesses = [], wr_cnt = 0, insert_rows = [], pending = None, phase = Active, reads = []\<rparr>)"

inductive tpl_reach :: "tpl_cfg \<Rightarrow> (row_ptr \<Rightarrow> 'd) \<Rightarrow> 'd tpl_sys \<Rightarrow> bool" for cfg db where
  start: "tpl_start cfg db s \<Longrightarrow> tpl_reach cfg db s"
| step: "tpl_reach cfg db s \<Longrightarrow> tpl_step cfg s s' \<Longrightarrow> tpl_reach cfg db s'"

section \<open>Serial execution\<close>

text \<open>
  The committed transactions one after the other: each must find the tuples it read, and the old tuples
  of the rows it wrote, in the database its predecessors left.
\<close>

definition apply_writes :: "(row_ptr \<times> 'd option \<times> 'd) list \<Rightarrow> (row_ptr \<Rightarrow> 'd) \<Rightarrow> row_ptr \<Rightarrow> 'd" where
  "apply_writes ws db = fold (\<lambda>(r, _, d) db. db(r := d)) ws db"

fun replay :: "'d committed list \<Rightarrow> (row_ptr \<Rightarrow> 'd) \<Rightarrow> (row_ptr \<Rightarrow> 'd) option" where
  "replay [] db = Some db"
| "replay ((rs, ws) # cs) db =
     (if list_all (\<lambda>(r, v). db r = v) rs \<and> list_all (\<lambda>(r, old, _). old = Some (db r)) ws
      then replay cs (apply_writes ws db) else None)"

lemma replay_append: "replay (cs @ [c]) db = Option.bind (replay cs db) (replay [c])"
  by (induction cs arbitrary: db) auto

section \<open>Entries of a lock\<close>

abbreviation entry :: "lock_t \<Rightarrow> txn_ptr \<Rightarrow> LockEntry" where
  "entry ty t \<equiv> \<lparr>le_type = ty, le_txn = t\<rparr>"

text \<open>An operation on a lock leaves the entries of \<open>u\<close>: owners stay owners, nothing else comes or goes.\<close>

definition keeps :: "txn_ptr \<Rightarrow> Row_lock \<Rightarrow> Row_lock \<Rightarrow> bool" where
  "keeps u lk lk' \<longleftrightarrow> (\<forall>e. le_txn e = u \<longrightarrow> (e \<in> set (owners lk) \<longrightarrow> e \<in> set (owners lk')) \<and>
     (e \<in> set (owners lk) \<union> set (waiters lk) \<longleftrightarrow> e \<in> set (owners lk') \<union> set (waiters lk')))"

lemma set_insert_waiter: "set (insert_waiter tm e ws) = insert e (set ws)"
  by (induction ws) auto

lemma lock_get_entries:
  assumes "lock_get n alg ty t lk tm = Some (rc, ids, lk', tm')"
  shows "rc = RCOK \<and> entry ty t \<in> set (owners lk') \<and> (\<forall>u. u \<noteq> t \<longrightarrow> keeps u lk lk') \<and> tm' = tm \<or>
     rc = WAIT \<and> entry ty t \<in> set (waiters lk') \<and> (\<forall>u. u \<noteq> t \<longrightarrow> keeps u lk lk') \<or>
     rc = Abort \<and> lk' = lk \<and> tm' = tm"
  using assms by (cases rule: lock_get_cases) (auto simp: keeps_def set_insert_waiter)

lemma unlink_entries:
  assumes "unlink_entry t lk = Some lk1" and "distinct (map le_txn (owners lk @ waiters lk))"
  shows "t \<notin> row_txns lk1" "u \<noteq> t \<Longrightarrow> keeps u lk lk1"
proof -
  have "t \<notin> row_txns lk1 \<and> (u \<noteq> t \<longrightarrow> keeps u lk lk1)"
  proof (cases "remove_first (\<lambda>en. le_txn en = t) (owners lk)")
    case (Some yos)
    then obtain y os where r: "remove_first (\<lambda>en. le_txn en = t) (owners lk) = Some (y, os)" by (cases yos) auto
    from remove_first_SomeD [OF r] obtain as bs where
      ab: "le_txn y = t" "owners lk = as @ y # bs" "os = as @ bs" by blast
    show ?thesis using assms r ab by (auto simp: unlink_entry_def keeps_def row_set_defs)
  next
    case None
    then obtain y ws where r: "remove_first (\<lambda>en. le_txn en = t) (waiters lk) = Some (y, ws)"
      and lk1: "lk1 = lk\<lparr>waiters := ws, waiter_cnt := waiter_cnt lk - 1\<rparr>"
      using assms(1) by (auto simp: unlink_entry_def split: option.splits)
    from remove_first_SomeD [OF r] obtain as bs where
      ab: "le_txn y = t" "waiters lk = as @ y # bs" "ws = as @ bs" by blast
    have "\<forall>e \<in> set (owners lk). le_txn e \<noteq> t" using None by (simp add: remove_first_None_iff)
    then show ?thesis using assms(2) lk1 ab by (auto simp: keeps_def row_set_defs)
  qed
  then show "t \<notin> row_txns lk1" "u \<noteq> t \<Longrightarrow> keeps u lk lk1" by auto
qed

lemma promote_entries:
  "promote_waiters ws lk tm = Some (lk', tm') \<Longrightarrow>
   set (owners lk) \<subseteq> set (owners lk') \<and> set (owners lk') \<union> set (waiters lk') = set (owners lk) \<union> set ws"
  by (induction ws lk tm rule: promote_waiters.induct) (auto split: if_splits)

lemma lock_release_entries:
  assumes rel: "lock_release t lk tm = Some (lk', tm')" and inv: "lock_inv alg lk"
  shows "t \<notin> row_txns lk'" "u \<noteq> t \<Longrightarrow> keeps u lk lk'"
proof -
  obtain lk1 where u: "unlink_entry t lk = Some lk1" and p: "promote_waiters (waiters lk1) lk1 tm = Some (lk', tm')"
    using rel by (auto simp: lock_release_def split: option.splits prod.splits)
  have d: "distinct (map le_txn (owners lk @ waiters lk))" using inv by (simp add: lock_inv_def)
  note un = unlink_entries [OF u d] and pr = promote_entries [OF p]
  show "t \<notin> row_txns lk'" using un(1) pr unfolding row_txns_def set_append by blast
  show "keeps u lk lk'" if "u \<noteq> t" using un(2) [OF that] pr unfolding keeps_def by blast
qed

lemma exclusive_owner:
  assumes "lock_inv alg lk" and "entry LOCK_EX t \<in> set (owners lk)" and "entry ty u \<in> set (owners lk)"
  shows "u = t"
proof -
  have ty: "\<forall>e \<in> set (owners lk). le_type e = lock_type lk" using assms(1) by (simp add: lock_inv_def)
  then have "lock_type lk = LOCK_EX" using assms(2) by force
  then have "length (owners lk) = 1" using assms(1) by (simp add: lock_inv_def)
  then obtain e where "owners lk = [e]" by (auto simp: length_Suc_conv)
  then show ?thesis using assms(2,3) by (metis LockEntry.ext_inject empty_iff empty_set set_ConsD)
qed

section \<open>The invariant\<close>

text \<open>The access list of a transaction says which locks it holds.\<close>

definition link :: "(row_ptr \<Rightarrow> Row_lock) \<Rightarrow> txn_ptr \<Rightarrow> 'd txn_man \<Rightarrow> bool" where
  "link L t x \<longleftrightarrow> phase x \<in> {Active, Cleaning RCOK, Cleaning Abort} \<and> distinct (map ac_row (accesses x)) \<and>
     (\<forall>a \<in> set (accesses x). ac_type a \<in> {RD, WR, SCAN} \<and> entry (lock_type_of (ac_type a)) t \<in> set (owners (L (ac_row a)))) \<and>
     (\<forall>ty r. pending x = Some (ty, r) \<longrightarrow> ty \<in> {RD, WR, SCAN} \<and> r \<notin> ac_row ` set (accesses x) \<and> phase x = Active \<and>
        entry (lock_type_of ty) t \<in> set (owners (L r)) \<union> set (waiters (L r))) \<and>
     (\<forall>r. t \<in> row_txns (L r) \<longrightarrow> r \<in> ac_row ` set (accesses x) \<or> (\<exists>ty. pending x = Some (ty, r)))"

lemma linkD:
  assumes "link L t x"
  shows "distinct (map ac_row (accesses x))"
    and "a \<in> set (accesses x) \<Longrightarrow> ac_type a \<in> {RD, WR, SCAN}"
    and "a \<in> set (accesses x) \<Longrightarrow> entry (lock_type_of (ac_type a)) t \<in> set (owners (L (ac_row a)))"
    and "pending x = Some (ty, r) \<Longrightarrow> ty \<in> {RD, WR, SCAN}"
    and "pending x = Some (ty, r) \<Longrightarrow> r \<notin> ac_row ` set (accesses x)"
    and "pending x = Some (ty, r) \<Longrightarrow> phase x = Active"
    and "pending x = Some (ty, r) \<Longrightarrow> entry (lock_type_of ty) t \<in> set (owners (L r)) \<union> set (waiters (L r))"
    and "t \<in> row_txns (L r) \<Longrightarrow> r \<in> ac_row ` set (accesses x) \<or> (\<exists>ty. pending x = Some (ty, r))"
    and "phase x = Cleaning rc \<Longrightarrow> rc \<in> {RCOK, Abort}"
  using assms unfolding link_def by (blast | auto)+

lemma entry_row_txns: "entry ty t \<in> set (owners lk) \<union> set (waiters lk) \<Longrightarrow> t \<in> row_txns lk"
  unfolding row_txns_def by force

definition dirty :: "'d tpl_sys \<Rightarrow> txn_ptr \<Rightarrow> 'd Access \<Rightarrow> bool" where
  "dirty s t a \<longleftrightarrow> a \<in> set (accesses (txns s t)) \<and> ac_type a = WR \<and> phase (txns s t) \<noteq> Cleaning RCOK"

text \<open>
  The committed database: a row without an uncommitted writer holds its tuple, an uncommitted writer
  has saved it, and a running reader has read it.
\<close>

definition data_ok :: "(row_ptr \<Rightarrow> 'd) \<Rightarrow> 'd tpl_sys \<Rightarrow> bool" where
  "data_ok db s \<longleftrightarrow>
     (\<forall>t a. dirty s t a \<longrightarrow> ac_orig a = Some (db (ac_row a))) \<and>
     (\<forall>r. (\<forall>t a. dirty s t a \<longrightarrow> ac_row a \<noteq> r) \<longrightarrow> row_data s r = db r) \<and>
     (\<forall>t r v. phase (txns s t) = Active \<longrightarrow> (r, v) \<in> set (reads (txns s t)) \<longrightarrow>
        db r = v \<and> (\<exists>a \<in> set (accesses (txns s t)). ac_row a = r \<and> ac_type a \<noteq> WR))"

definition tpl_inv :: "tpl_cfg \<Rightarrow> (row_ptr \<Rightarrow> 'd) \<Rightarrow> 'd tpl_sys \<Rightarrow> bool" where
  "tpl_inv cfg db0 s \<longleftrightarrow> sys_inv (cfg_threads cfg) (cfg_alg cfg) (locks s) \<and>
     (\<forall>t. link (sys_rows (locks s)) t (txns s t)) \<and>
     (\<exists>db. replay (history s) db0 = Some db \<and> data_ok db s)"

lemma link_keeps:
  assumes "link L u x" and "keeps u (L r) lk'"
  shows "link (L(r := lk')) u x"
proof -
  have k: "e \<in> set (owners (L r')) \<Longrightarrow> e \<in> set (owners ((L(r := lk')) r'))"
    "e \<in> set (owners (L r')) \<union> set (waiters (L r')) \<longleftrightarrow> e \<in> set (owners ((L(r := lk')) r')) \<union> set (waiters ((L(r := lk')) r'))"
    if "le_txn e = u" for e r'
    using assms(2) that unfolding keeps_def by (auto split: if_splits)
  have e: "le_txn (entry ty u) = u" for ty by simp
  have rt: "u \<in> row_txns ((L(r := lk')) r') \<longleftrightarrow> u \<in> row_txns (L r')" for r'
    using k(2) unfolding row_txns_def set_append by blast
  show ?thesis using assms(1) k(1) [OF e] k(2) [OF e] unfolding link_def rt by meson
qed

lemma inv_excl:
  assumes inv: "tpl_inv cfg db0 s" and a: "a \<in> set (accesses (txns s t))" "ac_type a = WR"
    and e: "entry ty u \<in> set (owners (sys_rows (locks s) (ac_row a)))"
  shows "u = t"
proof -
  have "link (sys_rows (locks s)) t (txns s t)" using inv by (simp add: tpl_inv_def)
  then have "entry (lock_type_of (ac_type a)) t \<in> set (owners (sys_rows (locks s) (ac_row a)))"
    using a(1) unfolding link_def by blast
  then have "entry LOCK_EX t \<in> set (owners (sys_rows (locks s) (ac_row a)))"
    using a(2) by (simp add: lock_type_of_def)
  moreover have "lock_inv (cfg_alg cfg) (sys_rows (locks s) (ac_row a))" using inv by (simp add: tpl_inv_def sys_inv_def)
  ultimately show ?thesis using exclusive_owner e by blast
qed

lemma inv_excl_access:
  assumes "tpl_inv cfg db0 s" and "a \<in> set (accesses (txns s t))" "ac_type a = WR"
    and "b \<in> set (accesses (txns s u))" "ac_row b = ac_row a"
  shows "u = t"
proof -
  have "link (sys_rows (locks s)) u (txns s u)" using assms(1) by (simp add: tpl_inv_def)
  then have "entry (lock_type_of (ac_type b)) u \<in> set (owners (sys_rows (locks s) (ac_row a)))"
    using assms(4,5) unfolding link_def by metis
  then show ?thesis by (rule inv_excl [OF assms(1-3)])
qed

section \<open>Every step keeps it\<close>

lemma set_lock_simps [simp]:
  "sys_rows (locks (set_lock r lk tm s)) = (sys_rows (locks s))(r := lk)" "sys_txns (locks (set_lock r lk tm s)) = tm"
  "row_data (set_lock r lk tm s) = row_data s" "txns (set_lock r lk tm s) = txns s" "history (set_lock r lk tm s) = history s"
  "locks (set_lock r lk tm s) = (locks s)\<lparr>sys_rows := (sys_rows (locks s))(r := lk), sys_txns := tm\<rparr>"
  by (simp_all add: set_lock_def)

lemma data_ok_cong:
  assumes "data_ok db s" and "row_data s' = row_data s"
    and "\<And>t. accesses (txns s' t) = accesses (txns s t)" "\<And>t. phase (txns s' t) = phase (txns s t)"
      "\<And>t. reads (txns s' t) = reads (txns s t)"
  shows "data_ok db s'"
  using assms(1) unfolding data_ok_def dirty_def assms(2-5) .

text \<open>A request that is granted or queued is recorded as pending.\<close>

lemma queue_keeps_inv:
  assumes inv: "tpl_inv cfg db0 s" and t: "t < cfg_threads cfg"
    and x: "phase (txns s t) = Active" "pending (txns s t) = None" "type \<in> {RD, WR, SCAN}"
      "r \<notin> ac_row ` set (accesses (txns s t))"
    and get: "lock_get (cfg_threads cfg) (cfg_alg cfg) (lock_type_of type) t (sys_rows (locks s) r) (sys_txns (locks s))
      = Some (rc, ids, lk, tm)" and rc: "rc \<noteq> Abort"
  shows "tpl_inv cfg db0 (upd_txn t (\<lambda>x. x\<lparr>pending := Some (type, r)\<rparr>) (set_lock r lk tm s))"
proof -
  let ?L = "sys_rows (locks s)" and ?s = "upd_txn t (\<lambda>x. x\<lparr>pending := Some (type, r)\<rparr>) (set_lock r lk tm s)"
  have sys: "sys_inv (cfg_threads cfg) (cfg_alg cfg) (locks s)" and ln: "link ?L u (txns s u)" for u
    using inv by (auto simp: tpl_inv_def)
  have own: "r' \<in> ac_row ` set (accesses (txns s t))" if "t \<in> row_txns (?L r')" for r'
    using ln [of t] that x(2) unfolding link_def by auto
  have idle: "\<not> sys_waiting (locks s) t r'" for r'
  proof
    assume w: "sys_waiting (locks s) t r'"
    then have "t \<in> row_txns (?L r')" by (simp add: sys_waiting_def row_txns_eq)
    then obtain a where "a \<in> set (accesses (txns s t))" "ac_row a = r'" using own by blast
    then have "entry (lock_type_of (ac_type a)) t \<in> set (owners (?L r'))" using ln [of t] unfolding link_def by blast
    then have "t \<in> row_owners (?L r')" by (force simp: row_owners_def)
    moreover have "distinct (map le_txn (owners (?L r') @ waiters (?L r')))" using sys by (simp add: sys_inv_def lock_inv_def)
    ultimately show False using w by (auto simp: sys_waiting_def row_set_defs)
  qed
  have new: "t \<notin> row_txns (?L r)" using own x(4) by blast
  have sys': "sys_inv (cfg_threads cfg) (cfg_alg cfg) (locks ?s)"
    using request_keeps_inv [OF sys t _ new get] idle by simp
  from lock_get_entries [OF get] rc have e: "entry (lock_type_of type) t \<in> set (owners lk) \<union> set (waiters lk)"
    and k: "u \<noteq> t \<Longrightarrow> keeps u (?L r) lk" for u by auto
  have "link (?L(r := lk)) t ((txns s t)\<lparr>pending := Some (type, r)\<rparr>)"
    using ln [of t] x e own unfolding link_def by (auto split: if_splits)
  then have "link (sys_rows (locks ?s)) u (txns ?s u)" for u
    using link_keeps [OF ln k] by (cases "u = t") simp_all
  moreover have "\<exists>db. replay (history ?s) db0 = Some db \<and> data_ok db ?s"
    using inv by (auto simp: tpl_inv_def elim!: data_ok_cong)
  ultimately show ?thesis using sys' unfolding tpl_inv_def by blast
qed

text \<open>An access is added for a lock that is held.\<close>

lemma add_access_keeps_inv:
  assumes inv: "tpl_inv cfg db0 s" and cfg: "ROLL_BACK cfg" "\<not> REPEATABLE_READ cfg"
    and p: "pending (txns s t) = Some (type, r)" and own: "entry (lock_type_of type) t \<in> set (owners (sys_rows (locks s) r))"
    and add: "add_access cfg t type r s = Some s'"
  shows "tpl_inv cfg db0 s'"
proof -
  let ?L = "sys_rows (locks s)"
  let ?a = "\<lparr>ac_type = type, ac_row = r, ac_orig = (if ROLL_BACK cfg \<and> type = WR then Some (row_data s r) else None)\<rparr>"
  let ?x = "(txns s t)\<lparr>accesses := ?a # accesses (txns s t), wr_cnt := wr_cnt (txns s t) + (if type = WR then 1 else 0), pending := None\<rparr>"
  have s': "s' = s\<lparr>txns := (txns s)(t := ?x)\<rparr>" using add cfg(2) by (simp add: add_access_def early_release_def)
  have ln: "link ?L u (txns s u)" for u using inv by (simp add: tpl_inv_def)
  have x: "type \<in> {RD, WR, SCAN}" "r \<notin> ac_row ` set (accesses (txns s t))" "phase (txns s t) = Active"
    using ln [of t] p unfolding link_def by blast+
  have "link ?L t ?x" using ln [of t] p own x unfolding link_def by auto
  then have "link (sys_rows (locks s')) u (txns s' u)" for u using ln [of u] s' by simp
  moreover obtain db where db: "replay (history s) db0 = Some db" "data_ok db s" using inv by (auto simp: tpl_inv_def)
  have clean: "row_data s r = db r"
  proof -
    have "ac_row b \<noteq> r" if "dirty s u b" for u b
    proof
      assume r: "ac_row b = r"
      have b: "b \<in> set (accesses (txns s u))" "ac_type b = WR" using that by (auto simp: dirty_def)
      have "t = u" using inv_excl [OF inv b] own r by blast
      then show False using b x(2) r by blast
    qed
    then show ?thesis using db(2) unfolding data_ok_def by blast
  qed
  have dirty: "dirty s' u b \<longleftrightarrow> dirty s u b \<or> (u = t \<and> b = ?a \<and> type = WR)" for u b
    using x(3) by (auto simp: dirty_def s')
  have "data_ok db s'"
    using db(2) clean cfg(1) unfolding data_ok_def dirty by (auto simp: s')
  ultimately show ?thesis using inv db(1) unfolding tpl_inv_def by (auto simp: s')
qed

text \<open>A lock is released; the transaction forgets the access or the request, and the tuple is committed.\<close>

lemma release_keeps_tpl_inv:
  assumes inv: "tpl_inv cfg db0 s" and rel: "lock_release t (sys_rows (locks s) r) (sys_txns (locks s)) = Some (lk, tm)"
    and mem: "t \<in> row_txns (sys_rows (locks s) r)"
    and x: "link (\<lambda>r'. if r' = r then lk else sys_rows (locks s) r') t x"
    and dat: "\<And>db. data_ok db s \<Longrightarrow> data_ok db (s\<lparr>txns := (txns s)(t := x), row_data := f\<rparr>)"
  shows "tpl_inv cfg db0 ((set_lock r lk tm s)\<lparr>txns := (txns s)(t := x), row_data := f\<rparr>)"
proof -
  let ?L = "sys_rows (locks s)" and ?s = "(set_lock r lk tm s)\<lparr>txns := (txns s)(t := x), row_data := f\<rparr>"
  have sys: "sys_inv (cfg_threads cfg) (cfg_alg cfg) (locks s)" and ln: "link ?L u (txns s u)" for u
    using inv by (auto simp: tpl_inv_def)
  have "sys_inv (cfg_threads cfg) (cfg_alg cfg) (locks ?s)" using release_keeps_inv [OF sys mem rel] by simp
  moreover have li: "lock_inv (cfg_alg cfg) (?L r)" using sys by (simp add: sys_inv_def)
  have "link (?L(r := lk)) u (txns ?s u)" for u
    using x link_keeps [OF ln lock_release_entries(2) [OF rel li]] by (cases "u = t") (simp_all add: fun_upd_def)
  moreover obtain db where db: "replay (history s) db0 = Some db" "data_ok db s" using inv by (auto simp: tpl_inv_def)
  have "data_ok db ?s" using dat [OF db(2)] by (rule data_ok_cong) simp_all
  ultimately show ?thesis using db(1) unfolding tpl_inv_def by auto
qed

lemma flags_keep_inv:
  assumes inv: "tpl_inv cfg db0 s"
    and sys: "sys_inv (cfg_threads cfg) (cfg_alg cfg) ((locks s)\<lparr>sys_txns := tm\<rparr>)"
  shows "tpl_inv cfg db0 (s\<lparr>locks := (locks s)\<lparr>sys_txns := tm\<rparr>\<rparr>)"
proof -
  obtain db where db: "replay (history s) db0 = Some db" "data_ok db s" using inv by (auto simp: tpl_inv_def)
  have "data_ok db (s\<lparr>locks := (locks s)\<lparr>sys_txns := tm\<rparr>\<rparr>)" using db(2) by (rule data_ok_cong) simp_all
  then show ?thesis using inv sys db(1) by (auto simp: tpl_inv_def)
qed

lemma request_step:
  assumes inv: "tpl_inv cfg db0 s" and cfg: "ROLL_BACK cfg" "\<not> REPEATABLE_READ cfg" and t: "t < cfg_threads cfg"
    and x: "phase (txns s t) = Active" "pending (txns s t) = None" "type \<in> {RD, WR, SCAN}"
      "r \<notin> ac_row ` set (accesses (txns s t))"
    and get: "get_row cfg t type r s = Some (rc, s')"
  shows "tpl_inv cfg db0 s'"
proof (cases "MAX_ROW_PER_TXN cfg \<le> length (accesses (txns s t))")
  case True
  then show ?thesis using get inv by (simp add: get_row_def)
next
  case False
  then obtain rc' ids lk tm where lg: "lock_get (cfg_threads cfg) (cfg_alg cfg) (lock_type_of type) t
      (sys_rows (locks s) r) (sys_txns (locks s)) = Some (rc', ids, lk, tm)"
    using get by (auto simp: get_row_def split: option.splits prod.splits)
  let ?p = "upd_txn t (\<lambda>x. x\<lparr>pending := Some (type, r)\<rparr>) (set_lock r lk tm s)"
  note q = queue_keeps_inv [OF inv t x lg]
  from lock_get_entries [OF lg] consider
    "rc' = RCOK" "entry (lock_type_of type) t \<in> set (owners lk)" | "rc' = WAIT"
    | "rc' = Abort" "lk = sys_rows (locks s) r" "tm = sys_txns (locks s)" by blast
  then show ?thesis
  proof cases
    case 1
    have "add_access cfg t type r ?p = add_access cfg t type r (set_lock r lk tm s)"
      by (simp add: add_access_def early_release_def cfg Let_def)
    then have "add_access cfg t type r ?p = Some s'" using get lg False 1(1) by (auto simp: get_row_def)
    then show ?thesis using add_access_keeps_inv [OF q cfg, of t type r s'] 1 by simp
  next
    case 2
    then have s': "s' = upd_txn t (\<lambda>x. x\<lparr>pending := Some (type, r)\<rparr>)
        (set_lock r lk (tm(t := (tm t)\<lparr>lock_abort := False\<rparr>)) s)"
      using get lg False by (auto simp: get_row_def)
    have i: "tpl_inv cfg db0 ?p" using q 2 by simp
    then have "sys_inv (cfg_threads cfg) (cfg_alg cfg) (locks ?p)" by (simp add: tpl_inv_def)
    from set_abort_keeps_inv [OF this, of t False]
    have "tpl_inv cfg db0 (?p\<lparr>locks := (locks ?p)\<lparr>sys_txns := tm(t := (tm t)\<lparr>lock_abort := False\<rparr>)\<rparr>\<rparr>)"
      by (intro flags_keep_inv [OF i]) simp
    moreover have "?p\<lparr>locks := (locks ?p)\<lparr>sys_txns := tm(t := (tm t)\<lparr>lock_abort := False\<rparr>)\<rparr>\<rparr> = s'"
      unfolding s' by (cases s) (simp add: set_lock_def)
    ultimately show ?thesis by simp
  next
    case 3
    have "s' = s" using get lg False 3 by (auto simp: get_row_def set_lock_def)
    then show ?thesis using inv by simp
  qed
qed

lemma ready_step:
  assumes inv: "tpl_inv cfg db0 s" and cfg: "ROLL_BACK cfg" "\<not> REPEATABLE_READ cfg" and g: "get_row_ready cfg t s = Some s'"
  shows "tpl_inv cfg db0 s'"
proof -
  obtain type r where p: "pending (txns s t) = Some (type, r)" and rd: "lock_ready (sys_txns (locks s) t)"
    and add: "add_access cfg t type r s = Some s'" using g by (auto simp: get_row_ready_def split: option.splits if_splits)
  have "link (sys_rows (locks s)) t (txns s t)" using inv by (simp add: tpl_inv_def)
  then have q: "entry (lock_type_of type) t \<in> set (owners (sys_rows (locks s) r)) \<union> set (waiters (sys_rows (locks s) r))"
    using p unfolding link_def by blast
  have "\<not> sys_waiting (locks s) t r" using inv rd by (auto simp: tpl_inv_def sys_inv_def)
  then have "entry (lock_type_of type) t \<notin> set (waiters (sys_rows (locks s) r))"
    by (force simp: sys_waiting_def row_waiters_def)
  then show ?thesis using add_access_keeps_inv [OF inv cfg p _ add] q by blast
qed

lemma give_up_step:
  assumes inv: "tpl_inv cfg db0 s" and g: "get_row_abort cfg t s = Some s'"
  shows "tpl_inv cfg db0 s'"
proof -
  let ?L = "sys_rows (locks s)"
  obtain type r s1 where p: "pending (txns s t) = Some (type, r)" and ret: "return_row cfg type t r None s = Some s1"
    and s': "s' = upd_txn t (\<lambda>x. x\<lparr>pending := None\<rparr>) s1"
    using g by (auto simp: get_row_abort_def split: option.splits if_splits)
  have ln: "link ?L t (txns s t)" using inv by (simp add: tpl_inv_def)
  note x = linkD(4) [OF ln p] and nr = linkD(5) [OF ln p] and mem = entry_row_txns [OF linkD(7) [OF ln p]]
  obtain lk tm where rel: "lock_release t (?L r) (sys_txns (locks s)) = Some (lk, tm)" and s1: "s1 = set_lock r lk tm s"
    using ret x by (auto simp: return_row_def split: if_splits)
  have li: "lock_inv (cfg_alg cfg) (?L r)" using inv by (simp add: tpl_inv_def sys_inv_def)
  have "link (\<lambda>r'. if r' = r then lk else ?L r') t ((txns s t)\<lparr>pending := None\<rparr>)"
    using ln p nr lock_release_entries(1) [OF rel li] unfolding link_def by auto
  moreover have "data_ok db (s\<lparr>txns := (txns s)(t := (txns s t)\<lparr>pending := None\<rparr>), row_data := row_data s\<rparr>)"
    if "data_ok db s" for db using that by (rule data_ok_cong) simp_all
  ultimately have "tpl_inv cfg db0 ((set_lock r lk tm s)\<lparr>txns := (txns s)(t := (txns s t)\<lparr>pending := None\<rparr>), row_data := row_data s\<rparr>)"
    by (rule release_keeps_tpl_inv [OF inv rel mem])
  then show ?thesis unfolding s' s1 by (simp add: set_lock_def)
qed

text \<open>One turn of \<open>cleanup\<close> never fails: the lock is held and an aborting writer has the old tuple.\<close>

lemma cleanup_row_ok:
  assumes inv: "tpl_inv cfg db0 s" and cfg: "ROLL_BACK cfg" "\<not> REPEATABLE_READ cfg"
    and ph: "phase (txns s t) = Cleaning rc" "rc \<in> {RCOK, Abort}" and acc: "accesses (txns s t) = a # as"
  shows "\<exists>s'. cleanup_row cfg t rc s = Some s' \<and> tpl_inv cfg db0 s' \<and>
    txns s' = (txns s)(t := (txns s t)\<lparr>accesses := as\<rparr>) \<and>
    row_data s' = (if rc = Abort \<and> ac_type a = WR then (row_data s)(ac_row a := the (ac_orig a)) else row_data s)"
proof -
  let ?L = "sys_rows (locks s)" and ?r = "ac_row a" and ?x = "(txns s t)\<lparr>accesses := as\<rparr>"
  let ?f = "if rc = Abort \<and> ac_type a = WR then (row_data s)(?r := the (ac_orig a)) else row_data s"
  have ln: "link ?L t (txns s t)" and sys: "sys_inv (cfg_threads cfg) (cfg_alg cfg) (locks s)" using inv by (auto simp: tpl_inv_def)
  have ty: "ac_type a \<in> {RD, WR, SCAN}" and own: "entry (lock_type_of (ac_type a)) t \<in> set (owners (?L ?r))"
    and nr: "?r \<notin> ac_row ` set as" "\<And>b. b \<in> set as \<Longrightarrow> ac_row b \<noteq> ?r" and d: "distinct (map ac_row as)"
    using linkD(1) [OF ln] linkD(2,3) [OF ln, of a] acc by (simp_all add: image_iff) metis
  have np: "pending (txns s t) = None" using linkD(6) [OF ln] ph(1) by (cases "pending (txns s t)") auto
  have mem: "t \<in> row_txns (?L ?r)" using own entry_row_txns by blast
  have li: "lock_inv (cfg_alg cfg) (?L ?r)" and rdy: "\<forall>u\<in>row_waiters (?L ?r). \<not> lock_ready (sys_txns (locks s) u)"
    using sys by (auto simp: sys_inv_def sys_waiting_def)
  from lock_release_ok [OF li mem rdy] obtain lk tm where rel: "lock_release t (?L ?r) (sys_txns (locks s)) = Some (lk, tm)" by blast
  have dw: "dirty s t a" if "rc = Abort" "ac_type a = WR" using that acc ph by (simp add: dirty_def)
  have orig: "ac_orig a \<noteq> None" if "rc = Abort" "ac_type a = WR"
    using dw [OF that] inv unfolding tpl_inv_def data_ok_def by fastforce
  let ?s = "(set_lock ?r lk tm s)\<lparr>txns := (txns s)(t := ?x), row_data := ?f\<rparr>"
  have "cleanup_row cfg t rc s = Some ?s"
    using acc rel cfg ty orig by (auto simp: cleanup_row_def return_row_def early_release_def Let_def set_lock_def)
  moreover have "tpl_inv cfg db0 ?s"
  proof (rule release_keeps_tpl_inv [OF inv rel mem])
    show "link (\<lambda>r'. if r' = ?r then lk else ?L r') t ?x"
      using ln acc nr d np ph(1) lock_release_entries(1) [OF rel li] unfolding link_def by auto
    fix db
    assume ok: "data_ok db s"
    let ?s1 = "s\<lparr>txns := (txns s)(t := ?x), row_data := ?f\<rparr>"
    have dirty1: "dirty ?s1 u b \<longleftrightarrow> dirty s u b \<and> \<not> (u = t \<and> b = a)" for u b
      using acc nr by (auto simp: dirty_def)
    have other: "ac_row b \<noteq> ?r" if "dirty ?s1 u b" "ac_type a = WR" for u b
    proof
      assume r: "ac_row b = ?r"
      have b: "b \<in> set (accesses (txns s u))" using that(1) dirty1 by (auto simp: dirty_def)
      have "u = t" using inv_excl_access [OF inv _ that(2) b r] acc by simp
      then have "b \<in> set as" using that(1) by (simp add: dirty_def)
      then show False using nr r by force
    qed
    have restored: "?f r = db r" if "\<forall>u b. dirty ?s1 u b \<longrightarrow> ac_row b \<noteq> r" for r
    proof (cases "rc = Abort \<and> ac_type a = WR \<and> r = ?r")
      case True
      then have "ac_orig a = Some (db r)" using dw ok unfolding data_ok_def by blast
      then show ?thesis using True by simp
    next
      case False
      have "\<forall>u b. dirty s u b \<longrightarrow> ac_row b \<noteq> r"
      proof (intro allI impI)
        fix u b assume db: "dirty s u b"
        show "ac_row b \<noteq> r"
        proof (cases "u = t \<and> b = a")
          case True
          then have "ac_type a = WR" "rc = Abort" using db ph by (auto simp: dirty_def)
          then show ?thesis using False True by auto
        next
          case f: False
          then show ?thesis using db that dirty1 by blast
        qed
      qed
      then have "row_data s r = db r" using ok unfolding data_ok_def by blast
      then show ?thesis using False by auto
    qed
    have "ac_orig b = Some (db (ac_row b))" if "dirty ?s1 u b" for u b
      using ok that dirty1 unfolding data_ok_def by blast
    moreover have "db r = v \<and> (\<exists>b \<in> set (accesses (txns ?s1 u)). ac_row b = r \<and> ac_type b \<noteq> WR)"
      if "phase (txns ?s1 u) = Active" "(r, v) \<in> set (reads (txns ?s1 u))" for u r v
      using ok that ph(1) unfolding data_ok_def by (cases "u = t") auto
    ultimately show "data_ok db ?s1" using restored unfolding data_ok_def by simp
  qed
  ultimately show ?thesis by (intro exI [of _ ?s]) simp
qed

lemma apply_writes_eq:
  "apply_writes (map (\<lambda>a. (ac_row a, ac_orig a, f (ac_row a))) as) db r =
     (if r \<in> ac_row ` set as then f r else db r)"
  unfolding apply_writes_def by (induction as arbitrary: db) auto

lemma commit_step:
  assumes inv: "tpl_inv cfg db0 s" and ph: "phase (txns s t) = Active" "pending (txns s t) = None"
  shows "tpl_inv cfg db0 (start_cleanup t RCOK s)"
proof -
  let ?s = "start_cleanup t RCOK s" and ?W = "filter (\<lambda>a. ac_type a = WR) (accesses (txns s t))"
  obtain db where db: "replay (history s) db0 = Some db" "data_ok db s" using inv by (auto simp: tpl_inv_def)
  let ?ws = "map (\<lambda>a. (ac_row a, ac_orig a, row_data s (ac_row a))) ?W"
  let ?db = "apply_writes ?ws db"
  have eq: "?db r = (if r \<in> ac_row ` set ?W then row_data s r else db r)" for r by (rule apply_writes_eq)
  have dw: "dirty s t a" if "a \<in> set ?W" for a using that ph by (simp add: dirty_def)
  have "list_all (\<lambda>(r, v). db r = v) (reads (txns s t))" using db(2) ph unfolding data_ok_def by (auto simp: list_all_iff)
  moreover have "list_all (\<lambda>(r, old, _). old = Some (db r)) ?ws"
    using dw db(2) unfolding data_ok_def by (auto simp: list_all_iff)
  ultimately have rp: "replay (history ?s) db0 = Some ?db"
    using db(1) by (simp add: start_cleanup_def replay_append commit_record_def)
  have mine: "u = t" if b: "b \<in> set (accesses (txns s u))" and r: "ac_row b \<in> ac_row ` set ?W" for u b
  proof -
    obtain a where a: "a \<in> set ?W" "ac_row b = ac_row a" using r by (auto simp del: set_filter)
    then show ?thesis using inv_excl_access [OF inv _ _ b a(2)] by simp
  qed
  have dirty: "dirty ?s u b \<longleftrightarrow> u \<noteq> t \<and> dirty s u b" for u b by (auto simp: dirty_def start_cleanup_def)
  have "ac_orig b = Some (?db (ac_row b))" if "dirty ?s u b" for u b
  proof -
    have "u \<noteq> t" "dirty s u b" using that dirty by blast+
    moreover have "ac_row b \<notin> ac_row ` set ?W" using mine [of b u] calculation by (auto simp: dirty_def)
    ultimately show ?thesis using db(2) eq unfolding data_ok_def by simp
  qed
  moreover have "row_data ?s r = ?db r" if "\<forall>u b. dirty ?s u b \<longrightarrow> ac_row b \<noteq> r" for r
  proof (cases "r \<in> ac_row ` set ?W")
    case True
    then show ?thesis using eq by (simp add: start_cleanup_def)
  next
    case False
    have "\<forall>u b. dirty s u b \<longrightarrow> ac_row b \<noteq> r"
    proof (intro allI impI)
      fix u b assume b: "dirty s u b"
      show "ac_row b \<noteq> r"
      proof (cases "u = t")
        case True
        then have "b \<in> set ?W" using b by (simp add: dirty_def)
        then show ?thesis using False by blast
      qed (use b that dirty in blast)
    qed
    then have "row_data s r = db r" using db(2) unfolding data_ok_def by blast
    then show ?thesis using False eq by (simp add: start_cleanup_def)
  qed
  moreover have "?db r = v \<and> (\<exists>a \<in> set (accesses (txns ?s u)). ac_row a = r \<and> ac_type a \<noteq> WR)"
    if act: "phase (txns ?s u) = Active" and rd: "(r, v) \<in> set (reads (txns ?s u))" for u r v
  proof -
    have u: "u \<noteq> t" "txns ?s u = txns s u" using act by (auto simp: start_cleanup_def split: if_splits)
    obtain a where a: "db r = v" "a \<in> set (accesses (txns s u))" "ac_row a = r" "ac_type a \<noteq> WR"
      using db(2) act rd u unfolding data_ok_def by metis
    have "r \<notin> ac_row ` set ?W" using mine [OF a(2)] a(3) u(1) by blast
    then show ?thesis using a eq u(2) by auto
  qed
  ultimately have ok: "data_ok ?db ?s" unfolding data_ok_def by blast
  have ln: "link (sys_rows (locks s)) u (txns s u)" for u using inv by (simp add: tpl_inv_def)
  have "link (sys_rows (locks s)) u (txns ?s u)" for u
    using ln [of u] ph by (cases "u = t") (auto simp: link_def start_cleanup_def)
  then show ?thesis using inv rp ok unfolding tpl_inv_def by (auto simp: start_cleanup_def)
qed

text \<open>A step that changes one transaction, not its locks, and possibly the tuples.\<close>

lemma local_step:
  assumes inv: "tpl_inv cfg db0 s" and ln: "link (sys_rows (locks s)) t x"
    and dat: "\<And>db. data_ok db s \<Longrightarrow> data_ok db (s\<lparr>txns := (txns s)(t := x), row_data := f\<rparr>)"
  shows "tpl_inv cfg db0 (s\<lparr>txns := (txns s)(t := x), row_data := f\<rparr>)"
  using assms unfolding tpl_inv_def by auto

lemma data_ok_dirty:
  assumes ok: "data_ok db s" and dirty: "\<And>u b. dirty s' u b \<longleftrightarrow> dirty s u b"
    and f: "\<And>r. (\<forall>u b. dirty s u b \<longrightarrow> ac_row b \<noteq> r) \<Longrightarrow> row_data s' r = row_data s r"
    and rd: "\<And>u r v. phase (txns s' u) = Active \<Longrightarrow> (r, v) \<in> set (reads (txns s' u)) \<Longrightarrow>
      db r = v \<and> (\<exists>a \<in> set (accesses (txns s' u)). ac_row a = r \<and> ac_type a \<noteq> WR)"
  shows "data_ok db s'"
  using assms unfolding data_ok_def by simp

lemma tpl_step_inv:
  assumes "tpl_step cfg s s'" and inv: "tpl_inv cfg db0 s" and cfg: "ROLL_BACK cfg" "\<not> REPEATABLE_READ cfg"
  shows "tpl_inv cfg db0 s'"
proof -
  have ln: "link (sys_rows (locks s)) t (txns s t)" for t using inv by (simp add: tpl_inv_def)
  have sys: "sys_inv (cfg_threads cfg) (cfg_alg cfg) (locks s)" using inv by (simp add: tpl_inv_def)
  from assms(1) show ?thesis
  proof cases
    case (request t type r rc)
    then show ?thesis using request_step [OF inv cfg] by blast
  next
    case (ready t)
    then show ?thesis using ready_step [OF inv cfg] by blast
  next
    case (gives_up t)
    then show ?thesis using give_up_step [OF inv] by blast
  next
    case (told_to_abort t)
    then show ?thesis using flags_keep_inv [OF inv set_abort_keeps_inv [OF sys]] by simp
  next
    case (reads_row t a)
    let ?x = "(txns s t)\<lparr>reads := (ac_row a, row_data s (ac_row a)) # reads (txns s t)\<rparr>"
    have "tpl_inv cfg db0 (s\<lparr>txns := (txns s)(t := ?x), row_data := row_data s\<rparr>)"
    proof (rule local_step [OF inv])
      show "link (sys_rows (locks s)) t ?x" using ln [of t] by (simp add: link_def)
      fix db assume ok: "data_ok db s"
      have "ac_row b \<noteq> ac_row a" if "dirty s u b" for u b
      proof
        assume r: "ac_row b = ac_row a"
        have b: "b \<in> set (accesses (txns s u))" "ac_type b = WR" using that by (auto simp: dirty_def)
        have "t = u" using inv_excl_access [OF inv b reads_row(3)] r by simp
        then have "b = a" using linkD(1) [OF ln] b(1) reads_row(3) r by (metis distinct_map inj_onD)
        then show False using b(2) reads_row(4) by simp
      qed
      then have "row_data s (ac_row a) = db (ac_row a)" using ok unfolding data_ok_def by blast
      then show "data_ok db (s\<lparr>txns := (txns s)(t := ?x), row_data := row_data s\<rparr>)"
        using ok reads_row by (intro data_ok_dirty [OF ok]) (auto simp: dirty_def data_ok_def split: if_splits)
    qed
    then show ?thesis using reads_row by simp
  next
    case (writes_row t a d)
    have dw: "dirty s t a" using writes_row by (simp add: dirty_def)
    have "tpl_inv cfg db0 (s\<lparr>txns := (txns s)(t := txns s t), row_data := (row_data s)(ac_row a := d)\<rparr>)"
    proof (rule local_step [OF inv ln])
      fix db assume ok: "data_ok db s"
      show "data_ok db (s\<lparr>txns := (txns s)(t := txns s t), row_data := (row_data s)(ac_row a := d)\<rparr>)"
        using ok dw by (intro data_ok_dirty [OF ok]) (auto simp: dirty_def data_ok_def)
    qed
    then show ?thesis using writes_row by simp
  next
    case (inserts t r)
    let ?x = "(txns s t)\<lparr>insert_rows := insert_rows (txns s t) @ [r]\<rparr>"
    have s': "s' = s\<lparr>txns := (txns s)(t := ?x), row_data := row_data s\<rparr>"
      using inserts by (auto simp: insert_row_def split: if_splits)
    show ?thesis unfolding s'
      by (rule local_step [OF inv]) (use ln [of t] in \<open>auto simp: link_def intro: data_ok_cong\<close>)
  next
    case (ends t rc)
    show ?thesis
    proof (cases "rc = RCOK")
      case True
      then show ?thesis using commit_step [OF inv ends(2,3)] ends(1) by simp
    next
      case False
      let ?x = "(txns s t)\<lparr>phase := Cleaning Abort\<rparr>"
      have s': "s' = s\<lparr>txns := (txns s)(t := ?x), row_data := row_data s\<rparr>"
        using False ends by (simp add: start_cleanup_def)
      show ?thesis unfolding s'
      proof (rule local_step [OF inv])
        show "link (sys_rows (locks s)) t ?x" using ln [of t] ends(3) by (simp add: link_def)
        fix db assume ok: "data_ok db s"
        show "data_ok db (s\<lparr>txns := (txns s)(t := ?x), row_data := row_data s\<rparr>)"
          using ok ends(2) by (intro data_ok_dirty [OF ok]) (auto simp: dirty_def data_ok_def split: if_splits)
      qed
    qed
  next
    case (cleans_row t rc)
    then obtain a as where "accesses (txns s t) = a # as" by (auto simp: cleanup_row_def split: list.splits)
    then show ?thesis using cleanup_row_ok [OF inv cfg cleans_row(1) linkD(9) [OF ln cleans_row(1)]] cleans_row by fastforce
  next
    case (cleaned t rc)
    let ?x = "(txns s t)\<lparr>accesses := [], wr_cnt := 0, insert_rows := [], phase := Active, reads := []\<rparr>"
    have s': "s' = s\<lparr>txns := (txns s)(t := ?x), row_data := row_data s\<rparr>" using cleaned by (simp add: cleanup_end_def)
    show ?thesis unfolding s'
    proof (rule local_step [OF inv])
      show "link (sys_rows (locks s)) t ?x" using ln [of t] cleaned by (auto simp: link_def)
      fix db assume ok: "data_ok db s"
      show "data_ok db (s\<lparr>txns := (txns s)(t := ?x), row_data := row_data s\<rparr>)"
        using ok cleaned by (intro data_ok_dirty [OF ok]) (auto simp: dirty_def data_ok_def split: if_splits)
    qed
  next
    case (new_ts t x)
    have "\<forall>r. t \<notin> row_txns (sys_rows (locks s) r)" using linkD(8) [OF ln, of t] new_ts by auto
    then show ?thesis using flags_keep_inv [OF inv new_ts_keeps_inv [OF sys new_ts(2)]] new_ts by simp
  qed
qed

section \<open>Serializability and rollback\<close>

lemma tpl_reach_inv:
  assumes "tpl_reach cfg db0 s" and cfg: "ROLL_BACK cfg" "\<not> REPEATABLE_READ cfg"
  shows "tpl_inv cfg db0 s"
  using assms(1)
proof (induction rule: tpl_reach.induct)
  case (start s)
  have "sys_inv (cfg_threads cfg) (cfg_alg cfg) (locks s)" using start sys_inv_start by (auto simp: tpl_start_def)
  moreover have "link (sys_rows (locks s)) t (txns s t)" for t
    using start by (simp add: tpl_start_def lock_start_def link_def lock_init_def row_set_defs)
  moreover have "data_ok db0 s" using start by (simp add: data_ok_def dirty_def tpl_start_def)
  ultimately show ?case using start by (auto simp: tpl_inv_def tpl_start_def)
qed (use tpl_step_inv cfg in blast)


definition old_tuples :: "'d Access list \<Rightarrow> (row_ptr \<Rightarrow> 'd) \<Rightarrow> row_ptr \<Rightarrow> 'd" where
  "old_tuples as f r = (case find (\<lambda>a. ac_row a = r \<and> ac_type a = WR) as of None \<Rightarrow> f r | Some a \<Rightarrow> the (ac_orig a))"

lemma old_tuples_Cons:
  assumes "\<forall>b \<in> set as. ac_row b \<noteq> ac_row a"
  shows "old_tuples as (if ac_type a = WR then f(ac_row a := the (ac_orig a)) else f) = old_tuples (a # as) f"
proof
  fix r
  have "find (\<lambda>b. ac_row b = r \<and> ac_type b = WR) as = None" if "r = ac_row a" using assms that by (auto simp: find_None_iff)
  then show "old_tuples as (if ac_type a = WR then f(ac_row a := the (ac_orig a)) else f) r = old_tuples (a # as) f r"
    by (auto simp: old_tuples_def split: option.splits)
qed

lemma cleanup_rows_ok:
  assumes inv: "tpl_inv cfg db0 s" and cfg: "ROLL_BACK cfg" "\<not> REPEATABLE_READ cfg"
    and ph: "phase (txns s t) = Cleaning rc" "rc \<in> {RCOK, Abort}"
  shows "\<exists>s'. cleanup_rows cfg t rc (length (accesses (txns s t))) s = Some s' \<and> tpl_inv cfg db0 s' \<and>
    txns s' = (txns s)(t := (txns s t)\<lparr>accesses := []\<rparr>) \<and>
    row_data s' = (if rc = Abort then old_tuples (accesses (txns s t)) (row_data s) else row_data s)"
  using inv ph
proof (induction "accesses (txns s t)" arbitrary: s)
  case Nil
  have "(txns s)(t := (txns s t)\<lparr>accesses := []\<rparr>) = txns s" using Nil(1) by (intro ext) simp
  then show ?case using Nil by (auto simp: old_tuples_def)
next
  case (Cons a as)
  from cleanup_row_ok [OF Cons.prems(1) cfg Cons.prems(2,3) Cons.hyps(2) [symmetric]] obtain s1 where
    s1: "cleanup_row cfg t rc s = Some s1" "tpl_inv cfg db0 s1" "txns s1 = (txns s)(t := (txns s t)\<lparr>accesses := as\<rparr>)"
      "row_data s1 = (if rc = Abort \<and> ac_type a = WR then (row_data s)(ac_row a := the (ac_orig a)) else row_data s)" by blast
  have a1: "as = accesses (txns s1 t)" "phase (txns s1 t) = Cleaning rc" using s1(3) Cons.prems(2) by simp_all
  from Cons.hyps(1) [OF a1(1) s1(2) a1(2) Cons.prems(3), folded a1(1)] obtain s' where
    s': "cleanup_rows cfg t rc (length as) s1 = Some s'" "tpl_inv cfg db0 s'" "txns s' = (txns s1)(t := (txns s1 t)\<lparr>accesses := []\<rparr>)"
      "row_data s' = (if rc = Abort then old_tuples as (row_data s1) else row_data s1)" by blast
  have "link (sys_rows (locks s)) t (txns s t)" using Cons.prems(1) by (simp add: tpl_inv_def)
  from linkD(1) [OF this] have n: "b \<in> set as \<Longrightarrow> ac_row b \<noteq> ac_row a" for b
    using Cons.hyps(2) by (metis distinct.simps(2) image_eqI list.map(2) list.set_map)
  then have "row_data s' = (if rc = Abort then old_tuples (a # as) (row_data s) else row_data s)"
    using s'(4) s1(4) old_tuples_Cons [of as a "row_data s"] by (auto split: if_splits)
  moreover have "cleanup_rows cfg t rc (length (a # as)) s = Some s'" using s1(1) s'(1) by simp
  moreover have "txns s' = (txns s)(t := (txns s t)\<lparr>accesses := []\<rparr>)" using s1(3) s'(3) by (intro ext) simp
  ultimately show ?case using s'(2) unfolding Cons.hyps(2) [symmetric] by blast
qed

text \<open>
  C4. Rollback: from every reachable state in which a transaction runs, \<open>finish\<close> with \<open>Abort\<close> returns
  without a failed assertion; afterwards every row the transaction had for writing holds the tuple it
  held when it was first obtained, no other tuple has changed, the transaction has no accesses left and holds
  no lock.
\<close>

theorem finish_abort_restores:
  assumes "tpl_reach cfg db0 s" and "ROLL_BACK cfg" and "\<not> REPEATABLE_READ cfg"
    and "phase (txns s t) = Active" and "pending (txns s t) = None"
  shows "\<exists>s'. finish cfg t Abort s = Some (Abort, s') \<and> accesses (txns s' t) = [] \<and>
    (\<forall>r. \<not> sys_holds (locks s') t r) \<and>
    (\<forall>r. row_data s' r = (case find (\<lambda>a. ac_row a = r \<and> ac_type a = WR) (accesses (txns s t)) of
       None \<Rightarrow> row_data s r | Some a \<Rightarrow> the (ac_orig a)))"
proof -
  let ?s = "start_cleanup t Abort s"
  have "tpl_reach cfg db0 ?s" by (rule tpl_reach.step [OF assms(1) tpl_step.ends]) (use assms in simp_all)
  from tpl_reach_inv [OF this assms(2,3)] have inv: "tpl_inv cfg db0 ?s" .
  have ph: "phase (txns ?s t) = Cleaning Abort" by (simp add: start_cleanup_def)
  from cleanup_rows_ok [OF inv assms(2,3) ph] obtain s1 where
    s1: "cleanup_rows cfg t Abort (length (accesses (txns ?s t))) ?s = Some s1" "tpl_inv cfg db0 s1"
      "txns s1 = (txns ?s)(t := (txns ?s t)\<lparr>accesses := []\<rparr>)"
      "row_data s1 = old_tuples (accesses (txns ?s t)) (row_data ?s)" by auto
  have "finish cfg t Abort s = Some (Abort, cleanup_end t s1)" using s1(1) by (simp add: finish_def cleanup_def)
  moreover have "link (sys_rows (locks s1)) t (txns s1 t)" using s1(2) by (simp add: tpl_inv_def)
  then have "t \<notin> row_txns (sys_rows (locks s1) r)" for r
    using s1(3) assms(5) by (auto simp: link_def start_cleanup_def)
  then have "\<not> sys_holds (locks (cleanup_end t s1)) t r" for r
    by (simp add: sys_holds_def row_txns_eq cleanup_end_def)
  moreover have "accesses (txns ?s t) = accesses (txns s t)" "row_data ?s = row_data s" by (simp_all add: start_cleanup_def)
  ultimately show ?thesis using s1(4) by (simp add: cleanup_end_def old_tuples_def)
qed

section \<open>A run\<close>

text \<open>Thread 0 writes row 0 and commits; then thread 1 writes it too and is still running.\<close>

definition demo_tpl :: tpl_cfg where
  "demo_tpl = \<lparr>cfg_threads = 2, cfg_alg = NO_WAIT, MAX_ROW_PER_TXN = 4, MAX_WRITE_SET = 4, ROLL_BACK = True,
     REPEATABLE_READ = False\<rparr>"

fun demo_run :: "nat \<Rightarrow> nat tpl_sys" where
  "demo_run 0 = \<lparr>locks = demo_start, row_data = (\<lambda>_. 5),
     txns = (\<lambda>_. \<lparr>accesses = [], wr_cnt = 0, insert_rows = [], pending = None, phase = Active, reads = []\<rparr>), history = []\<rparr>"
| "demo_run (Suc n) =
     (let s = demo_run n in
      if n = 0 then snd (the (get_row demo_tpl 0 WR 0 s))
      else if n = 1 then s\<lparr>row_data := (row_data s)(0 := 7)\<rparr>
      else if n = 2 then start_cleanup 0 RCOK s
      else if n = 3 then the (cleanup_row demo_tpl 0 RCOK s)
      else if n = 4 then cleanup_end 0 s
      else if n = 5 then snd (the (get_row demo_tpl 1 WR 0 s))
      else s\<lparr>row_data := (row_data s)(0 := 9)\<rparr>)"

lemma demo_run_get:
  assumes "t < 2" and "phase (txns s t) = Active" and "pending (txns s t) = None" and "accesses (txns s t) = []"
    and some: "\<not> Option.is_none (get_row demo_tpl t WR 0 s)"
  shows "tpl_step demo_tpl s (snd (the (get_row demo_tpl t WR 0 s)))"
proof -
  obtain rc s' where "get_row demo_tpl t WR 0 s = Some (rc, s')" using some by (auto simp: Option.is_none_def)
  then show ?thesis using assms by (auto intro: tpl_step.request [of t _ _ WR 0 rc] simp: demo_tpl_def)
qed

lemma demo_run_reach: "tpl_reach demo_tpl (\<lambda>_. 5) (demo_run 7)"
proof -
  have "tpl_start demo_tpl (\<lambda>_. 5) (demo_run 0)"
    by (auto simp: tpl_start_def lock_start_def demo_start_def demo_tpl_def inj_on_def less_2_cases_iff)
  then have r0: "tpl_reach demo_tpl (\<lambda>_. 5) (demo_run 0)" by (rule tpl_reach.start)
  have "tpl_step demo_tpl (demo_run 0) (snd (the (get_row demo_tpl 0 WR 0 (demo_run 0))))"
    by (rule demo_run_get; code_simp)
  from tpl_reach.step [OF r0 this] have r1: "tpl_reach demo_tpl (\<lambda>_. 5) (demo_run (Suc 0))" by (simp add: Let_def)
  have pa: "phase (txns (demo_run (Suc 0)) 0) = Active" by code_simp
  have a: "accesses (txns (demo_run (Suc 0)) 0) = [\<lparr>ac_type = WR, ac_row = 0, ac_orig = Some 5\<rparr>]" by code_simp
  have "tpl_step demo_tpl (demo_run (Suc 0)) ((demo_run (Suc 0))\<lparr>row_data := (row_data (demo_run (Suc 0)))
      (ac_row \<lparr>ac_type = WR, ac_row = 0, ac_orig = Some (5 :: nat)\<rparr> := 7)\<rparr>)"
    by (rule tpl_step.writes_row [OF pa]) (simp_all only: a list.set insert_iff Access.select_convs simp_thms)
  from tpl_reach.step [OF r1 this] have r2: "tpl_reach demo_tpl (\<lambda>_. 5) (demo_run (Suc (Suc 0)))" by (simp add: Let_def)
  have "tpl_step demo_tpl (demo_run (Suc (Suc 0))) (start_cleanup 0 RCOK (demo_run (Suc (Suc 0))))"
    by (rule tpl_step.ends; code_simp)
  from tpl_reach.step [OF r2 this] have r3: "tpl_reach demo_tpl (\<lambda>_. 5) (demo_run 3)" by (simp add: Let_def numeral_eq_Suc)
  have s4: "\<not> Option.is_none (cleanup_row demo_tpl 0 RCOK (demo_run 3))" "phase (txns (demo_run 3) 0) = Cleaning RCOK" by code_simp+
  then have "tpl_step demo_tpl (demo_run 3) (the (cleanup_row demo_tpl 0 RCOK (demo_run 3)))"
    by (intro tpl_step.cleans_row [of _ 0 RCOK]) (auto simp: Option.is_none_def)
  from tpl_reach.step [OF r3 this] have r4: "tpl_reach demo_tpl (\<lambda>_. 5) (demo_run 4)" by (simp add: Let_def numeral_eq_Suc)
  have "tpl_step demo_tpl (demo_run 4) (cleanup_end 0 (demo_run 4))" by (rule tpl_step.cleaned [of _ 0 RCOK]; code_simp)
  from tpl_reach.step [OF r4 this] have r5: "tpl_reach demo_tpl (\<lambda>_. 5) (demo_run 5)" by (simp add: Let_def numeral_eq_Suc)
  have "tpl_step demo_tpl (demo_run 5) (snd (the (get_row demo_tpl 1 WR 0 (demo_run 5))))" by (rule demo_run_get; code_simp)
  from tpl_reach.step [OF r5 this] have r6: "tpl_reach demo_tpl (\<lambda>_. 5) (demo_run 6)" by (simp add: Let_def numeral_eq_Suc)
  have pb: "phase (txns (demo_run 6) 1) = Active" by code_simp
  have b: "accesses (txns (demo_run 6) 1) = [\<lparr>ac_type = WR, ac_row = 0, ac_orig = Some 7\<rparr>]" by code_simp
  have "tpl_step demo_tpl (demo_run 6) ((demo_run 6)\<lparr>row_data := (row_data (demo_run 6))
      (ac_row \<lparr>ac_type = WR, ac_row = 0, ac_orig = Some (7 :: nat)\<rparr> := 9)\<rparr>)"
    by (rule tpl_step.writes_row [OF pb]) (simp_all only: b list.set insert_iff Access.select_convs simp_thms)
  from tpl_reach.step [OF r6 this] show ?thesis by (simp add: Let_def numeral_eq_Suc)
qed


theorem finish_abort_restores_witness:
  "\<exists>s'. finish demo_tpl 1 Abort (demo_run 7) = Some (Abort, s') \<and> row_data (demo_run 7) 0 = 9 \<and> row_data s' 0 = 7"
proof -
  have a: "accesses (txns (demo_run 7) 1) = [\<lparr>ac_type = WR, ac_row = 0, ac_orig = Some 7\<rparr>]" by code_simp
  have "phase (txns (demo_run 7) 1) = Active" "pending (txns (demo_run 7) 1) = None" "row_data (demo_run 7) 0 = 9" by code_simp+
  then show ?thesis using finish_abort_restores [OF demo_run_reach, of 1] by (auto simp: a [unfolded One_nat_def] demo_tpl_def)
qed

end
