(* ===== verification/DL_Detect.thy ===== *)
theory DL_Detect
  imports DBx_Prelude
begin

text \<open>
  The deadlock detector of DL\_DETECT: concurrency\_control/dl\_detect/dl\_detect.h and dl\_detect.cpp.
  Every thread has one entry with the id of its waiting transaction (\<open>-1\<close> when there is none), the
  number of locks it holds and the ids it waits for.  The detector searches depth first from one
  transaction; a step reads an entry under its latch.  The search is modelled on entries that do not
  change while it runs.

  \<open>nextNode\<close> calls itself once per unvisited thread; the fuel argument bounds the depth and
  \<open>None\<close> is only returned when it is used up, which \<open>nextNode_post\<close> excludes for a fuel above the
  number of threads, or at the assertion on \<open>visited\<close>.
\<close>

record DepThd =
  dep_txnid :: "64 word"
  dep_num_locks :: int
  dep_adj :: "txnid_t list"

record DetectData =
  visited :: "nat \<Rightarrow> bool"
  recStack :: "nat \<Rightarrow> bool"
  dd_loop :: bool
  onloop :: bool
  loopstart :: nat
  min_lock_num :: int
  min_txnid :: "64 word"

type_synonym deps = "nat \<Rightarrow> DepThd"

definition get_thdid_from_txnid :: "nat \<Rightarrow> txnid_t \<Rightarrow> nat" where
  "get_thdid_from_txnid g_thread_cnt txnid = unat txnid mod g_thread_cnt"

text \<open>\<open>init\<close> allocates the entries; their ids and lock counts are whatever the memory held.\<close>

definition dep_init :: "(nat \<Rightarrow> 64 word) \<Rightarrow> (nat \<Rightarrow> int) \<Rightarrow> deps" where
  "dep_init ids locks = (\<lambda>t. \<lparr>dep_txnid = ids t, dep_num_locks = locks t, dep_adj = []\<rparr>)"

definition add_dep :: "bool \<Rightarrow> nat \<Rightarrow> txnid_t \<Rightarrow> txnid_t list \<Rightarrow> int \<Rightarrow> deps \<Rightarrow> deps" where
  "add_dep g_no_dl n txnid1 txnids num_locks dep =
     (if g_no_dl then dep else
      let thd1 = get_thdid_from_txnid n txnid1
      in dep(thd1 := (dep thd1)\<lparr>dep_txnid := txnid1, dep_num_locks := num_locks,
                                dep_adj := dep_adj (dep thd1) @ txnids\<rparr>))"

definition clear_dep :: "bool \<Rightarrow> nat \<Rightarrow> txnid_t \<Rightarrow> deps \<Rightarrow> deps" where
  "clear_dep g_no_dl n txnid dep =
     (if g_no_dl then dep else
      let thd = get_thdid_from_txnid n txnid
      in dep(thd := (dep thd)\<lparr>dep_adj := [], dep_txnid := - 1, dep_num_locks := 0\<rparr>))"

text \<open>\<open>(SInt32)txnids[n]\<close>, compared with a 64-bit id.\<close>

definition as_SInt32 :: "txnid_t \<Rightarrow> 64 word" where
  "as_SInt32 txnid = signed_take_bit 31 txnid"

fun nextNode :: "nat \<Rightarrow> nat \<Rightarrow> deps \<Rightarrow> txnid_t \<Rightarrow> DetectData \<Rightarrow> (bool \<times> DetectData) option"
and nextNodes :: "nat \<Rightarrow> nat \<Rightarrow> deps \<Rightarrow> txnid_t list \<Rightarrow> DetectData \<Rightarrow> DetectData option" where
  "nextNode 0 n dep txnid dd = None"
| "nextNode (Suc k) n dep txnid dd =
     (let thd = get_thdid_from_txnid n txnid
      in assert_then (\<not> visited dd thd)
        (let dd1 = dd\<lparr>visited := (visited dd)(thd := True), recStack := (recStack dd)(thd := True)\<rparr>
         in if dep_txnid (dep thd) \<noteq> txnid
            then Some (False, dd1\<lparr>recStack := (recStack dd1)(thd := False)\<rparr>)
            else
              (case nextNodes k n dep (dep_adj (dep thd)) dd1 of
                 None \<Rightarrow> None
               | Some dd2 \<Rightarrow>
                   (let dd3 = dd2\<lparr>recStack := (recStack dd2)(thd := False)\<rparr>;
                        dd4 = (if dd_loop dd3 \<and> onloop dd3 \<and> dep_num_locks (dep thd) < min_lock_num dd3
                               then dd3\<lparr>min_lock_num := dep_num_locks (dep thd), min_txnid := txnid\<rparr> else dd3);
                        dd5 = (if thd = loopstart dd4 then dd4\<lparr>onloop := False\<rparr> else dd4)
                    in Some (dd_loop dd5, dd5)))))"
| "nextNodes k n dep [] dd = Some dd"
| "nextNodes k n dep (x # xs) dd =
     (let nextthd = get_thdid_from_txnid n x
      in if recStack dd nextthd \<and> as_SInt32 x = dep_txnid (dep nextthd)
         then Some (dd\<lparr>dd_loop := True, onloop := True, loopstart := nextthd\<rparr>)
         else if \<not> visited dd nextthd \<and> dep_txnid (dep nextthd) = x
         then (case nextNode k n dep x dd of
                 None \<Rightarrow> None
               | Some (found, dd1) \<Rightarrow> if found then Some dd1 else nextNodes k n dep xs dd1)
         else nextNodes k n dep xs dd)"

text \<open>
  \<open>detect_cycle\<close>: whether a deadlock was found, and the thread whose \<open>lock_abort\<close> is set.  The fields
  \<open>onloop\<close> and \<open>loopstart\<close> are not initialised in the source; their values before a loop is found
  are parameters.
\<close>

definition detect_cycle ::
  "bool \<Rightarrow> nat \<Rightarrow> deps \<Rightarrow> bool \<Rightarrow> nat \<Rightarrow> txnid_t \<Rightarrow> (int \<times> nat option) option" where
  "detect_cycle g_no_dl n dep onloop0 loopstart0 txnid =
     (if g_no_dl then Some (0, None) else
      let dd = \<lparr>visited = (\<lambda>_. False), recStack = (\<lambda>_. False), dd_loop = False, onloop = onloop0,
                loopstart = loopstart0, min_lock_num = 1000, min_txnid = - 1\<rparr>
      in case nextNode (Suc n) n dep txnid dd of
           None \<Rightarrow> None
         | Some (found, dd1) \<Rightarrow>
             (if found
              then (let thd = get_thdid_from_txnid n (min_txnid dd1)
                    in Some (1, if dep_txnid (dep thd) = min_txnid dd1 then Some thd else None))
              else Some (0, None)))"

section \<open>The waits-for graph\<close>

definition dep_edges :: "nat \<Rightarrow> deps \<Rightarrow> (nat \<times> nat) set" where
  "dep_edges n dep = {(a, b). \<exists>x\<in>set (dep_adj (dep a)). b = get_thdid_from_txnid n x \<and> dep_txnid (dep b) = x}"

definition ids_small :: "deps \<Rightarrow> bool" where
  "ids_small dep \<longleftrightarrow> (\<forall>a. \<forall>x\<in>set (dep_adj (dep a)). x < 2147483648)"

lemma as_SInt32_small: "x < 2147483648 \<Longrightarrow> as_SInt32 x = x"
proof -
  assume "x < 2147483648"
  then have "uint x < 2 ^ 31" by (simp add: word_less_def)
  then have m: "x AND mask 31 = x" by (simp add: mask_eq_iff)
  have b: "bit x i \<Longrightarrow> i < 31" for i using arg_cong [OF m, of "\<lambda>w. bit w i"] by (simp add: bit_simps)
  show ?thesis unfolding as_SInt32_def
  proof (rule bit_eqI)
    fix i
    show "bit (signed_take_bit 31 x) i = bit x i"
      using b [of i] b [of 31] bit_imp_le_length [of x i] by (auto simp: bit_signed_take_bit_iff min_def)
  qed
qed

section \<open>What the search computes\<close>

definition unvisited :: "nat \<Rightarrow> DetectData \<Rightarrow> nat set" where
  "unvisited n dd = {t. t < n \<and> \<not> visited dd t}"

lemma finite_unvisited [simp]: "finite (unvisited n dd)"
  by (simp add: unvisited_def)

lemma thdid_less: "0 < n \<Longrightarrow> get_thdid_from_txnid n x < n"
  by (simp add: get_thdid_from_txnid_def)

text \<open>
  A finished node is visited and not on the stack.  The finished nodes are closed under the edges of
  the graph and carry a rank that every edge decreases, so no cycle passes through them.
\<close>

definition finished_ok :: "(nat \<times> nat) set \<Rightarrow> DetectData \<Rightarrow> bool" where
  "finished_ok E dd \<longleftrightarrow>
     (\<forall>a b. visited dd a \<longrightarrow> \<not> recStack dd a \<longrightarrow> (a, b) \<in> E \<longrightarrow> visited dd b \<and> \<not> recStack dd b) \<and>
     (\<exists>f :: nat \<Rightarrow> nat. \<forall>a b. visited dd a \<longrightarrow> \<not> recStack dd a \<longrightarrow> (a, b) \<in> E \<longrightarrow> f b < f a)"

text \<open>The thread chosen for the abort lies on a cycle and still runs the chosen transaction.\<close>

definition victim_ok :: "nat \<Rightarrow> deps \<Rightarrow> DetectData \<Rightarrow> bool" where
  "victim_ok n dep dd \<longleftrightarrow>
     (let v = get_thdid_from_txnid n (min_txnid dd)
      in (v, v) \<in> (dep_edges n dep)\<^sup>+ \<and> dep_txnid (dep v) = min_txnid dd)"

definition search_pre :: "nat \<Rightarrow> deps \<Rightarrow> nat \<Rightarrow> nat \<Rightarrow> DetectData \<Rightarrow> bool" where
  "search_pre n dep k u dd \<longleftrightarrow> \<not> dd_loop dd \<and> (\<forall>t. recStack dd t \<longrightarrow> visited dd t) \<and>
     card (unvisited n dd) \<le> k \<and> finished_ok (dep_edges n dep) dd \<and>
     (\<forall>g. recStack dd g \<longrightarrow> (g, u) \<in> (dep_edges n dep)\<^sup>*) \<and> min_lock_num dd = 1000"

definition search_post :: "nat \<Rightarrow> deps \<Rightarrow> nat \<Rightarrow> DetectData \<Rightarrow> DetectData \<Rightarrow> bool" where
  "search_post n dep u dd dd' \<longleftrightarrow>
     (\<forall>t. visited dd t \<longrightarrow> visited dd' t) \<and> recStack dd' = recStack dd \<and>
     (\<not> dd_loop dd' \<longrightarrow> finished_ok (dep_edges n dep) dd' \<and> min_lock_num dd' = 1000) \<and>
     (dd_loop dd' \<longrightarrow>
        (\<exists>c. (u, c) \<in> (dep_edges n dep)\<^sup>* \<and> (c, c) \<in> (dep_edges n dep)\<^sup>+) \<and>
        (onloop dd' \<longrightarrow> (u, loopstart dd') \<in> (dep_edges n dep)\<^sup>+ \<and> recStack dd (loopstart dd')) \<and>
        (min_lock_num dd' < 1000 \<longrightarrow> victim_ok n dep dd') \<and>
        (\<not> onloop dd' \<longrightarrow> (\<forall>t. dep_num_locks (dep t) < 1000) \<longrightarrow> min_lock_num dd' < 1000))"

lemma dep_edgeI:
  "x \<in> set (dep_adj (dep u)) \<Longrightarrow> dep_txnid (dep (get_thdid_from_txnid n x)) = x \<Longrightarrow>
   (u, get_thdid_from_txnid n x) \<in> dep_edges n dep"
  by (auto simp: dep_edges_def)

lemma search_post_refl: "search_pre n dep k u dd \<Longrightarrow> search_post n dep u dd dd"
  by (simp add: search_pre_def search_post_def)

lemma unvisited_mono:
  "(\<forall>t. visited dd t \<longrightarrow> visited dd' t) \<Longrightarrow> card (unvisited n dd') \<le> card (unvisited n dd)"
  by (rule card_mono) (auto simp: unvisited_def)

text \<open>The loop over the ids a transaction waits for, given the claim for one call.\<close>

lemma nextNodes_post:
  assumes n: "0 < n" and small: "ids_small dep"
    and node: "\<And>x dd. search_pre n dep k (get_thdid_from_txnid n x) dd \<Longrightarrow>
      \<not> visited dd (get_thdid_from_txnid n x) \<Longrightarrow> dep_txnid (dep (get_thdid_from_txnid n x)) = x \<Longrightarrow>
      \<exists>dd'. nextNode k n dep x dd = Some (dd_loop dd', dd') \<and> visited dd' (get_thdid_from_txnid n x) \<and>
        search_post n dep (get_thdid_from_txnid n x) dd dd'"
  shows "search_pre n dep k u dd \<Longrightarrow> set xs \<subseteq> set (dep_adj (dep u)) \<Longrightarrow>
    \<exists>dd'. nextNodes k n dep xs dd = Some dd' \<and> search_post n dep u dd dd' \<and>
      (\<not> dd_loop dd' \<longrightarrow> (\<forall>x\<in>set xs. dep_txnid (dep (get_thdid_from_txnid n x)) = x \<longrightarrow>
         visited dd' (get_thdid_from_txnid n x) \<and> \<not> recStack dd (get_thdid_from_txnid n x)))"
proof (induction xs arbitrary: dd)
  case Nil
  then show ?case using search_post_refl by auto
next
  case (Cons x xs)
  let ?E = "dep_edges n dep" and ?t = "get_thdid_from_txnid n x"
  have x: "x \<in> set (dep_adj (dep u))" "set xs \<subseteq> set (dep_adj (dep u))" using Cons.prems(2) by auto
  have sx: "as_SInt32 x = x" using small x(1) by (intro as_SInt32_small) (auto simp: ids_small_def)
  consider (loopback) "recStack dd ?t" "x = dep_txnid (dep ?t)"
    | (tree) "\<not> (recStack dd ?t \<and> x = dep_txnid (dep ?t))" "\<not> visited dd ?t" "dep_txnid (dep ?t) = x"
    | (other) "\<not> (recStack dd ?t \<and> x = dep_txnid (dep ?t))" "\<not> (\<not> visited dd ?t \<and> dep_txnid (dep ?t) = x)" by blast
  then show ?case
  proof cases
    case loopback
    have e: "(u, ?t) \<in> ?E" using dep_edgeI [of x dep u n] x(1) loopback(2) by simp
    have "(?t, u) \<in> ?E\<^sup>*" using Cons.prems(1) loopback(1) by (simp add: search_pre_def)
    then have cyc: "(u, u) \<in> ?E\<^sup>+" using e by (rule rtrancl_into_trancl2 [rotated])
    have "search_post n dep u dd (dd\<lparr>dd_loop := True, onloop := True, loopstart := ?t\<rparr>)"
      using Cons.prems(1) e cyc loopback(1) by (auto simp: search_pre_def search_post_def)
    then show ?thesis using loopback sx by (simp add: Let_def)
  next
    case tree
    have e: "(u, ?t) \<in> ?E" using dep_edgeI [of x dep u n] x(1) tree(3) by simp
    have "search_pre n dep k ?t dd" using Cons.prems(1) e by (auto simp: search_pre_def intro: rtrancl_into_rtrancl)
    from node [OF this tree(2,3)] obtain dd1 where
      d1: "nextNode k n dep x dd = Some (dd_loop dd1, dd1)" "visited dd1 ?t" "search_post n dep ?t dd dd1" by blast
    show ?thesis
    proof (cases "dd_loop dd1")
      case True
      have "search_post n dep u dd dd1"
        using d1(3) True e unfolding search_post_def
        by (metis converse_rtrancl_into_rtrancl trancl_into_trancl2)
      then show ?thesis using d1(1) tree sx True by (simp add: Let_def)
    next
      case False
      have pre1: "search_pre n dep k u dd1"
        using d1(3) False Cons.prems(1) unvisited_mono [of dd dd1 n]
        by (auto simp: search_pre_def search_post_def)
      from Cons.IH [OF pre1 x(2)] obtain dd' where
        d': "nextNodes k n dep xs dd1 = Some dd'" "search_post n dep u dd1 dd'"
          "\<not> dd_loop dd' \<longrightarrow> (\<forall>x\<in>set xs. dep_txnid (dep (get_thdid_from_txnid n x)) = x \<longrightarrow>
            visited dd' (get_thdid_from_txnid n x) \<and> \<not> recStack dd1 (get_thdid_from_txnid n x))" by blast
      have rs: "recStack dd1 = recStack dd" using d1(3) by (simp add: search_post_def)
      have "search_post n dep u dd dd'" using d'(2) d1(3) rs by (auto simp: search_post_def)
      moreover have "visited dd' ?t" using d'(2) d1(2) by (simp add: search_post_def)
      ultimately show ?thesis using d1(1) tree sx False d'(1,3) rs by (auto simp: Let_def)
    qed
  next
    case other
    from Cons.IH [OF Cons.prems(1) x(2)] obtain dd' where
      d': "nextNodes k n dep xs dd = Some dd'" "search_post n dep u dd dd'"
        "\<not> dd_loop dd' \<longrightarrow> (\<forall>x\<in>set xs. dep_txnid (dep (get_thdid_from_txnid n x)) = x \<longrightarrow>
          visited dd' (get_thdid_from_txnid n x) \<and> \<not> recStack dd (get_thdid_from_txnid n x))" by blast
    have "dep_txnid (dep ?t) = x \<longrightarrow> visited dd' ?t \<and> \<not> recStack dd ?t"
      using other d'(2) by (auto simp: search_post_def)
    then show ?thesis using other sx d' by (auto simp: Let_def)
  qed
qed


lemma finished_ok_enter:
  assumes "finished_ok E dd" "\<not> visited dd t"
  shows "finished_ok E (dd\<lparr>visited := (visited dd)(t := True), recStack := (recStack dd)(t := True)\<rparr>)"
proof -
  let ?d = "dd\<lparr>visited := (visited dd)(t := True), recStack := (recStack dd)(t := True)\<rparr>"
  have same: "visited ?d a \<and> \<not> recStack ?d a \<longleftrightarrow> visited dd a \<and> \<not> recStack dd a" for a
    using assms(2) by auto
  show ?thesis using assms(1) same unfolding finished_ok_def by metis
qed

lemma finished_ok_leave:
  assumes fin: "finished_ok E dd" and t: "visited dd t" "recStack dd t" and finite: "finite {b. (t, b) \<in> E}"
    and succ: "\<And>b. (t, b) \<in> E \<Longrightarrow> visited dd b \<and> \<not> recStack dd b"
  shows "finished_ok E (dd\<lparr>recStack := (recStack dd)(t := False)\<rparr>)"
proof -
  obtain f :: "nat \<Rightarrow> nat" where
    f: "\<And>a b. visited dd a \<Longrightarrow> \<not> recStack dd a \<Longrightarrow> (a, b) \<in> E \<Longrightarrow> f b < f a"
    using fin unfolding finished_ok_def by blast
  have cl: "\<And>a b. visited dd a \<Longrightarrow> \<not> recStack dd a \<Longrightarrow> (a, b) \<in> E \<Longrightarrow> visited dd b \<and> \<not> recStack dd b"
    using fin unfolding finished_ok_def by blast
  let ?g = "f(t := Suc (\<Sum>b\<in>{b. (t, b) \<in> E}. f b))"
  let ?r = "(recStack dd)(t := False)"
  have rank: "?g b < ?g a" if "visited dd a" "\<not> ((recStack dd)(t := False)) a" "(a, b) \<in> E" for a b
  proof (cases "a = t")
    case True
    then have "b \<noteq> t" "f b \<le> (\<Sum>b\<in>{b. (t, b) \<in> E}. f b)"
      using succ [of b] that(3) t finite by (auto intro: member_le_sum)
    then show ?thesis using True by simp
  next
    case False
    then show ?thesis using f [of a b] cl [of a b] that t by (cases "b = t") auto
  qed
  have closed: "visited dd b \<and> \<not> ((recStack dd)(t := False)) b"
    if "visited dd a" "\<not> ((recStack dd)(t := False)) a" "(a, b) \<in> E" for a b
    using cl [of a b] succ [of b] that by (auto split: if_splits)
  have "\<forall>a b. visited dd a \<longrightarrow> \<not> ?r a \<longrightarrow> (a, b) \<in> E \<longrightarrow> visited dd b \<and> \<not> ?r b" using closed by blast
  moreover have "\<forall>a b. visited dd a \<longrightarrow> \<not> ?r a \<longrightarrow> (a, b) \<in> E \<longrightarrow> ?g b < ?g a" using rank by blast
  moreover have v: "visited (dd\<lparr>recStack := ?r\<rparr>) = visited dd" and r: "recStack (dd\<lparr>recStack := ?r\<rparr>) = ?r" by simp_all
  ultimately show ?thesis unfolding finished_ok_def v r by blast
qed

lemma finite_dep_edges: "finite {b. (a, b) \<in> dep_edges n dep}"
  by (rule finite_subset [of _ "get_thdid_from_txnid n ` set (dep_adj (dep a))"]) (auto simp: dep_edges_def)

lemma unvisited_enter:
  assumes "t < n" "\<not> visited dd t"
  shows "card (unvisited n (dd\<lparr>visited := (visited dd)(t := True), recStack := r\<rparr>)) < card (unvisited n dd)"
  using assms by (intro psubset_card_mono) (auto simp: unvisited_def)

text \<open>Leaving a node: the victim is updated on the loop, and the loop is left at its start.\<close>

definition leave_node :: "nat \<Rightarrow> deps \<Rightarrow> txnid_t \<Rightarrow> DetectData \<Rightarrow> DetectData" where
  "leave_node n dep x dd2 =
     (let thd = get_thdid_from_txnid n x;
          dd3 = dd2\<lparr>recStack := (recStack dd2)(thd := False)\<rparr>;
          dd4 = (if dd_loop dd3 \<and> onloop dd3 \<and> dep_num_locks (dep thd) < min_lock_num dd3
                 then dd3\<lparr>min_lock_num := dep_num_locks (dep thd), min_txnid := x\<rparr> else dd3)
      in if thd = loopstart dd4 then dd4\<lparr>onloop := False\<rparr> else dd4)"

lemma finished_ok_cong:
  "visited d = visited d' \<Longrightarrow> recStack d = recStack d' \<Longrightarrow> finished_ok E d = finished_ok E d'"
  by (simp add: finished_ok_def)

lemma leave_node_post:
  fixes n dep x dd
  defines "t \<equiv> get_thdid_from_txnid n x"
  defines "dd1 \<equiv> dd\<lparr>visited := (visited dd)(t := True), recStack := (recStack dd)(t := True)\<rparr>"
  assumes pre: "search_pre n dep k t dd1" and new: "\<not> visited dd t" "\<not> recStack dd t" and id: "dep_txnid (dep t) = x"
    and post: "search_post n dep t dd1 dd2"
    and succ: "\<not> dd_loop dd2 \<Longrightarrow> \<forall>b. (t, b) \<in> dep_edges n dep \<longrightarrow> visited dd2 b \<and> \<not> recStack dd2 b"
  shows "search_post n dep t dd (leave_node n dep x dd2)" "visited (leave_node n dep x dd2) t"
proof -
  let ?E = "dep_edges n dep" and ?d = "leave_node n dep x dd2"
  have vis: "visited ?d = visited dd2" and rec: "recStack ?d = (recStack dd2)(t := False)"
    and lp: "dd_loop ?d = dd_loop dd2" "loopstart ?d = loopstart dd2"
    and on: "onloop ?d = (onloop dd2 \<and> t \<noteq> loopstart dd2)"
    by (auto simp: leave_node_def Let_def t_def)
  have v2: "visited dd2 t" "recStack dd2 = recStack dd1"
    using post by (auto simp: search_post_def dd1_def)
  show "visited ?d t" using vis v2 by simp
  have stk: "recStack dd1 g \<Longrightarrow> (g, t) \<in> ?E\<^sup>*" for g using pre by (simp add: search_pre_def)
  have fin: "finished_ok ?E ?d \<and> min_lock_num ?d = 1000" if "\<not> dd_loop dd2"
  proof -
    have "finished_ok ?E (dd2\<lparr>recStack := (recStack dd2)(t := False)\<rparr>)"
      using post that succ [OF that] v2 by (intro finished_ok_leave finite_dep_edges) (auto simp: search_post_def dd1_def)
    then have "finished_ok ?E ?d" using vis rec by (subst finished_ok_cong [of _ "dd2\<lparr>recStack := (recStack dd2)(t := False)\<rparr>"]) auto
    moreover have "min_lock_num ?d = 1000" using that post by (simp add: leave_node_def Let_def search_post_def)
    ultimately show ?thesis ..
  qed
  have vic: "victim_ok n dep ?d" if "dd_loop dd2" "min_lock_num ?d < 1000"
  proof (cases "onloop dd2 \<and> dep_num_locks (dep t) < min_lock_num dd2")
    case True
    then have "min_txnid ?d = x" using that by (auto simp: leave_node_def Let_def t_def)
    moreover have "(t, t) \<in> ?E\<^sup>+"
      using post that(1) True stk [of "loopstart dd2"] by (auto simp: search_post_def intro: trancl_rtrancl_trancl)
    ultimately show ?thesis using id by (simp add: victim_ok_def t_def)
  next
    case False
    then have "min_txnid ?d = min_txnid dd2" "min_lock_num ?d = min_lock_num dd2" by (auto simp: leave_node_def Let_def t_def)
    then show ?thesis using post that by (auto simp: search_post_def victim_ok_def)
  qed
  have few: "min_lock_num ?d < 1000" if "dd_loop dd2" "\<not> onloop ?d" "\<forall>t. dep_num_locks (dep t) < 1000"
    using post that by (auto simp: leave_node_def Let_def search_post_def not_less le_less_trans split: if_splits)
  have rs: "recStack ?d = recStack dd" using rec v2 new by (intro ext) (simp add: dd1_def)
  show "search_post n dep t dd ?d"
    unfolding search_post_def using post fin vic few lp on vis rs v2
    by (auto simp: search_post_def dd1_def split: if_splits)
qed

lemma nextNode_Suc:
  assumes "\<not> visited dd (get_thdid_from_txnid n x)" "dep_txnid (dep (get_thdid_from_txnid n x)) = x"
    and "nextNodes k n dep (dep_adj (dep (get_thdid_from_txnid n x)))
      (dd\<lparr>visited := (visited dd)(get_thdid_from_txnid n x := True), recStack := (recStack dd)(get_thdid_from_txnid n x := True)\<rparr>) = Some dd2"
  shows "nextNode (Suc k) n dep x dd = Some (dd_loop (leave_node n dep x dd2), leave_node n dep x dd2)"
  using assms by (simp add: leave_node_def Let_def assert_then_def)

lemma nextNode_post:
  assumes n: "0 < n" and small: "ids_small dep"
  shows "search_pre n dep k (get_thdid_from_txnid n x) dd \<Longrightarrow> \<not> visited dd (get_thdid_from_txnid n x) \<Longrightarrow>
    dep_txnid (dep (get_thdid_from_txnid n x)) = x \<Longrightarrow>
    \<exists>dd'. nextNode k n dep x dd = Some (dd_loop dd', dd') \<and> visited dd' (get_thdid_from_txnid n x) \<and>
      search_post n dep (get_thdid_from_txnid n x) dd dd'"
proof (induction k arbitrary: x dd)
  case 0
  then have "get_thdid_from_txnid n x \<in> unvisited n dd" using thdid_less [OF n] by (simp add: unvisited_def)
  then show ?case using "0.prems"(1) by (auto simp: search_pre_def)
next
  case (Suc k)
  let ?t = "get_thdid_from_txnid n x"
  let ?d1 = "dd\<lparr>visited := (visited dd)(?t := True), recStack := (recStack dd)(?t := True)\<rparr>"
  have pre: "search_pre n dep k ?t ?d1"
    using Suc.prems(1) finished_ok_enter [OF _ Suc.prems(2), of "dep_edges n dep"]
      unvisited_enter [OF thdid_less [OF n] Suc.prems(2), of "(recStack dd)(?t := True)"]
    by (auto simp: search_pre_def)
  from nextNodes_post [OF n small Suc.IH pre subset_refl] obtain dd2 where
    d2: "nextNodes k n dep (dep_adj (dep ?t)) ?d1 = Some dd2" "search_post n dep ?t ?d1 dd2"
      "\<not> dd_loop dd2 \<longrightarrow> (\<forall>y\<in>set (dep_adj (dep ?t)). dep_txnid (dep (get_thdid_from_txnid n y)) = y \<longrightarrow>
         visited dd2 (get_thdid_from_txnid n y) \<and> \<not> recStack ?d1 (get_thdid_from_txnid n y))" by blast
  have rs: "recStack dd2 = recStack ?d1" using d2(2) by (simp add: search_post_def)
  have succ: "\<forall>b. (?t, b) \<in> dep_edges n dep \<longrightarrow> visited dd2 b \<and> \<not> recStack dd2 b" if "\<not> dd_loop dd2"
    using d2(3) that unfolding rs dep_edges_def by blast
  have nr: "\<not> recStack dd ?t" using Suc.prems(1,2) by (auto simp: search_pre_def)
  show ?case
    using nextNode_Suc [OF Suc.prems(2,3) d2(1)]
      leave_node_post [OF pre Suc.prems(2) nr Suc.prems(3) d2(2) succ] by blast
qed


lemma finished_no_cycle:
  assumes fin: "finished_ok E dd" and u: "visited dd u" "\<not> recStack dd u" and uc: "(u, c) \<in> E\<^sup>*"
  shows "(c, c) \<notin> E\<^sup>+"
proof
  assume cc: "(c, c) \<in> E\<^sup>+"
  obtain f :: "nat \<Rightarrow> nat" where
    f: "\<And>a b. visited dd a \<Longrightarrow> \<not> recStack dd a \<Longrightarrow> (a, b) \<in> E \<Longrightarrow> f b < f a"
    using fin unfolding finished_ok_def by blast
  have cl: "\<And>a b. visited dd a \<Longrightarrow> \<not> recStack dd a \<Longrightarrow> (a, b) \<in> E \<Longrightarrow> visited dd b \<and> \<not> recStack dd b"
    using fin unfolding finished_ok_def by blast
  have c: "visited dd c \<and> \<not> recStack dd c"
    using uc by (induction rule: rtrancl_induct) (use u cl in blast)+
  have "visited dd b \<and> \<not> recStack dd b \<and> f b < f c" if "(c, b) \<in> E\<^sup>+" for b
    using that by (induction rule: trancl_induct) (use c f cl less_trans in blast)+
  then show False using cc by blast
qed

text \<open>The search from an empty stack, as \<open>detect_cycle\<close> starts it.\<close>

abbreviation dd_start :: "bool \<Rightarrow> nat \<Rightarrow> DetectData" where
  "dd_start onloop0 loopstart0 \<equiv> \<lparr>visited = (\<lambda>_. False), recStack = (\<lambda>_. False), dd_loop = False, onloop = onloop0,
     loopstart = loopstart0, min_lock_num = 1000, min_txnid = - 1\<rparr>"

lemma search_from_start:
  assumes "0 < n" "ids_small dep" "dep_txnid (dep (get_thdid_from_txnid n txnid)) = txnid"
  obtains dd' where "nextNode (Suc n) n dep txnid (dd_start ol ls) = Some (dd_loop dd', dd')"
    "visited dd' (get_thdid_from_txnid n txnid)"
    "search_post n dep (get_thdid_from_txnid n txnid) (dd_start ol ls) dd'"
proof -
  have "card (unvisited n (dd_start ol ls)) \<le> Suc n"
    by (simp add: unvisited_def)
  then have "search_pre n dep (Suc n) (get_thdid_from_txnid n txnid) (dd_start ol ls)"
    by (simp add: search_pre_def finished_ok_def)
  from nextNode_post [OF assms(1,2) this _ assms(3)] that show ?thesis by auto
qed

section \<open>The detector is exact on 31-bit ids\<close>


definition cycle_deps :: "txnid_t \<Rightarrow> deps" where
  "cycle_deps base = (\<lambda>t. if t = 0 then \<lparr>dep_txnid = base, dep_num_locks = 3, dep_adj = [base + 1]\<rparr>
     else if t = 1 then \<lparr>dep_txnid = base + 1, dep_num_locks = 2, dep_adj = [base]\<rparr>
     else \<lparr>dep_txnid = - 1, dep_num_locks = 0, dep_adj = []\<rparr>)"


text \<open>
  When \<open>detect_cycle\<close> reports a deadlock and every transaction holds fewer than 1000 locks, it sets
  \<open>lock_abort\<close> of a thread whose waiting transaction lies on a cycle of the waits-for graph.
\<close>

theorem detect_cycle_victim_on_cycle:
  assumes "0 < n" and "ids_small dep" and "dep_txnid (dep (get_thdid_from_txnid n txnid)) = txnid"
    and "\<forall>t. dep_num_locks (dep t) < 1000" and "detect_cycle False n dep ol ls txnid = Some (1, v)"
  shows "\<exists>t. v = Some t \<and> (t, t) \<in> (dep_edges n dep)\<^sup>+"
proof -
  from search_from_start [OF assms(1-3), of ol ls] obtain dd' where
    d: "nextNode (Suc n) n dep txnid (dd_start ol ls) = Some (dd_loop dd', dd')"
      "search_post n dep (get_thdid_from_txnid n txnid) (dd_start ol ls) dd'" by blast
  have lp: "dd_loop dd'" using assms(5) d(1)
    by (auto simp: detect_cycle_def Let_def simp del: nextNode.simps split: if_splits)
  then have "min_lock_num dd' < 1000" using d(2) assms(4) by (auto simp: search_post_def)
  then have "victim_ok n dep dd'" using lp d(2) by (simp add: search_post_def)
  then show ?thesis
    using assms(5) d(1) lp by (auto simp: detect_cycle_def Let_def victim_ok_def simp del: nextNode.simps)
qed

theorem detect_cycle_victim_on_cycle_witness:
  "\<exists>t. Some 1 = Some t \<and> (t, t) \<in> (dep_edges 2 (cycle_deps 4))\<^sup>+"
proof (rule detect_cycle_victim_on_cycle [of 2 "cycle_deps 4" 4 False 0])
  show "detect_cycle False 2 (cycle_deps 4) False 0 4 = Some (1, Some 1)" by code_simp
qed (auto simp: ids_small_def cycle_deps_def get_thdid_from_txnid_def)

section \<open>The detector is blind to larger ids\<close>

lemma as_SInt32_large:
  assumes "2147483648 \<le> y" "y < 9223372036854775808"
  shows "as_SInt32 x \<noteq> y"
proof
  assume xy: "as_SInt32 x = y"
  have hi: "bit y i = bit y 31" if "31 \<le> i" "i < 64" for i
    using that unfolding xy [symmetric] as_SInt32_def by (simp add: bit_signed_take_bit_iff min_def)
  have "uint y < 2 ^ 63" using assms(2) by (simp add: word_less_def)
  then have m: "y AND mask 63 = y" by (simp add: mask_eq_iff)
  have "\<not> bit y 63" using arg_cong [OF m, of "\<lambda>w. bit w 63"] by (simp add: bit_simps)
  then have "\<not> bit y i" if "31 \<le> i" for i
    using hi [OF that] hi [of 63] bit_imp_le_length [of y i] by auto
  then have "y = take_bit 31 y" by (intro bit_eqI) (metis bit_take_bit_iff not_less)
  then have "uint y < 2 ^ 31" by (metis take_bit_int_less_exp unsigned_take_bit_eq)
  then show False using assms(1) by (simp add: word_le_def)
qed

definition large_id :: "64 word \<Rightarrow> bool" where
  "large_id y \<longleftrightarrow> 2147483648 \<le> y \<and> y < 9223372036854775808"


lemma search_blind:
  shows "\<forall>t. large_id (dep_txnid (dep t)) \<Longrightarrow> nextNode k n dep x dd = Some (b, dd') \<Longrightarrow> \<not> dd_loop dd \<Longrightarrow>
      \<not> b \<and> \<not> dd_loop dd'"
    and "\<forall>t. large_id (dep_txnid (dep t)) \<Longrightarrow> nextNodes k n dep xs dd = Some dd2 \<Longrightarrow> \<not> dd_loop dd \<Longrightarrow> \<not> dd_loop dd2"
proof (induction k n dep x dd and k n dep xs dd arbitrary: b dd' and dd2 rule: nextNode_nextNodes.induct)
  case (2 k n dep txnid dd)
  let ?t = "get_thdid_from_txnid n txnid"
  let ?d1 = "dd\<lparr>visited := (visited dd)(?t := True), recStack := (recStack dd)(?t := True)\<rparr>"
  have free: "\<not> visited dd ?t" using 2(3) by (auto simp: Let_def assert_then_def split: if_splits)
  show ?case
  proof (cases "dep_txnid (dep ?t) = txnid")
    case True
    then obtain dd2 where d2: "nextNodes k n dep (dep_adj (dep ?t)) ?d1 = Some dd2"
      using 2(3) free by (auto simp: Let_def assert_then_def split: option.splits)
    have "\<not> dd_loop dd2" using 2(1) [of ?t ?d1] True free d2 2(2,4) by simp
    moreover have "(b, dd') = (dd_loop (leave_node n dep txnid dd2), leave_node n dep txnid dd2)"
      using nextNode_Suc [OF free True d2] 2(3) by (simp del: nextNode.simps)
    ultimately show ?thesis by (simp add: leave_node_def Let_def)
  next
    case False
    then show ?thesis using 2(3,4) free by (auto simp: Let_def assert_then_def)
  qed
next
  case (4 k n dep x xs dd)
  let ?t = "get_thdid_from_txnid n x"
  have ne: "as_SInt32 x \<noteq> dep_txnid (dep ?t)"
    using 4(4) as_SInt32_large by (auto simp: large_id_def)
  show ?case
  proof (cases "\<not> visited dd ?t \<and> dep_txnid (dep ?t) = x")
    case True
    then obtain found dd1 where d1: "nextNode k n dep x dd = Some (found, dd1)"
      using 4(5) ne by (auto simp: Let_def split: option.splits)
    have "\<not> found \<and> \<not> dd_loop dd1" using 4(1) [OF refl _ True 4(4) d1 4(6)] ne by simp
    then show ?thesis using 4(2) [OF refl _ True d1 refl _ 4(4)] 4(5) d1 True ne by (simp add: Let_def)
  next
    case False
    then show ?thesis using 4(3) [OF refl _ False 4(4)] 4(5,6) ne by (auto simp: Let_def)
  qed
qed auto

text \<open>
  Ids are compared after a cast to \<open>SInt32\<close>: once the waiting transactions have ids of at least
  \<open>2^31\<close>, \<open>detect_cycle\<close> reports no deadlock, whatever the waits-for graph is.  The witness is a
  cycle of two transactions, which below \<open>2^31\<close> is found.
\<close>

theorem detect_cycle_blind:
  assumes "\<forall>t. large_id (dep_txnid (dep t))"
  shows "detect_cycle g n dep ol ls txnid \<noteq> Some (1, v)"
proof
  assume "detect_cycle g n dep ol ls txnid = Some (1, v)"
  then obtain dd' where "nextNode (Suc n) n dep txnid (dd_start ol ls) = Some (True, dd')"
    by (auto simp: detect_cycle_def Let_def simp del: nextNode.simps split: if_splits option.splits)
  from search_blind(1) [OF assms this] show False by simp
qed

definition large_cycle :: deps where
  "large_cycle = (\<lambda>t. \<lparr>dep_txnid = if t = 0 then 4294967296 else 4294967297, dep_num_locks = 2,
     dep_adj = [if t = 0 then 4294967297 else 4294967296]\<rparr>)"

theorem detect_cycle_blind_witness:
  "(0, 1) \<in> dep_edges 2 large_cycle \<and> (1, 0) \<in> dep_edges 2 large_cycle \<and>
   detect_cycle False 2 large_cycle False 0 4294967296 \<noteq> Some (1, Some 1)"
proof (intro conjI)
  show "(0, 1) \<in> dep_edges 2 large_cycle" "(1, 0) \<in> dep_edges 2 large_cycle"
    by (auto simp: dep_edges_def large_cycle_def get_thdid_from_txnid_def)
  show "detect_cycle False 2 large_cycle False 0 4294967296 \<noteq> Some (1, Some 1)"
    by (rule detect_cycle_blind) (simp add: large_cycle_def large_id_def)
qed
end
