(* ===== verification/Linked_List.thy ===== *)
theory Linked_List
  imports DBx_Prelude
begin

text \<open>
  The intrusive list macros of system/helper.h (lines 54 to 87), at the level of the pointers they
  assign.  A heap gives every node its \<open>next\<close> and \<open>prev\<close> fields; the macros take the head and
  tail variables of the list and return their new values with the new heap.  Reading a field
  through a null pointer and a failed assertion of \<open>LIST_REMOVE_HT\<close> are \<open>None\<close>.

  The abstraction predicate \<open>dll\<close> relates a heap with a head and a tail to the list of nodes
  it represents; the component theories work on those lists, and the refinement lemmas here are
  what justifies that.
\<close>

record dnode =
  nxt :: "nat option"
  prv :: "nat option"

type_synonym dheap = "nat \<Rightarrow> dnode"
type_synonym dlist = "dheap \<times> nat option \<times> nat option"

abbreviation set_nxt :: "dheap \<Rightarrow> nat \<Rightarrow> nat option \<Rightarrow> dheap" where
  "set_nxt h e v \<equiv> h(e := (h e)\<lparr>nxt := v\<rparr>)"

abbreviation set_prv :: "dheap \<Rightarrow> nat \<Rightarrow> nat option \<Rightarrow> dheap" where
  "set_prv h e v \<equiv> h(e := (h e)\<lparr>prv := v\<rparr>)"

section \<open>The macros\<close>

definition STACK_PUSH :: "dheap \<Rightarrow> nat option \<Rightarrow> nat \<Rightarrow> dheap \<times> nat option" where
  "STACK_PUSH h stack entry = (set_nxt h entry stack, Some entry)"

definition STACK_POP :: "dheap \<Rightarrow> nat option \<Rightarrow> nat option \<times> nat option" where
  "STACK_POP h stack =
     (case stack of None \<Rightarrow> (None, None) | Some t \<Rightarrow> (Some t, nxt (h t)))"

definition LIST_GET_HEAD :: "dlist \<Rightarrow> (nat \<times> dlist) option" where
  "LIST_GET_HEAD l = (case l of (h, lhead, ltail) \<Rightarrow>
     (case lhead of
        None \<Rightarrow> None
      | Some en \<Rightarrow>
          let lhead' = nxt (h en);
              h1 = (case lhead' of Some x \<Rightarrow> set_prv h x None | None \<Rightarrow> h);
              ltail' = (case lhead' of Some _ \<Rightarrow> ltail | None \<Rightarrow> None)
          in Some (en, set_nxt h1 en None, lhead', ltail')))"

definition LIST_PUT_TAIL :: "dlist \<Rightarrow> nat \<Rightarrow> dlist" where
  "LIST_PUT_TAIL l en = (case l of (h, lhead, ltail) \<Rightarrow>
     let h1 = set_prv (set_nxt h en None) en None in
     (case ltail of
        Some t \<Rightarrow> (set_nxt (set_prv h1 en (Some t)) t (Some en), lhead, Some en)
      | None \<Rightarrow> (h1, Some en, Some en)))"

definition LIST_INSERT_BEFORE :: "dheap \<Rightarrow> nat \<Rightarrow> nat \<Rightarrow> dheap" where
  "LIST_INSERT_BEFORE h entry newentry =
     (let h1 = set_prv (set_nxt h newentry (Some entry)) newentry (prv (h entry));
          h2 = (case prv (h1 entry) of Some p \<Rightarrow> set_nxt h1 p (Some newentry) | None \<Rightarrow> h1)
      in set_prv h2 entry (Some newentry))"

definition LIST_REMOVE :: "dheap \<Rightarrow> nat \<Rightarrow> dheap" where
  "LIST_REMOVE h entry =
     (let h1 = (case nxt (h entry) of Some n \<Rightarrow> set_prv h n (prv (h entry)) | None \<Rightarrow> h)
      in (case prv (h1 entry) of Some p \<Rightarrow> set_nxt h1 p (nxt (h1 entry)) | None \<Rightarrow> h1))"

definition LIST_REMOVE_HT :: "dlist \<Rightarrow> nat \<Rightarrow> dlist option" where
  "LIST_REMOVE_HT l entry = (case l of (h, lhead, ltail) \<Rightarrow>
     let (h1, ok1, ltail') =
           (case nxt (h entry) of
              Some n \<Rightarrow> (set_prv h n (prv (h entry)), True, ltail)
            | None \<Rightarrow> (h, ltail = Some entry, prv (h entry)))
     in assert_then ok1
       (let (h2, ok2, lhead') =
           (case prv (h1 entry) of
              Some p \<Rightarrow> (set_nxt h1 p (nxt (h1 entry)), True, lhead)
            | None \<Rightarrow> (h1, lhead = Some entry, nxt (h1 entry)))
        in assert_then ok2 (Some (h2, lhead', ltail'))))"

text \<open>
  The two uses of the macros in Row_lock that touch the head and tail variables by hand: the
  insertion of a WAIT\_DIE waiter (row\_lock.cpp 121 to 127) and the removal of a waiter
  (row\_lock.cpp 216 to 220).
\<close>

definition waiter_insert_before :: "dlist \<Rightarrow> nat \<Rightarrow> nat \<Rightarrow> dlist" where
  "waiter_insert_before l en entry = (case l of (h, lhead, ltail) \<Rightarrow>
     (LIST_INSERT_BEFORE h en entry, if Some en = lhead then Some entry else lhead, ltail))"

definition waiter_remove :: "dlist \<Rightarrow> nat \<Rightarrow> dlist" where
  "waiter_remove l en = (case l of (h, lhead, ltail) \<Rightarrow>
     let h' = LIST_REMOVE h en in
     (h', if Some en = lhead then nxt (h' en) else lhead,
      if Some en = ltail then prv (h' en) else ltail))"

section \<open>The represented list\<close>

definition first_or :: "nat list \<Rightarrow> nat option \<Rightarrow> nat option" where
  "first_or xs n = (case xs of [] \<Rightarrow> n | x # _ \<Rightarrow> Some x)"

definition last_or :: "nat option \<Rightarrow> nat list \<Rightarrow> nat option" where
  "last_or p xs = (if xs = [] then p else Some (last xs))"

fun dlseg :: "dheap \<Rightarrow> nat option \<Rightarrow> nat list \<Rightarrow> nat option \<Rightarrow> bool" where
  "dlseg h p [] n = True"
| "dlseg h p (x # xs) n =
     (prv (h x) = p \<and> nxt (h x) = first_or xs n \<and> dlseg h (Some x) xs n)"

definition dll :: "dlist \<Rightarrow> nat list \<Rightarrow> bool" where
  "dll l xs = (case l of (h, lhead, ltail) \<Rightarrow>
     distinct xs \<and> lhead = first_or xs None \<and> ltail = last_or None xs \<and> dlseg h None xs None)"

lemma first_or_simps [simp]:
  "first_or [] n = n" "first_or (x # xs) n = Some x"
  "first_or (xs @ ys) n = first_or xs (first_or ys n)"
  by (cases xs; simp add: first_or_def)+

lemma last_or_simps [simp]:
  "last_or p [] = p" "last_or p (x # xs) = last_or (Some x) xs"
  "last_or p (xs @ ys) = last_or (last_or p xs) ys"
  by (auto simp: last_or_def)

lemma last_or_Some: "last_or p xs = Some t \<Longrightarrow> p = Some t \<or> t \<in> set xs"
  by (auto simp: last_or_def split: if_splits)

lemma last_or_split:
  "last_or None xs = Some t \<Longrightarrow> \<exists>ys. xs = ys @ [t]"
  by (cases xs rule: rev_cases) (auto simp: last_or_def)

lemma dlseg_append [simp]:
  "dlseg h p (xs @ ys) n = (dlseg h p xs (first_or ys n) \<and> dlseg h (last_or p xs) ys n)"
  by (induction xs arbitrary: p) auto

lemma dlseg_frame:
  "(\<And>x. x \<in> set xs \<Longrightarrow> h' x = h x) \<Longrightarrow> dlseg h' p xs n = dlseg h p xs n"
  by (induction xs arbitrary: p) auto

lemma dlseg_frame_upd [simp]: "e \<notin> set xs \<Longrightarrow> dlseg (h(e := v)) p xs n = dlseg h p xs n"
  by (rule dlseg_frame) auto

lemmas dl_defs = dll_def LIST_GET_HEAD_def LIST_PUT_TAIL_def LIST_INSERT_BEFORE_def
  LIST_REMOVE_def LIST_REMOVE_HT_def waiter_insert_before_def waiter_remove_def

section \<open>Each macro refines its list operation\<close>

lemma dll_put_tail:
  assumes "dll l xs" and "en \<notin> set xs"
  shows "dll (LIST_PUT_TAIL l en) (xs @ [en])"
proof -
  obtain h lhead ltail where l: "l = (h, lhead, ltail)" by (cases l)
  show ?thesis
  proof (cases xs rule: rev_cases)
    case Nil
    with assms l show ?thesis by (simp add: dl_defs)
  next
    case (snoc ys t)
    with assms l show ?thesis by (auto simp: dl_defs Let_def)
  qed
qed

lemma dll_get_head:
  assumes "dll l (x # xs)"
  shows "\<exists>l'. LIST_GET_HEAD l = Some (x, l') \<and> dll l' xs"
proof -
  obtain h lhead ltail where l: "l = (h, lhead, ltail)" by (cases l)
  show ?thesis
    using assms l by (cases xs) (auto simp: dl_defs Let_def)
qed

lemma dll_get_head_empty: "dll l [] \<Longrightarrow> LIST_GET_HEAD l = None"
  by (auto simp: dl_defs split: prod.splits)

lemma dll_insert_before:
  assumes "dll l (xs @ e # ys)" and "new \<notin> set (xs @ e # ys)"
  shows "dll (waiter_insert_before l e new) (xs @ new # e # ys)"
proof -
  obtain h lhead ltail where l: "l = (h, lhead, ltail)" by (cases l)
  show ?thesis
  proof (cases xs rule: rev_cases)
    case Nil
    with assms l show ?thesis by (auto simp: dl_defs Let_def)
  next
    case (snoc zs p)
    then have "first_or xs (Some e) \<noteq> Some e" using assms l by (cases zs) (auto simp: dl_defs)
    with snoc assms l show ?thesis by (cases zs) (auto simp: dl_defs Let_def)
  qed
qed

lemma dll_remove:
  assumes "dll l (xs @ e # ys)"
  shows "dll (waiter_remove l e) (xs @ ys)"
proof -
  obtain h lhead ltail where l: "l = (h, lhead, ltail)" by (cases l)
  show ?thesis
  proof (cases xs rule: rev_cases)
    case Nil
    with assms l show ?thesis by (cases ys) (auto simp: dl_defs Let_def last_or_def)
  next
    case (snoc zs p)
    with assms l show ?thesis
      by (cases ys; cases zs) (auto simp: dl_defs Let_def last_or_def)
  qed
qed

lemma dll_remove_HT:
  assumes "dll l (xs @ e # ys)"
  shows "\<exists>l'. LIST_REMOVE_HT l e = Some l' \<and> dll l' (xs @ ys)"
proof -
  obtain h lhead ltail where l: "l = (h, lhead, ltail)" by (cases l)
  show ?thesis
  proof (cases xs rule: rev_cases)
    case Nil
    with assms l show ?thesis by (cases ys) (auto simp: dl_defs Let_def last_or_def)
  next
    case (snoc zs p)
    with assms l show ?thesis
      by (cases ys; cases zs) (auto simp: dl_defs Let_def last_or_def)
  qed
qed

section \<open>The queue contract and first-in first-out order\<close>

text \<open>
  What the lock manager and the VLL transaction queue rely on: entries put at the tail come out at
  the head in the order they went in.  The contract is stated over the represented list, the
  client lemma is proved from it, and the macros are shown to meet it.
\<close>

primrec drain :: "('s \<Rightarrow> ('e \<times> 's) option) \<Rightarrow> nat \<Rightarrow> 's \<Rightarrow> 'e list" where
  "drain get 0 s = []"
| "drain get (Suc n) s = (case get s of None \<Rightarrow> [] | Some (e, s') \<Rightarrow> e # drain get n s')"

locale dl_queue =
  fixes put :: "'s \<Rightarrow> 'e \<Rightarrow> 's"
    and get :: "'s \<Rightarrow> ('e \<times> 's) option"
    and rel :: "'s \<Rightarrow> 'e list \<Rightarrow> bool"
  assumes put_law: "rel s xs \<Longrightarrow> e \<notin> set xs \<Longrightarrow> rel (put s e) (xs @ [e])"
    and get_law: "rel s (x # xs) \<Longrightarrow> \<exists>s'. get s = Some (x, s') \<and> rel s' xs"
    and get_empty: "rel s [] \<Longrightarrow> get s = None"
begin

lemma put_all: "rel s xs \<Longrightarrow> distinct (xs @ es) \<Longrightarrow> rel (foldl put s es) (xs @ es)"
proof (induction es arbitrary: s xs)
  case Nil
  then show ?case by simp
next
  case (Cons e es)
  then have "rel (put s e) (xs @ [e])" by (intro put_law) auto
  with Cons show ?case using Cons.IH [of "put s e" "xs @ [e]"] by simp
qed

lemma drain_rel: "rel s xs \<Longrightarrow> drain get (length xs + k) s = xs"
proof (induction xs arbitrary: s)
  case Nil
  then show ?case using get_empty by (cases k) auto
next
  case (Cons x xs)
  then obtain s' where "get s = Some (x, s')" "rel s' xs" using get_law by blast
  with Cons.IH show ?case by simp
qed

lemma fifo: "rel s [] \<Longrightarrow> distinct es \<Longrightarrow> drain get (length es + k) (foldl put s es) = es"
  using put_all [of s "[]" es] drain_rel by simp

end

interpretation waiters_queue: dl_queue LIST_PUT_TAIL LIST_GET_HEAD dll
  by unfold_locales (rule dll_put_tail dll_get_head dll_get_head_empty; assumption)+

section \<open>The properties\<close>

text \<open>
  C26. The pointer macros of helper.h, and the two places of Row\_lock that patch head and tail by
  hand, implement the list operations the lock manager is written in: on a well-formed doubly linked
  list that represents \<open>xs\<close> they yield a well-formed list that represents the updated \<open>xs\<close>, and the
  assertions of \<open>LIST_REMOVE_HT\<close> hold.
\<close>

theorem list_macros_refine:
  assumes "dll l xs" and "e \<notin> set xs"
  shows "dll (LIST_PUT_TAIL l e) (xs @ [e]) \<and>
    (\<forall>x ys. xs = x # ys \<longrightarrow> (\<exists>l'. LIST_GET_HEAD l = Some (x, l') \<and> dll l' ys)) \<and>
    (\<forall>as x bs. xs = as @ x # bs \<longrightarrow>
       dll (waiter_insert_before l x e) (as @ e # x # bs) \<and> dll (waiter_remove l x) (as @ bs) \<and>
       (\<exists>l'. LIST_REMOVE_HT l x = Some l' \<and> dll l' (as @ bs)))"
proof (intro conjI allI impI)
  show "dll (LIST_PUT_TAIL l e) (xs @ [e])" using assms by (rule dll_put_tail)
  show "\<exists>l'. LIST_GET_HEAD l = Some (x, l') \<and> dll l' ys" if "xs = x # ys" for x ys
    using assms(1) that dll_get_head by blast
  show "dll (waiter_insert_before l x e) (as @ e # x # bs)" if "xs = as @ x # bs" for as x bs
    using assms that dll_insert_before by blast
  show "dll (waiter_remove l x) (as @ bs)" if "xs = as @ x # bs" for as x bs
    using assms(1) that dll_remove by blast
  show "\<exists>l'. LIST_REMOVE_HT l x = Some l' \<and> dll l' (as @ bs)" if "xs = as @ x # bs" for as x bs
    using assms(1) that dll_remove_HT by blast
qed

text \<open>
  First in, first out: distinct entries put at the tail of an empty list with \<open>LIST_PUT_TAIL\<close> come
  out of \<open>LIST_GET_HEAD\<close> in the same order, and then the list is empty.
\<close>

theorem list_macros_fifo:
  assumes "dll l []" and "distinct es"
  shows "drain LIST_GET_HEAD (length es + k) (foldl LIST_PUT_TAIL l es) = es"
  using assms by (rule waiters_queue.fifo)

definition empty_dlist :: dlist where
  "empty_dlist = (\<lambda>_. \<lparr>nxt = None, prv = None\<rparr>, None, None)"

lemma dll_empty_dlist: "dll empty_dlist []"
  by (simp add: dll_def empty_dlist_def)

theorem list_macros_refine_witness:
  "dll (LIST_PUT_TAIL (LIST_PUT_TAIL empty_dlist 7) 8) [7, 8]"
  using list_macros_refine [OF dll_put_tail [OF dll_empty_dlist, of 7], of 8] by simp

theorem list_macros_fifo_witness:
  "drain LIST_GET_HEAD (length [3, 1, 2] + 4) (foldl LIST_PUT_TAIL empty_dlist [3, 1, 2]) = [3, 1, 2]"
  using list_macros_fifo [OF dll_empty_dlist, of "[3, 1, 2]" 4] by simp

end
