(* ===== verification/Plock.thy ===== *)
theory Plock
  imports DBx_Prelude
begin

text \<open>
  The partition locks of H-Store: concurrency\_control/plock.h and plock.cpp.  A partition has one
  owner and an array of waiters in timestamp order; a transaction may wait at several partitions
  at once, and \<open>ready_part\<close> counts at how many.  The operations of \<open>PartMan\<close> run under the
  partition's latch, so one call is one step.  The array of waiters with its counter is a list.
\<close>

record PartMan =
  pm_owner :: "txn_ptr option"
  pm_waiters :: "txn_ptr list"

definition part_init :: PartMan where
  "part_init = \<lparr>pm_owner = None, pm_waiters = []\<rparr>"

text \<open>
  The loop that opens a slot, from the last waiter to the first: larger or equal timestamps move up
  one slot.  The argument is the array from its last used slot back to slot 0.
\<close>

fun insert_from_end :: "(txn_ptr \<Rightarrow> ts_t) \<Rightarrow> txn_ptr \<Rightarrow> txn_ptr list \<Rightarrow> txn_ptr list" where
  "insert_from_end ts txn [] = [txn]"
| "insert_from_end ts txn (w # ws) =
     (if ts w < ts txn then txn # w # ws else w # insert_from_end ts txn ws)"

definition part_lock :: "nat \<Rightarrow> (txn_ptr \<Rightarrow> ts_t) \<Rightarrow> txn_ptr \<Rightarrow> PartMan \<times> (txn_ptr \<Rightarrow> int)
    \<Rightarrow> (RC \<times> PartMan \<times> (txn_ptr \<Rightarrow> int)) option" where
  "part_lock g_thread_cnt ts txn = (\<lambda>(pm, ready).
     case pm_owner pm of
       None \<Rightarrow> Some (RCOK, pm\<lparr>pm_owner := Some txn\<rparr>, ready)
     | Some own \<Rightarrow>
         if ts own < ts txn
         then assert_then (length (pm_waiters pm) < g_thread_cnt)
           (Some (WAIT, pm\<lparr>pm_waiters := rev (insert_from_end ts txn (rev (pm_waiters pm)))\<rparr>,
                  ready(txn := ready txn + 1)))
         else Some (Abort, pm, ready))"

text \<open>The assertion in the loop that moves the waiters down by one slot.\<close>

fun ts_increasing :: "(txn_ptr \<Rightarrow> ts_t) \<Rightarrow> txn_ptr list \<Rightarrow> bool" where
  "ts_increasing ts (x # y # zs) = (ts x < ts y \<and> ts_increasing ts (y # zs))"
| "ts_increasing ts zs = True"

definition part_unlock :: "(txn_ptr \<Rightarrow> ts_t) \<Rightarrow> txn_ptr \<Rightarrow> PartMan \<times> (txn_ptr \<Rightarrow> int)
    \<Rightarrow> (PartMan \<times> (txn_ptr \<Rightarrow> int)) option" where
  "part_unlock ts txn = (\<lambda>(pm, ready).
     if pm_owner pm = Some txn
     then (case pm_waiters pm of
             [] \<Rightarrow> Some (pm\<lparr>pm_owner := None\<rparr>, ready)
           | w # ws \<Rightarrow>
               assert_then (ts_increasing ts (w # ws))
                 (let ready' = ready(w := ready w - 1)
                  in assert_then (0 \<le> ready' w)
                       (Some (pm\<lparr>pm_owner := Some w, pm_waiters := ws\<rparr>, ready'))))
     else (case remove_first (\<lambda>w. w = txn) (pm_waiters pm) of
             None \<Rightarrow> None
           | Some (_, ws) \<Rightarrow>
               (let ready' = ready(txn := ready txn - 1)
                in case pm_owner pm of
                     None \<Rightarrow> None
                   | Some own \<Rightarrow> assert_then (0 \<le> ready' own) (Some (pm\<lparr>pm_waiters := ws\<rparr>, ready')))))"

record plock_sys =
  pl_parts :: "part_id \<Rightarrow> PartMan"
  pl_ready :: "txn_ptr \<Rightarrow> int"

definition set_part :: "part_id \<Rightarrow> PartMan \<times> (txn_ptr \<Rightarrow> int) \<Rightarrow> plock_sys \<Rightarrow> plock_sys" where
  "set_part p = (\<lambda>(pm, ready) s. s\<lparr>pl_parts := (pl_parts s)(p := pm), pl_ready := ready\<rparr>)"

text \<open>The loop of \<open>Plock::lock\<close> (123 to 128): the partitions taken so far and the return code.\<close>

fun plock_loop :: "nat \<Rightarrow> (txn_ptr \<Rightarrow> ts_t) \<Rightarrow> txn_ptr \<Rightarrow> part_id list \<Rightarrow> part_id list \<Rightarrow> plock_sys
    \<Rightarrow> (RC \<times> part_id list \<times> plock_sys) option" where
  "plock_loop n ts txn [] taken s = Some (RCOK, taken, s)"
| "plock_loop n ts txn (p # ps) taken s =
     (case part_lock n ts txn (pl_parts s p, pl_ready s) of
        None \<Rightarrow> None
      | Some (rc, st) \<Rightarrow>
          if rc = Abort then Some (Abort, taken, set_part p st s)
          else plock_loop n ts txn ps (taken @ [p]) (set_part p st s))"

fun plock_unlock :: "(txn_ptr \<Rightarrow> ts_t) \<Rightarrow> txn_ptr \<Rightarrow> part_id list \<Rightarrow> plock_sys \<Rightarrow> plock_sys option" where
  "plock_unlock ts txn [] s = Some s"
| "plock_unlock ts txn (p # ps) s =
     (case part_unlock ts txn (pl_parts s p, pl_ready s) of
        None \<Rightarrow> None
      | Some st \<Rightarrow> plock_unlock ts txn ps (set_part p st s))"

text \<open>
  \<open>Plock::lock\<close> up to the wait: after an abort the partitions taken so far are given back and
  \<open>ready_part\<close> is zero; otherwise the caller spins until \<open>ready_part\<close> is zero.
\<close>

definition plock_lock :: "nat \<Rightarrow> (txn_ptr \<Rightarrow> ts_t) \<Rightarrow> txn_ptr \<Rightarrow> part_id list \<Rightarrow> plock_sys
    \<Rightarrow> (RC \<times> plock_sys) option" where
  "plock_lock n ts txn parts s =
     (case plock_loop n ts txn parts [] s of
        None \<Rightarrow> None
      | Some (rc, taken, s1) \<Rightarrow>
          if rc = Abort
          then (case plock_unlock ts txn taken s1 of
                  None \<Rightarrow> None
                | Some s2 \<Rightarrow> assert_then (pl_ready s2 txn = 0) (Some (Abort, s2)))
          else Some (RCOK, s1))"

section \<open>All partitions and threads\<close>

text \<open>
  Threads call \<open>PartMan::lock\<close> at a partition they are not yet registered at, and
  \<open>PartMan::unlock\<close> at one where they are owner or waiter, in any order.  Timestamps do not
  change while a transaction is registered anywhere.
\<close>

definition part_txns :: "PartMan \<Rightarrow> txn_ptr set" where
  "part_txns pm = set_option (pm_owner pm) \<union> set (pm_waiters pm)"

inductive plock_reach :: "nat \<Rightarrow> (txn_ptr \<Rightarrow> ts_t) \<Rightarrow> plock_sys \<Rightarrow> bool" for n ts where
  init: "inj_on ts {..<n} \<Longrightarrow> plock_reach n ts \<lparr>pl_parts = (\<lambda>_. part_init), pl_ready = (\<lambda>_. 0)\<rparr>"
| lock: "plock_reach n ts s \<Longrightarrow> t < n \<Longrightarrow> t \<notin> part_txns (pl_parts s p) \<Longrightarrow>
    part_lock n ts t (pl_parts s p, pl_ready s) = Some (rc, st) \<Longrightarrow> plock_reach n ts (set_part p st s)"
| unlock: "plock_reach n ts s \<Longrightarrow> t \<in> part_txns (pl_parts s p) \<Longrightarrow>
    part_unlock ts t (pl_parts s p, pl_ready s) = Some st \<Longrightarrow> plock_reach n ts (set_part p st s)"

definition part_inv :: "nat \<Rightarrow> (txn_ptr \<Rightarrow> ts_t) \<Rightarrow> PartMan \<Rightarrow> bool" where
  "part_inv n ts pm \<longleftrightarrow> sorted_wrt (\<lambda>a b. ts a < ts b) (pm_waiters pm) \<and> part_txns pm \<subseteq> {..<n} \<and>
     (case pm_owner pm of
        None \<Rightarrow> pm_waiters pm = []
      | Some own \<Rightarrow> \<forall>w\<in>set (pm_waiters pm). ts own < ts w)"

definition plock_inv :: "nat \<Rightarrow> (txn_ptr \<Rightarrow> ts_t) \<Rightarrow> plock_sys \<Rightarrow> bool" where
  "plock_inv n ts s \<longleftrightarrow> inj_on ts {..<n} \<and> (\<forall>p. part_inv n ts (pl_parts s p)) \<and>
     (\<forall>t. finite {p. t \<in> set (pm_waiters (pl_parts s p))} \<and>
          pl_ready s t = int (card {p. t \<in> set (pm_waiters (pl_parts s p))}))"

lemma set_insert_from_end [simp]: "set (insert_from_end ts x ws) = insert x (set ws)"
  by (induction ws) auto

lemma insert_from_end_sorted:
  "sorted_wrt (\<lambda>a b. ts b < ts a) ws \<Longrightarrow> \<forall>w\<in>set ws. ts w \<noteq> ts x \<Longrightarrow>
   sorted_wrt (\<lambda>a b. ts b < ts a) (insert_from_end ts x ws)"
  by (induction ws) (auto intro: less_trans simp: not_less order.strict_iff_order)

lemma ts_increasing_sorted: "sorted_wrt (\<lambda>a b. ts a < ts b) ws \<Longrightarrow> ts_increasing ts ws"
  by (induction ts ws rule: ts_increasing.induct) auto

lemma sorted_ts_distinct: "sorted_wrt (\<lambda>a b. ts a < (ts b :: ts_t)) ws \<Longrightarrow> distinct ws"
  by (induction ws) auto

lemma part_lock_ok:
  assumes inv: "part_inv n ts pm" and inj: "inj_on ts {..<n}" and t: "t < n" and new: "t \<notin> part_txns pm"
  shows "\<exists>rc pm' ready'. part_lock n ts t (pm, ready) = Some (rc, pm', ready') \<and> part_inv n ts pm' \<and>
    (rc = Abort \<and> pm' = pm \<and> ready' = ready \<or>
     rc = RCOK \<and> pm_owner pm' = Some t \<and> pm_waiters pm' = pm_waiters pm \<and> pm_owner pm = None \<and> ready' = ready \<or>
     rc = WAIT \<and> pm_owner pm' = pm_owner pm \<and> set (pm_waiters pm') = insert t (set (pm_waiters pm)) \<and>
       pm_owner pm \<noteq> None \<and> ready' = ready(t := ready t + 1))"
proof (cases "pm_owner pm")
  case None
  then show ?thesis using inv t new by (auto simp: part_lock_def part_inv_def part_txns_def)
next
  case (Some own)
  show ?thesis
  proof (cases "ts own < ts t")
    case False
    then show ?thesis using Some inv by (simp add: part_lock_def)
  next
    case True
    let ?ws = "rev (insert_from_end ts t (rev (pm_waiters pm)))"
    have sub: "set (pm_waiters pm) \<subseteq> {..<n} - {t}" using inv new by (auto simp: part_inv_def part_txns_def)
    have "distinct (pm_waiters pm)" using inv sorted_ts_distinct by (auto simp: part_inv_def)
    then have "length (pm_waiters pm) = card (set (pm_waiters pm))" by (simp add: distinct_card)
    also have "\<dots> \<le> card ({..<n} - {t})" using sub by (intro card_mono) auto
    also have "\<dots> < n" using t by simp
    finally have len: "length (pm_waiters pm) < n" .
    have ne: "\<forall>w\<in>set (pm_waiters pm). ts w \<noteq> ts t" using sub t inj by (auto dest: inj_onD)
    have "sorted_wrt (\<lambda>a b. ts b < ts a) (rev (pm_waiters pm))"
      using inv by (simp add: part_inv_def sorted_wrt_rev)
    then have "sorted_wrt (\<lambda>a b. ts b < ts a) (insert_from_end ts t (rev (pm_waiters pm)))"
      using ne by (intro insert_from_end_sorted) auto
    then have "sorted_wrt (\<lambda>a b. ts a < ts b) ?ws" by (simp add: sorted_wrt_rev)
    then have "part_inv n ts (pm\<lparr>pm_waiters := ?ws\<rparr>)"
      using inv Some True t by (auto simp: part_inv_def part_txns_def)
    then show ?thesis using Some True len by (simp add: part_lock_def)
  qed
qed

lemma part_unlock_ok:
  assumes inv: "part_inv n ts pm" and mem: "t \<in> part_txns pm"
    and rdy: "\<forall>w. 0 \<le> ready w" "\<forall>w\<in>set (pm_waiters pm). 1 \<le> ready w"
  shows "\<exists>pm' ready'. part_unlock ts t (pm, ready) = Some (pm', ready') \<and> part_inv n ts pm' \<and>
    part_txns pm' = part_txns pm - {t} \<and>
    (pm_waiters pm = [] \<and> pm_waiters pm' = [] \<and> ready' = ready \<or>
     (\<exists>x\<in>set (pm_waiters pm). set (pm_waiters pm') = set (pm_waiters pm) - {x} \<and> ready' = ready(x := ready x - 1)))"
proof (cases "pm_owner pm = Some t")
  case True
  show ?thesis
  proof (cases "pm_waiters pm")
    case Nil
    then show ?thesis using True inv by (simp add: part_unlock_def part_inv_def part_txns_def)
  next
    case (Cons w ws)
    have sorted: "sorted_wrt (\<lambda>a b. ts a < ts b) (w # ws)" using inv Cons by (simp add: part_inv_def)
    then have "distinct (w # ws)" by (rule sorted_ts_distinct)
    moreover have "t \<notin> set (w # ws)" using inv True Cons by (auto simp: part_inv_def)
    moreover have "part_inv n ts (pm\<lparr>pm_owner := Some w, pm_waiters := ws\<rparr>)"
      using inv sorted Cons by (auto simp: part_inv_def part_txns_def)
    ultimately show ?thesis using True Cons rdy ts_increasing_sorted [OF sorted]
      by (auto simp: part_unlock_def part_txns_def Let_def)
  qed
next
  case False
  then have w: "t \<in> set (pm_waiters pm)" using mem by (auto simp: part_txns_def)
  then obtain own where own: "pm_owner pm = Some own" using inv by (cases "pm_owner pm") (auto simp: part_inv_def)
  have "remove_first (\<lambda>w. w = t) (pm_waiters pm) \<noteq> None" using w by (auto simp: remove_first_None_iff)
  then obtain x ws where rf: "remove_first (\<lambda>w. w = t) (pm_waiters pm) = Some (x, ws)" by fastforce
  have x: "x = t" using remove_first_SomeD [OF rf] by simp
  have sorted: "sorted_wrt (\<lambda>a b. ts a < ts b) ws" using remove_first_sorted_wrt [OF rf] inv by (auto simp: part_inv_def)
  have "distinct (pm_waiters pm)" using inv sorted_ts_distinct by (auto simp: part_inv_def)
  then have set: "set ws = set (pm_waiters pm) - {t}"
    using remove_first_set [OF rf] remove_first_distinct_map [OF rf, of "\<lambda>x. x"] x by auto
  have ne: "own \<noteq> t" using False own by simp
  have "part_inv n ts (pm\<lparr>pm_waiters := ws\<rparr>)"
    using inv sorted set own by (auto simp: part_inv_def part_txns_def)
  moreover have "part_unlock ts t (pm, ready) = Some (pm\<lparr>pm_waiters := ws\<rparr>, ready(t := ready t - 1))"
    using False own rf ne rdy(1) by (simp add: part_unlock_def Let_def)
  moreover have "part_txns (pm\<lparr>pm_waiters := ws\<rparr>) = part_txns pm - {t}"
    using set own ne by (auto simp: part_txns_def)
  moreover have "\<exists>x\<in>set (pm_waiters pm). set (pm_waiters (pm\<lparr>pm_waiters := ws\<rparr>)) = set (pm_waiters pm) - {x} \<and>
      ready(t := ready t - 1) = ready(x := ready x - 1)"
    using set by (intro bexI [of _ t, OF _ w]) simp
  ultimately show ?thesis by blast
qed

text \<open>How the set of partitions at which a transaction waits changes.\<close>

lemma waits_set_part:
  "{p. t \<in> set (pm_waiters (pl_parts (set_part q (pm, r) s) p))} =
     (if t \<in> set (pm_waiters pm) then insert q {p. t \<in> set (pm_waiters (pl_parts s p))}
      else {p. t \<in> set (pm_waiters (pl_parts s p))} - {q})"
  by (auto simp: set_part_def)

lemma plock_inv_step:
  assumes inv: "plock_inv n ts s" and pm: "part_inv n ts pm"
    and ch: "set (pm_waiters pm) = set (pm_waiters (pl_parts s p)) \<and> ready = pl_ready s \<or>
      (\<exists>x. x \<notin> set (pm_waiters (pl_parts s p)) \<and> set (pm_waiters pm) = insert x (set (pm_waiters (pl_parts s p))) \<and>
         ready = (pl_ready s)(x := pl_ready s x + 1)) \<or>
      (\<exists>x\<in>set (pm_waiters (pl_parts s p)). set (pm_waiters pm) = set (pm_waiters (pl_parts s p)) - {x} \<and>
         ready = (pl_ready s)(x := pl_ready s x - 1))"
  shows "plock_inv n ts (set_part p (pm, ready) s)"
proof -
  let ?W = "\<lambda>t. {p. t \<in> set (pm_waiters (pl_parts s p))}"
  have fin: "finite (?W t)" and cnt: "pl_ready s t = int (card (?W t))" for t
    using inv by (simp_all add: plock_inv_def)
  define A B where "A = set (pm_waiters (pl_parts s p))" and "B = set (pm_waiters pm)"
  have ch': "B = A \<and> ready = pl_ready s \<or>
      (\<exists>x. x \<notin> A \<and> B = insert x A \<and> ready = (pl_ready s)(x := pl_ready s x + 1)) \<or>
      (\<exists>x\<in>A. B = A - {x} \<and> ready = (pl_ready s)(x := pl_ready s x - 1))"
    using ch unfolding A_def B_def .
  have same: "ready t = pl_ready s t" if "(t \<in> B) = (t \<in> A)" for t
    using ch' that by (elim disjE exE bexE conjE) auto
  have add: "ready t = pl_ready s t + 1" if "t \<in> B" "t \<notin> A" for t
    using ch' that by (elim disjE exE bexE conjE) auto
  have del: "ready t = pl_ready s t - 1" if "t \<notin> B" "t \<in> A" for t
    using ch' that by (elim disjE exE bexE conjE) auto
  note r_same = same [unfolded A_def B_def] and r_add = add [unfolded A_def B_def]
    and r_del = del [unfolded A_def B_def]
  have "ready t = int (card (if t \<in> set (pm_waiters pm) then insert p (?W t) else ?W t - {p}))" for t
  proof (cases "(t \<in> set (pm_waiters pm)) = (t \<in> set (pm_waiters (pl_parts s p)))")
    case True
    then have "(if t \<in> set (pm_waiters pm) then insert p (?W t) else ?W t - {p}) = ?W t" by auto
    moreover have "ready t = pl_ready s t" using r_same True by blast
    ultimately show ?thesis using cnt by simp
  next
    case False
    show ?thesis
    proof (cases "t \<in> set (pm_waiters pm)")
      case True
      then have "ready t = pl_ready s t + 1" "p \<notin> ?W t" using r_add False by auto
      then show ?thesis using True cnt fin by simp
    next
      case no: False
      then have "ready t = pl_ready s t - 1" "p \<in> ?W t" using r_del False by auto
      moreover have "0 < card (?W t)" using \<open>p \<in> ?W t\<close> fin by (auto simp: card_gt_0_iff)
      ultimately show ?thesis using no cnt fin by (simp add: card_Diff_singleton of_nat_diff)
    qed
  qed
  moreover have "part_inv n ts (pl_parts (set_part p (pm, ready) s) q)" for q
    using inv pm by (simp add: plock_inv_def set_part_def)
  ultimately show ?thesis using inv fin by (simp add: plock_inv_def waits_set_part) (simp add: set_part_def)
qed

lemma plock_ready_pos:
  assumes "plock_inv n ts s"
  shows "\<forall>w. 0 \<le> pl_ready s w" "\<forall>w\<in>set (pm_waiters (pl_parts s p)). 1 \<le> pl_ready s w"
proof -
  show "\<forall>w. 0 \<le> pl_ready s w" using assms by (simp add: plock_inv_def)
  show "\<forall>w\<in>set (pm_waiters (pl_parts s p)). 1 \<le> pl_ready s w"
  proof
    fix w assume "w \<in> set (pm_waiters (pl_parts s p))"
    then have "{p. w \<in> set (pm_waiters (pl_parts s p))} \<noteq> {}" by auto
    then have "0 < card {p. w \<in> set (pm_waiters (pl_parts s p))}" using assms by (simp add: plock_inv_def card_gt_0_iff)
    then show "1 \<le> pl_ready s w" using assms by (simp add: plock_inv_def)
  qed
qed

lemma plock_reach_inv: "plock_reach n ts s \<Longrightarrow> plock_inv n ts s"
proof (induction rule: plock_reach.induct)
  case init
  then show ?case by (simp add: plock_inv_def part_inv_def part_init_def part_txns_def)
next
  case (lock s t p rc st)
  obtain pm' ready' where st: "st = (pm', ready')" by fastforce
  have pi: "part_inv n ts (pl_parts s p)" "inj_on ts {..<n}" using lock.IH by (auto simp: plock_inv_def)
  from part_lock_ok [OF pi lock.hyps(2,3), of "pl_ready s"] lock.hyps(4) st
  have r: "part_inv n ts pm'" "rc = Abort \<and> pm' = pl_parts s p \<and> ready' = pl_ready s \<or>
     rc = RCOK \<and> pm_waiters pm' = pm_waiters (pl_parts s p) \<and> ready' = pl_ready s \<or>
     rc = WAIT \<and> set (pm_waiters pm') = insert t (set (pm_waiters (pl_parts s p))) \<and> ready' = (pl_ready s)(t := pl_ready s t + 1)"
    by auto
  have "t \<notin> set (pm_waiters (pl_parts s p))" using lock.hyps(3) by (simp add: part_txns_def)
  then show ?case unfolding st using r by (intro plock_inv_step [OF lock.IH r(1)]) auto
next
  case (unlock s t p st)
  obtain pm' ready' where st: "st = (pm', ready')" by fastforce
  have pi: "part_inv n ts (pl_parts s p)" using unlock.IH by (auto simp: plock_inv_def)
  from part_unlock_ok [OF pi unlock.hyps(2) plock_ready_pos [OF unlock.IH]] unlock.hyps(3) st
  have r: "part_inv n ts pm'" "pm_waiters (pl_parts s p) = [] \<and> pm_waiters pm' = [] \<and> ready' = pl_ready s \<or>
     (\<exists>x\<in>set (pm_waiters (pl_parts s p)). set (pm_waiters pm') = set (pm_waiters (pl_parts s p)) - {x} \<and>
        ready' = (pl_ready s)(x := pl_ready s x - 1))"
    by auto
  show ?case unfolding st using r by (intro plock_inv_step [OF unlock.IH r(1)]) auto
qed

section \<open>Consequences\<close>

definition plock_waits_for :: "plock_sys \<Rightarrow> (txn_ptr \<times> txn_ptr) set" where
  "plock_waits_for s = {(a, b). \<exists>p. a \<in> set (pm_waiters (pl_parts s p)) \<and> pm_owner (pl_parts s p) = Some b}"

text \<open>
  C25. H-Store's partition locks cannot deadlock, although a transaction may queue at several
  partitions at once: in every reachable state the relation from waiters to the owners they wait
  for has no cycle.
\<close>

theorem plock_no_deadlock:
  assumes "plock_reach n ts s"
  shows "acyclic (plock_waits_for s)"
proof (rule acyclicI_order [of _ ts])
  fix a b assume "(a, b) \<in> plock_waits_for s"
  then obtain p where "a \<in> set (pm_waiters (pl_parts s p))" "pm_owner (pl_parts s p) = Some b"
    by (auto simp: plock_waits_for_def)
  moreover have "part_inv n ts (pl_parts s p)" using plock_reach_inv [OF assms] by (simp add: plock_inv_def)
  ultimately show "ts b < ts a" by (simp add: part_inv_def)
qed

text \<open>
  \<open>ready_part\<close> counts exactly the partitions at which a transaction still waits, so when the spin of
  \<open>Plock::lock\<close> ends with \<open>ready_part = 0\<close> the transaction owns every partition it registered at.
\<close>

theorem plock_ready_means_owner:
  assumes "plock_reach n ts s" and "pl_ready s t = 0" and "t \<in> part_txns (pl_parts s p)"
  shows "pm_owner (pl_parts s p) = Some t"
proof -
  have inv: "plock_inv n ts s" by (rule plock_reach_inv [OF assms(1)])
  have "t \<notin> set (pm_waiters (pl_parts s p))" using plock_ready_pos(2) [OF inv, of p] assms(2) by force
  then show ?thesis using assms(3) by (cases "pm_owner (pl_parts s p)") (auto simp: part_txns_def)
qed

text \<open>
  No assertion of the partition lock fails in a reachable state: locking and unlocking return, and an
  unlocked partition with waiters passes to the oldest of them.
\<close>

theorem plock_ops_never_assert:
  assumes "plock_reach n ts s" and "t < n"
  shows "(t \<notin> part_txns (pl_parts s p) \<longrightarrow> part_lock n ts t (pl_parts s p, pl_ready s) \<noteq> None) \<and>
    (t \<in> part_txns (pl_parts s p) \<longrightarrow> part_unlock ts t (pl_parts s p, pl_ready s) \<noteq> None)"
proof -
  have inv: "plock_inv n ts s" by (rule plock_reach_inv [OF assms(1)])
  then have pi: "part_inv n ts (pl_parts s p)" "inj_on ts {..<n}" by (auto simp: plock_inv_def)
  show ?thesis
    using part_lock_ok [OF pi assms(2), of "pl_ready s"] part_unlock_ok [OF pi(1) _ plock_ready_pos [OF inv], of t]
    by auto
qed

text \<open>Two partitions: thread 0 owns partition 0, thread 1 owns partition 1 and waits at 0.\<close>

definition plock_demo :: plock_sys where
  "plock_demo = \<lparr>pl_parts = (\<lambda>_. part_init)(0 := \<lparr>pm_owner = Some 0, pm_waiters = [1]\<rparr>),
     pl_ready = (\<lambda>_. 0)(1 := 1)\<rparr>"

lemma plock_demo_reach: "plock_reach 2 of_nat plock_demo"
proof -
  let ?s0 = "\<lparr>pl_parts = (\<lambda>_. part_init), pl_ready = (\<lambda>_. 0)\<rparr>"
  let ?s1 = "set_part 0 (\<lparr>pm_owner = Some 0, pm_waiters = []\<rparr>, \<lambda>_. 0) ?s0"
  let ?s2 = "set_part 0 (\<lparr>pm_owner = Some 0, pm_waiters = [1]\<rparr>, (\<lambda>_. 0)(1 := 1)) ?s1"
  have "plock_reach 2 of_nat ?s0" by (rule plock_reach.init) (auto simp: inj_on_def less_2_cases_iff)
  then have "plock_reach 2 of_nat ?s1"
    by (rule plock_reach.lock [of _ _ _ 0 0 RCOK]) (simp_all add: part_txns_def part_init_def part_lock_def)
  then have "plock_reach 2 of_nat ?s2"
    by (rule plock_reach.lock [of _ _ _ 1 0 WAIT]) (simp_all add: part_txns_def part_init_def part_lock_def set_part_def)
  moreover have "?s2 = plock_demo" by (simp add: plock_demo_def set_part_def fun_eq_iff)
  ultimately show ?thesis by simp
qed

theorem plock_no_deadlock_witness: "acyclic (plock_waits_for plock_demo) \<and> (1, 0) \<in> plock_waits_for plock_demo"
  using plock_no_deadlock [OF plock_demo_reach]
  by (auto simp: plock_waits_for_def plock_demo_def intro!: exI [of _ 0])

theorem plock_ready_means_owner_witness: "pm_owner (pl_parts plock_demo 0) = Some 0"
  by (rule plock_ready_means_owner [OF plock_demo_reach]) (simp_all add: plock_demo_def part_txns_def)

theorem plock_ops_never_assert_witness: "part_unlock of_nat 0 (pl_parts plock_demo 0, pl_ready plock_demo) \<noteq> None"
  using plock_ops_never_assert [OF plock_demo_reach, of 0 0] by (simp add: plock_demo_def part_txns_def)

end
