(* ===== verification/Lock_Word.thy ===== *)
theory Lock_Word
  imports DBx_Prelude
begin

text \<open>
  What Silo and TicToc share: a row carries one atomic 64-bit word whose bit 63 is its lock, a
  transaction that validates locks its write set row by row with \<open>try_lock\<close>, gives the locks
  back and backs off when a row is busy, and checks that the version in each word is the one it
  read (concurrency\_control/silo/silo.cpp 69 to 119 and tictoc/tictoc.cpp 110 to 169; the
  back-off counter is struct \<open>bounded_backoff_function\<close> of system/helper.h).

  The other threads run at the same time.  They are the parameter \<open>env\<close>: before every access of
  shared memory the step \<open>shared\<close> replaces the store by what they made of it.  They are told
  which locks this thread holds at that moment, and \<open>env_respects env\<close> says they leave those rows
  alone; nothing else is assumed of them.  A run \<open>Returns\<close> a value, \<open>Spins\<close> when the number
  of rounds granted to a loop is used up, or \<open>Fails\<close> at an assertion.
\<close>

datatype 'a run = Returns 'a | Spins | Fails

record 'd wrow =
  wr_pk :: "64 word"
  wr_word :: "64 word"
  wr_data :: 'd

type_synonym 'd wstore = "row_ptr \<Rightarrow> 'd wrow"

record 'd wst =
  w_rows :: "'d wstore"
  w_clock :: nat

type_synonym 'd others = "nat \<Rightarrow> row_ptr set \<Rightarrow> 'd wstore \<Rightarrow> 'd wstore"

abbreviation word_of :: "'d wst \<Rightarrow> row_ptr \<Rightarrow> 64 word" where
  "word_of st r \<equiv> wr_word (w_rows st r)"

definition shared :: "'d others \<Rightarrow> row_ptr set \<Rightarrow> 'd wst \<Rightarrow> 'd wst" where
  "shared env H st = st\<lparr>w_rows := env (w_clock st) H (w_rows st), w_clock := w_clock st + 1\<rparr>"

definition set_word :: "row_ptr \<Rightarrow> 64 word \<Rightarrow> 'd wst \<Rightarrow> 'd wst" where
  "set_word r w st = st\<lparr>w_rows := (w_rows st)(r := (w_rows st r)\<lparr>wr_word := w\<rparr>)\<rparr>"

definition env_respects :: "'d others \<Rightarrow> bool" where
  "env_respects env \<longleftrightarrow> (\<forall>k H s r. r \<in> H \<longrightarrow> env k H s r = s r)"

definition alone :: "'d others" where
  "alone k H s = s"

section \<open>The bounded back-off\<close>

definition bounded_backoff :: "UInt32 \<Rightarrow> UInt32 \<Rightarrow> bool \<times> UInt32" where
  "bounded_backoff cycles cnt =
     (if cycles \<le> cnt then (False, cnt)
      else (True, (push_bit 1 cnt OR 1) AND cycles))"

fun backoff_calls :: "nat \<Rightarrow> UInt32 \<Rightarrow> UInt32 \<Rightarrow> bool list" where
  "backoff_calls 0 cycles cnt = []"
| "backoff_calls (Suc n) cycles cnt =
     (let (go, cnt') = bounded_backoff cycles cnt in go # backoff_calls n cycles cnt')"

section \<open>Locking a write set\<close>

text \<open>
  The operations on the word.  \<open>l_try v w\<close> is \<open>try_lock\<close> with the value \<open>v\<close> its load saw and the
  value \<open>w\<close> its compare-and-swap finds; \<open>l_check\<close> is the assertion \<open>assert_lock\<close>; \<open>l_ver\<close> the
  version in the word (\<open>get_tid\<close>, \<open>get_wts\<close>).
\<close>

record lock_ops =
  l_try :: "64 word \<Rightarrow> 64 word \<Rightarrow> bool \<times> 64 word"
  l_release :: "64 word \<Rightarrow> 64 word run"
  l_check :: "64 word \<Rightarrow> bool"
  l_ver :: "64 word \<Rightarrow> 64 word"

record lock_cfg =
  pre_abort :: bool
  bounded_spinning :: bool
  spin_cycles :: UInt32

datatype lock_res = AllLocked | Busy | Changed

definition try_lock_row ::
  "lock_ops \<Rightarrow> 'd others \<Rightarrow> row_ptr set \<Rightarrow> row_ptr \<Rightarrow> 'd wst \<Rightarrow> bool \<times> 'd wst" where
  "try_lock_row ops env H r st =
     (let st1 = shared env H st; v = word_of st1 r;
          st2 = shared env H st1; (ok, w) = l_try ops v (word_of st2 r)
      in (ok, set_word r w st2))"

text \<open>\<open>for (i < num_locks) release()\<close>\<close>

fun release_all :: "lock_ops \<Rightarrow> 'd others \<Rightarrow> row_ptr list \<Rightarrow> 'd wst \<Rightarrow> 'd wst run" where
  "release_all ops env [] st = Returns st"
| "release_all ops env (r # rs) st =
     (let st1 = shared env (set (r # rs)) st
      in case l_release ops (word_of st1 r) of
           Returns w \<Rightarrow> release_all ops env rs (set_word r w st1)
         | Spins \<Rightarrow> Spins
         | Fails \<Rightarrow> Fails)"

text \<open>
  One pass over the write set, a list of rows with the version this transaction read: it ends with
  every row locked, at a row that is busy, or at a row whose version changed.  \<open>L\<close> are the first
  \<open>num_locks\<close> rows.
\<close>

fun lock_pass :: "lock_ops \<Rightarrow> 'd others \<Rightarrow> (row_ptr \<times> ts_t) list \<Rightarrow> row_ptr list \<Rightarrow> 'd wst
    \<Rightarrow> (lock_res \<times> row_ptr list \<times> 'd wst) run" where
  "lock_pass ops env [] L st = Returns (AllLocked, L, st)"
| "lock_pass ops env ((r, t) # ws) L st =
     (let (ok, st1) = try_lock_row ops env (set L) r st
      in if \<not> ok then Returns (Busy, L, st1)
         else if \<not> l_check ops (word_of st1 r) then Fails
         else let L1 = L @ [r]; st2 = shared env (set L1) st1
              in if l_ver ops (word_of st2 r) \<noteq> t then Returns (Changed, L1, st2)
                 else lock_pass ops env ws L1 st2)"

text \<open>
  The loop around the pass.  The result is the return code, the rows the variable \<open>num_locks\<close>
  counts when the loop is left, and the store; \<open>recheck\<close> is the second pre-abort check.
\<close>

fun lock_loop :: "lock_ops \<Rightarrow> 'd others \<Rightarrow> lock_cfg \<Rightarrow> ('d wst \<Rightarrow> bool \<times> 'd wst)
    \<Rightarrow> (row_ptr \<times> ts_t) list \<Rightarrow> nat \<Rightarrow> UInt32 \<Rightarrow> 'd wst
    \<Rightarrow> (RC \<times> row_ptr list \<times> 'd wst) run" where
  "lock_loop ops env cfg recheck ws 0 cnt st = Spins"
| "lock_loop ops env cfg recheck ws (Suc n) cnt st =
     (case lock_pass ops env ws [] st of
        Spins \<Rightarrow> Spins
      | Fails \<Rightarrow> Fails
      | Returns (res, L, st1) \<Rightarrow>
          (case res of
             AllLocked \<Rightarrow> Returns (RCOK, L, st1)
           | Changed \<Rightarrow> Returns (Abort, L, st1)
           | Busy \<Rightarrow>
               (case release_all ops env L st1 of
                  Spins \<Rightarrow> Spins
                | Fails \<Rightarrow> Fails
                | Returns st2 \<Rightarrow>
                    (let (ok, st3) = (if pre_abort cfg then recheck st2 else (True, st2));
                         L' = (if pre_abort cfg then [] else L)
                     in if \<not> ok then Returns (Abort, L', st3)
                        else if bounded_spinning cfg then
                          (let (go, cnt') = bounded_backoff (spin_cycles cfg) cnt
                           in if go then lock_loop ops env cfg recheck ws n cnt' st3
                              else Returns (Abort, L', st3))
                        else lock_loop ops env cfg recheck ws n cnt st3))))"

section \<open>Laws of the store\<close>

lemma word_of_set_word [simp]:
  "word_of (set_word r w st) r' = (if r' = r then w else word_of st r')"
  by (simp add: set_word_def)

lemma rows_set_word [simp]:
  "w_rows (set_word r w st) = (w_rows st)(r := (w_rows st r)\<lparr>wr_word := w\<rparr>)"
  by (simp add: set_word_def)

lemma shared_held: "env_respects env \<Longrightarrow> r \<in> H \<Longrightarrow> w_rows (shared env H st) r = w_rows st r"
  by (simp add: env_respects_def shared_def)

lemma shared_alone [simp]: "w_rows (shared alone H st) = w_rows st"
  by (simp add: shared_def alone_def)

lemma respects_alone [simp]: "env_respects alone"
  by (simp add: env_respects_def alone_def)

section \<open>The back-off ends\<close>

lemma bounded_backoff_mask:
  assumes "k \<le> 32" and "j \<le> k"
  shows "bounded_backoff (mask k) (mask j) = (j < k, mask (if j < k then Suc j else j))"
proof (cases "j < k")
  case True
  have "(2::int) ^ j < 2 ^ k" using True by simp
  then have "(mask j :: int) < mask k" by (simp add: mask_eq_exp_minus_1)
  then have "uint (mask j :: UInt32) < uint (mask k :: UInt32)"
    using True assms by (simp only: uint_mask_eq) (simp add: min_def)
  then have less: "\<not> (mask k :: UInt32) \<le> mask j" by (simp add: word_le_def)
  have "push_bit 1 (mask j) OR 1 = (mask (Suc j) :: UInt32)"
    by (simp add: mask_Suc_double or.commute push_bit_eq_mult mult.commute)
  moreover have "mask (Suc j) AND mask k = (mask (Suc j) :: UInt32)"
    using True by (intro bit_eqI) (auto simp: bit_simps)
  ultimately show ?thesis using less True by (simp add: bounded_backoff_def)
next
  case False
  with assms have "j = k" by simp
  then show ?thesis by (simp add: bounded_backoff_def)
qed

lemma backoff_calls_mask:
  assumes "k \<le> 32"
  shows "j \<le> k \<Longrightarrow> backoff_calls (Suc (k - j)) (mask k) (mask j) = replicate (k - j) True @ [False]"
proof (induction "k - j" arbitrary: j)
  case 0
  then have "j = k" by simp
  then show ?case using bounded_backoff_mask [OF assms, of k] by simp
next
  case (Suc d)
  then have j: "j < k" "d = k - Suc j" by simp_all
  then have "k - j = Suc (k - Suc j)" by simp
  moreover have "backoff_calls (Suc (k - Suc j)) (mask k) (mask (Suc j)) =
      replicate (k - Suc j) True @ [False]" using Suc.hyps(1) [OF j(2)] j(1) by simp
  ultimately show ?case using j(1) by (simp add: bounded_backoff_mask assms)
qed

section \<open>Bit 63 of the word\<close>

definition LOCK_BIT :: "64 word" where
  "LOCK_BIT = push_bit 63 1"

definition lk_locked :: "64 word \<Rightarrow> bool" where
  "lk_locked w \<longleftrightarrow> w AND LOCK_BIT \<noteq> 0"

lemma bit_LOCK_BIT [simp]: "bit LOCK_BIT n \<longleftrightarrow> n = 63"
  unfolding LOCK_BIT_def by (subst bit_push_bit_iff) (auto simp: bit_1_iff dest: bit_imp_le_length)

lemma lk_locked_bit: "lk_locked w \<longleftrightarrow> bit w 63"
proof
  assume "lk_locked w"
  then obtain n where "bit (w AND LOCK_BIT) n"
    unfolding lk_locked_def by (metis bit_eqI bit_0_eq bot_apply bot_bool_def)
  then show "bit w 63" by (auto simp: bit_and_iff)
next
  assume "bit w 63"
  then have "bit (w AND LOCK_BIT) 63" by (simp add: bit_and_iff)
  then show "lk_locked w" unfolding lk_locked_def by (metis bit_0_eq bot_apply bot_bool_def)
qed

lemma lk_locked_or [simp]: "lk_locked (w OR LOCK_BIT)"
  by (simp add: lk_locked_bit bit_or_iff)

lemma lk_locked_clear [simp]: "\<not> lk_locked (w AND NOT LOCK_BIT)"
  by (simp add: lk_locked_bit bit_and_iff bit_not_iff)

lemma clear_lock_or [simp]: "(w OR LOCK_BIT) AND NOT LOCK_BIT = w AND NOT LOCK_BIT"
  by (rule bit_eqI) (auto simp: bit_simps)

lemma clear_unlocked [simp]: "\<not> lk_locked w \<Longrightarrow> w AND NOT LOCK_BIT = w"
  by (rule bit_eqI) (auto simp: bit_simps lk_locked_bit)

lemma clear_clear [simp]: "(w AND NOT LOCK_BIT) AND NOT LOCK_BIT = w AND NOT LOCK_BIT"
  by simp

lemma not_locked_less: "w < LOCK_BIT \<Longrightarrow> \<not> lk_locked w"
proof -
  assume "w < LOCK_BIT"
  then have "uint w < 2 ^ 63" by (simp add: LOCK_BIT_def word_less_def push_bit_eq_mult)
  then have "w AND mask 63 = w" by (simp add: mask_eq_iff)
  then show ?thesis unfolding lk_locked_bit by (metis bit_and_iff bit_mask_iff less_irrefl)
qed

section \<open>Reading a row without its lock\<close>

text \<open>
  \<open>tr t\<close> is the row at time \<open>t\<close>.  A trace is good when between two unlocked moments with only locked
  ones in between, a critical section or nothing at all, the version grew or the tuple stayed as it was.
\<close>

definition tuple_constant :: "(nat \<Rightarrow> 'b list wrow) \<Rightarrow> nat \<Rightarrow> nat \<Rightarrow> bool" where
  "tuple_constant tr s e \<longleftrightarrow> (\<forall>k. s \<le> k \<longrightarrow> k \<le> e \<longrightarrow> wr_data (tr k) = wr_data (tr s))"

lemma tuple_constant_trans:
  assumes "tuple_constant tr s m" and "tuple_constant tr m e" and "s \<le> m"
  shows "tuple_constant tr s e"
  unfolding tuple_constant_def
proof (intro allI impI)
  fix k assume k: "s \<le> k" "k \<le> e"
  show "wr_data (tr k) = wr_data (tr s)"
  proof (cases "k \<le> m")
    case True
    then show ?thesis using assms(1) k unfolding tuple_constant_def by blast
  next
    case False
    then have "m \<le> k" by simp
    then have "wr_data (tr k) = wr_data (tr m)" using assms(2) k unfolding tuple_constant_def by blast
    moreover have "wr_data (tr m) = wr_data (tr s)" using assms(1,3) unfolding tuple_constant_def by blast
    ultimately show ?thesis by (rule trans)
  qed
qed

definition trace_ok :: "(64 word \<Rightarrow> 64 word) \<Rightarrow> (nat \<Rightarrow> 'b list wrow) \<Rightarrow> bool" where
  "trace_ok ver tr \<longleftrightarrow>
     (\<forall>s e. s < e \<longrightarrow> \<not> lk_locked (wr_word (tr s)) \<longrightarrow> \<not> lk_locked (wr_word (tr e)) \<longrightarrow>
        (\<forall>k. s < k \<longrightarrow> k < e \<longrightarrow> lk_locked (wr_word (tr k))) \<longrightarrow>
        ver (wr_word (tr s)) < ver (wr_word (tr e)) \<or>
        (ver (wr_word (tr e)) = ver (wr_word (tr s)) \<and> tuple_constant tr s e))"

lemma trace_mono:
  assumes ok: "trace_ok ver tr" and s: "\<not> lk_locked (wr_word (tr s))"
  shows "s \<le> e \<Longrightarrow> \<not> lk_locked (wr_word (tr e)) \<Longrightarrow> ver (wr_word (tr s)) \<le> ver (wr_word (tr e)) \<and>
    (ver (wr_word (tr s)) = ver (wr_word (tr e)) \<longrightarrow> tuple_constant tr s e)"
proof (induction e rule: less_induct)
  case (less e)
  show ?case
  proof (cases "s = e")
    case True
    then show ?thesis by (simp add: tuple_constant_def)
  next
    case False
    let ?P = "\<lambda>k. s \<le> k \<and> k < e \<and> \<not> lk_locked (wr_word (tr k))"
    define e' where "e' = (GREATEST k. ?P k)"
    have ex: "?P s" using False less.prems(1) s by simp
    have bound: "\<forall>k. ?P k \<longrightarrow> k \<le> e" by simp
    have e': "?P e'" unfolding e'_def using GreatestI_nat [of ?P s e] ex bound by blast
    have last: "lk_locked (wr_word (tr k))" if "e' < k" "k < e" for k
    proof (rule ccontr)
      assume "\<not> lk_locked (wr_word (tr k))"
      then have "?P k" using that e' by simp
      then have "k \<le> e'" unfolding e'_def using Greatest_le_nat [of ?P k e] bound by blast
      then show False using that by simp
    qed
    have step: "ver (wr_word (tr e')) < ver (wr_word (tr e)) \<or> (ver (wr_word (tr e)) = ver (wr_word (tr e')) \<and>
        tuple_constant tr e' e)"
      using ok e' less.prems(2) last unfolding trace_ok_def by blast
    have IH: "ver (wr_word (tr s)) \<le> ver (wr_word (tr e'))"
      "ver (wr_word (tr s)) = ver (wr_word (tr e')) \<longrightarrow> tuple_constant tr s e'"
      using less.IH [of e'] e' by simp_all
    have "ver (wr_word (tr s)) \<le> ver (wr_word (tr e))" using step IH(1) by (elim disjE conjE) simp_all
    moreover have "tuple_constant tr s e" if eq: "ver (wr_word (tr s)) = ver (wr_word (tr e))"
    proof -
      have "ver (wr_word (tr s)) = ver (wr_word (tr e'))" "ver (wr_word (tr e)) = ver (wr_word (tr e'))"
        using step IH(1) eq by (elim disjE conjE; simp)+
      then show ?thesis using step IH(2) e' tuple_constant_trans [of tr s e' e] by simp
    qed
    ultimately show ?thesis by blast
  qed
qed

section \<open>What the word operations promise\<close>

definition holds :: "(64 word \<Rightarrow> bool) \<Rightarrow> row_ptr list \<Rightarrow> 'd wst \<Rightarrow> bool" where
  "holds locked L st \<longleftrightarrow> distinct L \<and> (\<forall>r\<in>set L. locked (word_of st r))"

text \<open>
  The outcome of the lock loop: it still spins, or it commits holding the whole write set with the
  versions that were read, or it aborts; the rows it counts are held when it aborts with
  pre-abort checks on or unbounded spinning.
\<close>

definition lock_outcome :: "lock_ops \<Rightarrow> (64 word \<Rightarrow> bool) \<Rightarrow> lock_cfg \<Rightarrow> (row_ptr \<times> ts_t) list
    \<Rightarrow> (RC \<times> row_ptr list \<times> 'd wst) run \<Rightarrow> bool" where
  "lock_outcome ops locked cfg ws res \<longleftrightarrow>
     (case res of
        Spins \<Rightarrow> True
      | Fails \<Rightarrow> False
      | Returns (rc, L, st) \<Rightarrow>
          (rc = RCOK \<and> L = map fst ws \<and> holds locked L st \<and>
             (\<forall>(r, t)\<in>set ws. l_ver ops (word_of st r) = t)) \<or>
          (rc = Abort \<and> (pre_abort cfg \<or> \<not> bounded_spinning cfg \<longrightarrow> holds locked L st)))"

text \<open>
  The rows \<open>L\<close> are locked over the store \<open>s\<close>: releasing them one by one leads back to \<open>s\<close>.
\<close>

definition locked_over :: "lock_ops \<Rightarrow> (64 word \<Rightarrow> bool) \<Rightarrow> 'd wstore \<Rightarrow> row_ptr list \<Rightarrow> 'd wst \<Rightarrow> bool" where
  "locked_over ops locked s L st \<longleftrightarrow>
     holds locked L st \<and>
     (\<forall>r\<in>set L. \<not> locked (wr_word (s r)) \<and>
        l_release ops (word_of st r) = Returns (wr_word (s r)) \<and>
        l_ver ops (word_of st r) = l_ver ops (wr_word (s r)) \<and>
        w_rows st r = (s r)\<lparr>wr_word := word_of st r\<rparr>) \<and>
     (\<forall>r. r \<notin> set L \<longrightarrow> w_rows st r = s r)"

definition lockable :: "lock_ops \<Rightarrow> (64 word \<Rightarrow> bool) \<Rightarrow> 'd wstore \<Rightarrow> (row_ptr \<times> ts_t) list \<Rightarrow> bool" where
  "lockable ops locked s ws \<longleftrightarrow> distinct (map fst ws) \<and>
     (\<forall>(r, t)\<in>set ws. \<not> locked (wr_word (s r)) \<and> l_ver ops (wr_word (s r)) = t)"

locale lock_word =
  fixes ops :: lock_ops and locked :: "64 word \<Rightarrow> bool"
  assumes try_ok: "l_try ops v w = (True, w') \<Longrightarrow> v = w \<and> \<not> locked w \<and> locked w' \<and>
      l_check ops w' \<and> l_ver ops w' = l_ver ops w \<and> l_release ops w' = Returns w"
    and try_no: "l_try ops v w = (False, w') \<Longrightarrow> w' = w"
    and try_free: "\<not> locked w \<Longrightarrow> fst (l_try ops w w)"
    and release_locked: "locked w \<Longrightarrow> \<exists>w'. l_release ops w = Returns w' \<and> \<not> locked w' \<and>
      l_ver ops w' = l_ver ops w"
begin

lemma holds_shared:
  "env_respects env \<Longrightarrow> set L \<subseteq> H \<Longrightarrow> holds locked L (shared env H st) = holds locked L st"
  using shared_held [of env _ H st] unfolding holds_def by (metis subsetD)

text \<open>A lock that was taken is a new one: the rows held before stay held, and are not locked twice.\<close>

lemma try_lock_row_ok:
  assumes env: "env_respects env" and h: "holds locked L st"
    and trl: "try_lock_row ops env (set L) r st = (True, st1)"
  shows "holds locked (L @ [r]) st1 \<and> l_check ops (word_of st1 r) \<and>
    (\<forall>q\<in>set L. w_rows st1 q = w_rows st q)"
proof -
  let ?s1 = "shared env (set L) st" and ?s2 = "shared env (set L) (shared env (set L) st)"
  obtain w where l: "l_try ops (word_of ?s1 r) (word_of ?s2 r) = (True, w)" "st1 = set_word r w ?s2"
    using trl by (auto simp: try_lock_row_def Let_def split: prod.splits)
  have same: "w_rows ?s2 q = w_rows st q" if "q \<in> set L" for q
    using env that by (simp add: shared_held)
  note w = try_ok [OF l(1)]
  have "r \<notin> set L" using w same h by (auto simp: holds_def)
  then show ?thesis using w same h l(2) by (auto simp: holds_def)
qed

lemma try_lock_row_no:
  assumes env: "env_respects env" and h: "holds locked L st"
    and trl: "try_lock_row ops env (set L) r st = (False, st1)"
  shows "holds locked L st1 \<and> (\<forall>q\<in>set L. w_rows st1 q = w_rows st q)"
proof -
  let ?s1 = "shared env (set L) st" and ?s2 = "shared env (set L) (shared env (set L) st)"
  obtain w where l: "l_try ops (word_of ?s1 r) (word_of ?s2 r) = (False, w)" "st1 = set_word r w ?s2"
    using trl by (auto simp: try_lock_row_def Let_def split: prod.splits)
  then have "w = word_of ?s2 r" by (auto dest: try_no)
  with l(2) have "w_rows st1 = w_rows ?s2" by auto
  moreover have "w_rows ?s2 q = w_rows st q" if "q \<in> set L" for q
    using env that by (simp add: shared_held)
  ultimately show ?thesis using h by (simp add: holds_def)
qed

lemma release_all_ok:
  "env_respects env \<Longrightarrow> holds locked L st \<Longrightarrow> \<exists>st'. release_all ops env L st = Returns st'"
proof (induction L arbitrary: st)
  case Nil
  then show ?case by simp
next
  case (Cons r rs)
  let ?s = "shared env (set (r # rs)) st"
  have h: "holds locked (r # rs) ?s" using Cons.prems holds_shared [of env "r # rs" "set (r # rs)" st] by simp
  then obtain w where w: "l_release ops (word_of ?s r) = Returns w"
    using release_locked by (force simp: holds_def)
  have "holds locked rs (set_word r w ?s)" using h by (auto simp: holds_def)
  with Cons.IH Cons.prems(1) w show ?case by (simp add: Let_def)
qed

text \<open>
  Whatever the other threads do, a pass never fails, and it ends holding exactly the rows it
  counted; when it locked all of them, each still has the version that was read.
\<close>

lemma lock_pass_ok:
  assumes env: "env_respects env" and h: "holds locked L st"
    and ver: "\<forall>(r, t)\<in>set vs. r \<in> set L \<and> l_ver ops (word_of st r) = t"
  shows "\<exists>res L' st'. lock_pass ops env ws L st = Returns (res, L', st') \<and> holds locked L' st' \<and>
    (res = AllLocked \<longrightarrow> L' = L @ map fst ws \<and>
       (\<forall>(r, t)\<in>set (vs @ ws). l_ver ops (word_of st' r) = t))"
  using h ver
proof (induction ws arbitrary: L vs st)
  case Nil
  then show ?case by auto
next
  case (Cons a ws)
  obtain r t where a: "a = (r, t)" by fastforce
  obtain ok st1 where trl: "try_lock_row ops env (set L) r st = (ok, st1)" by fastforce
  show ?case
  proof (cases ok)
    case False
    then show ?thesis using trl a try_lock_row_no [OF env Cons.prems(1), of r st1] by simp
  next
    case True
    with trl have ok: "holds locked (L @ [r]) st1" "l_check ops (word_of st1 r)"
      "\<forall>q\<in>set L. w_rows st1 q = w_rows st q"
      using try_lock_row_ok [OF env Cons.prems(1), of r st1] by auto
    let ?L = "L @ [r]"
    let ?s = "shared env (set ?L) st1"
    have h2: "holds locked ?L ?s" using ok(1) holds_shared [OF env, of ?L "set ?L" st1] by simp
    show ?thesis
    proof (cases "l_ver ops (word_of ?s r) = t")
      case False
      then show ?thesis using a trl True ok(2) h2 by (simp add: Let_def)
    next
      case same: True
      have "\<forall>(q, u)\<in>set (vs @ [(r, t)]). q \<in> set ?L \<and> l_ver ops (word_of ?s q) = u"
        using Cons.prems(2) same ok(3) shared_held [OF env, of _ "set ?L" st1] by auto
      from Cons.IH [OF h2 this] show ?thesis using a trl True ok(2) same by (simp add: Let_def)
    qed
  qed
qed

lemma lock_loop_ok:
  assumes env: "env_respects env"
  shows "lock_outcome ops locked cfg ws (lock_loop ops env cfg recheck ws n cnt st)"
proof (induction n arbitrary: cnt st)
  case 0
  then show ?case by (simp add: lock_outcome_def)
next
  case (Suc n)
  have h0: "holds locked [] s" for s :: "'a wst" by (simp add: holds_def)
  from lock_pass_ok [OF env h0, of "[]" st ws] obtain r L st1 where
    p: "lock_pass ops env ws [] st = Returns (r, L, st1)" "holds locked L st1"
      "r = AllLocked \<longrightarrow> L = map fst ws \<and> (\<forall>(r, t)\<in>set ws. l_ver ops (word_of st1 r) = t)"
    by auto
  obtain st2 where rel: "release_all ops env L st1 = Returns st2"
    using release_all_ok [OF env p(2)] by blast
  have ab: "lock_outcome ops locked cfg ws (Returns (Abort, if pre_abort cfg then [] else L, st))"
    if "bounded_spinning cfg \<or> pre_abort cfg" for st :: "'a wst"
    using that h0 by (auto simp: lock_outcome_def)
  show ?case
    using p rel Suc.IH ab
    by (cases r) (auto simp: lock_outcome_def Let_def split: prod.splits)
qed

text \<open>Bounded spinning ends: \<open>k + 1\<close> rounds are enough when the bound is \<open>2^k - 1\<close>.\<close>

lemma lock_loop_ends:
  assumes env: "env_respects env" and cfg: "bounded_spinning cfg" "spin_cycles cfg = mask k"
    and k: "k \<le> 32"
  shows "j \<le> k \<Longrightarrow> k - j < n \<Longrightarrow> lock_loop ops env cfg recheck ws n (mask j) st \<noteq> Spins"
proof (induction n arbitrary: j st)
  case 0
  then show ?case by simp
next
  case (Suc n)
  have h0: "holds locked [] s" for s :: "'a wst" by (simp add: holds_def)
  from lock_pass_ok [OF env h0, of "[]" st ws] obtain r L st1 where
    p: "lock_pass ops env ws [] st = Returns (r, L, st1)" "holds locked L st1" by auto
  obtain st2 where rel: "release_all ops env L st1 = Returns st2"
    using release_all_ok [OF env p(2)] by blast
  have "j < k \<Longrightarrow> lock_loop ops env cfg recheck ws n (mask (Suc j)) st' \<noteq> Spins" for st'
    using Suc.IH [of "Suc j"] Suc.prems by simp
  then show ?case
    using p rel cfg Suc.prems(1)
    by (cases r) (auto simp: bounded_backoff_mask k Let_def split: prod.splits)
qed

text \<open>With nobody else running, giving the locks back restores the store.\<close>

lemma release_all_alone:
  "locked_over ops locked s L st \<Longrightarrow> \<exists>st'. release_all ops alone L st = Returns st' \<and> w_rows st' = s"
proof (induction L arbitrary: st)
  case Nil
  then show ?case by (auto simp: locked_over_def)
next
  case (Cons r rs)
  let ?st = "set_word r (wr_word (s r)) (shared alone (set (r # rs)) st)"
  have d: "r \<notin> set rs" using Cons.prems by (simp add: locked_over_def holds_def)
  have "w_rows st r = (s r)\<lparr>wr_word := word_of st r\<rparr>" using Cons.prems by (simp add: locked_over_def)
  then have "(w_rows st r)\<lparr>wr_word := wr_word (s r)\<rparr> = s r"
    by (cases "s r") (metis wrow.select_convs(2) wrow.update_convs(2))
  then have "locked_over ops locked s rs ?st"
    using Cons.prems d by (auto simp: locked_over_def holds_def)
  then obtain st' where "release_all ops alone rs ?st = Returns st'" "w_rows st' = s"
    using Cons.IH by blast
  then show ?case using Cons.prems by (simp add: Let_def locked_over_def)
qed

lemma try_lock_row_alone:
  assumes over: "locked_over ops locked s L st"
    and trl: "try_lock_row ops alone (set L) r st = (ok, st1)"
  shows "(ok \<longrightarrow> locked_over ops locked s (L @ [r]) st1) \<and>
    (\<not> ok \<longrightarrow> locked_over ops locked s L st1) \<and>
    (r \<notin> set L \<longrightarrow> \<not> locked (wr_word (s r)) \<longrightarrow> ok)"
proof -
  let ?st = "shared alone (set L) (shared alone (set L) st)"
  obtain w where l: "l_try ops (word_of st r) (word_of st r) = (ok, w)" "st1 = set_word r w ?st"
    using trl by (auto simp: try_lock_row_def Let_def split: prod.splits)
  have free: "ok" if "r \<notin> set L" "\<not> locked (wr_word (s r))"
    using that try_free [of "word_of st r"] over l(1) by (simp add: locked_over_def)
  show ?thesis
  proof (cases ok)
    case True
    then have "l_try ops (word_of st r) (word_of st r) = (True, w)" using l(1) by simp
    note w = try_ok [OF this]
    have "r \<notin> set L" using w over by (auto simp: locked_over_def holds_def)
    then show ?thesis using w over l(2) True by (auto simp: locked_over_def holds_def)
  next
    case False
    then have "w = word_of st r" using l(1) by (auto dest: try_no)
    then have "w_rows st1 = w_rows st" using l(2) by auto
    then show ?thesis using False over free by (auto simp: locked_over_def holds_def)
  qed
qed

text \<open>
  A pass with nobody else running: it leaves rows locked over the store it started from, and it
  locks everything when the rows are different, free and unchanged.
\<close>

lemma lock_pass_alone:
  assumes "locked_over ops locked s L st"
  shows "\<exists>res L' st'. lock_pass ops alone ws L st = Returns (res, L', st') \<and>
    locked_over ops locked s L' st' \<and>
    (res = AllLocked \<longrightarrow> L' = L @ map fst ws) \<and>
    (distinct (L @ map fst ws) \<longrightarrow>
     (\<forall>(r, t)\<in>set ws. \<not> locked (wr_word (s r)) \<and> l_ver ops (wr_word (s r)) = t) \<longrightarrow> res = AllLocked)"
  using assms
proof (induction ws arbitrary: L st)
  case Nil
  then show ?case by auto
next
  case (Cons a ws)
  obtain r t where a: "a = (r, t)" by fastforce
  obtain ok st1 where trl: "try_lock_row ops alone (set L) r st = (ok, st1)" by fastforce
  note t = try_lock_row_alone [OF Cons.prems trl]
  show ?case
  proof (cases ok)
    case False
    then show ?thesis using trl a t by auto
  next
    case True
    let ?s = "shared alone (set (L @ [r])) st1"
    have over: "locked_over ops locked s (L @ [r]) ?s"
      using t True by (simp add: locked_over_def holds_def)
    have chk: "l_check ops (word_of st1 r)"
      using try_lock_row_ok [OF respects_alone, of L st r st1] Cons.prems trl True
      by (simp add: locked_over_def)
    have ver: "l_ver ops (word_of ?s r) = l_ver ops (wr_word (s r))"
      using over by (simp add: locked_over_def)
    show ?thesis
    proof (cases "l_ver ops (word_of ?s r) = t")
      case False
      then show ?thesis using trl a True over chk ver by (auto simp: Let_def)
    next
      case same: True
      then have step: "lock_pass ops alone ((r, t) # ws) L st = lock_pass ops alone ws (L @ [r]) ?s"
        using trl True chk by (simp add: Let_def)
      from Cons.IH [OF over] obtain res L' st' where
        "lock_pass ops alone ws (L @ [r]) ?s = Returns (res, L', st')" "locked_over ops locked s L' st'"
        "res = AllLocked \<longrightarrow> L' = (L @ [r]) @ map fst ws"
        "distinct ((L @ [r]) @ map fst ws) \<longrightarrow> (\<forall>(r, t)\<in>set ws. \<not> locked (wr_word (s r)) \<and>
          l_ver ops (wr_word (s r)) = t) \<longrightarrow> res = AllLocked" by (elim exE conjE) (rule that)
      then show ?thesis unfolding a step
        by (intro exI [of _ res] exI [of _ L'] exI [of _ st']) simp
    qed
  qed
qed


text \<open>
  The loop with nobody else running: the rows it counts are locked over the store it started from,
  and it commits exactly when the rows of the write set are different, free and unchanged.
\<close>

lemma lock_pass_alone_iff:
  assumes s: "w_rows st = s"
  shows "\<exists>res L st'. lock_pass ops alone ws [] st = Returns (res, L, st') \<and>
    locked_over ops locked s L st' \<and> (res = AllLocked \<longleftrightarrow> lockable ops locked s ws) \<and>
    (res = AllLocked \<longrightarrow> L = map fst ws)"
proof -
  have over: "locked_over ops locked s [] st" and h: "holds locked [] st"
    using s by (simp_all add: locked_over_def holds_def)
  from lock_pass_alone [OF over, of ws] obtain res L st' where
    p: "lock_pass ops alone ws [] st = Returns (res, L, st')" "locked_over ops locked s L st'"
      "res = AllLocked \<longrightarrow> L = [] @ map fst ws"
      "distinct ([] @ map fst ws) \<longrightarrow> (\<forall>(r, t)\<in>set ws. \<not> locked (wr_word (s r)) \<and>
          l_ver ops (wr_word (s r)) = t) \<longrightarrow> res = AllLocked"
    by (elim exE conjE) (rule that)
  have "lockable ops locked s ws" if "res = AllLocked"
  proof -
    have L: "L = map fst ws" using p(3) that by simp
    have "\<forall>(r, t)\<in>set ws. l_ver ops (word_of st' r) = t"
      using lock_pass_ok [OF respects_alone h, of "[]" ws] p(1) that by auto
    then show ?thesis using p(2) unfolding L by (fastforce simp: lockable_def locked_over_def holds_def)
  qed
  moreover have "lockable ops locked s ws \<longrightarrow> res = AllLocked" using p(4) by (simp add: lockable_def)
  ultimately show ?thesis using p(1-3) by auto
qed

lemma lock_loop_alone:
  assumes s: "w_rows st = s" and cfg: "pre_abort cfg \<or> \<not> bounded_spinning cfg"
    and re: "\<And>st ok st'. recheck st = (ok, st') \<Longrightarrow> w_rows st' = w_rows st"
    and loop: "lock_loop ops alone cfg recheck ws n cnt st = Returns (rc, L, st')"
  shows "locked_over ops locked s L st' \<and>
    (if lockable ops locked s ws then rc = RCOK \<and> L = map fst ws else rc = Abort)"
  using s loop
proof (induction n arbitrary: cnt st)
  case 0
  then show ?case by simp
next
  case (Suc n)
  from lock_pass_alone_iff [OF Suc.prems(1), of ws] obtain r L1 st1 where
    p: "lock_pass ops alone ws [] st = Returns (r, L1, st1)" "locked_over ops locked s L1 st1"
      "r = AllLocked \<longleftrightarrow> lockable ops locked s ws" "r = AllLocked \<longrightarrow> L1 = map fst ws" by blast
  obtain st2 where rel: "release_all ops alone L1 st1 = Returns st2" "w_rows st2 = s"
    using release_all_alone [OF p(2)] by blast
  have nil: "locked_over ops locked s [] s'" if "w_rows s' = s" for s'
    using that by (simp add: locked_over_def holds_def)
  show ?case
  proof (cases r)
    case Busy
    obtain ok st3 where re3: "(if pre_abort cfg then recheck st2 else (True, st2)) = (ok, st3)"
      by fastforce
    then have "w_rows st3 = s" using re [of st2] rel(2) by (auto split: if_splits)
    then show ?thesis
      using Suc.prems(2) p rel(1) Busy re3 nil Suc.IH [of st3] cfg
      by (auto simp: Let_def split: if_splits prod.splits)
  qed (use Suc.prems(2) p in auto)
qed

end

end
