(* ===== verification/Bubble_Sort.thy ===== *)
theory Bubble_Sort
  imports DBx_Prelude
begin

text \<open>
  The bubble sort that the optimistic protocols run over their access sets before they take
  latches (concurrency_control/silo/silo.cpp, tictoc/tictoc.cpp, occ/occ.cpp): two nested loops
  that swap neighbouring array slots.  The comparison differs between the protocols, so it is a
  parameter; the locale states what the sort needs of it.
\<close>

text \<open>One iteration of the inner loop: \<open>if (gt a[j] a[j+1]) swap\<close>.\<close>

definition swap_if :: "('a \<Rightarrow> 'a \<Rightarrow> bool) \<Rightarrow> nat \<Rightarrow> 'a list \<Rightarrow> 'a list" where
  "swap_if gt j xs =
     (if gt (xs ! j) (xs ! (j + 1)) then xs[j := xs ! (j + 1), j + 1 := xs ! j] else xs)"

text \<open>The inner loop, \<open>for (j = 0; j < i; j++)\<close>, and the outer, \<open>for (i = n - 1; i >= 1; i--)\<close>.\<close>

definition bubble_pass :: "('a \<Rightarrow> 'a \<Rightarrow> bool) \<Rightarrow> nat \<Rightarrow> 'a list \<Rightarrow> 'a list" where
  "bubble_pass gt i xs = fold (swap_if gt) [0..<i] xs"

definition bubble_sort :: "('a \<Rightarrow> 'a \<Rightarrow> bool) \<Rightarrow> 'a list \<Rightarrow> 'a list" where
  "bubble_sort gt xs = fold (bubble_pass gt) (rev [1..<length xs]) xs"

lemma length_swap_if [simp]: "length (swap_if gt j xs) = length xs"
  by (simp add: swap_if_def)

lemma mset_swap_if: "Suc j < length xs \<Longrightarrow> mset (swap_if gt j xs) = mset xs"
  by (auto simp: swap_if_def list_update_swap mset_swap)

lemma drop_swap_if: "Suc j < k \<Longrightarrow> drop k (swap_if gt j xs) = drop k xs"
  by (simp add: swap_if_def)

lemma bubble_pass_0 [simp]: "bubble_pass gt 0 xs = xs"
  by (simp add: bubble_pass_def)

lemma bubble_pass_Suc: "bubble_pass gt (Suc i) xs = swap_if gt i (bubble_pass gt i xs)"
  by (simp add: bubble_pass_def)

lemma length_bubble_pass [simp]: "length (bubble_pass gt i xs) = length xs"
  by (induction i) (simp_all add: bubble_pass_Suc)

lemma mset_bubble_pass: "i < length xs \<Longrightarrow> mset (bubble_pass gt i xs) = mset xs"
  by (induction i) (simp_all add: bubble_pass_Suc mset_swap_if)

lemma drop_bubble_pass: "i < k \<Longrightarrow> drop k (bubble_pass gt i xs) = drop k xs"
  by (induction i) (simp_all add: bubble_pass_Suc drop_swap_if)

lemma mset_take_bubble_pass:
  assumes "i < length xs"
  shows "mset (take (Suc i) (bubble_pass gt i xs)) = mset (take (Suc i) xs)"
proof -
  have "mset (take (Suc i) ys) + mset (drop (Suc i) ys) = mset ys" for ys :: "'a list"
    by (metis append_take_drop_id mset_append)
  from this [of "bubble_pass gt i xs"] this [of xs] show ?thesis
    using assms by (metis add_right_cancel drop_bubble_pass lessI mset_bubble_pass)
qed

lemma set_take_bubble_pass:
  "i < length xs \<Longrightarrow> set (take (Suc i) (bubble_pass gt i xs)) = set (take (Suc i) xs)"
  by (metis mset_take_bubble_pass set_mset_mset)

lemma mset_fold_bubble_pass:
  "\<forall>i\<in>set is. i < length xs \<Longrightarrow> mset (fold (bubble_pass gt) is xs) = mset xs"
  by (induction "is" arbitrary: xs) (simp_all add: mset_bubble_pass)

lemma mset_bubble_sort: "mset (bubble_sort gt xs) = mset xs"
  by (simp add: bubble_sort_def mset_fold_bubble_pass)

lemma length_bubble_sort [simp]: "length (bubble_sort gt xs) = length xs"
  by (metis mset_bubble_sort size_mset)

lemma set_bubble_sort [simp]: "set (bubble_sort gt xs) = set xs"
  by (metis mset_bubble_sort set_mset_mset)

lemma distinct_bubble_sort [simp]: "distinct (bubble_sort gt xs) = distinct xs"
  by (metis mset_bubble_sort mset_eq_imp_distinct_iff)

section \<open>What the comparison has to satisfy\<close>

locale sort_order =
  fixes gt :: "'a \<Rightarrow> 'a \<Rightarrow> bool"
  assumes gt_asym: "gt a b \<Longrightarrow> \<not> gt b a"
    and gt_trans: "\<not> gt a b \<Longrightarrow> \<not> gt b c \<Longrightarrow> \<not> gt a c"
begin

text \<open>After a pass over the first \<open>i + 1\<close> slots, slot \<open>i\<close> holds a maximum of them.\<close>

lemma bubble_pass_max:
  "i < length xs \<Longrightarrow> k \<le> i \<Longrightarrow> \<not> gt (bubble_pass gt i xs ! k) (bubble_pass gt i xs ! i)"
proof (induction i arbitrary: k)
  case 0
  then show ?case using gt_asym by auto
next
  case (Suc i)
  let ?ys = "bubble_pass gt i xs"
  have len: "Suc i < length ?ys" using Suc.prems by simp
  have old: "\<not> gt (?ys ! j) (?ys ! i)" if "j \<le> i" for j
    using Suc.IH [of j] Suc.prems that by simp
  show ?case
  proof (cases "gt (?ys ! i) (?ys ! Suc i)")
    case True
    with len have new: "bubble_pass gt (Suc i) xs = ?ys[i := ?ys ! Suc i, Suc i := ?ys ! i]"
      by (simp add: bubble_pass_Suc swap_if_def)
    show ?thesis
    proof (cases "k < i")
      case True
      then show ?thesis using new len old [of k] by simp
    next
      case False
      with Suc.prems consider "k = i" | "k = Suc i" by linarith
      then show ?thesis
      proof cases
        case 1
        then show ?thesis using new len gt_asym True by simp
      next
        case 2
        then show ?thesis using new len gt_asym by auto
      qed
    qed
  next
    case False
    then have same: "bubble_pass gt (Suc i) xs = ?ys"
      by (simp add: bubble_pass_Suc swap_if_def)
    show ?thesis
    proof (cases "k = Suc i")
      case True
      then show ?thesis using gt_asym by auto
    next
      case neq: False
      with Suc.prems have "\<not> gt (?ys ! k) (?ys ! i)" by (simp add: old)
      with False same show ?thesis using gt_trans by auto
    qed
  qed
qed

lemma bubble_fold_sorted:
  assumes "m \<le> length xs"
    and "sorted_wrt (\<lambda>a b. \<not> gt a b) (drop m xs)"
    and "\<And>a b. a \<in> set (take m xs) \<Longrightarrow> b \<in> set (drop m xs) \<Longrightarrow> \<not> gt a b"
  shows "sorted_wrt (\<lambda>a b. \<not> gt a b) (fold (bubble_pass gt) (rev [1..<m]) xs)"
  using assms
proof (induction m arbitrary: xs)
  case 0
  then show ?case by simp
next
  case (Suc i)
  let ?ys = "bubble_pass gt i xs"
  have ilen: "i < length xs" using Suc.prems by simp
  have dropi: "drop i ?ys = ?ys ! i # drop (Suc i) xs"
    using ilen by (simp add: Cons_nth_drop_Suc [symmetric] drop_bubble_pass)
  have sub: "set (take i ?ys) \<subseteq> set (take (Suc i) xs)"
    using set_take_bubble_pass [OF ilen] set_take_subset_set_take [of i "Suc i" ?ys] by auto
  have imem: "?ys ! i \<in> set (take (Suc i) xs)"
    using set_take_bubble_pass [OF ilen, of gt, symmetric] ilen by (simp add: take_Suc_conv_app_nth)
  have le_i: "\<not> gt a (?ys ! i)" if "a \<in> set (take i ?ys)" for a
    using that ilen bubble_pass_max [OF ilen] by (auto simp: in_set_conv_nth)
  have sorted': "sorted_wrt (\<lambda>a b. \<not> gt a b) (drop i ?ys)"
    using Suc.prems imem by (simp add: dropi)
  have split': "\<And>a b. a \<in> set (take i ?ys) \<Longrightarrow> b \<in> set (drop i ?ys) \<Longrightarrow> \<not> gt a b"
    using Suc.prems(3) sub le_i by (auto simp: dropi)
  show ?case
  proof (cases "i = 0")
    case True
    then show ?thesis using sorted' by simp
  next
    case False
    then have "rev [1..<Suc i] = i # rev [1..<i]" by simp
    then show ?thesis using Suc.IH [of ?ys, OF _ sorted' split'] ilen by simp
  qed
qed

theorem sorted_bubble_sort: "sorted_wrt (\<lambda>a b. \<not> gt a b) (bubble_sort gt xs)"
  unfolding bubble_sort_def by (rule bubble_fold_sorted) simp_all

end

end
