(* ===== verification/Silo.thy ===== *)
theory Silo
  imports Lock_Word Bubble_Sort
begin

text \<open>
  Silo: the word operations of concurrency\_control/row\_silo.cpp (with \<open>ATOMIC_WORD\<close>, the setting of
  every shipped configuration) and \<open>txn_man::validate_silo\<close> of concurrency\_control/silo/silo.cpp.
  The row and its manager are one record: primary key, word and tuple.  The accesses of a
  transaction are a list in the order of \<open>accesses[]\<close>; the arrays \<open>write_set\<close> and \<open>read_set\<close> of
  indices into it are the two sublists.
\<close>

record 'd silo_acc =
  sa_type :: access_t
  sa_row :: row_ptr
  sa_data :: 'd
  sa_tid :: ts_t

record silo_cfg = lock_cfg +
  validation_no_wait :: bool

section \<open>Row\_silo\<close>

definition silo_get_tid :: "64 word \<Rightarrow> ts_t" where
  "silo_get_tid w = w AND NOT LOCK_BIT"

definition silo_validate :: "ts_t \<Rightarrow> bool \<Rightarrow> 64 word \<Rightarrow> bool" where
  "silo_validate tid in_write_set v =
     (if in_write_set then tid = v AND NOT LOCK_BIT
      else if lk_locked v then False
      else if tid \<noteq> v AND NOT LOCK_BIT then False
      else True)"

definition silo_write :: "'d \<Rightarrow> ts_t \<Rightarrow> 'd wrow \<Rightarrow> 'd wrow run" where
  "silo_write d tid row =
     (let v = wr_word row
      in if v AND NOT LOCK_BIT < tid \<and> lk_locked v
         then Returns (row\<lparr>wr_data := d, wr_word := tid OR LOCK_BIT\<rparr>) else Fails)"

text \<open>
  \<open>lock()\<close>.  The argument list of \<open>compare_exchange_weak\<close> is closed before the memory order, so the
  loop condition is a comma expression whose value is \<open>memory_order_relaxed\<close>, which is 0: the body
  never runs and the single attempt may have failed.  \<open>spurious\<close> is a spurious failure of the weak
  exchange.
\<close>

definition silo_lock :: "bool \<Rightarrow> 64 word \<Rightarrow> 64 word \<Rightarrow> 64 word" where
  "silo_lock spurious v w =
     (if lk_locked v then w
      else if w = v \<and> \<not> spurious then v OR LOCK_BIT
      else w)"

definition silo_release :: "64 word \<Rightarrow> 64 word run" where
  "silo_release w = (if lk_locked w then Returns (w AND NOT LOCK_BIT) else Fails)"

definition silo_try_lock :: "64 word \<Rightarrow> 64 word \<Rightarrow> bool \<times> 64 word" where
  "silo_try_lock v w =
     (if lk_locked v then (False, w)
      else if w = v then (True, v OR LOCK_BIT)
      else (False, w))"

definition silo_ops :: lock_ops where
  "silo_ops = \<lparr>l_try = silo_try_lock, l_release = silo_release, l_check = lk_locked, l_ver = silo_get_tid\<rparr>"

text \<open>
  \<open>access()\<close> reads a row without locking it while other threads may be writing it.  \<open>tr t\<close> is the
  row at time \<open>t\<close>, as a word and the bytes of the tuple; each load takes one unit of time, and so
  does each byte of \<open>copy\<close>.  Reloading the word inside the inner loop and starting the outer loop
  again are the same load.
\<close>

definition silo_copy :: "(nat \<Rightarrow> 'b list wrow) \<Rightarrow> nat \<Rightarrow> nat \<Rightarrow> 'b list" where
  "silo_copy tr t n = map (\<lambda>i. wr_data (tr (t + i)) ! i) [0..<n]"

fun silo_access :: "nat \<Rightarrow> (nat \<Rightarrow> 'b list wrow) \<Rightarrow> nat \<Rightarrow> nat \<Rightarrow> (RC \<times> 'b list \<times> ts_t) run" where
  "silo_access 0 tr n t = Spins"
| "silo_access (Suc k) tr n t =
     (let v = wr_word (tr t)
      in if lk_locked v then silo_access k tr n (t + 1)
         else let local_row = silo_copy tr (t + 1) n;
                  v2 = wr_word (tr (t + n + 1))
              in if v2 \<noteq> v then silo_access k tr n (t + n + 2)
                 else Returns (RCOK, local_row, v AND NOT LOCK_BIT))"

section \<open>validate\_silo\<close>

definition silo_write_set :: "silo_cfg \<Rightarrow> 'd wstore \<Rightarrow> 'd silo_acc list \<Rightarrow> 'd silo_acc list" where
  "silo_write_set cfg s accs =
     (let ws = filter (\<lambda>a. sa_type a = WR) accs
      in if bounded_spinning cfg then ws
         else bubble_sort (\<lambda>a b. wr_pk (s (sa_row a)) > wr_pk (s (sa_row b))) ws)"

definition silo_read_set :: "'d silo_acc list \<Rightarrow> 'd silo_acc list" where
  "silo_read_set accs = filter (\<lambda>a. sa_type a \<noteq> WR) accs"

text \<open>The pre-abort check of one set, and of both: lines 52 to 67 and 90 to 106.\<close>

fun tids_current :: "'d others \<Rightarrow> 'd silo_acc list \<Rightarrow> 'd wst \<Rightarrow> bool \<times> 'd wst" where
  "tids_current env [] st = (True, st)"
| "tids_current env (a # as) st =
     (let st1 = shared env {} st
      in if silo_get_tid (word_of st1 (sa_row a)) \<noteq> sa_tid a then (False, st1)
         else tids_current env as st1)"

definition silo_check :: "'d others \<Rightarrow> 'd silo_acc list \<Rightarrow> 'd silo_acc list \<Rightarrow> 'd wst \<Rightarrow> bool \<times> 'd wst" where
  "silo_check env ws rs st =
     (let (ok, st1) = tids_current env ws st
      in if ok then tids_current env rs st1 else (False, st1))"

definition lock_pairs :: "'d silo_acc list \<Rightarrow> (row_ptr \<times> ts_t) list" where
  "lock_pairs ws = map (\<lambda>a. (sa_row a, sa_tid a)) ws"

text \<open>The waiting mode: lines 121 to 129.\<close>

fun silo_lock_waiting :: "'d others \<Rightarrow> (nat \<Rightarrow> bool) \<Rightarrow> 'd silo_acc list \<Rightarrow> row_ptr list \<Rightarrow> 'd wst
    \<Rightarrow> RC \<times> row_ptr list \<times> 'd wst" where
  "silo_lock_waiting env spurious [] L st = (RCOK, L, st)"
| "silo_lock_waiting env spurious (a # as) L st =
     (let r = sa_row a; st1 = shared env (set L) st; v = word_of st1 r;
          st2 = shared env (set L) st1;
          st3 = set_word r (silo_lock (spurious (w_clock st2)) v (word_of st2 r)) st2;
          L1 = L @ [r]; st4 = shared env (set L1) st3
      in if silo_get_tid (word_of st4 r) \<noteq> sa_tid a then (Abort, L1, st4)
         else silo_lock_waiting env spurious as L1 st4)"

definition silo_locks :: "silo_cfg \<Rightarrow> 'd others \<Rightarrow> (nat \<Rightarrow> bool) \<Rightarrow> nat \<Rightarrow> 'd silo_acc list
    \<Rightarrow> 'd silo_acc list \<Rightarrow> 'd wst \<Rightarrow> (RC \<times> row_ptr list \<times> 'd wst) run" where
  "silo_locks cfg env spurious n ws rs st =
     (let (ok, st1) = (if pre_abort cfg then silo_check env ws rs st else (True, st))
      in if \<not> ok then Returns (Abort, [], st1)
         else if validation_no_wait cfg
         then lock_loop silo_ops env (lock_cfg.truncate cfg) (silo_check env ws rs) (lock_pairs ws) n 0 st1
         else Returns (silo_lock_waiting env spurious ws [] st1))"

text \<open>
  The validation of one set, lines 134 to 143 and 145 to 154: the new \<open>max_tid\<close>, or \<open>None\<close> when a row fails.
\<close>

fun silo_validate_set :: "'d others \<Rightarrow> row_ptr set \<Rightarrow> bool \<Rightarrow> 'd silo_acc list \<Rightarrow> ts_t \<Rightarrow> 'd wst
    \<Rightarrow> ts_t option \<times> 'd wst" where
  "silo_validate_set env H wr [] max_tid st = (Some max_tid, st)"
| "silo_validate_set env H wr (a # as) max_tid st =
     (let st1 = shared env H st
      in if \<not> silo_validate (sa_tid a) wr (word_of st1 (sa_row a)) then (None, st1)
         else silo_validate_set env H wr as (if max_tid < sa_tid a then sa_tid a else max_tid) st1)"

definition silo_next_tid :: "ts_t \<Rightarrow> ts_t \<Rightarrow> ts_t" where
  "silo_next_tid max_tid cur_tid = (if cur_tid < max_tid then max_tid + 1 else cur_tid + 1)"

text \<open>Writing the rows back and unlocking them: lines 169 to 174.\<close>

fun silo_install :: "'d others \<Rightarrow> 'd silo_acc list \<Rightarrow> ts_t \<Rightarrow> 'd wst \<Rightarrow> 'd wst run" where
  "silo_install env [] tid st = Returns st"
| "silo_install env (a # as) tid st =
     (let r = sa_row a; H = sa_row ` set (a # as); st1 = shared env H st
      in case silo_write (sa_data a) tid (w_rows st1 r) of
           Returns row \<Rightarrow>
             (let st2 = shared env H (st1\<lparr>w_rows := (w_rows st1)(r := row)\<rparr>)
              in case silo_release (word_of st2 r) of
                   Returns w \<Rightarrow> silo_install env as tid (set_word r w st2)
                 | Spins \<Rightarrow> Spins
                 | Fails \<Rightarrow> Fails)
         | Spins \<Rightarrow> Spins
         | Fails \<Rightarrow> Fails)"

definition silo_abort :: "'d others \<Rightarrow> row_ptr list \<Rightarrow> ts_t \<Rightarrow> 'd wst \<Rightarrow> (RC \<times> ts_t \<times> 'd wst) run" where
  "silo_abort env L cur st =
     (case release_all silo_ops env L st of
        Returns st1 \<Rightarrow> Returns (Abort, cur, st1)
      | Spins \<Rightarrow> Spins
      | Fails \<Rightarrow> Fails)"

text \<open>
  The whole of \<open>validate_silo\<close> up to \<open>cleanup\<close>; the result is the return code, the new \<open>_cur_tid\<close> and
  the store.
\<close>

definition validate_silo :: "silo_cfg \<Rightarrow> 'd others \<Rightarrow> (nat \<Rightarrow> bool) \<Rightarrow> nat \<Rightarrow> ts_t
    \<Rightarrow> 'd silo_acc list \<Rightarrow> 'd wst \<Rightarrow> (RC \<times> ts_t \<times> 'd wst) run" where
  "validate_silo cfg env spurious n cur_tid accs st =
     (let ws = silo_write_set cfg (w_rows st) accs; rs = silo_read_set accs
      in case silo_locks cfg env spurious n ws rs st of
           Spins \<Rightarrow> Spins
         | Fails \<Rightarrow> Fails
         | Returns (rc, L, st1) \<Rightarrow>
             if rc = Abort then silo_abort env L cur_tid st1
             else
               (case silo_validate_set env (set L) False rs 0 st1 of
                  (None, st2) \<Rightarrow> silo_abort env L cur_tid st2
                | (Some m, st2) \<Rightarrow>
                    (case silo_validate_set env (set L) True ws m st2 of
                       (None, st3) \<Rightarrow> silo_abort env L cur_tid st3
                     | (Some m, st3) \<Rightarrow>
                         (let cur = silo_next_tid m cur_tid
                          in case silo_install env ws cur st3 of
                               Returns st4 \<Rightarrow> Returns (RCOK, cur, st4)
                             | Spins \<Rightarrow> Spins
                             | Fails \<Rightarrow> Fails))))"

section \<open>The word operations keep the lock-word contract\<close>

lemmas silo_word_defs = silo_ops_def silo_try_lock_def silo_release_def silo_get_tid_def

interpretation silo_word: lock_word silo_ops lk_locked
  by unfold_locales (auto simp: silo_word_defs split: if_splits)

interpretation silo_pk: sort_order "\<lambda>a b. wr_pk (s (sa_row a)) > wr_pk (s (sa_row b))"
  for s :: "'d wstore"
  by unfold_locales auto

lemma set_silo_write_set [simp]: "set (silo_write_set cfg s accs) = {a \<in> set accs. sa_type a = WR}"
  by (simp add: silo_write_set_def Let_def)

lemma silo_next_tid_bounds:
  assumes "m < LOCK_BIT - 1" and "cur < LOCK_BIT - 1"
  shows "m < silo_next_tid m cur \<and> cur < silo_next_tid m cur \<and> silo_next_tid m cur < LOCK_BIT"
proof -
  have "LOCK_BIT - 1 < LOCK_BIT" by (simp add: LOCK_BIT_def)
  then show ?thesis
    using word_less_plus1 [OF assms(1)] word_less_plus1 [OF assms(2)]
    by (auto simp: silo_next_tid_def)
qed

lemma silo_validate_set_ok:
  assumes env: "env_respects env"
    and run: "silo_validate_set env H wr as m st = (res, st')"
  shows "(\<forall>r\<in>H. w_rows st' r = w_rows st r) \<and>
    (\<forall>m'. res = Some m' \<longrightarrow> m \<le> m' \<and> (\<forall>a\<in>set as. sa_tid a \<le> m') \<and>
       m' \<in> insert m (sa_tid ` set as))"
  using run
proof (induction as arbitrary: m st)
  case Nil
  then show ?case by auto
next
  case (Cons a as)
  let ?s = "shared env H st" and ?m = "if m < sa_tid a then sa_tid a else m"
  show ?case
  proof (cases "silo_validate (sa_tid a) wr (word_of ?s (sa_row a))")
    case True
    then have "silo_validate_set env H wr as ?m ?s = (res, st')" using Cons.prems by (simp add: Let_def)
    note IH = Cons.IH [OF this]
    have "\<forall>r\<in>H. w_rows st' r = w_rows st r" using IH shared_held [OF env, of _ H st] by simp
    moreover have "m \<le> ?m" "sa_tid a \<le> ?m" "?m \<in> {m, sa_tid a}" by auto
    ultimately show ?thesis using IH by (auto intro: order.trans)
  next
    case False
    then show ?thesis using Cons.prems shared_held [OF env, of _ H st] by (auto simp: Let_def)
  qed
qed

lemma silo_install_ok:
  assumes env: "env_respects env" and tid: "\<not> lk_locked tid"
  shows "distinct (map sa_row as) \<Longrightarrow>
    (\<forall>a\<in>set as. lk_locked (word_of st (sa_row a)) \<and> silo_get_tid (word_of st (sa_row a)) < tid) \<Longrightarrow>
    \<exists>st'. silo_install env as tid st = Returns st'"
proof (induction as arbitrary: st)
  case Nil
  then show ?case by simp
next
  case (Cons a as)
  let ?H = "sa_row ` set (a # as)" and ?r = "sa_row a"
  let ?s1 = "shared env ?H st"
  have same: "w_rows ?s1 q = w_rows st q" if "q \<in> ?H" for q
    using shared_held [OF env that] .
  let ?row = "(w_rows ?s1 ?r)\<lparr>wr_data := sa_data a, wr_word := tid OR LOCK_BIT\<rparr>"
  let ?s2 = "shared env ?H (?s1\<lparr>w_rows := (w_rows ?s1)(?r := ?row)\<rparr>)"
  have wr: "silo_write (sa_data a) tid (w_rows ?s1 ?r) = Returns ?row"
    using Cons.prems(2) same [of ?r] by (simp add: silo_write_def silo_get_tid_def)
  have w2: "word_of ?s2 ?r = tid OR LOCK_BIT"
    using shared_held [OF env, of ?r ?H "?s1\<lparr>w_rows := (w_rows ?s1)(?r := ?row)\<rparr>"] by simp
  have rel: "silo_release (word_of ?s2 ?r) = Returns tid"
    using w2 tid by (simp add: silo_release_def)
  let ?s3 = "set_word ?r tid ?s2"
  have keep: "w_rows ?s3 q = w_rows st q" if "q \<in> sa_row ` set as" for q
  proof -
    have "q \<noteq> ?r" using that Cons.prems(1) by (metis distinct.simps(2) list.simps(9) set_map)
    moreover have "q \<in> ?H" using that by simp
    ultimately show ?thesis
      using same [of q] shared_held [OF env, of q ?H "?s1\<lparr>w_rows := (w_rows ?s1)(?r := ?row)\<rparr>"] by simp
  qed
  have "\<exists>st'. silo_install env as tid ?s3 = Returns st'"
    using Cons.IH [of ?s3] Cons.prems keep by simp
  then show ?case using wr rel by (simp add: Let_def)
qed

lemma silo_abort_ok:
  "env_respects env \<Longrightarrow> holds lk_locked L st \<Longrightarrow> \<exists>st'. silo_abort env L cur st = Returns (Abort, cur, st')"
  using silo_word.release_all_ok [of env L st] by (auto simp: silo_abort_def)

lemma holds_mono:
  "holds P L st \<Longrightarrow> \<forall>r\<in>set L. w_rows st' r = w_rows st r \<Longrightarrow> holds P L st'"
  by (simp add: holds_def)

text \<open>
  What the locking phase of the no-wait mode gives: with pre-abort checks or unbounded spinning the
  rows that \<open>num_locks\<close> counts are held in every case.
\<close>

lemma silo_locks_ok:
  assumes env: "env_respects env" and nw: "validation_no_wait cfg"
    and cfg: "pre_abort cfg \<or> \<not> bounded_spinning cfg"
  shows "silo_locks cfg env spurious n ws rs st = Spins \<or>
    (\<exists>rc L st'. silo_locks cfg env spurious n ws rs st = Returns (rc, L, st') \<and> holds lk_locked L st' \<and>
      (rc = Abort \<or> (rc = RCOK \<and> L = map sa_row ws \<and>
        (\<forall>a\<in>set ws. silo_get_tid (word_of st' (sa_row a)) = sa_tid a))))"
proof -
  obtain ok st1 where pre: "(if pre_abort cfg then silo_check env ws rs st else (True, st)) = (ok, st1)"
    by fastforce
  show ?thesis
  proof (cases ok)
    case False
    then show ?thesis using pre by (simp add: silo_locks_def holds_def)
  next
    case True
    let ?run = "lock_loop silo_ops env (lock_cfg.truncate cfg) (silo_check env ws rs) (lock_pairs ws) n 0 st1"
    have run: "silo_locks cfg env spurious n ws rs st = ?run"
      using pre True nw by (simp add: silo_locks_def)
    have "lock_outcome silo_ops lk_locked (lock_cfg.truncate cfg) (lock_pairs ws) ?run"
      by (rule silo_word.lock_loop_ok [OF env])
    then show ?thesis unfolding run using cfg
      by (auto simp: lock_outcome_def lock_pairs_def lock_cfg.truncate_def silo_ops_def comp_def
          split: run.splits)
  qed
qed


section \<open>Validation with nobody else running\<close>

text \<open>
  When the transaction can commit: its writes go to different free rows with the version it read,
  its reads are of free rows with the version it read that it does not write.
\<close>

definition silo_ready :: "'d wstore \<Rightarrow> 'd silo_acc list \<Rightarrow> bool" where
  "silo_ready s accs \<longleftrightarrow>
     distinct (map sa_row (filter (\<lambda>a. sa_type a = WR) accs)) \<and>
     (\<forall>a\<in>set accs. wr_word (s (sa_row a)) = sa_tid a \<and> \<not> lk_locked (sa_tid a)) \<and>
     (\<forall>a\<in>set accs. \<forall>b\<in>set accs. sa_type a \<noteq> WR \<longrightarrow> sa_type b = WR \<longrightarrow> sa_row a \<noteq> sa_row b)"

text \<open>The store after the commit: written rows have the new tuple and version, the others are as before.\<close>

definition silo_installed :: "'d silo_acc list \<Rightarrow> ts_t \<Rightarrow> 'd wstore \<Rightarrow> 'd wstore" where
  "silo_installed accs tid s r =
     (case find (\<lambda>a. sa_type a = WR \<and> sa_row a = r) accs of
        None \<Rightarrow> s r
      | Some a \<Rightarrow> (s r)\<lparr>wr_data := sa_data a, wr_word := tid\<rparr>)"

lemma tids_current_alone:
  "\<exists>st'. tids_current alone as st =
     ((\<forall>a\<in>set as. silo_get_tid (word_of st (sa_row a)) = sa_tid a), st') \<and> w_rows st' = w_rows st"
proof (induction as arbitrary: st)
  case Nil
  then show ?case by simp
next
  case (Cons a as)
  from Cons [of "shared alone {} st"] show ?case by (auto simp: Let_def)
qed

lemma silo_check_alone:
  "\<exists>st'. silo_check alone ws rs st =
     ((\<forall>a\<in>set ws \<union> set rs. silo_get_tid (word_of st (sa_row a)) = sa_tid a), st') \<and> w_rows st' = w_rows st"
proof -
  obtain st1 where 1: "tids_current alone ws st =
     ((\<forall>a\<in>set ws. silo_get_tid (word_of st (sa_row a)) = sa_tid a), st1)" "w_rows st1 = w_rows st"
    using tids_current_alone by blast
  obtain st2 where 2: "tids_current alone rs st1 =
     ((\<forall>a\<in>set rs. silo_get_tid (word_of st1 (sa_row a)) = sa_tid a), st2)" "w_rows st2 = w_rows st1"
    using tids_current_alone by blast
  show ?thesis using 1 2 by (cases "\<forall>a\<in>set ws. silo_get_tid (word_of st (sa_row a)) = sa_tid a")
      (auto simp: silo_check_def ball_Un)
qed

lemma silo_validate_set_alone:
  "\<exists>m' st'. silo_validate_set alone H wr as m st = (m', st') \<and> w_rows st' = w_rows st \<and>
     (m' \<noteq> None \<longleftrightarrow> (\<forall>a\<in>set as. silo_validate (sa_tid a) wr (word_of st (sa_row a))))"
proof (induction as arbitrary: m st)
  case Nil
  then show ?case by simp
next
  case (Cons a as)
  from Cons [of "if m < sa_tid a then sa_tid a else m" "shared alone H st"] show ?case
    by (auto simp: Let_def)
qed

lemma silo_install_alone:
  assumes tid: "\<not> lk_locked tid"
  shows "distinct (map sa_row as) \<Longrightarrow>
    (\<forall>a\<in>set as. lk_locked (word_of st (sa_row a)) \<and> silo_get_tid (word_of st (sa_row a)) < tid) \<Longrightarrow>
    \<exists>st'. silo_install alone as tid st = Returns st' \<and>
      (\<forall>r. r \<notin> sa_row ` set as \<longrightarrow> w_rows st' r = w_rows st r) \<and>
      (\<forall>a\<in>set as. w_rows st' (sa_row a) = (w_rows st (sa_row a))\<lparr>wr_data := sa_data a, wr_word := tid\<rparr>)"
proof (induction as arbitrary: st)
  case Nil
  then show ?case by simp
next
  case (Cons a as)
  let ?H = "sa_row ` set (a # as)" and ?r = "sa_row a"
  let ?s1 = "shared alone ?H st"
  let ?row = "(w_rows st ?r)\<lparr>wr_data := sa_data a, wr_word := tid OR LOCK_BIT\<rparr>"
  let ?s2 = "shared alone ?H (?s1\<lparr>w_rows := (w_rows ?s1)(?r := ?row)\<rparr>)"
  let ?s3 = "set_word ?r tid ?s2"
  have wr: "silo_write (sa_data a) tid (w_rows ?s1 ?r) = Returns ?row"
    using Cons.prems(2) by (simp add: silo_write_def silo_get_tid_def)
  have rel: "silo_release (word_of ?s2 ?r) = Returns tid"
    using tid by (simp add: silo_release_def)
  have new: "?r \<notin> sa_row ` set as" using Cons.prems(1) by (metis distinct.simps(2) list.simps(9) set_map)
  then have keep: "w_rows ?s3 q = w_rows st q" if "q \<noteq> ?r" for q using that by simp
  have "\<forall>b\<in>set as. lk_locked (word_of ?s3 (sa_row b)) \<and> silo_get_tid (word_of ?s3 (sa_row b)) < tid"
    using Cons.prems(2) new keep by (metis image_eqI list.set_intros(2))
  then obtain st' where
    IH: "silo_install alone as tid ?s3 = Returns st'"
      "\<forall>r. r \<notin> sa_row ` set as \<longrightarrow> w_rows st' r = w_rows ?s3 r"
      "\<forall>b\<in>set as. w_rows st' (sa_row b) = (w_rows ?s3 (sa_row b))\<lparr>wr_data := sa_data b, wr_word := tid\<rparr>"
    using Cons.IH [of ?s3] Cons.prems(1) by auto
  have "silo_install alone (a # as) tid st = Returns st'" using wr rel IH(1) by (simp add: Let_def)
  moreover have "w_rows st' ?r = (w_rows st ?r)\<lparr>wr_data := sa_data a, wr_word := tid\<rparr>"
    using IH(2) new by simp
  moreover have "w_rows st' (sa_row b) = (w_rows st (sa_row b))\<lparr>wr_data := sa_data b, wr_word := tid\<rparr>"
    if "b \<in> set as" for b
    using IH(3) that keep [of "sa_row b"] new by (metis image_eqI)
  ultimately show ?case using IH(2) keep by auto
qed

lemma distinct_silo_write_set:
  "distinct (map sa_row (silo_write_set cfg s accs)) = distinct (map sa_row (filter (\<lambda>a. sa_type a = WR) accs))"
proof -
  have "mset (silo_write_set cfg s accs) = mset (filter (\<lambda>a. sa_type a = WR) accs)"
    by (simp add: silo_write_set_def Let_def mset_bubble_sort)
  then have "mset (map sa_row (silo_write_set cfg s accs)) = mset (map sa_row (filter (\<lambda>a. sa_type a = WR) accs))"
    by simp
  then show ?thesis by (rule mset_eq_imp_distinct_iff)
qed

lemma unlocked_tid: "\<not> lk_locked w \<Longrightarrow> silo_get_tid w = w"
  by (simp add: silo_get_tid_def)

lemma silo_ready_lockable:
  "silo_ready s accs \<longleftrightarrow> lockable silo_ops lk_locked s (lock_pairs (silo_write_set cfg s accs)) \<and>
     (\<forall>a\<in>set (silo_read_set accs). sa_row a \<notin> sa_row ` set (silo_write_set cfg s accs) \<and>
        silo_validate (sa_tid a) False (wr_word (s (sa_row a))))"
proof -
  have v: "silo_validate t False w \<longleftrightarrow> w = t \<and> \<not> lk_locked t" for t w
    by (auto simp: silo_validate_def)
  have l: "\<not> lk_locked w \<and> silo_get_tid w = t \<longleftrightarrow> w = t \<and> \<not> lk_locked t" for t w
    by (auto simp: unlocked_tid)
  have pairs: "map fst (lock_pairs ws) = map sa_row ws" for ws :: "'a silo_acc list"
    by (simp add: lock_pairs_def comp_def)
  have "lockable silo_ops lk_locked s (lock_pairs (silo_write_set cfg s accs)) \<longleftrightarrow>
      distinct (map sa_row (filter (\<lambda>a. sa_type a = WR) accs)) \<and>
      (\<forall>a\<in>set accs. sa_type a = WR \<longrightarrow> wr_word (s (sa_row a)) = sa_tid a \<and> \<not> lk_locked (sa_tid a))"
    unfolding lockable_def pairs distinct_silo_write_set
    using l by (auto simp: lock_pairs_def silo_ops_def)
  then show ?thesis unfolding silo_ready_def v by (auto simp: silo_read_set_def)
qed

lemma silo_locks_alone:
  assumes s: "w_rows st = s" and nw: "validation_no_wait cfg" and pre: "pre_abort cfg"
    and bnd: "bounded_spinning cfg" "spin_cycles cfg = mask k" "k \<le> 32" "k < n"
    and ws: "ws = silo_write_set cfg s accs" and rs: "rs = silo_read_set accs"
  shows "\<exists>rc L st'. silo_locks cfg alone spurious n ws rs st = Returns (rc, L, st') \<and>
    locked_over silo_ops lk_locked s L st' \<and>
    (rc = RCOK \<and> L = map sa_row ws \<and> lockable silo_ops lk_locked s (lock_pairs ws) \<or>
     rc = Abort \<and> \<not> silo_ready s accs)"
proof -
  let ?ok = "\<forall>a\<in>set ws \<union> set rs. silo_get_tid (word_of st (sa_row a)) = sa_tid a"
  let ?cfg = "lock_cfg.truncate cfg"
  obtain st1 where c: "silo_check alone ws rs st = (?ok, st1)" "w_rows st1 = s"
    using silo_check_alone [of ws rs st] s by auto
  show ?thesis
  proof (cases ?ok)
    case False
    then have "\<not> silo_ready s accs"
      using s unfolding silo_ready_def ws rs by (auto simp: silo_read_set_def unlocked_tid)
    moreover have "locked_over silo_ops lk_locked s [] st1" using c(2) by (simp add: locked_over_def holds_def)
    moreover have "silo_locks cfg alone spurious n ws rs st = Returns (Abort, [], st1)"
      unfolding silo_locks_def using c pre False by auto
    ultimately show ?thesis by blast
  next
    case True
    let ?run = "lock_loop silo_ops alone ?cfg (silo_check alone ws rs) (lock_pairs ws) n 0 st1"
    have run: "silo_locks cfg alone spurious n ws rs st = ?run"
      unfolding silo_locks_def using c pre True nw by auto
    have cfg: "bounded_spinning ?cfg" "spin_cycles ?cfg = mask k" "pre_abort ?cfg"
      using bnd pre by (simp_all add: lock_cfg.truncate_def)
    have "?run \<noteq> Spins"
      using silo_word.lock_loop_ends [OF respects_alone cfg(1,2) bnd(3), of 0 n] bnd(4) by simp
    moreover have "lock_outcome silo_ops lk_locked ?cfg (lock_pairs ws) ?run"
      by (rule silo_word.lock_loop_ok [OF respects_alone])
    ultimately obtain rc L st2 where r: "?run = Returns (rc, L, st2)"
      by (auto simp: lock_outcome_def split: run.splits)
    have re: "silo_check alone ws rs x = (ok, y) \<Longrightarrow> w_rows y = w_rows x" for x ok y
      using silo_check_alone [of ws rs x] by auto
    have "locked_over silo_ops lk_locked s L st2 \<and>
        (if lockable silo_ops lk_locked s (lock_pairs ws) then rc = RCOK \<and> L = map fst (lock_pairs ws) else rc = Abort)"
      by (rule silo_word.lock_loop_alone [OF c(2) _ _ r]) (use cfg(3) in \<open>simp_all add: re\<close>)
    moreover have "\<not> lockable silo_ops lk_locked s (lock_pairs ws) \<Longrightarrow> \<not> silo_ready s accs"
      using silo_ready_lockable [of s accs cfg] ws by simp
    moreover have "map fst (lock_pairs ws) = map sa_row ws" by (simp add: lock_pairs_def comp_def)
    ultimately show ?thesis unfolding run r by (simp split: if_splits)
  qed
qed

lemma silo_abort_alone:
  "locked_over silo_ops lk_locked s L st \<Longrightarrow>
     \<exists>st'. silo_abort alone L cur st = Returns (Abort, cur, st') \<and> w_rows st' = s"
  using silo_word.release_all_alone [of s L st] by (auto simp: silo_abort_def)

lemma locked_over_rows:
  "locked_over ops P s L st \<Longrightarrow> w_rows st' = w_rows st \<Longrightarrow> locked_over ops P s L st'"
  by (simp add: locked_over_def holds_def)

lemma silo_installed_eq:
  assumes d: "distinct (map sa_row (filter (\<lambda>a. sa_type a = WR) accs))"
    and out: "\<forall>r. r \<notin> sa_row ` {a \<in> set accs. sa_type a = WR} \<longrightarrow> s' r = s r"
    and inn: "\<forall>a\<in>{a \<in> set accs. sa_type a = WR}. s' (sa_row a) = (s (sa_row a))\<lparr>wr_data := sa_data a, wr_word := tid\<rparr>"
  shows "s' = silo_installed accs tid s"
proof
  fix r
  show "s' r = silo_installed accs tid s r"
  proof (cases "find (\<lambda>a. sa_type a = WR \<and> sa_row a = r) accs")
    case None
    then have "r \<notin> sa_row ` {a \<in> set accs. sa_type a = WR}" by (auto simp: find_None_iff)
    then show ?thesis using out None by (simp add: silo_installed_def)
  next
    case (Some a)
    then have "a \<in> set accs" "sa_type a = WR" "sa_row a = r" by (auto simp: find_Some_iff)
    then show ?thesis using inn Some by (auto simp: silo_installed_def)
  qed
qed

lemma silo_install_over:
  assumes over: "locked_over silo_ops lk_locked s (map sa_row (silo_write_set cfg s accs)) st"
    and tid: "\<not> lk_locked tid"
    and ver: "\<forall>a\<in>set (silo_write_set cfg s accs). silo_get_tid (word_of st (sa_row a)) < tid"
  shows "\<exists>st'. silo_install alone (silo_write_set cfg s accs) tid st = Returns st' \<and>
    w_rows st' = silo_installed accs tid s"
proof -
  let ?ws = "silo_write_set cfg s accs"
  have d: "distinct (map sa_row ?ws)" and lk: "\<forall>a\<in>set ?ws. lk_locked (word_of st (sa_row a))"
    using over by (auto simp: locked_over_def holds_def)
  then obtain st' where i: "silo_install alone ?ws tid st = Returns st'"
    "\<forall>r. r \<notin> sa_row ` set ?ws \<longrightarrow> w_rows st' r = w_rows st r"
    "\<forall>a\<in>set ?ws. w_rows st' (sa_row a) = (w_rows st (sa_row a))\<lparr>wr_data := sa_data a, wr_word := tid\<rparr>"
    using silo_install_alone [OF tid d, of st] ver by blast
  have rows: "r \<notin> sa_row ` set ?ws \<Longrightarrow> w_rows st r = s r"
    "r \<in> sa_row ` set ?ws \<Longrightarrow> w_rows st r = (s r)\<lparr>wr_word := word_of st r\<rparr>" for r
    using over by (auto simp: locked_over_def)
  have upd: "(w_rows st (sa_row a))\<lparr>wr_data := x, wr_word := y\<rparr> = (s (sa_row a))\<lparr>wr_data := x, wr_word := y\<rparr>"
    if "a \<in> set ?ws" for a x y
    using rows(2) [of "sa_row a"] that by (cases "s (sa_row a)") (metis image_eqI wrow.update_convs(2,3))
  have "w_rows st' = silo_installed accs tid s"
    using d i(2,3) rows(1) upd
    by (intro silo_installed_eq) (auto simp: distinct_silo_write_set)
  with i(1) show ?thesis by blast
qed

lemma silo_ready_reads:
  assumes over: "locked_over silo_ops lk_locked s (map sa_row (silo_write_set cfg s accs)) st"
    and l: "lockable silo_ops lk_locked s (lock_pairs (silo_write_set cfg s accs))"
  shows "silo_ready s accs \<longleftrightarrow>
    (\<forall>a\<in>set (silo_read_set accs). silo_validate (sa_tid a) False (word_of st (sa_row a)))"
proof -
  let ?L = "sa_row ` set (silo_write_set cfg s accs)"
  have "silo_validate t False (word_of st r) \<longleftrightarrow> r \<notin> ?L \<and> silo_validate t False (wr_word (s r))" for t r
  proof (cases "r \<in> ?L")
    case True
    then have "lk_locked (word_of st r)" using over by (auto simp: locked_over_def holds_def)
    then show ?thesis using True by (simp add: silo_validate_def)
  next
    case False
    then have "w_rows st r = s r" using over by (auto simp: locked_over_def)
    then show ?thesis using False by simp
  qed
  then show ?thesis using silo_ready_lockable [of s accs cfg] l by simp
qed

lemma lockable_ver:
  assumes over: "locked_over silo_ops lk_locked s (map sa_row ws) st"
    and l: "lockable silo_ops lk_locked s (lock_pairs ws)" and a: "a \<in> set ws"
  shows "silo_get_tid (word_of st (sa_row a)) = sa_tid a"
proof -
  have "silo_get_tid (wr_word (s (sa_row a))) = sa_tid a"
    using l a by (force simp: lockable_def lock_pairs_def silo_ops_def)
  then show ?thesis using over a by (simp add: locked_over_def silo_ops_def)
qed

text \<open>
  C7. With the shipped settings (no-wait validation, pre-abort checks, bounded spinning with bound
  \<open>2^k - 1\<close>) and nobody else running, validation always returns.  It commits exactly when every row
  is free and has the version that was read, the written rows are different and no read row is also
  written; then the written rows hold the new tuples under a version above every version read and
  above the thread's last one, and no other row changed.  Otherwise it aborts and every row, lock
  words included, is as before.
\<close>

theorem validate_silo_alone:
  assumes nw: "validation_no_wait cfg" and pre: "pre_abort cfg"
    and bnd: "bounded_spinning cfg" "spin_cycles cfg = mask k" "k \<le> 32" "k < n"
    and cur: "cur_tid < LOCK_BIT - 1" and tids: "\<forall>a\<in>set accs. sa_tid a < LOCK_BIT - 1"
  shows "\<exists>rc cur st'. validate_silo cfg alone spurious n cur_tid accs st = Returns (rc, cur, st') \<and>
    (if silo_ready (w_rows st) accs
     then rc = RCOK \<and> cur_tid < cur \<and> (\<forall>a\<in>set accs. sa_tid a < cur) \<and>
          w_rows st' = silo_installed accs cur (w_rows st)
     else rc = Abort \<and> cur = cur_tid \<and> w_rows st' = w_rows st)"
proof -
  define s where "s = w_rows st"
  let ?ws = "silo_write_set cfg s accs" and ?rs = "silo_read_set accs"
  let ?v = "validate_silo cfg alone spurious n cur_tid accs st"
  obtain rc L st1 where l: "silo_locks cfg alone spurious n ?ws ?rs st = Returns (rc, L, st1)"
      "locked_over silo_ops lk_locked s L st1"
      "rc = RCOK \<and> L = map sa_row ?ws \<and> lockable silo_ops lk_locked s (lock_pairs ?ws) \<or>
       rc = Abort \<and> \<not> silo_ready s accs"
    using silo_locks_alone [OF s_def [symmetric] nw pre bnd refl refl] by blast
  obtain m2 st2 where v2: "silo_validate_set alone (set L) False ?rs 0 st1 = (m2, st2)" "w_rows st2 = w_rows st1"
      "m2 \<noteq> None \<longleftrightarrow> (\<forall>a\<in>set ?rs. silo_validate (sa_tid a) False (word_of st1 (sa_row a)))"
    using silo_validate_set_alone [of "set L" False ?rs 0 st1] by blast
  have over2: "locked_over silo_ops lk_locked s L st2" using locked_over_rows [OF l(2) v2(2)] .
  have abort: "?v = silo_abort alone L cur_tid x \<Longrightarrow> locked_over silo_ops lk_locked s L x \<Longrightarrow>
      \<not> silo_ready s accs \<Longrightarrow> ?thesis" for x
    using silo_abort_alone [of s L x cur_tid] unfolding s_def by auto
  consider "rc = Abort" "\<not> silo_ready s accs"
    | "rc = RCOK" "L = map sa_row ?ws" "lockable silo_ops lk_locked s (lock_pairs ?ws)" "m2 = None"
    | m where "rc = RCOK" "L = map sa_row ?ws" "lockable silo_ops lk_locked s (lock_pairs ?ws)" "m2 = Some m"
    using l(3) by (cases m2) auto
  then show ?thesis
  proof cases
    case 1
    then have "?v = silo_abort alone L cur_tid st1"
      using l(1) s_def by (simp add: validate_silo_def Let_def)
    then show ?thesis using abort l(2) 1(2) by blast
  next
    case 2
    then have "?v = silo_abort alone L cur_tid st2"
      using l(1) v2(1) s_def by (simp add: validate_silo_def Let_def)
    moreover have "\<not> silo_ready s accs" using silo_ready_reads [OF l(2) [unfolded 2(2)] 2(3)] v2(3) 2(4) by simp
    ultimately show ?thesis using abort over2 by blast
  next
    case 3
    note ver = lockable_ver [OF over2 [unfolded 3(2)] 3(3)]
    obtain m3 st3 where v3: "silo_validate_set alone (set L) True ?ws m st2 = (m3, st3)" "w_rows st3 = w_rows st2"
      "m3 \<noteq> None \<longleftrightarrow> (\<forall>a\<in>set ?ws. silo_validate (sa_tid a) True (word_of st2 (sa_row a)))"
      using silo_validate_set_alone [of "set L" True ?ws m st2] by blast
    then obtain m' where m': "m3 = Some m'" using ver by (auto simp: silo_validate_def silo_get_tid_def)
    let ?c = "silo_next_tid m' cur_tid"
    have k: "m \<le> m'" "\<forall>a\<in>set ?ws. sa_tid a \<le> m'" "m' \<in> insert m (sa_tid ` set ?ws)"
        "\<forall>a\<in>set ?rs. sa_tid a \<le> m" "m \<in> insert 0 (sa_tid ` set ?rs)"
      using silo_validate_set_ok [OF respects_alone v2(1)] silo_validate_set_ok [OF respects_alone v3(1)] 3(4) m'
      by auto
    have all: "sa_tid a \<le> m'" if "a \<in> set accs" for a
      using that k(1,2,4) by (cases "sa_type a = WR") (auto simp: silo_read_set_def intro: order.trans)
    have "m' < LOCK_BIT - 1" using k(3,5) tids by (auto simp: silo_read_set_def LOCK_BIT_def)
    note b = silo_next_tid_bounds [OF this cur]
    have "\<exists>st4. silo_install alone ?ws ?c st3 = Returns st4 \<and> w_rows st4 = silo_installed accs ?c s"
      using locked_over_rows [OF over2 v3(2)] 3(2) b not_locked_less [of ?c] ver v3(2) k(2)
      by (intro silo_install_over) (auto intro: le_less_trans)
    then obtain st4 where "silo_install alone ?ws ?c st3 = Returns st4" "w_rows st4 = silo_installed accs ?c s"
      by blast
    moreover from this have "?v = Returns (RCOK, ?c, st4)"
      using l(1) 3 v2(1) v3(1) m' s_def by (simp add: validate_silo_def Let_def)
    moreover have "silo_ready s accs" using silo_ready_reads [OF l(2) [unfolded 3(2)] 3(3)] v2(3) 3(4) by simp
    ultimately show ?thesis using b all unfolding s_def by (auto intro: le_less_trans)
  qed
qed

section \<open>Unlocked reads\<close>

text \<open>
  C22. A read without a lock is a consistent snapshot: if every critical section of a writer either
  leaves the tuple alone or installs a larger version, then the bytes \<open>access\<close> copied one by one while
  writers were running are the whole tuple the row had at one moment, unlocked, under the version
  that \<open>access\<close> reports.
\<close>

theorem silo_access_snapshot:
  assumes ok: "trace_ok (\<lambda>w. w) tr" and len: "\<forall>t. length (wr_data (tr t)) = n"
    and run: "silo_access k tr n t = Returns (rc, d, tid)"
  shows "\<exists>u\<ge>t. rc = RCOK \<and> wr_word (tr u) = tid \<and> \<not> lk_locked tid \<and> wr_data (tr u) = d"
  using run
proof (induction k arbitrary: t)
  case 0
  then show ?case by simp
next
  case (Suc k)
  let ?v = "wr_word (tr t)"
  consider "lk_locked ?v" | "\<not> lk_locked ?v" "wr_word (tr (t + n + 1)) \<noteq> ?v"
    | "\<not> lk_locked ?v" "wr_word (tr (t + n + 1)) = ?v" by blast
  then show ?case
  proof cases
    case 1
    then have "silo_access k tr n (t + 1) = Returns (rc, d, tid)" using Suc.prems by simp
    from Suc.IH [OF this] show ?thesis using le_add1 order.trans by blast
  next
    case 2
    then have "silo_access k tr n (t + n + 2) = Returns (rc, d, tid)" using Suc.prems by (simp add: Let_def)
    then obtain u where "t + n + 2 \<le> u" "rc = RCOK \<and> wr_word (tr u) = tid \<and> \<not> lk_locked tid \<and> wr_data (tr u) = d"
      using Suc.IH by blast
    then show ?thesis by (intro exI [of _ u]) simp
  next
    case 3
    have tc: "tuple_constant tr t (t + n + 1)" using trace_mono [OF ok 3(1), of "t + n + 1"] 3 by simp
    have same: "wr_data (tr j) = wr_data (tr t)" if "t \<le> j" "j \<le> t + n + 1" for j
      using tc that unfolding tuple_constant_def by blast
    have "silo_copy tr (t + 1) n ! i = wr_data (tr t) ! i" if "i < n" for i
      using that same [of "t + 1 + i"] by (simp add: silo_copy_def del: add_Suc_right)
    then have "silo_copy tr (t + 1) n = wr_data (tr t)"
      using len by (intro nth_equalityI) (simp_all add: silo_copy_def)
    then show ?thesis using Suc.prems 3 by (auto simp: Let_def intro!: exI [of _ t])
  qed
qed


section \<open>Two faults of the locking modes that are off by default\<close>

text \<open>
  In the waiting mode \<open>lock()\<close> returns without the lock.  A transaction that writes a row whose
  lock another thread holds, at the version it read, commits over it: it overwrites the tuple
  and clears the other thread's lock bit.
\<close>

theorem validate_silo_waiting_ignores_lock:
  assumes cfg: "\<not> validation_no_wait cfg" and other: "word_of st (sa_row a) = sa_tid a OR LOCK_BIT"
    and tid: "sa_tid a < LOCK_BIT - 1" and cur: "cur_tid < LOCK_BIT - 1" and wr: "sa_type a = WR"
  shows "\<exists>st'. validate_silo cfg alone spurious n cur_tid [a] st
      = Returns (RCOK, silo_next_tid (sa_tid a) cur_tid, st') \<and>
    w_rows st' = (w_rows st)(sa_row a := (w_rows st (sa_row a))\<lparr>wr_data := sa_data a,
      wr_word := silo_next_tid (sa_tid a) cur_tid\<rparr>) \<and>
    lk_locked (word_of st (sa_row a)) \<and> \<not> lk_locked (word_of st' (sa_row a))"
proof -
  let ?c = "silo_next_tid (sa_tid a) cur_tid" and ?r = "sa_row a"
  have nl: "\<not> lk_locked (sa_tid a)"
  proof -
    have "LOCK_BIT - 1 < LOCK_BIT" by (simp add: LOCK_BIT_def)
    then show ?thesis using tid not_locked_less [of "sa_tid a"] by (meson less_trans)
  qed
  have sets: "silo_write_set cfg (w_rows st) [a] = [a]" "silo_read_set [a] = []"
    using wr by (simp_all add: silo_write_set_def silo_read_set_def bubble_sort_def Let_def)
  have tidw: "silo_get_tid (word_of st ?r) = sa_tid a" using other nl by (simp add: silo_get_tid_def)
  obtain st1 where c: "silo_check alone [a] [] st = (True, st1)" "w_rows st1 = w_rows st"
    using silo_check_alone [of "[a]" "[]" st] tidw by auto
  have wait: "\<exists>y. silo_lock_waiting alone spurious [a] [] x = (RCOK, [?r], y) \<and> w_rows y = w_rows st"
    if "w_rows x = w_rows st" for x
    using that other tidw by (auto simp: Let_def silo_lock_def)
  have "\<exists>st3. silo_locks cfg alone spurious n [a] [] st = Returns (RCOK, [?r], st3) \<and> w_rows st3 = w_rows st"
    using c cfg wait [of st] wait [of st1] by (simp add: silo_locks_def del: silo_lock_waiting.simps)
  then obtain st3 where l: "silo_locks cfg alone spurious n [a] [] st = Returns (RCOK, [?r], st3)"
    "w_rows st3 = w_rows st" by blast
  let ?st4 = "shared alone {?r} st3"
  have v: "silo_validate_set alone {?r} True [a] 0 st3 = (Some (sa_tid a), ?st4)"
    using tidw l(2) by (auto simp: silo_validate_def silo_get_tid_def word_gt_0)
  note b = silo_next_tid_bounds [OF tid cur]
  have nc: "\<not> lk_locked ?c" using b not_locked_less by blast
  have "\<exists>st'. silo_install alone [a] ?c ?st4 = Returns st' \<and>
      (\<forall>r. r \<notin> sa_row ` set [a] \<longrightarrow> w_rows st' r = w_rows ?st4 r) \<and>
      (\<forall>b\<in>set [a]. w_rows st' (sa_row b) = (w_rows ?st4 (sa_row b))\<lparr>wr_data := sa_data b, wr_word := ?c\<rparr>)"
    using silo_install_alone [OF nc, of "[a]" ?st4] b l(2) other tidw by simp
  then obtain st' where i: "silo_install alone [a] ?c ?st4 = Returns st'"
    "\<forall>r. r \<noteq> ?r \<longrightarrow> w_rows st' r = w_rows st r"
    "w_rows st' ?r = (w_rows st ?r)\<lparr>wr_data := sa_data a, wr_word := ?c\<rparr>"
    using l(2) by auto
  have "w_rows st' = (w_rows st)(?r := (w_rows st ?r)\<lparr>wr_data := sa_data a, wr_word := ?c\<rparr>)"
    using i(2,3) by auto
  moreover have "validate_silo cfg alone spurious n cur_tid [a] st = Returns (RCOK, ?c, st')"
    using l(1) v i(1)
    by (simp add: validate_silo_def sets Let_def del: silo_validate_set.simps(2) silo_install.simps(2))
  ultimately show ?thesis using nc other by auto
qed

text \<open>
  With bounded spinning and the pre-abort checks off, \<open>num_locks\<close> still counts the rows of the
  last pass after they were given back, and the abort path gives them back again: two writes, the
  second of a row that is busy, end in the failed assertion of \<open>release\<close>.
\<close>

theorem validate_silo_double_release:
  assumes nw: "validation_no_wait cfg" and pre: "\<not> pre_abort cfg"
    and bnd: "bounded_spinning cfg" "spin_cycles cfg = mask k" "k \<le> 32" "k < n"
    and wr: "sa_type a = WR" "sa_type b = WR" and ne: "sa_row a \<noteq> sa_row b"
    and fa: "word_of st (sa_row a) = sa_tid a" "\<not> lk_locked (sa_tid a)"
    and lb: "lk_locked (word_of st (sa_row b))"
  shows "validate_silo cfg alone spurious n cur_tid [a, b] st = Fails"
proof -
  let ?cfg = "lock_cfg.truncate cfg" and ?ws = "lock_pairs [a, b]"
  have sets: "silo_write_set cfg (w_rows st) [a, b] = [a, b]" "silo_read_set [a, b] = []"
    using wr bnd by (simp_all add: silo_write_set_def silo_read_set_def Let_def)
  have cfg: "bounded_spinning ?cfg" "spin_cycles ?cfg = mask k" "\<not> pre_abort ?cfg"
    using bnd pre by (simp_all add: lock_cfg.truncate_def)
  have pass: "\<exists>x'. lock_pass silo_ops alone ?ws [] x = Returns (Busy, [sa_row a], x') \<and>
      (\<exists>y. release_all silo_ops alone [sa_row a] x' = Returns y \<and> w_rows y = w_rows st)"
    if "w_rows x = w_rows st" for x
    using that fa lb ne
    by (auto simp: lock_pairs_def try_lock_row_def Let_def silo_word_defs)
  have loop: "j \<le> k \<Longrightarrow> k - j < m \<Longrightarrow> w_rows x = w_rows st \<Longrightarrow>
      \<exists>y. lock_loop silo_ops alone ?cfg c ?ws m (mask j) x = Returns (Abort, [sa_row a], y) \<and> w_rows y = w_rows st"
    for j m x c
  proof (induction m arbitrary: j x)
    case 0
    then show ?case by simp
  next
    case (Suc m)
    obtain x' y where p: "lock_pass silo_ops alone ?ws [] x = Returns (Busy, [sa_row a], x')"
      "release_all silo_ops alone [sa_row a] x' = Returns y" "w_rows y = w_rows st"
      using pass [OF Suc.prems(3)] by blast
    show ?case
    proof (cases "j < k")
      case True
      then show ?thesis using Suc.IH [of "Suc j" y] Suc.prems p cfg bnd(3)
        by (simp add: bounded_backoff_mask del: release_all.simps lock_pass.simps)
    next
      case False
      then show ?thesis using Suc.prems p cfg bnd(3)
        by (simp add: bounded_backoff_mask del: release_all.simps lock_pass.simps)
    qed
  qed
  obtain y where y: "lock_loop silo_ops alone ?cfg (silo_check alone [a, b] []) ?ws n 0 st =
      Returns (Abort, [sa_row a], y)" "w_rows y = w_rows st"
    using loop [of 0 n st] bnd(4) by auto
  have "silo_locks cfg alone spurious n [a, b] [] st = Returns (Abort, [sa_row a], y)"
    using y(1) pre nw by (simp add: silo_locks_def)
  moreover have "release_all silo_ops alone [sa_row a] y = Fails"
    using y(2) fa by (simp add: silo_word_defs Let_def)
  ultimately show ?thesis by (simp add: validate_silo_def sets silo_abort_def del: release_all.simps)
qed

section \<open>Witnesses\<close>

definition silo_default :: silo_cfg where
  "silo_default = \<lparr>pre_abort = True, bounded_spinning = True, spin_cycles = 15, validation_no_wait = True\<rparr>"

definition silo_demo_rows :: "nat wst" where
  "silo_demo_rows = \<lparr>w_rows = (\<lambda>r. \<lparr>wr_pk = of_nat r, wr_word = (if r = 2 then 5 OR LOCK_BIT else 5), wr_data = r\<rparr>),
     w_clock = 0\<rparr>"

definition silo_demo_accs :: "nat silo_acc list" where
  "silo_demo_accs = [\<lparr>sa_type = WR, sa_row = 1, sa_data = 100, sa_tid = 5\<rparr>,
     \<lparr>sa_type = RD, sa_row = 0, sa_data = 0, sa_tid = 5\<rparr>]"

abbreviation silo_demo_wr :: "row_ptr \<Rightarrow> nat silo_acc" where
  "silo_demo_wr r \<equiv> \<lparr>sa_type = WR, sa_row = r, sa_data = 7, sa_tid = 5\<rparr>"

lemmas silo_demo_defs = silo_default_def silo_demo_rows_def silo_demo_accs_def LOCK_BIT_def

lemma mask_4: "(15 :: UInt32) = mask 4"
  by (simp add: mask_eq_exp_minus_1)

lemma not_locked_5: "\<not> lk_locked 5"
  by (simp add: lk_locked_def LOCK_BIT_def)


theorem validate_silo_alone_witness:
  "\<exists>cur st'. validate_silo silo_default alone (\<lambda>_. False) 5 3 silo_demo_accs silo_demo_rows
     = Returns (RCOK, cur, st') \<and> 5 < cur \<and> wr_data (w_rows st' 1) = 100"
proof -
  have "silo_ready (w_rows silo_demo_rows) silo_demo_accs"
    using not_locked_5 by (simp add: silo_ready_def silo_demo_rows_def silo_demo_accs_def)
  moreover have "silo_installed silo_demo_accs c (w_rows silo_demo_rows) 1 =
      \<lparr>wr_pk = 1, wr_word = c, wr_data = 100\<rparr>" for c
    by (simp add: silo_installed_def silo_demo_rows_def silo_demo_accs_def)
  ultimately show ?thesis
    using validate_silo_alone [of silo_default 4 5 3 silo_demo_accs "\<lambda>_. False" silo_demo_rows]
    by (auto simp: silo_default_def mask_4 silo_demo_accs_def LOCK_BIT_def)
qed

theorem silo_access_snapshot_witness:
  "\<exists>u\<ge>0. RCOK = RCOK \<and> wr_word ((\<lambda>t :: nat. \<lparr>wr_pk = 0, wr_word = (if t = 0 then LOCK_BIT else 5),
      wr_data = (if t = 0 then [9, 8] else [1, 2 :: nat])\<rparr>) u) = 5 \<and> \<not> lk_locked 5 \<and>
    wr_data ((\<lambda>t :: nat. \<lparr>wr_pk = 0, wr_word = (if t = 0 then LOCK_BIT else 5),
      wr_data = (if t = 0 then [9, 8] else [1, 2 :: nat])\<rparr>) u) = [1, 2]"
proof (rule silo_access_snapshot [where n = 2 and k = 2])
  let ?tr = "\<lambda>t :: nat. \<lparr>wr_pk = 0, wr_word = (if t = 0 then LOCK_BIT else 5),
      wr_data = (if t = 0 then [9, 8] else [1, 2 :: nat])\<rparr>"
  have l: "lk_locked LOCK_BIT" by (simp add: lk_locked_def LOCK_BIT_def)
  show "trace_ok (\<lambda>w. w) ?tr" using l by (auto simp: trace_ok_def tuple_constant_def)
  show "\<forall>t. length (wr_data (?tr t)) = 2" by simp
  show "silo_access 2 ?tr 2 0 = Returns (RCOK, [1, 2], 5)"
    using l not_locked_5 by (simp add: numeral_2_eq_2 silo_copy_def)
qed

theorem validate_silo_waiting_ignores_lock_witness:
  "\<exists>st'. validate_silo (silo_default\<lparr>validation_no_wait := False\<rparr>) alone (\<lambda>_. False) 5 3
     [silo_demo_wr 2] silo_demo_rows = Returns (RCOK, 6, st') \<and> wr_data (w_rows st' 2) = 7"
proof -
  have "silo_next_tid 5 3 = 6" by (simp add: silo_next_tid_def)
  then show ?thesis
    using validate_silo_waiting_ignores_lock [of "silo_default\<lparr>validation_no_wait := False\<rparr>"
      silo_demo_rows "silo_demo_wr 2" 3 "\<lambda>_. False" 5]
    by (auto simp: silo_demo_defs)
qed

theorem validate_silo_double_release_witness:
  "validate_silo (silo_default\<lparr>pre_abort := False\<rparr>) alone (\<lambda>_. False) 5 3
     [silo_demo_wr 1, silo_demo_wr 2] silo_demo_rows = Fails"
  by (rule validate_silo_double_release [where k = 4])
    (use not_locked_5 in \<open>simp_all add: silo_default_def silo_demo_rows_def mask_4\<close>)

end
