(* ===== verification/TicToc.thy ===== *)
theory TicToc
  imports Lock_Word Bubble_Sort
begin

text \<open>
  TicToc: the packed timestamp word of concurrency\_control/row\_tictoc.cpp and
  \<open>txn_man::validate_tictoc\<close> of concurrency\_control/tictoc/tictoc.cpp, in the shipped settings
  \<open>ATOMIC_WORD\<close>, not \<open>WRITE_PERMISSION_LOCK\<close>, not \<open>TICTOC_MV\<close>, \<open>WR_VALIDATION_SEPARATE\<close> and
  isolation level SERIALIZABLE.  The word holds the lock in bit 63, the write timestamp \<open>wts\<close> in bits
  0 to 47 and the lease in bits 48 to 62: the version may be read at every timestamp from \<open>wts\<close> to
  \<open>wts\<close> plus the lease.
\<close>

definition WTS_MASK :: "64 word" where
  "WTS_MASK = push_bit 48 1 - 1"

definition RTS_MASK :: "64 word" where
  "RTS_MASK = push_bit 48 (push_bit 15 1 - 1)"

record 'd tt_acc =
  ta_type :: access_t
  ta_row :: row_ptr
  ta_data :: 'd
  ta_wts :: ts_t
  ta_rts :: ts_t

record tt_cfg = lock_cfg +
  tt_no_wait :: bool

section \<open>Row\_tictoc\<close>

definition tt_get_wts :: "64 word \<Rightarrow> ts_t" where
  "tt_get_wts v = v AND WTS_MASK"

definition tt_delta :: "64 word \<Rightarrow> ts_t" where
  "tt_delta v = drop_bit 48 (v AND RTS_MASK)"

definition tt_get_rts :: "64 word \<Rightarrow> ts_t" where
  "tt_get_rts v = tt_delta v + tt_get_wts v"

definition get_ts_word :: "64 word \<Rightarrow> bool \<times> ts_t \<times> ts_t" where
  "get_ts_word v = (lk_locked v, tt_get_rts v, tt_get_wts v)"

text \<open>
  The unlocked read, as for Silo: \<open>tr t\<close> is the row at time \<open>t\<close>.  A change of the lease alone does not
  make the read start again.
\<close>

fun tt_access :: "nat \<Rightarrow> (nat \<Rightarrow> 'b list wrow) \<Rightarrow> nat \<Rightarrow> nat \<Rightarrow> (RC \<times> 'b list \<times> ts_t \<times> ts_t) run" where
  "tt_access 0 tr n t = Spins"
| "tt_access (Suc k) tr n t =
     (let v = wr_word (tr t)
      in if lk_locked v then tt_access k tr n (t + 1)
         else let local_row = map (\<lambda>i. wr_data (tr (t + 1 + i)) ! i) [0..<n];
                  v2 = wr_word (tr (t + n + 1))
              in if v2 OR RTS_MASK \<noteq> v OR RTS_MASK then tt_access k tr n (t + n + 2)
                 else Returns (RCOK, local_row, tt_get_wts v, tt_delta v + tt_get_wts v))"

definition tt_write_data :: "'d \<Rightarrow> ts_t \<Rightarrow> 'd wrow \<Rightarrow> 'd wrow" where
  "tt_write_data d wts row =
     row\<lparr>wr_word := (wr_word row AND NOT (RTS_MASK OR WTS_MASK)) OR wts, wr_data := d\<rparr>"

definition tt_lock :: "bool \<Rightarrow> 64 word \<Rightarrow> 64 word \<Rightarrow> 64 word" where
  "tt_lock spurious v w =
     (if lk_locked v then w
      else if w = v \<and> \<not> spurious then v OR LOCK_BIT
      else w)"

definition tt_try_lock :: "64 word \<Rightarrow> 64 word \<Rightarrow> bool \<times> 64 word" where
  "tt_try_lock v w =
     (if lk_locked v then (False, w)
      else if w = v then (True, v OR LOCK_BIT)
      else (False, w))"

definition tt_release :: "64 word \<Rightarrow> 64 word run" where
  "tt_release w = Returns (w AND NOT LOCK_BIT)"

definition tt_ops :: lock_ops where
  "tt_ops = \<lparr>l_try = tt_try_lock, l_release = tt_release, l_check = (\<lambda>_. True), l_ver = tt_get_wts\<rparr>"

text \<open>The retry loop of \<open>try_renew\<close> around the weak compare-and-swap: lines 153 to 163.\<close>

fun tt_renew_loop :: "'d others \<Rightarrow> (nat \<Rightarrow> bool) \<Rightarrow> row_ptr set \<Rightarrow> nat \<Rightarrow> 64 word \<Rightarrow> bool \<Rightarrow> ts_t \<Rightarrow> ts_t
    \<Rightarrow> row_ptr \<Rightarrow> 64 word \<Rightarrow> 'd wst \<Rightarrow> (bool \<times> 'd wst) run" where
  "tt_renew_loop env spurious H 0 v2 rebase wts rts r v st = Spins"
| "tt_renew_loop env spurious H (Suc n) v2 rebase wts rts r v st =
     (let st1 = shared env H st; w = word_of st1 r
      in if w = v \<and> \<not> spurious (w_clock st1) then Returns (True, set_word r v2 st1)
         else if rebase \<or> lk_locked w \<or> wts \<noteq> tt_get_wts w then Returns (False, st1)
         else if rts < tt_delta w then Returns (True, st1)
         else tt_renew_loop env spurious H n v2 rebase wts rts r w st1)"

definition try_renew :: "'d others \<Rightarrow> (nat \<Rightarrow> bool) \<Rightarrow> row_ptr set \<Rightarrow> nat \<Rightarrow> ts_t \<Rightarrow> ts_t \<Rightarrow> row_ptr
    \<Rightarrow> 'd wst \<Rightarrow> (bool \<times> 'd wst) run" where
  "try_renew env spurious H n wts rts r st =
     (let st1 = shared env H st; v = word_of st1 r
      in if tt_get_wts v = wts \<and> rts - wts \<le> tt_delta v then Returns (True, st1)
         else if lk_locked v then Returns (False, st1)
         else if wts \<noteq> tt_get_wts v then Returns (False, st1)
         else let delta_rts = rts - wts
              in if delta_rts < tt_delta v then Returns (True, st1)
                 else let rebase = (push_bit 15 1 \<le> delta_rts);
                          delta = (if rebase then delta_rts AND NOT (push_bit 15 1 - 1) else 0);
                          delta_rts' = (if rebase then delta_rts AND (push_bit 15 1 - 1) else delta_rts);
                          wts' = wts + delta;
                          v2 = wts' OR push_bit 48 delta_rts'
                      in tt_renew_loop env spurious H n v2 rebase wts' rts r v st1)"

section \<open>validate\_tictoc\<close>

definition tt_write_set :: "tt_cfg \<Rightarrow> 'd wstore \<Rightarrow> 'd tt_acc list \<Rightarrow> 'd tt_acc list" where
  "tt_write_set cfg s accs =
     (let ws = filter (\<lambda>a. ta_type a = WR) accs
      in if \<not> bounded_spinning cfg \<or> \<not> tt_no_wait cfg
         then bubble_sort (\<lambda>a b. wr_pk (s (ta_row a)) > wr_pk (s (ta_row b))) ws
         else ws)"

definition tt_read_set :: "'d tt_acc list \<Rightarrow> 'd tt_acc list" where
  "tt_read_set accs = filter (\<lambda>a. ta_type a \<noteq> WR) accs"

text \<open>The commit timestamps from what was read: lines 62 to 76.\<close>

fun tt_commit_ts :: "'d tt_acc list \<Rightarrow> ts_t \<Rightarrow> ts_t \<Rightarrow> ts_t \<times> ts_t" where
  "tt_commit_ts [] crts cwts = (crts, cwts)"
| "tt_commit_ts (a # as) crts cwts =
     (if ta_type a = RD \<and> crts < ta_wts a then tt_commit_ts as (ta_wts a) cwts
      else if ta_type a = WR \<and> cwts < ta_rts a + 1 then tt_commit_ts as crts (ta_rts a + 1)
      else tt_commit_ts as crts cwts)"

definition tt_commit_wts :: "'d tt_acc list \<Rightarrow> ts_t" where
  "tt_commit_wts accs =
     (let (crts, cwts) = tt_commit_ts accs 0 0 in if cwts < crts then crts else cwts)"

text \<open>The pre-abort checks: lines 82 to 106 and 131 to 155.\<close>

fun tt_writes_current :: "'d others \<Rightarrow> 'd tt_acc list \<Rightarrow> 'd wst \<Rightarrow> bool \<times> 'd wst" where
  "tt_writes_current env [] st = (True, st)"
| "tt_writes_current env (a # as) st =
     (let st1 = shared env {} st
      in if tt_get_wts (word_of st1 (ta_row a)) \<noteq> ta_wts a then (False, st1)
         else tt_writes_current env as st1)"

fun tt_reads_current :: "'d others \<Rightarrow> ts_t \<Rightarrow> 'd tt_acc list \<Rightarrow> 'd wst \<Rightarrow> bool \<times> 'd wst" where
  "tt_reads_current env cwts [] st = (True, st)"
| "tt_reads_current env cwts (a # as) st =
     (let st1 = shared env {} st; (lock, rts, wts) = get_ts_word (word_of st1 (ta_row a))
      in if rts < cwts \<and> wts \<noteq> ta_wts a then (False, st1)
         else tt_reads_current env cwts as st1)"

definition tt_check :: "'d others \<Rightarrow> ts_t \<Rightarrow> 'd tt_acc list \<Rightarrow> 'd tt_acc list \<Rightarrow> 'd wst \<Rightarrow> bool \<times> 'd wst" where
  "tt_check env cwts ws rs st =
     (let (ok, st1) = tt_writes_current env ws st
      in if ok then tt_reads_current env cwts rs st1 else (False, st1))"

definition tt_pairs :: "'d tt_acc list \<Rightarrow> (row_ptr \<times> ts_t) list" where
  "tt_pairs ws = map (\<lambda>a. (ta_row a, ta_wts a)) ws"

text \<open>The waiting mode: lines 171 to 180.\<close>

fun tt_lock_waiting :: "'d others \<Rightarrow> (nat \<Rightarrow> bool) \<Rightarrow> 'd tt_acc list \<Rightarrow> row_ptr list \<Rightarrow> 'd wst
    \<Rightarrow> RC \<times> row_ptr list \<times> 'd wst" where
  "tt_lock_waiting env spurious [] L st = (RCOK, L, st)"
| "tt_lock_waiting env spurious (a # as) L st =
     (let r = ta_row a; st1 = shared env (set L) st; v = word_of st1 r;
          st2 = shared env (set L) st1;
          st3 = set_word r (tt_lock (spurious (w_clock st2)) v (word_of st2 r)) st2;
          L1 = L @ [r]; st4 = shared env (set L1) st3
      in if tt_get_wts (word_of st4 r) \<noteq> ta_wts a then (Abort, L1, st4)
         else tt_lock_waiting env spurious as L1 st4)"

definition tt_locks :: "tt_cfg \<Rightarrow> 'd others \<Rightarrow> (nat \<Rightarrow> bool) \<Rightarrow> nat \<Rightarrow> ts_t \<Rightarrow> 'd tt_acc list
    \<Rightarrow> 'd tt_acc list \<Rightarrow> 'd wst \<Rightarrow> (RC \<times> row_ptr list \<times> 'd wst) run" where
  "tt_locks cfg env spurious n cwts ws rs st =
     (let (ok, st1) = (if pre_abort cfg then tt_check env cwts ws rs st else (True, st))
      in if \<not> ok then Returns (Abort, [], st1)
         else if tt_no_wait cfg
         then lock_loop tt_ops env (lock_cfg.truncate cfg) (tt_check env cwts ws rs) (tt_pairs ws) n 0 st1
         else Returns (tt_lock_waiting env spurious ws [] st1))"

text \<open>The commit timestamp passes the leases of the locked rows: lines 182 to 186.\<close>

fun tt_pass_leases :: "'d others \<Rightarrow> row_ptr set \<Rightarrow> 'd tt_acc list \<Rightarrow> ts_t \<Rightarrow> 'd wst \<Rightarrow> ts_t \<times> 'd wst" where
  "tt_pass_leases env H [] cwts st = (cwts, st)"
| "tt_pass_leases env H (a # as) cwts st =
     (let st1 = shared env H st; rts = tt_get_rts (word_of st1 (ta_row a))
      in tt_pass_leases env H as (if cwts < rts + 1 then rts + 1 else cwts) st1)"

text \<open>The validation of the read set: lines 190 to 205.\<close>

fun tt_validate_reads :: "'d others \<Rightarrow> (nat \<Rightarrow> bool) \<Rightarrow> row_ptr set \<Rightarrow> nat \<Rightarrow> 'd tt_acc list \<Rightarrow> ts_t
    \<Rightarrow> 'd wst \<Rightarrow> (bool \<times> 'd wst) run" where
  "tt_validate_reads env spurious H n [] cwts st = Returns (True, st)"
| "tt_validate_reads env spurious H n (a # as) cwts st =
     (if ta_rts a < cwts
      then case try_renew env spurious H n (ta_wts a) cwts (ta_row a) st of
             Returns (ok, st1) \<Rightarrow>
               if ok then tt_validate_reads env spurious H n as cwts st1 else Returns (False, st1)
           | Spins \<Rightarrow> Spins
           | Fails \<Rightarrow> Fails
      else tt_validate_reads env spurious H n as cwts st)"

text \<open>Writing back and unlocking: lines 261 to 266.\<close>

fun tt_install :: "'d others \<Rightarrow> 'd tt_acc list \<Rightarrow> ts_t \<Rightarrow> 'd wst \<Rightarrow> 'd wst run" where
  "tt_install env [] cwts st = Returns st"
| "tt_install env (a # as) cwts st =
     (let r = ta_row a; H = ta_row ` set (a # as); st1 = shared env H st;
          st2 = shared env H (st1\<lparr>w_rows := (w_rows st1)(r := tt_write_data (ta_data a) cwts (w_rows st1 r))\<rparr>)
      in case tt_release (word_of st2 r) of
           Returns w \<Rightarrow> tt_install env as cwts (set_word r w st2)
         | Spins \<Rightarrow> Spins
         | Fails \<Rightarrow> Fails)"

definition tt_abort :: "'d others \<Rightarrow> row_ptr list \<Rightarrow> ts_t \<Rightarrow> 'd wst \<Rightarrow> (RC \<times> ts_t \<times> 'd wst) run" where
  "tt_abort env L max_wts st =
     (case release_all tt_ops env L st of
        Returns st1 \<Rightarrow> Returns (Abort, max_wts, st1)
      | Spins \<Rightarrow> Spins
      | Fails \<Rightarrow> Fails)"

text \<open>
  The whole validation up to \<open>cleanup\<close>: the return code, the new \<open>_max_wts\<close> and the store.  The
  assertion on \<open>num_locks\<close> is line 188.
\<close>

definition validate_tictoc :: "tt_cfg \<Rightarrow> 'd others \<Rightarrow> (nat \<Rightarrow> bool) \<Rightarrow> nat \<Rightarrow> ts_t \<Rightarrow> 'd tt_acc list
    \<Rightarrow> 'd wst \<Rightarrow> (RC \<times> ts_t \<times> 'd wst) run" where
  "validate_tictoc cfg env spurious n max_wts accs st =
     (let ws = tt_write_set cfg (w_rows st) accs; rs = tt_read_set accs; cwts0 = tt_commit_wts accs
      in case tt_locks cfg env spurious n cwts0 ws rs st of
           Spins \<Rightarrow> Spins
         | Fails \<Rightarrow> Fails
         | Returns (rc, L, st1) \<Rightarrow>
             if rc = Abort then tt_abort env L max_wts st1
             else
               (let (cwts, st2) = tt_pass_leases env (set L) ws cwts0 st1
                in if length L \<noteq> length ws then Fails
                   else case tt_validate_reads env spurious (set L) n rs cwts st2 of
                          Spins \<Rightarrow> Spins
                        | Fails \<Rightarrow> Fails
                        | Returns (ok, st3) \<Rightarrow>
                            if \<not> ok then tt_abort env L max_wts st3
                            else case tt_install env ws cwts st3 of
                                   Returns st4 \<Rightarrow> Returns (RCOK, if max_wts < cwts then cwts else max_wts, st4)
                                 | Spins \<Rightarrow> Spins
                                 | Fails \<Rightarrow> Fails))"

section \<open>The packed word\<close>

lemma WTS_MASK_mask: "WTS_MASK = mask 48"
  by (simp add: WTS_MASK_def mask_eq_exp_minus_1)

lemma RTS_MASK_mask: "RTS_MASK = push_bit 48 (mask 15)"
  by (simp add: RTS_MASK_def mask_eq_exp_minus_1)

lemma bit_RTS_MASK: "bit RTS_MASK n \<longleftrightarrow> 48 \<le> n \<and> n < 63"
  unfolding RTS_MASK_mask by (auto simp: bit_simps)

lemma bit_WTS_MASK: "bit WTS_MASK n \<longleftrightarrow> n < 48"
  unfolding WTS_MASK_mask by (auto simp: bit_simps)

lemma less_exp_bit:
  assumes "(x :: 64 word) < push_bit k 1" and "k < 64"
  shows "bit x n \<Longrightarrow> n < k"
proof -
  have "uint x < 2 ^ k" using assms word_2p_lem [of k x] by (simp add: push_bit_eq_mult word_size)
  then have m: "x AND mask k = x" by (simp add: mask_eq_iff)
  assume "bit x n"
  then have "bit (x AND mask k) n" unfolding m .
  then show ?thesis by (simp add: bit_and_iff bit_mask_iff)
qed

lemma tt_pack:
  assumes "wts < push_bit 48 1" and "d < push_bit 15 1"
  shows "tt_get_wts (wts OR push_bit 48 d) = wts" and "tt_delta (wts OR push_bit 48 d) = d"
    and "\<not> lk_locked (wts OR push_bit 48 d)"
proof -
  have w: "bit wts n \<Longrightarrow> n < 48" for n using less_exp_bit [OF assms(1)] by simp
  have d: "bit d n \<Longrightarrow> n < 15" for n using less_exp_bit [OF assms(2)] by simp
  show "tt_get_wts (wts OR push_bit 48 d) = wts"
    unfolding tt_get_wts_def by (rule bit_eqI) (auto simp: bit_simps bit_WTS_MASK dest: w)
  show "tt_delta (wts OR push_bit 48 d) = d"
    unfolding tt_delta_def by (rule bit_eqI) (auto simp: bit_simps bit_RTS_MASK dest: w d)
  show "\<not> lk_locked (wts OR push_bit 48 d)"
    using w [of 63] d [of 15] by (auto simp: lk_locked_bit bit_simps)
qed

lemma tt_write_word:
  assumes "wts < push_bit 48 1"
  shows "((v AND NOT (RTS_MASK OR WTS_MASK)) OR wts) AND NOT LOCK_BIT = wts"
proof (rule bit_eqI)
  fix n
  have w: "bit wts n \<Longrightarrow> n < 48" using less_exp_bit [OF assms] by simp
  show "bit (((v AND NOT (RTS_MASK OR WTS_MASK)) OR wts) AND NOT LOCK_BIT) n = bit wts n"
    using w bit_imp_le_length [of v n] by (auto simp: bit_simps bit_RTS_MASK bit_WTS_MASK)
qed

lemma tt_split_delta:
  "(d AND NOT (push_bit 15 1 - 1)) + (d AND (push_bit 15 1 - 1)) = (d :: 64 word)"
proof -
  have "(d AND NOT m) + (d AND m) = (d AND NOT m) OR (d AND m)" for m :: "64 word"
    by (rule disjunctive_add) (auto simp: bit_simps)
  moreover have "(d AND NOT m) OR (d AND m) = d" for m :: "64 word"
    by (rule bit_eqI) (auto simp: bit_simps)
  ultimately show ?thesis by metis
qed

lemma tt_clear_lock [simp]:
  "tt_get_wts (w OR LOCK_BIT) = tt_get_wts w" "tt_get_wts (w AND NOT LOCK_BIT) = tt_get_wts w"
  "tt_delta (w OR LOCK_BIT) = tt_delta w" "tt_delta (w AND NOT LOCK_BIT) = tt_delta w"
  unfolding tt_get_wts_def tt_delta_def
  by (rule bit_eqI; auto simp: bit_simps bit_WTS_MASK bit_RTS_MASK)+

interpretation tt_word: lock_word tt_ops lk_locked
  by unfold_locales (auto simp: tt_ops_def tt_try_lock_def tt_release_def split: if_splits)

interpretation tt_pk: sort_order "\<lambda>a b. wr_pk (s (ta_row a)) > wr_pk (s (ta_row b))"
  for s :: "'d wstore"
  by unfold_locales auto


lemma bit_less_exp:
  assumes "\<And>n. bit (x :: 64 word) n \<Longrightarrow> n < k" and "k < 64"
  shows "x < push_bit k 1"
proof -
  have "x AND mask k = x" using assms(1) by (intro bit_eqI) (auto simp: bit_simps)
  then have "uint x < 2 ^ k" by (simp add: mask_eq_iff)
  then show ?thesis using assms(2) word_2p_lem [of k x] by (simp add: push_bit_eq_mult word_size)
qed

lemma tt_get_wts_less: "tt_get_wts v < push_bit 48 1"
  unfolding tt_get_wts_def by (rule bit_less_exp) (auto simp: bit_simps bit_WTS_MASK)

lemma tt_delta_less: "tt_delta v < push_bit 15 1"
  unfolding tt_delta_def by (rule bit_less_exp) (auto simp: bit_simps bit_RTS_MASK)

lemma tt_lease_covers:
  assumes "rts - wts \<le> d" and "wts \<le> rts" and "wts < push_bit 48 1" and "d < push_bit 15 (1 :: 64 word)"
  shows "rts \<le> d + wts"
proof -
  have "unat rts - unat wts \<le> unat d" using assms(1,2) by (simp add: word_le_nat_alt unat_sub)
  moreover have "unat wts < 2 ^ 48" "unat d < 2 ^ 15"
    using assms(3,4) by (simp_all add: word_less_nat_alt)
  moreover have "unat (d + wts) = unat d + unat wts"
    using calculation(2,3) by (simp add: unat_word_ariths)
  ultimately show ?thesis by (simp add: word_le_nat_alt)
qed

lemma tt_rebase_fits:
  assumes "wts \<le> rts" and "rts < push_bit 48 1"
  shows "wts + ((rts - wts) AND NOT (push_bit 15 1 - 1)) \<le> (rts :: 64 word)"
    and "((rts - wts) AND (push_bit 15 1 - 1)) + (wts + ((rts - wts) AND NOT (push_bit 15 1 - 1))) = rts"
    and "wts \<le> wts + ((rts - wts) AND NOT (push_bit 15 1 - 1))"
proof -
  define d where "d = rts - wts"
  define hi where "hi = d AND NOT (push_bit 15 1 - 1)"
  define lo where "lo = d AND (push_bit 15 1 - 1)"
  have "hi \<le> d" unfolding hi_def by (rule word_and_le2)
  moreover have sum: "hi + lo = d" unfolding hi_def lo_def by (rule tt_split_delta)
  moreover have "unat d = unat rts - unat wts" "unat wts \<le> unat rts"
    using assms(1) by (simp_all add: d_def unat_sub word_le_nat_alt)
  ultimately have le: "unat wts + unat hi \<le> unat rts" by (simp add: word_le_nat_alt)
  then have "unat wts + unat hi < 2 ^ LENGTH(64)"
    using unsigned_less [of rts, where ?'a = nat] by (rule le_less_trans)
  then have u: "unat (wts + hi) = unat wts + unat hi" using unat_add_lem [of wts hi] by blast
  show "wts + ((rts - wts) AND NOT (push_bit 15 1 - 1)) \<le> rts"
    "wts \<le> wts + ((rts - wts) AND NOT (push_bit 15 1 - 1))"
    unfolding d_def [symmetric] hi_def [symmetric] using u le by (simp_all only: word_le_nat_alt)
  show "((rts - wts) AND (push_bit 15 1 - 1)) + (wts + ((rts - wts) AND NOT (push_bit 15 1 - 1))) = rts"
    unfolding d_def [symmetric] hi_def [symmetric] lo_def [symmetric]
    using sum d_def by (metis add.assoc add.commute diff_add_cancel)
qed

section \<open>Renewing a lease\<close>

text \<open>
  What a renewal may do to the store: nothing to a locked row, and to an unlocked one at most give it a
  lease that ends exactly at \<open>rts\<close>.
\<close>

definition lease_ext :: "ts_t \<Rightarrow> 'd wst \<Rightarrow> 'd wst \<Rightarrow> bool" where
  "lease_ext rts st st' \<longleftrightarrow>
     (\<forall>q. w_rows st' q = w_rows st q \<or>
        (\<not> lk_locked (word_of st q) \<and> (\<exists>w. w_rows st' q = (w_rows st q)\<lparr>wr_word := w\<rparr> \<and>
           \<not> lk_locked w \<and> tt_get_rts w = rts \<and> tt_get_wts w \<le> rts)))"

lemma lease_ext_same: "w_rows st' = w_rows st \<Longrightarrow> lease_ext rts st st'"
  by (simp add: lease_ext_def)

lemma lease_ext_trans:
  assumes "lease_ext rts st1 st2" and "lease_ext rts st2 st3"
  shows "lease_ext rts st1 st3"
  unfolding lease_ext_def
proof
  fix q
  consider "w_rows st3 q = w_rows st2 q"
    | w where "\<not> lk_locked (word_of st2 q)" "w_rows st3 q = (w_rows st2 q)\<lparr>wr_word := w\<rparr>"
      "\<not> lk_locked w \<and> tt_get_rts w = rts \<and> tt_get_wts w \<le> rts"
    using assms(2) unfolding lease_ext_def by blast
  then show "w_rows st3 q = w_rows st1 q \<or> (\<not> lk_locked (word_of st1 q) \<and>
      (\<exists>w. w_rows st3 q = (w_rows st1 q)\<lparr>wr_word := w\<rparr> \<and> \<not> lk_locked w \<and> tt_get_rts w = rts \<and> tt_get_wts w \<le> rts))"
  proof cases
    case 1
    then show ?thesis using assms(1) unfolding lease_ext_def by metis
  next
    case 2
    have "w_rows st2 q = w_rows st1 q \<or> (\<not> lk_locked (word_of st1 q) \<and>
        (\<exists>w. w_rows st2 q = (w_rows st1 q)\<lparr>wr_word := w\<rparr>))"
      using assms(1) unfolding lease_ext_def by blast
    then have "\<not> lk_locked (word_of st1 q)" "w_rows st3 q = (w_rows st1 q)\<lparr>wr_word := w\<rparr>"
      using 2(1,2) by auto
    then show ?thesis using 2(3) by blast
  qed
qed

lemma tt_renew_loop_alone:
  assumes w: "word_of st r = v" and nl: "\<not> lk_locked v" and d: "\<not> rts < tt_delta v"
    and run: "tt_renew_loop alone spurious H n v2 rebase wts rts r v st = Returns (ok, st')"
  shows "w_rows st' = (if ok then (w_rows st)(r := (w_rows st r)\<lparr>wr_word := v2\<rparr>) else w_rows st)"
  using w run
proof (induction n arbitrary: st)
  case 0
  then show ?case by simp
next
  case (Suc n)
  let ?st = "shared alone H st"
  have w: "word_of ?st r = v" using Suc.prems(1) by simp
  show ?case
  proof (cases "\<not> spurious (w_clock ?st) \<or> rebase \<or> wts \<noteq> tt_get_wts v")
    case True
    then show ?thesis using Suc.prems(2) w nl d by (auto simp: Let_def split: if_splits)
  next
    case False
    then have "tt_renew_loop alone spurious H n v2 rebase wts rts r v ?st = Returns (ok, st')"
      using Suc.prems(2) w nl d by (simp add: Let_def)
    from Suc.IH [OF w this] show ?thesis by simp
  qed
qed

lemma tt_renew_loop_ends:
  "word_of st r = v \<Longrightarrow> \<exists>ok st'. tt_renew_loop alone (\<lambda>_. False) H (Suc n) v2 rebase wts rts r v st = Returns (ok, st')"
  by (auto simp: Let_def)

lemma try_renew_ends: "\<exists>ok st'. try_renew alone (\<lambda>_. False) H (Suc n) wts rts r st = Returns (ok, st')"
  using tt_renew_loop_ends by (auto simp: try_renew_def Let_def)

text \<open>
  With nobody interfering, a successful renewal leaves the version with a lease that covers \<open>rts\<close>.
\<close>

lemma try_renew_alone:
  assumes le: "wts \<le> rts" and small: "rts < push_bit 48 1"
    and run: "try_renew alone spurious H n wts rts r st = Returns (ok, st')"
  shows "lease_ext rts st st' \<and> (ok \<longrightarrow> rts \<le> tt_get_rts (word_of st' r) \<and> tt_get_wts (word_of st' r) \<le> rts)"
proof -
  let ?v = "word_of st r" and ?d = "rts - wts"
  let ?st1 = "shared alone H st"
  let ?rb = "push_bit 15 1 \<le> ?d"
  let ?hi = "if ?rb then ?d AND NOT (push_bit 15 1 - 1) else 0"
  let ?lo = "if ?rb then ?d AND (push_bit 15 1 - 1) else ?d"
  let ?w = "(wts + ?hi) OR push_bit 48 ?lo"
  consider (early) "tt_get_wts ?v = wts" "?d \<le> tt_delta ?v" "ok" "w_rows st' = w_rows st"
    | (no) "\<not> ok" "w_rows st' = w_rows st"
    | (loop) "tt_get_wts ?v = wts" "\<not> ?d \<le> tt_delta ?v" "\<not> lk_locked ?v"
      "tt_renew_loop alone spurious H n ?w ?rb (wts + ?hi) rts r ?v ?st1 = Returns (ok, st')"
    using run by (auto simp: try_renew_def Let_def split: if_splits)
  then show ?thesis
  proof cases
    case early
    then have "rts \<le> tt_delta ?v + wts"
      using tt_lease_covers [OF early(2) le _ tt_delta_less] tt_get_wts_less [of ?v] by simp
    then show ?thesis using early le lease_ext_same [OF early(4)] by (simp add: tt_get_rts_def)
  next
    case no
    then show ?thesis using lease_ext_same [OF no(2)] by simp
  next
    case loop
    have "tt_delta ?v < rts"
      using loop(2) le by (metis linorder_not_le order.strict_trans2 word_sub_le)
    then have nd: "\<not> rts < tt_delta ?v" by simp
    have rows: "w_rows st' = (if ok then (w_rows st)(r := (w_rows st r)\<lparr>wr_word := ?w\<rparr>) else w_rows st)"
      using tt_renew_loop_alone [OF _ loop(3) nd loop(4)] by simp
    have sum: "?lo + (wts + ?hi) = rts" and wle: "wts + ?hi \<le> rts"
      using tt_rebase_fits [OF le small] le by auto
    have lo: "?lo < push_bit 15 1"
    proof (cases ?rb)
      case True
      have "?d AND (push_bit 15 1 - 1) \<le> push_bit 15 1 - 1" by (rule word_and_le1)
      also have "(push_bit 15 1 - 1 :: 64 word) < push_bit 15 1" by simp
      finally show ?thesis using True by simp
    qed simp
    have "wts + ?hi < push_bit 48 1" using wle small by (rule le_less_trans)
    note pack = tt_pack [OF this lo]
    have w: "\<not> lk_locked ?w" "tt_get_rts ?w = rts" "tt_get_wts ?w \<le> rts"
      using pack(3) by blast (simp_all only: tt_get_rts_def pack(1,2) sum wle)
    have ext: "lease_ext rts st st'" unfolding lease_ext_def
    proof
      fix q
      show "w_rows st' q = w_rows st q \<or> (\<not> lk_locked (word_of st q) \<and> (\<exists>w. w_rows st' q = (w_rows st q)\<lparr>wr_word := w\<rparr> \<and>
           \<not> lk_locked w \<and> tt_get_rts w = rts \<and> tt_get_wts w \<le> rts))"
        using rows w loop(3) by (cases "ok \<and> q = r") auto
    qed
    have "ok \<longrightarrow> word_of st' r = ?w" using rows by simp
    then show ?thesis using ext w by simp
  qed
qed

text \<open>
  A concurrent renewal can be undone.  The retry loop of \<open>try_renew\<close> compares the absolute
  \<open>rts\<close> with the stored lease, which is relative to \<open>wts\<close>; when another reader extended the lease to
  \<open>d2\<close> between the load and the exchange, the retry overwrites it with the shorter \<open>d1\<close> and still
  reports success, although the other reader committed under the longer lease.
\<close>

theorem try_renew_shrinks_lease:
  assumes wts: "wts < push_bit 48 1" and d: "d0 < d1" "d1 < d2" "d2 < push_bit 15 1"
    and big: "d2 \<le> wts + d1" and st: "w_clock st = 0" "word_of st r = wts OR push_bit 48 d0"
  shows "\<exists>st'. try_renew (\<lambda>k H s. if k = 1 then s(r := (s r)\<lparr>wr_word := wts OR push_bit 48 d2\<rparr>) else s)
      (\<lambda>_. False) {} 2 wts (wts + d1) r st = Returns (True, st') \<and>
    tt_get_wts (word_of st' r) = wts \<and> tt_delta (word_of st' r) = d1 \<and>
    tt_delta (wts OR push_bit 48 d2) = d2"
proof -
  let ?env = "\<lambda>(k :: nat) (H :: row_ptr set) s. if k = 1 then s(r := (s r)\<lparr>wr_word := wts OR push_bit 48 d2\<rparr>) else s"
  have d1: "d1 < push_bit 15 1" using d(2,3) by (rule less_trans)
  have d0: "d0 < push_bit 15 1" using d(1) d1 by (rule less_trans)
  note p0 = tt_pack [OF wts d0] and p1 = tt_pack [OF wts d1] and p2 = tt_pack [OF wts d(3)]
  have delta: "(wts + d1) - wts = d1" by simp
  have nrb: "\<not> push_bit 15 1 \<le> d1" using d1 by (simp only: not_le)
  let ?st1 = "shared ?env {} st"
  have w1: "word_of ?st1 r = wts OR push_bit 48 d0" "w_clock ?st1 = 1" using st by (simp_all add: shared_def)
  let ?st2 = "shared ?env {} ?st1"
  have w2: "word_of ?st2 r = wts OR push_bit 48 d2" "w_clock ?st2 = 2" using st by (simp_all add: shared_def)
  let ?st3 = "shared ?env {} ?st2"
  have w3: "word_of ?st3 r = wts OR push_bit 48 d2" using w2 by (simp add: shared_def)
  have ne: "wts OR push_bit 48 d2 \<noteq> wts OR push_bit 48 d0" using p0(2) p2(2) d by (metis less_trans less_irrefl)
  have big': "\<not> wts + d1 < d2" using big by simp
  have c1: "\<not> d1 \<le> d0" "\<not> d1 < d0" using d(1) by auto
  have loop: "tt_renew_loop ?env (\<lambda>_. False) {} 2 (wts OR push_bit 48 d1) False wts (wts + d1) r
      (wts OR push_bit 48 d0) ?st1 = Returns (True, set_word r (wts OR push_bit 48 d1) ?st3)"
    unfolding numeral_2_eq_2 using w2(1) w3 ne p2 big' by (simp add: Let_def)
  have "try_renew ?env (\<lambda>_. False) {} 2 wts (wts + d1) r st =
      Returns (True, set_word r (wts OR push_bit 48 d1) ?st3)"
    unfolding try_renew_def Let_def w1(1) delta using p0 nrb c1 loop by simp
  then show ?thesis using p1 p2 by simp
qed

text \<open>
  TicToc's unlocked read returns a tuple the row had at one moment while it was unlocked, with the
  write timestamp of that moment, although other threads may renew the lease during the copy.
\<close>

theorem tt_access_snapshot:
  assumes ok: "trace_ok tt_get_wts tr" and len: "\<forall>t. length (wr_data (tr t)) = n"
    and run: "tt_access k tr n t = Returns (rc, d, wts, rts)"
  shows "\<exists>u\<ge>t. rc = RCOK \<and> \<not> lk_locked (wr_word (tr u)) \<and> tt_get_wts (wr_word (tr u)) = wts \<and>
    tt_get_rts (wr_word (tr u)) = rts \<and> wr_data (tr u) = d"
  using run
proof (induction k arbitrary: t)
  case 0
  then show ?case by simp
next
  case (Suc k)
  let ?v = "wr_word (tr t)" and ?v2 = "wr_word (tr (t + n + 1))"
  consider "lk_locked ?v" | "\<not> lk_locked ?v" "?v2 OR RTS_MASK \<noteq> ?v OR RTS_MASK"
    | "\<not> lk_locked ?v" "?v2 OR RTS_MASK = ?v OR RTS_MASK" by blast
  then show ?case
  proof cases
    case 1
    then have "tt_access k tr n (t + 1) = Returns (rc, d, wts, rts)" using Suc.prems by simp
    from Suc.IH [OF this] show ?thesis using le_add1 order.trans by blast
  next
    case 2
    then have "tt_access k tr n (t + n + 2) = Returns (rc, d, wts, rts)" using Suc.prems by (simp add: Let_def)
    from Suc.IH [OF this] obtain u where "t + n + 2 \<le> u" "rc = RCOK \<and> \<not> lk_locked (wr_word (tr u)) \<and>
      tt_get_wts (wr_word (tr u)) = wts \<and> tt_get_rts (wr_word (tr u)) = rts \<and> wr_data (tr u) = d" by blast
    then show ?thesis by (intro exI [of _ u]) simp
  next
    case 3
    have bits: "bit ?v2 i = bit ?v i" if "\<not> (48 \<le> i \<and> i < 63)" for i
      using that arg_cong [OF 3(2), of "\<lambda>w. bit w i"] by (auto simp: bit_or_iff bit_RTS_MASK)
    have "\<not> lk_locked ?v2" using bits [of 63] 3(1) by (simp add: lk_locked_bit)
    moreover have "tt_get_wts ?v2 = tt_get_wts ?v"
      unfolding tt_get_wts_def by (rule bit_eqI) (use bits in \<open>auto simp: bit_and_iff bit_WTS_MASK\<close>)
    ultimately have tc: "tuple_constant tr t (t + n + 1)"
      using trace_mono [OF ok 3(1), of "t + n + 1"] by simp
    have same: "wr_data (tr j) = wr_data (tr t)" if "t \<le> j" "j \<le> t + n + 1" for j
      using tc that unfolding tuple_constant_def by blast
    let ?copy = "map (\<lambda>i. wr_data (tr (t + 1 + i)) ! i) [0..<n]"
    have "?copy ! i = wr_data (tr t) ! i" if "i < n" for i
      using that same [of "t + 1 + i"] by (simp del: add_Suc_right)
    then have "?copy = wr_data (tr t)" using len by (intro nth_equalityI) simp_all
    then show ?thesis using Suc.prems 3 by (auto simp: Let_def tt_get_rts_def intro!: exI [of _ t])
  qed
qed

section \<open>Validation with nobody else running\<close>

lemma set_tt_write_set [simp]: "set (tt_write_set cfg s accs) = {a \<in> set accs. ta_type a = WR}"
  by (simp add: tt_write_set_def Let_def)

lemma tt_writes_current_alone:
  "tt_writes_current alone as st = (ok, st') \<Longrightarrow> w_rows st' = w_rows st"
  by (induction as arbitrary: st) (auto simp: Let_def split: if_splits)

lemma tt_reads_current_alone:
  "tt_reads_current alone c as st = (ok, st') \<Longrightarrow> w_rows st' = w_rows st"
  by (induction as arbitrary: st) (auto simp: Let_def get_ts_word_def split: if_splits)

lemma tt_check_alone: "tt_check alone c ws rs st = (ok, st') \<Longrightarrow> w_rows st' = w_rows st"
  by (auto simp: tt_check_def split: prod.splits if_splits
      dest!: tt_writes_current_alone tt_reads_current_alone)

text \<open>
  A transaction whose rows are all unlocked and still at the version it read.
\<close>

definition tt_fresh :: "'d wstore \<Rightarrow> 'd tt_acc list \<Rightarrow> bool" where
  "tt_fresh s as \<longleftrightarrow> distinct (map ta_row as) \<and>
     (\<forall>a\<in>set as. \<not> lk_locked (wr_word (s (ta_row a))) \<and> tt_get_wts (wr_word (s (ta_row a))) = ta_wts a)"

lemma tt_fresh_filter: "tt_fresh s as \<Longrightarrow> tt_fresh s (filter P as)"
  by (simp add: tt_fresh_def distinct_map_filter)

lemma tt_writes_current_fresh:
  "\<forall>a\<in>set as. tt_get_wts (word_of st (ta_row a)) = ta_wts a \<Longrightarrow> fst (tt_writes_current alone as st)"
  by (induction as arbitrary: st) (auto simp: Let_def)

lemma tt_reads_current_fresh:
  "\<forall>a\<in>set as. tt_get_wts (word_of st (ta_row a)) = ta_wts a \<Longrightarrow> fst (tt_reads_current alone c as st)"
  by (induction as arbitrary: st) (auto simp: Let_def get_ts_word_def)

lemma tt_check_fresh:
  assumes "tt_fresh (w_rows st) ws" and "tt_fresh (w_rows st) rs"
  shows "fst (tt_check alone c ws rs st)"
proof -
  obtain ok st1 where w: "tt_writes_current alone ws st = (ok, st1)" by fastforce
  have ok: "ok" using tt_writes_current_fresh [of ws st] assms(1) w by (simp add: tt_fresh_def)
  have "fst (tt_reads_current alone c rs st1)"
    by (rule tt_reads_current_fresh) (use assms(2) tt_writes_current_alone [OF w] in \<open>simp add: tt_fresh_def\<close>)
  then show ?thesis using w ok by (simp add: tt_check_def)
qed

lemma lockable_tt_fresh: "tt_fresh s ws \<Longrightarrow> lockable tt_ops lk_locked s (tt_pairs ws)"
  by (auto simp: tt_fresh_def lockable_def tt_pairs_def tt_ops_def comp_def)

lemma try_renew_fresh:
  assumes "\<not> lk_locked (word_of st r)" and "tt_get_wts (word_of st r) = wts"
  shows "\<exists>st'. try_renew alone (\<lambda>_. False) H (Suc n) wts rts r st = Returns (True, st') \<and>
    (\<forall>q. q \<noteq> r \<longrightarrow> w_rows st' q = w_rows st q)"
  using assms by (auto simp: try_renew_def Let_def)

lemma tt_validate_reads_fresh:
  "tt_fresh (w_rows st) as \<Longrightarrow> \<exists>st'. tt_validate_reads alone (\<lambda>_. False) H (Suc n) as c st = Returns (True, st')"
proof (induction as arbitrary: st)
  case Nil
  then show ?case by simp
next
  case (Cons a as)
  have rest: "tt_fresh (w_rows st) as" using Cons.prems by (simp add: tt_fresh_def)
  have a: "\<not> lk_locked (word_of st (ta_row a))" "tt_get_wts (word_of st (ta_row a)) = ta_wts a"
    "ta_row a \<notin> ta_row ` set as" using Cons.prems by (auto simp: tt_fresh_def)
  obtain st1 where r: "try_renew alone (\<lambda>_. False) H (Suc n) (ta_wts a) c (ta_row a) st = Returns (True, st1)"
    "\<forall>q. q \<noteq> ta_row a \<longrightarrow> w_rows st1 q = w_rows st q" using try_renew_fresh [OF a(1,2)] by blast
  have "\<forall>x\<in>set as. w_rows st1 (ta_row x) = w_rows st (ta_row x)" using r(2) a(3) by (metis imageI)
  then have "tt_fresh (w_rows st1) as" using rest by (simp add: tt_fresh_def)
  then show ?case using Cons.IH [OF rest] Cons.IH [of st1] r(1) by auto
qed

lemma tt_locks_alone:
  assumes s: "w_rows st = s" and nw: "tt_no_wait cfg" and pre: "pre_abort cfg"
    and bnd: "bounded_spinning cfg" "spin_cycles cfg = mask k" "k \<le> 32" "k < n"
  shows "\<exists>rc L st'. tt_locks cfg alone spurious n c ws rs st = Returns (rc, L, st') \<and>
    locked_over tt_ops lk_locked s L st' \<and>
    (rc = RCOK \<and> L = map ta_row ws \<and> lockable tt_ops lk_locked s (tt_pairs ws) \<or> rc = Abort) \<and>
    (tt_fresh s ws \<and> tt_fresh s rs \<longrightarrow> rc = RCOK)"
proof -
  let ?cfg = "lock_cfg.truncate cfg"
  obtain ok st1 where ch: "tt_check alone c ws rs st = (ok, st1)" by fastforce
  have s1: "w_rows st1 = s" using tt_check_alone [OF ch] s by simp
  show ?thesis
  proof (cases ok)
    case False
    then have "tt_locks cfg alone spurious n c ws rs st = Returns (Abort, [], st1)"
      unfolding tt_locks_def using ch pre by simp
    moreover have "locked_over tt_ops lk_locked s [] st1" using s1 by (simp add: locked_over_def holds_def)
    moreover have "\<not> (tt_fresh s ws \<and> tt_fresh s rs)" using tt_check_fresh [of st ws rs c] ch False s by auto
    ultimately show ?thesis by blast
  next
    case True
    let ?run = "lock_loop tt_ops alone ?cfg (tt_check alone c ws rs) (tt_pairs ws) n 0 st1"
    have run: "tt_locks cfg alone spurious n c ws rs st = ?run"
      unfolding tt_locks_def using ch pre True nw by simp
    have cfg: "bounded_spinning ?cfg" "spin_cycles ?cfg = mask k" "pre_abort ?cfg"
      using bnd pre by (simp_all add: lock_cfg.truncate_def)
    have "?run \<noteq> Spins"
      using tt_word.lock_loop_ends [OF respects_alone cfg(1,2) bnd(3), of 0 n] bnd(4) by simp
    moreover have "lock_outcome tt_ops lk_locked ?cfg (tt_pairs ws) ?run"
      by (rule tt_word.lock_loop_ok [OF respects_alone])
    ultimately obtain rc L st2 where r: "?run = Returns (rc, L, st2)"
      by (auto simp: lock_outcome_def split: run.splits)
    have "locked_over tt_ops lk_locked s L st2 \<and>
        (if lockable tt_ops lk_locked s (tt_pairs ws) then rc = RCOK \<and> L = map fst (tt_pairs ws) else rc = Abort)"
      by (rule tt_word.lock_loop_alone [OF s1 _ _ r]) (use cfg(3) in \<open>simp_all add: tt_check_alone\<close>)
    moreover have "map fst (tt_pairs ws) = map ta_row ws" by (simp add: tt_pairs_def comp_def)
    ultimately show ?thesis unfolding run r using lockable_tt_fresh [of s ws] by (auto split: if_splits)
  qed
qed

lemma tt_pass_leases_alone:
  assumes "tt_pass_leases alone H as c st = (c', st')"
    and "\<forall>a\<in>set as. tt_get_rts (word_of st (ta_row a)) < B" and "c \<le> B"
  shows "w_rows st' = w_rows st \<and> c \<le> c' \<and> c' \<le> B \<and> (\<forall>a\<in>set as. tt_get_rts (word_of st (ta_row a)) < c')"
  using assms
proof (induction as arbitrary: c st)
  case Nil
  then show ?case by simp
next
  case (Cons a as)
  let ?t = "tt_get_rts (word_of st (ta_row a))" and ?st = "shared alone H st"
  let ?c = "if c < ?t + 1 then ?t + 1 else c"
  have t: "?t < ?t + 1" "?t + 1 \<le> B" using word_less_plus1 [of ?t B] Cons.prems(2) by auto
  have run: "tt_pass_leases alone H as ?c ?st = (c', st')"
    using Cons.prems(1) unfolding tt_pass_leases.simps Let_def shared_alone .
  have "?c \<le> B" using t Cons.prems(3) by simp
  with Cons.IH [OF run] Cons.prems(2) have IH: "w_rows st' = w_rows st" "?c \<le> c'" "c' \<le> B"
    "\<forall>a\<in>set as. tt_get_rts (word_of st (ta_row a)) < c'" by simp_all
  have "c \<le> ?c" "?t < ?c" using t by (auto intro: less_le_trans)
  then show ?case using IH by (auto intro: order.trans less_le_trans)
qed

lemma lease_ext_keeps:
  assumes "lease_ext c st st'"
  shows "c \<le> tt_get_rts (word_of st r) \<and> tt_get_wts (word_of st r) \<le> c \<Longrightarrow>
    c \<le> tt_get_rts (word_of st' r) \<and> tt_get_wts (word_of st' r) \<le> c"
  using assms unfolding lease_ext_def by (metis order_refl wrow.select_convs(2) wrow.surjective wrow.update_convs(2))

lemma tt_validate_reads_alone:
  assumes small: "c < push_bit 48 1"
  shows "\<forall>a\<in>set as. ta_wts a \<le> ta_rts a \<Longrightarrow>
    \<exists>ok st'. tt_validate_reads alone (\<lambda>_. False) H (Suc n) as c st = Returns (ok, st') \<and> lease_ext c st st' \<and>
      (ok \<longrightarrow> (\<forall>a\<in>set as. c \<le> ta_rts a \<or> (c \<le> tt_get_rts (word_of st' (ta_row a)) \<and> tt_get_wts (word_of st' (ta_row a)) \<le> c)))"
proof (induction as arbitrary: st)
  case Nil
  then show ?case using lease_ext_same [of st st c] by auto
next
  case (Cons a as)
  show ?case
  proof (cases "ta_rts a < c")
    case False
    obtain ok st' where IH: "tt_validate_reads alone (\<lambda>_. False) H (Suc n) as c st = Returns (ok, st')" "lease_ext c st st'"
      "ok \<longrightarrow> (\<forall>a\<in>set as. c \<le> ta_rts a \<or> (c \<le> tt_get_rts (word_of st' (ta_row a)) \<and> tt_get_wts (word_of st' (ta_row a)) \<le> c))"
      using Cons by (metis list.set_intros(2))
    then show ?thesis using False by auto
  next
    case True
    obtain ok1 st1 where r: "try_renew alone (\<lambda>_. False) H (Suc n) (ta_wts a) c (ta_row a) st = Returns (ok1, st1)"
      using try_renew_ends by blast
    have "ta_wts a \<le> c" using True Cons.prems by (auto intro: order.trans less_imp_le)
    note r' = try_renew_alone [OF this small r]
    show ?thesis
    proof (cases ok1)
      case False
      then show ?thesis using True r r' by auto
    next
      case ok1: True
      obtain ok st' where IH: "tt_validate_reads alone (\<lambda>_. False) H (Suc n) as c st1 = Returns (ok, st')" "lease_ext c st1 st'"
        "ok \<longrightarrow> (\<forall>a\<in>set as. c \<le> ta_rts a \<or> (c \<le> tt_get_rts (word_of st' (ta_row a)) \<and> tt_get_wts (word_of st' (ta_row a)) \<le> c))"
        using Cons by (metis list.set_intros(2))
      have "lease_ext c st st'" using lease_ext_trans r' IH(2) by blast
      moreover have "c \<le> tt_get_rts (word_of st' (ta_row a)) \<and> tt_get_wts (word_of st' (ta_row a)) \<le> c"
        using lease_ext_keeps [OF IH(2), of "ta_row a"] r' ok1 by blast
      ultimately show ?thesis using True r ok1 IH by auto
    qed
  qed
qed

lemma tt_install_alone:
  assumes small: "c < push_bit 48 1"
  shows "distinct (map ta_row as) \<Longrightarrow> \<exists>st'. tt_install alone as c st = Returns st' \<and>
    (\<forall>r. r \<notin> ta_row ` set as \<longrightarrow> w_rows st' r = w_rows st r) \<and>
    (\<forall>a\<in>set as. w_rows st' (ta_row a) = (w_rows st (ta_row a))\<lparr>wr_word := c, wr_data := ta_data a\<rparr>)"
proof (induction as arbitrary: st)
  case Nil
  then show ?case by simp
next
  case (Cons a as)
  let ?H = "ta_row ` set (a # as)" and ?r = "ta_row a"
  let ?s1 = "shared alone ?H st"
  let ?row = "tt_write_data (ta_data a) c (w_rows st ?r)"
  let ?s2 = "shared alone ?H (?s1\<lparr>w_rows := (w_rows ?s1)(?r := ?row)\<rparr>)"
  let ?s3 = "set_word ?r c ?s2"
  have rel: "tt_release (word_of ?s2 ?r) = Returns c"
    using tt_write_word [OF small, of "word_of st ?r"] by (simp add: tt_release_def tt_write_data_def)
  have new: "?r \<notin> ta_row ` set as" using Cons.prems by (metis distinct.simps(2) list.simps(9) set_map)
  have keep: "w_rows ?s3 q = w_rows st q" if "q \<noteq> ?r" for q using that by simp
  have r3: "w_rows ?s3 ?r = (w_rows st ?r)\<lparr>wr_word := c, wr_data := ta_data a\<rparr>"
    by (simp add: tt_write_data_def)
  obtain st' where
    IH: "tt_install alone as c ?s3 = Returns st'"
      "\<forall>r. r \<notin> ta_row ` set as \<longrightarrow> w_rows st' r = w_rows ?s3 r"
      "\<forall>b\<in>set as. w_rows st' (ta_row b) = (w_rows ?s3 (ta_row b))\<lparr>wr_word := c, wr_data := ta_data b\<rparr>"
    using Cons.IH [of ?s3] Cons.prems by auto
  have "tt_install alone (a # as) c st = Returns st'" using rel IH(1) by (simp add: Let_def)
  moreover have "w_rows st' ?r = (w_rows st ?r)\<lparr>wr_word := c, wr_data := ta_data a\<rparr>"
    using IH(2) new r3 by metis
  moreover have "w_rows st' (ta_row b) = (w_rows st (ta_row b))\<lparr>wr_word := c, wr_data := ta_data b\<rparr>"
    if "b \<in> set as" for b
    using IH(3) that keep [of "ta_row b"] new by (metis image_eqI)
  ultimately show ?case using IH(2) keep by auto
qed

text \<open>An abort gives the locked rows back as they were; other rows keep the leases they got.\<close>

lemma tt_abort_alone:
  assumes over: "locked_over tt_ops lk_locked (w_rows st) L st1" and ext: "lease_ext c st1 st2"
  shows "\<exists>st'. tt_abort alone L m st2 = Returns (Abort, m, st') \<and> lease_ext c st st'"
proof -
  define s' where "s' r = (if r \<in> set L then w_rows st r else w_rows st2 r)" for r
  have locked: "w_rows st2 r = w_rows st1 r" if "r \<in> set L" for r
    using that over ext unfolding lease_ext_def by (auto simp: locked_over_def holds_def)
  have "locked_over tt_ops lk_locked s' L st2"
    using over locked by (auto simp: locked_over_def holds_def s'_def)
  then obtain st' where st': "release_all tt_ops alone L st2 = Returns st'" "w_rows st' = s'"
    using tt_word.release_all_alone by blast
  have "lease_ext c st st'" unfolding lease_ext_def
  proof
    fix q
    show "w_rows st' q = w_rows st q \<or> (\<not> lk_locked (word_of st q) \<and> (\<exists>w. w_rows st' q = (w_rows st q)\<lparr>wr_word := w\<rparr> \<and>
           \<not> lk_locked w \<and> tt_get_rts w = c \<and> tt_get_wts w \<le> c))"
    proof (cases "q \<in> set L")
      case False
      then have "w_rows st1 q = w_rows st q" using over by (simp add: locked_over_def)
      then show ?thesis using ext False unfolding lease_ext_def st'(2) s'_def by metis
    qed (simp add: st'(2) s'_def)
  qed
  then show ?thesis using st'(1) by (simp add: tt_abort_def)
qed

lemma tt_commit_ts_bounds:
  "tt_commit_ts as crts cwts = (r, w) \<Longrightarrow> \<forall>a\<in>set as. ta_wts a \<le> B \<and> ta_rts a < B \<Longrightarrow> crts \<le> B \<Longrightarrow> cwts \<le> B \<Longrightarrow>
   r \<le> B \<and> w \<le> B \<and> crts \<le> r \<and> cwts \<le> w \<and>
   (\<forall>a\<in>set as. (ta_type a = RD \<longrightarrow> ta_wts a \<le> r) \<and> (ta_type a = WR \<longrightarrow> ta_rts a < w))"
proof (induction as arbitrary: crts cwts)
  case Nil
  then show ?case by simp
next
  case (Cons a as)
  have t: "ta_rts a < ta_rts a + 1" "ta_rts a + 1 \<le> B" using word_less_plus1 [of "ta_rts a" B] Cons.prems(2) by auto
  consider "ta_type a = RD" "crts < ta_wts a" | "ta_type a = WR" "cwts < ta_rts a + 1"
    | "\<not> (ta_type a = RD \<and> crts < ta_wts a)" "\<not> (ta_type a = WR \<and> cwts < ta_rts a + 1)" by blast
  then show ?case
  proof cases
    case 1
    then show ?thesis using Cons.IH [of "ta_wts a" cwts] Cons.prems by (auto intro: order.trans less_imp_le)
  next
    case 2
    then show ?thesis using Cons.IH [of crts "ta_rts a + 1"] Cons.prems t
      by (auto intro: order.trans less_imp_le less_le_trans)
  next
    case 3
    then have "tt_commit_ts as crts cwts = (r, w)" using Cons.prems(1) by auto
    then show ?thesis using 3 Cons.IH [of crts cwts] Cons.prems(2-4) t
      by (auto simp: not_less intro: order.trans less_le_trans)
  qed
qed

lemma tt_commit_wts_bounds:
  assumes "\<forall>a\<in>set accs. ta_wts a \<le> ta_rts a \<and> ta_rts a < B"
  shows "tt_commit_wts accs \<le> B \<and>
    (\<forall>a\<in>set accs. (ta_type a = RD \<longrightarrow> ta_wts a \<le> tt_commit_wts accs) \<and>
       (ta_type a = WR \<longrightarrow> ta_rts a < tt_commit_wts accs))"
proof -
  obtain r w where rw: "tt_commit_ts accs 0 0 = (r, w)" by fastforce
  have "r \<le> B \<and> w \<le> B \<and> 0 \<le> r \<and> 0 \<le> w \<and>
      (\<forall>a\<in>set accs. (ta_type a = RD \<longrightarrow> ta_wts a \<le> r) \<and> (ta_type a = WR \<longrightarrow> ta_rts a < w))"
    by (rule tt_commit_ts_bounds [OF rw]) (use assms in \<open>auto intro: order.trans less_imp_le\<close>)
  then show ?thesis using rw by (auto simp: tt_commit_wts_def not_less intro: order.trans less_le_trans less_trans)
qed

lemma tt_locked_row:
  assumes over: "locked_over tt_ops lk_locked s L st" and r: "r \<in> set L"
  shows "tt_get_rts (word_of st r) = tt_get_rts (wr_word (s r)) \<and> lk_locked (word_of st r) \<and>
    \<not> lk_locked (wr_word (s r)) \<and> w_rows st r = (s r)\<lparr>wr_word := word_of st r\<rparr>"
proof -
  have *: "tt_release (word_of st r) = Returns (wr_word (s r))" "\<not> lk_locked (wr_word (s r))"
    "w_rows st r = (s r)\<lparr>wr_word := word_of st r\<rparr>" "lk_locked (word_of st r)"
    using over r by (auto simp: locked_over_def tt_ops_def holds_def)
  then have "tt_get_rts (word_of st r) = tt_get_rts (wr_word (s r))"
    by (metis run.inject tt_clear_lock(2,4) tt_get_rts_def tt_release_def)
  with * show ?thesis by blast
qed

lemma tt_commit_rows:
  assumes over: "locked_over tt_ops lk_locked (w_rows st) (map ta_row ws) st1"
    and l: "lockable tt_ops lk_locked (w_rows st) (tt_pairs ws)"
    and ext: "lease_ext c st1 st3"
    and pass: "\<forall>a\<in>set ws. tt_get_rts (word_of st1 (ta_row a)) < c"
    and rd: "\<forall>a\<in>set rs. c \<le> ta_rts a \<or> (c \<le> tt_get_rts (word_of st3 (ta_row a)) \<and> tt_get_wts (word_of st3 (ta_row a)) \<le> c)"
    and out: "\<forall>r. r \<notin> ta_row ` set ws \<longrightarrow> w_rows st4 r = w_rows st3 r"
    and inn: "\<forall>a\<in>set ws. w_rows st4 (ta_row a) = (w_rows st3 (ta_row a))\<lparr>wr_word := c, wr_data := ta_data a\<rparr>"
  shows "(\<forall>a\<in>set ws. w_rows st4 (ta_row a) = (w_rows st (ta_row a))\<lparr>wr_word := c, wr_data := ta_data a\<rparr> \<and>
        \<not> lk_locked (word_of st (ta_row a)) \<and> tt_get_wts (word_of st (ta_row a)) = ta_wts a \<and>
        tt_get_rts (word_of st (ta_row a)) < c) \<and>
     (\<forall>a\<in>set rs. c \<le> ta_rts a \<or> c \<le> tt_get_rts (word_of st4 (ta_row a)) \<and> tt_get_wts (word_of st4 (ta_row a)) \<le> c) \<and>
     (\<forall>r. r \<notin> ta_row ` set ws \<longrightarrow> wr_data (w_rows st4 r) = wr_data (w_rows st r))"
proof (intro conjI ballI allI impI)
  fix a assume a: "a \<in> set ws"
  let ?r = "ta_row a"
  have r: "?r \<in> set (map ta_row ws)" using a by simp
  note lk = tt_locked_row [OF over r]
  have same: "w_rows st3 ?r = w_rows st1 ?r" using ext lk unfolding lease_ext_def by blast
  have "(w_rows st1 ?r)\<lparr>wr_word := c, wr_data := ta_data a\<rparr> = (w_rows st ?r)\<lparr>wr_word := c, wr_data := ta_data a\<rparr>"
    using lk by (cases "w_rows st ?r") (metis wrow.update_convs(2))
  then show "w_rows st4 ?r = (w_rows st ?r)\<lparr>wr_word := c, wr_data := ta_data a\<rparr>" using inn a same by metis
  show "\<not> lk_locked (word_of st ?r)" "tt_get_rts (word_of st ?r) < c" using lk pass a by auto
  show "tt_get_wts (word_of st ?r) = ta_wts a" using l a by (force simp: lockable_def tt_pairs_def tt_ops_def)
next
  fix a assume a: "a \<in> set rs"
  show "c \<le> ta_rts a \<or> c \<le> tt_get_rts (word_of st4 (ta_row a)) \<and> tt_get_wts (word_of st4 (ta_row a)) \<le> c"
  proof (cases "ta_row a \<in> ta_row ` set ws")
    case True
    then have r: "ta_row a \<in> set (map ta_row ws)" by simp
    have "w_rows st3 (ta_row a) = w_rows st1 (ta_row a)"
      using ext tt_locked_row [OF over r] unfolding lease_ext_def by blast
    then have "tt_get_rts (word_of st3 (ta_row a)) < c" using pass True by auto
    then show ?thesis using rd a by (meson not_le)
  next
    case False
    then show ?thesis using rd a out by simp
  qed
next
  fix r assume r: "r \<notin> ta_row ` set ws"
  have "w_rows st1 r = w_rows st r" using over r by (auto simp: locked_over_def)
  then have "wr_data (w_rows st3 r) = wr_data (w_rows st r)"
    using ext unfolding lease_ext_def by (metis wrow.ext_inject wrow.surjective wrow.update_convs(2))
  then show "wr_data (w_rows st4 r) = wr_data (w_rows st r)" using out r by simp
qed

lemma tt_fresh_locked:
  assumes f: "tt_fresh s accs" and over: "locked_over tt_ops lk_locked s (map ta_row (tt_write_set cfg s accs)) st1"
  shows "tt_fresh (w_rows st1) (tt_read_set accs)"
proof -
  have "w_rows st1 (ta_row a) = s (ta_row a)" if a: "a \<in> set (tt_read_set accs)" for a
  proof -
    have "ta_row a \<noteq> ta_row b" if "b \<in> set (tt_write_set cfg s accs)" for b
      using f a that by (auto simp: tt_fresh_def tt_read_set_def distinct_map inj_on_def)
    then show ?thesis using over by (auto simp: locked_over_def)
  qed
  then show ?thesis
    using tt_fresh_filter [OF f] unfolding tt_read_set_def by (simp add: tt_fresh_def)
qed



section \<open>Witnesses\<close>

definition tt_default :: tt_cfg where
  "tt_default = \<lparr>pre_abort = True, bounded_spinning = True, spin_cycles = 15, tt_no_wait = True\<rparr>"

definition tt_demo_rows :: "nat wst" where
  "tt_demo_rows = \<lparr>w_rows = (\<lambda>r. \<lparr>wr_pk = of_nat r, wr_word = 20, wr_data = r\<rparr>), w_clock = 0\<rparr>"

definition tt_demo_accs :: "nat tt_acc list" where
  "tt_demo_accs = [\<lparr>ta_type = WR, ta_row = 1, ta_data = 100, ta_wts = 20, ta_rts = 20\<rparr>,
     \<lparr>ta_type = RD, ta_row = 0, ta_data = 0, ta_wts = 20, ta_rts = 20\<rparr>]"

theorem try_renew_shrinks_lease_witness:
  "\<exists>st'. try_renew (\<lambda>k H s. if k = 1 then s(0 := (s 0)\<lparr>wr_word := 20 OR push_bit 48 9\<rparr>) else s)
      (\<lambda>_. False) {} 2 20 (20 + 5) 0 tt_demo_rows = Returns (True, st') \<and>
    tt_get_wts (word_of st' 0) = 20 \<and> tt_delta (word_of st' 0) = 5 \<and> tt_delta (20 OR push_bit 48 9) = 9"
  by (rule try_renew_shrinks_lease [where ?d0.0 = 0]) (simp_all add: tt_demo_rows_def)

theorem tt_access_snapshot_witness:
  "\<exists>u\<ge>0. RCOK = RCOK \<and> \<not> lk_locked (wr_word ((\<lambda>t :: nat. \<lparr>wr_pk = 0, wr_word = 7, wr_data = [1, 2 :: nat]\<rparr>) u)) \<and>
    tt_get_wts (wr_word ((\<lambda>t :: nat. \<lparr>wr_pk = 0, wr_word = 7, wr_data = [1, 2 :: nat]\<rparr>) u)) = 7 \<and>
    tt_get_rts (wr_word ((\<lambda>t :: nat. \<lparr>wr_pk = 0, wr_word = 7, wr_data = [1, 2 :: nat]\<rparr>) u)) = 7 \<and>
    wr_data ((\<lambda>t :: nat. \<lparr>wr_pk = 0, wr_word = 7, wr_data = [1, 2 :: nat]\<rparr>) u) = [1, 2]"
proof (rule tt_access_snapshot [where n = 2 and k = 1])
  let ?tr = "\<lambda>t :: nat. \<lparr>wr_pk = 0, wr_word = 7, wr_data = [1, 2 :: nat]\<rparr>"
  have nl: "\<not> lk_locked 7" by (simp add: lk_locked_def LOCK_BIT_def)
  show "trace_ok tt_get_wts ?tr" by (simp add: trace_ok_def tuple_constant_def)
  show "\<forall>t. length (wr_data (?tr t)) = 2" by simp
  show "tt_access 1 ?tr 2 0 = Returns (RCOK, [1, 2], 7, 7)"
    using nl by (simp add: numeral_2_eq_2 tt_get_wts_def tt_delta_def WTS_MASK_def RTS_MASK_def)
qed


end
