(* ===== verification/OCC.thy ===== *)
theory OCC
  imports Bubble_Sort
begin

text \<open>
  Optimistic concurrency control: the row manager concurrency\_control/row\_occ.cpp and the validator
  concurrency\_control/occ/occ.cpp, with both validation schemes, per row (the shipped setting) and
  central.  The scoped latches of a row are the field \<open>ow_latch\<close>, the thread that holds it.
\<close>

record 'd occ_row =
  ow_table :: string
  ow_pk :: "64 word"
  ow_wts :: ts_t
  ow_data :: 'd
  ow_latch :: "nat option"

type_synonym 'd occ_store = "row_ptr \<Rightarrow> 'd occ_row"

record 'd occ_acc =
  oa_type :: access_t
  oa_row :: row_ptr
  oa_read :: 'd
  oa_data :: 'd

section \<open>Row\_occ\<close>

text \<open>\<open>access\<close> under the row's latch: a read of a row that was written after the transaction started aborts.\<close>

definition occ_access :: "ts_t \<Rightarrow> TsType \<Rightarrow> 'd occ_row \<Rightarrow> (RC \<times> 'd option) option" where
  "occ_access start_ts type row =
     assert_then (type = R_REQ)
       (Some (if start_ts < ow_wts row then (Abort, None) else (RCOK, Some (ow_data row))))"

definition occ_validate :: "ts_t \<Rightarrow> 'd occ_row \<Rightarrow> bool" where
  "occ_validate ts row = (if ts < ow_wts row then False else True)"

definition occ_write :: "'d \<Rightarrow> ts_t \<Rightarrow> 'd occ_row \<Rightarrow> 'd occ_row option" where
  "occ_write d ts row =
     (let row1 = row\<lparr>ow_data := d\<rparr>
      in assert_then (ow_wts row < ts) (Some (row1\<lparr>ow_wts := ts\<rparr>)))"

section \<open>Per-row validation\<close>

text \<open>The order of the latches when spinning is unbounded: table name, then primary key (lines 43 to 53).\<close>

fun strcmp_gt :: "string \<Rightarrow> string \<Rightarrow> bool" where
  "strcmp_gt [] ys = False"
| "strcmp_gt (x # xs) [] = True"
| "strcmp_gt (x # xs) (y # ys) =
     (if of_char x = (of_char y :: nat) then strcmp_gt xs ys else (of_char y :: nat) < of_char x)"

definition occ_gt :: "'d occ_store \<Rightarrow> 'd occ_acc \<Rightarrow> 'd occ_acc \<Rightarrow> bool" where
  "occ_gt s a b =
     (strcmp_gt (ow_table (s (oa_row a))) (ow_table (s (oa_row b))) \<or>
      (ow_table (s (oa_row a)) = ow_table (s (oa_row b)) \<and> ow_pk (s (oa_row b)) < ow_pk (s (oa_row a))))"

definition occ_order :: "bool \<Rightarrow> 'd occ_store \<Rightarrow> 'd occ_acc list \<Rightarrow> 'd occ_acc list" where
  "occ_order bounded s accs = (if bounded then accs else bubble_sort (occ_gt s) accs)"

definition set_latch :: "nat option \<Rightarrow> row_ptr \<Rightarrow> 'd occ_store \<Rightarrow> 'd occ_store" where
  "set_latch l r s = s(r := (s r)\<lparr>ow_latch := l\<rparr>)"

text \<open>
  One turn of the latch loop (74 to 89) once the latch is free: take it, then validate the row.
  \<open>latch\<close> waits while another thread holds the latch; \<open>try_latch\<close> gives up, which is \<open>ok = false\<close>
  without a latch.
\<close>

definition occ_latch :: "nat \<Rightarrow> ts_t \<Rightarrow> row_ptr \<Rightarrow> 'd occ_store \<Rightarrow> (bool \<times> 'd occ_store) option" where
  "occ_latch t start_ts r s =
     (if ow_latch (s r) \<noteq> None then None
      else Some (occ_validate start_ts (s r), set_latch (Some t) r s))"

text \<open>Whether and how \<open>cleanup\<close> writes one access back (row.cpp 172 to 182).\<close>

definition occ_return_row :: "ts_t \<Rightarrow> 'd occ_acc \<Rightarrow> 'd occ_store \<Rightarrow> 'd occ_store option" where
  "occ_return_row end_ts a s =
     (if oa_type a = WR
      then (case occ_write (oa_data a) end_ts (s (oa_row a)) of
              None \<Rightarrow> None
            | Some row \<Rightarrow> Some (s(oa_row a := row)))
      else Some s)"

section \<open>Central validation\<close>

record set_ent =
  se_tn :: "64 word"
  se_txn :: txn_ptr
  se_rows :: "row_ptr list"

record OptCC =
  tnc :: "64 word"
  his_len :: nat
  active_len :: nat
  history :: "set_ent list"
  active :: "set_ent list"

definition occ_init :: OptCC where
  "occ_init = \<lparr>tnc = 0, his_len = 0, active_len = 0, history = [], active = []\<rparr>"

definition get_rw_set :: "txn_ptr \<Rightarrow> 'd occ_acc list \<Rightarrow> set_ent \<times> set_ent" where
  "get_rw_set txn accs =
     (\<lparr>se_tn = 0, se_txn = txn, se_rows = map oa_row (filter (\<lambda>a. oa_type a \<noteq> WR) accs)\<rparr>,
      \<lparr>se_tn = 0, se_txn = txn, se_rows = map oa_row (filter (\<lambda>a. oa_type a = WR) accs)\<rparr>)"

fun row_in_set :: "row_ptr \<Rightarrow> row_ptr list \<Rightarrow> bool" where
  "row_in_set r [] = False"
| "row_in_set r (q # qs) = (if r = q then True else row_in_set r qs)"

fun test_valid_rows :: "row_ptr list \<Rightarrow> row_ptr list \<Rightarrow> bool" where
  "test_valid_rows [] ys = True"
| "test_valid_rows (x # xs) ys = (if row_in_set x ys then False else test_valid_rows xs ys)"

definition test_valid :: "set_ent \<Rightarrow> set_ent \<Rightarrow> bool" where
  "test_valid set1 set2 = test_valid_rows (se_rows set1) (se_rows set2)"

text \<open>The first critical section, lines 130 to 152: \<open>finish_tn\<close>, the active writers and the history head.\<close>

definition central_enter :: "set_ent \<Rightarrow> OptCC \<Rightarrow> (64 word \<times> set_ent list \<times> set_ent list) \<times> OptCC" where
  "central_enter wset occ =
     (let occ1 = (if se_rows wset \<noteq> []
                  then occ\<lparr>active_len := active_len occ + 1, active := wset # active occ\<rparr> else occ)
      in ((tnc occ, active occ, history occ), occ1))"

text \<open>The tests against the history (153 to 162) and against the active writers (164 to 171).\<close>

fun history_check :: "64 word \<Rightarrow> set_ent \<Rightarrow> set_ent list \<Rightarrow> bool" where
  "history_check start_tn rset [] = True"
| "history_check start_tn rset (his # hs) =
     (if start_tn < se_tn his
      then if \<not> test_valid his rset then False else history_check start_tn rset hs
      else True)"

fun active_check :: "set_ent \<Rightarrow> set_ent \<Rightarrow> set_ent list \<Rightarrow> bool" where
  "active_check rset wset [] = True"
| "active_check rset wset (wact # ws) =
     (let valid = test_valid wact rset;
          valid = (if valid then test_valid wact wset else valid)
      in if \<not> valid then False else active_check rset wset ws)"

definition central_check :: "64 word \<Rightarrow> set_ent \<Rightarrow> set_ent \<Rightarrow> 64 word \<times> set_ent list \<times> set_ent list \<Rightarrow> bool" where
  "central_check start_tn rset wset = (\<lambda>(finish_tn, finish_active, his).
     (if start_tn < finish_tn
      then history_check start_tn rset (dropWhile (\<lambda>h. finish_tn < se_tn h) his) else True) \<and>
     active_check rset wset finish_active)"

text \<open>The second critical section, lines 177 to 207; \<open>None\<close> is a failed assertion or a walk off the list.\<close>

definition central_leave :: "set_ent \<Rightarrow> bool \<Rightarrow> OptCC \<Rightarrow> OptCC option" where
  "central_leave wset valid occ =
     (if se_rows wset = [] then Some occ
      else case remove_first (\<lambda>a. se_txn a = se_txn wset) (active occ) of
             None \<Rightarrow> None
           | Some (act, as) \<Rightarrow>
               (let occ1 = occ\<lparr>active := as, active_len := active_len occ - 1\<rparr>
                in if valid
                   then assert_then (history occ1 \<noteq> [] \<longrightarrow> se_tn (hd (history occ1)) = tnc occ1)
                     (Some (occ1\<lparr>tnc := tnc occ1 + 1,
                             history := wset\<lparr>se_tn := tnc occ1 + 1\<rparr> # history occ1,
                             his_len := his_len occ1 + 1\<rparr>))
                   else Some occ1))"

definition central_validate :: "txn_ptr \<Rightarrow> 64 word \<Rightarrow> 'd occ_acc list \<Rightarrow> OptCC \<Rightarrow> (RC \<times> OptCC) option" where
  "central_validate txn start_ts accs occ =
     (let (rset, wset) = get_rw_set txn accs;
          (seen, occ1) = central_enter wset occ;
          valid = central_check start_ts rset wset seen
      in case central_leave wset valid occ1 of
           None \<Rightarrow> None
         | Some occ2 \<Rightarrow> Some (if valid then RCOK else Abort, occ2))"

section \<open>The latch order\<close>

lemma strcmp_gt_trans: "\<not> strcmp_gt a b \<Longrightarrow> \<not> strcmp_gt b c \<Longrightarrow> \<not> strcmp_gt a c"
proof (induction a b arbitrary: c rule: strcmp_gt.induct)
  case (3 x xs y ys)
  then show ?case by (cases c) (auto split: if_splits)
qed (auto elim: strcmp_gt.elims)

lemma strcmp_gt_asym: "strcmp_gt a b \<Longrightarrow> \<not> strcmp_gt b a"
  by (induction a b rule: strcmp_gt.induct) (auto split: if_splits)

lemma strcmp_gt_total: "\<not> strcmp_gt a b \<Longrightarrow> \<not> strcmp_gt b a \<Longrightarrow> a = b"
proof (induction a b rule: strcmp_gt.induct)
  case (1 ys)
  then show ?case by (cases ys) auto
next
  case (3 x xs y ys)
  then show ?case by (auto split: if_splits)
qed simp

lemma strcmp_gt_irrefl [simp]: "\<not> strcmp_gt a a"
  using strcmp_gt_asym by blast

interpretation occ_sort: sort_order "occ_gt s" for s :: "'d occ_store"
proof
  show "\<not> occ_gt s b a" if "occ_gt s a b" for a b
    using that strcmp_gt_asym strcmp_gt_total by (auto simp: occ_gt_def)
  show "\<not> occ_gt s a c" if "\<not> occ_gt s a b" "\<not> occ_gt s b c" for a b c
  proof -
    let ?T = "\<lambda>x. ow_table (s (oa_row x))" and ?P = "\<lambda>x. ow_pk (s (oa_row x))"
    have n: "\<not> strcmp_gt (?T a) (?T b)" "\<not> strcmp_gt (?T b) (?T c)"
      "?T a = ?T b \<longrightarrow> ?P a \<le> ?P b" "?T b = ?T c \<longrightarrow> ?P b \<le> ?P c"
      using that by (auto simp: occ_gt_def not_less)
    have "?P a \<le> ?P c" if eq: "?T a = ?T c"
    proof -
      have "?T a = ?T b" using strcmp_gt_total [OF n(1)] n(2) eq by simp
      then show ?thesis using n(3,4) eq by simp
    qed
    then show ?thesis using strcmp_gt_trans [OF n(1,2)] by (auto simp: occ_gt_def)
  qed
qed

section \<open>Central validation\<close>

lemma row_in_set_iff: "row_in_set r qs \<longleftrightarrow> r \<in> set qs"
  by (induction qs) auto

lemma test_valid_iff: "test_valid a b \<longleftrightarrow> set (se_rows a) \<inter> set (se_rows b) = {}"
proof -
  have "test_valid_rows xs ys \<longleftrightarrow> set xs \<inter> set ys = {}" for xs ys
    by (induction xs) (auto simp: row_in_set_iff)
  then show ?thesis by (simp add: test_valid_def)
qed


text \<open>
  Any interleaving of the two critical sections by transactions that are inside validation at most
  once each.
\<close>

inductive central_reach :: "OptCC \<Rightarrow> bool" where
  init: "central_reach occ_init"
| enter: "central_reach occ \<Longrightarrow> se_txn wset \<notin> se_txn ` set (active occ) \<Longrightarrow>
    central_reach (snd (central_enter wset occ))"
| leave: "central_reach occ \<Longrightarrow> wset \<in> set (active occ) \<Longrightarrow> central_leave wset valid occ = Some occ' \<Longrightarrow>
    central_reach occ'"

fun numbered :: "64 word \<Rightarrow> set_ent list \<Rightarrow> bool" where
  "numbered n [] = (n = 0)"
| "numbered n (h # hs) = (se_tn h = n \<and> numbered (n - 1) hs)"

definition central_inv :: "OptCC \<Rightarrow> bool" where
  "central_inv occ \<longleftrightarrow> numbered (tnc occ) (history occ) \<and> distinct (map se_txn (active occ)) \<and>
     his_len occ = length (history occ) \<and> active_len occ = length (active occ)"

lemma numbered_head: "numbered n hs \<Longrightarrow> hs \<noteq> [] \<Longrightarrow> se_tn (hd hs) = n"
  by (cases hs) auto

lemma central_leave_inv:
  assumes inv: "central_inv occ" and act: "wset \<in> set (active occ)"
  shows "\<exists>occ'. central_leave wset valid occ = Some occ' \<and> central_inv occ'"
proof (cases "se_rows wset = []")
  case True
  then show ?thesis using inv by (simp add: central_leave_def)
next
  case False
  have "remove_first (\<lambda>a. se_txn a = se_txn wset) (active occ) \<noteq> None"
    using act by (auto simp: remove_first_None_iff)
  then obtain a as where rf: "remove_first (\<lambda>a. se_txn a = se_txn wset) (active occ) = Some (a, as)" by fastforce
  have "distinct (map se_txn as)" "length (active occ) = Suc (length as)"
    using remove_first_distinct_map [OF rf] remove_first_length [OF rf] inv by (auto simp: central_inv_def)
  then show ?thesis using False rf inv numbered_head [of "tnc occ" "history occ"]
    by (auto simp: central_leave_def central_inv_def Let_def)
qed

lemma central_reach_inv: "central_reach occ \<Longrightarrow> central_inv occ"
proof (induction rule: central_reach.induct)
  case init
  then show ?case by (simp add: central_inv_def occ_init_def)
next
  case (enter occ wset)
  then show ?case by (auto simp: central_inv_def central_enter_def)
next
  case (leave occ wset valid occ')
  then show ?case using central_leave_inv [of occ wset valid] by simp
qed

text \<open>
  However the critical sections of central validation interleave, a transaction that entered can
  always leave: it finds itself among the active writers and the assertion on the transaction
  counter holds, and the history stays numbered from the counter downwards without a gap.
\<close>

theorem central_validate_never_asserts:
  assumes "central_reach occ" and "wset \<in> set (active occ)"
  shows "\<exists>occ'. central_leave wset valid occ = Some occ' \<and> numbered (tnc occ') (history occ')"
  using central_leave_inv [OF central_reach_inv [OF assms(1)] assms(2)] by (auto simp: central_inv_def)

text \<open>
  Central validation misses conflicts.  It compares the start timestamp, which the thread drew
  from the global timestamp allocator, with numbers of the separate counter \<open>tnc\<close>.  A transaction
  that started first (timestamp 1) and read row \<open>r\<close> commits after another one (timestamp 2) that
  wrote \<open>r\<close> has committed in between; with the counter value at its start, 0, it would abort.
\<close>

theorem central_validate_misses_conflict:
  "\<exists>occ1 occ2 occ3.
     central_validate 2 2 [\<lparr>oa_type = WR, oa_row = r, oa_read = x, oa_data = y\<rparr>] occ_init = Some (RCOK, occ1) \<and>
     central_validate 1 1 [\<lparr>oa_type = RD, oa_row = r, oa_read = x, oa_data = x\<rparr>] occ1 = Some (RCOK, occ2) \<and>
     central_validate 1 (tnc occ_init) [\<lparr>oa_type = RD, oa_row = r, oa_read = x, oa_data = x\<rparr>] occ1 = Some (Abort, occ3)"
  by (simp add: central_validate_def get_rw_set_def central_enter_def central_check_def central_leave_def
      occ_init_def test_valid_def)

definition demo_wset :: set_ent where
  "demo_wset = \<lparr>se_tn = 0, se_txn = 1, se_rows = [5]\<rparr>"

theorem central_validate_never_asserts_witness:
  "\<exists>occ'. central_leave demo_wset True (snd (central_enter demo_wset occ_init)) = Some occ' \<and>
     numbered (tnc occ') (history occ')"
proof (rule central_validate_never_asserts)
  show "central_reach (snd (central_enter demo_wset occ_init))"
    by (rule central_reach.enter [OF central_reach.init]) (simp add: occ_init_def)
  show "demo_wset \<in> set (active (snd (central_enter demo_wset occ_init)))"
    by (simp add: central_enter_def demo_wset_def occ_init_def)
qed

end
