(* ===== verification/OCC_System.thy ===== *)
theory OCC_System
  imports OCC
begin

text \<open>
  Any number of threads running transactions under OCC with per-row validation, interleaved at the
  latched operations: reads under the row's latch, the latch loop of \<open>OptCC::per_row_validate\<close>
  with the test of each row, the end timestamp, the write-back of \<open>cleanup\<close> from the last access
  to the first, and the release of the latches.  A timestamp drawn from the allocator is larger
  than every one drawn before (\<open>Manager::get_ts\<close> with \<open>TS_CAS\<close> or \<open>TS_MUTEX\<close>).

  The log records the accesses of each transaction when it draws its end timestamp; it is not
  part of the program and only serves to state that the execution is equivalent to running the
  transactions of the log one after the other.
\<close>

datatype 'd occ_phase =
    Idle
  | Running ts_t "'d occ_acc list"
  | Latching ts_t "'d occ_acc list" "'d occ_acc list"
  | Writing ts_t "'d occ_acc list" "'d occ_acc list"
  | Releasing "row_ptr list"

record 'd occ_sys =
  os_rows :: "'d occ_store"
  os_last :: ts_t
  os_phase :: "nat \<Rightarrow> 'd occ_phase"
  os_log :: "'d occ_acc list list"

definition set_phase :: "nat \<Rightarrow> 'd occ_phase \<Rightarrow> 'd occ_sys \<Rightarrow> 'd occ_sys" where
  "set_phase t p s = s\<lparr>os_phase := (os_phase s)(t := p)\<rparr>"

inductive occ_step :: "'d occ_sys \<Rightarrow> 'd occ_sys \<Rightarrow> bool" where
  begin_txn: "os_phase s t = Idle \<Longrightarrow> os_last s < ts \<Longrightarrow>
    occ_step s (set_phase t (Running ts []) (s\<lparr>os_last := ts\<rparr>))"
| read: "os_phase s t = Running st accs \<Longrightarrow> ow_latch (os_rows s r) = None \<Longrightarrow>
    occ_access st R_REQ (os_rows s r) = Some (RCOK, Some v) \<Longrightarrow>
    occ_step s (set_phase t (Running st (accs @ [\<lparr>oa_type = ty, oa_row = r, oa_read = v, oa_data = v\<rparr>])) s)"
| read_abort: "os_phase s t = Running st accs \<Longrightarrow> ow_latch (os_rows s r) = None \<Longrightarrow>
    occ_access st R_REQ (os_rows s r) = Some (Abort, None) \<Longrightarrow>
    occ_step s (set_phase t Idle s)"
| modify: "os_phase s t = Running st (as @ a # bs) \<Longrightarrow>
    occ_step s (set_phase t (Running st (as @ a\<lparr>oa_data := d\<rparr> # bs)) s)"
| validate: "os_phase s t = Running st accs \<Longrightarrow>
    occ_step s (set_phase t (Latching st [] (occ_order bounded (os_rows s) accs)) s)"
| latch_ok: "os_phase s t = Latching st dn (a # td) \<Longrightarrow>
    occ_latch t st (oa_row a) (os_rows s) = Some (True, rows') \<Longrightarrow>
    occ_step s (set_phase t (Latching st (dn @ [a]) td) (s\<lparr>os_rows := rows'\<rparr>))"
| latch_bad: "os_phase s t = Latching st dn (a # td) \<Longrightarrow>
    occ_latch t st (oa_row a) (os_rows s) = Some (False, rows') \<Longrightarrow>
    occ_step s (set_phase t (Releasing (map oa_row (dn @ [a]))) (s\<lparr>os_rows := rows'\<rparr>))"
| latch_give_up: "os_phase s t = Latching st dn (a # td) \<Longrightarrow> ow_latch (os_rows s (oa_row a)) \<noteq> None \<Longrightarrow>
    occ_step s (set_phase t (Releasing (map oa_row dn)) s)"
| commit: "os_phase s t = Latching st dn [] \<Longrightarrow> os_last s < en \<Longrightarrow>
    occ_step s (set_phase t (Writing en dn (rev dn)) (s\<lparr>os_last := en, os_log := os_log s @ [dn]\<rparr>))"
| write_back: "os_phase s t = Writing en accs (a # td) \<Longrightarrow> occ_return_row en a (os_rows s) = Some rows' \<Longrightarrow>
    occ_step s (set_phase t (Writing en accs td) (s\<lparr>os_rows := rows'\<rparr>))"
| written: "os_phase s t = Writing en accs [] \<Longrightarrow>
    occ_step s (set_phase t (Releasing (map oa_row accs)) s)"
| release: "os_phase s t = Releasing (as @ r # bs) \<Longrightarrow>
    occ_step s (set_phase t (Releasing (as @ bs)) (s\<lparr>os_rows := set_latch None r (os_rows s)\<rparr>))"
| finish: "os_phase s t = Releasing [] \<Longrightarrow> occ_step s (set_phase t Idle s)"

definition occ_start :: "'d occ_sys \<Rightarrow> bool" where
  "occ_start s \<longleftrightarrow> (\<forall>t. os_phase s t = Idle) \<and> os_log s = [] \<and>
     (\<forall>r. ow_latch (os_rows s r) = None \<and> ow_wts (os_rows s r) \<le> os_last s)"

inductive occ_reach :: "'d occ_sys \<Rightarrow> 'd occ_sys \<Rightarrow> bool" for s0 where
  start: "occ_start s0 \<Longrightarrow> occ_reach s0 s0"
| step: "occ_reach s0 s \<Longrightarrow> occ_step s s' \<Longrightarrow> occ_reach s0 s'"

section \<open>Serial execution\<close>

definition apply_txn :: "'d occ_acc list \<Rightarrow> (row_ptr \<Rightarrow> 'd) \<Rightarrow> row_ptr \<Rightarrow> 'd" where
  "apply_txn accs db = fold (\<lambda>a db. if oa_type a = WR then db(oa_row a := oa_data a) else db) (rev accs) db"

fun serial_log :: "(row_ptr \<Rightarrow> 'd) \<Rightarrow> 'd occ_acc list list \<Rightarrow> bool" where
  "serial_log db [] = True"
| "serial_log db (x # xs) = ((\<forall>a\<in>set x. oa_read a = db (oa_row a)) \<and> serial_log (apply_txn x db) xs)"

definition replay :: "(row_ptr \<Rightarrow> 'd) \<Rightarrow> 'd occ_acc list list \<Rightarrow> row_ptr \<Rightarrow> 'd" where
  "replay db xs = fold apply_txn xs db"

lemma serial_log_snoc:
  "serial_log db (xs @ [x]) \<longleftrightarrow> serial_log db xs \<and> (\<forall>a\<in>set x. oa_read a = replay db xs (oa_row a))"
  by (induction xs arbitrary: db) (auto simp: replay_def)

lemma replay_snoc: "replay db (xs @ [x]) = apply_txn x (replay db xs)"
  by (simp add: replay_def)

lemma fold_writes_out:
  "(\<forall>a\<in>set as. oa_type a = WR \<longrightarrow> oa_row a \<noteq> r) \<Longrightarrow>
   fold (\<lambda>a db. if oa_type a = WR then db(oa_row a := oa_data a) else db) as db r = db r"
  by (induction as arbitrary: db) auto

lemma fold_writes_in:
  "distinct (map oa_row as) \<Longrightarrow> a \<in> set as \<Longrightarrow> oa_type a = WR \<Longrightarrow>
   fold (\<lambda>a db. if oa_type a = WR then db(oa_row a := oa_data a) else db) as db (oa_row a) = oa_data a"
proof (induction as arbitrary: db)
  case Nil
  then show ?case by simp
next
  case (Cons b as)
  show ?case
  proof (cases "a = b")
    case True
    have "\<forall>c\<in>set as. oa_type c = WR \<longrightarrow> oa_row c \<noteq> oa_row b"
      using Cons.prems(1) by (metis distinct.simps(2) image_eqI list.simps(9) set_map)
    then show ?thesis using True Cons.prems(3) by (simp add: fold_writes_out)
  next
    case False
    then show ?thesis using Cons by simp
  qed
qed

lemma apply_txn_out: "(\<forall>a\<in>set x. oa_type a = WR \<longrightarrow> oa_row a \<noteq> r) \<Longrightarrow> apply_txn x db r = db r"
  unfolding apply_txn_def by (rule fold_writes_out) simp

lemma apply_txn_in:
  assumes "distinct (map oa_row x)" and "a \<in> set x" and "oa_type a = WR"
  shows "apply_txn x db (oa_row a) = oa_data a"
  unfolding apply_txn_def using assms by (intro fold_writes_in) (simp_all add: rev_map [symmetric])

section \<open>The invariant\<close>

fun held_of :: "'d occ_phase \<Rightarrow> row_ptr list" where
  "held_of (Latching st dn td) = map oa_row dn"
| "held_of (Writing en accs td) = map oa_row accs"
| "held_of (Releasing rs) = rs"
| "held_of p = []"

text \<open>Writes that are committed but not in the row yet, with their end timestamp.\<close>

fun pend_of :: "'d occ_phase \<Rightarrow> (ts_t \<times> 'd occ_acc) set" where
  "pend_of (Writing en accs td) = {(en, a) | a. a \<in> set td \<and> oa_type a = WR}"
| "pend_of p = {}"

fun read_of :: "'d occ_phase \<Rightarrow> (ts_t \<times> 'd occ_acc) set" where
  "read_of (Running st accs) = {(st, a) | a. a \<in> set accs}"
| "read_of (Latching st dn td) = {(st, a) | a. a \<in> set dn \<union> set td}"
| "read_of p = {}"

fun valid_of :: "'d occ_phase \<Rightarrow> (ts_t \<times> 'd occ_acc) set" where
  "valid_of (Latching st dn td) = {(st, a) | a. a \<in> set dn}"
| "valid_of p = {}"

fun start_of :: "'d occ_phase \<Rightarrow> ts_t set" where
  "start_of (Running st accs) = {st}"
| "start_of (Latching st dn td) = {st}"
| "start_of p = {}"

fun wf_phase :: "'d occ_phase \<Rightarrow> bool" where
  "wf_phase (Writing en accs td) = (distinct (map oa_row td) \<and> set td \<subseteq> set accs)"
| "wf_phase p = True"

definition pending :: "'d occ_sys \<Rightarrow> row_ptr \<Rightarrow> bool" where
  "pending s r \<longleftrightarrow> (\<exists>t en a. (en, a) \<in> pend_of (os_phase s t) \<and> oa_row a = r)"

definition latch_inv :: "'d occ_sys \<Rightarrow> bool" where
  "latch_inv s \<longleftrightarrow> (\<forall>t. distinct (held_of (os_phase s t)) \<and> wf_phase (os_phase s t)) \<and>
     (\<forall>t r. ow_latch (os_rows s r) = Some t \<longleftrightarrow> r \<in> set (held_of (os_phase s t)))"

definition ts_inv :: "'d occ_sys \<Rightarrow> bool" where
  "ts_inv s \<longleftrightarrow> (\<forall>r. ow_wts (os_rows s r) \<le> os_last s) \<and>
     (\<forall>t. \<forall>st\<in>start_of (os_phase s t). st \<le> os_last s) \<and>
     (\<forall>t en a. (en, a) \<in> pend_of (os_phase s t) \<longrightarrow> en \<le> os_last s) \<and>
     (\<forall>t st a. (st, a) \<in> valid_of (os_phase s t) \<longrightarrow> ow_wts (os_rows s (oa_row a)) \<le> st) \<and>
     (\<forall>t t' st a en b. (st, a) \<in> read_of (os_phase s t) \<longrightarrow> (en, b) \<in> pend_of (os_phase s t') \<longrightarrow>
        oa_row a = oa_row b \<longrightarrow> st < en)"

definition value_inv :: "(row_ptr \<Rightarrow> 'd) \<Rightarrow> 'd occ_sys \<Rightarrow> bool" where
  "value_inv db s \<longleftrightarrow>
     (\<forall>t en a. (en, a) \<in> pend_of (os_phase s t) \<longrightarrow>
        replay db (os_log s) (oa_row a) = oa_data a \<and> ow_wts (os_rows s (oa_row a)) < en) \<and>
     (\<forall>r. \<not> pending s r \<longrightarrow> replay db (os_log s) r = ow_data (os_rows s r)) \<and>
     (\<forall>t st a. (st, a) \<in> read_of (os_phase s t) \<longrightarrow> ow_wts (os_rows s (oa_row a)) \<le> st \<longrightarrow>
        \<not> pending s (oa_row a) \<longrightarrow> oa_read a = replay db (os_log s) (oa_row a))"

definition occ_inv :: "(row_ptr \<Rightarrow> 'd) \<Rightarrow> 'd occ_sys \<Rightarrow> bool" where
  "occ_inv db s \<longleftrightarrow> latch_inv s \<and> ts_inv s \<and> value_inv db s \<and> serial_log db (os_log s)"

lemma set_phase_simps [simp]:
  "os_phase (set_phase t p s) t' = (if t' = t then p else os_phase s t')"
  "os_rows (set_phase t p s) = os_rows s" "os_last (set_phase t p s) = os_last s"
  "os_log (set_phase t p s) = os_log s"
  by (simp_all add: set_phase_def)

lemma pend_of_held: "wf_phase p \<Longrightarrow> (en, a) \<in> pend_of p \<Longrightarrow> oa_row a \<in> set (held_of p)"
  by (cases p) auto

lemma valid_of_read: "x \<in> valid_of p \<Longrightarrow> x \<in> read_of p"
  by (cases p) auto

lemma read_of_start: "(st, a) \<in> read_of p \<Longrightarrow> st \<in> start_of p"
  by (cases p) auto

text \<open>
  The steps that change no tuple, no write timestamp and no pending write: they keep the invariant when
  the new phase reads only what an earlier read or a row that is not pending justifies.
\<close>

lemma quiet_step:
  assumes inv: "occ_inv db s"
    and s': "s' = set_phase t p (s\<lparr>os_rows := rows', os_last := last'\<rparr>)"
    and same: "\<forall>r. ow_wts (rows' r) = ow_wts (os_rows s r) \<and> ow_data (rows' r) = ow_data (os_rows s r)"
    and latch: "latch_inv s'" and last: "os_last s \<le> last'"
    and pend: "pend_of (os_phase s t) = {}" "pend_of p = {}"
    and st: "\<forall>st\<in>start_of p. st \<le> last'"
    and val: "\<forall>st a. (st, a) \<in> valid_of p \<longrightarrow> ow_wts (os_rows s (oa_row a)) \<le> st"
    and rd: "\<forall>st a. (st, a) \<in> read_of p \<longrightarrow>
      (\<exists>b. (st, b) \<in> read_of (os_phase s t) \<and> oa_row b = oa_row a \<and> oa_read b = oa_read a) \<or>
      (\<not> pending s (oa_row a) \<and> oa_read a = ow_data (os_rows s (oa_row a)))"
  shows "occ_inv db s'"
proof -
  have pe: "pend_of (os_phase s' t') = pend_of (os_phase s t')" for t'
    using pend by (simp add: s')
  then have pd: "pending s' = pending s" by (simp add: pending_def fun_eq_iff)
  have "ts_inv s'"
    unfolding ts_inv_def
  proof (intro conjI allI ballI impI)
    show "ow_wts (os_rows s' r) \<le> os_last s'" for r
      using inv same last by (auto simp: occ_inv_def ts_inv_def s' intro: order.trans)
    show "x \<le> os_last s'" if "x \<in> start_of (os_phase s' t')" for t' x
    proof (cases "t' = t")
      case False
      then have "x \<le> os_last s" using that inv by (simp add: occ_inv_def ts_inv_def s')
      then show ?thesis using last by (simp add: s')
    qed (use that st in \<open>simp add: s'\<close>)
    show "e \<le> os_last s'" if "(e, a) \<in> pend_of (os_phase s' t')" for t' e a
    proof -
      have "(e, a) \<in> pend_of (os_phase s t')" using that pe by simp
      then have "e \<le> os_last s" using inv unfolding occ_inv_def ts_inv_def by blast
      then show ?thesis using last by (simp add: s')
    qed
    show "ow_wts (os_rows s' (oa_row a)) \<le> x" if "(x, a) \<in> valid_of (os_phase s' t')" for t' x a
      using that inv val same by (auto simp: occ_inv_def ts_inv_def s' split: if_splits)
    fix t1 t2 x a en b
    assume r: "(x, a) \<in> read_of (os_phase s' t1)" and b: "(en, b) \<in> pend_of (os_phase s' t2)"
      and eq: "oa_row a = oa_row b"
    have b': "(en, b) \<in> pend_of (os_phase s t2)" using b pe by simp
    then have "pending s (oa_row a)" using eq unfolding pending_def by metis
    then have "\<exists>c t3. (x, c) \<in> read_of (os_phase s t3) \<and> oa_row c = oa_row b"
    proof (cases "t1 = t")
      case True
      then have "(x, a) \<in> read_of p" using r by (simp add: s')
      then obtain c where "(x, c) \<in> read_of (os_phase s t)" "oa_row c = oa_row a"
        using rd \<open>pending s (oa_row a)\<close> by blast
      then show ?thesis using eq by auto
    next
      case False
      then have "(x, a) \<in> read_of (os_phase s t1)" using r by (simp add: s')
      then show ?thesis using eq by blast
    qed
    then show "x < en" using inv b' unfolding occ_inv_def ts_inv_def by blast
  qed
  moreover have "value_inv db s'"
    unfolding value_inv_def pd
  proof (intro conjI allI impI)
    fix t' en a assume "(en, a) \<in> pend_of (os_phase s' t')"
    then show "replay db (os_log s') (oa_row a) = oa_data a" "ow_wts (os_rows s' (oa_row a)) < en"
      using inv same pe by (auto simp: occ_inv_def value_inv_def s')
  next
    fix r assume "\<not> pending s r"
    then show "replay db (os_log s') r = ow_data (os_rows s' r)"
      using inv same by (simp add: occ_inv_def value_inv_def s')
  next
    fix t' x a assume r: "(x, a) \<in> read_of (os_phase s' t')" and w: "ow_wts (os_rows s' (oa_row a)) \<le> x"
      and np: "\<not> pending s (oa_row a)"
    have w': "ow_wts (os_rows s (oa_row a)) \<le> x" using w same by (simp add: s')
    have "(\<exists>b t3. (x, b) \<in> read_of (os_phase s t3) \<and> oa_row b = oa_row a \<and> oa_read b = oa_read a) \<or>
        oa_read a = ow_data (os_rows s (oa_row a))"
    proof (cases "t' = t")
      case True
      then have "(x, a) \<in> read_of p" using r by (simp add: s')
      then show ?thesis using rd by blast
    next
      case False
      then have "(x, a) \<in> read_of (os_phase s t')" using r by (simp add: s')
      then show ?thesis by blast
    qed
    then show "oa_read a = replay db (os_log s') (oa_row a)"
      using inv w' np by (auto simp: occ_inv_def value_inv_def s') 
  qed
  ultimately show ?thesis using inv latch by (simp add: occ_inv_def s')
qed

text \<open>Latch ownership after one thread's phase changed.\<close>

lemma latch_inv_same:
  assumes "latch_inv s" and "held_of p = held_of (os_phase s t)" and "wf_phase p"
  shows "latch_inv (set_phase t p (s\<lparr>os_last := l, os_log := g\<rparr>))"
  using assms by (simp add: latch_inv_def)

lemma latch_inv_take:
  assumes inv: "latch_inv s" and free: "ow_latch (os_rows s r) = None"
    and p: "held_of p = held_of (os_phase s t) @ [r]" "wf_phase p"
  shows "latch_inv (set_phase t p (s\<lparr>os_rows := set_latch (Some t) r (os_rows s), os_last := l\<rparr>))"
proof -
  have "r \<notin> set (held_of (os_phase s t'))" for t'
    using inv free unfolding latch_inv_def by (metis option.distinct(1))
  then show ?thesis using inv p by (auto simp: latch_inv_def set_latch_def)
qed

lemma latch_inv_drop:
  assumes inv: "latch_inv s" and p: "os_phase s t = Releasing (as @ r # bs)"
  shows "latch_inv (set_phase t (Releasing (as @ bs)) (s\<lparr>os_rows := set_latch None r (os_rows s), os_last := l\<rparr>))"
proof -
  have "r \<in> set (held_of (os_phase s t))" using p by simp
  then have own: "ow_latch (os_rows s r) = Some t" using inv unfolding latch_inv_def by blast
  have "distinct (held_of (os_phase s t))" using inv unfolding latch_inv_def by blast
  then have d: "distinct (as @ r # bs)" using p by simp
  have "ow_latch (os_rows s q) = Some t' \<longleftrightarrow> q \<in> set (held_of (os_phase s t'))" for t' q
    using inv by (simp add: latch_inv_def)
  then have "t' \<noteq> t \<Longrightarrow> r \<notin> set (held_of (os_phase s t'))" for t' using own by (metis option.inject)
  then show ?thesis using inv p d by (auto simp: latch_inv_def set_latch_def)
qed

text \<open>A latch that nobody holds protects no pending write.\<close>

lemma free_not_pending:
  assumes "latch_inv s" and "ow_latch (os_rows s r) = None"
  shows "\<not> pending s r"
proof
  assume "pending s r"
  then obtain t en a where "(en, a) \<in> pend_of (os_phase s t)" "oa_row a = r" by (auto simp: pending_def)
  then have "r \<in> set (held_of (os_phase s t))" using pend_of_held assms(1) by (auto simp: latch_inv_def)
  then show False using assms by (metis latch_inv_def option.distinct(1))
qed

lemma own_not_pending:
  assumes inv: "latch_inv s" and r: "r \<in> set (held_of (os_phase s t))" and p: "pend_of (os_phase s t) = {}"
  shows "\<not> pending s r"
proof
  assume "pending s r"
  then obtain t' en a where a: "(en, a) \<in> pend_of (os_phase s t')" "oa_row a = r" by (auto simp: pending_def)
  then have "r \<in> set (held_of (os_phase s t'))" using pend_of_held inv by (auto simp: latch_inv_def)
  then have "t' = t" using inv r unfolding latch_inv_def by (metis option.inject)
  then show False using a p by simp
qed

lemma pending_set_phase:
  assumes "pend_of (os_phase s t) = {}" and "os_phase s1 = os_phase s"
  shows "pending (set_phase t p s1) r \<longleftrightarrow> (\<exists>en a. (en, a) \<in> pend_of p \<and> oa_row a = r) \<or> pending s r"
proof -
  have "pending (set_phase t p s1) r \<longleftrightarrow> (\<exists>t' en a. (en, a) \<in> (if t' = t then pend_of p else pend_of (os_phase s t')) \<and> oa_row a = r)"
    using assms(2) by (simp add: pending_def if_distrib)
  also have "\<dots> \<longleftrightarrow> (\<exists>en a. (en, a) \<in> pend_of p \<and> oa_row a = r) \<or> pending s r"
    unfolding pending_def using assms(1) by (metis empty_iff)
  finally show ?thesis .
qed

lemma commit_inv:
  assumes inv: "occ_inv db s" and p: "os_phase s t = Latching st dn []" and en: "os_last s < en"
  shows "occ_inv db (set_phase t (Writing en dn (rev dn)) (s\<lparr>os_last := en, os_log := os_log s @ [dn]\<rparr>))"
    (is "occ_inv db ?s'")
proof -
  let ?A = "replay db (os_log s)"
  have li: "latch_inv s" and ti: "ts_inv s" and vi: "value_inv db s" and ser: "serial_log db (os_log s)"
    using inv by (auto simp: occ_inv_def)
  have d: "distinct (map oa_row dn)" using li p unfolding latch_inv_def by (metis held_of.simps(1))
  have np: "\<not> pending s (oa_row a)" if "a \<in> set dn" for a
    by (rule own_not_pending [OF li, of _ t]) (use p that in simp_all)
  have wst: "ow_wts (os_rows s (oa_row a)) \<le> st" if "a \<in> set dn" for a
    using ti p that unfolding ts_inv_def by (metis (mono_tags, lifting) mem_Collect_eq valid_of.simps(1))
  have reads: "oa_read a = ?A (oa_row a)" if a: "a \<in> set dn" for a
  proof -
    have "(st, a) \<in> read_of (os_phase s t)" using p a by simp
    then show ?thesis using vi np [OF a] wst [OF a] unfolding value_inv_def by blast
  qed
  have le: "x \<le> os_last s" if "x \<in> start_of (os_phase s t')" for t' x
    using ti that by (auto simp: ts_inv_def)
  have wle: "ow_wts (os_rows s r) \<le> os_last s" for r using ti by (simp add: ts_inv_def)
  have A': "replay db (os_log ?s') = apply_txn dn ?A" by (simp add: replay_snoc)
  have pend': "pending ?s' r \<longleftrightarrow> pending s r \<or> (\<exists>a\<in>set dn. oa_type a = WR \<and> oa_row a = r)" for r
    using pending_set_phase [of s t "s\<lparr>os_last := en, os_log := os_log s @ [dn]\<rparr>" "Writing en dn (rev dn)" r] p
    by auto
  have latch': "latch_inv ?s'"
    using latch_inv_same [OF li, where p = "Writing en dn (rev dn)" and t = t and l = en and g = "os_log s @ [dn]"] p d
    by (simp add: rev_map [symmetric])
  moreover have "ts_inv ?s'" unfolding ts_inv_def
  proof (intro conjI allI ballI impI)
    show "ow_wts (os_rows ?s' r) \<le> os_last ?s'" for r using wle [of r] en by simp
    show "x \<le> os_last ?s'" if "x \<in> start_of (os_phase ?s' t')" for t' x
      using le [of x t'] that en by (auto split: if_splits)
    show "e \<le> os_last ?s'" if "(e, a) \<in> pend_of (os_phase ?s' t')" for t' e a
    proof (cases "t' = t")
      case False
      then have "(e, a) \<in> pend_of (os_phase s t')" using that by simp
      then have "e \<le> os_last s" using ti unfolding ts_inv_def by blast
      then show ?thesis using en by simp
    qed (use that in auto)
    show "ow_wts (os_rows ?s' (oa_row a)) \<le> x" if "(x, a) \<in> valid_of (os_phase ?s' t')" for t' x a
      using ti that by (auto simp: ts_inv_def split: if_splits)
    fix t1 t2 x a e b
    assume r: "(x, a) \<in> read_of (os_phase ?s' t1)" and b: "(e, b) \<in> pend_of (os_phase ?s' t2)" "oa_row a = oa_row b"
    have r': "(x, a) \<in> read_of (os_phase s t1)" using r by (auto split: if_splits)
    show "x < e"
    proof (cases "t2 = t")
      case True
      then have "e = en" using b by auto
      then show ?thesis using le [OF read_of_start [OF r']] en by simp
    next
      case False
      then show ?thesis using ti r' b unfolding ts_inv_def by auto
    qed
  qed
  moreover have "value_inv db ?s'" unfolding value_inv_def A'
  proof (intro conjI allI impI)
    fix t' e a assume a: "(e, a) \<in> pend_of (os_phase ?s' t')"
    show "apply_txn dn ?A (oa_row a) = oa_data a" "ow_wts (os_rows ?s' (oa_row a)) < e"
    proof (atomize (full), cases "t' = t")
      case True
      then have "a \<in> set dn" "oa_type a = WR" "e = en" using a by auto
      then show "apply_txn dn ?A (oa_row a) = oa_data a \<and> ow_wts (os_rows ?s' (oa_row a)) < e"
        using apply_txn_in [OF d] wle [of "oa_row a"] en by (auto intro: le_less_trans)
    next
      case False
      then have a': "(e, a) \<in> pend_of (os_phase s t')" using a by simp
      then have "pending s (oa_row a)" by (auto simp: pending_def)
      then have "\<forall>b\<in>set dn. oa_type b = WR \<longrightarrow> oa_row b \<noteq> oa_row a" using np by metis
      then show "apply_txn dn ?A (oa_row a) = oa_data a \<and> ow_wts (os_rows ?s' (oa_row a)) < e"
        using vi a' by (simp add: apply_txn_out value_inv_def)
    qed
  next
    fix r assume "\<not> pending ?s' r"
    then show "apply_txn dn ?A r = ow_data (os_rows ?s' r)"
      using vi by (simp add: pend' apply_txn_out value_inv_def)
  next
    fix t' x a assume r: "(x, a) \<in> read_of (os_phase ?s' t')" and w: "ow_wts (os_rows ?s' (oa_row a)) \<le> x"
      and n: "\<not> pending ?s' (oa_row a)"
    have r': "(x, a) \<in> read_of (os_phase s t')" using r by (auto split: if_splits)
    have "apply_txn dn ?A (oa_row a) = ?A (oa_row a)" using n by (auto simp: pend' intro!: apply_txn_out)
    then show "oa_read a = apply_txn dn ?A (oa_row a)" using vi r' w n by (simp add: value_inv_def pend')
  qed
  moreover have "serial_log db (os_log ?s')" using ser reads by (simp add: serial_log_snoc)
  ultimately show ?thesis by (simp add: occ_inv_def)
qed

lemma write_read_inv:
  assumes inv: "occ_inv db s" and p: "os_phase s t = Writing en accs (a # td)" and rd: "oa_type a \<noteq> WR"
  shows "occ_inv db (set_phase t (Writing en accs td) s)" (is "occ_inv db ?s'")
proof -
  have view: "pend_of (os_phase ?s' t') = pend_of (os_phase s t')" "read_of (os_phase ?s' t') = read_of (os_phase s t')"
    "valid_of (os_phase ?s' t') = valid_of (os_phase s t')" "start_of (os_phase ?s' t') = start_of (os_phase s t')" for t'
    using p rd by (auto split: if_splits)
  then have "pending ?s' = pending s" by (simp add: pending_def fun_eq_iff)
  moreover have "wf_phase (os_phase s t)" using inv by (simp add: occ_inv_def latch_inv_def)
  then have "latch_inv ?s'"
    using latch_inv_same [of s "Writing en accs td" t "os_log s" "os_last s"] inv p by (simp add: occ_inv_def)
  ultimately show ?thesis
    using inv view by (simp add: occ_inv_def ts_inv_def value_inv_def del: set_phase_simps(1))
qed

lemma write_new_inv:
  assumes inv: "occ_inv db s" and p: "os_phase s t = Writing en accs (a # td)" and wr: "oa_type a = WR"
    and rows': "rows' = (os_rows s)(oa_row a := (os_rows s (oa_row a))\<lparr>ow_data := oa_data a, ow_wts := en\<rparr>)"
  shows "occ_inv db (set_phase t (Writing en accs td) (s\<lparr>os_rows := rows'\<rparr>))" (is "occ_inv db ?s'")
proof -
  let ?r = "oa_row a" and ?A = "replay db (os_log s)"
  have li: "latch_inv s" and ti: "ts_inv s" and vi: "value_inv db s" and ser: "serial_log db (os_log s)"
    using inv by (auto simp: occ_inv_def)
  have wf: "distinct (map oa_row (a # td))" "set (a # td) \<subseteq> set accs"
    using li p unfolding latch_inv_def by (metis wf_phase.simps(1))+
  have held: "?r \<in> set (held_of (os_phase s t))" using p wf(2) by auto
  have pend_a: "(en, a) \<in> pend_of (os_phase s t)" using p wr by simp
  then have en: "en \<le> os_last s" using ti unfolding ts_inv_def by blast
  have pend': "(e, b) \<in> pend_of (os_phase ?s' t') \<Longrightarrow> (e, b) \<in> pend_of (os_phase s t') \<and> oa_row b \<noteq> ?r" for e b t'
  proof -
    assume b: "(e, b) \<in> pend_of (os_phase ?s' t')"
    show ?thesis
    proof (cases "t' = t")
      case True
      then have "b \<in> set td" "e = en" "oa_type b = WR" using b by auto
      moreover have "?r \<notin> oa_row ` set td" using wf(1) by (metis distinct.simps(2) list.simps(9) set_map)
      ultimately show ?thesis using True p by (metis (mono_tags, lifting) image_eqI list.set_intros(2) mem_Collect_eq pend_of.simps(1))
    next
      case False
      then have b': "(e, b) \<in> pend_of (os_phase s t')" using b by simp
      then have "oa_row b \<in> set (held_of (os_phase s t'))" using pend_of_held li by (auto simp: latch_inv_def)
      then have "oa_row b \<noteq> ?r" using held False li unfolding latch_inv_def by (metis option.inject)
      then show ?thesis using b' by blast
    qed
  qed
  have other: "oa_row b = ?r" if "(e, b) \<in> pend_of (os_phase s t')" "(e, b) \<notin> pend_of (os_phase ?s' t')" for e b t'
    using that p by (auto split: if_splits)
  have pending': "pending ?s' r \<longleftrightarrow> pending s r \<and> r \<noteq> ?r" for r
    unfolding pending_def using pend' other by metis
  have view: "read_of (os_phase ?s' t') = read_of (os_phase s t')" "valid_of (os_phase ?s' t') = valid_of (os_phase s t')"
    "start_of (os_phase ?s' t') = start_of (os_phase s t')" for t'
    using p by auto
  have lt: "x < en" if "(x, b) \<in> read_of (os_phase s t')" "oa_row b = ?r" for x b t'
    using ti that pend_a unfolding ts_inv_def by blast
  have rows: "os_rows ?s' = rows'" "os_last ?s' = os_last s" "os_log ?s' = os_log s" by simp_all
  have wt: "ow_wts (rows' r) = (if r = ?r then en else ow_wts (os_rows s r))"
    "ow_data (rows' r) = (if r = ?r then oa_data a else ow_data (os_rows s r))"
    "ow_latch (rows' r) = ow_latch (os_rows s r)" for r
    by (simp_all add: rows')
  have "distinct (held_of (os_phase s t))" using li unfolding latch_inv_def by blast
  then have "latch_inv ?s'" using li p wf by (auto simp: latch_inv_def wt)
  moreover have "ts_inv ?s'" unfolding ts_inv_def rows view
  proof (intro conjI allI ballI impI)
    show "ow_wts (rows' r) \<le> os_last s" for r using ti en by (simp add: ts_inv_def wt)
    show "x \<le> os_last s" if "x \<in> start_of (os_phase s t')" for t' x using ti that by (simp add: ts_inv_def)
    show "e \<le> os_last s" if "(e, b) \<in> pend_of (os_phase ?s' t')" for t' e b
      using pend' [OF that] ti unfolding ts_inv_def by blast
    show "ow_wts (rows' (oa_row b)) \<le> x" if v: "(x, b) \<in> valid_of (os_phase s t')" for t' x b
    proof -
      have "oa_row b \<in> set (held_of (os_phase s t'))" "t' \<noteq> t" using v p by (cases "os_phase s t'"; auto)+
      then have "oa_row b \<noteq> ?r" using held li unfolding latch_inv_def by (metis option.inject)
      then show ?thesis using ti v by (simp add: ts_inv_def wt)
    qed
    show "x < e" if "(x, b) \<in> read_of (os_phase s t1)" "(e, c) \<in> pend_of (os_phase ?s' t2)" "oa_row b = oa_row c"
      for t1 t2 x b e c
      using ti that pend' unfolding ts_inv_def by blast
  qed
  moreover have "value_inv db ?s'" unfolding value_inv_def rows view pending'
  proof (intro conjI allI impI)
    fix t' e b assume "(e, b) \<in> pend_of (os_phase ?s' t')"
    then have b: "(e, b) \<in> pend_of (os_phase s t')" "oa_row b \<noteq> ?r" using pend' by blast+
    show "?A (oa_row b) = oa_data b" "ow_wts (rows' (oa_row b)) < e" using vi b by (auto simp: value_inv_def wt)
  next
    fix r assume "\<not> (pending s r \<and> r \<noteq> ?r)"
    then show "?A r = ow_data (rows' r)" using vi pend_a by (auto simp: value_inv_def wt)
  next
    fix t' x b assume r: "(x, b) \<in> read_of (os_phase s t')" and w: "ow_wts (rows' (oa_row b)) \<le> x"
      and n: "\<not> (pending s (oa_row b) \<and> oa_row b \<noteq> ?r)"
    have "oa_row b \<noteq> ?r" using lt [OF r] w by (auto simp: wt)
    then show "oa_read b = ?A (oa_row b)" using vi r w n by (simp add: value_inv_def wt)
  qed
  ultimately show ?thesis using ser by (simp add: occ_inv_def)
qed

lemma occ_step_inv:
  assumes "occ_step s s'" and inv: "occ_inv db s"
  shows "occ_inv db s'"
  using assms(1)
proof cases
  case (begin_txn t ts)
  have "latch_inv s'" using inv begin_txn latch_inv_same [of s "Running ts []" t "os_log s" ts]
    by (simp add: occ_inv_def)
  then show ?thesis using begin_txn
    by (intro quiet_step [OF inv, where t = t and p = "Running ts []" and rows' = "os_rows s" and last' = ts]) simp_all
next
  case (read t st accs r v ty)
  let ?p = "Running st (accs @ [\<lparr>oa_type = ty, oa_row = r, oa_read = v, oa_data = v\<rparr>])"
  have li: "latch_inv s" and ti: "ts_inv s" using inv by (auto simp: occ_inv_def)
  have v: "v = ow_data (os_rows s r)" using read(4) by (auto simp: occ_access_def split: if_splits)
  have "latch_inv s'" using li read latch_inv_same [of s ?p t "os_log s" "os_last s"] by simp
  moreover have "st \<le> os_last s" using ti read(2) unfolding ts_inv_def by (metis insertI1 start_of.simps(1))
  ultimately show ?thesis using read v free_not_pending [OF li read(3)]
    by (intro quiet_step [OF inv, where t = t and p = ?p and rows' = "os_rows s" and last' = "os_last s"]) auto
next
  case (read_abort t st accs r)
  have "latch_inv s'" using inv read_abort latch_inv_same [of s Idle t "os_log s" "os_last s"]
    by (simp add: occ_inv_def)
  then show ?thesis using read_abort
    by (intro quiet_step [OF inv, where t = t and p = Idle and rows' = "os_rows s" and last' = "os_last s"]) simp_all
next
  case (modify t st as a bs d)
  let ?p = "Running st (as @ a\<lparr>oa_data := d\<rparr> # bs)"
  have li: "latch_inv s" and ti: "ts_inv s" using inv by (auto simp: occ_inv_def)
  have "latch_inv s'" using li modify latch_inv_same [of s ?p t "os_log s" "os_last s"] by simp
  moreover have "st \<le> os_last s" using ti modify(2) unfolding ts_inv_def by (metis insertI1 start_of.simps(1))
  ultimately show ?thesis using modify
    by (intro quiet_step [OF inv, where t = t and p = ?p and rows' = "os_rows s" and last' = "os_last s"]) auto
next
  case (validate t st accs bounded)
  let ?p = "Latching st [] (occ_order bounded (os_rows s) accs)"
  have li: "latch_inv s" and ti: "ts_inv s" using inv by (auto simp: occ_inv_def)
  have "latch_inv s'" using li validate latch_inv_same [of s ?p t "os_log s" "os_last s"] by simp
  moreover have "st \<le> os_last s" using ti validate(2) unfolding ts_inv_def by (metis insertI1 start_of.simps(1))
  moreover have "set (occ_order bounded (os_rows s) accs) = set accs" by (simp add: occ_order_def)
  ultimately show ?thesis using validate
    by (intro quiet_step [OF inv, where t = t and p = ?p and rows' = "os_rows s" and last' = "os_last s"]) auto
next
  case (latch_ok t st dn a td rows')
  let ?p = "Latching st (dn @ [a]) td"
  have li: "latch_inv s" and ti: "ts_inv s" using inv by (auto simp: occ_inv_def)
  have l: "ow_latch (os_rows s (oa_row a)) = None" "rows' = set_latch (Some t) (oa_row a) (os_rows s)"
    "ow_wts (os_rows s (oa_row a)) \<le> st"
    using latch_ok(3) by (auto simp: occ_latch_def occ_validate_def split: if_splits)
  have "latch_inv s'" using latch_inv_take [OF li l(1), of ?p t "os_last s"] latch_ok l(2) by simp
  moreover have "st \<le> os_last s" using ti latch_ok(2) unfolding ts_inv_def by (metis insertI1 start_of.simps(2))
  moreover have "\<forall>b\<in>set dn. ow_wts (os_rows s (oa_row b)) \<le> st"
    using ti latch_ok(2) unfolding ts_inv_def by (metis (mono_tags, lifting) mem_Collect_eq valid_of.simps(1))
  ultimately show ?thesis using latch_ok l
    by (intro quiet_step [OF inv, where t = t and p = ?p and rows' = rows' and last' = "os_last s"])
      (auto simp: set_latch_def)
next
  case (latch_bad t st dn a td rows')
  let ?p = "Releasing (map oa_row (dn @ [a]))"
  have li: "latch_inv s" using inv by (auto simp: occ_inv_def)
  have l: "ow_latch (os_rows s (oa_row a)) = None" "rows' = set_latch (Some t) (oa_row a) (os_rows s)"
    using latch_bad(3) by (auto simp: occ_latch_def split: if_splits)
  have "latch_inv s'" using latch_inv_take [OF li l(1), of ?p t "os_last s"] latch_bad l(2) by simp
  then show ?thesis using latch_bad l
    by (intro quiet_step [OF inv, where t = t and p = ?p and rows' = rows' and last' = "os_last s"])
      (auto simp: set_latch_def)
next
  case (latch_give_up t st dn a td)
  let ?p = "Releasing (map oa_row dn)"
  have "latch_inv s'" using inv latch_give_up latch_inv_same [of s ?p t "os_log s" "os_last s"]
    by (simp add: occ_inv_def)
  then show ?thesis using latch_give_up
    by (intro quiet_step [OF inv, where t = t and p = ?p and rows' = "os_rows s" and last' = "os_last s"]) simp_all
next
  case (commit t st dn en)
  then show ?thesis using commit_inv [OF inv] by simp
next
  case (write_back t en accs a td rows')
  show ?thesis
  proof (cases "oa_type a = WR")
    case True
    then have "rows' = (os_rows s)(oa_row a := (os_rows s (oa_row a))\<lparr>ow_data := oa_data a, ow_wts := en\<rparr>)"
      using write_back(3) by (auto simp: occ_return_row_def occ_write_def Let_def split: option.splits)
    then show ?thesis using write_new_inv [OF inv write_back(2) True] write_back(1) by simp
  next
    case False
    then have "rows' = os_rows s" using write_back(3) by (simp add: occ_return_row_def)
    then show ?thesis using write_read_inv [OF inv write_back(2) False] write_back(1) by (simp add: set_phase_def)
  qed
next
  case (written t en accs)
  let ?p = "Releasing (map oa_row accs)"
  have "latch_inv s'" using inv written latch_inv_same [of s ?p t "os_log s" "os_last s"]
    by (simp add: occ_inv_def)
  then show ?thesis using written
    by (intro quiet_step [OF inv, where t = t and p = ?p and rows' = "os_rows s" and last' = "os_last s"]) simp_all
next
  case (release t as r bs)
  have "latch_inv s'" using inv release latch_inv_drop [of s t as r bs "os_last s"] by (simp add: occ_inv_def)
  then show ?thesis using release
    by (intro quiet_step [OF inv, where t = t and p = "Releasing (as @ bs)" and
        rows' = "set_latch None r (os_rows s)" and last' = "os_last s"]) (auto simp: set_latch_def)
next
  case (finish t)
  have "latch_inv s'" using inv finish latch_inv_same [of s Idle t "os_log s" "os_last s"]
    by (simp add: occ_inv_def)
  then show ?thesis using finish
    by (intro quiet_step [OF inv, where t = t and p = Idle and rows' = "os_rows s" and last' = "os_last s"]) simp_all
qed

lemma occ_start_inv: "occ_start s \<Longrightarrow> occ_inv (\<lambda>r. ow_data (os_rows s r)) s"
  by (simp add: occ_start_def occ_inv_def latch_inv_def ts_inv_def value_inv_def replay_def)

lemma occ_reach_inv: "occ_reach s0 s \<Longrightarrow> occ_inv (\<lambda>r. ow_data (os_rows s0 r)) s"
  by (induction rule: occ_reach.induct) (auto intro: occ_start_inv occ_step_inv)


text \<open>
  The write-back of a committed OCC transaction never trips the assertion that its end timestamp is
  above the row's write timestamp, and no thread but the one that holds a row's latch is about
  to write it.
\<close>

theorem occ_write_back_never_asserts:
  assumes "occ_reach s0 s" and "os_phase s t = Writing en accs (a # td)"
  shows "occ_return_row en a (os_rows s) \<noteq> None \<and> ow_latch (os_rows s (oa_row a)) = Some t"
proof -
  have li: "latch_inv s" and vi: "value_inv (\<lambda>r. ow_data (os_rows s0 r)) s"
    using occ_reach_inv [OF assms(1)] by (auto simp: occ_inv_def)
  have "a \<in> set accs" using li assms(2) unfolding latch_inv_def by (metis in_mono list.set_intros(1) wf_phase.simps(1))
  then have "ow_latch (os_rows s (oa_row a)) = Some t" using li assms(2) by (simp add: latch_inv_def)
  moreover have "oa_type a = WR \<longrightarrow> ow_wts (os_rows s (oa_row a)) < en"
    using vi assms(2) unfolding value_inv_def by (metis (mono_tags, lifting) list.set_intros(1) mem_Collect_eq pend_of.simps(1))
  ultimately show ?thesis by (simp add: occ_return_row_def occ_write_def Let_def)
qed

section \<open>Witnesses\<close>

text \<open>Thread 0 reads row 5, changes its copy, latches and validates it, and draws its end timestamp.\<close>

definition occ_demo0 :: "nat occ_sys" where
  "occ_demo0 = \<lparr>os_rows = (\<lambda>r. \<lparr>ow_table = ''t'', ow_pk = of_nat r, ow_wts = 0, ow_data = r, ow_latch = None\<rparr>),
     os_last = 0, os_phase = (\<lambda>_. Idle), os_log = []\<rparr>"

abbreviation occ_demo_acc :: "nat \<Rightarrow> nat occ_acc" where
  "occ_demo_acc d \<equiv> \<lparr>oa_type = WR, oa_row = 5, oa_read = 5, oa_data = d\<rparr>"

lemma occ_demo_run:
  "\<exists>s. occ_reach occ_demo0 s \<and> os_phase s 0 = Writing 2 [occ_demo_acc 100] [occ_demo_acc 100] \<and>
     os_log s = [[occ_demo_acc 100]]"
proof -
  let ?s1 = "set_phase 0 (Running 1 []) (occ_demo0\<lparr>os_last := 1\<rparr>)"
  let ?s2 = "set_phase 0 (Running 1 ([] @ [occ_demo_acc 5])) ?s1"
  let ?s3 = "set_phase 0 (Running 1 ([] @ (occ_demo_acc 5)\<lparr>oa_data := 100\<rparr> # [])) ?s2"
  let ?s4 = "set_phase 0 (Latching 1 [] (occ_order True (os_rows ?s3) [occ_demo_acc 100])) ?s3"
  let ?rows = "set_latch (Some 0) 5 (os_rows occ_demo0)"
  let ?s5 = "set_phase 0 (Latching 1 ([] @ [occ_demo_acc 100]) []) (?s4\<lparr>os_rows := ?rows\<rparr>)"
  let ?s6 = "set_phase 0 (Writing 2 ([] @ [occ_demo_acc 100]) (rev ([] @ [occ_demo_acc 100])))
    (?s5\<lparr>os_last := 2, os_log := os_log ?s5 @ [[] @ [occ_demo_acc 100]]\<rparr>)"
  have "occ_reach occ_demo0 occ_demo0"
    by (rule occ_reach.start) (simp add: occ_start_def occ_demo0_def)
  then have "occ_reach occ_demo0 ?s1"
    by (rule occ_reach.step) (rule occ_step.begin_txn; simp add: occ_demo0_def)
  then have "occ_reach occ_demo0 ?s2"
    by (rule occ_reach.step) (rule occ_step.read; simp add: occ_demo0_def occ_access_def)
  then have "occ_reach occ_demo0 ?s3"
    by (rule occ_reach.step) (rule occ_step.modify; simp)
  then have "occ_reach occ_demo0 ?s4"
    by (rule occ_reach.step) (rule occ_step.validate; simp)
  then have "occ_reach occ_demo0 ?s5"
    by (rule occ_reach.step)
      (rule occ_step.latch_ok; simp add: occ_order_def occ_demo0_def occ_latch_def occ_validate_def)
  then have "occ_reach occ_demo0 ?s6"
    by (rule occ_reach.step) (rule occ_step.commit; simp)
  then show ?thesis by (rule exI [of _ ?s6, OF conjI]) (simp add: occ_demo0_def)
qed


theorem occ_write_back_never_asserts_witness:
  "\<exists>s :: nat occ_sys. os_phase s 0 = Writing 2 [occ_demo_acc 100] [occ_demo_acc 100] \<and>
     occ_return_row 2 (occ_demo_acc 100) (os_rows s) \<noteq> None \<and> ow_latch (os_rows s 5) = Some 0"
proof -
  obtain s where s: "occ_reach occ_demo0 s" "os_phase s 0 = Writing 2 [occ_demo_acc 100] [occ_demo_acc 100]"
    using occ_demo_run by blast
  show ?thesis using s occ_write_back_never_asserts [OF s] by (intro exI [of _ s]) simp
qed

end
