(* ===== verification/Row_Storage.thy ===== *)
theory Row_Storage
  imports DBx_Prelude
begin

text \<open>
  Schemas and rows: storage/catalog.h, catalog.cpp, table.h, table.cpp and the data part of row.h.  A
  schema is an array of columns with byte offsets; a row is a block of bytes that is read and written
  at those offsets.  The configuration flag \<open>BYPASS_CATALOG\<close> is an argument: when it is set the
  caller's offset and size are used, otherwise the schema's.

  A copy outside the allocated bytes, a \<open>strcpy\<close> past the 80 bytes of a name, and a failed assertion
  are \<open>None\<close>.  The contents of fresh memory are a parameter.
\<close>

section \<open>Catalog\<close>

record Column =
  col_id :: "64 word"
  col_size :: UInt32
  col_index :: UInt32
  col_type :: string
  col_name :: string

text \<open>\<open>columns\<close> are the first \<open>field_cnt\<close> slots of the array.\<close>

record Catalog =
  table_name :: string
  columns :: "Column list"
  max_field_cnt :: nat
  tuple_size :: UInt32

definition catalog_init :: "string \<Rightarrow> nat \<Rightarrow> Catalog" where
  "catalog_init name field_cnt = \<lparr>table_name = name, columns = [], max_field_cnt = field_cnt, tuple_size = 0\<rparr>"

definition strcpy80 :: "string \<Rightarrow> string option" where
  "strcpy80 s = (if length s < 80 then Some s else None)"

definition add_col :: "string \<Rightarrow> 64 word \<Rightarrow> string \<Rightarrow> Catalog \<Rightarrow> Catalog option" where
  "add_col name sz type c =
     assert_then (length (columns c) < max_field_cnt c)
       (case strcpy80 type of
          None \<Rightarrow> None
        | Some ty \<Rightarrow>
            (case strcpy80 name of
               None \<Rightarrow> None
             | Some nm \<Rightarrow>
                 Some (c\<lparr>columns := columns c @
                          [\<lparr>col_id = of_nat (length (columns c)), col_size = ucast sz, col_index = tuple_size c,
                            col_type = ty, col_name = nm\<rparr>],
                        tuple_size := tuple_size c + ucast sz\<rparr>)))"

fun find_col :: "string \<Rightarrow> nat \<Rightarrow> Column list \<Rightarrow> nat" where
  "find_col name i [] = i"
| "find_col name i (x # xs) = (if col_name x = name then i else find_col name (Suc i) xs)"

definition get_field_id :: "string \<Rightarrow> Catalog \<Rightarrow> nat option" where
  "get_field_id name c =
     (let i = find_col name 0 (columns c) in assert_then (i < length (columns c)) (Some i))"

definition get_field_size :: "nat \<Rightarrow> Catalog \<Rightarrow> nat" where
  "get_field_size i c = unat (col_size (columns c ! i))"

definition get_field_index :: "nat \<Rightarrow> Catalog \<Rightarrow> nat" where
  "get_field_index i c = unat (col_index (columns c ! i))"

definition get_field_type :: "nat \<Rightarrow> Catalog \<Rightarrow> string" where
  "get_field_type i c = col_type (columns c ! i)"

definition get_field_name :: "nat \<Rightarrow> Catalog \<Rightarrow> string" where
  "get_field_name i c = col_name (columns c ! i)"

definition get_field_type_of :: "string \<Rightarrow> Catalog \<Rightarrow> string option" where
  "get_field_type_of name c = map_option (\<lambda>i. get_field_type i c) (get_field_id name c)"

definition get_field_index_of :: "string \<Rightarrow> Catalog \<Rightarrow> nat option" where
  "get_field_index_of name c = map_option (\<lambda>i. get_field_index i c) (get_field_id name c)"

section \<open>Tables and rows\<close>

type_synonym byte = "8 word"

record table_t =
  tbl_name :: string
  tbl_schema :: Catalog

definition table_init :: "Catalog \<Rightarrow> table_t" where
  "table_init c = \<lparr>tbl_name = table_name c, tbl_schema = c\<rparr>"

record row_t =
  row_data :: "byte list"
  row_table :: table_t
  row_part :: "64 word"
  row_id :: "64 word"

text \<open>\<open>row_t::init\<close> with the number of bytes to allocate, and with existing memory.\<close>

definition row_init :: "(nat \<Rightarrow> byte) \<Rightarrow> table_t \<Rightarrow> 64 word \<Rightarrow> 64 word \<Rightarrow> nat \<Rightarrow> row_t" where
  "row_init fresh t part rid sz =
     \<lparr>row_data = map fresh [0..<sz], row_table = t, row_part = part, row_id = rid\<rparr>"

definition row_init_data :: "table_t \<Rightarrow> 64 word \<Rightarrow> 64 word \<Rightarrow> byte list \<Rightarrow> row_t" where
  "row_init_data t part rid d = \<lparr>row_data = d, row_table = t, row_part = part, row_id = rid\<rparr>"

definition switch_schema :: "table_t \<Rightarrow> row_t \<Rightarrow> row_t" where
  "switch_schema t r = r\<lparr>row_table := t\<rparr>"

definition get_new_row :: "(nat \<Rightarrow> byte) \<Rightarrow> table_t \<Rightarrow> 64 word \<Rightarrow> 64 word \<Rightarrow> nat \<Rightarrow> row_t" where
  "get_new_row fresh t part rid sz = row_init fresh t part rid sz"

definition get_new_rows :: "(nat \<Rightarrow> byte) \<Rightarrow> table_t \<Rightarrow> 64 word \<Rightarrow> 64 word \<Rightarrow> nat \<Rightarrow> nat \<Rightarrow> row_t list" where
  "get_new_rows fresh t part rid sz cnt = map (\<lambda>_. row_init fresh t part rid sz) [0..<cnt]"

definition memcpy :: "nat \<Rightarrow> byte list \<Rightarrow> nat \<Rightarrow> byte list \<Rightarrow> byte list option" where
  "memcpy pos src n dst =
     (if n \<le> length src \<and> pos + n \<le> length dst then Some (take pos dst @ take n src @ drop (pos + n) dst) else None)"

definition set_data :: "byte list \<Rightarrow> nat \<Rightarrow> row_t \<Rightarrow> row_t option" where
  "set_data d sz r = map_option (\<lambda>b. r\<lparr>row_data := b\<rparr>) (memcpy 0 d sz (row_data r))"

definition get_tuple_size :: "row_t \<Rightarrow> nat" where
  "get_tuple_size r = unat (tuple_size (tbl_schema (row_table r)))"

definition row_copy :: "bool \<Rightarrow> row_t \<Rightarrow> nat \<Rightarrow> row_t \<Rightarrow> row_t option" where
  "row_copy bypass src sz r = set_data (row_data src) (if bypass then sz else get_tuple_size src) r"

definition set_value :: "bool \<Rightarrow> nat \<Rightarrow> byte list \<Rightarrow> nat \<Rightarrow> nat \<Rightarrow> row_t \<Rightarrow> row_t option" where
  "set_value bypass i ptr pos datasize r =
     (let c = tbl_schema (row_table r);
          n = if bypass then datasize else get_field_size i c;
          p = if bypass then pos else get_field_index i c
      in map_option (\<lambda>b. r\<lparr>row_data := b\<rparr>) (memcpy p ptr n (row_data r)))"

text \<open>\<open>set_value\<close> by column name; without the catalog the column number is not looked up.\<close>

definition set_value_of :: "bool \<Rightarrow> string \<Rightarrow> byte list \<Rightarrow> nat \<Rightarrow> nat \<Rightarrow> row_t \<Rightarrow> row_t option" where
  "set_value_of bypass name ptr pos datasize r =
     (if bypass then set_value True 0 ptr pos datasize r
      else (case get_field_id name (tbl_schema (row_table r)) of
              None \<Rightarrow> None
            | Some i \<Rightarrow> set_value False i ptr pos datasize r))"

text \<open>\<open>get_value\<close> reads a value of \<open>n\<close> bytes at the field.\<close>

definition get_value :: "bool \<Rightarrow> nat \<Rightarrow> nat \<Rightarrow> nat \<Rightarrow> row_t \<Rightarrow> byte list option" where
  "get_value bypass i n pos r =
     (let p = if bypass then pos else get_field_index i (tbl_schema (row_table r))
      in if p + n \<le> length (row_data r) then Some (take n (drop p (row_data r))) else None)"

section \<open>The layout of a schema\<close>

type_synonym col_spec = "string \<times> 64 word \<times> string"

fun add_cols :: "col_spec list \<Rightarrow> Catalog \<Rightarrow> Catalog option" where
  "add_cols [] c = Some c"
| "add_cols ((name, sz, type) # cs) c = (case add_col name sz type c of None \<Rightarrow> None | Some c' \<Rightarrow> add_cols cs c')"

text \<open>The fields lie behind each other without gaps and end at the tuple size.\<close>

definition layout_ok :: "Catalog \<Rightarrow> bool" where
  "layout_ok c \<longleftrightarrow>
     (\<forall>i<length (columns c). get_field_index i c = (\<Sum>k<i. get_field_size k c)) \<and>
     unat (tuple_size c) = (\<Sum>k<length (columns c). get_field_size k c)"

definition size_of :: "col_spec \<Rightarrow> nat" where
  "size_of s = unat (fst (snd s))"

lemma add_col_layout:
  assumes l: "layout_ok c" and fit: "unat (tuple_size c) + unat sz < 2 ^ 32"
    and cnt: "length (columns c) < max_field_cnt c" and short: "length name < 80" "length type < 80"
  obtains c' where "add_col name sz type c = Some c'" "layout_ok c'"
    "unat (tuple_size c') = unat (tuple_size c) + unat sz" "length (columns c') = Suc (length (columns c))"
    "max_field_cnt c' = max_field_cnt c" "get_field_size (length (columns c)) c' = unat sz"
    "get_field_name (length (columns c)) c' = name"
    "\<forall>i<length (columns c). get_field_size i c' = get_field_size i c \<and> get_field_name i c' = get_field_name i c"
proof -
  let ?col = "\<lparr>col_id = of_nat (length (columns c)), col_size = ucast sz, col_index = tuple_size c,
    col_type = type, col_name = name\<rparr>"
  let ?c = "c\<lparr>columns := columns c @ [?col], tuple_size := tuple_size c + ucast sz\<rparr>"
  have us: "unat (ucast sz :: UInt32) = unat sz" using fit by (simp add: unsigned_ucast_eq unsigned_take_bit_eq take_bit_nat_eq_self)
  have tot: "unat (tuple_size c + ucast sz) = unat (tuple_size c) + unat sz"
    using fit us by (simp add: unat_word_ariths)
  have old: "get_field_size i ?c = get_field_size i c" "get_field_index i ?c = get_field_index i c"
    "get_field_name i ?c = get_field_name i c" if "i < length (columns c)" for i
    using that by (simp_all add: get_field_size_def get_field_index_def get_field_name_def nth_append)
  have last: "get_field_size (length (columns c)) ?c = unat sz"
    "get_field_index (length (columns c)) ?c = unat (tuple_size c)" "get_field_name (length (columns c)) ?c = name"
    using us by (simp_all add: get_field_size_def get_field_index_def get_field_name_def)
  have sums: "(\<Sum>k<i. get_field_size k ?c) = (\<Sum>k<i. get_field_size k c)" if "i \<le> length (columns c)" for i
    using that old by (intro sum.cong) auto
  have "layout_ok ?c"
    using l old last tot sums by (auto simp: layout_ok_def less_Suc_eq)
  moreover have "add_col name sz type c = Some ?c" using cnt short by (simp add: add_col_def strcpy80_def)
  ultimately show ?thesis using that [of ?c] tot last old by simp
qed

lemma add_cols_layout:
  assumes "layout_ok c" "unat (tuple_size c) + sum_list (map size_of cs) < 2 ^ 32"
    "length (columns c) + length cs \<le> max_field_cnt c" "\<forall>(nm, sz, ty)\<in>set cs. length nm < 80 \<and> length ty < 80"
  shows "\<exists>c'. add_cols cs c = Some c' \<and> layout_ok c' \<and> length (columns c') = length (columns c) + length cs \<and>
    unat (tuple_size c') = unat (tuple_size c) + sum_list (map size_of cs) \<and>
    (\<forall>i<length (columns c). get_field_size i c' = get_field_size i c \<and> get_field_name i c' = get_field_name i c) \<and>
    (\<forall>i<length cs. get_field_size (length (columns c) + i) c' = size_of (cs ! i) \<and>
       get_field_name (length (columns c) + i) c' = fst (cs ! i))"
  using assms
proof (induction cs arbitrary: c)
  case Nil
  then show ?case by simp
next
  case (Cons x cs)
  obtain nm sz ty where x: "x = (nm, sz, ty)" by (cases x)
  have sx: "size_of x = unat sz" by (simp add: x size_of_def)
  have fit: "unat (tuple_size c) + unat sz < 2 ^ 32" "length (columns c) < max_field_cnt c"
    "length nm < 80" "length ty < 80"
    using Cons.prems(2-4) by (auto simp: x size_of_def)
  from add_col_layout [OF Cons.prems(1) fit] obtain c1 where
    c1: "add_col nm sz ty c = Some c1" "layout_ok c1" "unat (tuple_size c1) = unat (tuple_size c) + unat sz"
      "length (columns c1) = Suc (length (columns c))" "max_field_cnt c1 = max_field_cnt c"
      "get_field_size (length (columns c)) c1 = unat sz" "get_field_name (length (columns c)) c1 = nm"
      "\<forall>i<length (columns c). get_field_size i c1 = get_field_size i c \<and> get_field_name i c1 = get_field_name i c" .
  have "unat (tuple_size c1) + sum_list (map size_of cs) < 2 ^ 32" "length (columns c1) + length cs \<le> max_field_cnt c1"
    "\<forall>(nm, sz, ty)\<in>set cs. length nm < 80 \<and> length ty < 80"
    using Cons.prems(2-4) c1(3-5) sx by (simp_all add: x)
  from Cons.IH [OF c1(2) this] obtain c' where
    c': "add_cols cs c1 = Some c'" "layout_ok c'" "length (columns c') = Suc (length (columns c)) + length cs"
      "unat (tuple_size c') = unat (tuple_size c) + unat sz + sum_list (map size_of cs)"
      "\<forall>i<Suc (length (columns c)). get_field_size i c' = get_field_size i c1 \<and> get_field_name i c' = get_field_name i c1"
      "\<forall>i<length cs. get_field_size (Suc (length (columns c)) + i) c' = size_of (cs ! i) \<and>
         get_field_name (Suc (length (columns c)) + i) c' = fst (cs ! i)"
    using c1(3,4) by auto
  have "get_field_size (length (columns c) + i) c' = size_of ((x # cs) ! i) \<and>
      get_field_name (length (columns c) + i) c' = fst ((x # cs) ! i)" if "i < length (x # cs)" for i
    using that c'(5,6) c1(6,7) by (cases i) (simp_all add: x size_of_def)
  moreover have "\<forall>i<length (columns c). get_field_size i c' = get_field_size i c \<and> get_field_name i c' = get_field_name i c"
    using c'(5) c1(8) by simp
  ultimately show ?case using c'(1-4) c1(1) sx x by (intro exI [of _ c']) simp
qed

lemma layout_ok_init: "layout_ok (catalog_init nm k)"
  by (simp add: layout_ok_def catalog_init_def)

lemma find_col_first:
  assumes "i < length cs" "\<forall>k<i. col_name (cs ! k) \<noteq> nm" "col_name (cs ! i) = nm"
  shows "find_col nm s cs = s + i"
  using assms
proof (induction cs arbitrary: i s)
  case (Cons x cs)
  show ?case
  proof (cases i)
    case (Suc j)
    have "\<forall>k<j. col_name (cs ! k) \<noteq> nm" using Cons.prems(2) Suc by (metis Suc_less_eq nth_Cons_Suc)
    moreover have "col_name x \<noteq> nm" using Cons.prems(2) Suc by (metis nth_Cons_0 zero_less_Suc)
    ultimately show ?thesis using Cons.IH [of j "Suc s"] Cons.prems Suc by simp
  qed (use Cons.prems in simp)
qed simp

lemma layout_field_bounds:
  assumes "layout_ok c" "i < length (columns c)"
  shows "get_field_index i c + get_field_size i c \<le> unat (tuple_size c)"
proof -
  have "(\<Sum>k<Suc i. get_field_size k c) \<le> (\<Sum>k<length (columns c). get_field_size k c)"
    using assms(2) by (intro sum_mono2) auto
  then show ?thesis using assms by (simp add: layout_ok_def)
qed

lemma layout_fields_disjoint:
  assumes "layout_ok c" "i < j" "j < length (columns c)"
  shows "get_field_index i c + get_field_size i c \<le> get_field_index j c"
proof -
  have "(\<Sum>k<Suc i. get_field_size k c) \<le> (\<Sum>k<j. get_field_size k c)"
    using assms(2) by (intro sum_mono2) auto
  then show ?thesis using assms by (simp add: layout_ok_def)
qed

lemma memcpy_read_back:
  "memcpy p v n d = Some d' \<Longrightarrow> take n (drop p d') = take n v"
  by (auto simp: memcpy_def split: if_splits)

lemma memcpy_frame:
  assumes "memcpy p v n d = Some d'" "q + m \<le> p \<or> p + n \<le> q"
  shows "take m (drop q d') = take m (drop q d)" "length d' = length d"
proof -
  have d': "n \<le> length v" "p + n \<le> length d" "d' = take p d @ take n v @ drop (p + n) d"
    using assms(1) by (auto simp: memcpy_def split: if_splits)
  show len: "length d' = length d" using d' by simp
  have nth: "d' ! k = d ! k" if "k < p \<or> p + n \<le> k" "k < length d" for k
    using that d' by (auto simp: nth_append min_def)
  show "take m (drop q d') = take m (drop q d)"
  proof (rule nth_equalityI)
    fix k assume k: "k < length (take m (drop q d'))"
    then have "q + k < p \<or> p + n \<le> q + k" using assms(2) by auto
    moreover have "q + k < length d" using k len by auto
    ultimately have "d' ! (q + k) = d ! (q + k)" by (rule nth)
    moreover have "q \<le> length d" using k len by auto
    ultimately show "take m (drop q d') ! k = take m (drop q d) ! k" using k len by simp
  qed (simp add: len)
qed

section \<open>Round trips\<close>

definition schema_of :: "string \<Rightarrow> col_spec list \<Rightarrow> Catalog option" where
  "schema_of nm cs = add_cols cs (catalog_init nm (length cs))"

lemma schema_of_layout:
  assumes "sum_list (map size_of cs) < 2 ^ 32" "\<forall>(nm, sz, ty)\<in>set cs. length nm < 80 \<and> length ty < 80"
  obtains c where "schema_of nm cs = Some c" "layout_ok c" "length (columns c) = length cs"
    "unat (tuple_size c) = sum_list (map size_of cs)"
    "\<forall>i<length cs. get_field_size i c = size_of (cs ! i) \<and> get_field_name i c = fst (cs ! i)"
  using add_cols_layout [of "catalog_init nm (length cs)" cs] assms layout_ok_init [of nm "length cs"]
  by (auto simp: schema_of_def catalog_init_def)

text \<open>
  C32. A schema built by \<open>init\<close> and \<open>add_col\<close> from columns with different names and together less than
  \<open>2^32\<close> bytes is usable: every name is found at its own position, a value stored in a column with
  \<open>set_value\<close> is read back by \<open>get_value\<close>, and the store changes no other column.
\<close>

theorem set_value_get_value:
  assumes "sum_list (map size_of cs) < 2 ^ 32" and "\<forall>(nm, sz, ty)\<in>set cs. length nm < 80 \<and> length ty < 80"
    and "distinct (map fst cs)" and "i < length cs" and "length v = size_of (cs ! i)"
  shows "\<exists>c. schema_of nm cs = Some c \<and> get_field_id (fst (cs ! i)) c = Some i \<and>
    (\<forall>r p s. tbl_schema (row_table r) = c \<longrightarrow> length (row_data r) = get_tuple_size r \<longrightarrow>
      (\<exists>r'. set_value False i v p s r = Some r' \<and> get_value False i (size_of (cs ! i)) p r' = Some v \<and>
        (\<forall>j<length cs. j \<noteq> i \<longrightarrow>
          get_value False j (size_of (cs ! j)) p r' = get_value False j (size_of (cs ! j)) p r)))"
proof -
  from schema_of_layout [OF assms(1,2), of nm] obtain c where
    c: "schema_of nm cs = Some c" "layout_ok c" "length (columns c) = length cs"
      "\<forall>i<length cs. get_field_size i c = size_of (cs ! i) \<and> get_field_name i c = fst (cs ! i)" .
  have "\<forall>k<i. col_name (columns c ! k) \<noteq> fst (cs ! i)"
  proof (intro allI impI)
    fix k assume "k < i"
    then have "fst (cs ! k) \<noteq> fst (cs ! i)"
      using assms(3,4) nth_eq_iff_index_eq [of "map fst cs" k i] by simp
    then show "col_name (columns c ! k) \<noteq> fst (cs ! i)" using c(4) \<open>k < i\<close> assms(4) by (simp add: get_field_name_def)
  qed
  then have "find_col (fst (cs ! i)) 0 (columns c) = 0 + i"
    using c(3,4) assms(4) by (intro find_col_first) (auto simp: get_field_name_def)
  then have fid: "get_field_id (fst (cs ! i)) c = Some i"
    using c(3) assms(4) by (simp add: get_field_id_def Let_def assert_then_def)
  have rw: "\<exists>r'. set_value False i v p s r = Some r' \<and> get_value False i (size_of (cs ! i)) p r' = Some v \<and>
        (\<forall>j<length cs. j \<noteq> i \<longrightarrow>
          get_value False j (size_of (cs ! j)) p r' = get_value False j (size_of (cs ! j)) p r)"
    if r: "tbl_schema (row_table r) = c" "length (row_data r) = get_tuple_size r" for r p s
  proof -
    have bnd: "get_field_index j c + size_of (cs ! j) \<le> length (row_data r)" if "j < length cs" for j
      using layout_field_bounds [OF c(2)] that c(3,4) r by (simp add: get_tuple_size_def)
    obtain d' where d': "memcpy (get_field_index i c) v (size_of (cs ! i)) (row_data r) = Some d'"
      using bnd [OF assms(4)] assms(5) by (simp add: memcpy_def)
    let ?r = "r\<lparr>row_data := d'\<rparr>"
    have set: "set_value False i v p s r = Some ?r" using d' c(4) assms(4) r(1) by (simp add: set_value_def)
    have len: "length d' = length (row_data r)" using memcpy_frame(2) [OF d', of "get_field_index i c" 0] by simp
    have "get_value False i (size_of (cs ! i)) p ?r = Some v"
      using memcpy_read_back [OF d'] bnd [OF assms(4)] len r(1) assms(5) by (simp add: get_value_def)
    moreover have "get_value False j (size_of (cs ! j)) p ?r = get_value False j (size_of (cs ! j)) p r"
      if j: "j < length cs" "j \<noteq> i" for j
    proof -
      have "get_field_index j c + size_of (cs ! j) \<le> get_field_index i c \<or>
          get_field_index i c + size_of (cs ! i) \<le> get_field_index j c"
        using layout_fields_disjoint [OF c(2), of i j] layout_fields_disjoint [OF c(2), of j i] c(3,4) j assms(4)
        by (metis linorder_neqE_nat)
      from memcpy_frame(1) [OF d' this] show ?thesis using len r(1) by (simp add: get_value_def Let_def)
    qed
    ultimately show ?thesis using set by blast
  qed
  show ?thesis using c(1) fid rw by blast
qed

definition demo_cols :: "col_spec list" where
  "demo_cols = [(''W_ID'', 8, ''int64_t''), (''W_NAME'', 10, ''string''), (''W_YTD'', 8, ''double'')]"

definition demo_row :: "Catalog \<Rightarrow> row_t" where
  "demo_row c = row_init (\<lambda>_. 0) (table_init c) 0 1 26"

theorem set_value_get_value_witness:
  "\<exists>c r'. schema_of ''WAREHOUSE'' demo_cols = Some c \<and> get_field_id ''W_NAME'' c = Some 1 \<and>
     set_value False 1 (replicate 10 7) 0 0 (demo_row c) = Some r' \<and>
     get_value False 1 10 0 r' = Some (replicate 10 7) \<and> get_value False 2 8 0 r' = get_value False 2 8 0 (demo_row c)"
proof -
  have "sum_list (map size_of demo_cols) < 2 ^ 32" "\<forall>(nm, sz, ty)\<in>set demo_cols. length nm < 80 \<and> length ty < 80"
    "distinct (map fst demo_cols)" "1 < length demo_cols" "length (replicate 10 (7 :: byte)) = size_of (demo_cols ! 1)"
    by (simp_all add: demo_cols_def size_of_def)
  from set_value_get_value [OF this, of "''WAREHOUSE''"] obtain c where
    c: "schema_of ''WAREHOUSE'' demo_cols = Some c" "get_field_id (fst (demo_cols ! 1)) c = Some 1"
      "\<And>r. tbl_schema (row_table r) = c \<Longrightarrow> length (row_data r) = get_tuple_size r \<Longrightarrow>
        \<exists>r'. set_value False 1 (replicate 10 7) 0 0 r = Some r' \<and>
          get_value False 1 (size_of (demo_cols ! 1)) 0 r' = Some (replicate 10 7) \<and>
          (\<forall>j<length demo_cols. j \<noteq> 1 \<longrightarrow>
            get_value False j (size_of (demo_cols ! j)) 0 r' = get_value False j (size_of (demo_cols ! j)) 0 r)" by blast
  have "tuple_size c = 26"
  proof -
    have "schema_of ''WAREHOUSE'' demo_cols \<noteq> None \<and> tuple_size (the (schema_of ''WAREHOUSE'' demo_cols)) = 26" by code_simp
    then show ?thesis using c(1) by simp
  qed
  then have row: "tbl_schema (row_table (demo_row c)) = c" "length (row_data (demo_row c)) = get_tuple_size (demo_row c)"
    by (simp_all add: demo_row_def row_init_def table_init_def get_tuple_size_def)
  have sz: "fst (demo_cols ! 1) = ''W_NAME''" "size_of (demo_cols ! 1) = 10" "length demo_cols = 3" "size_of (demo_cols ! 2) = 8"
    by (simp_all add: demo_cols_def size_of_def)
  from c(3) [OF row] obtain r' where
    r': "set_value False 1 (replicate 10 7) 0 0 (demo_row c) = Some r'" "get_value False 1 10 0 r' = Some (replicate 10 7)"
      "\<forall>j<3. j \<noteq> 1 \<longrightarrow> get_value False j (size_of (demo_cols ! j)) 0 r' = get_value False j (size_of (demo_cols ! j)) 0 (demo_row c)"
    unfolding sz by blast
  have "get_value False 2 8 0 r' = get_value False 2 8 0 (demo_row c)" using r'(3) [rule_format, of 2] sz(4) by simp
  then show ?thesis using c(1,2) r'(1,2) unfolding sz by blast
qed

end
