(* ===== verification/Row_TS.thy ===== *)
theory Row_TS
  imports Row_Storage
begin

text \<open>
  Basic timestamp ordering: concurrency\_control/row\_ts.h and row\_ts.cpp.  A row keeps the largest
  timestamps of its reads and writes and three lists of requests: pre-writes, reads that wait for an
  older pre-write, and writes that wait for an older read.  \<open>access\<close> runs under the row's latch (or the
  central manager's), so one call is one step.

  A transaction number stands for one attempt of a transaction, with one timestamp.  \<open>full\<close> is the
  tuple size of the schema, \<open>n\<close> the size the caller passes, \<open>twr\<close> the flag \<open>TS_TWR\<close> of Thomas' write
  rule.  Freeing memory is left out.
\<close>

record TsReqEntry =
  req_txn :: txn_ptr
  req_row :: "byte list option"
  req_ts :: ts_t

record Row_ts =
  ts_row :: "byte list"
  ts_wts :: ts_t
  ts_rts :: ts_t
  min_wts :: ts_t
  min_rts :: ts_t
  min_pts :: ts_t
  readreq :: "TsReqEntry list"
  writereq :: "TsReqEntry list"
  prereq :: "TsReqEntry list"
  preq_len :: "64 word"

record ts_txns =
  cur_row :: "txn_ptr \<Rightarrow> byte list"
  ts_ready :: "txn_ptr \<Rightarrow> bool"

type_synonym ts_st = "Row_ts \<times> ts_txns"

definition ts_init :: "byte list \<Rightarrow> Row_ts" where
  "ts_init d = \<lparr>ts_row = d, ts_wts = 0, ts_rts = 0, min_wts = UINT64_MAX, min_rts = UINT64_MAX,
     min_pts = UINT64_MAX, readreq = [], writereq = [], prereq = [], preq_len = 0\<rparr>"

text \<open>\<open>copy\<close> of a block of bytes; within bounds it is \<open>memcpy\<close> of row.h.\<close>

definition copy_data :: "nat \<Rightarrow> byte list \<Rightarrow> byte list \<Rightarrow> byte list" where
  "copy_data n src dst = take n src @ drop n dst"

lemma copy_data_memcpy: "n \<le> length src \<Longrightarrow> n \<le> length dst \<Longrightarrow> memcpy 0 src n dst = Some (copy_data n src dst)"
  by (simp add: memcpy_def copy_data_def)

definition buffer_req :: "TsType \<Rightarrow> txn_ptr \<Rightarrow> ts_t \<Rightarrow> byte list option \<Rightarrow> Row_ts \<Rightarrow> Row_ts option" where
  "buffer_req type txn ts row s =
     (let e = \<lparr>req_txn = txn, req_row = row, req_ts = ts\<rparr>
      in case type of
           R_REQ \<Rightarrow> Some (s\<lparr>readreq := e # readreq s, min_rts := if ts < min_rts s then ts else min_rts s\<rparr>)
         | W_REQ \<Rightarrow> assert_then (row \<noteq> None)
             (Some (s\<lparr>writereq := e # writereq s, min_wts := if ts < min_wts s then ts else min_wts s\<rparr>))
         | P_REQ \<Rightarrow> Some (s\<lparr>preq_len := preq_len s + 1, prereq := e # prereq s,
                            min_pts := if ts < min_pts s then ts else min_pts s\<rparr>)
         | XP_REQ \<Rightarrow> Some s)"

text \<open>
  \<open>debuffer_req\<close>: by transaction from the list of pre-writes, the only list it is called for, and by
  timestamp from the others.  The second returns the removed requests, last found first.
\<close>

definition debuffer_txn :: "txn_ptr \<Rightarrow> Row_ts \<Rightarrow> Row_ts option" where
  "debuffer_txn txn s =
     (case remove_first (\<lambda>e. req_txn e = txn) (prereq s) of
        None \<Rightarrow> None
      | Some (_, es) \<Rightarrow> Some (s\<lparr>prereq := es, preq_len := preq_len s - 1\<rparr>))"

fun debuffer_ts :: "ts_t \<Rightarrow> TsReqEntry list \<Rightarrow> TsReqEntry list \<Rightarrow> TsReqEntry list \<times> TsReqEntry list" where
  "debuffer_ts ts ret [] = (ret, [])"
| "debuffer_ts ts ret (e # es) =
     (if req_ts e \<le> ts then debuffer_ts ts (e # ret) es
      else (case debuffer_ts ts ret es of (r, q) \<Rightarrow> (r, e # q)))"

definition cal_min :: "TsReqEntry list \<Rightarrow> ts_t" where
  "cal_min q = fold (\<lambda>e m. if req_ts e < m then req_ts e else m) q UINT64_MAX"

definition do_read :: "nat \<Rightarrow> TsReqEntry \<Rightarrow> ts_st \<Rightarrow> ts_st" where
  "do_read full e = (\<lambda>(s, x).
     (s\<lparr>ts_rts := if ts_rts s < req_ts e then req_ts e else ts_rts s\<rparr>,
      x\<lparr>cur_row := (cur_row x)(req_txn e := copy_data full (ts_row s) (cur_row x (req_txn e))),
        ts_ready := (ts_ready x)(req_txn e := True)\<rparr>))"

text \<open>The loop over the writes that became ready: their pre-writes go and the smallest timestamp is kept.\<close>

fun ready_writes :: "TsReqEntry list \<Rightarrow> ts_t \<Rightarrow> TsReqEntry option \<Rightarrow> Row_ts \<Rightarrow> (TsReqEntry option \<times> Row_ts) option" where
  "ready_writes [] young_ts young s = Some (young, s)"
| "ready_writes (e # es) young_ts young s =
     (case debuffer_txn (req_txn e) s of
        None \<Rightarrow> None
      | Some s1 \<Rightarrow>
          if req_ts e < young_ts then ready_writes es (req_ts e) (Some e) s1
          else ready_writes es young_ts young s1)"

lemma debuffer_txn_length: "debuffer_txn t s = Some s' \<Longrightarrow> length (prereq s) = Suc (length (prereq s'))"
  by (auto simp: debuffer_txn_def dest: remove_first_length split: option.splits)

lemma ready_writes_length:
  "ready_writes es y yo s = Some (z, s') \<Longrightarrow> length (prereq s) = length es + length (prereq s')"
proof (induction es arbitrary: y yo s)
  case (Cons e es)
  then show ?case by (auto dest!: debuffer_txn_length split: option.splits if_splits)
qed simp


text \<open>
  One round of the loop of \<open>update_buffer\<close>; the flag says whether the loop goes on.  The write reads
  the chosen request through a pointer, which is null when every ready write has the largest
  timestamp.
\<close>

definition write_stage :: "nat \<Rightarrow> ts_st \<Rightarrow> (bool \<times> ts_st) option" where
  "write_stage full = (\<lambda>(s, x).
     let mr = cal_min (readreq s)
     in if \<not> min_rts s < mr then Some (False, s, x)
        else (case debuffer_ts mr [] (writereq s) of (ready, rest) \<Rightarrow>
          let s1 = s\<lparr>min_rts := mr, writereq := rest\<rparr>
          in if ready = [] then Some (False, s1, x)
             else (case ready_writes ready UINT64_MAX None s1 of
                     Some (Some y, s2) \<Rightarrow>
                       (case req_row y of
                          None \<Rightarrow> None
                        | Some d \<Rightarrow>
                            Some (True, s2\<lparr>ts_row := copy_data full d (ts_row s2),
                                           ts_wts := if ts_wts s2 < req_ts y then req_ts y else ts_wts s2\<rparr>, x))
                   | _ \<Rightarrow> None)))"

definition buffer_round :: "nat \<Rightarrow> ts_st \<Rightarrow> (bool \<times> ts_st) option" where
  "buffer_round full = (\<lambda>(s, x).
     let m = cal_min (prereq s)
     in assert_then (min_pts s \<le> m)
       (if \<not> min_pts s < m then Some (False, s, x)
        else (case debuffer_ts m [] (readreq s) of (ready, rest) \<Rightarrow>
          let s1 = s\<lparr>min_pts := m, readreq := rest\<rparr>
          in if ready = [] then Some (False, s1, x)
             else write_stage full (fold (do_read full) ready (s1, x)))))"

lemma fold_do_read_fields:
  "fst (fold (do_read full) es (s, x)) = s\<lparr>ts_rts := fold (\<lambda>e m. if m < req_ts e then req_ts e else m) es (ts_rts s)\<rparr>"
proof (induction es arbitrary: s x)
  case (Cons e es)
  then show ?case by (simp add: do_read_def)
qed simp

lemma write_stage_length:
  assumes "write_stage full (s, x) = Some (b, s', x')"
  shows "length (prereq s') \<le> length (prereq s)" "b \<Longrightarrow> length (prereq s') < length (prereq s)"
  using assms
  by (auto simp: write_stage_def Let_def dest!: ready_writes_length split: if_splits prod.splits option.splits)

lemma buffer_round_length:
  assumes "buffer_round full (s, x) = Some (True, s', x')"
  shows "length (prereq s') < length (prereq s)"
proof -
  obtain ready rest where d: "debuffer_ts (cal_min (prereq s)) [] (readreq s) = (ready, rest)" by fastforce
  let ?f = "fold (do_read full) ready (s\<lparr>min_pts := cal_min (prereq s), readreq := rest\<rparr>, x)"
  have "write_stage full (fst ?f, snd ?f) = Some (True, s', x')"
    using assms d by (auto simp: buffer_round_def Let_def split: if_splits)
  from write_stage_length(2) [OF this] show ?thesis by (simp add: fold_do_read_fields)
qed

function update_buffer :: "nat \<Rightarrow> ts_st \<Rightarrow> ts_st option" where
  "update_buffer full st =
     (case buffer_round full st of
        None \<Rightarrow> None
      | Some (again, st') \<Rightarrow> if again then update_buffer full st' else Some st')"
  by pat_completeness auto

termination
  by (relation "measure (\<lambda>(full, st). length (prereq (fst st)))") (auto dest: buffer_round_length)

declare update_buffer.simps [simp del]

text \<open>\<open>access\<close>: the return code and the new state.\<close>

definition finish_req :: "nat \<Rightarrow> txn_ptr \<Rightarrow> ts_st \<Rightarrow> (RC \<times> ts_st) option" where
  "finish_req full txn = (\<lambda>(s, x).
     case debuffer_txn txn s of
       None \<Rightarrow> None
     | Some s1 \<Rightarrow> map_option (\<lambda>st. (RCOK, st)) (update_buffer full (s1, x)))"

definition ts_access :: "bool \<Rightarrow> nat \<Rightarrow> nat \<Rightarrow> txn_ptr \<Rightarrow> ts_t \<Rightarrow> TsType \<Rightarrow> byte list option \<Rightarrow> ts_st
    \<Rightarrow> (RC \<times> ts_st) option" where
  "ts_access twr full n txn ts type row = (\<lambda>(s, x).
     case type of
       R_REQ \<Rightarrow>
         if ts < ts_wts s then Some (Abort, s, x)
         else if min_pts s < ts
         then map_option (\<lambda>s'. (WAIT, s', x\<lparr>ts_ready := (ts_ready x)(txn := False)\<rparr>)) (buffer_req R_REQ txn ts None s)
         else Some (RCOK, s\<lparr>ts_rts := if ts_rts s < ts then ts else ts_rts s\<rparr>,
                    x\<lparr>cur_row := (cur_row x)(txn := copy_data n (ts_row s) (cur_row x txn))\<rparr>)
     | P_REQ \<Rightarrow>
         if ts < ts_rts s then Some (Abort, s, x)
         else if \<not> twr \<and> ts < ts_wts s then Some (Abort, s, x)
         else map_option (\<lambda>s'. (RCOK, s', x)) (buffer_req P_REQ txn ts None s)
     | W_REQ \<Rightarrow>
         if twr \<and> ts < ts_wts s then finish_req full txn (s, x)
         else if \<not> twr \<and> min_pts s < ts then map_option (\<lambda>s'. (RCOK, s', x)) (buffer_req W_REQ txn ts row s)
         else if min_rts s < ts then map_option (\<lambda>s'. (RCOK, s', x)) (buffer_req W_REQ txn ts row s)
         else (case row of
                 None \<Rightarrow> None
               | Some d \<Rightarrow>
                   finish_req full txn (s\<lparr>ts_row := copy_data n d (ts_row s),
                     ts_wts := if ts_wts s < ts then ts else ts_wts s\<rparr>, x))
     | XP_REQ \<Rightarrow> finish_req full txn (s, x))"

section \<open>Runs of one row\<close>

text \<open>
  The calls a transaction makes: no read while it waits, one pre-write, and one write or one
  cancellation for it.  Timestamps are below the value the source reserves as infinity.
\<close>

definition req_txns :: "TsReqEntry list \<Rightarrow> txn_ptr set" where
  "req_txns q = req_txn ` set q"

definition ts_legal :: "TsType \<Rightarrow> txn_ptr \<Rightarrow> byte list option \<Rightarrow> Row_ts \<Rightarrow> bool" where
  "ts_legal type t row s \<longleftrightarrow> t \<notin> req_txns (readreq s) \<and>
     (case type of
        R_REQ \<Rightarrow> True
      | P_REQ \<Rightarrow> t \<notin> req_txns (prereq s)
      | W_REQ \<Rightarrow> t \<in> req_txns (prereq s) \<and> t \<notin> req_txns (writereq s) \<and> row \<noteq> None
      | XP_REQ \<Rightarrow> t \<in> req_txns (prereq s) \<and> t \<notin> req_txns (writereq s))"

inductive ts_reach :: "bool \<Rightarrow> nat \<Rightarrow> (txn_ptr \<Rightarrow> ts_t) \<Rightarrow> ts_st \<Rightarrow> bool" for twr full ts where
  init: "(\<And>t. ts t < UINT64_MAX) \<Longrightarrow> ts_reach twr full ts (ts_init d, x)"
| access: "ts_reach twr full ts (s, x) \<Longrightarrow> ts_legal type t row s \<Longrightarrow>
    ts_access twr full n t (ts t) type row (s, x) = Some (rc, st') \<Longrightarrow> ts_reach twr full ts st'"

text \<open>
  The invariant.  \<open>ts_core\<close> holds inside \<open>update_buffer\<close> too, where the stored minima may be too
  small.
\<close>

definition entries_ok :: "(txn_ptr \<Rightarrow> ts_t) \<Rightarrow> TsReqEntry list \<Rightarrow> bool" where
  "entries_ok ts q \<longleftrightarrow> distinct (map req_txn q) \<and> (\<forall>e\<in>set q. req_ts e = ts (req_txn e))"

definition ts_core :: "(txn_ptr \<Rightarrow> ts_t) \<Rightarrow> Row_ts \<Rightarrow> bool" where
  "ts_core ts s \<longleftrightarrow> (\<forall>t. ts t < UINT64_MAX) \<and>
     entries_ok ts (prereq s) \<and> entries_ok ts (writereq s) \<and> entries_ok ts (readreq s) \<and>
     min_pts s \<le> cal_min (prereq s) \<and> min_rts s \<le> cal_min (readreq s) \<and>
     (\<forall>e\<in>set (readreq s). min_pts s < req_ts e) \<and> (\<forall>p\<in>set (prereq s). ts_rts s \<le> req_ts p) \<and>
     req_txns (writereq s) \<subseteq> req_txns (prereq s) \<and> (\<forall>w\<in>set (writereq s). req_row w \<noteq> None)"

definition ts_inv :: "(txn_ptr \<Rightarrow> ts_t) \<Rightarrow> Row_ts \<Rightarrow> bool" where
  "ts_inv ts s \<longleftrightarrow> ts_core ts s \<and> min_pts s = cal_min (prereq s) \<and> min_rts s = cal_min (readreq s)"

lemma le_cal_min_fold:
  "x \<le> fold (\<lambda>e m. if req_ts e < m then req_ts e else m) q k \<longleftrightarrow> x \<le> k \<and> (\<forall>e\<in>set q. x \<le> req_ts e)"
  by (induction q arbitrary: k) auto

lemma le_cal_min: "x \<le> cal_min q \<longleftrightarrow> (\<forall>e\<in>set q. x \<le> req_ts e)"
  by (simp add: cal_min_def le_cal_min_fold)

lemma cal_min_less: "cal_min q < x \<longleftrightarrow> (\<exists>e\<in>set q. req_ts e < x)"
  using le_cal_min [of x q] by (auto simp: not_le [symmetric])

lemma cal_min_le: "e \<in> set q \<Longrightarrow> cal_min q \<le> req_ts e"
  using le_cal_min [of "cal_min q" q] by simp

lemma cal_min_Nil [simp]: "cal_min [] = UINT64_MAX"
  by (simp add: cal_min_def)

lemma cal_min_Cons [simp]: "cal_min (e # q) = (if req_ts e < cal_min q then req_ts e else cal_min q)"
  by (rule antisym) (auto simp: le_cal_min intro: cal_min_le less_imp_le dest: order_less_le_trans [OF _ cal_min_le] not_less [THEN iffD1] order_trans [OF cal_min_le])

lemma cal_min_antimono: "set q' \<subseteq> set q \<Longrightarrow> cal_min q \<le> cal_min q'"
  by (auto simp: le_cal_min intro: cal_min_le)

lemma debuffer_ts_eq: "debuffer_ts ts ret q = (rev (filter (\<lambda>e. req_ts e \<le> ts) q) @ ret, filter (\<lambda>e. \<not> req_ts e \<le> ts) q)"
  by (induction q arbitrary: ret) auto

lemma req_txns_filter: "req_txns (filter (\<lambda>e. req_txn e \<notin> T) q) = req_txns q - T"
  by (auto simp: req_txns_def)

lemma req_txns_filter_ne: "req_txns (filter (\<lambda>e. req_txn e \<noteq> t) q) = req_txns q - {t}"
  by (auto simp: req_txns_def)

lemma req_txns_Cons [simp]: "req_txns (e # q) = insert (req_txn e) (req_txns q)"
  by (simp add: req_txns_def)

lemma entries_ok_Cons: "entries_ok ts (e # q) \<longleftrightarrow> req_txn e \<notin> req_txns q \<and> req_ts e = ts (req_txn e) \<and> entries_ok ts q"
  by (auto simp: entries_ok_def req_txns_def)

lemma entries_ok_filter: "entries_ok ts q \<Longrightarrow> entries_ok ts (filter P q)"
  by (auto simp: entries_ok_def distinct_map_filter)

lemma debuffer_txn_ok:
  assumes "entries_ok ts (prereq s)" "t \<in> req_txns (prereq s)"
  obtains s' where "debuffer_txn t s = Some s'" "prereq s' = filter (\<lambda>e. req_txn e \<noteq> t) (prereq s)"
    "s' = s\<lparr>prereq := prereq s', preq_len := preq_len s - 1\<rparr>"
proof -
  have "remove_first (\<lambda>e. req_txn e = t) (prereq s) \<noteq> None"
    using assms(2) by (auto simp: remove_first_None_iff req_txns_def)
  then obtain y ys where y: "remove_first (\<lambda>e. req_txn e = t) (prereq s) = Some (y, ys)" by auto
  from remove_first_SomeD [OF this] obtain as bs where
    q: "req_txn y = t" "prereq s = as @ y # bs" "ys = as @ bs" "\<forall>a\<in>set as. req_txn a \<noteq> t" by blast
  have "\<forall>b\<in>set bs. req_txn b \<noteq> t" using assms(1) q(1,2) by (simp add: entries_ok_def) (metis image_eqI)
  then have "ys = filter (\<lambda>e. req_txn e \<noteq> t) (prereq s)" using q by (simp add: filter_id_conv)
  then show ?thesis using that [of "s\<lparr>prereq := ys, preq_len := preq_len s - 1\<rparr>"] y by (simp add: debuffer_txn_def)
qed

text \<open>The loop over the ready writes removes exactly their pre-writes and finds a smallest one.\<close>

lemma ready_writes_ok:
  assumes "entries_ok ts (prereq s)" "entries_ok ts es" "req_txns es \<subseteq> req_txns (prereq s)"
  shows "\<exists>y s'. ready_writes es k yo s = Some (y, s') \<and> prereq s' = filter (\<lambda>e. req_txn e \<notin> req_txns es) (prereq s) \<and>
    s' = s\<lparr>prereq := prereq s', preq_len := preq_len s'\<rparr> \<and>
    (y = yo \<and> (\<forall>e\<in>set es. k \<le> req_ts e) \<or> (\<exists>e\<in>set es. y = Some e))"
  using assms
proof (induction es arbitrary: s k yo)
  case Nil
  then show ?case by (simp add: req_txns_def)
next
  case (Cons e es)
  have e: "req_txn e \<in> req_txns (prereq s)" using Cons.prems(3) by (simp add: req_txns_def)
  obtain s1 where s1: "debuffer_txn (req_txn e) s = Some s1" "prereq s1 = filter (\<lambda>x. req_txn x \<noteq> req_txn e) (prereq s)"
    "s1 = s\<lparr>prereq := prereq s1, preq_len := preq_len s - 1\<rparr>" using debuffer_txn_ok [OF Cons.prems(1) e] by blast
  have pre: "entries_ok ts (prereq s1)" "entries_ok ts es" "req_txns es \<subseteq> req_txns (prereq s1)"
    using Cons.prems entries_ok_filter [OF Cons.prems(1)] s1(2) by (auto simp: entries_ok_Cons req_txns_filter_ne)
  let ?k = "if req_ts e < k then req_ts e else k" and ?yo = "if req_ts e < k then Some e else yo"
  from Cons.IH [OF pre, of ?k ?yo] obtain y s' where
    ih: "ready_writes es ?k ?yo s1 = Some (y, s')" "prereq s' = filter (\<lambda>e. req_txn e \<notin> req_txns es) (prereq s1)"
      "s' = s1\<lparr>prereq := prereq s', preq_len := preq_len s'\<rparr>"
      "y = ?yo \<and> (\<forall>e\<in>set es. ?k \<le> req_ts e) \<or> (\<exists>e\<in>set es. y = Some e)" by blast
  have "prereq s' = filter (\<lambda>x. req_txn x \<notin> req_txns (e # es)) (prereq s)"
    using ih(2) s1(2) by (auto simp: req_txns_def intro: filter_cong)
  moreover have "ready_writes (e # es) k yo s = Some (y, s')" using ih(1) s1(1) by (simp split: if_splits)
  moreover have "s' = s\<lparr>prereq := prereq s', preq_len := preq_len s'\<rparr>" by (subst ih(3), subst s1(3)) simp
  moreover have "y = yo \<and> (\<forall>e\<in>set (e # es). k \<le> req_ts e) \<or> (\<exists>x\<in>set (e # es). y = Some x)"
    using ih(4) by (auto split: if_splits)
  ultimately show ?case by blast
qed

lemma ts_core_cal_min_prereq: "ts_core ts s \<Longrightarrow> p \<in> set (prereq s) \<Longrightarrow> min_pts s \<le> req_ts p"
  by (auto simp: ts_core_def intro: order_trans cal_min_le)

lemma ts_core_write_stage:
  assumes c: "ts_core ts s"
  shows "\<exists>b s'. write_stage full (s, x) = Some (b, s', x) \<and> ts_core ts s' \<and> min_rts s' = cal_min (readreq s') \<and>
    min_pts s' = min_pts s \<and> (\<not> b \<longrightarrow> prereq s' = prereq s)"
proof (cases "min_rts s < cal_min (readreq s)")
  case False
  then show ?thesis using c by (auto simp: write_stage_def Let_def ts_core_def)
next
  case True
  let ?mr = "cal_min (readreq s)"
  let ?ready = "rev (filter (\<lambda>e. req_ts e \<le> ?mr) (writereq s))" and ?rest = "filter (\<lambda>e. \<not> req_ts e \<le> ?mr) (writereq s)"
  let ?s1 = "s\<lparr>min_rts := ?mr, writereq := ?rest\<rparr>"
  have sub: "req_txns (writereq s) \<subseteq> req_txns (prereq s)" "entries_ok ts (prereq s)" "entries_ok ts (writereq s)"
    using c by (auto simp: ts_core_def)
  have c1: "ts_core ts ?s1" using c entries_ok_filter [OF sub(3)] by (auto simp: ts_core_def req_txns_def)
  show ?thesis
  proof (cases "?ready = []")
    case True
    then show ?thesis using c1 \<open>min_rts s < ?mr\<close>
      by (intro exI [of _ False] exI [of _ ?s1]) (auto simp: write_stage_def Let_def debuffer_ts_eq)
  next
    case False
    have er: "entries_ok ts ?ready" using entries_ok_filter [OF sub(3)] by (auto simp: entries_ok_def distinct_map rev_map [symmetric])
    have "req_txns ?ready \<subseteq> req_txns (prereq ?s1)" using sub(1) by (auto simp: req_txns_def)
    with ready_writes_ok [of ts ?s1 ?ready UINT64_MAX None] sub(2) er obtain y s2 where
      s2: "ready_writes ?ready UINT64_MAX None ?s1 = Some (y, s2)"
        "prereq s2 = filter (\<lambda>e. req_txn e \<notin> req_txns ?ready) (prereq s)"
        "s2 = ?s1\<lparr>prereq := prereq s2, preq_len := preq_len s2\<rparr>"
        "y = None \<and> (\<forall>e\<in>set ?ready. UINT64_MAX \<le> req_ts e) \<or> (\<exists>e\<in>set ?ready. y = Some e)" by auto
    have "req_ts (last ?ready) < UINT64_MAX" using c sub(3) last_in_set [OF False] by (auto simp: ts_core_def entries_ok_def)
    then have "\<not> (\<forall>e\<in>set ?ready. UINT64_MAX \<le> req_ts e)" using last_in_set [OF False] by (metis not_le)
    then obtain e where e: "e \<in> set (writereq s)" "y = Some e" using s2(4) by auto
    then obtain d where d: "req_row e = Some d" using c by (auto simp: ts_core_def)
    let ?s3 = "s2\<lparr>ts_row := copy_data full d (ts_row s2), ts_wts := if ts_wts s2 < req_ts e then req_ts e else ts_wts s2\<rparr>"
    have f: "writereq s2 = ?rest" "readreq s2 = readreq s" "min_rts s2 = ?mr" "min_pts s2 = min_pts s" "ts_rts s2 = ts_rts s"
      by (subst s2(3); simp)+
    have disj: "req_txns ?rest \<inter> req_txns ?ready = {}"
      using sub(3) by (auto simp: req_txns_def entries_ok_def distinct_map inj_on_def)
    have "req_txns ?rest \<subseteq> req_txns (prereq s2)"
      using sub(1) disj by (auto simp: s2(2) req_txns_filter) (auto simp: req_txns_def)
    moreover have "entries_ok ts (prereq s2)" "set (prereq s2) \<subseteq> set (prereq s)"
      using entries_ok_filter [OF sub(2)] by (auto simp: s2(2))
    moreover have "cal_min (prereq s) \<le> cal_min (prereq s2)" using calculation(3) by (rule cal_min_antimono)
    ultimately have "ts_core ts ?s3" using c1 f by (auto simp: ts_core_def)
    then show ?thesis using s2(1) e(2) d f \<open>min_rts s < ?mr\<close> False
      by (intro exI [of _ True] exI [of _ ?s3]) (simp add: write_stage_def Let_def debuffer_ts_eq)
  qed
qed

lemma fold_max_le: "fold (\<lambda>e m. if m < req_ts e then req_ts e else m) es k \<le> b \<longleftrightarrow> k \<le> b \<and> (\<forall>e\<in>set es. req_ts e \<le> b)"
  by (induction es arbitrary: k) auto

lemma ts_core_buffer_round:
  assumes c: "ts_core ts s" and mr: "min_rts s = cal_min (readreq s)"
  shows "\<exists>b s' x'. buffer_round full (s, x) = Some (b, s', x') \<and> ts_core ts s' \<and> min_rts s' = cal_min (readreq s') \<and>
    (\<not> b \<longrightarrow> min_pts s' = cal_min (prereq s'))"
proof (cases "min_pts s < cal_min (prereq s)")
  case False
  then show ?thesis using assms by (auto simp: buffer_round_def Let_def ts_core_def)
next
  case True
  let ?m = "cal_min (prereq s)"
  let ?ready = "rev (filter (\<lambda>e. req_ts e \<le> ?m) (readreq s))" and ?rest = "filter (\<lambda>e. \<not> req_ts e \<le> ?m) (readreq s)"
  let ?s1 = "s\<lparr>min_pts := ?m, readreq := ?rest\<rparr>"
  have le: "min_rts s \<le> cal_min ?rest" using mr cal_min_antimono [of ?rest "readreq s"] by auto
  have c1: "ts_core ts ?s1" using c le entries_ok_filter [of ts "readreq s"] by (auto simp: ts_core_def)
  show ?thesis
  proof (cases "?ready = []")
    case True
    then have "?rest = readreq s" by (simp add: filter_id_conv filter_empty_conv)
    then show ?thesis using c1 \<open>min_pts s < ?m\<close> True mr
      by (intro exI [of _ False] exI [of _ ?s1] exI [of _ x]) (auto simp: buffer_round_def Let_def debuffer_ts_eq)
  next
    case False
    let ?f = "fold (do_read full) ?ready (?s1, x)"
    have "\<forall>p\<in>set (prereq s). ts_rts (fst ?f) \<le> req_ts p"
      using c by (auto simp: fold_do_read_fields fold_max_le ts_core_def intro: order_trans cal_min_le)
    then have "ts_core ts (fst ?f)" using c1 by (auto simp: fold_do_read_fields ts_core_def)
    from ts_core_write_stage [OF this, of full "snd ?f"] obtain b s' where
      w: "write_stage full (fst ?f, snd ?f) = Some (b, s', snd ?f)" "ts_core ts s'" "min_rts s' = cal_min (readreq s')"
        "min_pts s' = min_pts (fst ?f)" "\<not> b \<longrightarrow> prereq s' = prereq (fst ?f)" by blast
    have "buffer_round full (s, x) = Some (b, s', snd ?f)"
      using w(1) False \<open>min_pts s < ?m\<close> by (simp add: buffer_round_def Let_def debuffer_ts_eq)
    moreover have "\<not> b \<longrightarrow> min_pts s' = cal_min (prereq s')" using w(4,5) by (auto simp: fold_do_read_fields)
    ultimately show ?thesis using w(2,3) by blast
  qed
qed

lemma update_buffer_ok:
  "ts_core ts (fst st) \<Longrightarrow> min_rts (fst st) = cal_min (readreq (fst st)) \<Longrightarrow>
   \<exists>s' x'. update_buffer full st = Some (s', x') \<and> ts_inv ts s'"
proof (induction full st rule: update_buffer.induct)
  case (1 full st)
  obtain s x where st: "st = (s, x)" by fastforce
  from ts_core_buffer_round [of ts s full x] "1.prems" obtain b s' x' where
    r: "buffer_round full st = Some (b, s', x')" "ts_core ts s'" "min_rts s' = cal_min (readreq s')"
      "\<not> b \<longrightarrow> min_pts s' = cal_min (prereq s')" by (auto simp: st)
  show ?case
  proof (cases b)
    case True
    then show ?thesis using "1.IH" [of "(True, s', x')" True "(s', x')"] r by (subst update_buffer.simps) simp
  next
    case False
    then show ?thesis using r by (subst update_buffer.simps) (auto simp: ts_inv_def)
  qed
qed

lemma finish_req_ok:
  assumes c: "ts_core ts s" and m: "min_rts s = cal_min (readreq s)"
    and t: "t \<in> req_txns (prereq s)" "t \<notin> req_txns (writereq s)"
  shows "\<exists>s' x'. finish_req full t (s, x) = Some (RCOK, s', x') \<and> ts_inv ts s'"
proof -
  have e: "entries_ok ts (prereq s)" using c by (simp add: ts_core_def)
  obtain s1 where s1: "debuffer_txn t s = Some s1" "prereq s1 = filter (\<lambda>e. req_txn e \<noteq> t) (prereq s)"
    "s1 = s\<lparr>prereq := prereq s1, preq_len := preq_len s - 1\<rparr>" using debuffer_txn_ok [OF e t(1)] by blast
  have f: "readreq s1 = readreq s" "writereq s1 = writereq s" "min_rts s1 = min_rts s" "min_pts s1 = min_pts s" "ts_rts s1 = ts_rts s"
    by (subst s1(3); simp)+
  have "cal_min (prereq s) \<le> cal_min (prereq s1)" by (rule cal_min_antimono) (auto simp: s1(2))
  moreover have "req_txns (writereq s) \<subseteq> req_txns (prereq s1)"
    using c t(2) by (auto simp: s1(2) req_txns_filter_ne ts_core_def)
  ultimately have "ts_core ts s1" using c f s1(2) entries_ok_filter [OF e] by (auto simp: ts_core_def)
  then show ?thesis
    using update_buffer_ok [of ts "(s1, x)" full] m f s1(1) by (auto simp: finish_req_def)
qed

lemma ts_access_ok:
  assumes i: "ts_inv ts s" and l: "ts_legal type t row s"
  shows "\<exists>rc s' x'. ts_access twr full n t (ts t) type row (s, x) = Some (rc, s', x') \<and> ts_inv ts s'"
proof -
  have c: "ts_core ts s" "min_pts s = cal_min (prereq s)" "min_rts s = cal_min (readreq s)"
    using i by (auto simp: ts_inv_def)
  have fin: "\<exists>s' x'. finish_req full t (s, x) = Some (RCOK, s', x') \<and> ts_inv ts s'"
    if "t \<in> req_txns (prereq s)" "t \<notin> req_txns (writereq s)"
    using finish_req_ok [OF c(1,3) that] .
  show ?thesis
  proof (cases type)
    case R_REQ
    have "\<not> cal_min (prereq s) < ts t \<Longrightarrow> \<forall>p\<in>set (prereq s). ts t \<le> req_ts p" by (simp add: not_less le_cal_min)
    then show ?thesis
      using c l R_REQ by (auto simp: ts_access_def ts_legal_def buffer_req_def ts_inv_def ts_core_def entries_ok_Cons)
  next
    case W_REQ
    then obtain d where d: "row = Some d" using l by (auto simp: ts_legal_def)
    let ?s = "s\<lparr>ts_row := copy_data n d (ts_row s), ts_wts := if ts_wts s < ts t then ts t else ts_wts s\<rparr>"
    have t: "t \<in> req_txns (prereq s)" "t \<notin> req_txns (writereq s)" using l W_REQ by (auto simp: ts_legal_def)
    have "ts_core ts ?s" using c(1) by (simp add: ts_core_def)
    then have w: "\<exists>s' x'. finish_req full t (?s, x) = Some (RCOK, s', x') \<and> ts_inv ts s'"
      using c(3) t by (intro finish_req_ok) auto
    have b: "\<exists>s'. buffer_req W_REQ t (ts t) row s = Some s' \<and> ts_inv ts s'"
      using c t d by (auto simp: buffer_req_def Let_def ts_inv_def ts_core_def entries_ok_Cons)
    show ?thesis using w b fin [OF t] d W_REQ by (auto simp: ts_access_def)
  next
    case P_REQ
    then show ?thesis
      using c l by (auto simp: ts_access_def ts_legal_def buffer_req_def ts_inv_def ts_core_def entries_ok_Cons)
  next
    case XP_REQ
    then show ?thesis using fin l by (auto simp: ts_access_def ts_legal_def)
  qed
qed

lemma ts_reach_inv: "ts_reach twr full ts st \<Longrightarrow> ts_inv ts (fst st)"
proof (induction rule: ts_reach.induct)
  case (init d x)
  then show ?case by (simp add: ts_inv_def ts_core_def ts_init_def entries_ok_def req_txns_def)
next
  case (access s x type t row n rc st')
  then show ?case using ts_access_ok [of ts s type t row twr full n x] by auto
qed

section \<open>What timestamp ordering guarantees, and what it loses\<close>

text \<open>
  C28. Basic timestamp ordering never lets a write slip under a read: in every reachable state every
  pre-write, and so every write that can still be output, has a timestamp of at least the largest
  one that was read; a read that waits always waits for an older pre-write, and a buffered write
  still has its pre-write.
\<close>

theorem ts_reads_protected:
  assumes "ts_reach twr full ts (s, x)"
  shows "(\<forall>p\<in>set (prereq s). ts_rts s \<le> req_ts p) \<and>
    (\<forall>r\<in>set (readreq s). \<exists>p\<in>set (prereq s). req_ts p < req_ts r) \<and>
    (\<forall>w\<in>set (writereq s). \<exists>p\<in>set (prereq s). req_txn p = req_txn w \<and> req_ts p = req_ts w)"
proof (intro conjI)
  have i: "ts_inv ts s" using ts_reach_inv [OF assms] by simp
  then show "\<forall>p\<in>set (prereq s). ts_rts s \<le> req_ts p" by (simp add: ts_inv_def ts_core_def)
  show "\<forall>r\<in>set (readreq s). \<exists>p\<in>set (prereq s). req_ts p < req_ts r"
    using i by (auto simp: ts_inv_def ts_core_def cal_min_less)
  show "\<forall>w\<in>set (writereq s). \<exists>p\<in>set (prereq s). req_txn p = req_txn w \<and> req_ts p = req_ts w"
  proof
    fix w assume w: "w \<in> set (writereq s)"
    then have "req_txn w \<in> req_txns (prereq s)" using i by (auto simp: ts_inv_def ts_core_def req_txns_def)
    then obtain p where "p \<in> set (prereq s)" "req_txn p = req_txn w" by (auto simp: req_txns_def)
    then show "\<exists>p\<in>set (prereq s). req_txn p = req_txn w \<and> req_ts p = req_ts w"
      using i w by (auto simp: ts_inv_def ts_core_def entries_ok_def)
  qed
qed

definition ts_demo_ts :: "txn_ptr \<Rightarrow> ts_t" where
  "ts_demo_ts t = (if t = 1 then 5 else if t = 2 then 7 else 9)"

definition ts_demo_txns :: ts_txns where
  "ts_demo_txns = \<lparr>cur_row = (\<lambda>_. []), ts_ready = (\<lambda>_. True)\<rparr>"

definition ts_demo_pre :: Row_ts where
  "ts_demo_pre = \<lparr>ts_row = [0], ts_wts = 0, ts_rts = 0, min_wts = UINT64_MAX, min_rts = UINT64_MAX, min_pts = 5,
     readreq = [], writereq = [], prereq = [\<lparr>req_txn = 1, req_row = None, req_ts = 5\<rparr>], preq_len = 1\<rparr>"

lemma ts_demo_reach: "ts_reach False 1 ts_demo_ts (ts_demo_pre, ts_demo_txns)"
proof (rule ts_reach.access [where type = P_REQ and t = 1 and row = None and n = 1 and rc = RCOK])
  show "ts_reach False 1 ts_demo_ts (ts_init [0], ts_demo_txns)"
    by (rule ts_reach.init) (simp add: ts_demo_ts_def UINT64_MAX_def)
qed (auto simp: ts_legal_def ts_init_def req_txns_def ts_access_def buffer_req_def Let_def ts_demo_pre_def
    ts_demo_ts_def UINT64_MAX_def)

theorem ts_reads_protected_witness:
  "prereq ts_demo_pre \<noteq> [] \<and> ts_rts ts_demo_pre \<le> req_ts (hd (prereq ts_demo_pre))"
  using ts_reads_protected [OF ts_demo_reach] by (simp add: ts_demo_pre_def)

text \<open>
  C29. In every reachable state every legal call of \<open>access\<close> returns: the assertions of
  \<open>update_buffer\<close> and \<open>debuffer_req\<close> hold, the loop ends, and no null request is followed.
\<close>

theorem ts_access_never_asserts:
  assumes "ts_reach twr full ts (s, x)" and "ts_legal type t row s"
  shows "\<exists>rc s' x'. ts_access twr full n t (ts t) type row (s, x) = Some (rc, s', x') \<and> ts_reach twr full ts (s', x')"
proof -
  have "ts_inv ts s" using ts_reach_inv [OF assms(1)] by simp
  from ts_access_ok [OF this assms(2), of twr full n x] obtain rc s' x' where
    "ts_access twr full n t (ts t) type row (s, x) = Some (rc, s', x')" by blast
  with ts_reach.access [OF assms this] show ?thesis by blast
qed

theorem ts_access_never_asserts_witness:
  "\<exists>rc s' x'. ts_access False 1 1 1 (ts_demo_ts 1) W_REQ (Some [5]) (ts_demo_pre, ts_demo_txns) = Some (rc, s', x') \<and>
     ts_reach False 1 ts_demo_ts (s', x')"
  by (rule ts_access_never_asserts [OF ts_demo_reach]) (simp add: ts_legal_def ts_demo_pre_def req_txns_def)

fun ts_run :: "bool \<Rightarrow> nat \<Rightarrow> (txn_ptr \<times> ts_t \<times> TsType \<times> byte list option) list \<Rightarrow> ts_st \<Rightarrow> (RC list \<times> ts_st) option" where
  "ts_run twr full [] st = Some ([], st)"
| "ts_run twr full ((t, ts, type, row) # cs) st =
     (case ts_access twr full full t ts type row st of
        None \<Rightarrow> None
      | Some (rc, st1) \<Rightarrow> map_option (\<lambda>(rcs, st2). (rc # rcs, st2)) (ts_run twr full cs st1))"

lemma ts_run_result:
  "(case r of None \<Rightarrow> False | Some (rcs, s, x) \<Rightarrow> rcs = l \<and> Q s x) \<Longrightarrow> \<exists>s x. r = Some (l, s, x) \<and> Q s x"
  by (auto split: option.splits)

text \<open>
  \<open>update_buffer\<close> drops writes.  Of the buffered writes that become ready together only the one
  with the smallest timestamp is output; the others lose their pre-write and their data.  Three
  writes with timestamps 5, 7 and 9 are all accepted, and the row ends with the value and the write
  timestamp of 7, with nothing left to output.
\<close>

theorem update_buffer_drops_write:
  "\<exists>s x. ts_run False 1 [(1, 5, P_REQ, None), (2, 7, P_REQ, None), (3, 9, P_REQ, None), (4, 6, R_REQ, None),
       (3, 9, W_REQ, Some [9]), (2, 7, W_REQ, Some [7]), (1, 5, W_REQ, Some [5])] (ts_init [0], ts_demo_txns)
     = Some ([RCOK, RCOK, RCOK, WAIT, RCOK, RCOK, RCOK], s, x) \<and>
     ts_row s = [7] \<and> ts_wts s = 7 \<and> prereq s = [] \<and> writereq s = []"
  by (rule ts_run_result) code_simp

text \<open>
  \<open>update_buffer\<close> can leave a buffered write behind.  It looks at the buffered writes only after it
  has served a waiting read.  A write with timestamp 7 that waits for the pre-write 5 stays buffered
  when the write 5 is output and no read waits; its pre-write stays too, and a later read has to wait
  although no transaction has a call left to make.
\<close>

theorem update_buffer_strands_write:
  "\<exists>s x. ts_run False 1 [(1, 5, P_REQ, None), (2, 7, P_REQ, None), (2, 7, W_REQ, Some [7]), (1, 5, W_REQ, Some [5]),
       (3, 8, R_REQ, None)] (ts_init [0], ts_demo_txns)
     = Some ([RCOK, RCOK, RCOK, RCOK, WAIT], s, x) \<and>
     ts_row s = [5] \<and> map req_txn (writereq s) = [2] \<and> map req_txn (prereq s) = [2] \<and> \<not> ts_ready x 3"
  by (rule ts_run_result) code_simp

end
