(* ===== verification/Row_MVCC.thy ===== *)
theory Row_MVCC
  imports Row_TS
begin

text \<open>
  Multi-version timestamp ordering: concurrency\_control/row\_mvcc.h and row\_mvcc.cpp.  A row has a base
  version, an array of newer versions, at most one served pre-write and an array of requests that
  wait behind it.  Versions are rows behind pointers and a transaction gets the pointer, so the model
  has a heap from pointers to tuples and a counter for fresh ones.  \<open>access\<close> runs under the row's
  latch: one call is one step.

  \<open>_his_len\<close> and \<open>_req_len\<close> are the lengths of the arrays, \<open>min_ts\<close> is what the manager returns for
  the smallest timestamp in use, and the \<open>time\<close> field of a request, which nothing reads, is left out.
\<close>

record WriteHisEntry =
  wh_valid :: bool
  wh_reserved :: bool
  wh_ts :: ts_t
  wh_row :: "row_ptr option"

record ReqEntry =
  rq_valid :: bool
  rq_type :: TsType
  rq_ts :: ts_t
  rq_txn :: txn_ptr

record Row_mvcc =
  mv_row :: row_ptr
  latest_row :: row_ptr
  latest_wts :: ts_t
  oldest_wts :: ts_t
  write_history :: "WriteHisEntry list"
  exists_prewrite :: bool
  prewrite_ts :: ts_t
  prewrite_his_id :: nat
  max_served_rts :: ts_t
  requests :: "ReqEntry list"
  num_versions :: nat
  mv_cur :: "txn_ptr \<Rightarrow> row_ptr"
  mv_ready :: "txn_ptr \<Rightarrow> bool"
  mv_heap :: "row_ptr \<Rightarrow> byte list"
  mv_next :: row_ptr

definition empty_his :: WriteHisEntry where
  "empty_his = \<lparr>wh_valid = False, wh_reserved = False, wh_ts = 0, wh_row = None\<rparr>"

definition empty_req :: ReqEntry where
  "empty_req = \<lparr>rq_valid = False, rq_type = R_REQ, rq_ts = 0, rq_txn = 0\<rparr>"

text \<open>\<open>init\<close>: the base row is pointer 0; fields the source leaves unset are zero here and are not read.\<close>

definition mv_init :: "byte list \<Rightarrow> (txn_ptr \<Rightarrow> row_ptr) \<Rightarrow> (txn_ptr \<Rightarrow> bool) \<Rightarrow> Row_mvcc" where
  "mv_init d cur rdy = \<lparr>mv_row = 0, latest_row = 0, latest_wts = 0, oldest_wts = 0,
     write_history = replicate 4 empty_his, exists_prewrite = False, prewrite_ts = 0, prewrite_his_id = 0,
     max_served_rts = 0, requests = replicate 4 empty_req, num_versions = 0, mv_cur = cur, mv_ready = rdy,
     mv_heap = (\<lambda>_. d), mv_next = 1\<rparr>"

text \<open>\<open>double_list\<close> for the history and for the requests.\<close>

definition double_history :: "Row_mvcc \<Rightarrow> Row_mvcc" where
  [simp]: "double_history s = s\<lparr>write_history := write_history s @ replicate (length (write_history s)) empty_his\<rparr>"

definition double_requests :: "ReqEntry list \<Rightarrow> ReqEntry list" where
  [simp]: "double_requests q = q @ replicate (length q) empty_req"

text \<open>\<open>buffer_req\<close> takes the first free slot; when there is none \<open>double_list\<close> adds as many again.\<close>

fun put_req :: "ReqEntry \<Rightarrow> ReqEntry list \<Rightarrow> ReqEntry list option" where
  "put_req e [] = None"
| "put_req e (x # xs) = (if \<not> rq_valid x then Some (e # xs) else map_option (Cons x) (put_req e xs))"

definition mv_buffer_req :: "TsType \<Rightarrow> txn_ptr \<Rightarrow> ts_t \<Rightarrow> Row_mvcc \<Rightarrow> Row_mvcc option" where
  "mv_buffer_req type txn ts s =
     (let e = \<lparr>rq_valid = True, rq_type = type, rq_ts = ts, rq_txn = txn\<rparr>
      in case put_req e (requests s) of
           Some q \<Rightarrow> Some (s\<lparr>requests := q\<rparr>)
         | None \<Rightarrow>
             map_option (\<lambda>q. s\<lparr>requests := q\<rparr>) (put_req e (double_requests (requests s))))"

text \<open>The scan of a read for its version: \<open>the_ts\<close> is a \<open>uint32_t\<close>.\<close>

fun find_version :: "ts_t \<Rightarrow> nat \<Rightarrow> WriteHisEntry list \<Rightarrow> UInt32 \<Rightarrow> nat \<Rightarrow> nat" where
  "find_version ts i [] the_ts the_i = the_i"
| "find_version ts i (e # es) the_ts the_i =
     (if wh_valid e \<and> wh_ts e < ts \<and> ucast the_ts < wh_ts e
      then find_version ts (Suc i) es (ucast (wh_ts e)) i
      else find_version ts (Suc i) es the_ts the_i)"

text \<open>\<open>reserveRow\<close>: garbage collection (240 to 272).\<close>

fun find_recycle :: "ts_t \<Rightarrow> nat \<Rightarrow> WriteHisEntry list \<Rightarrow> ts_t \<Rightarrow> nat \<Rightarrow> ts_t \<times> nat" where
  "find_recycle min_ts i [] max_ts idx = (max_ts, idx)"
| "find_recycle min_ts i (e # es) max_ts idx =
     (if wh_valid e \<and> wh_ts e < min_ts \<and> max_ts < wh_ts e
      then find_recycle min_ts (Suc i) es (wh_ts e) i
      else find_recycle min_ts (Suc i) es max_ts idx)"

definition swap_base :: "nat \<Rightarrow> ts_t \<Rightarrow> Row_mvcc \<Rightarrow> Row_mvcc option" where
  "swap_base idx ts s =
     (case wh_row (write_history s ! idx) of
        None \<Rightarrow> None
      | Some r \<Rightarrow>
          Some (s\<lparr>mv_row := r, oldest_wts := ts,
                  write_history := (write_history s)[idx := (write_history s ! idx)\<lparr>wh_row := Some (mv_row s)\<rparr>]\<rparr>))"

definition drop_old :: "ts_t \<Rightarrow> WriteHisEntry \<Rightarrow> WriteHisEntry" where
  "drop_old ts e = (if wh_valid e \<and> wh_ts e \<le> ts then e\<lparr>wh_valid := False, wh_reserved := False\<rparr> else e)"

definition collect_old :: "ts_t \<Rightarrow> Row_mvcc \<Rightarrow> Row_mvcc option" where
  "collect_old min_ts s =
     (if oldest_wts s < min_ts \<and> num_versions s = length (write_history s)
      then (case find_recycle min_ts 0 (write_history s) 0 (length (write_history s)) of (max_ts, idx) \<Rightarrow>
        if idx = length (write_history s) then Some s
        else (case swap_base idx max_ts s of
                None \<Rightarrow> None
              | Some s1 \<Rightarrow>
                  (let old = filter (\<lambda>e. wh_valid e \<and> wh_ts e \<le> max_ts) (write_history s1)
                   in assert_then (\<forall>e\<in>set old. wh_row e \<noteq> None)
                     (Some (s1\<lparr>write_history := map (drop_old max_ts) (write_history s1),
                               num_versions := num_versions s1 - length old\<rparr>)))))
      else Some s)"

text \<open>The search for an unused entry (287 to 303), and the oldest version (308 to 314).\<close>

fun free_slot :: "nat \<Rightarrow> nat \<Rightarrow> WriteHisEntry list \<Rightarrow> nat" where
  "free_slot i idx [] = idx"
| "free_slot i idx (e # es) =
     (if \<not> wh_valid e \<and> \<not> wh_reserved e \<and> wh_row e \<noteq> None then i
      else if \<not> wh_valid e \<and> \<not> wh_reserved e then free_slot (Suc i) i es
      else free_slot (Suc i) idx es)"

fun oldest_slot :: "nat \<Rightarrow> WriteHisEntry list \<Rightarrow> ts_t \<Rightarrow> nat \<Rightarrow> ts_t \<times> nat" where
  "oldest_slot i [] min_ts idx = (min_ts, idx)"
| "oldest_slot i (e # es) min_ts idx =
     (if wh_valid e \<and> wh_ts e < min_ts then oldest_slot (Suc i) es (wh_ts e) i
      else oldest_slot (Suc i) es min_ts idx)"

text \<open>A full history (305 to 334): the oldest version becomes the base, or the array is doubled.\<close>

definition make_room :: "nat \<Rightarrow> Row_mvcc \<Rightarrow> (nat \<times> Row_mvcc) option" where
  "make_room g_thread_cnt s =
     (if g_thread_cnt \<le> length (write_history s)
      then (case oldest_slot 0 (write_history s) UINT64_MAX (length (write_history s)) of (min_ts, idx) \<Rightarrow>
        assert_then (oldest_wts s < min_ts \<and> idx < length (write_history s))
          (map_option (\<lambda>s1. (idx, s1\<lparr>num_versions := num_versions s1 - 1\<rparr>)) (swap_base idx min_ts s)))
      else Some (length (write_history s), double_history s))"

text \<open>The entry is reserved (335 to 351); a fresh row is allocated when it has none.\<close>

definition take_slot :: "ts_t \<Rightarrow> nat \<Rightarrow> Row_mvcc \<Rightarrow> row_ptr \<times> Row_mvcc" where
  "take_slot ts idx s =
     (let e = write_history s ! idx;
          (r, nxt) = (case wh_row e of Some r \<Rightarrow> (r, mv_next s) | None \<Rightarrow> (mv_next s, mv_next s + 1))
      in (r, s\<lparr>write_history := (write_history s)[idx := \<lparr>wh_valid = False, wh_reserved = True, wh_ts = ts, wh_row = Some r\<rparr>],
               mv_next := nxt, exists_prewrite := True, prewrite_his_id := idx, prewrite_ts := ts\<rparr>))"

definition reserveRow :: "nat \<Rightarrow> ts_t \<Rightarrow> ts_t \<Rightarrow> Row_mvcc \<Rightarrow> (row_ptr \<times> Row_mvcc) option" where
  "reserveRow g_thread_cnt min_ts ts s =
     assert_then (\<not> exists_prewrite s)
       (case collect_old min_ts s of
          None \<Rightarrow> None
        | Some s1 \<Rightarrow>
            (let len = length (write_history s1)
             in if num_versions s1 < len
                then (let idx = free_slot 0 len (write_history s1)
                      in assert_then (idx < len) (Some (take_slot ts idx s1)))
                else map_option (\<lambda>(idx, s2). take_slot ts idx s2) (make_room g_thread_cnt s1)))"

definition reserve_copy :: "nat \<Rightarrow> ts_t \<Rightarrow> nat \<Rightarrow> ts_t \<Rightarrow> txn_ptr \<Rightarrow> Row_mvcc \<Rightarrow> Row_mvcc option" where
  "reserve_copy g_thread_cnt min_ts n ts txn s =
     (case reserveRow g_thread_cnt min_ts ts s of
        None \<Rightarrow> None
      | Some (r, s1) \<Rightarrow>
          Some (s1\<lparr>mv_heap := (mv_heap s1)(r := copy_data n (mv_heap s1 (latest_row s1)) (mv_heap s1 r)),
                   mv_cur := (mv_cur s1)(txn := r)\<rparr>))"

text \<open>\<open>update_buffer\<close>: the next pending pre-write, and the loop over the requests.\<close>

fun next_pre :: "ts_t \<Rightarrow> ReqEntry list \<Rightarrow> ts_t \<Rightarrow> ts_t" where
  "next_pre ts [] k = k"
| "next_pre ts (e # es) k =
     (if rq_valid e \<and> rq_type e = P_REQ \<and> ts < rq_ts e \<and> rq_ts e < k then next_pre ts es (rq_ts e) else next_pre ts es k)"

definition wake :: "txn_ptr \<Rightarrow> Row_mvcc \<Rightarrow> Row_mvcc" where
  "wake txn s = s\<lparr>mv_ready := (mv_ready s)(txn := True)\<rparr>"

fun serve_reqs :: "nat \<Rightarrow> ts_t \<Rightarrow> nat \<Rightarrow> ts_t \<Rightarrow> ts_t \<Rightarrow> ReqEntry list \<Rightarrow> Row_mvcc \<Rightarrow> (ReqEntry list \<times> Row_mvcc) option" where
  "serve_reqs cnt min_ts full ts nxt [] s = Some ([], s)"
| "serve_reqs cnt min_ts full ts nxt (e # es) s =
     assert_then (rq_valid e \<longrightarrow> ts < rq_ts e)
       (if rq_valid e \<and> rq_type e = R_REQ \<and> rq_ts e < nxt
        then (let s1 = wake (rq_txn e) (s\<lparr>max_served_rts := if max_served_rts s < rq_ts e then rq_ts e else max_served_rts s,
                                          mv_cur := (mv_cur s)(rq_txn e := latest_row s)\<rparr>)
              in map_option (\<lambda>(q, s2). (e\<lparr>rq_valid := False\<rparr> # q, s2)) (serve_reqs cnt min_ts full ts nxt es s1))
        else if rq_valid e \<and> rq_ts e = nxt
        then assert_then (rq_type e = P_REQ)
          (case reserve_copy cnt min_ts full (rq_ts e) (rq_txn e) s of
             None \<Rightarrow> None
           | Some s1 \<Rightarrow>
               map_option (\<lambda>(q, s2). (e\<lparr>rq_valid := False\<rparr> # q, s2))
                 (serve_reqs cnt min_ts full ts nxt es (wake (rq_txn e) s1)))
        else map_option (\<lambda>(q, s2). (e # q, s2)) (serve_reqs cnt min_ts full ts nxt es s))"

definition mv_update_buffer :: "nat \<Rightarrow> ts_t \<Rightarrow> nat \<Rightarrow> ts_t \<Rightarrow> Row_mvcc \<Rightarrow> Row_mvcc option" where
  "mv_update_buffer cnt min_ts full ts s =
     map_option (\<lambda>(q, s1). s1\<lparr>requests := q\<rparr>)
       (serve_reqs cnt min_ts full ts (next_pre ts (requests s) UINT64_MAX) (requests s) s)"

text \<open>\<open>access\<close>: the return code and the new state.  \<open>row\<close> is the pointer handed back by a write or an abort.\<close>

definition mv_read :: "txn_ptr \<Rightarrow> ts_t \<Rightarrow> Row_mvcc \<Rightarrow> (RC \<times> Row_mvcc) option" where
  "mv_read txn ts s =
     (if ts < oldest_wts s then Some (Abort, s)
      else if latest_wts s < ts
      then (if exists_prewrite s \<and> prewrite_ts s < ts
            then map_option (\<lambda>s1. (WAIT, s1\<lparr>mv_ready := (mv_ready s1)(txn := False)\<rparr>)) (mv_buffer_req R_REQ txn ts s)
            else Some (RCOK, s\<lparr>mv_cur := (mv_cur s)(txn := latest_row s),
                               max_served_rts := if max_served_rts s < ts then ts else max_served_rts s\<rparr>))
      else (let i = find_version ts 0 (write_history s) 0 (length (write_history s))
            in if i = length (write_history s) then Some (RCOK, s\<lparr>mv_cur := (mv_cur s)(txn := mv_row s)\<rparr>)
               else map_option (\<lambda>r. (RCOK, s\<lparr>mv_cur := (mv_cur s)(txn := r)\<rparr>)) (wh_row (write_history s ! i))))"

definition mv_prewrite :: "nat \<Rightarrow> ts_t \<Rightarrow> nat \<Rightarrow> txn_ptr \<Rightarrow> ts_t \<Rightarrow> Row_mvcc \<Rightarrow> (RC \<times> Row_mvcc) option" where
  "mv_prewrite cnt min_ts n txn ts s =
     (if ts < latest_wts s \<or> ts < max_served_rts s \<or> exists_prewrite s \<and> ts < prewrite_ts s then Some (Abort, s)
      else if exists_prewrite s
      then map_option (\<lambda>s1. (WAIT, s1\<lparr>mv_ready := (mv_ready s1)(txn := False)\<rparr>)) (mv_buffer_req P_REQ txn ts s)
      else map_option (\<lambda>s1. (RCOK, s1)) (reserve_copy cnt min_ts n ts txn s))"

definition mv_write :: "nat \<Rightarrow> ts_t \<Rightarrow> nat \<Rightarrow> ts_t \<Rightarrow> row_ptr option \<Rightarrow> Row_mvcc \<Rightarrow> (RC \<times> Row_mvcc) option" where
  "mv_write cnt min_ts full ts row s =
     assert_then (latest_wts s < ts \<and> row = wh_row (write_history s ! prewrite_his_id s))
       (case row of
          None \<Rightarrow> None
        | Some r \<Rightarrow>
            map_option (\<lambda>s1. (RCOK, s1)) (mv_update_buffer cnt min_ts full ts
              (s\<lparr>write_history := (write_history s)[prewrite_his_id s :=
                   (write_history s ! prewrite_his_id s)\<lparr>wh_valid := True, wh_ts := ts\<rparr>],
                 latest_wts := ts, latest_row := r, exists_prewrite := False, num_versions := num_versions s + 1\<rparr>)))"

definition mv_cancel :: "nat \<Rightarrow> ts_t \<Rightarrow> nat \<Rightarrow> ts_t \<Rightarrow> row_ptr option \<Rightarrow> Row_mvcc \<Rightarrow> (RC \<times> Row_mvcc) option" where
  "mv_cancel cnt min_ts full ts row s =
     assert_then (row = wh_row (write_history s ! prewrite_his_id s))
       (map_option (\<lambda>s1. (RCOK, s1)) (mv_update_buffer cnt min_ts full ts
          (s\<lparr>write_history := (write_history s)[prewrite_his_id s :=
               (write_history s ! prewrite_his_id s)\<lparr>wh_valid := False, wh_reserved := False\<rparr>],
             exists_prewrite := False\<rparr>)))"

definition mv_access :: "nat \<Rightarrow> ts_t \<Rightarrow> nat \<Rightarrow> nat \<Rightarrow> txn_ptr \<Rightarrow> ts_t \<Rightarrow> TsType \<Rightarrow> row_ptr option \<Rightarrow> Row_mvcc
    \<Rightarrow> (RC \<times> Row_mvcc) option" where
  "mv_access cnt min_ts full n txn ts type row s =
     (case type of
        R_REQ \<Rightarrow> mv_read txn ts s
      | P_REQ \<Rightarrow> mv_prewrite cnt min_ts n txn ts s
      | W_REQ \<Rightarrow> mv_write cnt min_ts full ts row s
      | XP_REQ \<Rightarrow> mv_cancel cnt min_ts full ts row s)"

end
