(* ===== verification/MVCC_System.thy ===== *)
theory MVCC_System
  imports Row_MVCC
begin

text \<open>
  The versions of a row under multi-version timestamp ordering: what \<open>reserveRow\<close>, \<open>update_buffer\<close> and
  \<open>access\<close> keep of the history, the transition system of all calls on one row, and the theorems on the
  reads it answers.
\<close>

section \<open>The versions of a row\<close>

text \<open>
  \<open>C\<close> is the set of the timestamps of all committed writes.  The valid entries of the history are the
  committed versions above \<open>_oldest_wts\<close>, the base row is the version \<open>_oldest_wts\<close>, and all rows are
  different.
\<close>

abbreviation his_len :: "Row_mvcc \<Rightarrow> nat" where
  "his_len s \<equiv> length (write_history s)"

definition valid_at :: "Row_mvcc \<Rightarrow> nat \<Rightarrow> bool" where
  "valid_at s i \<longleftrightarrow> i < his_len s \<and> wh_valid (write_history s ! i)"

abbreviation ts_at :: "Row_mvcc \<Rightarrow> nat \<Rightarrow> ts_t" where
  "ts_at s i \<equiv> wh_ts (write_history s ! i)"

abbreviation row_at :: "Row_mvcc \<Rightarrow> nat \<Rightarrow> row_ptr option" where
  "row_at s i \<equiv> wh_row (write_history s ! i)"

definition rows_ok :: "Row_mvcc \<Rightarrow> bool" where
  "rows_ok s \<longleftrightarrow>
     (\<forall>i j. i < his_len s \<longrightarrow> j < his_len s \<longrightarrow> row_at s i \<noteq> None \<longrightarrow> row_at s i = row_at s j \<longrightarrow> i = j) \<and>
     (\<forall>i<his_len s. row_at s i \<noteq> Some (mv_row s)) \<and>
     mv_row s < mv_next s \<and> (\<forall>i<his_len s. \<forall>r. row_at s i = Some r \<longrightarrow> r < mv_next s)"

definition versions_ok :: "ts_t set \<Rightarrow> Row_mvcc \<Rightarrow> bool" where
  "versions_ok C s \<longleftrightarrow>
     (\<forall>i j. valid_at s i \<longrightarrow> valid_at s j \<longrightarrow> ts_at s i = ts_at s j \<longrightarrow> i = j) \<and>
     ts_at s ` {i. valid_at s i} = {c \<in> C. oldest_wts s < c} \<and>
     oldest_wts s \<in> C \<and> latest_wts s \<in> C \<and> (\<forall>c\<in>C. c \<le> latest_wts s) \<and>
     num_versions s = card {i. valid_at s i} \<and> (\<forall>i. valid_at s i \<longrightarrow> row_at s i \<noteq> None) \<and> 0 < his_len s"

definition latest_ok :: "Row_mvcc \<Rightarrow> bool" where
  "latest_ok s \<longleftrightarrow>
     (if latest_wts s = oldest_wts s then latest_row s = mv_row s
      else \<exists>i. valid_at s i \<and> ts_at s i = latest_wts s \<and> row_at s i = Some (latest_row s))"

definition hist_ok :: "ts_t set \<Rightarrow> Row_mvcc \<Rightarrow> bool" where
  "hist_ok C s \<longleftrightarrow> rows_ok s \<and> versions_ok C s \<and> latest_ok s"

definition no_reserved :: "Row_mvcc \<Rightarrow> bool" where
  "no_reserved s \<longleftrightarrow> (\<forall>i<his_len s. \<not> wh_valid (write_history s ! i) \<longrightarrow> \<not> wh_reserved (write_history s ! i))"

lemma finite_valid [simp]: "finite {i. valid_at s i}"
  by (rule finite_subset [of _ "{..<his_len s}"]) (auto simp: valid_at_def)

lemma card_valid: "card {i. valid_at s i} = length (filter wh_valid (write_history s))"
  by (simp add: length_filter_conv_card valid_at_def)

lemma valid_bounds:
  assumes "versions_ok C s" "valid_at s i"
  shows "oldest_wts s < ts_at s i" "ts_at s i \<le> latest_wts s" "ts_at s i \<in> C"
  using assms by (auto simp: versions_ok_def)

text \<open>A version becomes the base: it and the versions below it leave the history.\<close>

lemma hist_rebase:
  assumes h: "hist_ok C s" and i: "valid_at s i" "row_at s i = Some r"
    and len: "his_len s' = his_len s" and base: "mv_row s' = r" "oldest_wts s' = ts_at s i"
    and same: "latest_wts s' = latest_wts s" "latest_row s' = latest_row s" "mv_next s' = mv_next s"
    and val: "\<And>j. j < his_len s \<Longrightarrow> wh_valid (write_history s' ! j) = (wh_valid (write_history s ! j) \<and> ts_at s i < ts_at s j)"
    and tss: "\<And>j. valid_at s' j \<Longrightarrow> ts_at s' j = ts_at s j"
    and rows: "\<And>j. j < his_len s \<Longrightarrow> row_at s' j = (if j = i then Some (mv_row s) else row_at s j)"
    and num: "num_versions s' = card {j. valid_at s' j}"
  shows "hist_ok C s'"
proof -
  have R: "rows_ok s" and V: "versions_ok C s" and L: "latest_ok s" using h by (auto simp: hist_ok_def)
  have il: "i < his_len s" using i(1) by (simp add: valid_at_def)
  have v': "valid_at s' j \<longleftrightarrow> valid_at s j \<and> ts_at s i < ts_at s j" for j
    using val [of j] len by (auto simp: valid_at_def)
  have "rows_ok s'"
    using R i(2) il len base(1) same(3) rows unfolding rows_ok_def by (auto split: if_splits)
  moreover have "versions_ok C s'"
  proof -
    have "ts_at s' ` {j. valid_at s' j} = {c \<in> C. ts_at s i < c}"
    proof -
      have "ts_at s' ` {j. valid_at s' j} = ts_at s ` {j. valid_at s j \<and> ts_at s i < ts_at s j}"
        using tss v' by (auto simp: image_iff)
      also have "\<dots> = ts_at s ` {j. valid_at s j} \<inter> {c. ts_at s i < c}" by auto
      also have "\<dots> = {c \<in> C. oldest_wts s < c} \<inter> {c. ts_at s i < c}" using V by (simp add: versions_ok_def)
      also have "\<dots> = {c \<in> C. ts_at s i < c}" using valid_bounds(1) [OF V i(1)] by (auto intro: order.strict_trans)
      finally show ?thesis .
    qed
    moreover have "i = j" if "valid_at s' i" "valid_at s' j" "ts_at s' i = ts_at s' j" for i j
      using that V v' tss by (auto simp: versions_ok_def)
    moreover have "row_at s' j \<noteq> None" if "valid_at s' j" for j
      using that V v' [of j] rows [of j] by (auto simp: versions_ok_def valid_at_def)
    ultimately show ?thesis
      using V len same(1) base(2) num valid_bounds(3) [OF V i(1)] unfolding versions_ok_def by auto
  qed
  moreover have "latest_ok s'"
  proof (cases "latest_wts s = ts_at s i")
    case True
    obtain k where k: "valid_at s k" "ts_at s k = latest_wts s" "row_at s k = Some (latest_row s)"
      using L True valid_bounds(1) [OF V i(1)] by (auto simp: latest_ok_def split: if_splits)
    then have "k = i" using V True i(1) by (auto simp: versions_ok_def)
    then show ?thesis using k i True base same by (simp add: latest_ok_def)
  next
    case False
    then obtain k where k: "valid_at s k" "ts_at s k = latest_wts s" "row_at s k = Some (latest_row s)"
      using L valid_bounds [OF V i(1)] by (auto simp: latest_ok_def split: if_splits)
    have "ts_at s i < ts_at s k" using valid_bounds(2) [OF V i(1)] k(2) False by auto
    moreover have "k \<noteq> i" using k False by auto
    moreover have "k < his_len s" using k(1) by (simp add: valid_at_def)
    ultimately have "valid_at s' k" "ts_at s' k = latest_wts s'" "row_at s' k = Some (latest_row s')"
      using k v' tss rows same by auto
    then show ?thesis using False same base by (auto simp: latest_ok_def)
  qed
  ultimately show ?thesis by (simp add: hist_ok_def)
qed

lemma find_recycle_spec:
  "find_recycle mt i es m idx = (m', idx') \<Longrightarrow> (m' = m \<and> idx' = idx) \<or>
    (\<exists>k<length es. idx' = i + k \<and> wh_valid (es ! k) \<and> wh_ts (es ! k) = m')"
proof (induction es arbitrary: i m idx)
  case (Cons e es)
  show ?case
  proof (cases "wh_valid e \<and> wh_ts e < mt \<and> m < wh_ts e")
    case True
    with Cons.prems Cons.IH [of "Suc i" "wh_ts e" i] show ?thesis
      by (metis add.right_neutral add_Suc_shift find_recycle.simps(2) length_Cons less_Suc_eq_0_disj nth_Cons_0 nth_Cons_Suc zero_less_Suc Suc_less_eq)
  next
    case False
    with Cons.prems Cons.IH [of "Suc i" m idx] show ?thesis
      by (metis add_Suc_shift find_recycle.simps(2) length_Cons nth_Cons_Suc Suc_less_eq)
  qed
qed simp

lemma oldest_slot_spec:
  "oldest_slot i es m idx = (m', idx') \<Longrightarrow> m' \<le> m \<and> (\<forall>e\<in>set es. wh_valid e \<longrightarrow> m' \<le> wh_ts e) \<and>
    ((m' = m \<and> idx' = idx) \<or> (\<exists>k<length es. idx' = i + k \<and> wh_valid (es ! k) \<and> wh_ts (es ! k) = m'))"
proof (induction es arbitrary: i m idx)
  case (Cons e es)
  show ?case
  proof (cases "wh_valid e \<and> wh_ts e < m")
    case True
    then have "oldest_slot (Suc i) es (wh_ts e) i = (m', idx')" using Cons.prems by simp
    note ih = Cons.IH [OF this]
    then have "\<exists>k<length (e # es). idx' = i + k \<and> wh_valid ((e # es) ! k) \<and> wh_ts ((e # es) ! k) = m'"
      using True by (metis add.right_neutral add_Suc_shift length_Cons nth_Cons_0 nth_Cons_Suc zero_less_Suc Suc_less_eq)
    then show ?thesis using ih True by auto
  next
    case False
    then have "oldest_slot (Suc i) es m idx = (m', idx')" using Cons.prems by auto
    note ih = Cons.IH [OF this]
    have "(m' = m \<and> idx' = idx) \<or> (\<exists>k<length (e # es). idx' = i + k \<and> wh_valid ((e # es) ! k) \<and> wh_ts ((e # es) ! k) = m')"
      using ih by (metis add_Suc_shift length_Cons nth_Cons_Suc Suc_less_eq)
    then show ?thesis using ih False by auto
  qed
qed simp

lemma free_slot_spec:
  "free_slot i idx es = idx \<and> (\<forall>e\<in>set es. wh_valid e \<or> wh_reserved e) \<or>
   (\<exists>k<length es. free_slot i idx es = i + k \<and> \<not> wh_valid (es ! k) \<and> \<not> wh_reserved (es ! k))"
proof (induction es arbitrary: i idx)
  case (Cons e es)
  have step: "\<exists>k<length (e # es). j = i + k \<and> \<not> wh_valid ((e # es) ! k) \<and> \<not> wh_reserved ((e # es) ! k)"
    if "\<exists>k<length es. j = Suc i + k \<and> \<not> wh_valid (es ! k) \<and> \<not> wh_reserved (es ! k)" for j
    using that by (metis add_Suc_shift length_Cons nth_Cons_Suc Suc_less_eq)
  have here: "\<exists>k<length (e # es). i = i + k \<and> \<not> wh_valid ((e # es) ! k) \<and> \<not> wh_reserved ((e # es) ! k)"
    if "\<not> wh_valid e" "\<not> wh_reserved e" using that by (intro exI [of _ 0]) simp
  show ?case
    using Cons.IH [of "Suc i" i] Cons.IH [of "Suc i" idx] step here by (cases "wh_valid e \<or> wh_reserved e") auto
qed simp

lemma collect_old_ok:
  assumes h: "hist_ok C s" and nr: "no_reserved s"
  shows "\<exists>s1. collect_old mt s = Some s1 \<and> hist_ok C s1 \<and> no_reserved s1 \<and>
    s1 = s\<lparr>mv_row := mv_row s1, oldest_wts := oldest_wts s1, write_history := write_history s1, num_versions := num_versions s1\<rparr>"
proof (cases "oldest_wts s < mt \<and> num_versions s = his_len s")
  case False
  then show ?thesis using assms by (auto simp: collect_old_def)
next
  case True
  obtain m idx where f: "find_recycle mt 0 (write_history s) 0 (his_len s) = (m, idx)" by fastforce
  show ?thesis
  proof (cases "idx = his_len s")
    case True
    then show ?thesis using assms f by (auto simp: collect_old_def)
  next
    case False
    with find_recycle_spec [OF f] have i: "valid_at s idx" "ts_at s idx = m" by (auto simp: valid_at_def)
    then obtain r where r: "row_at s idx = Some r" using h by (auto simp: hist_ok_def versions_ok_def)
    let ?H = "(write_history s)[idx := (write_history s ! idx)\<lparr>wh_row := Some (mv_row s)\<rparr>]"
    let ?old = "filter (\<lambda>e. wh_valid e \<and> wh_ts e \<le> m) ?H"
    let ?s = "s\<lparr>mv_row := r, oldest_wts := m, write_history := map (drop_old m) ?H, num_versions := num_versions s - length ?old\<rparr>"
    have il: "idx < his_len s" using i(1) by (simp add: valid_at_def)
    have V: "versions_ok C s" using h by (simp add: hist_ok_def)
    have nth: "?H ! j = (if j = idx then (write_history s ! j)\<lparr>wh_row := Some (mv_row s)\<rparr> else write_history s ! j)"
      if "j < his_len s" for j using that by (simp add: nth_list_update)
    have "wh_row e \<noteq> None" if "e \<in> set ?old" for e
    proof -
      from that obtain j where j: "j < his_len s" "e = ?H ! j" "wh_valid e" by (auto simp: in_set_conv_nth)
      then have "valid_at s j" using nth [OF j(1)] by (auto simp: valid_at_def split: if_splits)
      then have "row_at s j \<noteq> None" using V by (auto simp: versions_ok_def)
      then show ?thesis using j(2) nth [OF j(1)] by (auto split: if_splits)
    qed
    then have "\<forall>e\<in>set ?old. wh_row e \<noteq> None" by blast
    moreover have "swap_base idx m s = Some (s\<lparr>mv_row := r, oldest_wts := m, write_history := ?H\<rparr>)"
      using r by (simp add: swap_base_def)
    ultimately have c: "collect_old mt s = Some ?s"
      using True False f by (simp add: collect_old_def Let_def)
    have cnt: "length (filter wh_valid ?H) = num_versions s"
    proof -
      have "map wh_valid ?H = map wh_valid (write_history s)" using il by (intro nth_equalityI) (simp_all add: nth_list_update)
      then have "length (filter id (map wh_valid ?H)) = length (filter id (map wh_valid (write_history s)))" by simp
      then show ?thesis using V by (simp add: filter_map versions_ok_def card_valid comp_def)
    qed
    have "length (filter wh_valid (map (drop_old m) ?H)) = length (filter (\<lambda>e. wh_valid e \<and> \<not> wh_ts e \<le> m) ?H)"
      by (simp add: filter_map comp_def drop_old_def) (rule arg_cong [of _ _ length], rule filter_cong, auto)
    also have "\<dots> = num_versions s - length ?old"
      using sum_length_filter_compl [of "\<lambda>e. wh_ts e \<le> m" "filter wh_valid ?H"] cnt by (simp add: conj_commute)
    finally have num: "num_versions ?s = card {j. valid_at ?s j}" by (simp add: card_valid)
    have "hist_ok C ?s"
    proof (rule hist_rebase [OF h i(1) r])
      fix j assume j: "j < his_len s"
      show "wh_valid (write_history ?s ! j) = (wh_valid (write_history s ! j) \<and> ts_at s idx < ts_at s j)"
        using j i(2) by (cases "j = idx") (auto simp: drop_old_def)
      show "row_at ?s j = (if j = idx then Some (mv_row s) else row_at s j)" using j by (cases "j = idx") (auto simp: drop_old_def)
    next
      fix j assume "valid_at ?s j"
      then show "ts_at ?s j = ts_at s j" by (cases "j = idx") (auto simp: valid_at_def drop_old_def)
    qed (use num i in auto)
    moreover have "no_reserved ?s"
    proof -
      have "\<not> wh_reserved (write_history ?s ! j)" if "j < his_len s" "\<not> wh_valid (write_history ?s ! j)" for j
        using that nr by (cases "j = idx") (auto simp: no_reserved_def drop_old_def split: if_splits)
      then show ?thesis by (simp add: no_reserved_def)
    qed
    ultimately show ?thesis using c by (intro exI [of _ ?s]) simp
  qed
qed

section \<open>Reserving a row\<close>

definition pre_ok :: "Row_mvcc \<Rightarrow> bool" where
  "pre_ok s \<longleftrightarrow> exists_prewrite s \<and> prewrite_his_id s < his_len s \<and>
     (let e = write_history s ! prewrite_his_id s in \<not> wh_valid e \<and> wh_row e \<noteq> None \<and> wh_ts e = prewrite_ts s) \<and>
     (\<forall>j<his_len s. j \<noteq> prewrite_his_id s \<longrightarrow> \<not> wh_valid (write_history s ! j) \<longrightarrow> \<not> wh_reserved (write_history s ! j))"

text \<open>The fields that reserving a row leaves alone.\<close>

definition same_rest :: "Row_mvcc \<Rightarrow> Row_mvcc \<Rightarrow> bool" where
  "same_rest s s' \<longleftrightarrow> latest_wts s' = latest_wts s \<and> latest_row s' = latest_row s \<and>
     max_served_rts s' = max_served_rts s \<and> requests s' = requests s \<and> mv_cur s' = mv_cur s \<and>
     mv_ready s' = mv_ready s \<and> mv_heap s' = mv_heap s"

lemma take_slot_fields:
  assumes "take_slot ts idx s = (r, s')"
  shows "write_history s' = (write_history s)[idx := \<lparr>wh_valid = False, wh_reserved = True, wh_ts = ts, wh_row = Some r\<rparr>]"
    "mv_row s' = mv_row s" "oldest_wts s' = oldest_wts s" "num_versions s' = num_versions s" "same_rest s s'"
    "exists_prewrite s'" "prewrite_his_id s' = idx" "prewrite_ts s' = ts"
    "row_at s idx = Some r \<and> mv_next s' = mv_next s \<or> row_at s idx = None \<and> r = mv_next s \<and> mv_next s' = mv_next s + 1"
  using assms by (auto simp: take_slot_def Let_def same_rest_def split: option.splits)

lemma take_slot_hist:
  assumes h: "hist_ok C s" and i: "idx < his_len s" "\<not> wh_valid (write_history s ! idx)" and t: "take_slot ts idx s = (r, s')"
  shows "hist_ok C s'"
proof -
  note f = take_slot_fields [OF t]
  have len: "his_len s' = his_len s" by (simp add: f(1))
  have v: "valid_at s' j = valid_at s j" for j using i by (cases "j = idx") (auto simp: valid_at_def f(1))
  have tss: "ts_at s' j = ts_at s j" if "valid_at s j" for j using that i by (cases "j = idx") (auto simp: valid_at_def f(1))
  have rw: "row_at s' j = (if j = idx then Some r else row_at s j)" if "j < his_len s" for j
    using that by (simp add: f(1) nth_list_update)
  have R: "rows_ok s" using h by (simp add: hist_ok_def)
  have "rows_ok s'"
    using f(9)
  proof
    assume a: "row_at s idx = Some r \<and> mv_next s' = mv_next s"
    then have "row_at s' j = row_at s j" if "j < his_len s" for j using rw [OF that] by auto
    then show ?thesis using R len f(2) a unfolding rows_ok_def by auto
  next
    assume n: "row_at s idx = None \<and> r = mv_next s \<and> mv_next s' = mv_next s + 1"
    have lt: "q < mv_next s" if "row_at s j = Some q" "j < his_len s" for j q using R that unfolding rows_ok_def by blast
    have base: "mv_row s < mv_next s" "row_at s j \<noteq> Some (mv_row s)" if "j < his_len s" for j
      using R that unfolding rows_ok_def by blast+
    have inj: "j = k" if "j < his_len s" "k < his_len s" "row_at s j \<noteq> None" "row_at s j = row_at s k" for j k
      using R that unfolding rows_ok_def by blast
    have fresh: "row_at s j \<noteq> Some r" if "j < his_len s" for j using lt [OF _ that, of r] n by auto
    show ?thesis
      unfolding rows_ok_def len f(2)
    proof (intro conjI allI impI)
      fix j k assume jk: "j < his_len s" "k < his_len s" "row_at s' j \<noteq> None" "row_at s' j = row_at s' k"
      show "j = k"
      proof (cases "j = idx")
        case True
        then have "row_at s' k = Some r" using jk(4) rw [OF jk(1)] by simp
        then show ?thesis using rw [OF jk(2)] fresh [OF jk(2)] True by (cases "k = idx") simp_all
      next
        case False
        then have j: "row_at s' j = row_at s j" using rw [OF jk(1)] by simp
        then have "k \<noteq> idx" using rw [OF jk(2)] fresh [OF jk(1)] jk(4) by auto
        then have "row_at s' k = row_at s k" using rw [OF jk(2)] by simp
        then show ?thesis using inj [OF jk(1,2)] jk(3,4) j by simp
      qed
    next
      fix j assume j: "j < his_len s"
      show "row_at s' j \<noteq> Some (mv_row s)" using rw [OF j] base [OF j] n by (cases "j = idx") auto
    next
      show "mv_row s < mv_next s'" using n base(1) [OF i(1)] by simp
    next
      fix j q assume j: "j < his_len s" and q: "row_at s' j = Some q"
      show "q < mv_next s'" using rw [OF j] n q lt [OF _ j, of q] by (cases "j = idx") auto
    qed
  qed
  moreover have "versions_ok C s'"
  proof -
    have "ts_at s' ` {j. valid_at s' j} = ts_at s ` {j. valid_at s j}" using v tss by (auto simp: image_iff)
    moreover have "i = j" if "valid_at s' i" "valid_at s' j" "ts_at s' i = ts_at s' j" for i j
      using that v tss h by (auto simp: hist_ok_def versions_ok_def)
    moreover have "row_at s' j \<noteq> None" if "valid_at s' j" for j
      using that v rw [of j] h by (auto simp: hist_ok_def versions_ok_def valid_at_def)
    ultimately show ?thesis
      using h ext [of "valid_at s'" "valid_at s", OF v] f(3,4,5) len unfolding hist_ok_def versions_ok_def same_rest_def by auto
  qed
  moreover have "latest_ok s'"
    using h f(2,3,5) v tss rw i unfolding hist_ok_def latest_ok_def same_rest_def by (auto simp: valid_at_def split: if_splits)
  ultimately show ?thesis by (simp add: hist_ok_def)
qed

lemma double_list_hist:
  assumes "hist_ok C s" "no_reserved s"
  shows "hist_ok C (s\<lparr>write_history := write_history s @ replicate k empty_his\<rparr>)"
    "no_reserved (s\<lparr>write_history := write_history s @ replicate k empty_his\<rparr>)"
proof -
  let ?s = "s\<lparr>write_history := write_history s @ replicate k empty_his\<rparr>"
  have nth: "write_history ?s ! j = (if j < his_len s then write_history s ! j else empty_his)" if "j < his_len ?s" for j
    using that by (simp add: nth_append)
  have v: "valid_at ?s j = valid_at s j" for j by (auto simp: valid_at_def nth_append empty_his_def)
  have v': "valid_at ?s = valid_at s" using v by (rule ext)
  have lt: "valid_at s j \<Longrightarrow> j < his_len s" for j by (simp add: valid_at_def)
  have at: "write_history ?s ! j = write_history s ! j" if "j < his_len s" for j using that by (simp add: nth_append)
  have img: "ts_at ?s ` {j. valid_at s j} = ts_at s ` {j. valid_at s j}" using lt at by (intro image_cong) auto
  have "rows_ok ?s"
    using assms(1) unfolding hist_ok_def rows_ok_def by (auto simp: nth_append empty_his_def split: if_splits)
  moreover have "versions_ok C ?s"
    using assms(1) img lt at unfolding hist_ok_def versions_ok_def v' by auto
  moreover have "latest_ok ?s"
    using assms(1) lt at unfolding hist_ok_def latest_ok_def v' by (simp split: if_splits) metis
  ultimately show "hist_ok C ?s" by (simp add: hist_ok_def)
  show "no_reserved ?s" using assms(2) by (auto simp: no_reserved_def nth_append empty_his_def)
qed

lemma valid_fill:
  assumes "versions_ok C s" "no_reserved s" "num_versions s < his_len s"
  shows "free_slot 0 (his_len s) (write_history s) < his_len s \<and>
    \<not> wh_valid (write_history s ! free_slot 0 (his_len s) (write_history s))"
proof -
  have "{i. valid_at s i} \<noteq> {..<his_len s}" using assms by (auto simp: versions_ok_def)
  then obtain k where k: "k < his_len s" "\<not> wh_valid (write_history s ! k)" by (auto simp: valid_at_def)
  then have "\<not> (\<forall>e\<in>set (write_history s). wh_valid e \<or> wh_reserved e)" using assms(2) by (auto simp: no_reserved_def)
  then show ?thesis using free_slot_spec [of 0 "his_len s" "write_history s"] by auto
qed

lemma all_valid:
  assumes "versions_ok C s" "\<not> num_versions s < his_len s" "i < his_len s"
  shows "valid_at s i"
proof -
  have sub: "{i. valid_at s i} \<subseteq> {..<his_len s}" by (auto simp: valid_at_def)
  have "card {i. valid_at s i} = card {..<his_len s}"
    using assms(1,2) card_mono [OF _ sub] by (simp add: versions_ok_def)
  then have "{i. valid_at s i} = {..<his_len s}" using card_subset_eq [OF _ sub] by simp
  then show ?thesis using assms(3) by auto
qed

definition reserved_at :: "ts_t \<Rightarrow> row_ptr \<Rightarrow> Row_mvcc \<Rightarrow> bool" where
  "reserved_at ts r s \<longleftrightarrow> pre_ok s \<and> prewrite_ts s = ts \<and> row_at s (prewrite_his_id s) = Some r"

lemma take_slot_reserved:
  assumes "no_reserved s \<or> (\<forall>j<his_len s. j \<noteq> idx \<longrightarrow> wh_valid (write_history s ! j))" "idx < his_len s" "take_slot ts idx s = (r, s')"
  shows "reserved_at ts r s'"
proof -
  note f = take_slot_fields [OF assms(3)]
  have "write_history s' ! j = write_history s ! j" if "j \<noteq> idx" for j using that by (simp add: f(1))
  then show ?thesis using assms(1,2) by (auto simp: reserved_at_def pre_ok_def f(1,6,7,8) no_reserved_def)
qed

lemma make_room_ok:
  assumes h: "hist_ok C s" and nr: "no_reserved s" and full: "\<not> num_versions s < his_len s"
    and C: "\<forall>c\<in>C. c < UINT64_MAX"
  shows "\<exists>idx s2 r s'. make_room cnt s = Some (idx, s2) \<and> take_slot ts idx s2 = (r, s') \<and> hist_ok C s' \<and>
    reserved_at ts r s' \<and> same_rest s s'"
proof (cases "cnt \<le> his_len s")
  case False
  let ?s = "s\<lparr>write_history := write_history s @ replicate (his_len s) empty_his\<rparr>"
  have pos: "0 < his_len s" using h by (simp add: hist_ok_def versions_ok_def)
  obtain r s' where t: "take_slot ts (his_len s) ?s = (r, s')" by fastforce
  have "hist_ok C s'"
    using double_list_hist(1) [OF h nr] t pos by (intro take_slot_hist [OF _ _ _ t]) (auto simp: nth_append empty_his_def)
  moreover have "reserved_at ts r s'"
    using take_slot_reserved [OF _ _ t] double_list_hist(2) [OF h nr] pos by auto
  moreover have "same_rest s s'" using take_slot_fields(5) [OF t] by (simp add: same_rest_def)
  moreover have "make_room cnt s = Some (his_len s, ?s)" using False by (simp add: make_room_def)
  ultimately show ?thesis using t by blast
next
  case True
  have V: "versions_ok C s" using h by (simp add: hist_ok_def)
  have pos: "0 < his_len s" using V by (simp add: versions_ok_def)
  have all: "valid_at s j" if "j < his_len s" for j using all_valid [OF V full that] .
  obtain m idx where o: "oldest_slot 0 (write_history s) UINT64_MAX (his_len s) = (m, idx)" by fastforce
  have "m \<le> ts_at s 0" using oldest_slot_spec [OF o] all [OF pos] pos by (auto simp: valid_at_def)
  then have "m < UINT64_MAX" using valid_bounds(3) [OF V all [OF pos]] C by (auto intro: le_less_trans)
  then have i: "valid_at s idx" "ts_at s idx = m" using oldest_slot_spec [OF o] by (auto simp: valid_at_def)
  then have il: "idx < his_len s" by (simp add: valid_at_def)
  have least: "m < ts_at s j \<longleftrightarrow> j \<noteq> idx" if "j < his_len s" for j
    using oldest_slot_spec [OF o] all [OF that] i V that
    by (auto simp: versions_ok_def valid_at_def order.strict_iff_order)
  obtain p where p: "row_at s idx = Some p" using V i(1) by (auto simp: versions_ok_def)
  let ?s = "s\<lparr>mv_row := p, oldest_wts := m, write_history := (write_history s)[idx := (write_history s ! idx)\<lparr>wh_row := Some (mv_row s)\<rparr>],
    num_versions := num_versions s - 1\<rparr>"
  have mk: "make_room cnt s = Some (idx, ?s)"
    using True o il p valid_bounds(1) [OF V i(1)] i(2) by (simp add: make_room_def swap_base_def)
  obtain r s' where t: "take_slot ts idx ?s = (r, s')" by fastforce
  note f = take_slot_fields [OF t]
  have r: "r = mv_row s" "mv_next s' = mv_next s" using f(9) il by auto
  have H: "write_history s' = (write_history s)[idx := \<lparr>wh_valid = False, wh_reserved = True, wh_ts = ts, wh_row = Some (mv_row s)\<rparr>]"
    using f(1) r by simp
  have val: "wh_valid (write_history s' ! j) = (wh_valid (write_history s ! j) \<and> m < ts_at s j)" if "j < his_len s" for j
    using that least [OF that] by (cases "j = idx") (auto simp: H)
  have "{j. valid_at s' j} = {j. valid_at s j} - {idx}"
    using val least by (auto simp: valid_at_def H)
  then have num: "num_versions s' = card {j. valid_at s' j}" using f(4) V i(1) by (simp add: versions_ok_def)
  have "hist_ok C s'"
  proof (rule hist_rebase [OF h i(1) p])
    show "ts_at s' j = ts_at s j" if "valid_at s' j" for j
      using that val [of j] least [of j] by (cases "j = idx") (auto simp: valid_at_def H)
    show "row_at s' j = (if j = idx then Some (mv_row s) else row_at s j)" if "j < his_len s" for j
      using that by (simp add: H nth_list_update)
  qed (use f r val num i(2) H same_rest_def in auto)
  moreover have "reserved_at ts r s'"
    using take_slot_reserved [OF _ _ t] all il by (auto simp: valid_at_def)
  moreover have "same_rest s s'" using f(5) by (simp add: same_rest_def)
  ultimately show ?thesis using mk t by blast
qed

lemma reserveRow_ok:
  assumes h: "hist_ok C s" and nr: "no_reserved s" and ne: "\<not> exists_prewrite s" and C: "\<forall>c\<in>C. c < UINT64_MAX"
  shows "\<exists>r s'. reserveRow cnt mt ts s = Some (r, s') \<and> hist_ok C s' \<and> reserved_at ts r s' \<and> same_rest s s'"
proof -
  from collect_old_ok [OF h nr, of mt] obtain s1 where
    s1: "collect_old mt s = Some s1" "hist_ok C s1" "no_reserved s1"
      "s1 = s\<lparr>mv_row := mv_row s1, oldest_wts := oldest_wts s1, write_history := write_history s1, num_versions := num_versions s1\<rparr>"
    by blast
  have rest: "same_rest s s1" by (subst s1(4)) (simp add: same_rest_def)
  show ?thesis
  proof (cases "num_versions s1 < his_len s1")
    case True
    let ?i = "free_slot 0 (his_len s1) (write_history s1)"
    have i: "?i < his_len s1" "\<not> wh_valid (write_history s1 ! ?i)" using valid_fill [OF _ s1(3) True] s1(2) by (auto simp: hist_ok_def)
    obtain r s' where t: "take_slot ts ?i s1 = (r, s')" by fastforce
    have "hist_ok C s'" "reserved_at ts r s'" "same_rest s1 s'"
      using take_slot_hist [OF s1(2) i t] take_slot_reserved [OF _ i(1) t] take_slot_fields(5) [OF t] s1(3) by auto
    then show ?thesis using s1(1) ne True i t rest by (auto simp: reserveRow_def Let_def same_rest_def)
  next
    case False
    from make_room_ok [OF s1(2,3) False C, of cnt ts] obtain idx s2 r s' where
      "make_room cnt s1 = Some (idx, s2)" "take_slot ts idx s2 = (r, s')" "hist_ok C s'" "reserved_at ts r s'" "same_rest s1 s'" by blast
    then show ?thesis using s1(1) ne False rest by (auto simp: reserveRow_def Let_def same_rest_def)
  qed
qed

section \<open>The pending requests\<close>

abbreviation pending :: "ReqEntry list \<Rightarrow> ReqEntry list" where
  "pending q \<equiv> filter rq_valid q"

lemma put_req_ok:
  "put_req e q = Some q' \<Longrightarrow> rq_valid e \<Longrightarrow> mset (pending q') = add_mset e (mset (pending q)) \<and> length q' = length q"
  by (induction q arbitrary: q') (auto split: if_splits)

lemma put_req_None: "put_req e q = None \<longleftrightarrow> (\<forall>x\<in>set q. rq_valid x)"
  by (induction q) auto

lemma mv_buffer_req_ok:
  assumes "requests s \<noteq> []"
  shows "\<exists>q. mv_buffer_req ty t ts s = Some (s\<lparr>requests := q\<rparr>) \<and> q \<noteq> [] \<and>
    mset (pending q) = add_mset \<lparr>rq_valid = True, rq_type = ty, rq_ts = ts, rq_txn = t\<rparr> (mset (pending (requests s)))"
proof (cases "put_req \<lparr>rq_valid = True, rq_type = ty, rq_ts = ts, rq_txn = t\<rparr> (requests s)")
  case (Some q)
  then show ?thesis using put_req_ok [OF Some] assms by (auto simp: mv_buffer_req_def Let_def)
next
  case None
  let ?e = "\<lparr>rq_valid = True, rq_type = ty, rq_ts = ts, rq_txn = t\<rparr>" and ?r = "requests s @ replicate (length (requests s)) empty_req"
  have "empty_req \<in> set ?r" "\<not> rq_valid empty_req" using assms by (auto simp: empty_req_def)
  then have "put_req ?e ?r \<noteq> None" using put_req_None [of ?e ?r] by blast
  then obtain q where q: "put_req ?e ?r = Some q" by auto
  have "pending ?r = pending (requests s)" by (simp add: empty_req_def)
  then show ?thesis using put_req_ok [OF q] None q assms by (auto simp: mv_buffer_req_def Let_def)
qed

lemma next_pre_spec:
  "next_pre ts q k \<le> k \<and> (\<forall>e\<in>set q. rq_valid e \<and> rq_type e = P_REQ \<and> ts < rq_ts e \<longrightarrow> next_pre ts q k \<le> rq_ts e) \<and>
   (next_pre ts q k = k \<or> (\<exists>e\<in>set q. rq_valid e \<and> rq_type e = P_REQ \<and> ts < rq_ts e \<and> rq_ts e = next_pre ts q k))"
proof (induction q arbitrary: k)
  case (Cons e q)
  show ?case
  proof (cases "rq_valid e \<and> rq_type e = P_REQ \<and> ts < rq_ts e \<and> rq_ts e < k")
    case True
    then show ?thesis using Cons [of "rq_ts e"] by (auto intro: order_trans less_imp_le)
  next
    case False
    then show ?thesis using Cons [of k] by (auto simp: not_less intro: order_trans)
  qed
qed simp

definition served_entry :: "ts_t \<Rightarrow> ReqEntry \<Rightarrow> ReqEntry" where
  "served_entry nxt e = (if rq_valid e \<and> rq_ts e \<le> nxt then e\<lparr>rq_valid := False\<rparr> else e)"

text \<open>The requests \<open>update_buffer\<close> finds: pre-writes are not below \<open>nxt\<close>, and only a pre-write is at \<open>nxt\<close>.\<close>

definition reqs_ready :: "ts_t \<Rightarrow> ts_t \<Rightarrow> ReqEntry list \<Rightarrow> bool" where
  "reqs_ready ts nxt q \<longleftrightarrow> distinct (map rq_ts (pending q)) \<and> distinct (map rq_txn (pending q)) \<and>
     (\<forall>e\<in>set (pending q). ts < rq_ts e \<and> rq_type e \<in> {R_REQ, P_REQ} \<and>
        (rq_type e = P_REQ \<longrightarrow> nxt \<le> rq_ts e) \<and> (rq_ts e = nxt \<longrightarrow> rq_type e = P_REQ))"

definition readers_of :: "ReqEntry list \<Rightarrow> txn_ptr set" where
  "readers_of q = rq_txn ` {e \<in> set q. rq_valid e \<and> rq_type e = R_REQ}"

lemma wake_fields [simp]:
  "write_history (wake t s) = write_history s" "mv_row (wake t s) = mv_row s" "latest_wts (wake t s) = latest_wts s"
  "latest_row (wake t s) = latest_row s" "oldest_wts (wake t s) = oldest_wts s" "num_versions (wake t s) = num_versions s"
  "mv_next (wake t s) = mv_next s" "exists_prewrite (wake t s) = exists_prewrite s" "prewrite_ts (wake t s) = prewrite_ts s"
  "prewrite_his_id (wake t s) = prewrite_his_id s" "max_served_rts (wake t s) = max_served_rts s"
  "requests (wake t s) = requests s" "mv_cur (wake t s) = mv_cur s"
  by (simp_all add: wake_def)

text \<open>What the invariants of the history read of a state.\<close>

lemma hist_ok_cong:
  assumes "write_history s' = write_history s" "mv_row s' = mv_row s" "latest_wts s' = latest_wts s"
    "latest_row s' = latest_row s" "oldest_wts s' = oldest_wts s" "num_versions s' = num_versions s" "mv_next s' = mv_next s"
  shows "hist_ok C s' = hist_ok C s" "no_reserved s' = no_reserved s"
proof -
  have "valid_at s' = valid_at s" using assms by (intro ext) (simp add: valid_at_def)
  then show "hist_ok C s' = hist_ok C s"
    using assms by (simp add: hist_ok_def rows_ok_def versions_ok_def latest_ok_def)
  show "no_reserved s' = no_reserved s" using assms by (simp add: no_reserved_def)
qed

lemma pre_ok_cong:
  assumes "write_history s' = write_history s" "exists_prewrite s' = exists_prewrite s" "prewrite_ts s' = prewrite_ts s"
    "prewrite_his_id s' = prewrite_his_id s"
  shows "pre_ok s' = pre_ok s"
  using assms by (simp add: pre_ok_def)

definition free_or_pre :: "ts_t \<Rightarrow> Row_mvcc \<Rightarrow> bool" where
  "free_or_pre nxt s \<longleftrightarrow> (if exists_prewrite s then pre_ok s \<and> prewrite_ts s = nxt else no_reserved s)"

lemma reserve_copy_ok:
  assumes "hist_ok C s" "no_reserved s" "\<not> exists_prewrite s" "\<forall>c\<in>C. c < UINT64_MAX"
  shows "\<exists>s'. reserve_copy cnt mt n ts t s = Some s' \<and> hist_ok C s' \<and> pre_ok s' \<and> prewrite_ts s' = ts \<and>
    latest_wts s' = latest_wts s \<and> latest_row s' = latest_row s \<and> max_served_rts s' = max_served_rts s \<and>
    requests s' = requests s \<and> (\<forall>u. u \<noteq> t \<longrightarrow> mv_cur s' u = mv_cur s u)"
proof -
  from reserveRow_ok [OF assms, of cnt mt ts] obtain r s1 where
    s1: "reserveRow cnt mt ts s = Some (r, s1)" "hist_ok C s1" "reserved_at ts r s1" "same_rest s s1" by blast
  let ?s = "s1\<lparr>mv_heap := (mv_heap s1)(r := copy_data n (mv_heap s1 (latest_row s1)) (mv_heap s1 r)), mv_cur := (mv_cur s1)(t := r)\<rparr>"
  have "hist_ok C ?s" "pre_ok ?s" using s1(2,3) hist_ok_cong(1) [of ?s s1 C] pre_ok_cong [of ?s s1] by (auto simp: reserved_at_def)
  then show ?thesis using s1 by (intro exI [of _ ?s]) (simp add: reserve_copy_def same_rest_def reserved_at_def)
qed

definition serve_post :: "ts_t set \<Rightarrow> ts_t \<Rightarrow> ReqEntry list \<Rightarrow> Row_mvcc \<Rightarrow> Row_mvcc \<Rightarrow> bool" where
  "serve_post C nxt es s s' \<longleftrightarrow> hist_ok C s' \<and> free_or_pre nxt s' \<and>
     (exists_prewrite s' \<longleftrightarrow> exists_prewrite s \<or> (\<exists>e\<in>set (pending es). rq_ts e = nxt)) \<and>
     latest_wts s' = latest_wts s \<and> latest_row s' = latest_row s \<and>
     max_served_rts s \<le> max_served_rts s' \<and> (max_served_rts s \<le> nxt \<longrightarrow> max_served_rts s' \<le> nxt) \<and>
     (\<forall>e\<in>set (pending es). rq_type e = R_REQ \<longrightarrow> rq_ts e < nxt \<longrightarrow>
        mv_cur s' (rq_txn e) = latest_row s \<and> rq_ts e \<le> max_served_rts s') \<and>
     (\<forall>u. u \<notin> rq_txn ` set (pending es) \<longrightarrow> mv_cur s' u = mv_cur s u)"

lemma serve_reqs_ok:
  assumes C: "\<forall>c\<in>C. c < UINT64_MAX"
  shows "hist_ok C s \<Longrightarrow> free_or_pre nxt s \<Longrightarrow> reqs_ready ts nxt es \<Longrightarrow>
    (exists_prewrite s \<longrightarrow> (\<forall>e\<in>set (pending es). rq_ts e \<noteq> nxt)) \<Longrightarrow>
    \<exists>s'. serve_reqs cnt mt full ts nxt es s = Some (map (served_entry nxt) es, s') \<and> serve_post C nxt es s s'"
proof (induction es arbitrary: s)
  case Nil
  then show ?case by (simp add: serve_post_def)
next
  case (Cons e es)
  have rest: "reqs_ready ts nxt es" using Cons.prems(3) by (auto simp: reqs_ready_def split: if_splits)
  show ?case
  proof (cases "rq_valid e")
    case False
    from Cons.IH [OF Cons.prems(1,2) rest] Cons.prems(4) False obtain s' where
      "serve_reqs cnt mt full ts nxt es s = Some (map (served_entry nxt) es, s')" "serve_post C nxt es s s'" by auto
    then show ?thesis using False by (simp add: served_entry_def serve_post_def)
  next
    case True
    have e: "ts < rq_ts e" "rq_type e \<in> {R_REQ, P_REQ}" "rq_type e = P_REQ \<longrightarrow> nxt \<le> rq_ts e" "rq_ts e = nxt \<longrightarrow> rq_type e = P_REQ"
      using Cons.prems(3) True by (auto simp: reqs_ready_def)
    have ni: "rq_txn e \<notin> rq_txn ` set (pending es)" "rq_ts e \<notin> rq_ts ` set (pending es)"
      using Cons.prems(3) True by (auto simp: reqs_ready_def)
    then have ne: "\<forall>x\<in>set (pending es). rq_txn x \<noteq> rq_txn e \<and> rq_ts x \<noteq> rq_ts e" by (metis image_eqI)
    consider (rd) "rq_type e = R_REQ" "rq_ts e < nxt" | (pw) "rq_type e = P_REQ" "rq_ts e = nxt" | (stay) "nxt < rq_ts e"
      using e by (metis TsType.distinct(3) empty_iff insert_iff linorder_less_linear order.strict_iff_not)
    then show ?thesis
    proof cases
      case rd
      let ?s = "wake (rq_txn e) (s\<lparr>max_served_rts := if max_served_rts s < rq_ts e then rq_ts e else max_served_rts s,
        mv_cur := (mv_cur s)(rq_txn e := latest_row s)\<rparr>)"
      have h: "hist_ok C ?s" using Cons.prems(1) hist_ok_cong(1) [of ?s s C] by simp
      have fp: "free_or_pre nxt ?s"
        using Cons.prems(2) hist_ok_cong(2) [of ?s s] pre_ok_cong [of ?s s] by (simp add: free_or_pre_def)
      from Cons.IH [OF h fp rest] Cons.prems(4) obtain s' where
        s': "serve_reqs cnt mt full ts nxt es ?s = Some (map (served_entry nxt) es, s')" "serve_post C nxt es ?s s'" by auto
      have cur: "mv_cur s' (rq_txn e) = latest_row s" using s'(2) ni(1) by (simp add: serve_post_def)
      have "serve_post C nxt (e # es) s s'"
        using s'(2) True rd cur unfolding serve_post_def by (auto split: if_splits)
      then show ?thesis using s'(1) True rd e by (simp add: served_entry_def)
    next
      case pw
      have nex: "\<not> exists_prewrite s" using Cons.prems(4) True pw by auto
      then have "no_reserved s" using Cons.prems(2) by (simp add: free_or_pre_def)
      from reserve_copy_ok [OF Cons.prems(1) this nex C, of cnt mt full "rq_ts e" "rq_txn e"] obtain s1 where
        s1: "reserve_copy cnt mt full (rq_ts e) (rq_txn e) s = Some s1" "hist_ok C s1" "pre_ok s1" "prewrite_ts s1 = rq_ts e"
          "latest_wts s1 = latest_wts s" "latest_row s1 = latest_row s" "max_served_rts s1 = max_served_rts s"
          "\<forall>u. u \<noteq> rq_txn e \<longrightarrow> mv_cur s1 u = mv_cur s u" by blast
      let ?s = "wake (rq_txn e) s1"
      have h: "hist_ok C ?s" using s1(2) hist_ok_cong(1) [of ?s s1 C] by simp
      have fp: "free_or_pre nxt ?s" using s1(3,4) pre_ok_cong [of ?s s1] pw by (auto simp: free_or_pre_def pre_ok_def)
      have "exists_prewrite ?s" using s1(3) by (simp add: pre_ok_def)
      moreover have "\<forall>x\<in>set (pending es). rq_ts x \<noteq> nxt" using ne unfolding pw(2) [symmetric] by simp
      ultimately obtain s' where
        s': "serve_reqs cnt mt full ts nxt es ?s = Some (map (served_entry nxt) es, s')" "serve_post C nxt es ?s s'"
        using Cons.IH [OF h fp rest] by auto
      have "serve_post C nxt (e # es) s s'"
        using s'(2) True pw ne s1(3,5-8) unfolding serve_post_def by (auto simp: pre_ok_def)
      then show ?thesis using s'(1) s1(1) True pw e by (simp add: served_entry_def)
    next
      case stay
      from Cons.IH [OF Cons.prems(1,2) rest] Cons.prems(4) True obtain s' where
        s': "serve_reqs cnt mt full ts nxt es s = Some (map (served_entry nxt) es, s')" "serve_post C nxt es s s'" by auto
      have "serve_post C nxt (e # es) s s'" using s'(2) True stay unfolding serve_post_def by auto
      then show ?thesis using s'(1) True stay e by (auto simp: served_entry_def)
    qed
  qed
qed

section \<open>Runs of one row\<close>

definition mv_inv :: "txn_ptr set \<Rightarrow> (txn_ptr \<Rightarrow> ts_t) \<Rightarrow> ts_t set \<Rightarrow> Row_mvcc \<Rightarrow> bool" where
  "mv_inv T ts C s \<longleftrightarrow> inj_on ts T \<and> (\<forall>t. 0 < ts t \<and> ts t < UINT64_MAX) \<and> (\<forall>c\<in>C. c < UINT64_MAX) \<and> hist_ok C s \<and> requests s \<noteq> [] \<and>
     (if exists_prewrite s then pre_ok s \<and> latest_wts s < prewrite_ts s \<and> max_served_rts s \<le> prewrite_ts s \<and> prewrite_ts s < UINT64_MAX
      else no_reserved s \<and> pending (requests s) = []) \<and>
     distinct (map rq_txn (pending (requests s))) \<and>
     (\<forall>e\<in>set (pending (requests s)). prewrite_ts s < ts (rq_txn e) \<and> rq_ts e = ts (rq_txn e) \<and> rq_txn e \<in> T \<and> rq_type e \<in> {R_REQ, P_REQ})"

definition waiting_txns :: "Row_mvcc \<Rightarrow> txn_ptr set" where
  "waiting_txns s = rq_txn ` set (pending (requests s))"

text \<open>
  The calls a transaction makes: none while it waits; at most one pre-write, which ends in a write
  or a cancellation with the row it was given.
\<close>

definition mv_legal :: "txn_ptr set \<Rightarrow> (txn_ptr \<Rightarrow> ts_t) \<Rightarrow> ts_t set \<Rightarrow> TsType \<Rightarrow> txn_ptr \<Rightarrow> row_ptr option \<Rightarrow> Row_mvcc \<Rightarrow> bool" where
  "mv_legal T ts C type t row s \<longleftrightarrow> t \<in> T \<and> t \<notin> waiting_txns s \<and>
     (case type of
        R_REQ \<Rightarrow> True
      | P_REQ \<Rightarrow> ts t \<notin> C \<and> \<not> (exists_prewrite s \<and> prewrite_ts s = ts t)
      | _ \<Rightarrow> exists_prewrite s \<and> prewrite_ts s = ts t \<and> row = row_at s (prewrite_his_id s))"

text \<open>The version behind a pointer, and the reads a call answers.\<close>

definition version_ts :: "Row_mvcc \<Rightarrow> row_ptr \<Rightarrow> ts_t" where
  "version_ts s r =
     (if r = latest_row s then latest_wts s
      else if r = mv_row s then oldest_wts s
      else (case filter (\<lambda>e. wh_valid e \<and> wh_row e = Some r) (write_history s) of e # _ \<Rightarrow> wh_ts e | [] \<Rightarrow> 0))"

definition answered :: "TsType \<Rightarrow> txn_ptr \<Rightarrow> RC \<Rightarrow> Row_mvcc \<Rightarrow> Row_mvcc \<Rightarrow> txn_ptr set" where
  "answered type t rc s s' = (if type = R_REQ \<and> rc = RCOK then {t} else {}) \<union> (readers_of (requests s) - readers_of (requests s'))"

inductive mv_reach :: "nat \<Rightarrow> txn_ptr set \<Rightarrow> (txn_ptr \<Rightarrow> ts_t) \<Rightarrow> Row_mvcc \<Rightarrow> ts_t set \<Rightarrow> (ts_t \<times> ts_t) set \<Rightarrow> bool" for cnt T ts where
  init: "inj_on ts T \<Longrightarrow> (\<And>t. 0 < ts t \<and> ts t < UINT64_MAX) \<Longrightarrow> mv_reach cnt T ts (mv_init d cur rdy) {0} {}"
| access: "mv_reach cnt T ts s C R \<Longrightarrow> mv_legal T ts C type t row s \<Longrightarrow>
    mv_access cnt mt full n t (ts t) type row s = Some (rc, s') \<Longrightarrow>
    mv_reach cnt T ts s' (if type = W_REQ then insert (ts t) C else C)
      (R \<union> (\<lambda>u. (ts u, version_ts s' (mv_cur s' u))) ` answered type t rc s s')"

lemma distinct_rq_ts:
  assumes "inj_on ts T" "distinct (map rq_txn q)" "\<forall>e\<in>set q. rq_ts e = ts (rq_txn e) \<and> rq_txn e \<in> T"
  shows "distinct (map rq_ts q)"
proof -
  have "map rq_ts q = map ts (map rq_txn q)" using assms(3) by simp
  moreover have "set (map rq_txn q) \<subseteq> T" using assms(3) by auto
  ultimately show ?thesis using assms(1,2) inj_on_subset by (simp add: distinct_map del: set_map map_map) blast
qed

lemma pending_served: "pending (map (served_entry nxt) q) = filter (\<lambda>e. nxt < rq_ts e) (pending q)"
  by (induction q) (auto simp: served_entry_def)

text \<open>\<open>update_buffer\<close> after the pre-write is gone.\<close>

lemma mv_update_buffer_ok:
  assumes inj: "inj_on ts T" "\<forall>t. 0 < ts t \<and> ts t < UINT64_MAX" "\<forall>c\<in>C. c < UINT64_MAX"
    and h: "hist_ok C s" "no_reserved s" "\<not> exists_prewrite s"
    and q: "requests s \<noteq> []" "distinct (map rq_txn (pending (requests s)))"
      "\<forall>e\<in>set (pending (requests s)). k < rq_ts e \<and> rq_ts e = ts (rq_txn e) \<and> rq_txn e \<in> T \<and> rq_type e \<in> {R_REQ, P_REQ}"
    and m: "latest_wts s \<le> k" "max_served_rts s \<le> k" "k < UINT64_MAX"
  shows "\<exists>s'. mv_update_buffer cnt mt full k s = Some s' \<and> mv_inv T ts C s' \<and> latest_wts s' = latest_wts s \<and>
    latest_row s' = latest_row s \<and> max_served_rts s \<le> max_served_rts s' \<and>
    (\<forall>u\<in>readers_of (requests s) - readers_of (requests s'). mv_cur s' u = latest_row s \<and> ts u \<le> max_served_rts s' \<and> k < ts u)"
proof -
  let ?q = "requests s"
  let ?n = "next_pre k ?q UINT64_MAX"
  note np = next_pre_spec [of k ?q UINT64_MAX]
  have d: "distinct (map rq_ts (pending ?q))" using distinct_rq_ts [OF inj(1) q(2)] q(3) by blast
  have lt: "\<forall>e\<in>set (pending ?q). rq_ts e < UINT64_MAX" using q(3) inj(2) by metis
  have uniq: "rq_type e = P_REQ" if e: "e \<in> set (pending ?q)" "rq_ts e = ?n" for e
  proof -
    have "?n \<noteq> UINT64_MAX" using lt e by (metis order_less_irrefl)
    then obtain p where p: "p \<in> set (pending ?q)" "rq_type p = P_REQ" "rq_ts p = ?n" using np by auto
    then have "p = e" using d e by (metis distinct_map inj_onD)
    then show ?thesis using p(2) by simp
  qed
  have rr: "reqs_ready k ?n ?q" unfolding reqs_ready_def using d q(2,3) np uniq by auto
  have "free_or_pre ?n s" using h by (simp add: free_or_pre_def)
  from serve_reqs_ok [OF inj(3) h(1) this rr, of cnt mt full] h(3) obtain s1 where
    s1: "serve_reqs cnt mt full k ?n ?q s = Some (map (served_entry ?n) ?q, s1)" "serve_post C ?n ?q s s1" by auto
  let ?s = "s1\<lparr>requests := map (served_entry ?n) ?q\<rparr>"
  have hs: "hist_ok C ?s" "no_reserved ?s = no_reserved s1" "pre_ok ?s = pre_ok s1"
    using s1(2) hist_ok_cong [of ?s s1] pre_ok_cong [of ?s s1] by (auto simp: serve_post_def)
  have kn: "k < ?n" using np m(3) by auto
  have pend: "pending (requests ?s) = filter (\<lambda>e. ?n < rq_ts e) (pending ?q)" 
    using pending_served [of ?n ?q] by simp
  have "mv_inv T ts C ?s"
  proof (cases "exists_prewrite s1")
    case True
    then obtain e where e: "e \<in> set (pending ?q)" "rq_ts e = ?n" using s1(2) h(3) by (auto simp: serve_post_def)
    have n: "prewrite_ts s1 = ?n" "pre_ok s1" using s1(2) True by (auto simp: serve_post_def free_or_pre_def)
    have nm: "?n < UINT64_MAX" using lt e by metis
    have ms: "max_served_rts s1 \<le> ?n" using s1(2) m(2) kn by (auto simp: serve_post_def)
    have lw: "latest_wts s1 < ?n" using s1(2) m(1) kn by (auto simp: serve_post_def)
    have "distinct (map rq_txn (pending (requests ?s)))" unfolding pend using q(2) by (rule distinct_map_filter)
    moreover have "\<forall>e\<in>set (pending (requests ?s)). ?n < ts (rq_txn e) \<and> rq_ts e = ts (rq_txn e) \<and> rq_txn e \<in> T \<and> rq_type e \<in> {R_REQ, P_REQ}"
      unfolding pend using q(3) by auto
    ultimately show ?thesis
      unfolding mv_inv_def using inj hs q(1) True n nm ms lw by simp
  next
    case False
    have "?n = UINT64_MAX"
    proof (rule ccontr)
      assume "?n \<noteq> UINT64_MAX"
      then obtain p where "p \<in> set (pending ?q)" "rq_ts p = ?n" using np by auto
      then show False using False s1(2) by (auto simp: serve_post_def)
    qed
    then have "pending (requests ?s) = []" unfolding pend by (simp add: filter_empty_conv)
    moreover have "no_reserved s1" using False s1(2) by (simp add: serve_post_def free_or_pre_def)
    ultimately show ?thesis unfolding mv_inv_def using inj hs q(1) False by simp
  qed
  moreover have "mv_update_buffer cnt mt full k s = Some ?s" using s1(1) by (simp add: mv_update_buffer_def)
  moreover have "mv_cur ?s u = latest_row s \<and> ts u \<le> max_served_rts ?s \<and> k < ts u"
    if u: "u \<in> readers_of ?q - readers_of (requests ?s)" for u
  proof -
    from u obtain e where e: "e \<in> set (pending ?q)" "rq_type e = R_REQ" "u = rq_txn e" by (auto simp: readers_of_def)
    have "\<not> ?n < rq_ts e"
    proof
      assume "?n < rq_ts e"
      then have "e \<in> set (pending (requests ?s))" unfolding pend using e(1) by simp
      then show False using u e(2,3) by (auto simp: readers_of_def)
    qed
    then have "rq_ts e < ?n" using uniq [OF e(1)] e(2) by (metis TsType.distinct(3) linorder_neqE)
    then show ?thesis using s1(2) e q(3) by (auto simp: serve_post_def)
  qed
  ultimately show ?thesis using s1(2) by (intro exI [of _ ?s]) (auto simp: serve_post_def)
qed

lemma version_ts_latest: "version_ts s (latest_row s) = latest_wts s"
  by (simp add: version_ts_def)

lemma version_ts_base:
  assumes "hist_ok C s"
  shows "version_ts s (mv_row s) = oldest_wts s"
proof -
  have "latest_wts s = oldest_wts s" if "mv_row s = latest_row s"
  proof (rule ccontr)
    assume "latest_wts s \<noteq> oldest_wts s"
    then obtain i where "valid_at s i" "row_at s i = Some (latest_row s)"
      using assms by (auto simp: hist_ok_def latest_ok_def)
    then show False using assms that by (auto simp: hist_ok_def rows_ok_def valid_at_def)
  qed
  then show ?thesis by (auto simp: version_ts_def)
qed

lemma version_ts_entry:
  assumes h: "hist_ok C s" and i: "valid_at s i" "row_at s i = Some r"
  shows "version_ts s r = ts_at s i"
proof -
  have il: "i < his_len s" "wh_valid (write_history s ! i)" using i(1) by (auto simp: valid_at_def)
  have R: "rows_ok s" using h by (simp add: hist_ok_def)
  have nb: "r \<noteq> mv_row s" using R il i(2) by (auto simp: rows_ok_def)
  show ?thesis
  proof (cases "r = latest_row s")
    case True
    have "latest_wts s \<noteq> oldest_wts s" using h True nb by (auto simp: hist_ok_def latest_ok_def)
    then obtain k where k: "valid_at s k" "ts_at s k = latest_wts s" "row_at s k = Some r"
      using h True by (auto simp: hist_ok_def latest_ok_def)
    have "k = i" using R il i(2) k by (auto simp: rows_ok_def valid_at_def)
    then show ?thesis using True k by (simp add: version_ts_def)
  next
    case False
    have "write_history s ! i \<in> set (filter (\<lambda>e. wh_valid e \<and> wh_row e = Some r) (write_history s))" using il i(2) by simp
    then obtain e es where f: "filter (\<lambda>e. wh_valid e \<and> wh_row e = Some r) (write_history s) = e # es" by (cases "filter (\<lambda>e. wh_valid e \<and> wh_row e = Some r) (write_history s)") auto
    then have "e \<in> set (filter (\<lambda>e. wh_valid e \<and> wh_row e = Some r) (write_history s))" by simp
    then obtain k where k: "k < his_len s" "e = write_history s ! k" "wh_row e = Some r" by (auto simp: in_set_conv_nth)
    have "k = i" using R il i(2) k by (auto simp: rows_ok_def)
    then show ?thesis using False nb f k by (simp add: version_ts_def)
  qed
qed

lemma ucast32: "(x :: 64 word) < 4294967296 \<Longrightarrow> ucast (ucast x :: UInt32) = x"
proof -
  assume "x < 4294967296"
  then have "unat x < 2 ^ 32" by (simp add: word_less_nat_alt)
  then have "unat (ucast (ucast x :: UInt32) :: 64 word) = unat x"
    by (simp add: unsigned_ucast_eq unsigned_take_bit_eq take_bit_nat_eq_self)
  then show ?thesis by (simp add: word_unat_eq_iff)
qed

text \<open>The scan of a read, for timestamps that fit in 32 bits: the largest version below the reader.\<close>

lemma find_version_spec:
  "\<forall>e\<in>set es. wh_valid e \<longrightarrow> wh_ts e < 4294967296 \<Longrightarrow> find_version ts i es k idx = j \<Longrightarrow>
   (j = idx \<and> (\<forall>e\<in>set es. wh_valid e \<and> wh_ts e < ts \<longrightarrow> wh_ts e \<le> ucast k)) \<or>
   (\<exists>n<length es. j = i + n \<and> wh_valid (es ! n) \<and> wh_ts (es ! n) < ts \<and> ucast k < wh_ts (es ! n) \<and>
      (\<forall>e\<in>set es. wh_valid e \<and> wh_ts e < ts \<longrightarrow> wh_ts e \<le> wh_ts (es ! n)))"
proof (induction es arbitrary: i k idx)
  case (Cons e es)
  have small: "\<forall>e\<in>set es. wh_valid e \<longrightarrow> wh_ts e < 4294967296" using Cons.prems(1) by simp
  show ?case
  proof (cases "wh_valid e \<and> wh_ts e < ts \<and> ucast k < wh_ts e")
    case True
    have uc: "ucast (ucast (wh_ts e) :: UInt32) = wh_ts e" using Cons.prems(1) True by (intro ucast32) auto
    have "find_version ts (Suc i) es (ucast (wh_ts e)) i = j" using Cons.prems(2) True by simp
    from Cons.IH [OF small this] show ?thesis
    proof
      assume a: "j = i \<and> (\<forall>x\<in>set es. wh_valid x \<and> wh_ts x < ts \<longrightarrow> wh_ts x \<le> ucast (ucast (wh_ts e) :: UInt32))"
      then show ?thesis using True uc by (intro disjI2 exI [of _ 0]) auto
    next
      assume "\<exists>n<length es. j = Suc i + n \<and> wh_valid (es ! n) \<and> wh_ts (es ! n) < ts \<and> ucast (ucast (wh_ts e) :: UInt32) < wh_ts (es ! n) \<and>
        (\<forall>x\<in>set es. wh_valid x \<and> wh_ts x < ts \<longrightarrow> wh_ts x \<le> wh_ts (es ! n))"
      then obtain n where "n < length es" "j = Suc i + n" "wh_valid (es ! n)" "wh_ts (es ! n) < ts" "wh_ts e < wh_ts (es ! n)"
        "\<forall>x\<in>set es. wh_valid x \<and> wh_ts x < ts \<longrightarrow> wh_ts x \<le> wh_ts (es ! n)" using uc by auto
      then show ?thesis using True by (intro disjI2 exI [of _ "Suc n"]) auto
    qed
  next
    case False
    have "find_version ts (Suc i) es k idx = j" using Cons.prems(2) False by (auto split: if_splits)
    from Cons.IH [OF small this] show ?thesis
    proof
      assume "j = idx \<and> (\<forall>x\<in>set es. wh_valid x \<and> wh_ts x < ts \<longrightarrow> wh_ts x \<le> ucast k)"
      then show ?thesis using False by auto
    next
      assume "\<exists>n<length es. j = Suc i + n \<and> wh_valid (es ! n) \<and> wh_ts (es ! n) < ts \<and> ucast k < wh_ts (es ! n) \<and>
        (\<forall>x\<in>set es. wh_valid x \<and> wh_ts x < ts \<longrightarrow> wh_ts x \<le> wh_ts (es ! n))"
      then obtain n where "n < length es" "j = Suc i + n" "wh_valid (es ! n)" "wh_ts (es ! n) < ts" "ucast k < wh_ts (es ! n)"
        "\<forall>x\<in>set es. wh_valid x \<and> wh_ts x < ts \<longrightarrow> wh_ts x \<le> wh_ts (es ! n)" by auto
      then show ?thesis using False by (intro disjI2 exI [of _ "Suc n"]) (auto simp: not_less)
    qed
  qed
qed auto

definition read_ok :: "ts_t set \<Rightarrow> ts_t \<Rightarrow> ts_t \<Rightarrow> Row_mvcc \<Rightarrow> bool" where
  "read_ok C r v s \<longleftrightarrow> v \<in> C \<and> v \<le> r \<and> (\<forall>c\<in>C. \<not> (v < c \<and> c < r)) \<and> (r \<le> latest_wts s \<or> r \<le> max_served_rts s)"

lemma mv_read_version:
  assumes h: "hist_ok C s" and small: "\<forall>c\<in>C. c < 4294967296" and rd: "mv_read t r s = Some (RCOK, s')"
  shows "read_ok C r (version_ts s' (mv_cur s' t)) s'"
proof -
  have V: "versions_ok C s" using h by (simp add: hist_ok_def)
  have r: "\<not> r < oldest_wts s" using rd by (auto simp: mv_read_def)
  show ?thesis
  proof (cases "latest_wts s < r")
    case True
    then have s': "s' = s\<lparr>mv_cur := (mv_cur s)(t := latest_row s), max_served_rts := if max_served_rts s < r then r else max_served_rts s\<rparr>"
      using rd r by (auto simp: mv_read_def split: if_splits)
    have "version_ts s' (mv_cur s' t) = latest_wts s" by (simp add: s' version_ts_def)
    then show ?thesis using V True by (auto simp: read_ok_def versions_ok_def s')
  next
    case False
    let ?i = "find_version r 0 (write_history s) 0 (his_len s)"
    have sm: "\<forall>e\<in>set (write_history s). wh_valid e \<longrightarrow> wh_ts e < 4294967296"
      using valid_bounds(3) [OF V] small by (auto simp: in_set_conv_nth valid_at_def)
    note fs = find_version_spec [OF sm refl, of r 0 0 "his_len s"]
    have above: "\<exists>i. valid_at s i \<and> ts_at s i = c" if "c \<in> C" "oldest_wts s < c" for c
    proof -
      have "c \<in> ts_at s ` {i. valid_at s i}" using V that by (simp add: versions_ok_def)
      then show ?thesis by auto
    qed
    show ?thesis
    proof (cases "?i = his_len s")
      case True
      have s': "s' = s\<lparr>mv_cur := (mv_cur s)(t := mv_row s)\<rparr>" using rd r False True by (simp add: mv_read_def)
      have "hist_ok C s'" using h hist_ok_cong(1) [of s' s C] by (simp add: s')
      then have v: "version_ts s' (mv_cur s' t) = oldest_wts s" using version_ts_base by (fastforce simp: s')
      have none: "\<forall>e\<in>set (write_history s). wh_valid e \<and> wh_ts e < r \<longrightarrow> wh_ts e = 0" using fs True by auto
      have "\<not> c < r" if c: "c \<in> C" "oldest_wts s < c" for c
      proof
        assume "c < r"
        from above [OF c] obtain i where i: "i < his_len s" "wh_valid (write_history s ! i)" "ts_at s i = c" by (auto simp: valid_at_def)
        then have "c = 0" using none nth_mem [OF i(1)] \<open>c < r\<close> by metis
        then show False using c(2) by simp
      qed
      then show ?thesis using v r False V by (auto simp: read_ok_def versions_ok_def s')
    next
      case i: False
      then have f: "?i < his_len s" "wh_valid (write_history s ! ?i)" "ts_at s ?i < r"
        "\<forall>e\<in>set (write_history s). wh_valid e \<and> wh_ts e < r \<longrightarrow> wh_ts e \<le> ts_at s ?i" using fs by auto
      have va: "valid_at s ?i" using f by (simp add: valid_at_def)
      obtain p where p: "row_at s ?i = Some p" using V va by (auto simp: versions_ok_def)
      have s': "s' = s\<lparr>mv_cur := (mv_cur s)(t := p)\<rparr>" using rd r False i p by (auto simp: mv_read_def Let_def)
      have "hist_ok C s'" using h hist_ok_cong(1) [of s' s C] by (simp add: s')
      then have v: "version_ts s' (mv_cur s' t) = ts_at s ?i"
        using version_ts_entry [of C s' ?i p] va p by (simp add: s' valid_at_def)
      have "\<not> c < r" if c: "c \<in> C" "ts_at s ?i < c" for c
      proof
        assume "c < r"
        from above [OF c(1)] c(2) valid_bounds(1) [OF V va] obtain j where
          j: "j < his_len s" "wh_valid (write_history s ! j)" "ts_at s j = c" by (auto simp: valid_at_def dest: order.strict_trans)
        then show False using f(4) nth_mem [OF j(1)] \<open>c < r\<close> c(2) by (metis not_le)
      qed
      then show ?thesis using v f(3) False valid_bounds(3) [OF V va] by (auto simp: read_ok_def s')
    qed
  qed
qed

section \<open>One call\<close>

lemma rows_ok_transfer:
  assumes R: "rows_ok s" and e: "his_len s' = his_len s" "\<And>j. j < his_len s \<Longrightarrow> row_at s' j = row_at s j" "mv_row s' = mv_row s" "mv_next s' = mv_next s"
  shows "rows_ok s'"
  unfolding rows_ok_def e(1,3,4)
proof (intro conjI allI impI)
  fix i j assume "i < his_len s" "j < his_len s" "row_at s' i \<noteq> None" "row_at s' i = row_at s' j"
  then show "i = j" using R e(2) [of i] e(2) [of j] unfolding rows_ok_def by simp
next
  fix i assume "i < his_len s"
  then show "row_at s' i \<noteq> Some (mv_row s)" using R e(2) [of i] unfolding rows_ok_def by simp
next
  show "mv_row s < mv_next s" using R unfolding rows_ok_def by simp
next
  fix i r assume "i < his_len s" "row_at s' i = Some r"
  then show "r < mv_next s" using R e(2) [of i] unfolding rows_ok_def by simp
qed

lemma write_hist:
  assumes h: "hist_ok C s" and p: "pre_ok s" "row_at s (prewrite_his_id s) = Some r" and w: "latest_wts s < w"
    and s1: "s1 = s\<lparr>write_history := (write_history s)[prewrite_his_id s := (write_history s ! prewrite_his_id s)\<lparr>wh_valid := True, wh_ts := w\<rparr>],
       latest_wts := w, latest_row := r, exists_prewrite := False, num_versions := num_versions s + 1\<rparr>"
  shows "hist_ok (insert w C) s1" "no_reserved s1"
proof -
  let ?i = "prewrite_his_id s"
  have i: "?i < his_len s" "\<not> wh_valid (write_history s ! ?i)" using p(1) by (auto simp: pre_ok_def Let_def)
  have at: "write_history s1 ! j = (if j = ?i then (write_history s ! j)\<lparr>wh_valid := True, wh_ts := w\<rparr> else write_history s ! j)"
    if "j < his_len s" for j using that by (simp add: s1 nth_list_update)
  have len: "his_len s1 = his_len s" by (simp add: s1)
  have ol: "oldest_wts s \<le> latest_wts s" "oldest_wts s1 = oldest_wts s" using h by (auto simp: hist_ok_def versions_ok_def s1)
  have v: "valid_at s1 j \<longleftrightarrow> valid_at s j \<or> j = ?i" for j using at [of j] i len by (auto simp: valid_at_def)
  have nv: "\<not> valid_at s ?i" using i by (simp add: valid_at_def)
  have tss: "ts_at s1 j = (if j = ?i then w else ts_at s j)" if "valid_at s1 j" for j using that at [of j] len by (auto simp: valid_at_def)
  have rows: "row_at s1 j = row_at s j" if "j < his_len s" for j using at [OF that] by simp
  have V: "versions_ok C s" using h by (simp add: hist_ok_def)
  have vs: "{j. valid_at s1 j} = insert ?i {j. valid_at s j}" using v by auto
  have "rows_ok s1" by (rule rows_ok_transfer [OF _ len rows]) (use h in \<open>simp_all add: s1 hist_ok_def\<close>)
  moreover have "versions_ok (insert w C) s1"
    unfolding versions_ok_def
  proof (intro conjI allI impI ballI)
    fix j k assume jk: "valid_at s1 j" "valid_at s1 k" "ts_at s1 j = ts_at s1 k"
    have lt: "ts_at s x < w" if "valid_at s x" for x using valid_bounds(2) [OF V that] w by (rule le_less_trans)
    show "j = k"
    proof (cases "j = ?i \<or> k = ?i")
      case True
      then show ?thesis using jk tss [OF jk(1)] tss [OF jk(2)] v [of j] v [of k] lt [of j] lt [of k] by (auto split: if_splits)
    next
      case False
      then have "valid_at s j" "valid_at s k" "ts_at s j = ts_at s k" using jk v tss [OF jk(1)] tss [OF jk(2)] by auto
      then show ?thesis using V by (simp add: versions_ok_def)
    qed
  next
    have "ts_at s1 ` {j. valid_at s1 j} = insert w (ts_at s ` {j. valid_at s j})"
    proof -
      have "ts_at s1 ` {j. valid_at s j} = ts_at s ` {j. valid_at s j}"
        using tss v nv by (intro image_cong) auto
      moreover have "ts_at s1 ?i = w" using tss [of ?i] v by simp
      ultimately show ?thesis unfolding vs by simp
    qed
    also have "\<dots> = insert w {c \<in> C. oldest_wts s < c}" using V by (simp add: versions_ok_def)
    also have "\<dots> = {c \<in> insert w C. oldest_wts s1 < c}" using ol w by auto
    finally show "ts_at s1 ` {j. valid_at s1 j} = {c \<in> insert w C. oldest_wts s1 < c}" .
    show "num_versions s1 = card {j. valid_at s1 j}" unfolding vs using V nv by (simp add: s1 versions_ok_def)
    show "row_at s1 j \<noteq> None" if "valid_at s1 j" for j
      using that v [of j] rows [of j] V p(2) i len by (auto simp: versions_ok_def valid_at_def)
    show "c \<le> latest_wts s1" if "c \<in> insert w C" for c using that V w by (auto simp: s1 versions_ok_def)
  qed (use V in \<open>auto simp: s1 versions_ok_def\<close>)
  moreover have "latest_ok s1"
    using ol w v [of ?i] tss [of ?i] rows [OF i(1)] p(2) unfolding latest_ok_def by (auto simp: s1)
  ultimately show "hist_ok (insert w C) s1" by (simp add: hist_ok_def)
  show "no_reserved s1" using p(1) at len by (auto simp: no_reserved_def pre_ok_def)
qed

lemma cancel_hist:
  assumes h: "hist_ok C s" and p: "pre_ok s"
    and s1: "s1 = s\<lparr>write_history := (write_history s)[prewrite_his_id s := (write_history s ! prewrite_his_id s)\<lparr>wh_valid := False, wh_reserved := False\<rparr>],
       exists_prewrite := False\<rparr>"
  shows "hist_ok C s1" "no_reserved s1"
proof -
  let ?i = "prewrite_his_id s"
  have i: "?i < his_len s" "\<not> wh_valid (write_history s ! ?i)" using p by (auto simp: pre_ok_def Let_def)
  have at: "write_history s1 ! j = (if j = ?i then (write_history s ! j)\<lparr>wh_valid := False, wh_reserved := False\<rparr> else write_history s ! j)"
    if "j < his_len s" for j using that by (simp add: s1 nth_list_update)
  have len: "his_len s1 = his_len s" by (simp add: s1)
  have v: "valid_at s1 = valid_at s" using at i len by (intro ext) (auto simp: valid_at_def split: if_splits)
  have tss: "ts_at s1 j = ts_at s j" "row_at s1 j = row_at s j" if "j < his_len s" for j using at [OF that] by auto
  have lt: "valid_at s j \<Longrightarrow> j < his_len s" for j by (simp add: valid_at_def)
  have img: "ts_at s1 ` {j. valid_at s j} = ts_at s ` {j. valid_at s j}" using lt tss(1) by (intro image_cong) auto
  have "rows_ok s1" by (rule rows_ok_transfer [OF _ len tss(2)]) (use h in \<open>simp_all add: s1 hist_ok_def\<close>)
  moreover have "versions_ok C s1"
    using h img lt tss len unfolding hist_ok_def versions_ok_def v by (simp add: s1)
  moreover have "latest_ok s1" using h lt tss unfolding hist_ok_def latest_ok_def v by (auto simp: s1 split: if_splits)
  ultimately show "hist_ok C s1" by (simp add: hist_ok_def)
  show "no_reserved s1" using p at len by (auto simp: no_reserved_def pre_ok_def)
qed

definition step_ok :: "txn_ptr set \<Rightarrow> (txn_ptr \<Rightarrow> ts_t) \<Rightarrow> ts_t set \<Rightarrow> TsType \<Rightarrow> txn_ptr \<Rightarrow> Row_mvcc \<Rightarrow> RC \<Rightarrow> Row_mvcc \<Rightarrow> bool" where
  "step_ok T ts C type t s rc s' \<longleftrightarrow> mv_inv T ts (if type = W_REQ then insert (ts t) C else C) s' \<and>
     latest_wts s \<le> latest_wts s' \<and> max_served_rts s \<le> max_served_rts s' \<and>
     (type = W_REQ \<longrightarrow> latest_wts s < ts t \<and> max_served_rts s \<le> ts t) \<and>
     (\<forall>u\<in>readers_of (requests s) - readers_of (requests s'). mv_cur s' u = latest_row s' \<and> ts u \<le> max_served_rts s' \<and>
        latest_wts s' \<le> ts u)"

lemma mset_filter_set: "mset xs = add_mset e (mset ys) \<Longrightarrow> set xs = insert e (set ys)"
  by (metis set_mset_add_mset_insert set_mset_mset)

lemma mv_inv_buffer:
  assumes i: "mv_inv T ts C s" and ex: "exists_prewrite s" "prewrite_ts s < ts t" and t: "t \<notin> waiting_txns s" "t \<in> T" and ty: "ty \<in> {R_REQ, P_REQ}"
  shows "\<exists>s'. mv_buffer_req ty t (ts t) s = Some s' \<and> (\<forall>f. mv_inv T ts C (s'\<lparr>mv_ready := f\<rparr>)) \<and> latest_wts s' = latest_wts s \<and>
    max_served_rts s' = max_served_rts s \<and> readers_of (requests s) \<subseteq> readers_of (requests s')"
proof -
  have ne: "requests s \<noteq> []" using i by (simp add: mv_inv_def)
  let ?e = "\<lparr>rq_valid = True, rq_type = ty, rq_ts = ts t, rq_txn = t\<rparr>"
  from mv_buffer_req_ok [OF ne, of ty t "ts t"] obtain q where
    q: "mv_buffer_req ty t (ts t) s = Some (s\<lparr>requests := q\<rparr>)" "q \<noteq> []" "mset (pending q) = add_mset ?e (mset (pending (requests s)))" by blast
  have sq: "set (pending q) = insert ?e (set (pending (requests s)))" using mset_filter_set [OF q(3)] .
  have "mset (map rq_txn (pending q)) = mset (t # map rq_txn (pending (requests s)))"
    using arg_cong [OF q(3), of "image_mset rq_txn"] by simp
  then have d: "distinct (map rq_txn (pending q))"
    using i t by (metis (no_types, lifting) distinct.simps(2) mset_eq_imp_distinct_iff mv_inv_def waiting_txns_def image_set)
  have "mv_inv T ts C (s\<lparr>requests := q, mv_ready := f\<rparr>)" for f
  proof -
    let ?s = "s\<lparr>requests := q, mv_ready := f\<rparr>"
    have "hist_ok C ?s = hist_ok C s" "pre_ok ?s = pre_ok s" by (rule hist_ok_cong pre_ok_cong; simp)+
    moreover have "\<forall>e\<in>set (pending q). prewrite_ts s < ts (rq_txn e) \<and> rq_ts e = ts (rq_txn e) \<and> rq_txn e \<in> T \<and> rq_type e \<in> {R_REQ, P_REQ}"
      using i ex ty t(2) unfolding sq mv_inv_def by auto
    ultimately show ?thesis using i ex q(2) d unfolding mv_inv_def by simp
  qed
  moreover have "readers_of (requests s) \<subseteq> readers_of q"
  proof
    fix u assume "u \<in> readers_of (requests s)"
    then obtain e where "e \<in> set (pending (requests s))" "rq_type e = R_REQ" "u = rq_txn e" by (auto simp: readers_of_def)
    then have "e \<in> set (pending q)" unfolding sq by simp
    then show "u \<in> readers_of q" using \<open>rq_type e = R_REQ\<close> \<open>u = rq_txn e\<close> by (auto simp: readers_of_def)
  qed
  ultimately show ?thesis using q(1) by (intro exI [of _ "s\<lparr>requests := q\<rparr>"]) simp
qed

lemma find_version_valid:
  "find_version ts i es k idx = idx \<or> (\<exists>n<length es. find_version ts i es k idx = i + n \<and> wh_valid (es ! n))"
proof (induction es arbitrary: i k idx)
  case (Cons e es)
  have step: "\<exists>n<length (e # es). j = i + n \<and> wh_valid ((e # es) ! n)" if "\<exists>n<length es. j = Suc i + n \<and> wh_valid (es ! n)" for j
    using that by (metis add_Suc_shift length_Cons nth_Cons_Suc Suc_less_eq)
  have here: "\<exists>n<length (e # es). i = i + n \<and> wh_valid ((e # es) ! n)" if "wh_valid e" using that by (intro exI [of _ 0]) simp
  show ?case using Cons.IH [of "Suc i" "ucast (wh_ts e)" i] Cons.IH [of "Suc i" k idx] step here by auto
qed simp

lemma mv_read_ok:
  assumes i: "mv_inv T ts C s" and t: "t \<notin> waiting_txns s" "t \<in> T"
  shows "\<exists>rc s'. mv_read t (ts t) s = Some (rc, s') \<and> step_ok T ts C R_REQ t s rc s'"
proof -
  have V: "versions_ok C s" using i by (simp add: mv_inv_def hist_ok_def)
  consider (ab) "ts t < oldest_wts s" | (wait) "\<not> ts t < oldest_wts s" "latest_wts s < ts t" "exists_prewrite s \<and> prewrite_ts s < ts t"
    | (now) "\<not> ts t < oldest_wts s" "latest_wts s < ts t" "\<not> (exists_prewrite s \<and> prewrite_ts s < ts t)"
    | (old) "\<not> ts t < oldest_wts s" "\<not> latest_wts s < ts t" by blast
  then show ?thesis
  proof cases
    case ab
    then show ?thesis using i by (simp add: mv_read_def step_ok_def)
  next
    case wait
    from mv_inv_buffer [OF i _ _ t, of R_REQ] wait obtain s' where
      "mv_buffer_req R_REQ t (ts t) s = Some s'" "\<forall>f. mv_inv T ts C (s'\<lparr>mv_ready := f\<rparr>)" "latest_wts s' = latest_wts s"
      "max_served_rts s' = max_served_rts s" "readers_of (requests s) \<subseteq> readers_of (requests s')" by auto
    then show ?thesis using wait by (auto simp: mv_read_def step_ok_def)
  next
    case now
    let ?s = "s\<lparr>mv_cur := (mv_cur s)(t := latest_row s), max_served_rts := if max_served_rts s < ts t then ts t else max_served_rts s\<rparr>"
    have "hist_ok C ?s = hist_ok C s" "pre_ok ?s = pre_ok s" "no_reserved ?s = no_reserved s" by (rule hist_ok_cong pre_ok_cong; simp)+
    then have "mv_inv T ts C ?s" using i now(3) unfolding mv_inv_def by auto
    then show ?thesis using now by (auto simp: mv_read_def step_ok_def)
  next
    case old
    let ?i = "find_version (ts t) 0 (write_history s) 0 (his_len s)"
    have keep: "step_ok T ts C R_REQ t s RCOK (s\<lparr>mv_cur := f\<rparr>)" for f
    proof -
      let ?s = "s\<lparr>mv_cur := f\<rparr>"
      have "hist_ok C ?s = hist_ok C s" "pre_ok ?s = pre_ok s" "no_reserved ?s = no_reserved s" by (rule hist_ok_cong pre_ok_cong; simp)+
      then have "mv_inv T ts C ?s" using i unfolding mv_inv_def by simp
      then show ?thesis by (simp add: step_ok_def)
    qed
    have "?i = his_len s \<or> valid_at s ?i"
      using find_version_valid [of "ts t" 0 "write_history s" 0 "his_len s"] by (auto simp: valid_at_def)
    then have "?i = his_len s \<or> (\<exists>p. row_at s ?i = Some p)" using V by (auto simp: versions_ok_def)
    then show ?thesis using old keep by (auto simp: mv_read_def Let_def)
  qed
qed

lemma mv_prewrite_ok:
  assumes i: "mv_inv T ts C s" and l: "mv_legal T ts C P_REQ t row s"
  shows "\<exists>rc s'. mv_prewrite cnt mt n t (ts t) s = Some (rc, s') \<and> step_ok T ts C P_REQ t s rc s'"
proof -
  have t: "t \<notin> waiting_txns s" "ts t \<notin> C" "\<not> (exists_prewrite s \<and> prewrite_ts s = ts t)" "t \<in> T" using l by (auto simp: mv_legal_def)
  have V: "hist_ok C s" "latest_wts s \<in> C" using i by (auto simp: mv_inv_def hist_ok_def versions_ok_def)
  consider (ab) "ts t < latest_wts s \<or> ts t < max_served_rts s \<or> exists_prewrite s \<and> ts t < prewrite_ts s"
    | (wait) "\<not> (ts t < latest_wts s \<or> ts t < max_served_rts s \<or> exists_prewrite s \<and> ts t < prewrite_ts s)" "exists_prewrite s"
    | (now) "\<not> (ts t < latest_wts s \<or> ts t < max_served_rts s \<or> exists_prewrite s \<and> ts t < prewrite_ts s)" "\<not> exists_prewrite s" by blast
  then show ?thesis
  proof cases
    case ab
    then show ?thesis using i by (auto simp: mv_prewrite_def step_ok_def)
  next
    case wait
    then have lt: "prewrite_ts s < ts t" using t(3) by auto
    from mv_inv_buffer [OF i wait(2) lt t(1,4), of P_REQ] obtain s' where
      "mv_buffer_req P_REQ t (ts t) s = Some s'" "\<forall>f. mv_inv T ts C (s'\<lparr>mv_ready := f\<rparr>)" "latest_wts s' = latest_wts s"
      "max_served_rts s' = max_served_rts s" "readers_of (requests s) \<subseteq> readers_of (requests s')" by auto
    then show ?thesis using wait by (auto simp: mv_prewrite_def step_ok_def)
  next
    case now
    have nr: "no_reserved s" "pending (requests s) = []" "requests s \<noteq> []" and C: "\<forall>c\<in>C. c < UINT64_MAX"
      using i now(2) by (auto simp: mv_inv_def)
    from reserve_copy_ok [OF V(1) nr(1) now(2) C, of cnt mt n "ts t" t] obtain s' where
      s': "reserve_copy cnt mt n (ts t) t s = Some s'" "hist_ok C s'" "pre_ok s'" "prewrite_ts s' = ts t"
        "latest_wts s' = latest_wts s" "max_served_rts s' = max_served_rts s" "requests s' = requests s" by blast
    have "latest_wts s < ts t" using now(1) V(2) t(2) by (metis linorder_neqE)
    moreover have "exists_prewrite s'" using s'(3) by (simp add: pre_ok_def)
    ultimately have "mv_inv T ts C s'" using i s' nr now(1) unfolding mv_inv_def by auto
    then show ?thesis using s' now by (auto simp: mv_prewrite_def step_ok_def)
  qed
qed

lemma mv_finish_ok:
  assumes i: "mv_inv T ts C s" and l: "mv_legal T ts C type t row s" and ty: "type \<in> {W_REQ, XP_REQ}"
  shows "\<exists>rc s'. mv_access cnt mt full n t (ts t) type row s = Some (rc, s') \<and> step_ok T ts C type t s rc s'"
proof -
  let ?i = "prewrite_his_id s"
  have ex: "exists_prewrite s" "prewrite_ts s = ts t" "row = row_at s ?i" using l ty by (auto simp: mv_legal_def)
  have I: "inj_on ts T" "\<forall>t. 0 < ts t \<and> ts t < UINT64_MAX" "\<forall>c\<in>C. c < UINT64_MAX" "hist_ok C s" "requests s \<noteq> []" "pre_ok s"
    "latest_wts s < ts t" "max_served_rts s \<le> ts t" "distinct (map rq_txn (pending (requests s)))"
    using i ex unfolding mv_inv_def by auto
  have Q: "\<forall>e\<in>set (pending (requests s)). ts t < rq_ts e \<and> rq_ts e = ts (rq_txn e) \<and> rq_txn e \<in> T \<and> rq_type e \<in> {R_REQ, P_REQ}"
    using i ex unfolding mv_inv_def by auto
  obtain r where r: "row_at s ?i = Some r" using I(6) by (auto simp: pre_ok_def Let_def)
  show ?thesis
  proof (cases "type = W_REQ")
    case True
    let ?s = "s\<lparr>write_history := (write_history s)[?i := (write_history s ! ?i)\<lparr>wh_valid := True, wh_ts := ts t\<rparr>],
       latest_wts := ts t, latest_row := r, exists_prewrite := False, num_versions := num_versions s + 1\<rparr>"
    have h: "hist_ok (insert (ts t) C) ?s" "no_reserved ?s" using write_hist [OF I(4,6) r I(7) refl] by auto
    have C: "\<forall>c\<in>insert (ts t) C. c < UINT64_MAX" using I(2,3) by auto
    have "\<exists>s'. mv_update_buffer cnt mt full (ts t) ?s = Some s' \<and> mv_inv T ts (insert (ts t) C) s' \<and> latest_wts s' = latest_wts ?s \<and>
      latest_row s' = latest_row ?s \<and> max_served_rts ?s \<le> max_served_rts s' \<and>
      (\<forall>u\<in>readers_of (requests ?s) - readers_of (requests s'). mv_cur s' u = latest_row ?s \<and> ts u \<le> max_served_rts s' \<and> ts t < ts u)"
      by (rule mv_update_buffer_ok [OF I(1,2) C h]) (use I Q in auto)
    then obtain s' where "mv_update_buffer cnt mt full (ts t) ?s = Some s'" "mv_inv T ts (insert (ts t) C) s'" "latest_wts s' = ts t"
      "latest_row s' = r" "max_served_rts s \<le> max_served_rts s'"
      "\<forall>u\<in>readers_of (requests s) - readers_of (requests s'). mv_cur s' u = r \<and> ts u \<le> max_served_rts s' \<and> ts t < ts u" by auto
    moreover have "ts t \<le> ts u" if "ts t < ts u" for u using that by (rule less_imp_le)
    ultimately show ?thesis using True ex r I by (auto simp: mv_access_def mv_write_def step_ok_def)
  next
    case False
    then have xp: "type = XP_REQ" using ty by simp
    let ?s = "s\<lparr>write_history := (write_history s)[?i := (write_history s ! ?i)\<lparr>wh_valid := False, wh_reserved := False\<rparr>], exists_prewrite := False\<rparr>"
    have h: "hist_ok C ?s" "no_reserved ?s" using cancel_hist [OF I(4,6) refl] by auto
    have "\<exists>s'. mv_update_buffer cnt mt full (ts t) ?s = Some s' \<and> mv_inv T ts C s' \<and> latest_wts s' = latest_wts ?s \<and>
      latest_row s' = latest_row ?s \<and> max_served_rts ?s \<le> max_served_rts s' \<and>
      (\<forall>u\<in>readers_of (requests ?s) - readers_of (requests s'). mv_cur s' u = latest_row ?s \<and> ts u \<le> max_served_rts s' \<and> ts t < ts u)"
      by (rule mv_update_buffer_ok [OF I(1,2,3) h]) (use I Q in auto)
    then obtain s' where "mv_update_buffer cnt mt full (ts t) ?s = Some s'" "mv_inv T ts C s'" "latest_wts s' = latest_wts s"
      "latest_row s' = latest_row s" "max_served_rts s \<le> max_served_rts s'"
      "\<forall>u\<in>readers_of (requests s) - readers_of (requests s'). mv_cur s' u = latest_row s \<and> ts u \<le> max_served_rts s' \<and> ts t < ts u" by auto
    moreover have "latest_wts s \<le> ts u" if "ts t < ts u" for u using I(7) that by auto
    ultimately show ?thesis using xp ex r I by (auto simp: mv_access_def mv_cancel_def step_ok_def)
  qed
qed

lemma mv_access_ok:
  assumes i: "mv_inv T ts C s" and l: "mv_legal T ts C type t row s"
  shows "\<exists>rc s'. mv_access cnt mt full n t (ts t) type row s = Some (rc, s') \<and> step_ok T ts C type t s rc s'"
proof (cases type)
  case R_REQ
  then show ?thesis using mv_read_ok [OF i] l by (auto simp: mv_access_def mv_legal_def)
next
  case P_REQ
  then show ?thesis using mv_prewrite_ok [OF i] l by (auto simp: mv_access_def)
qed (use mv_finish_ok [OF i l] in auto)

lemma mv_init_inv: "inj_on ts T \<Longrightarrow> (\<And>t. 0 < ts t \<and> ts t < UINT64_MAX) \<Longrightarrow> mv_inv T ts {0} (mv_init d cur rdy)"
proof -
  assume a: "inj_on ts T" "\<And>t. 0 < ts t \<and> ts t < UINT64_MAX"
  have H: "write_history (mv_init d cur rdy) ! j = empty_his" if "j < 4" for j using that by (simp add: mv_init_def)
  have len: "his_len (mv_init d cur rdy) = 4" by (simp add: mv_init_def)
  have nv: "\<not> valid_at (mv_init d cur rdy) j" for j using H [of j] len by (auto simp: valid_at_def empty_his_def)
  have "rows_ok (mv_init d cur rdy)" unfolding rows_ok_def len using H by (auto simp: empty_his_def mv_init_def)
  moreover have "versions_ok {0} (mv_init d cur rdy)" unfolding versions_ok_def len using nv by (auto simp: mv_init_def)
  moreover have "latest_ok (mv_init d cur rdy)" by (simp add: latest_ok_def mv_init_def)
  moreover have "no_reserved (mv_init d cur rdy)" unfolding no_reserved_def len using H by (simp add: empty_his_def)
  moreover have "pending (requests (mv_init d cur rdy)) = []" "requests (mv_init d cur rdy) \<noteq> []" "\<not> exists_prewrite (mv_init d cur rdy)"
    by (simp_all add: mv_init_def empty_req_def)
  ultimately show ?thesis using a by (simp add: mv_inv_def hist_ok_def UINT64_MAX_def)
qed

lemma mv_reach_inv: "mv_reach cnt T ts s C R \<Longrightarrow> mv_inv T ts C s"
proof (induction rule: mv_reach.induct)
  case (init d cur rdy)
  then show ?case by (rule mv_init_inv)
next
  case (access s C R type t row mt full n rc s')
  then show ?case using mv_access_ok [OF access.IH access.hyps(2), of cnt mt full n] by (auto simp: step_ok_def)
qed

lemma mv_reach_reads:
  assumes "mv_reach cnt T ts s C R" "\<forall>t. ts t < 4294967296"
  shows "(\<forall>c\<in>C. c < 4294967296) \<and> (\<forall>(r, v)\<in>R. read_ok C r v s)"
  using assms
proof (induction rule: mv_reach.induct)
  case (init d cur rdy)
  then show ?case by simp
next
  case (access s C R type t row mt full n rc s')
  have inv: "mv_inv T ts C s" by (rule mv_reach_inv) (rule access.hyps(1))
  have st: "step_ok T ts C type t s rc s'"
    using mv_access_ok [OF inv access.hyps(2), of cnt mt full n] access.hyps(3) by auto
  let ?C = "if type = W_REQ then insert (ts t) C else C"
  have C: "\<forall>c\<in>C. c < 4294967296" "\<forall>c\<in>?C. c < 4294967296" and R: "\<forall>(r, v)\<in>R. read_ok C r v s"
    using access.IH access.prems by auto
  have old: "read_ok ?C r v s'" if "(r, v) \<in> R" for r v
  proof -
    have "read_ok C r v s" using R that by auto
    moreover have "r \<le> ts t" if "type = W_REQ" using calculation st that by (auto simp: read_ok_def step_ok_def)
    ultimately show ?thesis using st by (auto simp: read_ok_def step_ok_def)
  qed
  have new: "read_ok ?C (ts u) (version_ts s' (mv_cur s' u)) s'" if u: "u \<in> answered type t rc s s'" for u
  proof (cases "type = R_REQ \<and> rc = RCOK \<and> u = t")
    case True
    have h: "hist_ok C s" using inv by (simp add: mv_inv_def)
    have "mv_read t (ts t) s = Some (RCOK, s')" using access.hyps(3) True by (simp add: mv_access_def)
    from mv_read_version [OF h C(1) this] show ?thesis using True by simp
  next
    case False
    then have u': "u \<in> readers_of (requests s) - readers_of (requests s')" using u by (auto simp: answered_def split: if_splits)
    then have v: "version_ts s' (mv_cur s' u) = latest_wts s'" "ts u \<le> max_served_rts s'" "latest_wts s' \<le> ts u"
      using st by (auto simp: step_ok_def version_ts_latest)
    have "versions_ok ?C s'" using st by (simp add: step_ok_def mv_inv_def hist_ok_def)
    then have "\<forall>c\<in>?C. c \<le> latest_wts s'" "latest_wts s' \<in> ?C" by (simp_all add: versions_ok_def)
    then show ?thesis unfolding v(1) read_ok_def using v(2,3) by (metis not_le)
  qed
  show ?case using C(2) old new by auto
qed

section \<open>What the multi-version rows guarantee\<close>

text \<open>
  C27. Multi-version reads are consistent.  Let \<open>C\<close> be the timestamps of the committed writes and \<open>R\<close> the
  answered reads, each with its timestamp and the timestamp of the version behind the pointer it
  got.  In every reachable state, with timestamps that fit in 32 bits, every answered read got a
  committed version that is not newer than the reader, and no version between the two is ever
  committed, neither before nor after the read: the reads are those of the serial run in timestamp
  order.
\<close>

theorem mvcc_reads_serializable:
  assumes "mv_reach cnt T ts s C R" and "\<forall>t. ts t < 4294967296" and "(r, v) \<in> R"
  shows "v \<in> C \<and> v \<le> r \<and> (\<forall>c\<in>C. \<not> (v < c \<and> c < r))"
  using mv_reach_reads [OF assms(1,2)] assms(3) by (auto simp: read_ok_def)

text \<open>
  In every reachable state every legal call of \<open>Row_mvcc::access\<close> returns: a free or recyclable
  history entry is found, no null row is used, and none of the assertions fails.
\<close>

theorem mvcc_access_never_asserts:
  assumes "mv_reach cnt T ts s C R" and "mv_legal T ts C type t row s"
  shows "\<exists>rc s'. mv_access cnt mt full n t (ts t) type row s = Some (rc, s')"
  using mv_access_ok [OF mv_reach_inv [OF assms(1)] assms(2), of cnt mt full n] by blast

text \<open>
  The invariants of row\_mvcc.h: a request waits only behind a served pre-write with a smaller
  timestamp, which is above every committed version and not below any read of the latest version;
  the valid entries of the history are exactly the committed versions above \<open>_oldest_wts\<close>, and
  \<open>_num_versions\<close> counts them.
\<close>

theorem mvcc_waits_behind_prewrite:
  assumes "mv_reach cnt T ts s C R"
  shows "(\<forall>e\<in>set (requests s). rq_valid e \<longrightarrow> exists_prewrite s \<and> prewrite_ts s < rq_ts e) \<and>
    (exists_prewrite s \<longrightarrow> max_served_rts s \<le> prewrite_ts s \<and> (\<forall>c\<in>C. c < prewrite_ts s)) \<and>
    wh_ts ` {e \<in> set (write_history s). wh_valid e} = {c \<in> C. oldest_wts s < c} \<and>
    num_versions s = length (filter wh_valid (write_history s))"
proof (intro conjI)
  have i: "mv_inv T ts C s" by (rule mv_reach_inv [OF assms])
  then have V: "versions_ok C s" by (simp add: mv_inv_def hist_ok_def)
  show "\<forall>e\<in>set (requests s). rq_valid e \<longrightarrow> exists_prewrite s \<and> prewrite_ts s < rq_ts e"
  proof (intro ballI impI)
    fix e assume "e \<in> set (requests s)" "rq_valid e"
    then have e: "e \<in> set (pending (requests s))" by simp
    then have "pending (requests s) \<noteq> []" by (metis empty_iff empty_set)
    then show "exists_prewrite s \<and> prewrite_ts s < rq_ts e" using i e by (auto simp: mv_inv_def split: if_splits)
  qed
  show "exists_prewrite s \<longrightarrow> max_served_rts s \<le> prewrite_ts s \<and> (\<forall>c\<in>C. c < prewrite_ts s)"
    using i V by (auto simp: mv_inv_def versions_ok_def intro: le_less_trans)
  have "{e \<in> set (write_history s). wh_valid e} = (\<lambda>i. write_history s ! i) ` {i. valid_at s i}"
    by (auto simp: valid_at_def in_set_conv_nth)
  then show "wh_ts ` {e \<in> set (write_history s). wh_valid e} = {c \<in> C. oldest_wts s < c}"
    using V by (simp add: image_image versions_ok_def)
  show "num_versions s = length (filter wh_valid (write_history s))" using V by (simp add: versions_ok_def card_valid)
qed

text \<open>A run of two transactions: a write with timestamp 2 while a read with timestamp 4 waits for it.\<close>

definition mv_demo_ts :: "txn_ptr \<Rightarrow> ts_t" where
  "mv_demo_ts t = (if t = 1 then 2 else 4)"

definition mv_demo :: "nat \<Rightarrow> Row_mvcc" where
  "mv_demo k =
     (let s0 = mv_init [0] (\<lambda>_. 0) (\<lambda>_. True);
          s1 = snd (the (mv_access 4 0 1 1 1 2 P_REQ None s0));
          s2 = snd (the (mv_access 4 0 1 1 2 4 R_REQ None s1));
          s3 = snd (the (mv_access 4 0 1 1 1 2 W_REQ (Some 1) s2))
      in if k = 0 then s0 else if k = 1 then s1 else if k = 2 then s2 else s3)"

lemma demo_step: "\<not> Option.is_none x \<Longrightarrow> fst (the x) = rc \<Longrightarrow> snd (the x) = s \<Longrightarrow> x = Some (rc, s)"
  by (cases x) auto

lemma mv_demo_reach1: "mv_reach 4 {1, 2} mv_demo_ts (mv_demo 1) {0} {}"
proof -
  have "mv_reach 4 {1, 2} mv_demo_ts (mv_demo 0) {0} {}"
    unfolding mv_demo_def by (simp, rule mv_reach.init) (auto simp: mv_demo_ts_def UINT64_MAX_def inj_on_def)
  moreover have "mv_legal {1, 2} mv_demo_ts {0} P_REQ 1 None (mv_demo 0)" by code_simp
  moreover have "mv_access 4 0 1 1 1 (mv_demo_ts 1) P_REQ None (mv_demo 0) = Some (RCOK, mv_demo 1)"
    by (rule demo_step) (code_simp, code_simp, simp add: mv_demo_def mv_demo_ts_def)
  moreover have "answered P_REQ 1 RCOK (mv_demo 0) (mv_demo 1) = {}" by code_simp
  ultimately show ?thesis using mv_reach.access by fastforce
qed


lemma mv_demo_reach2: "mv_reach 4 {1, 2} mv_demo_ts (mv_demo 2) {0} {}"
proof -
  have "mv_legal {1, 2} mv_demo_ts {0} R_REQ 2 None (mv_demo 1)" by code_simp
  moreover have "mv_access 4 0 1 1 2 (mv_demo_ts 2) R_REQ None (mv_demo 1) = Some (WAIT, mv_demo 2)"
    by (rule demo_step) (code_simp, code_simp, simp add: mv_demo_def mv_demo_ts_def)
  moreover have "answered R_REQ 2 WAIT (mv_demo 1) (mv_demo 2) = {}" by code_simp
  ultimately show ?thesis using mv_reach.access [OF mv_demo_reach1] by fastforce
qed

lemma mv_demo_reach3: "mv_reach 4 {1, 2} mv_demo_ts (mv_demo 3) {2, 0} {(4, 2)}"
proof -
  have "mv_legal {1, 2} mv_demo_ts {0} W_REQ 1 (Some 1) (mv_demo 2)" by code_simp
  moreover have "mv_access 4 0 1 1 1 (mv_demo_ts 1) W_REQ (Some 1) (mv_demo 2) = Some (RCOK, mv_demo 3)"
    by (rule demo_step) (code_simp, code_simp, simp add: mv_demo_def mv_demo_ts_def)
  moreover have "(\<lambda>u. (mv_demo_ts u, version_ts (mv_demo 3) (mv_cur (mv_demo 3) u))) ` answered W_REQ 1 RCOK (mv_demo 2) (mv_demo 3) = {(4, 2)}"
    by code_simp
  ultimately show ?thesis using mv_reach.access [OF mv_demo_reach2, of W_REQ 1 "Some 1" 0 1 1 RCOK "mv_demo 3"]
    by (simp add: mv_demo_ts_def)
qed

theorem mvcc_reads_serializable_witness:
  "(2 :: ts_t) \<in> {2, 0} \<and> (2 :: ts_t) \<le> mv_demo_ts 2 \<and> version_ts (mv_demo 3) (mv_cur (mv_demo 3) 2) = 2"
proof -
  have "version_ts (mv_demo 3) (mv_cur (mv_demo 3) 2) = 2" by code_simp
  moreover have "(2 :: ts_t) \<in> {2, 0} \<and> (2 :: ts_t) \<le> 4 \<and> (\<forall>c\<in>{2, 0 :: ts_t}. \<not> (2 < c \<and> c < 4))"
    by (rule mvcc_reads_serializable [OF mv_demo_reach3]) (simp_all add: mv_demo_ts_def)
  ultimately show ?thesis by (simp add: mv_demo_ts_def)
qed

theorem mvcc_access_never_asserts_witness:
  "\<exists>rc s'. mv_access 4 0 1 1 1 (mv_demo_ts 1) W_REQ (Some 1) (mv_demo 2) = Some (rc, s')"
proof (rule mvcc_access_never_asserts [OF mv_demo_reach2])
  show "mv_legal {1, 2} mv_demo_ts {0} W_REQ 1 (Some 1) (mv_demo 2)" by code_simp
qed

theorem mvcc_waits_behind_prewrite_witness:
  "rq_valid (hd (requests (mv_demo 2))) \<and> exists_prewrite (mv_demo 2) \<and> prewrite_ts (mv_demo 2) < rq_ts (hd (requests (mv_demo 2)))"
proof -
  have p: "requests (mv_demo 2) \<noteq> []" and v: "rq_valid (hd (requests (mv_demo 2)))" by code_simp+
  have "\<forall>e\<in>set (requests (mv_demo 2)). rq_valid e \<longrightarrow> exists_prewrite (mv_demo 2) \<and> prewrite_ts (mv_demo 2) < rq_ts e"
    by (rule conjunct1 [OF mvcc_waits_behind_prewrite [OF mv_demo_reach2]])
  then show ?thesis using v hd_in_set [OF p] by simp
qed

section \<open>What the multi-version rows get wrong\<close>

text \<open>A run: each call gives the transaction, its timestamp, the request, the row it hands back and the bytes the client stored there.\<close>

type_synonym mv_call = "txn_ptr \<times> ts_t \<times> TsType \<times> row_ptr option \<times> byte list"

definition client_store :: "row_ptr option \<Rightarrow> byte list \<Rightarrow> Row_mvcc \<Rightarrow> Row_mvcc" where
  "client_store row d s = (case row of None \<Rightarrow> s | Some r \<Rightarrow> s\<lparr>mv_heap := (mv_heap s)(r := d)\<rparr>)"

fun mv_run :: "nat \<Rightarrow> ts_t \<Rightarrow> mv_call list \<Rightarrow> Row_mvcc \<Rightarrow> (RC list \<times> Row_mvcc) option" where
  "mv_run cnt mt [] s = Some ([], s)"
| "mv_run cnt mt ((t, ts, type, row, d) # cs) s =
     (case mv_access cnt mt 1 1 t ts type row (client_store row d s) of
        None \<Rightarrow> None
      | Some (rc, s1) \<Rightarrow> map_option (\<lambda>(rcs, s2). (rc # rcs, s2)) (mv_run cnt mt cs s1))"

lemma mv_run_result:
  "(case r of None \<Rightarrow> False | Some (rcs, s) \<Rightarrow> rcs = l \<and> Q s) \<Longrightarrow> \<exists>s. r = Some (l, s) \<and> Q s"
  by (auto split: option.splits)

text \<open>
  The search for an old version keeps the best timestamp in a \<open>uint32_t\<close>.  With timestamps above
  \<open>2^32\<close>, as the clock allocator hands out, the reader \<open>2^32 + 25\<close> among committed versions
  \<open>2^32 + 10\<close>, \<open>2^32 + 20\<close> and \<open>2^32 + 30\<close> gets the version of \<open>2^32 + 10\<close>.
\<close>

theorem mvcc_truncated_read_gets_stale_version:
  "\<exists>s. mv_run 4 0 [(1, 4294967306, P_REQ, None, []), (1, 4294967306, W_REQ, Some 1, [10]),
       (2, 4294967316, P_REQ, None, []), (2, 4294967316, W_REQ, Some 2, [20]),
       (3, 4294967326, P_REQ, None, []), (3, 4294967326, W_REQ, Some 3, [30]),
       (4, 4294967321, R_REQ, None, [])] (mv_init [0] (\<lambda>_. 0) (\<lambda>_. True))
     = Some ([RCOK, RCOK, RCOK, RCOK, RCOK, RCOK, RCOK], s) \<and>
     mv_heap s (mv_cur s 4) = [10] \<and> version_ts s (mv_cur s 4) = 4294967306"
  by (rule mv_run_result) code_simp

text \<open>
  A full history is recycled although a reader uses it.  With as many threads as history entries, a
  reader with timestamp 1 gets the base row; after four committed writes a fifth pre-write takes the
  base row over and copies the newest tuple into it.  The manager's smallest timestamp is 1, the
  reader's, and the reader now sees the tuple of timestamp 5.
\<close>

theorem mvcc_recycles_row_in_use:
  "\<exists>s. mv_run 4 1 [(9, 1, R_REQ, None, []),
       (1, 2, P_REQ, None, []), (1, 2, W_REQ, Some 1, [2]), (2, 3, P_REQ, None, []), (2, 3, W_REQ, Some 2, [3]),
       (3, 4, P_REQ, None, []), (3, 4, W_REQ, Some 3, [4]), (4, 5, P_REQ, None, []), (4, 5, W_REQ, Some 4, [5]),
       (5, 6, P_REQ, None, [])] (mv_init [0] (\<lambda>_. 0) (\<lambda>_. True))
     = Some (replicate 10 RCOK, s) \<and> mv_heap s (mv_cur s 9) = [5]"
  by (rule mv_run_result) code_simp

end
