(* ===== verification/Timestamps.thy ===== *)
theory Timestamps
  imports DBx_Prelude
begin

text \<open>
  Global services: system/manager.cpp (timestamps, the smallest active timestamp, the hash of the central
  row mutexes, the epoch), \<open>get_next_ts\<close> and the transaction ids of system/thread.cpp.

  Each operation on shared memory is one step: \<open>get_ts\<close> increments the counter under a mutex or with
  an atomic addition.  The clock is an argument.  A failed assertion and an access through a null
  pointer are \<open>None\<close>.
\<close>

section \<open>The manager\<close>

datatype ts_alloc_t = TS_MUTEX | TS_CAS | TS_HW | TS_CLOCK

record ts_cfg =
  g_ts_alloc :: ts_alloc_t
  g_ts_batch_alloc :: bool
  g_ts_batch_num :: "64 word"
  g_thread_cnt :: "64 word"

text \<open>\<open>init\<close> overwrites the two epoch pointers it has just allocated with null.\<close>

record Manager =
  timestamp :: "64 word"
  last_min_ts_time :: "64 word"
  man_min_ts :: ts_t
  all_ts :: "nat \<Rightarrow> ts_t"
  all_txns :: "nat \<Rightarrow> txn_ptr option"
  epoch :: "64 word option"
  last_epoch_update_time :: "64 word option"

definition man_init :: Manager where
  "man_init = \<lparr>timestamp = 1, last_min_ts_time = 0, man_min_ts = 0, all_ts = (\<lambda>_. UINT64_MAX),
     all_txns = (\<lambda>_. None), epoch = None, last_epoch_update_time = None\<rparr>"

definition get_ts :: "ts_cfg \<Rightarrow> 64 word \<Rightarrow> 64 word \<Rightarrow> Manager \<Rightarrow> (ts_t \<times> Manager) option" where
  "get_ts cfg clock thread_id m =
     assert_then (g_ts_batch_alloc cfg \<longrightarrow> g_ts_alloc cfg = TS_CAS)
       (case g_ts_alloc cfg of
          TS_MUTEX \<Rightarrow> Some (timestamp m + 1, m\<lparr>timestamp := timestamp m + 1\<rparr>)
        | TS_CAS \<Rightarrow>
            Some (timestamp m, m\<lparr>timestamp := timestamp m + (if g_ts_batch_alloc cfg then g_ts_batch_num cfg else 1)\<rparr>)
        | TS_HW \<Rightarrow> None
        | TS_CLOCK \<Rightarrow> Some (clock * g_thread_cnt cfg + thread_id, m))"

text \<open>The smallest timestamp in use; only thread 0 recomputes it, \<open>_last_min_ts_time\<close> is never updated.\<close>

definition least_ts :: "nat \<Rightarrow> (nat \<Rightarrow> ts_t) \<Rightarrow> ts_t" where
  "least_ts n tss = fold (\<lambda>i m. if tss i < m then tss i else m) [0..<n] UINT64_MAX"

definition get_min_ts :: "64 word \<Rightarrow> nat \<Rightarrow> 64 word \<Rightarrow> nat \<Rightarrow> Manager \<Rightarrow> ts_t \<times> Manager" where
  "get_min_ts intvl n now tid m =
     (let m' = (if tid = 0 \<and> now - last_min_ts_time m > intvl
                then (let k = least_ts n (all_ts m) in if man_min_ts m < k then m\<lparr>man_min_ts := k\<rparr> else m)
                else m)
      in (man_min_ts m', m'))"

definition add_ts :: "nat \<Rightarrow> ts_t \<Rightarrow> Manager \<Rightarrow> Manager option" where
  "add_ts t ts m =
     assert_then (all_ts m t \<le> ts \<or> all_ts m t = UINT64_MAX) (Some (m\<lparr>all_ts := (all_ts m)(t := ts)\<rparr>))"

definition set_txn_man :: "nat \<Rightarrow> txn_ptr \<Rightarrow> Manager \<Rightarrow> Manager" where
  "set_txn_man thd txn m = m\<lparr>all_txns := (all_txns m)(thd := Some txn)\<rparr>"

text \<open>The mutex of a row under the central manager.\<close>

definition man_hash :: "64 word \<Rightarrow> 64 word \<Rightarrow> 64 word \<Rightarrow> 64 word" where
  "man_hash align buckets row = (row div align * 1103515247 + 12345) mod buckets"

definition update_epoch :: "64 word \<Rightarrow> 64 word \<Rightarrow> Manager \<Rightarrow> Manager option" where
  "update_epoch batch_time time m =
     (case last_epoch_update_time m of
        None \<Rightarrow> None
      | Some l \<Rightarrow>
          if time - l > batch_time * 1000 * 1000
          then (case epoch m of
                  None \<Rightarrow> None
                | Some e \<Rightarrow> Some (m\<lparr>epoch := Some (e + 1), last_epoch_update_time := Some time\<rparr>))
          else Some m)"

section \<open>Timestamps and ids of a thread\<close>

definition get_next_ts :: "ts_cfg \<Rightarrow> 64 word \<Rightarrow> 64 word \<Rightarrow> 64 word \<Rightarrow> Manager \<Rightarrow> (ts_t \<times> 64 word \<times> Manager) option" where
  "get_next_ts cfg clock thread_id cur m =
     (if g_ts_batch_alloc cfg
      then if cur mod g_ts_batch_num cfg = 0
           then map_option (\<lambda>(t, m'). (t + 1 - 1, t + 1, m')) (get_ts cfg clock thread_id m)
           else Some (cur + 1 - 1, cur + 1, m)
      else map_option (\<lambda>(t, m'). (t, t, m')) (get_ts cfg clock thread_id m))"

definition txn_id_of :: "64 word \<Rightarrow> 64 word \<Rightarrow> 64 word \<Rightarrow> txnid_t" where
  "txn_id_of cnt thd_id thd_txn_id = thd_id + thd_txn_id * cnt"

text \<open>A run: the threads that draw a timestamp, in order; the result is what they got.\<close>

fun draw :: "ts_cfg \<Rightarrow> nat list \<Rightarrow> (nat \<Rightarrow> 64 word) \<Rightarrow> Manager \<Rightarrow> (ts_t list \<times> (nat \<Rightarrow> 64 word) \<times> Manager) option" where
  "draw cfg [] cur m = Some ([], cur, m)"
| "draw cfg (t # ts) cur m =
     (case get_next_ts cfg 0 (of_nat t) (cur t) m of
        None \<Rightarrow> None
      | Some (v, c, m') \<Rightarrow> map_option (\<lambda>(vs, cur', m''). (v # vs, cur', m'')) (draw cfg ts (cur(t := c)) m'))"


section \<open>Timestamps are unique\<close>

text \<open>
  With batch allocation the counter is \<open>1 + k B\<close> after \<open>k\<close> batches, and a thread whose next timestamp is
  not a multiple of \<open>B\<close> has the rest of its own block to give.
\<close>

definition batch_inv :: "nat \<Rightarrow> nat set \<Rightarrow> (nat \<Rightarrow> 64 word) \<Rightarrow> nat \<Rightarrow> bool" where
  "batch_inv B I cur k \<longleftrightarrow> 0 < B \<and> (\<forall>v\<in>I. v < 1 + k * B) \<and>
     (\<forall>t. unat (cur t) mod B \<noteq> 0 \<longrightarrow> unat (cur t) < k * B \<and> (\<forall>v\<in>I. v div B = unat (cur t) div B \<longrightarrow> v < unat (cur t))) \<and>
     (\<forall>t u. t \<noteq> u \<longrightarrow> unat (cur t) mod B \<noteq> 0 \<longrightarrow> unat (cur u) mod B \<noteq> 0 \<longrightarrow> unat (cur t) div B \<noteq> unat (cur u) div B)"

lemma batch_inv_continue:
  assumes inv: "batch_inv B I cur k" and c: "unat (cur t) mod B \<noteq> 0" and fit: "1 + k * B < 2 ^ 64"
  shows "unat (cur t) \<notin> I" "batch_inv B (insert (unat (cur t)) I) (cur(t := cur t + 1)) k"
proof -
  let ?c = "unat (cur t)"
  have B: "0 < B" and lt: "?c < k * B" and own: "\<forall>v\<in>I. v div B = ?c div B \<longrightarrow> v < ?c"
    using inv c by (auto simp: batch_inv_def)
  show "?c \<notin> I" using own by auto
  have suc: "unat (cur t + 1) = Suc ?c" using lt fit by (simp add: unat_word_ariths)
  have "Suc ?c < k * B" "Suc ?c div B = ?c div B" if "Suc ?c mod B \<noteq> 0"
  proof -
    show "Suc ?c < k * B" using lt that by (metis Suc_lessI mod_mult_self2_is_0)
    show "Suc ?c div B = ?c div B" using that by (simp add: div_Suc)
  qed
  then show "batch_inv B (insert ?c I) (cur(t := cur t + 1)) k"
    using inv c suc lt own unfolding batch_inv_def by (auto intro: less_SucI)
qed

lemma batch_inv_block:
  assumes inv: "batch_inv B I cur k" and fit: "1 + (k + 1) * B < 2 ^ 64"
  shows "1 + k * B \<notin> I" "batch_inv B (insert (1 + k * B) I) (cur(t := of_nat (1 + k * B) + 1)) (k + 1)"
proof -
  have B: "0 < B" and lt: "\<forall>v\<in>I. v < 1 + k * B" using inv by (auto simp: batch_inv_def)
  show "1 + k * B \<notin> I" using lt by auto
  have suc: "unat ((of_nat (1 + k * B) :: 64 word) + 1) = 2 + k * B"
  proof -
    have "(of_nat (1 + k * B) :: 64 word) + 1 = of_nat (2 + k * B)" by simp
    then show ?thesis using fit B by (simp only: unat_of_nat) (simp add: take_bit_nat_eq_self)
  qed
  have own: "2 + k * B < (k + 1) * B" "(2 + k * B) div B = k" if "(2 + k * B) mod B \<noteq> 0"
  proof -
    have "B \<noteq> 1" "B \<noteq> 2" using that by auto
    then have "2 < B" using B by simp
    then show "2 + k * B < (k + 1) * B" "(2 + k * B) div B = k" using div_mult_self1 [of B 2 k] by simp_all
  qed
  have other: "unat (cur u) div B < k" if "unat (cur u) mod B \<noteq> 0" for u
    using inv that B by (auto simp: batch_inv_def div_less_iff_less_mult)
  show "batch_inv B (insert (1 + k * B) I) (cur(t := of_nat (1 + k * B) + 1)) (k + 1)"
    unfolding batch_inv_def
  proof (intro conjI allI impI ballI)
    fix v assume "v \<in> insert (1 + k * B) I"
    then show "v < 1 + (k + 1) * B" using lt B by auto
  next
    fix u assume u: "unat ((cur(t := of_nat (1 + k * B) + 1)) u) mod B \<noteq> 0"
    show "unat ((cur(t := of_nat (1 + k * B) + 1)) u) < (k + 1) * B"
      using u own(1) suc inv by (cases "u = t") (auto simp: batch_inv_def intro: trans_less_add2)
    fix v assume v: "v \<in> insert (1 + k * B) I" "v div B = unat ((cur(t := of_nat (1 + k * B) + 1)) u) div B"
    show "v < unat ((cur(t := of_nat (1 + k * B) + 1)) u)"
    proof (cases "u = t")
      case True
      then show ?thesis using v(1) lt suc by auto
    next
      case False
      then have "unat (cur u) div B < k" using u other by simp
      moreover have "k \<le> (1 + k * B) div B" using div_mult_self1 [of B 1 k] B by simp
      ultimately have "v \<in> I" using v False by auto
      then show ?thesis using v(2) u False inv by (auto simp: batch_inv_def)
    qed
  next
    fix a b assume ab: "a \<noteq> b" "unat ((cur(t := of_nat (1 + k * B) + 1)) a) mod B \<noteq> 0" "unat ((cur(t := of_nat (1 + k * B) + 1)) b) mod B \<noteq> 0"
    then show "unat ((cur(t := of_nat (1 + k * B) + 1)) a) div B \<noteq> unat ((cur(t := of_nat (1 + k * B) + 1)) b) div B"
      using own(2) suc other [of a] other [of b] inv by (cases "a = t"; cases "b = t") (auto simp: batch_inv_def)
  qed (use B in simp)
qed

lemma get_next_ts_batch:
  assumes "g_ts_alloc cfg = TS_CAS" "g_ts_batch_alloc cfg" "B = unat (g_ts_batch_num cfg)"
    and inv: "batch_inv B I cur k" and T: "timestamp m = of_nat (1 + k * B)" and fit: "1 + (k + 1) * B < 2 ^ 64"
  shows "\<exists>v c m' k'. get_next_ts cfg clk tid (cur t) m = Some (v, c, m') \<and> unat v \<notin> I \<and>
    batch_inv B (insert (unat v) I) (cur(t := c)) k' \<and> timestamp m' = of_nat (1 + k' * B) \<and> k' \<le> k + 1"
proof -
  have B: "0 < B" using inv by (simp add: batch_inv_def)
  have mod: "cur t mod g_ts_batch_num cfg = 0 \<longleftrightarrow> unat (cur t) mod B = 0"
    by (simp add: assms(3) unat_mod flip: unat_eq_0)
  show ?thesis
  proof (cases "unat (cur t) mod B = 0")
    case False
    have f: "1 + k * B < 2 ^ 64" using fit by simp
    note b = batch_inv_continue [OF inv False f]
    show ?thesis
      using b False mod assms(2) T by (intro exI [of _ "cur t"] exI [of _ "cur t + 1"] exI [of _ m] exI [of _ k]) (simp add: get_next_ts_def)
  next
    case True
    note b = batch_inv_block(1) [OF inv fit] batch_inv_block(2) [OF inv fit, of t]
    let ?v = "of_nat (1 + k * B) :: 64 word" and ?m = "m\<lparr>timestamp := timestamp m + g_ts_batch_num cfg\<rparr>"
    have v: "unat ?v = 1 + k * B" using fit B by (simp only: unat_of_nat) (simp add: take_bit_nat_eq_self)
    have "g_ts_batch_num cfg = of_nat B" by (simp add: assms(3))
    then have "timestamp ?m = of_nat (1 + (k + 1) * B)" using T by (simp add: algebra_simps)
    then show ?thesis
      using b True mod assms(1,2) T v
      by (intro exI [of _ ?v] exI [of _ "?v + 1"] exI [of _ ?m] exI [of _ "k + 1"]) (simp add: get_next_ts_def get_ts_def)
  qed
qed

lemma draw_batch:
  assumes "g_ts_alloc cfg = TS_CAS" "g_ts_batch_alloc cfg" "B = unat (g_ts_batch_num cfg)"
  shows "batch_inv B I cur k \<Longrightarrow> timestamp m = of_nat (1 + k * B) \<Longrightarrow> 1 + (k + length ts) * B < 2 ^ 64 \<Longrightarrow>
    \<exists>vs cur' m'. draw cfg ts cur m = Some (vs, cur', m') \<and> distinct vs \<and> unat ` set vs \<inter> I = {}"
proof (induction ts arbitrary: I cur k m)
  case (Cons t ts)
  have B: "0 < B" using Cons.prems(1) by (simp add: batch_inv_def)
  have fit: "1 + (k + 1) * B < 2 ^ 64" using Cons.prems(3) by (simp add: algebra_simps)
  from get_next_ts_batch [OF assms Cons.prems(1,2) fit, of 0 "of_nat t" t] obtain v c m1 k' where
    v: "get_next_ts cfg 0 (of_nat t) (cur t) m = Some (v, c, m1)" "unat v \<notin> I" "batch_inv B (insert (unat v) I) (cur(t := c)) k'"
      "timestamp m1 = of_nat (1 + k' * B)" "k' \<le> k + 1" by blast
  have "(k' + length ts) * B \<le> (k + length (t # ts)) * B" using v(5) by (intro mult_right_mono) auto
  then have "1 + (k' + length ts) * B < 2 ^ 64" using Cons.prems(3) by linarith
  from Cons.IH [OF v(3,4) this] obtain vs cur' m' where
    "draw cfg ts (cur(t := c)) m1 = Some (vs, cur', m')" "distinct vs" "unat ` set vs \<inter> insert (unat v) I = {}" by blast
  then show ?case using v(1,2) by auto
qed simp

lemma draw_plain:
  assumes "g_ts_alloc cfg \<in> {TS_MUTEX, TS_CAS}" "\<not> g_ts_batch_alloc cfg"
  shows "unat (timestamp m) + length ts < 2 ^ 64 \<Longrightarrow>
    \<exists>vs cur' m'. draw cfg ts cur m = Some (vs, cur', m') \<and> distinct vs \<and>
      (\<forall>v\<in>set vs. if g_ts_alloc cfg = TS_CAS then timestamp m \<le> v else timestamp m < v)"
proof (induction ts arbitrary: cur m)
  case (Cons t ts)
  let ?m = "m\<lparr>timestamp := timestamp m + 1\<rparr>" and ?v = "if g_ts_alloc cfg = TS_CAS then timestamp m else timestamp m + 1"
  have suc: "unat (timestamp m + 1) = Suc (unat (timestamp m))" using Cons.prems by (simp add: unat_word_ariths)
  then have lt: "timestamp m < timestamp m + 1" by (simp add: word_less_nat_alt)
  have g: "get_next_ts cfg 0 (of_nat t) (cur t) m = Some (?v, ?v, ?m)"
    using assms by (auto simp: get_next_ts_def get_ts_def)
  have "unat (timestamp ?m) + length ts < 2 ^ 64" using suc Cons.prems by simp
  from Cons.IH [OF this] obtain vs cur' m' where
    d: "draw cfg ts (cur(t := ?v)) ?m = Some (vs, cur', m')" "distinct vs"
      "\<forall>v\<in>set vs. if g_ts_alloc cfg = TS_CAS then timestamp ?m \<le> v else timestamp ?m < v" by blast
  have "?v \<notin> set vs" using d(3) lt assms(1) by (auto split: if_splits)
  moreover have "\<forall>v\<in>set vs. if g_ts_alloc cfg = TS_CAS then timestamp m \<le> v else timestamp m < v"
    using d(3) lt by (auto split: if_splits)
  ultimately show ?case using g d(1,2) lt by (auto split: if_splits)
qed simp

text \<open>
  C33. Timestamps are unique.  With the counter under a mutex or an atomic addition, one by one or in
  batches, every sequence of requests by any threads gets pairwise different timestamps, as long as
  the 64-bit counter is not used up and every thread starts at a multiple of the batch size.
\<close>

theorem timestamps_unique:
  assumes "g_ts_alloc cfg \<in> {TS_MUTEX, TS_CAS}" and "g_ts_batch_alloc cfg \<longrightarrow> g_ts_alloc cfg = TS_CAS \<and> g_ts_batch_num cfg \<noteq> 0"
    and "g_ts_batch_alloc cfg \<longrightarrow> (\<forall>t. cur t mod g_ts_batch_num cfg = 0)"
    and "1 + length ts * max 1 (unat (g_ts_batch_num cfg)) < 2 ^ 64"
  shows "\<exists>vs cur' m'. draw cfg ts cur man_init = Some (vs, cur', m') \<and> distinct vs"
proof (cases "g_ts_batch_alloc cfg")
  case True
  let ?B = "unat (g_ts_batch_num cfg)"
  have B: "0 < ?B" using assms(2) True by (simp add: unat_gt_0)
  have z: "unat (cur t) mod ?B = 0" for t
  proof -
    have "unat (cur t mod g_ts_batch_num cfg) = 0" using assms(3) True by simp
    then show ?thesis by (simp add: unat_mod)
  qed
  have "batch_inv ?B {} cur 0" using z B by (simp add: batch_inv_def)
  moreover have "1 + (0 + length ts) * ?B < 2 ^ 64" using assms(4) B by (simp add: max_def split: if_splits)
  ultimately show ?thesis
    using draw_batch [OF _ True refl, of "{}" cur 0 man_init ts] assms(2) True by (simp add: man_init_def)
next
  case False
  have "length ts * 1 \<le> length ts * max 1 (unat (g_ts_batch_num cfg))" by (intro mult_left_mono) auto
  then have "1 + length ts < 2 ^ 64" using assms(4) by linarith
  then have "unat (timestamp man_init) + length ts < 2 ^ 64" by (simp add: man_init_def)
  from draw_plain [OF assms(1) False this, of cur] show ?thesis by blast
qed

definition demo_cfg :: ts_cfg where
  "demo_cfg = \<lparr>g_ts_alloc = TS_CAS, g_ts_batch_alloc = True, g_ts_batch_num = 4, g_thread_cnt = 2\<rparr>"

theorem timestamps_unique_witness:
  "\<exists>vs cur' m'. draw demo_cfg [0, 1, 0, 0, 1, 0] (\<lambda>_. 0) man_init = Some (vs, cur', m') \<and> distinct vs"
  by (rule timestamps_unique) (simp_all add: demo_cfg_def)

end
