(* ===== verification/Index_Hash.thy ===== *)
theory Index_Hash
  imports DBx_Prelude
begin

text \<open>
  The chained hash index of storage/index_hash.h: buckets of nodes, one node per key with the items of
  that key, and the items the indexes hand out (\<open>itemid_t\<close> of system/helper.h and system/helper.cpp).

  The nodes of a bucket and the items of a node are singly linked lists in the source and lists here.
  An inserted item is one that \<open>itemid_t::init\<close> has prepared, so its \<open>next\<close> is null.  \<open>None\<close> stands for a
  failed assertion, a division by zero or an access through a null pointer; \<open>get_latch\<close> returns \<open>None\<close>
  while the compare-and-swap keeps failing.
\<close>

section \<open>Items\<close>

datatype Data_type = DT_table | DT_page | DT_row

record item_data =
  item_type :: Data_type
  item_location :: "row_ptr option"

section \<open>A bucket\<close>

record BucketNode =
  bn_key :: idx_key_t
  bn_items :: "item_data list"

record BucketHeader =
  first_node :: "BucketNode list"
  node_cnt :: "64 word"
  bucket_locked :: bool

definition bucket_init :: BucketHeader where
  "bucket_init = \<lparr>first_node = [], node_cnt = 0, bucket_locked = False\<rparr>"

text \<open>A new key goes behind the last node, a new item of a known key in front of the others.\<close>

fun insert_node :: "idx_key_t \<Rightarrow> item_data \<Rightarrow> BucketNode list \<Rightarrow> BucketNode list" where
  "insert_node key item [] = [\<lparr>bn_key = key, bn_items = [item]\<rparr>]"
| "insert_node key item (n # ns) =
     (if bn_key n = key then n\<lparr>bn_items := item # bn_items n\<rparr> # ns else n # insert_node key item ns)"

definition insert_item :: "idx_key_t \<Rightarrow> item_data \<Rightarrow> BucketHeader \<Rightarrow> BucketHeader" where
  "insert_item key item b = b\<lparr>first_node := insert_node key item (first_node b)\<rparr>"

fun find_node :: "idx_key_t \<Rightarrow> BucketNode list \<Rightarrow> BucketNode option" where
  "find_node key [] = None"
| "find_node key (n # ns) = (if bn_key n = key then Some n else find_node key ns)"

text \<open>When the walk reaches the end, the assertion itself reads through the null pointer.\<close>

definition read_item :: "idx_key_t \<Rightarrow> BucketHeader \<Rightarrow> item_data list option" where
  "read_item key b =
     (case find_node key (first_node b) of
        None \<Rightarrow> None
      | Some n \<Rightarrow> assert_then (bn_key n = key) (Some (bn_items n)))"

definition get_latch :: "BucketHeader \<Rightarrow> BucketHeader option" where
  "get_latch b = (if bucket_locked b then None else Some (b\<lparr>bucket_locked := True\<rparr>))"

definition release_latch :: "BucketHeader \<Rightarrow> BucketHeader option" where
  "release_latch b = assert_then (bucket_locked b) (Some (b\<lparr>bucket_locked := False\<rparr>))"

section \<open>The index\<close>

record IndexHash =
  ih_parts :: nat
  bucket_cnt :: "64 word"
  bucket_cnt_per_part :: "64 word"
  ih_buckets :: "nat \<Rightarrow> nat \<Rightarrow> BucketHeader"

definition ih_init :: "64 word \<Rightarrow> nat \<Rightarrow> IndexHash option" where
  "ih_init cnt parts =
     assert_then (parts \<noteq> 0)
       (Some \<lparr>ih_parts = parts, bucket_cnt = cnt, bucket_cnt_per_part = cnt div of_nat parts,
              ih_buckets = (\<lambda>_ _. bucket_init)\<rparr>)"

definition ih_hash :: "64 word \<Rightarrow> idx_key_t \<Rightarrow> 64 word option" where
  "ih_hash per_part key = (if per_part = 0 then None else Some (key mod per_part))"

definition ih_insert :: "idx_key_t \<Rightarrow> item_data \<Rightarrow> nat \<Rightarrow> IndexHash \<Rightarrow> IndexHash option" where
  "ih_insert key item part ix =
     (case ih_hash (bucket_cnt_per_part ix) key of
        None \<Rightarrow> None
      | Some b \<Rightarrow>
          assert_then (b < bucket_cnt_per_part ix \<and> part < ih_parts ix)
            (case get_latch (ih_buckets ix part (unat b)) of
               None \<Rightarrow> None
             | Some l \<Rightarrow>
                 map_option
                   (\<lambda>l'. ix\<lparr>ih_buckets := (ih_buckets ix)(part := (ih_buckets ix part)(unat b := l'))\<rparr>)
                   (release_latch (insert_item key item l))))"

definition ih_read :: "idx_key_t \<Rightarrow> nat \<Rightarrow> IndexHash \<Rightarrow> item_data list option" where
  "ih_read key part ix =
     (case ih_hash (bucket_cnt_per_part ix) key of
        None \<Rightarrow> None
      | Some b \<Rightarrow>
          assert_then (b < bucket_cnt_per_part ix \<and> part < ih_parts ix)
            (read_item key (ih_buckets ix part (unat b))))"

fun ih_inserts :: "(nat \<times> idx_key_t \<times> item_data) list \<Rightarrow> IndexHash \<Rightarrow> IndexHash option" where
  "ih_inserts [] ix = Some ix"
| "ih_inserts ((part, key, item) # ops) ix = Option.bind (ih_insert key item part ix) (ih_inserts ops)"

section \<open>The interface of an index\<close>

text \<open>
  What a client of an index relies on: an insertion that returns changes the items of its own partition
  and key only, in front of those that are there; \<open>multi_index\<close> adds that it returns in every good state.
\<close>

locale index_laws =
  fixes good :: "'s \<Rightarrow> bool"
    and has_part :: "'s \<Rightarrow> nat \<Rightarrow> bool"
    and ins :: "'k \<Rightarrow> 'v \<Rightarrow> nat \<Rightarrow> 's \<Rightarrow> 's option"
    and items_of :: "'s \<Rightarrow> nat \<Rightarrow> 'k \<Rightarrow> 'v list"
  assumes ins_some: "\<lbrakk>good s; has_part s p; ins k v p s = Some s'\<rbrakk> \<Longrightarrow>
      good s' \<and> has_part s' = has_part s \<and>
      (\<forall>q l. items_of s' q l = (if q = p \<and> l = k then v # items_of s q l else items_of s q l))"
begin

lemma inserts_some:
  assumes "good s" and "\<forall>op \<in> set ops. has_part s (fst op)"
    and run: "\<And>s. run [] s = Some s"
             "\<And>p k v ops s. run ((p, k, v) # ops) s = Option.bind (ins k v p s) (run ops)"
    and "run ops s = Some s'"
  shows "good s' \<and> has_part s' = has_part s \<and>
      (\<forall>q l. items_of s' q l =
         rev (map (snd \<circ> snd) (filter (\<lambda>op. fst op = q \<and> fst (snd op) = l) ops)) @ items_of s q l)"
  using assms(1,2,5)
proof (induction ops arbitrary: s)
  case (Cons op ops)
  obtain p k v where op: "op = (p, k, v)" by (cases op)
  obtain s1 where s1: "ins k v p s = Some s1" "run ops s1 = Some s'"
    using Cons.prems(3) run(2) by (auto simp: op bind_eq_Some_conv)
  have i: "good s1" "has_part s1 = has_part s"
    "\<forall>q l. items_of s1 q l = (if q = p \<and> l = k then v # items_of s q l else items_of s q l)"
    using ins_some [OF Cons.prems(1) _ s1(1)] Cons.prems(2) by (simp_all add: op)
  have "\<forall>op \<in> set ops. has_part s1 (fst op)" using Cons.prems(2) i(2) by simp
  from Cons.IH [OF i(1) this s1(2)] i show ?case by (simp add: op)
qed (simp add: run(1))

end

locale multi_index = index_laws +
  assumes ins_total: "\<lbrakk>good s; has_part s p\<rbrakk> \<Longrightarrow> \<exists>s'. ins k v p s = Some s'"
begin

lemma inserts_total:
  assumes "good s" and "\<forall>op \<in> set ops. has_part s (fst op)"
    and run: "\<And>s. run [] s = Some s"
             "\<And>p k v ops s. run ((p, k, v) # ops) s = Option.bind (ins k v p s) (run ops)"
  shows "\<exists>s'. run ops s = Some s'"
  using assms(1,2)
proof (induction ops arbitrary: s)
  case (Cons op ops)
  obtain p k v where op: "op = (p, k, v)" by (cases op)
  have p: "has_part s p" using Cons.prems(2) by (simp add: op)
  obtain s1 where s1: "ins k v p s = Some s1" using ins_total [OF Cons.prems(1) p] by blast
  have "good s1" "has_part s1 = has_part s" using ins_some [OF Cons.prems(1) p s1] by auto
  then show ?case using Cons.IH [of s1] Cons.prems(2) s1 by (simp add: op run(2))
qed (simp add: run(1))

end

section \<open>The hash index is one\<close>

definition key_items :: "BucketNode list \<Rightarrow> idx_key_t \<Rightarrow> item_data list" where
  "key_items ns key = (case find_node key ns of None \<Rightarrow> [] | Some n \<Rightarrow> bn_items n)"

lemma find_node_key: "find_node key ns = Some n \<Longrightarrow> bn_key n = key"
  by (induction ns) (auto split: if_splits)

lemma key_items_insert:
  "key_items (insert_node key item ns) k = (if k = key then item # key_items ns k else key_items ns k)"
  by (induction ns) (auto simp: key_items_def)

definition ih_bucket :: "IndexHash \<Rightarrow> nat \<Rightarrow> idx_key_t \<Rightarrow> BucketHeader" where
  "ih_bucket ix part key = ih_buckets ix part (unat (key mod bucket_cnt_per_part ix))"

definition ih_items :: "IndexHash \<Rightarrow> nat \<Rightarrow> idx_key_t \<Rightarrow> item_data list" where
  "ih_items ix part key = key_items (first_node (ih_bucket ix part key)) key"

definition ih_good :: "IndexHash \<Rightarrow> bool" where
  "ih_good ix \<longleftrightarrow> bucket_cnt_per_part ix \<noteq> 0 \<and> (\<forall>p b. \<not> bucket_locked (ih_buckets ix p b)) \<and>
     (\<forall>p b. \<forall>n \<in> set (first_node (ih_buckets ix p b)). bn_items n \<noteq> [])"

lemma word_mod_less: "c \<noteq> 0 \<Longrightarrow> (k :: 64 word) mod c < c"
  by (simp add: word_less_nat_alt unat_mod unat_gt_0)

lemma insert_node_items:
  "n \<in> set (insert_node key item ns) \<Longrightarrow> n \<in> set ns \<or> bn_items n \<noteq> []"
  by (induction ns) (auto split: if_splits)

lemma find_node_set: "find_node key ns = Some n \<Longrightarrow> n \<in> set ns"
  by (induction ns) (auto split: if_splits)

lemma ih_insert_eq:
  assumes "ih_good ix" and "part < ih_parts ix"
  shows "ih_insert key item part ix =
    (let b = unat (key mod bucket_cnt_per_part ix); h = ih_buckets ix part b
     in Some (ix\<lparr>ih_buckets := (ih_buckets ix)(part := (ih_buckets ix part)
          (b := h\<lparr>first_node := insert_node key item (first_node h)\<rparr>))\<rparr>))"
proof -
  have l: "\<not> bucket_locked (ih_buckets ix part b)" for b using assms(1) by (simp add: ih_good_def)
  have u: "h\<lparr>bucket_locked := True, first_node := x, bucket_locked := False\<rparr> = h\<lparr>first_node := x\<rparr>"
    if "\<not> bucket_locked h" for h :: BucketHeader and x using that by (cases h) simp
  show ?thesis
    using assms l by (simp add: ih_insert_def ih_hash_def ih_good_def get_latch_def release_latch_def
        insert_item_def word_mod_less Let_def u)
qed

interpretation ih: multi_index ih_good "\<lambda>ix p. p < ih_parts ix" ih_insert ih_items
proof
  fix ix p k v s'
  assume g: "ih_good ix" and p: "p < ih_parts ix" and i: "ih_insert k v p ix = Some s'"
  show "ih_good s' \<and> (\<lambda>q. q < ih_parts s') = (\<lambda>q. q < ih_parts ix) \<and>
      (\<forall>q l. ih_items s' q l = (if q = p \<and> l = k then v # ih_items ix q l else ih_items ix q l))"
    using g i unfolding ih_insert_eq [OF g p]
    by (auto simp: Let_def ih_good_def ih_items_def ih_bucket_def key_items_insert dest!: insert_node_items split: if_splits)
qed (simp add: ih_insert_eq Let_def)

lemma ih_read_eq:
  assumes "ih_good ix" and "part < ih_parts ix"
  shows "ih_read key part ix = (if ih_items ix part key = [] then None else Some (ih_items ix part key))"
proof -
  let ?ns = "first_node (ih_bucket ix part key)"
  have "find_node key ?ns = Some n \<Longrightarrow> bn_items n \<noteq> []" for n
    using assms(1) find_node_set unfolding ih_good_def ih_bucket_def by blast
  then show ?thesis
    using assms find_node_key [of key ?ns]
    by (auto simp: ih_read_def ih_hash_def ih_good_def read_item_def word_mod_less ih_items_def key_items_def
        ih_bucket_def split: option.splits)
qed

text \<open>
  C39. The hash index agrees with a reference definition: after any sequence of insertions into a new
  index, reading a key of a partition yields the items inserted under that partition and key, the
  newest first, whatever other keys share the bucket; a key nobody inserted stops the process.  The
  index needs at least one bucket per partition.
\<close>

theorem ih_read_after_inserts:
  assumes "ih_init cnt parts = Some ix0" and "cnt div of_nat parts \<noteq> 0"
    and "\<forall>op \<in> set ops. fst op < parts" and "part < parts"
  shows "\<exists>ix. ih_inserts ops ix0 = Some ix \<and>
     ih_read key part ix =
       (case rev (map (snd \<circ> snd) (filter (\<lambda>op. fst op = part \<and> fst (snd op) = key) ops)) of
          [] \<Rightarrow> None
        | is \<Rightarrow> Some is)"
proof -
  have ix0: "ix0 = \<lparr>ih_parts = parts, bucket_cnt = cnt, bucket_cnt_per_part = cnt div of_nat parts,
      ih_buckets = (\<lambda>_ _. bucket_init)\<rparr>" using assms(1) by (simp add: ih_init_def)
  have g: "ih_good ix0" and e: "ih_items ix0 q l = []" for q l
    using assms(2) by (auto simp: ix0 ih_good_def bucket_init_def ih_items_def ih_bucket_def key_items_def)
  have p: "ih_parts ix0 = parts" by (simp add: ix0)
  have "\<forall>op \<in> set ops. fst op < ih_parts ix0" using assms(3) p by simp
  note run = g this ih_inserts.simps
  obtain ix where i: "ih_inserts ops ix0 = Some ix" using ih.inserts_total [OF run] by blast
  then have ix: "ih_good ix" "(\<lambda>q. q < ih_parts ix) = (\<lambda>q. q < ih_parts ix0)"
      "\<forall>q l. ih_items ix q l = rev (map (snd \<circ> snd) (filter (\<lambda>op. fst op = q \<and> fst (snd op) = l) ops))"
    using ih.inserts_some [OF run i] by (simp_all add: e)
  from ix(2) assms(4) p have "part < ih_parts ix" by metis
  from ih_read_eq [OF ix(1) this, of key] i ix(3) show ?thesis by (auto split: list.splits)
qed

definition demo_item :: "nat \<Rightarrow> item_data" where
  "demo_item n = \<lparr>item_type = DT_row, item_location = Some n\<rparr>"

definition demo_ops :: "(nat \<times> idx_key_t \<times> item_data) list" where
  "demo_ops = [(0, 1, demo_item 10), (0, 3, demo_item 11), (0, 1, demo_item 12)]"

theorem ih_read_after_inserts_witness:
  "\<exists>ix. ih_inserts demo_ops (the (ih_init 2 1)) = Some ix \<and> ih_read 1 0 ix = Some [demo_item 12, demo_item 10]"
  using ih_read_after_inserts [of 2 1 "the (ih_init 2 1)" demo_ops 0 1]
  by (simp add: ih_init_def demo_ops_def)

end
