(* ===== verification/Index_Perfect.thy ===== *)
theory Index_Perfect
  imports Index_Hash "HOL-Library.Monad_Syntax"
begin

text \<open>
  The hash index without collision chains by key, storage/index_hash_perfect.h: a bucket is an item
  stored in the bucket array, followed by the items that share the bucket.

  Items are objects at addresses: a slot of a bucket array or a block of the allocator.  \<open>prev\<close> and the
  tail pointers exist only in the builds with \<open>TPCC_ALL_TXN\<close>.  \<open>mem_allocator.alloc\<close> is not part of the
  model: it hands out a block that is not in use, here the next number; with \<open>HAWK_ALLOC\<close> nothing is
  given back.  \<open>None\<close> is a failed assertion, a division by zero, an access through a null or dangling
  pointer, or freeing something that is not a block.
\<close>

section \<open>Items and the index\<close>

datatype item_ptr = Slot nat nat | Block nat

record itemid_t =
  it_location :: "row_ptr option"
  it_next :: "item_ptr option"
  it_prev :: "item_ptr option"
  it_type :: Data_type
  it_valid :: bool

record idx_cfg =
  TPCC_ALL_TXN :: bool
  HAWK_ALLOC :: bool

definition item_init :: "idx_cfg \<Rightarrow> itemid_t \<Rightarrow> itemid_t" where
  "item_init cfg it =
     it\<lparr>it_valid := False, it_location := None, it_next := None,
        it_prev := (if TPCC_ALL_TXN cfg then None else it_prev it)\<rparr>"

definition item_eq :: "itemid_t \<Rightarrow> itemid_t \<Rightarrow> bool" where
  "item_eq a b \<longleftrightarrow> it_type a = it_type b \<and> it_location a = it_location b"

text \<open>
  \<open>hp_part p\<close> says that the arrays of partition \<open>p\<close> are allocated; \<open>hp_live\<close> marks the blocks in use and
  \<open>hp_brk\<close> is the next block.
\<close>

record IndexHashPerfect =
  hp_parts :: nat
  hp_cnt :: "64 word"
  hp_part :: "nat \<Rightarrow> bool"
  hp_tails :: "nat \<Rightarrow> nat \<Rightarrow> item_ptr option"
  hp_items :: "item_ptr \<Rightarrow> itemid_t"
  hp_live :: "nat \<Rightarrow> bool"
  hp_brk :: nat

definition hp_init :: "64 word \<Rightarrow> nat \<Rightarrow> (item_ptr \<Rightarrow> itemid_t) \<Rightarrow> IndexHashPerfect option" where
  "hp_init cnt parts mem =
     assert_then (parts \<noteq> 0)
       (Some \<lparr>hp_parts = parts, hp_cnt = cnt div of_nat parts, hp_part = (\<lambda>_. False), hp_tails = (\<lambda>_ _. None),
              hp_items = mem, hp_live = (\<lambda>_. False), hp_brk = 0\<rparr>)"

section \<open>Memory\<close>

fun is_object :: "IndexHashPerfect \<Rightarrow> item_ptr \<Rightarrow> bool" where
  "is_object ix (Slot p b) \<longleftrightarrow> hp_part ix p \<and> b < unat (hp_cnt ix)"
| "is_object ix (Block n) \<longleftrightarrow> hp_live ix n"

definition item_at :: "IndexHashPerfect \<Rightarrow> item_ptr \<Rightarrow> itemid_t option" where
  "item_at ix a = (if is_object ix a then Some (hp_items ix a) else None)"

definition put_item :: "item_ptr \<Rightarrow> itemid_t \<Rightarrow> IndexHashPerfect \<Rightarrow> IndexHashPerfect option" where
  "put_item a v ix = (if is_object ix a then Some (ix\<lparr>hp_items := (hp_items ix)(a := v)\<rparr>) else None)"

definition set_tail :: "nat \<Rightarrow> nat \<Rightarrow> item_ptr option \<Rightarrow> IndexHashPerfect \<Rightarrow> IndexHashPerfect option" where
  "set_tail p b a ix =
     assert_then (hp_part ix p) (Some (ix\<lparr>hp_tails := (hp_tails ix)(p := (hp_tails ix p)(b := a))\<rparr>))"

definition alloc_item :: "IndexHashPerfect \<Rightarrow> item_ptr \<times> IndexHashPerfect" where
  "alloc_item ix = (Block (hp_brk ix), ix\<lparr>hp_live := (hp_live ix)(hp_brk ix := True), hp_brk := hp_brk ix + 1\<rparr>)"

fun free_item :: "idx_cfg \<Rightarrow> item_ptr \<Rightarrow> IndexHashPerfect \<Rightarrow> IndexHashPerfect option" where
  "free_item cfg a ix =
     (if HAWK_ALLOC cfg then Some ix
      else case a of
        Slot _ _ \<Rightarrow> None
      | Block n \<Rightarrow> assert_then (hp_live ix n) (Some (ix\<lparr>hp_live := (hp_live ix)(n := False)\<rparr>)))"

section \<open>Insertion\<close>

definition hp_hash :: "IndexHashPerfect \<Rightarrow> idx_key_t \<Rightarrow> nat option" where
  "hp_hash ix key = (if hp_cnt ix = 0 then None else Some (unat (key mod hp_cnt ix)))"

text \<open>The arrays of a partition are allocated by the first insertion into it.\<close>

definition install_part :: "idx_cfg \<Rightarrow> nat \<Rightarrow> IndexHashPerfect \<Rightarrow> IndexHashPerfect" where
  "install_part cfg p ix =
     (if hp_part ix p then ix
      else ix\<lparr>hp_part := (hp_part ix)(p := True),
              hp_items := (\<lambda>a. case a of
                  Slot q b \<Rightarrow> (if q = p then item_init cfg (hp_items ix a) else hp_items ix a)
                | Block _ \<Rightarrow> hp_items ix a),
              hp_tails := (hp_tails ix)(p := (\<lambda>_. None))\<rparr>)"

definition chain_insert :: "idx_cfg \<Rightarrow> nat \<Rightarrow> nat \<Rightarrow> itemid_t \<Rightarrow> bool \<Rightarrow> IndexHashPerfect \<Rightarrow> IndexHashPerfect option" where
  "chain_insert cfg p b item no_collision ix = do {
     head \<leftarrow> item_at ix (Slot p b);
     if it_valid head then
       assert_then (\<not> no_collision) (case alloc_item ix of (n, ix1) \<Rightarrow> do {
         ix2 \<leftarrow> put_item n head ix1;
         ix3 \<leftarrow> put_item (Slot p b) (item\<lparr>it_next := Some n\<rparr>) ix2;
         if TPCC_ALL_TXN cfg then do {
           nx \<leftarrow> item_at ix3 n;
           ix4 \<leftarrow> put_item n (nx\<lparr>it_prev := Some (Slot p b)\<rparr>) ix3;
           case it_next nx of
             None \<Rightarrow> set_tail p b (Some n) ix4
           | Some q \<Rightarrow> do { c \<leftarrow> item_at ix4 q; put_item q (c\<lparr>it_prev := Some n\<rparr>) ix4 }
         } else Some ix3
       })
     else do {
       ix1 \<leftarrow> put_item (Slot p b) item ix;
       if TPCC_ALL_TXN cfg then set_tail p b (Some (Slot p b)) ix1 else Some ix1
     }
   }"

definition index_insert :: "idx_cfg \<Rightarrow> idx_key_t \<Rightarrow> itemid_t \<Rightarrow> nat \<Rightarrow> bool \<Rightarrow> IndexHashPerfect \<Rightarrow> IndexHashPerfect option" where
  "index_insert cfg key item p no_collision ix = do {
     b \<leftarrow> hp_hash ix key;
     assert_then (b < unat (hp_cnt ix) \<and> p < hp_parts ix)
       (chain_insert cfg p b item no_collision (install_part cfg p ix))
   }"

text \<open>The same steps, with the latch of the bucket held over the change of the chain.\<close>

definition index_insert_safe :: "idx_cfg \<Rightarrow> idx_key_t \<Rightarrow> itemid_t \<Rightarrow> nat \<Rightarrow> bool \<Rightarrow> IndexHashPerfect \<Rightarrow> IndexHashPerfect option" where
  "index_insert_safe cfg key item p no_collision ix = do {
     b \<leftarrow> hp_hash ix key;
     assert_then (b < unat (hp_cnt ix) \<and> p < hp_parts ix)
       (chain_insert cfg p b item no_collision (install_part cfg p ix))
   }"

section \<open>Reading\<close>

definition index_read :: "idx_cfg \<Rightarrow> idx_key_t \<Rightarrow> nat \<Rightarrow> bool \<Rightarrow> IndexHashPerfect \<Rightarrow> item_ptr option option" where
  "index_read cfg key p bk ix = do {
     b \<leftarrow> hp_hash ix key;
     assert_then (b < unat (hp_cnt ix) \<and> p < hp_parts ix)
       (if \<not> TPCC_ALL_TXN cfg \<or> \<not> bk
        then Some (if hp_part ix p \<and> it_valid (hp_items ix (Slot p b)) then Some (Slot p b) else None)
        else assert_then (hp_part ix p) (Some (hp_tails ix p b)))
   }"

definition index_read_safe :: "idx_cfg \<Rightarrow> idx_key_t \<Rightarrow> nat \<Rightarrow> bool \<Rightarrow> IndexHashPerfect \<Rightarrow> (RC \<times> itemid_t option) option" where
  "index_read_safe cfg key p bk ix = do {
     b \<leftarrow> hp_hash ix key;
     assert_then (b < unat (hp_cnt ix) \<and> p < hp_parts ix)
       (if hp_part ix p then
          if \<not> TPCC_ALL_TXN cfg \<or> \<not> bk then do {
            it \<leftarrow> item_at ix (Slot p b);
            Some (if it_valid it then (RCOK, Some it) else (ERROR, None))
          } else do {
            a \<leftarrow> hp_tails ix p b;
            it \<leftarrow> item_at ix a;
            Some (if it_valid it then (RCOK, Some it) else (ERROR, None))
          }
        else Some (ERROR, None))
   }"

section \<open>Deletion\<close>

text \<open>With \<open>TPCC_ALL_TXN\<close> an item is unlinked through its two neighbours.\<close>

definition unlink_item :: "idx_cfg \<Rightarrow> nat \<Rightarrow> nat \<Rightarrow> item_ptr \<Rightarrow> IndexHashPerfect \<Rightarrow> IndexHashPerfect option" where
  "unlink_item cfg p b item ix = do {
     it \<leftarrow> item_at ix item;
     case it_prev it of
       Some pr \<Rightarrow> do {
         pi \<leftarrow> item_at ix pr;
         ix1 \<leftarrow> put_item pr (pi\<lparr>it_next := it_next it\<rparr>) ix;
         ix2 \<leftarrow> (case it_next it of
                  Some n \<Rightarrow> do { ni \<leftarrow> item_at ix1 n; put_item n (ni\<lparr>it_prev := Some pr\<rparr>) ix1 }
                | None \<Rightarrow> set_tail p b (Some pr) ix1);
         free_item cfg item ix2
       }
     | None \<Rightarrow>
         (case it_next it of
            Some n \<Rightarrow> do {
              ni \<leftarrow> item_at ix n;
              ix1 \<leftarrow> put_item item ni ix;
              if it_next ni = None then set_tail p b (Some item) ix1 else Some ix1
            }
          | None \<Rightarrow> do { ix1 \<leftarrow> put_item item (item_init cfg it) ix; set_tail p b (Some item) ix1 })
   }"

text \<open>Without it the predecessor is searched from the head, or given as a hint.\<close>

partial_function (option) search_prev :: "IndexHashPerfect \<Rightarrow> item_ptr \<Rightarrow> item_ptr \<Rightarrow> item_ptr option" where
  "search_prev ix item pr = do {
     pi \<leftarrow> item_at ix pr;
     (case it_next pi of
        None \<Rightarrow> Some pr
      | Some n \<Rightarrow> (if n = item then Some pr else search_prev ix item n))
   }"

definition unlink_hint :: "idx_cfg \<Rightarrow> idx_key_t \<Rightarrow> nat \<Rightarrow> item_ptr \<Rightarrow> item_ptr option \<Rightarrow> IndexHashPerfect \<Rightarrow> IndexHashPerfect option" where
  "unlink_hint cfg key p item hint ix = do {
     pr \<leftarrow> (case hint of
              Some h \<Rightarrow> Some h
            | None \<Rightarrow> do {
                r \<leftarrow> index_read cfg key p False ix;
                h \<leftarrow> r;
                if h = item then Some h else search_prev ix item h
              });
     it \<leftarrow> item_at ix item;
     if pr \<noteq> item then do {
       pi \<leftarrow> item_at ix pr;
       ix1 \<leftarrow> put_item pr (pi\<lparr>it_next := it_next it\<rparr>) ix;
       free_item cfg item ix1
     } else
       (case it_next it of
          Some n \<Rightarrow> do { ni \<leftarrow> item_at ix n; put_item pr ni ix }
        | None \<Rightarrow> put_item pr (item_init cfg it) ix)
   }"

definition index_delete :: "idx_cfg \<Rightarrow> idx_key_t \<Rightarrow> item_ptr \<Rightarrow> item_ptr option \<Rightarrow> nat \<Rightarrow> IndexHashPerfect \<Rightarrow> IndexHashPerfect option" where
  "index_delete cfg key item hint p ix =
     (if TPCC_ALL_TXN cfg then do { b \<leftarrow> hp_hash ix key; unlink_item cfg p b item ix }
      else unlink_hint cfg key p item hint ix)"

text \<open>With \<open>TPCC_ALL_TXN\<close> the latched version removes the tail, whatever item it is given.\<close>

definition index_delete_safe :: "idx_cfg \<Rightarrow> idx_key_t \<Rightarrow> item_ptr \<Rightarrow> item_ptr option \<Rightarrow> nat \<Rightarrow> IndexHashPerfect \<Rightarrow> IndexHashPerfect option" where
  "index_delete_safe cfg key item hint p ix = do {
     b \<leftarrow> hp_hash ix key;
     assert_then (p < hp_parts ix \<and> hp_part ix p)
       (if TPCC_ALL_TXN cfg then do { t \<leftarrow> hp_tails ix p b; unlink_item cfg p b t ix }
        else unlink_hint cfg key p item hint ix)
   }"

section \<open>The specification: a queue per bucket\<close>

text \<open>
  A partition is untouched or holds the chains of its buckets; a bucket is untouched or holds a list,
  the newest item first.
\<close>

type_synonym queues = "nat \<Rightarrow> (nat \<Rightarrow> item_data list option) option"

datatype idx_op = Ins nat idx_key_t item_data bool | Del nat idx_key_t item_ptr | Rd nat idx_key_t bool

definition contents :: "item_data list option \<Rightarrow> item_data list" where
  "contents c = (case c of None \<Rightarrow> [] | Some xs \<Rightarrow> xs)"

definition answer :: "item_data list \<Rightarrow> bool \<Rightarrow> RC \<times> item_data option" where
  "answer xs bk = (if xs = [] then (ERROR, None) else (RCOK, Some (if bk then last xs else hd xs)))"

definition q_op :: "64 word \<Rightarrow> nat \<Rightarrow> idx_op \<Rightarrow> queues \<Rightarrow> ((RC \<times> item_data option) \<times> queues) option" where
  "q_op cnt parts op q =
     (case op of
        Ins p key d no_collision \<Rightarrow>
          (let b = unat (key mod cnt); f = (case q p of None \<Rightarrow> (\<lambda>_. None) | Some f \<Rightarrow> f)
           in if cnt = 0 \<or> parts \<le> p \<or> (no_collision \<and> contents (f b) \<noteq> []) then None
              else Some ((RCOK, None), q(p \<mapsto> f(b \<mapsto> d # contents (f b)))))
      | Del p key _ \<Rightarrow>
          if cnt = 0 \<or> parts \<le> p then None
          else (case q p of
                  None \<Rightarrow> None
                | Some f \<Rightarrow> map_option (\<lambda>xs. ((RCOK, None), q(p \<mapsto> f(unat (key mod cnt) \<mapsto> butlast xs)))) (f (unat (key mod cnt))))
      | Rd p key bk \<Rightarrow>
          if cnt = 0 \<or> parts \<le> p then None
          else (case q p of
                  None \<Rightarrow> Some ((ERROR, None), q)
                | Some f \<Rightarrow>
                    if bk \<and> f (unat (key mod cnt)) = None then None
                    else Some (answer (contents (f (unat (key mod cnt)))) bk, q)))"

definition data_of :: "itemid_t \<Rightarrow> item_data" where
  "data_of it = \<lparr>item_type = it_type it, item_location = it_location it\<rparr>"

text \<open>The item the callers build: initialised, of type \<open>DT_row\<close>, with its row and valid.\<close>

definition new_item :: "item_data \<Rightarrow> itemid_t" where
  "new_item d = \<lparr>it_location = item_location d, it_next = None, it_prev = None, it_type = item_type d, it_valid = True\<rparr>"

definition hp_op :: "idx_cfg \<Rightarrow> idx_op \<Rightarrow> IndexHashPerfect \<Rightarrow> ((RC \<times> item_data option) \<times> IndexHashPerfect) option" where
  "hp_op cfg op ix =
     (case op of
        Ins p key d no_collision \<Rightarrow> map_option (Pair (RCOK, None)) (index_insert_safe cfg key (new_item d) p no_collision ix)
      | Del p key item \<Rightarrow> map_option (Pair (RCOK, None)) (index_delete_safe cfg key item None p ix)
      | Rd p key bk \<Rightarrow> map_option (\<lambda>(rc, it). ((rc, map_option data_of it), ix)) (index_read_safe cfg key p bk ix))"

section \<open>The representation\<close>

fun dlinked :: "(item_ptr \<Rightarrow> itemid_t) \<Rightarrow> item_ptr option \<Rightarrow> item_ptr list \<Rightarrow> bool" where
  "dlinked h pr [] \<longleftrightarrow> True"
| "dlinked h pr (a # as) \<longleftrightarrow>
     it_prev (h a) = pr \<and> it_next (h a) = (case as of [] \<Rightarrow> None | b # _ \<Rightarrow> Some b) \<and> dlinked h (Some a) as"

abbreviation addrs :: "nat \<Rightarrow> nat \<Rightarrow> nat list \<Rightarrow> item_ptr list" where
  "addrs p b N \<equiv> Slot p b # map Block N"

definition empty_slot :: "itemid_t \<Rightarrow> bool" where
  "empty_slot it \<longleftrightarrow> \<not> it_valid it \<and> it_next it = None \<and> it_prev it = None"

definition bucket_rep :: "(item_ptr \<Rightarrow> itemid_t) \<Rightarrow> item_ptr option \<Rightarrow> nat \<Rightarrow> nat \<Rightarrow> nat list \<Rightarrow> item_data list option \<Rightarrow> bool" where
  "bucket_rep h t p b N c \<longleftrightarrow>
     (if contents c = [] then N = [] \<and> empty_slot (h (Slot p b)) \<and> t = map_option (\<lambda>_. Slot p b) c
      else dlinked h None (addrs p b N) \<and> map (\<lambda>a. data_of (h a)) (addrs p b N) = contents c \<and>
        (\<forall>a\<in>set (addrs p b N). it_valid (h a)) \<and> distinct N \<and> t = Some (last (addrs p b N)))"

definition hp_rep :: "IndexHashPerfect \<Rightarrow> queues \<Rightarrow> (nat \<Rightarrow> nat \<Rightarrow> nat list) \<Rightarrow> bool" where
  "hp_rep ix q N \<longleftrightarrow>
     (\<forall>p. hp_part ix p \<longleftrightarrow> q p \<noteq> None) \<and>
     (\<forall>p f. q p = Some f \<longrightarrow> (\<forall>b < unat (hp_cnt ix). bucket_rep (hp_items ix) (hp_tails ix p b) p b (N p b) (f b))) \<and>
     (\<forall>p b. \<forall>n \<in> set (N p b). hp_live ix n \<and> n < hp_brk ix) \<and>
     (\<forall>p b p' b'. (p, b) \<noteq> (p', b') \<longrightarrow> set (N p b) \<inter> set (N p' b') = {}) \<and>
     (\<forall>p b. \<not> (hp_part ix p \<and> b < unat (hp_cnt ix)) \<longrightarrow> N p b = [])"

lemma dlinked_cong: "\<forall>a\<in>set as. h' a = h a \<Longrightarrow> dlinked h' pr as = dlinked h pr as"
  by (induction as arbitrary: pr) auto

lemma bucket_rep_cong:
  assumes "\<forall>a \<in> set (addrs p b N). h' a = h a"
  shows "bucket_rep h' t p b N c = bucket_rep h t p b N c"
proof -
  have "map (\<lambda>a. data_of (h' a)) (addrs p b N) = map (\<lambda>a. data_of (h a)) (addrs p b N)" using assms by simp
  moreover have "(\<forall>a\<in>set (addrs p b N). it_valid (h' a)) = (\<forall>a\<in>set (addrs p b N). it_valid (h a))" using assms by simp
  moreover have "h' (Slot p b) = h (Slot p b)" using assms by simp
  ultimately show ?thesis unfolding bucket_rep_def dlinked_cong [OF assms] by (simp only:)
qed

lemma hp_rep_update:
  assumes rep: "hp_rep ix q N" and q: "q p = Some f" and b: "b < unat (hp_cnt ix)"
    and same: "hp_part ix' = hp_part ix" "hp_cnt ix' = hp_cnt ix" "hp_brk ix \<le> hp_brk ix'"
      "\<forall>p' b'. (p', b') \<noteq> (p, b) \<longrightarrow> hp_tails ix' p' b' = hp_tails ix p' b' \<and> hp_items ix' (Slot p' b') = hp_items ix (Slot p' b')"
      "\<forall>n. n < hp_brk ix \<longrightarrow> n \<notin> set (N p b) \<longrightarrow> hp_items ix' (Block n) = hp_items ix (Block n) \<and> hp_live ix' n = hp_live ix n"
    and new: "bucket_rep (hp_items ix') (hp_tails ix' p b) p b M c"
      "\<forall>n\<in>set M. hp_live ix' n \<and> n < hp_brk ix' \<and> (n \<in> set (N p b) \<or> hp_brk ix \<le> n)"
  shows "hp_rep ix' (q(p \<mapsto> f(b := c))) (N(p := (N p)(b := M)))"
proof -
  have live: "hp_live ix n" "n < hp_brk ix" if "n \<in> set (N p' b')" for n p' b' using rep that unfolding hp_rep_def by blast+
  have disj: "set (N p' b') \<inter> set (N p'' b'') = {}" if "(p', b') \<noteq> (p'', b'')" for p' b' p'' b''
    using rep that unfolding hp_rep_def by blast
  have keep: "hp_items ix' (Block n) = hp_items ix (Block n)" "hp_live ix' n"
    if "n \<in> set (N p' b')" "(p', b') \<noteq> (p, b)" for n p' b'
    using same(5) live [OF that(1)] disj [OF that(2)] that(1) by blast+
  have bks: "bucket_rep (hp_items ix') (hp_tails ix' p' b') p' b' (N p' b') (g b')"
    if "(p', b') \<noteq> (p, b)" "q p' = Some g" "b' < unat (hp_cnt ix)" for p' b' g
  proof -
    have "bucket_rep (hp_items ix) (hp_tails ix p' b') p' b' (N p' b') (g b')" using rep that unfolding hp_rep_def by blast
    moreover have "\<forall>a \<in> set (addrs p' b' (N p' b')). hp_items ix' a = hp_items ix a"
      using same(4) keep(1) that(1) by auto
    ultimately show ?thesis using bucket_rep_cong same(4) that(1) by metis
  qed
  have part: "hp_part ix' p' \<longleftrightarrow> (q(p \<mapsto> f(b := c))) p' \<noteq> None" for p'
    using rep q same(1) unfolding hp_rep_def by (cases "p' = p") simp_all
  have buckets: "bucket_rep (hp_items ix') (hp_tails ix' p' b') p' b' ((N(p := (N p)(b := M))) p' b') (g b')"
    if "(q(p \<mapsto> f(b := c))) p' = Some g" "b' < unat (hp_cnt ix)" for p' g b'
  proof (cases "(p', b') = (p, b)")
    case True
    then show ?thesis using that new(1) by auto
  next
    case False
    then show ?thesis using that q bks [OF False, of "if p' = p then f else g"] by (auto split: if_splits)
  qed
  have lives: "hp_live ix' n \<and> n < hp_brk ix'" if "n \<in> set ((N(p := (N p)(b := M))) p' b')" for n p' b'
  proof (cases "(p', b') = (p, b)")
    case True
    then show ?thesis using that new(2) by auto
  next
    case False
    then have "n \<in> set (N p' b')" using that by (auto split: if_splits)
    then show ?thesis using keep(2) [OF _ False] live(2) same(3) by fastforce
  qed
  have "set M \<inter> set (N p' b') = {}" if "(p', b') \<noteq> (p, b)" for p' b'
  proof -
    have "n \<notin> set (N p' b')" if "n \<in> set M" for n
      using new(2) that live(2) [of n p' b'] disj [OF \<open>(p', b') \<noteq> (p, b)\<close>] by (auto simp: not_le)
    then show ?thesis by blast
  qed
  then have disj': "set ((N(p := (N p)(b := M))) p' b') \<inter> set ((N(p := (N p)(b := M))) p'' b'') = {}"
    if "(p', b') \<noteq> (p'', b'')" for p' b' p'' b''
    using that disj [OF that] by (auto split: if_splits)
  have "\<forall>p' b'. \<not> (hp_part ix' p' \<and> b' < unat (hp_cnt ix)) \<longrightarrow> (N(p := (N p)(b := M))) p' b' = []"
    using rep q b same(1) unfolding hp_rep_def by (auto split: if_splits)
  then show ?thesis using part buckets lives disj' same(2) unfolding hp_rep_def by (simp del: fun_upd_apply)
qed

section \<open>The operations follow the specification\<close>

lemma install_rep:
  assumes rep: "hp_rep ix q N" and all: "TPCC_ALL_TXN cfg"
  shows "hp_rep (install_part cfg p ix) (q(p \<mapsto> (case q p of None \<Rightarrow> (\<lambda>_. None) | Some f \<Rightarrow> f))) N"
proof (cases "q p")
  case None
  then have np: "\<not> hp_part ix p" "N p b = []" for b using rep unfolding hp_rep_def by auto
  have "bucket_rep (hp_items (install_part cfg p ix)) (hp_tails (install_part cfg p ix) p' b) p' b (N p' b) (g b)"
    if "(q(p \<mapsto> (\<lambda>_. None))) p' = Some g" "b < unat (hp_cnt ix)" for p' g b
  proof (cases "p' = p")
    case True
    then show ?thesis using that np all
      by (auto simp: install_part_def bucket_rep_def contents_def empty_slot_def item_init_def)
  next
    case False
    then have "bucket_rep (hp_items ix) (hp_tails ix p' b) p' b (N p' b) (g b)"
      using rep that unfolding hp_rep_def by simp
    moreover have "\<forall>a \<in> set (addrs p' b (N p' b)). hp_items (install_part cfg p ix) a = hp_items ix a"
      using False by (auto simp: install_part_def)
    moreover have "hp_tails (install_part cfg p ix) p' b = hp_tails ix p' b" using False by (simp add: install_part_def)
    ultimately show ?thesis using bucket_rep_cong by metis
  qed
  then show ?thesis using rep None np unfolding hp_rep_def by (auto simp: install_part_def)
next
  case (Some f)
  then have "install_part cfg p ix = ix" using rep unfolding hp_rep_def install_part_def by auto
  then show ?thesis using rep Some by (simp add: fun_upd_idem)
qed

lemma install_frame [simp]:
  "hp_parts (install_part cfg p ix) = hp_parts ix" "hp_cnt (install_part cfg p ix) = hp_cnt ix"
  by (simp_all add: install_part_def)

lemma rep_bucket:
  assumes "hp_rep ix q N" and "q p = Some f" and "b < unat (hp_cnt ix)"
  shows "bucket_rep (hp_items ix) (hp_tails ix p b) p b (N p b) (f b)" "hp_part ix p" "is_object ix (Slot p b)"
    "\<forall>n \<in> set (N p b). hp_live ix n \<and> n < hp_brk ix"
  using assms unfolding hp_rep_def by auto

lemmas heap_defs = item_at_def put_item_def set_tail_def alloc_item_def

lemma bucket_validD:
  assumes "bucket_rep h t p b N c"
  shows "it_valid (h (Slot p b)) \<longleftrightarrow> contents c \<noteq> []"
  using assms by (auto simp: bucket_rep_def empty_slot_def split: if_splits)

lemma chain_insert_empty:
  assumes all: "TPCC_ALL_TXN cfg" and rep: "hp_rep ix q N" and q: "q p = Some f" and b: "b < unat (hp_cnt ix)"
    and e: "contents (f b) = []"
  shows "\<exists>ix' M. chain_insert cfg p b (new_item d) nc ix = Some ix' \<and> hp_rep ix' (q(p \<mapsto> f(b \<mapsto> [d]))) M \<and>
    hp_parts ix' = hp_parts ix \<and> hp_cnt ix' = hp_cnt ix"
proof -
  note bk = rep_bucket [OF rep q b]
  let ?ix = "ix\<lparr>hp_items := (hp_items ix)(Slot p b := new_item d),
    hp_tails := (hp_tails ix)(p := (hp_tails ix p)(b := Some (Slot p b)))\<rparr>"
  have v: "\<not> it_valid (hp_items ix (Slot p b))" using bucket_validD [OF bk(1)] e by simp
  have N: "N p b = []" using bk(1) e by (simp add: bucket_rep_def)
  have "chain_insert cfg p b (new_item d) nc ix = Some ?ix"
    using all bk(2,3) v by (simp add: chain_insert_def heap_defs)
  moreover have "hp_rep ?ix (q(p \<mapsto> f(b \<mapsto> [d]))) (N(p := (N p)(b := [])))"
    using hp_rep_update [OF rep q b, of ?ix "[]" "Some [d]"] N
    by (simp add: bucket_rep_def contents_def new_item_def data_of_def)
  ultimately show ?thesis by fastforce
qed

lemma chain_insert_front:
  assumes all: "TPCC_ALL_TXN cfg" and rep: "hp_rep ix q N" and q: "q p = Some f" and b: "b < unat (hp_cnt ix)"
    and e: "contents (f b) \<noteq> []"
  shows "\<exists>ix' M. chain_insert cfg p b (new_item d) False ix = Some ix' \<and> hp_rep ix' (q(p \<mapsto> f(b \<mapsto> d # contents (f b)))) M \<and>
    hp_parts ix' = hp_parts ix \<and> hp_cnt ix' = hp_cnt ix"
proof -
  note bk = rep_bucket [OF rep q b]
  let ?h = "hp_items ix" and ?S = "Slot p b" and ?n = "hp_brk ix"
  let ?B = "Block ?n"
  have v: "it_valid (?h ?S)" using bucket_validD [OF bk(1)] e by simp
  have dl: "dlinked ?h None (addrs p b (N p b))" and dat: "map (\<lambda>a. data_of (?h a)) (addrs p b (N p b)) = contents (f b)"
    and val: "\<forall>a\<in>set (addrs p b (N p b)). it_valid (?h a)" and dis: "distinct (N p b)"
    and t: "hp_tails ix p b = Some (last (addrs p b (N p b)))"
    using bk(1) e by (simp_all add: bucket_rep_def)
  have fresh: "?n \<notin> set (N p b)" using bk(4) by auto
  let ?h1 = "?h(?B := (?h ?S)\<lparr>it_prev := Some ?S\<rparr>, ?S := (new_item d)\<lparr>it_next := Some ?B\<rparr>)"
  let ?ix1 = "ix\<lparr>hp_live := (hp_live ix)(?n := True), hp_brk := ?n + 1\<rparr>"
  show ?thesis
  proof (cases "N p b")
    case Nil
    let ?ix = "?ix1\<lparr>hp_items := ?h1, hp_tails := (hp_tails ix)(p := (hp_tails ix p)(b := Some ?B))\<rparr>"
    have nx: "it_next (?h ?S) = None" using dl Nil by simp
    have "chain_insert cfg p b (new_item d) False ix = Some ?ix"
      using all bk(2,3) v nx by (simp add: chain_insert_def heap_defs fun_upd_twist)
    moreover have "hp_rep ?ix (q(p \<mapsto> f(b \<mapsto> d # contents (f b)))) (N(p := (N p)(b := [?n])))"
      by (rule hp_rep_update [OF rep q b])
         (use Nil dl dat val in \<open>auto simp: bucket_rep_def contents_def new_item_def data_of_def\<close>)
    ultimately show ?thesis by fastforce
  next
    case (Cons m M)
    let ?h2 = "?h1(Block m := (?h (Block m))\<lparr>it_prev := Some ?B\<rparr>)"
    let ?ix = "?ix1\<lparr>hp_items := ?h2\<rparr>"
    have nx: "it_next (?h ?S) = Some (Block m)" using dl Cons by simp
    have m: "hp_live ix m" "m \<noteq> ?n" "m \<notin> set M" using bk(4) fresh Cons dis by auto
    have "chain_insert cfg p b (new_item d) False ix = Some ?ix"
      using all bk(2,3) v nx m by (simp add: chain_insert_def heap_defs fun_upd_twist)
    moreover have "hp_rep ?ix (q(p \<mapsto> f(b \<mapsto> d # contents (f b)))) (N(p := (N p)(b := ?n # N p b)))"
    proof (rule hp_rep_update [OF rep q b])
      have r: "dlinked ?h2 (Some (Block m)) (map Block M)"
        using dl Cons m fresh by (subst dlinked_cong [where h = ?h]) auto
      have dm: "map (\<lambda>a. data_of (?h2 a)) (map Block M) = map (\<lambda>a. data_of (?h a)) (map Block M)"
        using m fresh Cons by auto
      have d1: "data_of (?h2 ?S) = d" "data_of (?h2 ?B) = data_of (?h ?S)" "data_of (?h2 (Block m)) = data_of (?h (Block m))"
        using m by (simp_all add: data_of_def new_item_def)
      have "dlinked ?h2 None (addrs p b (?n # N p b))" using dl r Cons m by (auto simp: new_item_def)
      moreover have "map (\<lambda>a. data_of (?h2 a)) (addrs p b (?n # N p b)) = d # contents (f b)"
        using dat unfolding Cons list.map dm d1 by simp
      moreover have "\<forall>a\<in>set (addrs p b (?n # N p b)). it_valid (?h2 a)" using val Cons by (auto simp: new_item_def)
      ultimately show "bucket_rep (hp_items ?ix) (hp_tails ?ix p b) p b (?n # N p b) (Some (d # contents (f b)))"
        using t fresh dis Cons by (simp add: bucket_rep_def contents_def)
    qed (use Cons bk(4) in auto)
    ultimately show ?thesis by fastforce
  qed
qed

lemma dlinked_last:
  assumes "dlinked h pr (as @ [a, z])"
  shows "it_prev (h z) = Some a" "it_next (h z) = None"
  using assms by (induction as arbitrary: pr) auto

lemma dlinked_drop_last:
  assumes "dlinked h pr (as @ [a, z])" and "distinct (as @ [a])"
  shows "dlinked (h(a := (h a)\<lparr>it_next := None\<rparr>)) pr (as @ [a])"
  using assms
proof (induction as arbitrary: pr)
  case (Cons x xs)
  have "(case xs @ [a, z] of [] \<Rightarrow> None | b # _ \<Rightarrow> Some b) = (case xs @ [a] of [] \<Rightarrow> None | b # _ \<Rightarrow> Some b)"
    by (cases xs) auto
  then show ?case using Cons by auto
qed simp

lemma unlink_tail_single:
  assumes all: "TPCC_ALL_TXN cfg" and rep: "hp_rep ix q N" and q: "q p = Some f" and b: "b < unat (hp_cnt ix)"
    and N: "N p b = []" and c: "f b = Some xs"
  shows "\<exists>ix' M. unlink_item cfg p b (Slot p b) ix = Some ix' \<and> hp_rep ix' (q(p \<mapsto> f(b \<mapsto> []))) M \<and>
    hp_parts ix' = hp_parts ix \<and> hp_cnt ix' = hp_cnt ix" "length xs \<le> 1" "hp_tails ix p b = Some (Slot p b)"
proof -
  note bk = rep_bucket [OF rep q b]
  have e: "it_next (hp_items ix (Slot p b)) = None" "it_prev (hp_items ix (Slot p b)) = None"
    using bk(1) N by (auto simp: bucket_rep_def empty_slot_def split: if_splits)
  show "length xs \<le> 1" "hp_tails ix p b = Some (Slot p b)"
    using bk(1) N c by (auto simp: bucket_rep_def contents_def split: if_splits)
  let ?ix = "ix\<lparr>hp_items := (hp_items ix)(Slot p b := item_init cfg (hp_items ix (Slot p b))),
    hp_tails := (hp_tails ix)(p := (hp_tails ix p)(b := Some (Slot p b)))\<rparr>"
  have "unlink_item cfg p b (Slot p b) ix = Some ?ix"
    using bk(2,3) e by (simp add: unlink_item_def heap_defs)
  moreover have "hp_rep ?ix (q(p \<mapsto> f(b \<mapsto> []))) (N(p := (N p)(b := [])))"
    using hp_rep_update [OF rep q b, of ?ix "[]" "Some []"] N all
    by (simp add: bucket_rep_def contents_def empty_slot_def item_init_def)
  ultimately show "\<exists>ix' M. unlink_item cfg p b (Slot p b) ix = Some ix' \<and> hp_rep ix' (q(p \<mapsto> f(b \<mapsto> []))) M \<and>
    hp_parts ix' = hp_parts ix \<and> hp_cnt ix' = hp_cnt ix" by fastforce
qed

lemma unlink_tail_chain:
  assumes all: "TPCC_ALL_TXN cfg" and rep: "hp_rep ix q N" and q: "q p = Some f" and b: "b < unat (hp_cnt ix)"
    and N: "N p b = M @ [m]" and c: "f b = Some xs"
  shows "\<exists>ix' M. unlink_item cfg p b (Block m) ix = Some ix' \<and> hp_rep ix' (q(p \<mapsto> f(b \<mapsto> butlast xs))) M \<and>
    hp_parts ix' = hp_parts ix \<and> hp_cnt ix' = hp_cnt ix" "hp_tails ix p b = Some (Block m)"
proof -
  note bk = rep_bucket [OF rep q b]
  let ?h = "hp_items ix"
  have ne: "xs \<noteq> []" and dl: "dlinked ?h None (addrs p b (M @ [m]))"
    and dat: "map (\<lambda>a. data_of (?h a)) (addrs p b (M @ [m])) = xs"
    and val: "\<forall>a\<in>set (addrs p b (M @ [m])). it_valid (?h a)" and dis: "distinct (M @ [m])"
    and t: "hp_tails ix p b = Some (Block m)"
    using bk(1) N c by (auto simp: bucket_rep_def contents_def split: if_splits)
  show "hp_tails ix p b = Some (Block m)" by (rule t)
  obtain as a where as: "addrs p b M = as @ [a]" by (metis list.distinct(1) rev_exhaust)
  have spl: "addrs p b (M @ [m]) = as @ [a, Block m]" using as by simp
  note lst = dlinked_last [OF dl [unfolded spl]]
  have da: "distinct (as @ [a])" using dis unfolding as [symmetric] by (auto simp: distinct_map inj_on_def)
  have ain: "a \<in> set (addrs p b M)" unfolding as by simp
  have a: "is_object ix a" "a \<noteq> Block m" using ain bk(3,4) N dis by auto
  have sub: "x < hp_brk ix" "x \<in> set (N p b)" if "a = Block x" for x using ain that bk(4) N by auto
  let ?h1 = "?h(a := (?h a)\<lparr>it_next := None\<rparr>)"
  let ?ix = "ix\<lparr>hp_items := ?h1, hp_tails := (hp_tails ix)(p := (hp_tails ix p)(b := Some a)),
    hp_live := (if HAWK_ALLOC cfg then hp_live ix else (hp_live ix)(m := False))\<rparr>"
  have m: "hp_live ix m" using bk(4) N by simp
  have "unlink_item cfg p b (Block m) ix = Some ?ix"
    using bk(2) lst a m by (auto simp: unlink_item_def heap_defs)
  moreover have "hp_rep ?ix (q(p \<mapsto> f(b \<mapsto> butlast xs))) (N(p := (N p)(b := M)))"
  proof (rule hp_rep_update [OF rep q b])
    have "dlinked ?h1 None (addrs p b M)" unfolding as by (rule dlinked_drop_last [OF dl [unfolded spl] da])
    moreover have "map (\<lambda>x. data_of (?h1 x)) (addrs p b M) = butlast xs"
      unfolding dat [symmetric] by (simp add: data_of_def butlast_append)
    moreover have "\<forall>x\<in>set (addrs p b M). it_valid (?h1 x)" using val by auto
    moreover have "last (addrs p b M) = a" using as by simp
    moreover have "butlast xs \<noteq> []" unfolding dat [symmetric] by simp
    ultimately show "bucket_rep (hp_items ?ix) (hp_tails ?ix p b) p b M (Some (butlast xs))"
      using dis by (simp add: bucket_rep_def contents_def)
    show "\<forall>p' b'. (p', b') \<noteq> (p, b) \<longrightarrow> hp_tails ?ix p' b' = hp_tails ix p' b' \<and> hp_items ?ix (Slot p' b') = hp_items ix (Slot p' b')"
      using ain by auto
    show "\<forall>n. n < hp_brk ix \<longrightarrow> n \<notin> set (N p b) \<longrightarrow> hp_items ?ix (Block n) = hp_items ix (Block n) \<and> hp_live ?ix n = hp_live ix n"
      using sub N by auto
  qed (use N bk(4) dis in auto)
  ultimately show "\<exists>ix' M. unlink_item cfg p b (Block m) ix = Some ix' \<and> hp_rep ix' (q(p \<mapsto> f(b \<mapsto> butlast xs))) M \<and>
    hp_parts ix' = hp_parts ix \<and> hp_cnt ix' = hp_cnt ix" by fastforce
qed

definition hp_R :: "idx_cfg \<Rightarrow> 64 word \<Rightarrow> nat \<Rightarrow> IndexHashPerfect \<Rightarrow> queues \<Rightarrow> bool" where
  "hp_R cfg cnt parts ix q \<longleftrightarrow> TPCC_ALL_TXN cfg \<and> hp_parts ix = parts \<and> hp_cnt ix = cnt \<and> (\<exists>N. hp_rep ix q N)"

lemma bucket_lt: "cnt \<noteq> 0 \<Longrightarrow> unat ((key :: 64 word) mod cnt) < unat cnt"
  by (simp add: unat_mod unat_gt_0)

lemma insert_sim:
  assumes "hp_R cfg cnt parts ix q"
  shows "rel_option (rel_prod (=) (hp_R cfg cnt parts)) (hp_op cfg (Ins p key d nc) ix) (q_op cnt parts (Ins p key d nc) q)"
proof (cases "cnt = 0 \<or> parts \<le> p")
  case True
  then show ?thesis using assms by (auto simp: hp_op_def q_op_def index_insert_safe_def hp_hash_def hp_R_def Let_def)
next
  case False
  let ?b = "unat (key mod cnt)" and ?f = "case q p of None \<Rightarrow> (\<lambda>_. None) | Some f \<Rightarrow> f"
  let ?ix = "install_part cfg p ix" and ?q = "q(p \<mapsto> ?f)"
  obtain N where all: "TPCC_ALL_TXN cfg" and c: "hp_parts ix = parts" "hp_cnt ix = cnt" and rep: "hp_rep ix q N"
    using assms by (auto simp: hp_R_def)
  have b: "?b < unat (hp_cnt ?ix)" using False c bucket_lt by simp
  have rep': "hp_rep ?ix ?q N" by (rule install_rep [OF rep all])
  have qp: "?q p = Some ?f" by simp
  have ins: "index_insert_safe cfg key (new_item d) p nc ix = chain_insert cfg p ?b (new_item d) nc ?ix"
    using False c b by (simp add: index_insert_safe_def hp_hash_def)
  show ?thesis
  proof (cases "nc \<and> contents (?f ?b) \<noteq> []")
    case True
    have "it_valid (hp_items ?ix (Slot p ?b))" using bucket_validD [OF rep_bucket(1) [OF rep' qp b]] True by blast
    then have "chain_insert cfg p ?b (new_item d) nc ?ix = None"
      using True rep_bucket(3) [OF rep' qp b] by (simp add: chain_insert_def heap_defs)
    then show ?thesis using True ins by (simp add: hp_op_def q_op_def Let_def)
  next
    case ok: False
    have "\<exists>ix' M. chain_insert cfg p ?b (new_item d) nc ?ix = Some ix' \<and>
        hp_rep ix' (?q(p \<mapsto> ?f(?b \<mapsto> d # contents (?f ?b)))) M \<and> hp_parts ix' = hp_parts ?ix \<and> hp_cnt ix' = hp_cnt ?ix"
    proof (cases "contents (?f ?b) = []")
      case True
      from chain_insert_empty [OF all rep' qp b this, of d nc] show ?thesis unfolding True .
    next
      case ne: False
      have nc: "nc = False" using ok ne by blast
      from chain_insert_front [OF all rep' qp b ne, of d] show ?thesis unfolding nc .
    qed
    then show ?thesis using False ok ins c all by (auto simp: hp_op_def q_op_def Let_def hp_R_def)
  qed
qed

lemma delete_sim:
  assumes "hp_R cfg cnt parts ix q"
  shows "rel_option (rel_prod (=) (hp_R cfg cnt parts)) (hp_op cfg (Del p key item) ix) (q_op cnt parts (Del p key item) q)"
proof -
  obtain N where all: "TPCC_ALL_TXN cfg" and c: "hp_parts ix = parts" "hp_cnt ix = cnt" and rep: "hp_rep ix q N"
    using assms by (auto simp: hp_R_def)
  let ?b = "unat (key mod cnt)"
  show ?thesis
  proof (cases "cnt = 0 \<or> parts \<le> p \<or> q p = None")
    case True
    then show ?thesis using c rep by (auto simp: hp_op_def q_op_def index_delete_safe_def hp_hash_def hp_rep_def)
  next
    case False
    then obtain f where f: "q p = Some f" by auto
    have b: "?b < unat (hp_cnt ix)" using False c bucket_lt by simp
    note bk = rep_bucket [OF rep f b]
    have del: "index_delete_safe cfg key item None p ix = Option.bind (hp_tails ix p ?b) (\<lambda>t. unlink_item cfg p ?b t ix)"
      using False c bk(2) all by (simp add: index_delete_safe_def hp_hash_def)
    show ?thesis
    proof (cases "f ?b")
      case None
      then have "hp_tails ix p ?b = None" using bk(1) by (simp add: bucket_rep_def contents_def)
      then show ?thesis using None f del False by (simp add: hp_op_def q_op_def)
    next
      case (Some xs)
      have "\<exists>ix' M. index_delete_safe cfg key item None p ix = Some ix' \<and> hp_rep ix' (q(p \<mapsto> f(?b \<mapsto> butlast xs))) M \<and>
        hp_parts ix' = hp_parts ix \<and> hp_cnt ix' = hp_cnt ix"
      proof (cases "N p ?b" rule: rev_cases)
        case Nil
        note u = unlink_tail_single [OF all rep f b Nil Some]
        have "butlast xs = []" using u(2) by (cases xs) auto
        then show ?thesis using u(1,3) del by simp
      next
        case (snoc M m)
        from unlink_tail_chain [OF all rep f b snoc Some] show ?thesis using del by simp
      qed
      then show ?thesis using False Some f c all by (auto simp: hp_op_def q_op_def hp_R_def)
    qed
  qed
qed

lemma bucket_answer:
  assumes "bucket_rep h t p b N c" and "contents c \<noteq> []"
  shows "it_valid (h (last (addrs p b N)))" "data_of (h (last (addrs p b N))) = last (contents c)"
    "data_of (h (Slot p b)) = hd (contents c)" "t = Some (last (addrs p b N))"
proof -
  have d: "map (\<lambda>a. data_of (h a)) (addrs p b N) = contents c" and v: "\<forall>a\<in>set (addrs p b N). it_valid (h a)"
    and t: "t = Some (last (addrs p b N))"
    using assms by (simp_all add: bucket_rep_def)
  show "t = Some (last (addrs p b N))" by (rule t)
  show "it_valid (h (last (addrs p b N)))" using v last_in_set by blast
  show "data_of (h (last (addrs p b N))) = last (contents c)" unfolding d [symmetric] by (simp add: last_map)
  show "data_of (h (Slot p b)) = hd (contents c)" unfolding d [symmetric] by simp
qed

lemma read_sim:
  assumes "hp_R cfg cnt parts ix q"
  shows "rel_option (rel_prod (=) (hp_R cfg cnt parts)) (hp_op cfg (Rd p key bk) ix) (q_op cnt parts (Rd p key bk) q)"
proof -
  obtain N where all: "TPCC_ALL_TXN cfg" and c: "hp_parts ix = parts" "hp_cnt ix = cnt" and rep: "hp_rep ix q N"
    using assms by (auto simp: hp_R_def)
  let ?b = "unat (key mod cnt)"
  show ?thesis
  proof (cases "cnt = 0 \<or> parts \<le> p \<or> q p = None")
    case True
    then show ?thesis using c rep assms bucket_lt
      by (auto simp: hp_op_def q_op_def index_read_safe_def hp_hash_def hp_rep_def)
  next
    case False
    then obtain f where f: "q p = Some f" by auto
    have b: "?b < unat (hp_cnt ix)" using False c bucket_lt by simp
    note bkt = rep_bucket [OF rep f b]
    let ?xs = "contents (f ?b)"
    have obj: "is_object ix (last (addrs p ?b (N p ?b)))" using bkt(3,4) by (auto simp: last_map)
    show ?thesis
    proof (cases "?xs = []")
      case True
      then have "\<not> it_valid (hp_items ix (Slot p ?b))" "hp_tails ix p ?b = map_option (\<lambda>_. Slot p ?b) (f ?b)"
        using bkt(1) by (auto simp: bucket_rep_def empty_slot_def)
      then show ?thesis using True False f c b bkt(2,3) assms all
        by (cases "f ?b") (auto simp: hp_op_def q_op_def index_read_safe_def hp_hash_def heap_defs answer_def)
    next
      case ne: False
      then have "f ?b \<noteq> None" by (auto simp: contents_def split: option.splits)
      then show ?thesis using False ne f c b bkt(2,3) obj assms all bucket_answer [OF bkt(1) ne] bucket_validD [OF bkt(1)]
        by (auto simp: hp_op_def q_op_def index_read_safe_def hp_hash_def heap_defs answer_def)
    qed
  qed
qed

interpretation hp: simulation "hp_R cfg cnt parts" "hp_op cfg" "q_op cnt parts" for cfg cnt parts
proof
  fix ix q op
  assume "hp_R cfg cnt parts ix q"
  then show "rel_option (rel_prod (=) (hp_R cfg cnt parts)) (hp_op cfg op ix) (q_op cnt parts op q)"
    by (cases op) (simp_all only: insert_sim delete_sim read_sim)
qed

text \<open>
  C34. The index refines a queue per bucket.  In the builds with \<open>TPCC_ALL_TXN\<close>, any sequence of latched
  insertions, deletions and reads of either end on a new index returns what the specification returns:
  an insertion puts the item in front, a deletion removes the oldest item, a read yields the newest or,
  backwards, the oldest item or reports an error.  No step reads or frees memory that is not in use,
  and the runs that stop the process are exactly those of the specification: a colliding insertion that
  promised none, and deleting from or reading backwards a bucket that nothing was ever put in.
\<close>

theorem perfect_index_refines_queues:
  assumes "TPCC_ALL_TXN cfg" and "hp_init cnt parts mem = Some ix"
  shows "map_option fst (run_ops (hp_op cfg) ops ix) =
         map_option fst (run_ops (q_op (cnt div of_nat parts) parts) ops (\<lambda>_. None))"
proof (rule hp.outputs_agree)
  have "hp_rep ix (\<lambda>_. None) (\<lambda>_ _. [])" using assms(2) by (auto simp: hp_init_def hp_rep_def)
  then show "hp_R cfg (cnt div of_nat parts) parts ix (\<lambda>_. None)"
    using assms by (auto simp: hp_R_def hp_init_def)
qed

definition demo_idx :: idx_cfg where
  "demo_idx = \<lparr>TPCC_ALL_TXN = True, HAWK_ALLOC = False\<rparr>"

definition demo_blank :: itemid_t where
  "demo_blank = \<lparr>it_location = None, it_next = None, it_prev = None, it_type = DT_row, it_valid = False\<rparr>"

definition demo_idx_ops :: "idx_op list" where
  "demo_idx_ops = [Ins 0 1 (demo_item 10) True, Ins 0 1 (demo_item 11) False, Ins 0 3 (demo_item 12) False,
     Del 0 1 (Slot 0 1), Rd 0 1 True, Rd 0 1 False, Rd 0 0 False]"

theorem perfect_index_refines_queues_witness:
  "map_option fst (run_ops (hp_op demo_idx) demo_idx_ops (the (hp_init 2 1 (\<lambda>_. demo_blank)))) =
   Some [(RCOK, None), (RCOK, None), (RCOK, None), (RCOK, None),
         (RCOK, Some (demo_item 11)), (RCOK, Some (demo_item 12)), (ERROR, None)]"
proof -
  have "map_option fst (run_ops (q_op (2 div of_nat 1) 1) demo_idx_ops (\<lambda>_. None)) =
    Some [(RCOK, None), (RCOK, None), (RCOK, None), (RCOK, None),
         (RCOK, Some (demo_item 11)), (RCOK, Some (demo_item 12)), (ERROR, None)]"
    by (simp add: demo_idx_ops_def q_op_def contents_def answer_def)
  then show ?thesis
    using perfect_index_refines_queues [of demo_idx 2 1 "\<lambda>_. demo_blank" "the (hp_init 2 1 (\<lambda>_. demo_blank))" demo_idx_ops]
    by (simp add: demo_idx_def hp_init_def)
qed

section \<open>Deletion of a given item\<close>

text \<open>
  With \<open>TPCC_ALL_TXN\<close>, \<open>index_delete\<close> corrupts a bucket when it is given the first of two items: the
  slot takes over the back pointer of its successor, which points to the slot itself.  After two items
  were inserted and the first was deleted twice the bucket should be empty; instead the slot is handed to
  the allocator as if it were a block, or, with an allocator that frees nothing, the deleted item is still
  found.
\<close>

theorem index_delete_head_corrupts:
  assumes "TPCC_ALL_TXN cfg" and "cnt \<noteq> 0" and "hp_init cnt 1 mem = Some ix0" and "b = unat (key mod cnt)"
  shows "do {
      ix1 \<leftarrow> index_insert cfg key (new_item d1) 0 True ix0;
      ix2 \<leftarrow> index_insert cfg key (new_item d2) 0 False ix1;
      ix3 \<leftarrow> index_delete cfg key (Slot 0 b) None 0 ix2;
      ix4 \<leftarrow> index_delete cfg key (Slot 0 b) None 0 ix3;
      index_read cfg key 0 False ix4
    } = (if HAWK_ALLOC cfg then Some (Some (Slot 0 b)) else None)"
  using assms bucket_lt [OF assms(2), of key]
  by (auto simp: hp_init_def index_insert_def index_delete_def index_read_def hp_hash_def install_part_def chain_insert_def
      heap_defs unlink_item_def new_item_def item_init_def)

theorem index_delete_head_corrupts_witness:
  "do {
      ix1 \<leftarrow> index_insert demo_idx 1 (new_item (demo_item 1)) 0 True (the (hp_init 2 1 (\<lambda>_. demo_blank)));
      ix2 \<leftarrow> index_insert demo_idx 1 (new_item (demo_item 2)) 0 False ix1;
      ix3 \<leftarrow> index_delete demo_idx 1 (Slot 0 1) None 0 ix2;
      ix4 \<leftarrow> index_delete demo_idx 1 (Slot 0 1) None 0 ix3;
      index_read demo_idx 1 0 False ix4
    } = None"
  using index_delete_head_corrupts [of demo_idx 2 "\<lambda>_. demo_blank" "the (hp_init 2 1 (\<lambda>_. demo_blank))" 1 1
      "demo_item 1" "demo_item 2"]
  by (simp add: demo_idx_def hp_init_def)

text \<open>Without \<open>TPCC_ALL_TXN\<close> a chain is linked forwards only.\<close>

fun slinked :: "(item_ptr \<Rightarrow> itemid_t) \<Rightarrow> item_ptr list \<Rightarrow> bool" where
  "slinked h [] \<longleftrightarrow> True"
| "slinked h (a # as) \<longleftrightarrow> it_next (h a) = (case as of [] \<Rightarrow> None | b # _ \<Rightarrow> Some b) \<and> slinked h as"

definition chain_at :: "IndexHashPerfect \<Rightarrow> nat \<Rightarrow> nat \<Rightarrow> nat list \<Rightarrow> item_data list \<Rightarrow> bool" where
  "chain_at ix p b N xs \<longleftrightarrow> hp_part ix p \<and> b < unat (hp_cnt ix) \<and>
     (if xs = [] then N = [] \<and> \<not> it_valid (hp_items ix (Slot p b))
      else slinked (hp_items ix) (addrs p b N) \<and> map (\<lambda>a. data_of (hp_items ix a)) (addrs p b N) = xs \<and>
        (\<forall>a\<in>set (addrs p b N). is_object ix a \<and> it_valid (hp_items ix a)) \<and> distinct N)"

lemma slinked_cong: "\<forall>a\<in>set as. h' a = h a \<Longrightarrow> slinked h' as = slinked h as"
  by (induction as) auto

lemma slinked_unlink:
  assumes "slinked h (us @ a # z # vs)" and "distinct (us @ a # z # vs)"
  shows "slinked (h(a := (h a)\<lparr>it_next := it_next (h z)\<rparr>)) (us @ a # vs)"
  using assms
proof (induction us)
  case Nil
  have "slinked (h(a := x)) vs = slinked h vs" for x using Nil by (intro slinked_cong) auto
  then show ?case using Nil by (simp add: fun_upd_def)
next
  case (Cons u us)
  have "(case us @ a # z # vs of [] \<Rightarrow> None | b # _ \<Rightarrow> Some b) = (case us @ a # vs of [] \<Rightarrow> None | b # _ \<Rightarrow> Some b)"
    by (cases us) auto
  then show ?case using Cons by auto
qed

lemma search_prev_finds:
  assumes "slinked (hp_items ix) (us @ a # z # vs)" and "distinct (us @ a # z # vs)"
    and "\<forall>x \<in> set (us @ [a]). is_object ix x"
  shows "search_prev ix z (hd (us @ [a])) = Some a"
  using assms
proof (induction us)
  case Nil
  then show ?case by (subst search_prev.simps) (simp add: item_at_def)
next
  case (Cons u us)
  have "it_next (hp_items ix u) = Some (hd (us @ [a]))" using Cons.prems(1) by (cases us) auto
  moreover have "hd (us @ [a]) \<noteq> z" using Cons.prems(2) by (cases us) auto
  moreover have "search_prev ix z (hd (us @ [a])) = Some a" using Cons by auto
  ultimately show ?case using Cons.prems(3) by (subst search_prev.simps) (simp add: item_at_def)
qed

lemma delete_first:
  assumes all: "\<not> TPCC_ALL_TXN cfg" and k: "hp_cnt ix \<noteq> 0" "p < hp_parts ix" "b = unat (key mod hp_cnt ix)"
    and ch: "chain_at ix p b N (x # xs)"
  shows "\<exists>ix' N'. index_delete cfg key (Slot p b) None p ix = Some ix' \<and> chain_at ix' p b N' xs \<and>
    (\<forall>a. a \<notin> set (addrs p b N) \<longrightarrow> hp_items ix' a = hp_items ix a)"
proof -
  let ?S = "Slot p b" and ?h = "hp_items ix"
  have sl: "slinked ?h (addrs p b N)" and dat: "map (\<lambda>a. data_of (?h a)) (addrs p b N) = x # xs"
    and ob: "\<forall>a\<in>set (addrs p b N). is_object ix a \<and> it_valid (?h a)" and dis: "distinct N"
    and pb: "hp_part ix p" "b < unat (hp_cnt ix)" using ch by (simp_all add: chain_at_def)
  have rd: "index_read cfg key p False ix = Some (Some ?S)"
    using all k pb ob by (simp add: index_read_def hp_hash_def)
  show ?thesis
  proof (cases N)
    case Nil
    let ?ix = "ix\<lparr>hp_items := ?h(?S := item_init cfg (?h ?S))\<rparr>"
    have "index_delete cfg key ?S None p ix = Some ?ix"
      using all rd Nil sl ob by (simp add: index_delete_def unlink_hint_def item_at_def put_item_def)
    moreover have "chain_at ?ix p b [] xs" using dat Nil pb by (simp add: chain_at_def item_init_def)
    ultimately show ?thesis by fastforce
  next
    case (Cons n M)
    let ?ix = "ix\<lparr>hp_items := ?h(?S := ?h (Block n))\<rparr>"
    have "index_delete cfg key ?S None p ix = Some ?ix"
      using all rd Cons sl ob by (simp add: index_delete_def unlink_hint_def item_at_def put_item_def)
    moreover have "chain_at ?ix p b M xs"
    proof -
      have "slinked (hp_items ?ix) (map Block M) = slinked ?h (map Block M)" by (intro slinked_cong) auto
      moreover have "is_object ?ix a = is_object ix a" for a by (cases a) simp_all
      moreover have "xs \<noteq> []" using dat Cons by auto
      ultimately show ?thesis using sl dat ob dis pb Cons by (auto simp: chain_at_def)
    qed
    ultimately show ?thesis using Cons by fastforce
  qed
qed

lemma delete_later:
  assumes all: "\<not> TPCC_ALL_TXN cfg" and k: "hp_cnt ix \<noteq> 0" "p < hp_parts ix" "b = unat (key mod hp_cnt ix)"
    and ch: "chain_at ix p b (M @ n # M') xs"
  shows "\<exists>ix'. index_delete cfg key (Block n) None p ix = Some ix' \<and>
    chain_at ix' p b (M @ M') (take (Suc (length M)) xs @ drop (Suc (Suc (length M))) xs) \<and>
    (\<forall>a. a \<notin> set (addrs p b (M @ n # M')) \<longrightarrow> hp_items ix' a = hp_items ix a)"
proof -
  let ?S = "Slot p b" and ?h = "hp_items ix"
  have ne: "xs \<noteq> []" using ch by (auto simp: chain_at_def)
  then have sl: "slinked ?h (addrs p b (M @ n # M'))" and dat: "map (\<lambda>a. data_of (?h a)) (addrs p b (M @ n # M')) = xs"
    and ob: "\<forall>a\<in>set (addrs p b (M @ n # M')). is_object ix a \<and> it_valid (?h a)" and dis: "distinct (M @ n # M')"
    and pb: "hp_part ix p" "b < unat (hp_cnt ix)" using ch by (simp_all add: chain_at_def)
  obtain us a where us: "addrs p b M = us @ [a]" by (metis list.distinct(1) rev_exhaust)
  have spl: "addrs p b (M @ n # M') = us @ a # Block n # map Block M'" using us by simp
  have da: "distinct (us @ a # Block n # map Block M')"
    using dis unfolding spl [symmetric] by (auto simp: distinct_map inj_on_def)
  have hd: "hd (us @ [a]) = ?S" unfolding us [symmetric] by simp
  have ain: "a \<in> set (addrs p b M)" unfolding us by simp
  have aob: "is_object ix a" "it_valid (?h a)" and nob: "is_object ix (Block n)" using ob ain by auto
  have "search_prev ix (Block n) ?S = Some a"
    using search_prev_finds [OF sl [unfolded spl] da] ob unfolding hd spl by auto
  moreover have "index_read cfg key p False ix = Some (Some ?S)"
    using all k pb ob by (simp add: index_read_def hp_hash_def)
  moreover have an: "a \<noteq> Block n" using da by auto
  ultimately have del: "index_delete cfg key (Block n) None p ix =
      free_item cfg (Block n) (ix\<lparr>hp_items := ?h(a := (?h a)\<lparr>it_next := it_next (?h (Block n))\<rparr>)\<rparr>)"
    using all aob nob by (simp add: index_delete_def unlink_hint_def item_at_def put_item_def del: free_item.simps)
  let ?h1 = "?h(a := (?h a)\<lparr>it_next := it_next (?h (Block n))\<rparr>)"
  let ?ix = "ix\<lparr>hp_items := ?h1, hp_live := (if HAWK_ALLOC cfg then hp_live ix else (hp_live ix)(n := False))\<rparr>"
  have d: "index_delete cfg key (Block n) None p ix = Some ?ix" using del nob by simp
  have spl': "addrs p b (M @ M') = us @ a # map Block M'" using us by simp
  have "slinked ?h1 (addrs p b (M @ M'))"
    unfolding spl' by (rule slinked_unlink [OF sl [unfolded spl] da])
  moreover have "map (\<lambda>x. data_of (?h1 x)) (addrs p b (M @ M')) = take (Suc (length M)) xs @ drop (Suc (Suc (length M))) xs"
    unfolding dat [symmetric] by (auto simp: data_of_def)
  moreover have "is_object ?ix x \<and> it_valid (?h1 x)" if "x \<in> set (addrs p b (M @ M'))" for x
    using ob that dis aob(2) by (cases x) (auto simp: ball_Un)
  ultimately have "chain_at ?ix p b (M @ M') (take (Suc (length M)) xs @ drop (Suc (Suc (length M))) xs)"
    using pb dis ne by (auto simp: chain_at_def)
  moreover have "\<forall>x. x \<notin> set (addrs p b (M @ n # M')) \<longrightarrow> hp_items ?ix x = hp_items ix x" using ain by auto
  ultimately show ?thesis using d by blast
qed

text \<open>
  In the builds without \<open>TPCC_ALL_TXN\<close>, \<open>index_delete\<close> without a hint removes exactly the item it is
  given, at any position of the bucket: the search for its predecessor ends, the remaining items keep their
  order, and items outside the bucket are not touched.
\<close>

theorem index_delete_removes_item:
  assumes "\<not> TPCC_ALL_TXN cfg" and "hp_cnt ix \<noteq> 0" and "p < hp_parts ix" and "b = unat (key mod hp_cnt ix)"
    and "chain_at ix p b N xs" and "i < length xs"
  shows "\<exists>ix' N'. index_delete cfg key (addrs p b N ! i) None p ix = Some ix' \<and>
    chain_at ix' p b N' (take i xs @ drop (Suc i) xs) \<and>
    (\<forall>a. a \<notin> set (addrs p b N) \<longrightarrow> hp_items ix' a = hp_items ix a)"
proof (cases i)
  case 0
  then obtain y ys where "xs = y # ys" using assms(6) by (cases xs) auto
  then show ?thesis using delete_first [OF assms(1-4)] assms(5) 0 by simp
next
  case (Suc j)
  have "length xs = Suc (length N)" using assms(5,6) by (auto simp: chain_at_def split: if_splits)
  then have j: "j < length N" using Suc assms(6) by simp
  have "N = take j N @ N ! j # drop (Suc j) N" using j by (simp add: id_take_nth_drop)
  then have "chain_at ix p b (take j N @ N ! j # drop (Suc j) N) xs" using assms(5) by simp
  from delete_later [OF assms(1-4) this] show ?thesis using Suc j id_take_nth_drop [OF j] by fastforce
qed

definition demo_chain :: IndexHashPerfect where
  "demo_chain = \<lparr>hp_parts = 1, hp_cnt = 1, hp_part = (\<lambda>_. True), hp_tails = (\<lambda>_ _. None),
     hp_items = (\<lambda>a. (new_item (demo_item (case a of Slot _ _ \<Rightarrow> 1 | Block n \<Rightarrow> n + 2)))
        \<lparr>it_next := (case a of Slot _ _ \<Rightarrow> Some (Block 0) | Block n \<Rightarrow> (if n = 0 then Some (Block 1) else None))\<rparr>),
     hp_live = (\<lambda>n. n < 2), hp_brk = 2\<rparr>"

theorem index_delete_removes_item_witness:
  "\<exists>ix' N'. index_delete (demo_idx\<lparr>TPCC_ALL_TXN := False\<rparr>) 7 (Block 0) None 0 demo_chain = Some ix' \<and>
    chain_at ix' 0 0 N' [demo_item 1, demo_item 3]"
proof -
  have "chain_at demo_chain 0 0 [0, 1] [demo_item 1, demo_item 2, demo_item 3]"
    by (simp add: chain_at_def demo_chain_def data_of_def new_item_def demo_item_def)
  from index_delete_removes_item [OF _ _ _ _ this, of "demo_idx\<lparr>TPCC_ALL_TXN := False\<rparr>" 7 1] show ?thesis
    by (auto simp: demo_chain_def demo_idx_def)
qed

end
