(* ===== verification/Index_Keys.thy ===== *)
theory Index_Keys
  imports DBx_Prelude
begin

text \<open>
  The key and partition arithmetic of system/helper.cpp: packing of composite index keys, the
  partition of a key or of an address, and the random number generator of the workloads.
  All values are \<open>uint64_t\<close>.  \<open>None\<close> is a failed assertion, a division by zero, an access outside an array,
  or a shift by the width of the type.
\<close>

section \<open>Definitions\<close>

definition merge_idx_key2 :: "64 word \<Rightarrow> 64 word \<Rightarrow> idx_key_t option" where
  "merge_idx_key2 key1 key2 =
     assert_then (key1 < push_bit 32 1 \<and> key2 < push_bit 32 1) (Some (push_bit 32 key1 OR key2))"

definition merge_idx_key3 :: "64 word \<Rightarrow> 64 word \<Rightarrow> 64 word \<Rightarrow> idx_key_t option" where
  "merge_idx_key3 key1 key2 key3 =
     assert_then (key1 < push_bit 21 1 \<and> key2 < push_bit 21 1 \<and> key3 < push_bit 21 1)
       (Some (push_bit 42 key1 OR push_bit 21 key2 OR key3))"

text \<open>The version for an array: the loop runs over \<open>len\<close>, the bits of one key, and not over \<open>key_cnt\<close>.\<close>

primrec merge_loop :: "nat \<Rightarrow> nat \<Rightarrow> 64 word list \<Rightarrow> idx_key_t option" where
  "merge_loop len 0 keys = Some 0"
| "merge_loop len (Suc i) keys =
     (case merge_loop len i keys of
        None \<Rightarrow> None
      | Some key \<Rightarrow>
          assert_then (i < length keys \<and> len < 64 \<and> keys ! i < push_bit len 1) (Some (push_bit len key OR keys ! i)))"

definition merge_idx_key :: "64 word list \<Rightarrow> idx_key_t option" where
  "merge_idx_key keys =
     (if keys = [] then None else let len = 64 div length keys in merge_loop len len keys)"

definition key_to_part :: "bool \<Rightarrow> 64 word \<Rightarrow> 64 word \<Rightarrow> 64 word option" where
  "key_to_part g_part_alloc g_part_cnt key =
     (if g_part_alloc then (if g_part_cnt = 0 then None else Some (key mod g_part_cnt)) else Some 0)"

definition get_part_id :: "64 word \<Rightarrow> 64 word \<Rightarrow> 64 word \<Rightarrow> 64 word option" where
  "get_part_id PAGE_SIZE g_part_cnt addr =
     (if PAGE_SIZE = 0 \<or> g_part_cnt = 0 then None else Some (addr div PAGE_SIZE mod g_part_cnt))"

definition RAND_MAX :: "64 word" where
  "RAND_MAX = 2147483647"

text \<open>\<open>myrand::next\<close>: the new seed and the number.\<close>

definition myrand_next :: "64 word \<Rightarrow> 64 word \<times> 64 word" where
  "myrand_next seed =
     (let seed' = (seed * 1103515247 + 12345) mod push_bit 63 1 in ((seed' div 65537) mod RAND_MAX, seed'))"

section \<open>Packing\<close>

lemma word_less_iff_take_bit:
  fixes a :: "64 word"
  assumes "n < 64"
  shows "a < 2 ^ n \<longleftrightarrow> take_bit n a = a"
proof
  assume "a < 2 ^ n"
  then show "take_bit n a = a" using assms by (simp add: less_mask_eq take_bit_eq_mask)
next
  assume "take_bit n a = a"
  then have "a AND mask n = a" by (simp add: take_bit_eq_mask)
  then show "a < 2 ^ n" using and_mask_less_size [of n a] assms by (simp add: word_size)
qed

lemma word_less_bit:
  fixes a :: "64 word"
  assumes "a < 2 ^ n" and "n < 64" and "bit a j"
  shows "j < n"
  using assms by (metis bit_take_bit_iff word_less_iff_take_bit)

lemma word_lessI_bit:
  fixes a :: "64 word"
  assumes "\<And>i. bit a i \<Longrightarrow> i < n" and "n < (64 :: nat)"
  shows "a < 2 ^ n"
proof -
  have "take_bit n a = a" using assms(1) by (intro bit_eqI) (auto simp: bit_take_bit_iff)
  then show ?thesis using assms(2) by (simp add: word_less_iff_take_bit)
qed

lemma word_or_shift:
  fixes a b :: "64 word"
  assumes "b < 2 ^ n" and "n < 64"
  shows "drop_bit n (push_bit n a OR b) = take_bit (64 - n) a" "take_bit n (push_bit n a OR b) = b"
proof -
  have nb: "\<not> bit b k" if "n \<le> k" for k using that word_less_bit [OF assms] by (auto simp: not_le [symmetric])
  show "drop_bit n (push_bit n a OR b) = take_bit (64 - n) a"
    by (rule bit_eqI) (auto simp: bit_simps nb)
  show "take_bit n (push_bit n a OR b) = b"
    by (rule bit_eqI) (auto simp: bit_simps nb not_le intro: leI)
qed

lemma word_pack_iff:
  fixes a b k :: "64 word"
  assumes "a < 2 ^ m" and "m + n \<le> 64" and "b < 2 ^ n" and "n < 64"
  shows "push_bit n a OR b = k \<longleftrightarrow> drop_bit n k = a \<and> take_bit n k = b"
proof -
  have a: "take_bit (64 - n) a = a"
  proof (cases "m < 64")
    case True
    then have "take_bit m a = a" using assms(1) by (simp add: word_less_iff_take_bit)
    then show ?thesis using assms(2) by (metis take_bit_take_bit min.absorb2 le_diff_conv2 add_leD2)
  next
    case False
    then have "n = 0" using assms(2) by simp
    then show ?thesis by (simp add: take_bit_word_eq_self)
  qed
  have "push_bit n (drop_bit n k) OR take_bit n k = k"
    by (rule bit_eqI) (use assms(4) in \<open>auto simp: bit_simps dest: bit_imp_le_length\<close>)
  then show ?thesis using word_or_shift [OF assms(3,4), of a] a by auto
qed

text \<open>
  Composite keys can be taken apart again: packing two keys succeeds exactly when both fit in 32 bits,
  and the result is the one word whose halves are the keys; packing three keys succeeds exactly when all
  fit in 21 bits, and the result is the one word with those three fields.
\<close>

theorem merge_idx_key_fields:
  "(merge_idx_key2 a b = Some k \<longleftrightarrow> a < push_bit 32 1 \<and> b < push_bit 32 1 \<and> drop_bit 32 k = a \<and> take_bit 32 k = b) \<and>
   (merge_idx_key3 a b c = Some k \<longleftrightarrow> a < push_bit 21 1 \<and> b < push_bit 21 1 \<and> c < push_bit 21 1 \<and>
      drop_bit 42 k = a \<and> take_bit 21 (drop_bit 21 k) = b \<and> take_bit 21 k = c)"
proof
  have p: "push_bit 32 (1 :: 64 word) = 2 ^ 32" "push_bit 21 (1 :: 64 word) = 2 ^ 21" by simp_all
  show "merge_idx_key2 a b = Some k \<longleftrightarrow> a < push_bit 32 1 \<and> b < push_bit 32 1 \<and> drop_bit 32 k = a \<and> take_bit 32 k = b"
    unfolding merge_idx_key2_def assert_then_Some p option.inject using word_pack_iff [of a 32 32 b k] by auto
  show "merge_idx_key3 a b c = Some k \<longleftrightarrow> a < push_bit 21 1 \<and> b < push_bit 21 1 \<and> c < push_bit 21 1 \<and>
      drop_bit 42 k = a \<and> take_bit 21 (drop_bit 21 k) = b \<and> take_bit 21 k = c"
  proof (cases "a < 2 ^ 21 \<and> b < 2 ^ 21 \<and> c < 2 ^ 21")
    case True
    let ?ab = "push_bit 21 a OR b"
    have "push_bit 42 a OR push_bit 21 b OR c = push_bit 21 ?ab OR c"
      by (rule bit_eqI) (auto simp: bit_simps)
    moreover have lt: "?ab < 2 ^ 42"
    proof -
      have "i < 42" if "bit ?ab i" for i
        using that True word_less_bit [of a 21 "i - 21"] word_less_bit [of b 21 i] by (auto simp: bit_simps)
      moreover have "(42 :: nat) < 64" by simp
      ultimately show ?thesis using word_lessI_bit [of ?ab 42] by blast
    qed
    ultimately have "push_bit 42 a OR push_bit 21 b OR c = k \<longleftrightarrow> drop_bit 21 k = ?ab \<and> take_bit 21 k = c"
      using word_pack_iff [OF lt, of 21 c k] True by simp
    moreover have "?ab = drop_bit 21 k \<longleftrightarrow> drop_bit 42 k = a \<and> take_bit 21 (drop_bit 21 k) = b"
      using word_pack_iff [of a 21 21 b "drop_bit 21 k"] True by (simp add: drop_bit_drop_bit)
    ultimately show ?thesis unfolding merge_idx_key3_def assert_then_Some p option.inject using True by auto
  next
    case False
    then show ?thesis unfolding merge_idx_key3_def assert_then_Some p by blast
  qed
qed

section \<open>Packing an array of keys\<close>

lemma merge_loop_reads: "merge_loop len n keys = Some k \<Longrightarrow> n \<le> length keys"
  by (induction n arbitrary: k) (auto split: option.splits)

text \<open>
  The packing of an array of keys reads past the array for every number of keys from one to seven: its
  loop counts to the number of bits per key.  It never returns a key for them.
\<close>

theorem merge_idx_key_array_overrun:
  "length keys < 8 \<Longrightarrow> merge_idx_key keys = None"
proof (rule ccontr)
  assume few: "length keys < 8" and "merge_idx_key keys \<noteq> None"
  then obtain k where ne: "keys \<noteq> []" and k: "merge_loop (64 div length keys) (64 div length keys) keys = Some k"
    by (auto simp: merge_idx_key_def Let_def split: if_splits)
  have "64 div 7 \<le> 64 div length keys" using few ne by (intro div_le_mono2) auto
  then show False using merge_loop_reads [OF k] few by simp
qed

theorem merge_idx_key_array_overrun_witness: "merge_idx_key [1, 2, 3] = None"
  by (rule merge_idx_key_array_overrun) simp

end
