(* ===== verification/Worker.thy ===== *)
theory Worker
  imports DBx_Prelude
begin

text \<open>
  The worker threads of system/thread.cpp: where a thread takes its next query from, the buffer of aborted
  queries, and the end of a run; the query array of a thread from system/query.cpp.

  A query is a value; the transaction itself is its outcome, an argument.  The readings of the clock are
  arguments, one per turn of a loop.  \<open>None\<close> is a failed assertion, a read past the query array, or, for the
  waiting loop, that it still waits after the given readings.  \<open>th_done\<close> is not in the program: it
  records the committed queries.
\<close>

section \<open>Definitions\<close>

record 'q AbortBufferEntry =
  ab_query :: "'q option"
  ab_ready_time :: ts_t

record 'q thread_t =
  th_buffer :: "'q AbortBufferEntry list"
  th_empty_slots :: int
  th_buffer_enable :: bool
  th_query :: "'q option"
  th_rc :: RC
  th_txn_id :: "64 word"
  th_txn_cnt :: nat
  th_queries :: "'q list"
  th_q_idx :: nat
  th_done :: "'q list"

definition thread_init :: "nat \<Rightarrow> bool \<Rightarrow> 'q list \<Rightarrow> 'q thread_t" where
  "thread_init buffer_size enable queries =
     \<lparr>th_buffer = replicate buffer_size \<lparr>ab_query = None, ab_ready_time = 0\<rparr>, th_empty_slots = int buffer_size,
      th_buffer_enable = enable, th_query = None, th_rc = RCOK, th_txn_id = 0, th_txn_cnt = 0,
      th_queries = queries, th_q_idx = 0, th_done = []\<rparr>"

text \<open>How many queries \<open>Query_thd::init\<close> prepares for a thread.\<close>

definition request_cnt :: "bool \<Rightarrow> nat \<Rightarrow> nat \<Rightarrow> nat \<Rightarrow> nat \<Rightarrow> nat" where
  "request_cnt enable warmup threads max_txn buffer_size =
     warmup div threads + max_txn + 4 + (if enable then buffer_size else 0)"

definition get_next_query :: "'q thread_t \<Rightarrow> ('q \<times> 'q thread_t) option" where
  "get_next_query th =
     (if th_q_idx th < length (th_queries th)
      then Some (th_queries th ! th_q_idx th, th\<lparr>th_q_idx := th_q_idx th + 1\<rparr>) else None)"

text \<open>The search for a buffered query whose time has come.\<close>

fun take_ready :: "ts_t \<Rightarrow> 'q AbortBufferEntry list \<Rightarrow> ('q \<times> 'q AbortBufferEntry list) option" where
  "take_ready now [] = None"
| "take_ready now (e # es) =
     (case ab_query e of
        Some q \<Rightarrow> (if ab_ready_time e < now then Some (q, e\<lparr>ab_query := None\<rparr> # es)
                   else map_option (\<lambda>(q, es'). (q, e # es')) (take_ready now es))
      | None \<Rightarrow> map_option (\<lambda>(q, es'). (q, e # es')) (take_ready now es))"

definition min_ready_time :: "'q AbortBufferEntry list \<Rightarrow> ts_t" where
  "min_ready_time es = fold (\<lambda>e m. if ab_ready_time e < m then ab_ready_time e else m) es UINT64_MAX"

text \<open>One turn of the loop that finds a query; \<open>None\<close> in the first component is the sleep.\<close>

definition fetch_turn :: "ts_t \<Rightarrow> 'q thread_t \<Rightarrow> ('q option \<times> 'q thread_t) option" where
  "fetch_turn now th =
     (case (if th_empty_slots th < int (length (th_buffer th)) then take_ready now (th_buffer th) else None) of
        Some (q, es) \<Rightarrow> Some (Some q, th\<lparr>th_buffer := es, th_empty_slots := th_empty_slots th + 1\<rparr>)
      | None \<Rightarrow>
          if th_empty_slots th = 0
          then assert_then (now \<le> min_ready_time (th_buffer th)) (Some (None, th))
          else map_option (\<lambda>(q, th'). (Some q, th')) (get_next_query th))"

fun fetch :: "ts_t list \<Rightarrow> 'q thread_t \<Rightarrow> ('q \<times> 'q thread_t) option" where
  "fetch [] th = None"
| "fetch (now # nows) th =
     (case fetch_turn now th of
        None \<Rightarrow> None
      | Some (Some q, th') \<Rightarrow> Some (q, th')
      | Some (None, th') \<Rightarrow> fetch nows th')"

fun put_aborted :: "'q \<Rightarrow> ts_t \<Rightarrow> 'q AbortBufferEntry list \<Rightarrow> 'q AbortBufferEntry list" where
  "put_aborted q ready [] = []"
| "put_aborted q ready (e # es) =
     (if ab_query e = None then \<lparr>ab_query = Some q, ab_ready_time = ready\<rparr> # es else e # put_aborted q ready es)"

definition next_query :: "ts_t list \<Rightarrow> 'q thread_t \<Rightarrow> 'q thread_t option" where
  "next_query nows th =
     (if th_buffer_enable th then map_option (\<lambda>(q, th'). th'\<lparr>th_query := Some q\<rparr>) (fetch nows th)
      else if th_rc th = RCOK then map_option (\<lambda>(q, th'). th'\<lparr>th_query := Some q\<rparr>) (get_next_query th)
      else Some th)"

text \<open>What follows the transaction: an aborted query is buffered, a committed one is counted.\<close>

definition after_txn :: "RC \<Rightarrow> ts_t \<Rightarrow> ts_t \<Rightarrow> 'q thread_t \<Rightarrow> 'q thread_t option" where
  "after_txn rc now penalty th =
     (let th1 = th\<lparr>th_rc := rc\<rparr>
      in if rc = Abort then
           (if \<not> th_buffer_enable th then Some th1
            else assert_then (0 < th_empty_slots th)
              (case th_query th of
                 None \<Rightarrow> Some th1
               | Some q \<Rightarrow> Some (th1\<lparr>th_buffer := put_aborted q (now + penalty) (th_buffer th),
                                     th_empty_slots := th_empty_slots th - 1\<rparr>)))
         else if rc = RCOK then
           Some (th1\<lparr>th_txn_cnt := th_txn_cnt th + 1, th_done := th_done th @ (case th_query th of None \<Rightarrow> [] | Some q \<Rightarrow> [q])\<rparr>)
         else Some th1)"

text \<open>One turn of \<open>thread_t::run\<close>: the query, its number, the transaction with outcome \<open>rc\<close>.\<close>

definition run_turn :: "ts_t list \<times> RC \<times> ts_t \<times> ts_t \<Rightarrow> 'q thread_t \<Rightarrow> 'q thread_t option" where
  "run_turn inp th =
     (case inp of (nows, rc, now, penalty) \<Rightarrow>
        Option.bind (next_query nows th) (\<lambda>th1. after_txn rc now penalty (th1\<lparr>th_txn_id := th_txn_id th1 + 1\<rparr>)))"

text \<open>The tests at the end of the turn: whether the thread returns, and the new \<open>sim_done\<close>.\<close>

definition run_exit :: "nat \<Rightarrow> nat \<Rightarrow> nat \<Rightarrow> bool \<Rightarrow> bool \<Rightarrow> 'q thread_t \<Rightarrow> (bool \<times> bool) option" where
  "run_exit warmup threads max_txn warmup_finish sim_done th =
     (if th_rc th = FINISH then Some (True, sim_done)
      else if \<not> warmup_finish \<and> warmup div threads \<le> th_txn_cnt th then Some (True, sim_done)
      else if warmup_finish \<and> max_txn \<le> th_txn_cnt th
           then assert_then (th_txn_cnt th = max_txn) (Some (True, True))
           else Some (sim_done, sim_done))"

text \<open>A thread runs twice, for the warm-up and for the measurement; \<open>run\<close> starts with fresh local variables.\<close>

definition run_start :: "'q thread_t \<Rightarrow> 'q thread_t" where
  "run_start th = th\<lparr>th_query := None, th_rc := RCOK, th_txn_id := 0, th_txn_cnt := 0\<rparr>"

datatype work = Start | Turn "ts_t list" RC ts_t ts_t

fun work_step :: "work \<Rightarrow> 'q thread_t \<Rightarrow> 'q thread_t option" where
  "work_step Start th = Some (run_start th)"
| "work_step (Turn nows rc now penalty) th = run_turn (nows, rc, now, penalty) th"

fun work_run :: "work list \<Rightarrow> 'q thread_t \<Rightarrow> 'q thread_t option" where
  "work_run [] th = Some th"
| "work_run (w # ws) th = Option.bind (work_step w th) (work_run ws)"

section \<open>The buffer\<close>

definition buffered :: "'q AbortBufferEntry list \<Rightarrow> 'q list" where
  "buffered es = List.map_filter ab_query es"

lemma buffered_simps [simp]:
  "buffered [] = []"
  "buffered (e # es) = (case ab_query e of None \<Rightarrow> buffered es | Some q \<Rightarrow> q # buffered es)"
  by (auto simp: buffered_def List.map_filter_def split: option.splits)

lemma buffered_length: "length (buffered es) \<le> length es"
  by (induction es) (auto split: option.splits)

lemma take_ready_Some:
  "take_ready now es = Some (q, es') \<Longrightarrow> length es' = length es \<and> mset (buffered es) = add_mset q (mset (buffered es')) \<and>
     length (buffered es) = Suc (length (buffered es'))"
  by (induction es arbitrary: q es') (auto split: option.splits if_splits)

lemma take_ready_None:
  "take_ready now es = None \<Longrightarrow> \<forall>e \<in> set es. ab_query e \<noteq> None \<longrightarrow> now \<le> ab_ready_time e"
  by (induction es) (auto split: option.splits if_splits)

lemma put_aborted_ok:
  assumes "length (buffered es) < length es"
  shows "length (put_aborted q r es) = length es \<and> mset (buffered (put_aborted q r es)) = add_mset q (mset (buffered es)) \<and>
    length (buffered (put_aborted q r es)) = Suc (length (buffered es))"
  using assms by (induction es) (auto split: option.splits)

lemma full_buffer: "length (buffered es) = length es \<Longrightarrow> e \<in> set es \<Longrightarrow> ab_query e \<noteq> None"
proof (induction es)
  case (Cons x xs)
  then show ?case using buffered_length [of xs] by (auto split: option.splits)
qed simp

lemma min_ready_time_ge:
  assumes "\<forall>e \<in> set es. now \<le> ab_ready_time e"
  shows "now \<le> min_ready_time es"
proof -
  have "now \<le> m \<Longrightarrow> now \<le> fold (\<lambda>e m. if ab_ready_time e < m then ab_ready_time e else m) es m" for m
    using assms by (induction es arbitrary: m) auto
  then show ?thesis unfolding min_ready_time_def by simp
qed

section \<open>The invariant\<close>

text \<open>
  Every query taken from the array was committed, is buffered, is the one a thread without buffer
  retries, or was given up when a run ended (\<open>D\<close>).
\<close>

definition retried :: "'q thread_t \<Rightarrow> 'q list" where
  "retried th = (if th_buffer_enable th \<or> th_rc th = RCOK then [] else [the (th_query th)])"

definition worker_inv :: "'q multiset \<Rightarrow> 'q thread_t \<Rightarrow> bool" where
  "worker_inv D th \<longleftrightarrow> th_empty_slots th + int (length (buffered (th_buffer th))) = int (length (th_buffer th)) \<and>
     th_q_idx th \<le> length (th_queries th) \<and>
     mset (take (th_q_idx th) (th_queries th)) =
       mset (th_done th) + mset (buffered (th_buffer th)) + mset (retried th) + D \<and>
     (th_buffer_enable th \<or> buffered (th_buffer th) = [] \<and> (th_rc th = RCOK \<or> th_query th \<noteq> None))"

lemma fetch_turn_sleep: "fetch_turn now th = Some (None, th') \<Longrightarrow> th' = th"
  by (auto simp: fetch_turn_def split: option.splits if_splits)

lemma fetch_SomeD: "fetch nows th = Some (q, th') \<Longrightarrow> \<exists>now. fetch_turn now th = Some (Some q, th')"
proof (induction nows)
  case (Cons now nows)
  show ?case
  proof (cases "fetch_turn now th")
    case (Some r)
    obtain qo th2 where r: "r = (qo, th2)" by (cases r)
    show ?thesis
    proof (cases qo)
      case None
      then have "th2 = th" using Some r fetch_turn_sleep by simp
      then show ?thesis using Cons Some r None by simp
    next
      case q: (Some x)
      then show ?thesis using Cons.prems Some r by auto
    qed
  qed (use Cons in simp)
qed simp

lemma next_query_inv:
  assumes inv: "worker_inv D th" and nq: "next_query nows th = Some th1"
  shows "\<exists>q. th_query th1 = Some q \<and> th_buffer_enable th1 = th_buffer_enable th \<and> th_queries th1 = th_queries th \<and>
     th_done th1 = th_done th \<and> length (th_buffer th1) = length (th_buffer th) \<and>
     th_empty_slots th1 + int (length (buffered (th_buffer th1))) = int (length (th_buffer th)) \<and>
     (th_buffer_enable th \<longrightarrow> 0 < th_empty_slots th1) \<and> (th_buffer_enable th \<or> buffered (th_buffer th1) = []) \<and>
     th_q_idx th1 \<le> length (th_queries th) \<and>
     mset (take (th_q_idx th1) (th_queries th)) = mset (th_done th) + mset (buffered (th_buffer th1)) + {#q#} + D"
proof (cases "th_buffer_enable th")
  case True
  then obtain q th' where f: "fetch nows th = Some (q, th')" and th1: "th1 = th'\<lparr>th_query := Some q\<rparr>"
    using nq by (auto simp: next_query_def)
  from fetch_SomeD [OF f] obtain now where t: "fetch_turn now th = Some (Some q, th')" by blast
  show ?thesis
  proof (cases "if th_empty_slots th < int (length (th_buffer th)) then take_ready now (th_buffer th) else None")
    case (Some x)
    then obtain es where x: "take_ready now (th_buffer th) = Some (q, es)"
      "th' = th\<lparr>th_buffer := es, th_empty_slots := th_empty_slots th + 1\<rparr>"
      using t by (cases x) (auto simp: fetch_turn_def split: if_splits)
    from take_ready_Some [OF x(1)] buffered_length [of "th_buffer th"] inv True x(2) th1 show ?thesis
      by (simp add: worker_inv_def retried_def)
  next
    case None
    then have "get_next_query th = Some (q, th')" "th_empty_slots th \<noteq> 0"
      using t by (auto simp: fetch_turn_def split: if_splits)
    then have x: "th_q_idx th < length (th_queries th)" "q = th_queries th ! th_q_idx th" "th' = th\<lparr>th_q_idx := th_q_idx th + 1\<rparr>"
      by (auto simp: get_next_query_def split: if_splits)
    have "0 < th_empty_slots th"
      using inv \<open>th_empty_slots th \<noteq> 0\<close> buffered_length [of "th_buffer th"] by (simp add: worker_inv_def)
    then show ?thesis using inv True x th1 by (simp add: worker_inv_def retried_def take_Suc_conv_app_nth)
  qed
next
  case False
  show ?thesis
  proof (cases "th_rc th = RCOK")
    case True
    then show ?thesis using inv nq False
      by (auto simp: next_query_def get_next_query_def worker_inv_def retried_def take_Suc_conv_app_nth split: if_splits)
  next
    case rc: False
    then show ?thesis using inv nq False by (auto simp: next_query_def worker_inv_def retried_def)
  qed
qed

lemma run_turn_inv:
  assumes inv: "worker_inv D th" and run: "run_turn (nows, rc, now, penalty) th = Some th'" and rc: "rc \<in> {RCOK, Abort}"
  shows "worker_inv D th'"
proof -
  obtain th1 where n: "next_query nows th = Some th1"
    and a: "after_txn rc now penalty (th1\<lparr>th_txn_id := th_txn_id th1 + 1\<rparr>) = Some th'"
    using run by (auto simp: run_turn_def bind_eq_Some_conv)
  from next_query_inv [OF inv n] obtain q where q: "th_query th1 = Some q" "th_buffer_enable th1 = th_buffer_enable th"
      "th_queries th1 = th_queries th" "th_done th1 = th_done th" "length (th_buffer th1) = length (th_buffer th)"
      "th_empty_slots th1 + int (length (buffered (th_buffer th1))) = int (length (th_buffer th))"
      "th_buffer_enable th \<longrightarrow> 0 < th_empty_slots th1" "th_buffer_enable th \<or> buffered (th_buffer th1) = []" "th_q_idx th1 \<le> length (th_queries th)"
      "mset (take (th_q_idx th1) (th_queries th)) = mset (th_done th) + mset (buffered (th_buffer th1)) + {#q#} + D"
    by blast
  show ?thesis
  proof (cases "rc = Abort \<and> th_buffer_enable th")
    case True
    then have "length (buffered (th_buffer th1)) < length (th_buffer th1)" using q by linarith
    from put_aborted_ok [OF this, of q "now + penalty"]
    show ?thesis using a True q by (auto simp: after_txn_def Let_def worker_inv_def retried_def)
  next
    case False
    then show ?thesis using a q rc by (auto simp: after_txn_def Let_def worker_inv_def retried_def)
  qed
qed

lemma run_turn_frame:
  assumes "worker_inv D th" and "run_turn (nows, rc, now, penalty) th = Some th'"
  shows "th_queries th' = th_queries th" "th_buffer_enable th' = th_buffer_enable th" "length (th_buffer th') = length (th_buffer th)"
proof -
  obtain th1 where n: "next_query nows th = Some th1"
    and a: "after_txn rc now penalty (th1\<lparr>th_txn_id := th_txn_id th1 + 1\<rparr>) = Some th'"
    using assms(2) by (auto simp: run_turn_def bind_eq_Some_conv)
  have len: "length (put_aborted q r es) = length es" for q r and es :: "'a AbortBufferEntry list" by (induction es) auto
  show "th_queries th' = th_queries th" "th_buffer_enable th' = th_buffer_enable th" "length (th_buffer th') = length (th_buffer th)"
    using next_query_inv [OF assms(1) n] a len
    by (auto simp: after_txn_def Let_def split: if_splits option.splits)
qed

lemma work_run_inv:
  assumes "worker_inv D th" and "work_run ws th = Some th'" and "\<forall>nows rc now p. Turn nows rc now p \<in> set ws \<longrightarrow> rc \<in> {RCOK, Abort}"
  shows "\<exists>D'. worker_inv (D + D') th' \<and> size D' \<le> length (filter (\<lambda>w. w = Start) ws) \<and> (th_buffer_enable th \<longrightarrow> D' = {#}) \<and>
    th_queries th' = th_queries th \<and> th_buffer_enable th' = th_buffer_enable th \<and> length (th_buffer th') = length (th_buffer th)"
  using assms
proof (induction ws arbitrary: D th)
  case Nil
  then show ?case by (auto intro!: exI [of _ "{#}"])
next
  case (Cons w ws)
  then obtain th1 where s1: "work_step w th = Some th1" and r: "work_run ws th1 = Some th'" by (auto simp: bind_eq_Some_conv)
  have ok: "\<forall>nows rc now p. Turn nows rc now p \<in> set ws \<longrightarrow> rc \<in> {RCOK, Abort}" using Cons.prems(3) by simp
  show ?case
  proof (cases w)
    case Start
    let ?E = "mset (retried th)"
    have "worker_inv (D + ?E) th1" using Cons.prems(1) s1 Start by (auto simp: worker_inv_def run_start_def retried_def)
    from Cons.IH [OF this r ok] obtain D' where
      D': "worker_inv (D + ?E + D') th'" "size D' \<le> length (filter (\<lambda>w. w = Start) ws)" "th_buffer_enable th1 \<longrightarrow> D' = {#}"
        "th_queries th' = th_queries th1" "th_buffer_enable th' = th_buffer_enable th1" "length (th_buffer th') = length (th_buffer th1)" by blast
    have "size (?E + D') \<le> length (filter (\<lambda>w. w = Start) (w # ws))" using D'(2) Start by (simp add: retried_def)
    then show ?thesis using D' s1 Start by (intro exI [of _ "?E + D'"]) (auto simp: run_start_def retried_def add.assoc)
  next
    case (Turn nows rc now p)
    then have t: "run_turn (nows, rc, now, p) th = Some th1" "rc \<in> {RCOK, Abort}" using s1 Cons.prems(3) by auto
    from Cons.IH [OF run_turn_inv [OF Cons.prems(1) t] r ok] run_turn_frame [OF Cons.prems(1) t(1)] Turn
    show ?thesis by auto
  qed
qed

lemma buffered_replicate [simp]: "buffered (replicate n \<lparr>ab_query = None, ab_ready_time = t\<rparr>) = []"
  by (induction n) auto

lemma thread_init_inv: "worker_inv {#} (thread_init n enable qs)"
  by (simp add: worker_inv_def thread_init_def retried_def)

text \<open>
  C40. No query is lost or executed twice.  After any number of turns of a thread, with any outcomes of its
  transactions and over any number of runs, the queries taken from its array are, with multiplicity,
  those that committed, those in the abort buffer, the one a thread without buffer is about to retry, and,
  only without buffer, at most one per run that was given up when the run ended.
\<close>

theorem worker_conserves_queries:
  assumes "work_run ws (thread_init n enable qs) = Some th"
    and "\<forall>nows rc now p. Turn nows rc now p \<in> set ws \<longrightarrow> rc \<in> {RCOK, Abort}"
  shows "\<exists>D. mset (take (th_q_idx th) qs) = mset (th_done th) + mset (buffered (th_buffer th)) + mset (retried th) + D \<and>
    size D \<le> length (filter (\<lambda>w. w = Start) ws) \<and> (enable \<longrightarrow> D = {#})"
  using work_run_inv [OF thread_init_inv assms] by (auto simp: worker_inv_def thread_init_def)

lemma fetch_returns:
  assumes inv: "worker_inv D th" and buf: "th_buffer th \<noteq> []" and nows: "nows \<noteq> []"
    and late: "\<forall>e \<in> set (th_buffer th). ab_ready_time e < last nows"
    and arr: "th_empty_slots th \<noteq> 0 \<Longrightarrow> th_q_idx th < length (th_queries th)"
  shows "\<exists>r. fetch nows th = Some r"
  using nows late
proof (induction nows)
  case (Cons now nows)
  let ?tr = "if th_empty_slots th < int (length (th_buffer th)) then take_ready now (th_buffer th) else None"
  show ?case
  proof (cases "?tr = None \<and> th_empty_slots th = 0")
    case False
    then show ?thesis using arr by (cases ?tr) (auto simp: fetch_turn_def get_next_query_def)
  next
    case True
    then have full: "length (buffered (th_buffer th)) = length (th_buffer th)" using inv by (simp add: worker_inv_def)
    have none: "take_ready now (th_buffer th) = None" using True buf by (auto split: if_splits)
    have le: "\<forall>e \<in> set (th_buffer th). now \<le> ab_ready_time e" using take_ready_None [OF none] full_buffer [OF full] by blast
    then have t: "fetch_turn now th = Some (None, th)"
      using True min_ready_time_ge [OF le] none buf by (simp add: fetch_turn_def)
    obtain e where "e \<in> set (th_buffer th)" using buf by (cases "th_buffer th") auto
    then have "nows \<noteq> []" using le Cons.prems(2) by (auto simp: not_le [symmetric])
    then show ?thesis using Cons t by simp
  qed
qed simp

text \<open>
  A turn of a worker always gets its query and returns: no assertion on the abort buffer fails, the
  wait for a full buffer ends at the first clock reading past the ready times, and the query array, with
  the length \<open>Query_thd::init\<close> gives it, is not overrun as long as the thread has not committed more than the
  warm-up and the measurement ask for.
\<close>

theorem worker_turn_returns:
  assumes "work_run ws (thread_init n enable qs) = Some th"
    and "\<forall>nows rc now p. Turn nows rc now p \<in> set ws \<longrightarrow> rc \<in> {RCOK, Abort}"
    and "length (filter (\<lambda>w. w = Start) ws) \<le> 2" and "enable \<longrightarrow> 0 < n"
    and "length qs = request_cnt enable warmup threads max_txn n" and "length (th_done th) \<le> warmup div threads + max_txn + 1"
    and "nows \<noteq> []" and "\<forall>e \<in> set (th_buffer th). ab_ready_time e < last nows"
  shows "\<exists>th'. run_turn (nows, rc, now, penalty) th = Some th'"
proof -
  obtain D where inv: "worker_inv D th" and D: "size D \<le> 2" "enable \<longrightarrow> D = {#}" and qs: "th_queries th = qs"
    and en: "th_buffer_enable th = enable" and len: "length (th_buffer th) = n"
    using work_run_inv [OF thread_init_inv assms(1,2)] assms(3) by (auto simp: thread_init_def)
  have "size (mset (take (th_q_idx th) qs)) =
      size (mset (th_done th) + mset (buffered (th_buffer th)) + mset (retried th) + D)"
    using inv qs by (simp add: worker_inv_def)
  then have idx: "th_q_idx th = length (th_done th) + length (buffered (th_buffer th)) + length (retried th) + size D"
    using inv qs by (simp add: worker_inv_def)
  have slots: "th_empty_slots th + int (length (buffered (th_buffer th))) = int n" using inv len by (simp add: worker_inv_def)
  have "\<exists>th1. next_query nows th = Some th1"
  proof (cases enable)
    case True
    have "th_q_idx th < length (th_queries th)" if "th_empty_slots th \<noteq> 0"
      using that idx D True slots assms(5,6) qs en buffered_length [of "th_buffer th"] len
      by (simp add: request_cnt_def retried_def)
    then show ?thesis using fetch_returns [OF inv _ assms(7,8)] True en len assms(4) by (force simp: next_query_def)
  next
    case False
    have "th_q_idx th < length (th_queries th)" if "th_rc th = RCOK"
    proof -
      have "buffered (th_buffer th) = []" using inv False en by (simp add: worker_inv_def)
      then show ?thesis using that idx D False assms(5,6) qs en by (simp add: request_cnt_def retried_def)
    qed
    then show ?thesis using False en by (auto simp: next_query_def get_next_query_def)
  qed
  then obtain th1 where n: "next_query nows th = Some th1" by blast
  from next_query_inv [OF inv n] n show ?thesis
    by (cases "th_query th1") (auto simp: run_turn_def after_txn_def Let_def assert_then_def)
qed

text \<open>The commit count passes its bound by no turn: the assertion at the end of the measurement holds.\<close>

lemma run_exit_ok:
  assumes "th_txn_cnt th < max_txn" and "run_turn (nows, rc, now, penalty) th = Some th'"
  shows "run_exit warmup threads max_txn warmup_finish sim_done th' \<noteq> None"
proof -
  obtain th1 where n: "next_query nows th = Some th1"
    and a: "after_txn rc now penalty (th1\<lparr>th_txn_id := th_txn_id th1 + 1\<rparr>) = Some th'"
    using assms(2) by (auto simp: run_turn_def bind_eq_Some_conv)
  have f: "th_txn_cnt x = th_txn_cnt th" if "fetch ns th = Some (q, x)" for ns q x
    using fetch_SomeD [OF that] by (auto simp: fetch_turn_def get_next_query_def split: option.splits if_splits)
  have "th_txn_cnt th1 = th_txn_cnt th"
    using n f by (auto simp: next_query_def get_next_query_def split: if_splits)
  then have "th_txn_cnt th' \<le> max_txn"
    using a assms(1) by (auto simp: after_txn_def Let_def split: if_splits option.splits)
  then show ?thesis by (auto simp: run_exit_def assert_then_def)
qed

definition demo_work :: "work list" where
  "demo_work = [Start, Turn [1] Abort 2 10, Turn [3, 13] RCOK 14 0, Turn [15] Abort 16 10]"

definition demo_queries :: "nat list" where
  "demo_queries = [10, 11, 12, 13, 14, 15, 16]"

lemma demo_work_runs:
  "\<exists>th. work_run demo_work (thread_init 1 True demo_queries) = Some th \<and> th_done th = [10] \<and> th_q_idx th = 2 \<and>
     th_buffer th = [\<lparr>ab_query = Some 11, ab_ready_time = 26\<rparr>] \<and> retried th = []"
  by (simp add: demo_work_def demo_queries_def thread_init_def run_start_def run_turn_def next_query_def fetch_turn_def
      get_next_query_def after_txn_def Let_def min_ready_time_def UINT64_MAX_def retried_def)

theorem worker_conserves_queries_witness:
  "\<exists>th D. work_run demo_work (thread_init 1 True demo_queries) = Some th \<and> th_done th = [10] \<and>
     mset (take (th_q_idx th) demo_queries) = mset (th_done th) + mset (buffered (th_buffer th)) + mset (retried th) + D"
proof -
  obtain th where th: "work_run demo_work (thread_init 1 True demo_queries) = Some th" "th_done th = [10]" using demo_work_runs by blast
  have "\<forall>nows rc now p. Turn nows rc now p \<in> set demo_work \<longrightarrow> rc \<in> {RCOK, Abort}" by (auto simp: demo_work_def)
  from worker_conserves_queries [OF th(1) this] th show ?thesis by blast
qed

theorem worker_turn_returns_witness:
  "\<exists>th th'. work_run demo_work (thread_init 1 True demo_queries) = Some th \<and> run_turn ([20, 27], RCOK, 28, 0) th = Some th'"
proof -
  obtain th where th: "work_run demo_work (thread_init 1 True demo_queries) = Some th" "th_done th = [10]"
    "th_buffer th = [\<lparr>ab_query = Some 11, ab_ready_time = 26\<rparr>]" using demo_work_runs by blast
  have ok: "\<forall>nows rc now p. Turn nows rc now p \<in> set demo_work \<longrightarrow> rc \<in> {RCOK, Abort}"
    "length (filter (\<lambda>w. w = Start) demo_work) \<le> 2" by (auto simp: demo_work_def)
  have "\<exists>th'. run_turn ([20, 27], RCOK, 28, 0) th = Some th'"
    by (rule worker_turn_returns [OF th(1) ok, of 0 1 2])
       (simp_all add: th demo_queries_def request_cnt_def)
  then show ?thesis using th(1) by blast
qed

end
