(* ===== verification/TPCC_Query.thy ===== *)
theory TPCC_Query
  imports DBx_Prelude "HOL-Library.Monad_Syntax"
begin

text \<open>
  The keys, the random values and the query generator of the TPC-C benchmark:
  benchmarks/tpcc/tpcc_helper.h, tpcc_query.h and tpcc_query.cpp.

  All integers are \<open>uint64_t\<close> and 64-bit words here, except the two percentages, which are
  \<open>UInt32\<close> as in the source.  \<open>lrand48_r\<close> belongs to the C library: the values it will return are the
  field \<open>draws\<close> of the generator's state, of which \<open>drawn\<close> have been used, and nothing is assumed of
  them unless a theorem says so.  A generator returns an option; \<open>None\<close> is a failed assertion, a
  remainder by zero, or a rejection loop that used up its fuel.  The comparisons of \<open>double\<close>s by which
  \<open>init\<close> picks the transaction type are not modelled: each \<open>gen_\<close> function is.
\<close>

section \<open>Configuration and queries\<close>

record tpcc_cfg =
  num_wh :: "64 word"
  part_cnt :: "64 word"
  cust_per_dist :: "64 word"
  max_items :: "64 word"
  perc_remote_payment :: UInt32
  perc_remote_neworder :: UInt32
  first_part_local :: bool
  enforce_numa_distance :: bool
  enforce_numa_distance_remote_only :: bool
  numa_distance :: "64 word"
  numa_dist_matrix :: "64 word \<Rightarrow> 64 word \<Rightarrow> 64 word"
  threads_per_socket :: "64 word"
  omp_num_threads :: "64 word"
  this_node :: "64 word"

definition DIST_PER_WARE :: "64 word" where
  "DIST_PER_WARE = 10"

datatype TPCCTxnType = TPCC_ALL | TPCC_PAYMENT | TPCC_NEW_ORDER | TPCC_ORDER_STATUS
  | TPCC_DELIVERY | TPCC_STOCK_LEVEL

record Item_no =
  ol_i_id :: "64 word"
  ol_supply_w_id :: "64 word"
  ol_quantity :: "64 word"

text \<open>
  \<open>tpcc_query\<close> with the fields of \<open>base_query\<close>: \<open>part_num\<close> is the length of \<open>part_to_access\<close>.  The
  amount of a payment is drawn as an integer and kept as one: its conversion to \<open>double\<close> is exact.
\<close>

record tpcc_query =
  qtype :: TPCCTxnType
  part_to_access :: "64 word list"
  w_id :: "64 word"
  d_id :: "64 word"
  c_id :: "64 word"
  d_w_id :: "64 word"
  c_w_id :: "64 word"
  c_d_id :: "64 word"
  c_last :: string
  h_amount :: "64 word"
  by_last_name :: bool
  items :: "Item_no list"
  rbk :: bool
  remote :: bool
  ol_cnt :: nat
  o_entry_d :: "64 word"
  o_carrier_id :: "64 word"
  ol_delivery_d :: "64 word"
  threshold :: "64 word"

section \<open>Keys and partitions\<close>

definition distKey :: "64 word \<Rightarrow> 64 word \<Rightarrow> 64 word" where
  "distKey d w = w * DIST_PER_WARE + d"

definition custKey :: "tpcc_cfg \<Rightarrow> 64 word \<Rightarrow> 64 word \<Rightarrow> 64 word \<Rightarrow> 64 word" where
  "custKey cfg c d w = distKey d w * cust_per_dist cfg + c"

definition orderlineKey :: "tpcc_cfg \<Rightarrow> 64 word \<Rightarrow> 64 word \<Rightarrow> 64 word \<Rightarrow> 64 word" where
  "orderlineKey cfg w d oid = distKey d w * cust_per_dist cfg + oid"

definition orderPrimaryKey :: "tpcc_cfg \<Rightarrow> 64 word \<Rightarrow> 64 word \<Rightarrow> 64 word \<Rightarrow> 64 word" where
  "orderPrimaryKey cfg w d oid = orderlineKey cfg w d oid"

definition orderCustKey :: "tpcc_cfg \<Rightarrow> 64 word \<Rightarrow> 64 word \<Rightarrow> 64 word" where
  "orderCustKey cfg d c = d * cust_per_dist cfg + c"

definition stockKey :: "tpcc_cfg \<Rightarrow> 64 word \<Rightarrow> 64 word \<Rightarrow> 64 word" where
  "stockKey cfg i w = w * max_items cfg + i"

text \<open>\<open>char\<close> is signed; \<open>c_last[i] - offset\<close> is an \<open>int\<close> that is converted to \<open>uint64_t\<close>.\<close>

definition char_int :: "char \<Rightarrow> int" where
  "char_int c = (let n = of_char c :: int in if n < 128 then n else n - 256)"

primrec custNP_loop :: "string \<Rightarrow> 64 word \<Rightarrow> 64 word" where
  "custNP_loop [] key = key"
| "custNP_loop (c # cs) key = custNP_loop cs (push_bit 2 key + word_of_int (char_int c - 65))"

definition custNPKey :: "string \<Rightarrow> 64 word \<Rightarrow> 64 word \<Rightarrow> 64 word" where
  "custNPKey name d w = push_bit 3 (custNP_loop name 0) + (w * DIST_PER_WARE + d)"

definition syllables :: "string list" where
  "syllables = [''BAR'', ''OUGHT'', ''ABLE'', ''PRI'', ''PRES'', ''ESE'', ''ANTI'', ''CALLY'', ''ATION'', ''EING'']"

text \<open>The array is read past its end for a number of a thousand or more.\<close>

definition Lastname :: "64 word \<Rightarrow> string option" where
  "Lastname num = assert_then (num div 100 < 10)
     (Some (syllables ! unat (num div 100) @ syllables ! unat (num div 10 mod 10) @ syllables ! unat (num mod 10)))"

definition wh_to_part :: "tpcc_cfg \<Rightarrow> 64 word \<Rightarrow> 64 word option" where
  "wh_to_part cfg wid =
     assert_then (part_cnt cfg \<le> num_wh cfg) (assert_then (part_cnt cfg \<noteq> 0) (Some (wid mod part_cnt cfg)))"

definition d_to_part :: "64 word \<Rightarrow> 64 word \<Rightarrow> 64 word" where
  "d_to_part w d = (w - 1) * DIST_PER_WARE + (d - 1)"

section \<open>Random values\<close>

text \<open>The state: the results of \<open>lrand48_r\<close> and the static constants of \<open>NURand\<close>.\<close>

record gen_st =
  draws :: "nat \<Rightarrow> 64 word"
  drawn :: nat
  C_255 :: "64 word option"
  C_1023 :: "64 word option"
  C_8191 :: "64 word option"

type_synonym 'a gen = "('a \<times> gen_st) option"

definition RAND :: "64 word \<Rightarrow> gen_st \<Rightarrow> 64 word gen" where
  "RAND mx s = assert_then (mx \<noteq> 0) (Some (draws s (drawn s) mod mx, s\<lparr>drawn := Suc (drawn s)\<rparr>))"

definition URand :: "64 word \<Rightarrow> 64 word \<Rightarrow> gen_st \<Rightarrow> 64 word gen" where
  "URand x y s = do { (r, s) \<leftarrow> RAND (y - x + 1) s; Some (x + r, s) }"

definition static_C :: "64 word \<Rightarrow> gen_st \<Rightarrow> 64 word gen" where
  "static_C A s =
     (if A = 255 then (case C_255 s of Some c \<Rightarrow> Some (c, s)
        | None \<Rightarrow> do { (c, s) \<leftarrow> URand 0 255 s; Some (c, s\<lparr>C_255 := Some c\<rparr>) })
      else if A = 1023 then (case C_1023 s of Some c \<Rightarrow> Some (c, s)
        | None \<Rightarrow> do { (c, s) \<leftarrow> URand 0 1023 s; Some (c, s\<lparr>C_1023 := Some c\<rparr>) })
      else if A = 8191 then (case C_8191 s of Some c \<Rightarrow> Some (c, s)
        | None \<Rightarrow> do { (c, s) \<leftarrow> URand 0 8191 s; Some (c, s\<lparr>C_8191 := Some c\<rparr>) })
      else None)"

text \<open>The two draws are operands of one \<open>|\<close>; here the left one comes first.\<close>

definition NURand :: "64 word \<Rightarrow> 64 word \<Rightarrow> 64 word \<Rightarrow> gen_st \<Rightarrow> 64 word gen" where
  "NURand A x y s = do {
     (C, s) \<leftarrow> static_C A s;
     (a, s) \<leftarrow> URand 0 A s;
     (b, s) \<leftarrow> URand x y s;
     assert_then (y - x + 1 \<noteq> 0) (Some (((a OR b) + C) mod (y - x + 1) + x, s)) }"

section \<open>Warehouses of a socket\<close>

definition wh_of_socket :: "tpcc_cfg \<Rightarrow> 64 word \<Rightarrow> (64 word \<times> 64 word) option" where
  "wh_of_socket cfg socket =
     assert_then (threads_per_socket cfg \<noteq> 0 \<and> omp_num_threads cfg \<noteq> 0)
       (let per = num_wh cfg div omp_num_threads cfg;
            rest = num_wh cfg - per * omp_num_threads cfg;
            tb = socket * threads_per_socket cfg;
            te = (socket + 1) * threads_per_socket cfg;
            b = 1 + per * tb + min tb rest;
            e = per * te + min te rest
        in assert_then (b \<le> num_wh cfg) (assert_then (e \<le> num_wh cfg) (Some (b, e))))"

definition wh_numa_dist :: "tpcc_cfg \<Rightarrow> 64 word \<Rightarrow> (64 word \<times> 64 word) option" where
  "wh_numa_dist cfg dist =
     wh_of_socket cfg (if dist = 0 then this_node cfg else numa_dist_matrix cfg (this_node cfg) dist)"

definition wh_enforce_numa_dist :: "tpcc_cfg \<Rightarrow> 64 word \<Rightarrow> 64 word option" where
  "wh_enforce_numa_dist cfg wh =
     (if enforce_numa_distance cfg
      then do { (b, e) \<leftarrow> wh_numa_dist cfg (numa_distance cfg);
                assert_then (e - b + 1 \<noteq> 0) (Some (b + (wh - 1) mod (e - b + 1))) }
      else Some wh)"

section \<open>The generators\<close>

text \<open>The warehouse of the query, with which every generator begins.\<close>

definition home_wh :: "tpcc_cfg \<Rightarrow> 64 word \<Rightarrow> gen_st \<Rightarrow> 64 word gen" where
  "home_wh cfg thd s =
     (if first_part_local cfg then assert_then (num_wh cfg \<noteq> 0) (Some (thd mod num_wh cfg + 1, s))
      else URand 1 (num_wh cfg) s)"

definition local_home_wh :: "tpcc_cfg \<Rightarrow> 64 word \<Rightarrow> gen_st \<Rightarrow> 64 word gen" where
  "local_home_wh cfg thd s = do {
     (w, s) \<leftarrow> home_wh cfg thd s;
     w \<leftarrow> (if enforce_numa_distance_remote_only cfg then Some w else wh_enforce_numa_dist cfg w);
     Some (w, s) }"

text \<open>The rejection loop that draws a warehouse other than \<open>w\<close>.\<close>

fun draw_other :: "tpcc_cfg \<Rightarrow> nat \<Rightarrow> 64 word \<Rightarrow> gen_st \<Rightarrow> 64 word gen" where
  "draw_other cfg 0 w s = None"
| "draw_other cfg (Suc n) w s = do {
     (x, s) \<leftarrow> URand 1 (num_wh cfg) s;
     x \<leftarrow> wh_enforce_numa_dist cfg x;
     if x = w then draw_other cfg n w s else Some (x, s) }"

text \<open>The choice of the customer, by last name or by id.\<close>

definition gen_customer :: "tpcc_cfg \<Rightarrow> 64 word \<Rightarrow> tpcc_query \<Rightarrow> gen_st \<Rightarrow> tpcc_query gen" where
  "gen_customer cfg y q s =
     (if y \<le> 60
      then do { (n, s) \<leftarrow> NURand 255 0 999 s; l \<leftarrow> Lastname n;
                Some (q\<lparr>by_last_name := True, c_last := l\<rparr>, s) }
      else do { (c, s) \<leftarrow> NURand 1023 1 (cust_per_dist cfg) s;
                Some (q\<lparr>by_last_name := False, c_id := c\<rparr>, s) })"

text \<open>The customer's district and warehouse, and the partitions of the payment.\<close>

definition payment_district :: "tpcc_cfg \<Rightarrow> nat \<Rightarrow> 64 word \<Rightarrow> 64 word \<Rightarrow> 64 word \<Rightarrow> 64 word \<Rightarrow> gen_st
    \<Rightarrow> (64 word \<times> 64 word \<times> 64 word list) gen" where
  "payment_district cfg n w p d x s =
     (if (ucast x :: UInt32) \<le> 100 - perc_remote_payment cfg then Some ((d, w, [p]), s)
      else do {
        (cd, s) \<leftarrow> URand 1 DIST_PER_WARE s;
        if 1 < num_wh cfg
        then do {
          (cw, s) \<leftarrow> draw_other cfg n w s;
          p' \<leftarrow> wh_to_part cfg cw;
          Some ((cd, cw, if p \<noteq> p' then [p, p'] else [p]), s) }
        else Some ((cd, w, [p]), s) })"

definition gen_payment :: "tpcc_cfg \<Rightarrow> nat \<Rightarrow> 64 word \<Rightarrow> tpcc_query \<Rightarrow> gen_st \<Rightarrow> tpcc_query gen" where
  "gen_payment cfg n thd q s = do {
     (w, s) \<leftarrow> local_home_wh cfg thd s;
     p \<leftarrow> wh_to_part cfg w;
     (d, s) \<leftarrow> URand 1 DIST_PER_WARE s;
     (h, s) \<leftarrow> URand 1 5000 s;
     (x, s) \<leftarrow> URand 1 100 s;
     (y, s) \<leftarrow> URand 1 100 s;
     (c, s) \<leftarrow> payment_district cfg n w p d x s;
     gen_customer cfg y (q\<lparr>qtype := TPCC_PAYMENT, w_id := w, d_w_id := w, d_id := d, h_amount := h,
        c_d_id := fst c, c_w_id := fst (snd c), part_to_access := snd (snd c)\<rparr>) s }"

text \<open>The supplying warehouse of an order line, one line, and all of them before duplicates are removed.\<close>

definition supply_wh :: "tpcc_cfg \<Rightarrow> nat \<Rightarrow> 64 word \<Rightarrow> 64 word \<Rightarrow> bool \<Rightarrow> gen_st \<Rightarrow> (64 word \<times> bool) gen" where
  "supply_wh cfg n w x rem s =
     (if perc_remote_neworder cfg < (ucast x :: UInt32) \<or> num_wh cfg = 1 then Some ((w, rem), s)
      else do { (sw, s) \<leftarrow> draw_other cfg n w s; Some ((sw, True), s) })"

definition gen_line :: "tpcc_cfg \<Rightarrow> nat \<Rightarrow> 64 word \<Rightarrow> bool \<Rightarrow> gen_st \<Rightarrow> (Item_no \<times> bool) gen" where
  "gen_line cfg n w rem s = do {
     (i, s) \<leftarrow> NURand 8191 1 (max_items cfg) s;
     (x, s) \<leftarrow> URand 1 100 s;
     (sr, s) \<leftarrow> supply_wh cfg n w x rem s;
     (qty, s) \<leftarrow> URand 1 10 s;
     Some ((\<lparr>ol_i_id = i, ol_supply_w_id = fst sr, ol_quantity = qty\<rparr>, snd sr), s) }"

fun gen_items :: "tpcc_cfg \<Rightarrow> nat \<Rightarrow> 64 word \<Rightarrow> nat \<Rightarrow> Item_no list \<Rightarrow> bool \<Rightarrow> gen_st \<Rightarrow> (Item_no list \<times> bool) gen" where
  "gen_items cfg n w 0 its rem s = Some ((its, rem), s)"
| "gen_items cfg n w (Suc k) its rem s = do {
     (l, s) \<leftarrow> gen_line cfg n w rem s;
     gen_items cfg n w k (its @ [fst l]) (snd l) s }"

text \<open>
  The removal of duplicate items works in place: the array keeps its length and \<open>cnt\<close> is the number
  of its elements that count.  \<open>shift_down\<close> is the loop on \<open>k\<close>, \<open>dedup_inner\<close> the one on \<open>j\<close>, which
  goes on with the decremented \<open>i\<close> after a removal, and \<open>dedup_outer\<close> the one on \<open>i\<close>.
\<close>

function shift_down :: "'a list \<Rightarrow> nat \<Rightarrow> nat \<Rightarrow> 'a list" where
  "shift_down xs k cnt = (if k < cnt - 1 then shift_down (xs[k := xs ! (k + 1)]) (k + 1) cnt else xs)"
  by pat_completeness auto
termination by (relation "measure (\<lambda>(xs, k, cnt). cnt - k)") auto

declare shift_down.simps [simp del]

function dedup_inner :: "Item_no list \<Rightarrow> nat \<Rightarrow> nat \<Rightarrow> nat \<Rightarrow> Item_no list \<times> nat \<times> nat" where
  "dedup_inner xs cnt i j =
     (if j < i
      then if ol_i_id (xs ! i) = ol_i_id (xs ! j)
           then dedup_inner (shift_down xs i cnt) (cnt - 1) (i - 1) (j + 1)
           else dedup_inner xs cnt i (j + 1)
      else (xs, cnt, i))"
  by pat_completeness auto
termination by (relation "measure (\<lambda>(xs, cnt, i, j). i - j)") auto

declare dedup_inner.simps [simp del]

lemma dedup_inner_gap:
  "dedup_inner xs cnt i j = (xs', cnt', i') \<Longrightarrow> i < cnt \<Longrightarrow> i' < cnt' \<and> cnt' - i' = cnt - i"
proof (induction xs cnt i j rule: dedup_inner.induct)
  case (1 xs cnt i j)
  show ?case
  proof (cases "j < i \<and> ol_i_id (xs ! i) = ol_i_id (xs ! j)")
    case True
    then have "i - 1 < cnt - 1" using 1(4) by linarith
    with True show ?thesis using 1 by (simp add: dedup_inner.simps [of xs cnt i j])
  next
    case False
    then show ?thesis using 1 by (auto simp: dedup_inner.simps [of xs cnt i j] split: if_splits)
  qed
qed

function dedup_outer :: "Item_no list \<Rightarrow> nat \<Rightarrow> nat \<Rightarrow> Item_no list \<times> nat" where
  "dedup_outer xs cnt i =
     (if i < cnt
      then case dedup_inner xs cnt i 0 of (xs', cnt', i') \<Rightarrow> dedup_outer xs' cnt' (i' + 1)
      else (xs, cnt))"
  by pat_completeness auto
termination by (relation "measure (\<lambda>(xs, cnt, i). cnt - i)") (auto dest!: dedup_inner_gap [OF sym])

declare dedup_outer.simps [simp del]

text \<open>The partitions the order touches, each listed once.\<close>

primrec add_parts :: "tpcc_cfg \<Rightarrow> Item_no list \<Rightarrow> 64 word list \<Rightarrow> 64 word list option" where
  "add_parts cfg [] ps = Some ps"
| "add_parts cfg (it # its) ps = do {
     p \<leftarrow> wh_to_part cfg (ol_supply_w_id it);
     add_parts cfg its (if p \<in> set ps then ps else ps @ [p]) }"

text \<open>The lines without duplicates, the assertion on them, and the partitions.\<close>

definition distinct_lines :: "tpcc_cfg \<Rightarrow> 64 word \<Rightarrow> Item_no list \<Rightarrow> nat
    \<Rightarrow> ((Item_no list \<times> nat) \<times> 64 word list) option" where
  "distinct_lines cfg p its k =
     (let (its', cnt) = dedup_outer its k 0
      in assert_then (distinct (map ol_i_id (take cnt its')))
           (do { ps \<leftarrow> add_parts cfg (take cnt its') [p]; Some ((its', cnt), ps) }))"

definition gen_new_order :: "tpcc_cfg \<Rightarrow> nat \<Rightarrow> 64 word \<Rightarrow> tpcc_query \<Rightarrow> gen_st \<Rightarrow> tpcc_query gen" where
  "gen_new_order cfg n thd q s = do {
     (w, s) \<leftarrow> local_home_wh cfg thd s;
     (d, s) \<leftarrow> URand 1 DIST_PER_WARE s;
     (c, s) \<leftarrow> NURand 1023 1 (cust_per_dist cfg) s;
     (r, s) \<leftarrow> URand 1 100 s;
     (k, s) \<leftarrow> URand 5 15 s;
     p \<leftarrow> wh_to_part cfg w;
     (l, s) \<leftarrow> gen_items cfg n w (unat k) [] False s;
     (u, ps) \<leftarrow> distinct_lines cfg p (fst l) (unat k);
     Some (q\<lparr>qtype := TPCC_NEW_ORDER, w_id := w, d_id := d, c_id := c, rbk := (r \<noteq> 0), ol_cnt := snd u,
       o_entry_d := 2013, items := fst u, remote := snd l, part_to_access := ps\<rparr>, s) }"

definition gen_order_status :: "tpcc_cfg \<Rightarrow> 64 word \<Rightarrow> tpcc_query \<Rightarrow> gen_st \<Rightarrow> tpcc_query gen" where
  "gen_order_status cfg thd q s = do {
     (w, s) \<leftarrow> local_home_wh cfg thd s;
     p \<leftarrow> wh_to_part cfg w;
     (d, s) \<leftarrow> URand 1 DIST_PER_WARE s;
     (y, s) \<leftarrow> URand 1 100 s;
     gen_customer cfg y (q\<lparr>qtype := TPCC_ORDER_STATUS, w_id := w, part_to_access := [p], d_id := d,
        c_w_id := w, c_d_id := d\<rparr>) s }"

definition gen_delivery :: "tpcc_cfg \<Rightarrow> 64 word \<Rightarrow> tpcc_query \<Rightarrow> gen_st \<Rightarrow> tpcc_query gen" where
  "gen_delivery cfg thd q s = do {
     (w, s) \<leftarrow> home_wh cfg thd s;
     p \<leftarrow> wh_to_part cfg w;
     (c, s) \<leftarrow> URand 1 10 s;
     Some (q\<lparr>qtype := TPCC_DELIVERY, w_id := w, part_to_access := [p], o_carrier_id := c,
       ol_delivery_d := 2021\<rparr>, s) }"

definition gen_stock :: "tpcc_cfg \<Rightarrow> 64 word \<Rightarrow> tpcc_query \<Rightarrow> gen_st \<Rightarrow> tpcc_query gen" where
  "gen_stock cfg thd q s = do {
     (w, s) \<leftarrow> home_wh cfg thd s;
     p \<leftarrow> wh_to_part cfg w;
     (t, s) \<leftarrow> URand 10 20 s;
     Some (q\<lparr>qtype := TPCC_STOCK_LEVEL, w_id := w, part_to_access := [p],
       d_id := thd mod DIST_PER_WARE + 1, threshold := t\<rparr>, s) }"

section \<open>The removal of duplicates\<close>

text \<open>The specification: the first line of every item, in their order.\<close>

definition first_lines :: "Item_no list \<Rightarrow> Item_no list" where
  "first_lines xs = foldl (\<lambda>ys x. if ol_i_id x \<in> ol_i_id ` set ys then ys else ys @ [x]) [] xs"

lemma first_lines_snoc:
  "first_lines (xs @ [x]) =
     (if ol_i_id x \<in> ol_i_id ` set (first_lines xs) then first_lines xs else first_lines xs @ [x])"
  by (simp add: first_lines_def)

lemma first_lines_ids: "ol_i_id ` set (first_lines xs) = ol_i_id ` set xs"
  by (induction xs rule: rev_induct) (auto simp: first_lines_snoc, simp add: first_lines_def)

lemma first_lines_distinct: "distinct (map ol_i_id (first_lines xs))"
  by (induction xs rule: rev_induct) (simp add: first_lines_def, simp add: first_lines_snoc)

lemma first_lines_subset: "set (first_lines xs) \<subseteq> set xs"
  by (induction xs rule: rev_induct) (auto simp: first_lines_def)

lemma first_lines_id: "distinct (map ol_i_id xs) \<Longrightarrow> first_lines xs = xs"
  by (induction xs rule: rev_induct) (simp add: first_lines_def, simp add: first_lines_snoc)

lemma first_lines_drop:
  assumes "ol_i_id x \<in> ol_i_id ` set as"
  shows "first_lines (as @ x # bs) = first_lines (as @ bs)"
  using assms first_lines_ids [of as] by (simp add: first_lines_def)

lemma length_shift_down [simp]: "length (shift_down xs k cnt) = length xs"
  by (induction xs k cnt rule: shift_down.induct) (simp add: shift_down.simps)

lemma nth_shift_down:
  assumes "cnt \<le> length xs" and "m < length xs"
  shows "shift_down xs k cnt ! m = (if k \<le> m \<and> m < cnt - 1 then xs ! (m + 1) else xs ! m)"
  using assms
proof (induction xs k cnt rule: shift_down.induct)
  case (1 xs k cnt)
  show ?case
  proof (cases "k < cnt - 1")
    case True
    then show ?thesis using 1 by (subst shift_down.simps) (auto simp: nth_list_update)
  next
    case False
    then show ?thesis by (subst shift_down.simps) auto
  qed
qed

lemma shift_down_list:
  assumes "i < cnt" and "cnt \<le> length xs"
  shows "take i (shift_down xs i cnt) = take i xs"
    and "take (cnt - 1) (shift_down xs i cnt) = take i xs @ drop (i + 1) (take cnt xs)"
  using assms by (auto simp: nth_shift_down nth_append intro!: nth_equalityI)

lemma dedup_inner_keep:
  assumes "distinct (map ol_i_id (take (i + 1) xs))" and "i < length xs"
  shows "dedup_inner xs cnt i j = (xs, cnt, i)"
  using assms
proof (induction xs cnt i j rule: dedup_inner.induct)
  case (1 xs cnt i j)
  have "ol_i_id (xs ! i) \<noteq> ol_i_id (xs ! j)" if "j < i"
    using 1(3,4) that by (auto simp: distinct_conv_nth)
  then show ?case using 1 by (subst dedup_inner.simps) simp
qed

lemma dedup_inner_drop:
  assumes "distinct (map ol_i_id (take i xs))" and "i < cnt" and "cnt \<le> length xs"
    and "ol_i_id (xs ! i) = ol_i_id (xs ! j0)" and "j0 < i" and "j \<le> j0"
  shows "dedup_inner xs cnt i j = (shift_down xs i cnt, cnt - 1, i - 1)"
  using assms(6)
proof (induction rule: inc_induct)
  case base
  have "dedup_inner (shift_down xs i cnt) (cnt - 1) (i - 1) (j0 + 1) = (shift_down xs i cnt, cnt - 1, i - 1)"
    by (rule dedup_inner_keep) (use assms shift_down_list(1) [of i cnt xs] in auto)
  then show ?case using assms by (subst dedup_inner.simps) simp
next
  case (step j)
  have "ol_i_id (xs ! j) \<noteq> ol_i_id (xs ! j0)"
    using assms(1-3,5) step(2) by (auto simp: distinct_conv_nth)
  then show ?case using step assms by (subst dedup_inner.simps) simp
qed

lemma dedup_outer_first_lines:
  assumes "distinct (map ol_i_id (take i xs))" and "i \<le> cnt" and "cnt \<le> length xs"
    and "dedup_outer xs cnt i = (xs', cnt')"
  shows "take cnt' xs' = first_lines (take cnt xs) \<and> cnt' \<le> length xs'"
  using assms
proof (induction xs cnt i arbitrary: xs' cnt' rule: dedup_outer.induct)
  case (1 xs cnt i)
  show ?case
  proof (cases "i < cnt")
    case False
    then show ?thesis
      using 1(2-4) 1(5) [unfolded dedup_outer.simps [of xs cnt i]] by (auto simp: first_lines_id)
  next
    case lt: True
    have last: "take (i + 1) xs = take i xs @ [xs ! i]" using lt 1(4) by (simp add: take_Suc_conv_app_nth)
    show ?thesis
    proof (cases "ol_i_id (xs ! i) \<in> ol_i_id ` set (take i xs)")
      case False
      then have d: "distinct (map ol_i_id (take (i + 1) xs))" using 1(2) unfolding last by simp
      have "dedup_inner xs cnt i 0 = (xs, cnt, i)"
        by (rule dedup_inner_keep [OF d]) (use lt 1(4) in simp)
      with 1(1) [OF lt] 1(4,5) lt d show ?thesis by (simp add: dedup_outer.simps [of xs cnt i])
    next
      case True
      then obtain j0 where j0: "j0 < i" "ol_i_id (xs ! i) = ol_i_id (xs ! j0)"
        using lt 1(4) by (auto simp: in_set_conv_nth)
      let ?ys = "shift_down xs i cnt"
      have inner: "dedup_inner xs cnt i 0 = (?ys, cnt - 1, i - 1)"
        by (rule dedup_inner_drop) (use 1(2,4) lt j0 in auto)
      have i: "i - 1 + 1 = i" "i \<le> cnt - 1" using j0(1) lt by auto
      have "take cnt xs = take i xs @ xs ! i # drop (i + 1) (take cnt xs)"
        using lt 1(4) id_take_nth_drop [of i "take cnt xs"] by (simp add: min_def)
      then have same: "first_lines (take (cnt - 1) ?ys) = first_lines (take cnt xs)"
        using first_lines_drop [OF True] shift_down_list(2) [OF lt 1(4)] by metis
      have "take cnt' xs' = first_lines (take (cnt - 1) ?ys) \<and> cnt' \<le> length xs'"
        by (rule 1(1) [OF lt inner [symmetric] refl])
          (use i 1(2,4,5) lt inner shift_down_list(1) [OF lt 1(4)] in \<open>auto simp: dedup_outer.simps [of xs cnt i]\<close>)
      then show ?thesis unfolding same .
    qed
  qed
qed

section \<open>What the generators return\<close>

text \<open>\<open>gives m P\<close>: the generator step \<open>m\<close> returns, and its result and state satisfy \<open>P\<close>.\<close>

definition gives :: "('a \<times> 's) option \<Rightarrow> ('a \<Rightarrow> 's \<Rightarrow> bool) \<Rightarrow> bool" where
  "gives m P \<longleftrightarrow> (\<exists>x s. m = Some (x, s) \<and> P x s)"

lemma gives_Some [simp]: "gives (Some (x, s)) P \<longleftrightarrow> P x s"
  by (simp add: gives_def)

lemma gives_bind:
  "gives m P \<Longrightarrow> (\<And>x s. P x s \<Longrightarrow> gives (f x s) Q) \<Longrightarrow> gives (m \<bind> (\<lambda>(x, s). f x s)) Q"
  by (auto simp: gives_def)

lemma gives_mono: "gives m P \<Longrightarrow> (\<And>x s. P x s \<Longrightarrow> Q x s) \<Longrightarrow> gives m Q"
  by (auto simp: gives_def)

lemma word_in_range:
  assumes "(x :: 64 word) \<le> y" and "y - x + 1 \<noteq> 0" and "r < y - x + 1"
  shows "x \<le> x + r \<and> x + r \<le> y"
  using assms by unat_arith

text \<open>The state keeps the sequence of results that \<open>lrand48_r\<close> will give.\<close>

lemma RAND_gives: "mx \<noteq> 0 \<Longrightarrow> gives (RAND mx s) (\<lambda>r s'. r < mx \<and> draws s' = draws s)"
  by (simp add: RAND_def word_mod_less_divisor word_gt_0)

lemma URand_gives:
  assumes "x \<le> y" and "y - x + 1 \<noteq> 0"
  shows "gives (URand x y s) (\<lambda>r s'. x \<le> r \<and> r \<le> y \<and> draws s' = draws s)"
  unfolding URand_def by (rule gives_bind [OF RAND_gives]) (use assms word_in_range in auto)

lemma static_C_gives:
  "A \<in> {255, 1023, 8191} \<Longrightarrow> gives (static_C A s) (\<lambda>c s'. draws s' = draws s)"
  unfolding static_C_def
  by (auto split: option.split intro!: gives_bind [OF URand_gives])

lemma NURand_gives:
  assumes "A \<in> {255, 1023, 8191}" and "x \<le> y" and "y - x + 1 \<noteq> 0"
  shows "gives (NURand A x y s) (\<lambda>r s'. x \<le> r \<and> r \<le> y \<and> draws s' = draws s)"
proof -
  have A: "0 \<le> A" "A - 0 + 1 \<noteq> 0" using assms(1) by auto
  have "x \<le> n mod (y - x + 1) + x \<and> n mod (y - x + 1) + x \<le> y" for n
    using word_in_range [OF assms(2,3)] assms(3)
    by (metis add.commute word_gt_0 word_mod_less_divisor)
  then show ?thesis unfolding NURand_def using assms(3)
    by (auto intro!: gives_bind [OF static_C_gives [OF assms(1)]] gives_bind [OF URand_gives [OF A]]
        gives_bind [OF URand_gives [OF assms(2,3)]])
qed

text \<open>
  The conditions under which the generator runs: sizes that are positive, no more partitions than
  warehouses, and the NUMA restriction off.  \<open>draws_differ n\<close>: of any \<open>n\<close> successive draws of a
  warehouse one differs from \<open>w\<close>.
\<close>

definition cfg_ok :: "tpcc_cfg \<Rightarrow> bool" where
  "cfg_ok cfg \<longleftrightarrow> 1 \<le> num_wh cfg \<and> num_wh cfg < push_bit 32 1 \<and> 1 \<le> part_cnt cfg \<and> part_cnt cfg \<le> num_wh cfg \<and>
     1 \<le> cust_per_dist cfg \<and> 1 \<le> max_items cfg \<and> \<not> enforce_numa_distance cfg"

definition draws_differ :: "tpcc_cfg \<Rightarrow> nat \<Rightarrow> (nat \<Rightarrow> 64 word) \<Rightarrow> bool" where
  "draws_differ cfg n f \<longleftrightarrow>
     (\<forall>w p. 1 < num_wh cfg \<longrightarrow> (\<exists>i<n. 1 + f (p + i) mod num_wh cfg \<noteq> w))"

lemma cfg_okD:
  assumes "cfg_ok cfg"
  shows "1 \<le> num_wh cfg" "num_wh cfg - 1 + 1 \<noteq> 0" "num_wh cfg \<noteq> 0" "part_cnt cfg \<noteq> 0"
    "1 \<le> cust_per_dist cfg" "cust_per_dist cfg - 1 + 1 \<noteq> 0"
    "1 \<le> max_items cfg" "max_items cfg - 1 + 1 \<noteq> 0" "wh_enforce_numa_dist cfg = Some"
  using assms by (auto simp: cfg_ok_def wh_enforce_numa_dist_def fun_eq_iff)

lemma wh_to_part_ok:
  assumes "cfg_ok cfg"
  shows "wh_to_part cfg w = Some (w mod part_cnt cfg)" and "w mod part_cnt cfg < part_cnt cfg"
proof -
  have "part_cnt cfg \<noteq> 0" "part_cnt cfg \<le> num_wh cfg" using assms by (auto simp: cfg_ok_def)
  then show "wh_to_part cfg w = Some (w mod part_cnt cfg)" "w mod part_cnt cfg < part_cnt cfg"
    using word_mod_less_divisor [of "part_cnt cfg" w] by (simp_all add: wh_to_part_def word_gt_0)
qed

lemma home_wh_gives:
  assumes "cfg_ok cfg"
  shows "gives (home_wh cfg thd s) (\<lambda>w s'. 1 \<le> w \<and> w \<le> num_wh cfg \<and> draws s' = draws s)"
proof -
  have "1 \<le> 1 + thd mod num_wh cfg \<and> 1 + thd mod num_wh cfg \<le> num_wh cfg"
    by (rule word_in_range)
      (use cfg_okD(1,3) [OF assms] word_mod_less_divisor [of "num_wh cfg" thd] in \<open>simp_all add: word_gt_0\<close>)
  then show ?thesis
    using URand_gives [of 1 "num_wh cfg" s] cfg_okD [OF assms] by (simp add: home_wh_def add.commute)
qed

lemma local_home_wh_gives:
  assumes "cfg_ok cfg"
  shows "gives (local_home_wh cfg thd s) (\<lambda>w s'. 1 \<le> w \<and> w \<le> num_wh cfg \<and> draws s' = draws s)"
  unfolding local_home_wh_def cfg_okD [OF assms]
  by (rule gives_bind [OF home_wh_gives [OF assms]]) simp

lemma draw_other_gives:
  assumes cfg: "cfg_ok cfg" and ex: "\<exists>i<n. 1 + draws s (drawn s + i) mod num_wh cfg \<noteq> w"
  shows "gives (draw_other cfg n w s) (\<lambda>x s'. 1 \<le> x \<and> x \<le> num_wh cfg \<and> x \<noteq> w \<and> draws s' = draws s)"
  using ex
proof (induction n arbitrary: s)
  case 0
  then show ?case by simp
next
  case (Suc n)
  let ?x = "1 + draws s (drawn s) mod num_wh cfg" and ?s = "s\<lparr>drawn := Suc (drawn s)\<rparr>"
  have u: "URand 1 (num_wh cfg) s = Some (?x, ?s)" using cfg_okD [OF cfg] by (simp add: URand_def RAND_def)
  have x: "1 \<le> ?x \<and> ?x \<le> num_wh cfg" using URand_gives [of 1 "num_wh cfg" s] cfg_okD [OF cfg] u by simp
  show ?case
  proof (cases "?x = w")
    case True
    then obtain i where "i < n" "1 + draws s (Suc (drawn s + i)) mod num_wh cfg \<noteq> w"
      using Suc.prems by (auto simp: less_Suc_eq_0_disj)
    then have "\<exists>i<n. 1 + draws ?s (drawn ?s + i) mod num_wh cfg \<noteq> w" by auto
    from Suc.IH [OF this] show ?thesis using u True cfg_okD [OF cfg] by simp
  next
    case False
    then show ?thesis using u x cfg_okD [OF cfg] by simp
  qed
qed

lemma draw_other_fair:
  assumes "cfg_ok cfg" and "draws_differ cfg n (draws s)" and "1 < num_wh cfg"
  shows "gives (draw_other cfg n w s) (\<lambda>x s'. 1 \<le> x \<and> x \<le> num_wh cfg \<and> x \<noteq> w \<and> draws s' = draws s)"
  using assms by (intro draw_other_gives) (auto simp: draws_differ_def)

lemma Lastname_ok:
  assumes "n \<le> 999"
  shows "\<exists>l. Lastname n = Some l \<and> length l \<le> 15"
proof -
  have syl: "length (syllables ! k) \<le> 5" if "k < 10" for k
  proof -
    have "\<forall>s\<in>set syllables. length s \<le> 5" "length syllables = 10" by (simp_all add: syllables_def)
    then show ?thesis using that by simp
  qed
  have "n div 100 < 10" using assms by unat_arith
  moreover have "unat (n div 100) < 10" using calculation by unat_arith
  moreover have "unat (n div 10 mod 10) < 10" "unat (n mod 10) < 10" by (simp_all add: unat_mod)
  ultimately show ?thesis
    using syl [of "unat (n div 100)"] syl [of "unat (n div 10 mod 10)"] syl [of "unat (n mod 10)"]
    by (simp add: Lastname_def)
qed

text \<open>A line of an order, and an order as the transaction expects it.\<close>

definition line_ok :: "tpcc_cfg \<Rightarrow> 64 word \<Rightarrow> bool \<Rightarrow> Item_no \<Rightarrow> bool" where
  "line_ok cfg w rem it \<longleftrightarrow> ol_i_id it \<in> {1..max_items cfg} \<and> ol_supply_w_id it \<in> {1..num_wh cfg} \<and>
     ol_quantity it \<in> {1..10} \<and> (ol_supply_w_id it = w \<or> rem)"

definition order_lines :: "tpcc_query \<Rightarrow> Item_no list" where
  "order_lines q = take (ol_cnt q) (items q)"

definition new_order_ok :: "tpcc_cfg \<Rightarrow> tpcc_query \<Rightarrow> bool" where
  "new_order_ok cfg q \<longleftrightarrow> w_id q \<in> {1..num_wh cfg} \<and> d_id q \<in> {1..10} \<and> c_id q \<in> {1..cust_per_dist cfg} \<and>
     1 \<le> ol_cnt q \<and> ol_cnt q \<le> 15 \<and> ol_cnt q \<le> length (items q) \<and>
     distinct (map ol_i_id (order_lines q)) \<and> (\<forall>it\<in>set (order_lines q). line_ok cfg (w_id q) (remote q) it) \<and>
     distinct (part_to_access q) \<and> length (part_to_access q) \<le> unat (part_cnt cfg) \<and>
     set (part_to_access q) = (\<lambda>w. w mod part_cnt cfg) ` insert (w_id q) (ol_supply_w_id ` set (order_lines q))"

lemma line_ok_mono: "line_ok cfg w rem it \<Longrightarrow> line_ok cfg w True it"
  by (simp add: line_ok_def)

lemma supply_wh_gives:
  assumes cfg: "cfg_ok cfg" and w: "w \<in> {1..num_wh cfg}" and f: "draws_differ cfg n (draws s)"
  shows "gives (supply_wh cfg n w x rem s) (\<lambda>sr s'. fst sr \<in> {1..num_wh cfg} \<and> (fst sr = w \<or> snd sr) \<and>
    (rem \<longrightarrow> snd sr) \<and> draws s' = draws s)"
proof (cases "num_wh cfg = 1")
  case True
  then show ?thesis using w by (simp add: supply_wh_def)
next
  case False
  then have "1 < num_wh cfg" using cfg_okD(1) [OF cfg] by simp
  from draw_other_fair [OF cfg f this] show ?thesis
    unfolding supply_wh_def using w by (auto intro!: gives_bind elim: gives_mono)
qed

lemma gen_line_gives:
  assumes cfg: "cfg_ok cfg" and w: "w \<in> {1..num_wh cfg}" and f: "draws_differ cfg n (draws s)"
  shows "gives (gen_line cfg n w rem s) (\<lambda>l s'. line_ok cfg w (snd l) (fst l) \<and> (rem \<longrightarrow> snd l) \<and> draws s' = draws s)"
  unfolding gen_line_def
  using assms cfg_okD [OF cfg]
  by (auto simp: line_ok_def intro!: gives_bind [OF NURand_gives] gives_bind [OF URand_gives] gives_bind [OF supply_wh_gives])

lemma gen_items_gives:
  assumes cfg: "cfg_ok cfg" and w: "w \<in> {1..num_wh cfg}"
  shows "draws_differ cfg n (draws s) \<Longrightarrow> \<forall>it\<in>set its. line_ok cfg w rem it \<Longrightarrow>
    gives (gen_items cfg n w k its rem s) (\<lambda>l s'. length (fst l) = length its + k \<and>
      (\<forall>it\<in>set (fst l). line_ok cfg w (snd l) it) \<and> draws s' = draws s)"
proof (induction k arbitrary: its rem s)
  case 0
  then show ?case by simp
next
  case (Suc k)
  show ?case unfolding gen_items.simps
  proof (rule gives_bind [OF gen_line_gives [OF cfg w Suc.prems(1)]])
    fix l and s1 :: gen_st
    assume l: "line_ok cfg w (snd l) (fst l) \<and> (rem \<longrightarrow> snd l) \<and> draws s1 = draws s"
    have "\<forall>it\<in>set (its @ [fst l]). line_ok cfg w (snd l) it"
      using l Suc.prems(2) by (auto simp: line_ok_def)
    then show "gives (gen_items cfg n w k (its @ [fst l]) (snd l) s1)
        (\<lambda>l s'. length (fst l) = length its + Suc k \<and> (\<forall>it\<in>set (fst l). line_ok cfg w (snd l) it) \<and> draws s' = draws s)"
      using Suc.IH [of s1 "its @ [fst l]" "snd l"] Suc.prems(1) l by simp
  qed
qed

lemma add_parts_ok:
  assumes cfg: "cfg_ok cfg"
  shows "distinct ps \<Longrightarrow> \<exists>ps'. add_parts cfg its ps = Some ps' \<and> distinct ps' \<and>
    set ps' = set ps \<union> (\<lambda>w. w mod part_cnt cfg) ` ol_supply_w_id ` set its"
proof (induction its arbitrary: ps)
  case Nil
  then show ?case by simp
next
  case (Cons it its)
  let ?p = "ol_supply_w_id it mod part_cnt cfg"
  have "distinct (if ?p \<in> set ps then ps else ps @ [?p])" using Cons.prems by simp
  from Cons.IH [OF this] show ?case using wh_to_part_ok(1) [OF cfg] by (auto split: if_splits)
qed

lemma parts_fit:
  assumes "distinct ps" and "\<forall>p\<in>set ps. p < (m :: 64 word)"
  shows "length ps \<le> unat m"
proof -
  have "unat ` set ps \<subseteq> {..<unat m}" using assms(2) by (auto simp: word_less_nat_alt)
  then have "card (unat ` set ps) \<le> unat m" using card_mono [of "{..<unat m}"] by fastforce
  moreover have "card (unat ` set ps) = length ps"
    using assms(1) distinct_card [of ps] card_image [of unat "set ps"] by (simp add: inj_on_def word_unat_eq_iff)
  ultimately show ?thesis by simp
qed

lemmas gen_binds = gives_bind [OF local_home_wh_gives] gives_bind [OF NURand_gives] gives_bind [OF URand_gives]

lemma distinct_lines_gives:
  assumes cfg: "cfg_ok cfg" and len: "length its = k"
  shows "gives (distinct_lines cfg (w mod part_cnt cfg) its k) (\<lambda>u ps. take (snd u) (fst u) = first_lines its \<and>
    snd u \<le> length (fst u) \<and> distinct ps \<and>
    set ps = (\<lambda>w. w mod part_cnt cfg) ` insert w (ol_supply_w_id ` set (first_lines its)))"
proof -
  obtain its' cnt where d: "dedup_outer its k 0 = (its', cnt)" by fastforce
  have fl: "take cnt its' = first_lines its" "cnt \<le> length its'"
    using dedup_outer_first_lines [OF _ _ _ d] len by auto
  from add_parts_ok [OF cfg, of "[w mod part_cnt cfg]" "first_lines its"] obtain ps where
    "add_parts cfg (first_lines its) [w mod part_cnt cfg] = Some ps" "distinct ps"
    "set ps = (\<lambda>w. w mod part_cnt cfg) ` insert w (ol_supply_w_id ` set (first_lines its))" by auto
  then show ?thesis using d fl first_lines_distinct by (simp add: distinct_lines_def)
qed

lemma first_lines_length: "length (first_lines xs) \<le> length xs"
  by (induction xs rule: rev_induct) (auto simp: first_lines_snoc, simp add: first_lines_def)

lemma new_order_okI:
  assumes cfg: "cfg_ok cfg" and "w_id q \<in> {1..num_wh cfg}" and "d_id q \<in> {1..10}" and "c_id q \<in> {1..cust_per_dist cfg}"
    and its: "its \<noteq> []" "length its \<le> 15" "\<forall>it\<in>set its. line_ok cfg (w_id q) (remote q) it"
    and fl: "order_lines q = first_lines its" "ol_cnt q \<le> length (items q)"
    and ps: "distinct (part_to_access q)"
      "set (part_to_access q) = (\<lambda>w. w mod part_cnt cfg) ` insert (w_id q) (ol_supply_w_id ` set (first_lines its))"
  shows "new_order_ok cfg q"
proof -
  have cnt: "ol_cnt q = length (first_lines its)" using fl by (metis length_take min.absorb2 order_lines_def)
  have "first_lines its \<noteq> []" using its(1) first_lines_ids [of its] by auto
  then have "1 \<le> ol_cnt q" using cnt by (simp add: Suc_leI)
  moreover have "length (part_to_access q) \<le> unat (part_cnt cfg)"
    by (rule parts_fit [OF ps(1)]) (use ps(2) wh_to_part_ok(2) [OF cfg] in auto)
  ultimately show ?thesis
    using assms cnt first_lines_length [of its] first_lines_distinct [of its] first_lines_subset [of its]
    unfolding new_order_ok_def by auto
qed

lemma gen_new_order_gives:
  assumes cfg: "cfg_ok cfg" and f: "draws_differ cfg n (draws s)"
  shows "gives (gen_new_order cfg n thd q s) (\<lambda>q' s'. new_order_ok cfg q' \<and> qtype q' = TPCC_NEW_ORDER)"
proof -
  have "new_order_ok cfg (q\<lparr>qtype := TPCC_NEW_ORDER, w_id := w, d_id := d, c_id := c, rbk := r,
      ol_cnt := cnt, o_entry_d := 2013, items := its', remote := rem, part_to_access := ps\<rparr>)"
    if "1 \<le> w" "w \<le> num_wh cfg" "1 \<le> d" "d \<le> 10" "1 \<le> c" "c \<le> cust_per_dist cfg" "5 \<le> k" "k \<le> 15"
      "length its = unat k" "\<forall>x\<in>set its. line_ok cfg w rem x" "take cnt its' = first_lines its" "cnt \<le> length its'"
      "distinct ps" "set ps = (\<lambda>w. w mod part_cnt cfg) ` insert w (ol_supply_w_id ` set (first_lines its))"
    for w d c r cnt its' rem ps its and k :: "64 word"
    by (rule new_order_okI [OF cfg, where its = its])
      (use that in \<open>auto simp: order_lines_def word_le_nat_alt\<close>)
  then show ?thesis
    unfolding gen_new_order_def wh_to_part_ok [OF cfg] using assms cfg_okD [OF cfg]
    by (auto simp: DIST_PER_WARE_def intro!: gen_binds gives_bind [OF gen_items_gives] gives_bind [OF distinct_lines_gives])
qed

text \<open>A payment as the transaction expects it.\<close>

definition customer_ok :: "tpcc_cfg \<Rightarrow> tpcc_query \<Rightarrow> bool" where
  "customer_ok cfg q \<longleftrightarrow> (if by_last_name q then \<exists>n \<le> 999. Lastname n = Some (c_last q) \<and> length (c_last q) \<le> 15
     else c_id q \<in> {1..cust_per_dist cfg})"

definition payment_ok :: "tpcc_cfg \<Rightarrow> tpcc_query \<Rightarrow> bool" where
  "payment_ok cfg q \<longleftrightarrow> w_id q \<in> {1..num_wh cfg} \<and> d_w_id q = w_id q \<and> d_id q \<in> {1..10} \<and>
     c_w_id q \<in> {1..num_wh cfg} \<and> c_d_id q \<in> {1..10} \<and> h_amount q \<in> {1..5000} \<and> customer_ok cfg q \<and>
     distinct (part_to_access q) \<and> length (part_to_access q) \<le> unat (part_cnt cfg) \<and>
     set (part_to_access q) = (\<lambda>w. w mod part_cnt cfg) ` {w_id q, c_w_id q}"

lemma gen_customer_gives:
  assumes "cfg_ok cfg"
  shows "gives (gen_customer cfg y q s) (\<lambda>q' s'. customer_ok cfg q' \<and>
    qtype q' = qtype q \<and> w_id q' = w_id q \<and> d_w_id q' = d_w_id q \<and> d_id q' = d_id q \<and> c_w_id q' = c_w_id q \<and>
    c_d_id q' = c_d_id q \<and> h_amount q' = h_amount q \<and> part_to_access q' = part_to_access q)"
proof (cases "y \<le> 60")
  case True
  have "gives (NURand 255 0 999 s) (\<lambda>r s'. 0 \<le> r \<and> r \<le> 999 \<and> draws s' = draws s)"
    by (rule NURand_gives) simp_all
  then obtain n s' where n: "NURand 255 0 999 s = Some (n, s')" "n \<le> 999" by (auto simp: gives_def)
  obtain l where l: "Lastname n = Some l" "length l \<le> 15" using Lastname_ok [OF n(2)] by blast
  then show ?thesis using True n l by (auto simp: gen_customer_def customer_ok_def)
next
  case False
  have "gives (NURand 1023 1 (cust_per_dist cfg) s) (\<lambda>r s'. 1 \<le> r \<and> r \<le> cust_per_dist cfg \<and> draws s' = draws s)"
    by (rule NURand_gives) (use cfg_okD [OF assms] in simp_all)
  then obtain c s' where n: "NURand 1023 1 (cust_per_dist cfg) s = Some (c, s')" "1 \<le> c" "c \<le> cust_per_dist cfg"
    by (auto simp: gives_def)
  then show ?thesis using False n by (auto simp: gen_customer_def customer_ok_def)
qed

lemma payment_district_gives:
  assumes cfg: "cfg_ok cfg" and f: "draws_differ cfg n (draws s)"
    and "w \<in> {1..num_wh cfg}" "d \<in> {1..10}" "p = w mod part_cnt cfg"
  shows "gives (payment_district cfg n w p d x s) (\<lambda>c s'. fst c \<in> {1..10} \<and> fst (snd c) \<in> {1..num_wh cfg} \<and>
    distinct (snd (snd c)) \<and> set (snd (snd c)) = (\<lambda>w. w mod part_cnt cfg) ` {w, fst (snd c)})"
  unfolding payment_district_def wh_to_part_ok [OF cfg] using assms
  by (auto simp: DIST_PER_WARE_def intro!: gen_binds gives_bind [OF draw_other_fair])

lemma gen_payment_gives:
  assumes cfg: "cfg_ok cfg" and f: "draws_differ cfg n (draws s)"
  shows "gives (gen_payment cfg n thd q s) (\<lambda>q' s'. payment_ok cfg q' \<and> qtype q' = TPCC_PAYMENT)"
proof -
  have fit: "length ps \<le> unat (part_cnt cfg)"
    if "distinct ps" "set ps = {w mod part_cnt cfg, w' mod part_cnt cfg}" for ps w w'
    by (rule parts_fit [OF that(1)]) (use that(2) wh_to_part_ok(2) [OF cfg] in auto)
  show ?thesis
    unfolding gen_payment_def wh_to_part_ok [OF cfg] using assms cfg_okD [OF cfg]
    by (auto simp: DIST_PER_WARE_def payment_ok_def customer_ok_def fit
        intro!: gen_binds gives_bind [OF payment_district_gives] gives_mono [OF gen_customer_gives])
qed

section \<open>Keys name one record\<close>

lemma unat_key:
  assumes "i \<le> (M :: 64 word)" and "(unat w + 1) * unat M < 2 ^ 64"
  shows "unat (w * M + i) = unat w * unat M + unat i"
proof -
  have "unat i \<le> unat M" using assms(1) by (simp add: word_le_nat_alt)
  then have "unat w * unat M + unat i < 2 ^ 64" using assms(2) by (simp add: algebra_simps)
  then show ?thesis by (simp add: unat_word_ariths)
qed

lemma nat_key_inject:
  assumes i: "1 \<le> i" "i \<le> (M :: nat)" "1 \<le> j" "j \<le> M" and eq: "w * M + i = v * M + j"
  shows "w = v \<and> i = j"
proof -
  obtain i' j' where ij: "i = Suc i'" "j = Suc j'" using i by (metis Suc_le_D One_nat_def)
  have "i' < M" "j' < M" using i ij by auto
  moreover have "w * M + i' = v * M + j'" using eq ij by simp
  ultimately have "w = v"
    by (metis add.right_neutral add_diff_cancel_left' div_less div_mult_self3 less_nat_zero_code)
  then show ?thesis using eq by simp
qed

lemma key_inject:
  assumes i: "i \<in> {1..M}" "j \<in> {1..M}" and M: "(unat w + 1) * unat M < 2 ^ 64" "(unat v + 1) * unat M < 2 ^ 64"
    and eq: "w * M + i = v * M + (j :: 64 word)"
  shows "w = v \<and> i = j"
proof -
  have "unat w * unat M + unat i = unat v * unat M + unat j"
    using unat_key [of i M w] unat_key [of j M v] i M eq by simp
  then have "unat w = unat v \<and> unat i = unat j"
    by (rule nat_key_inject [rotated 4]) (use i in \<open>auto simp: word_le_nat_alt\<close>)
  then show ?thesis by (simp add: word_unat_eq_iff)
qed

text \<open>The sizes of global.h and the build: no key overflows.\<close>

definition sizes_ok :: "tpcc_cfg \<Rightarrow> bool" where
  "sizes_ok cfg \<longleftrightarrow> num_wh cfg < push_bit 32 1 \<and> cust_per_dist cfg \<le> push_bit 16 1 \<and> max_items cfg \<le> push_bit 20 1"

lemma wh_key_bound:
  assumes "sizes_ok cfg" and "w \<in> {1..num_wh cfg}" and "unat (M :: 64 word) \<le> 2 ^ 20"
  shows "(unat w + 1) * unat M < 2 ^ 64"
proof -
  have "unat w < 2 ^ 32" using assms(1,2) by (auto simp: sizes_ok_def word_le_nat_alt word_less_nat_alt)
  then have "(unat w + 1) * unat M \<le> 2 ^ 32 * 2 ^ 20" using assms(3) by (intro mult_mono) auto
  then show ?thesis by simp
qed

lemma distKey_bound:
  assumes "sizes_ok cfg" and "w \<in> {1..num_wh cfg}" and "d \<in> {1..10}"
  shows "unat (distKey d w) < 2 ^ 36"
proof -
  have "unat w < 2 ^ 32" using assms(1,2) by (auto simp: sizes_ok_def word_le_nat_alt word_less_nat_alt)
  moreover have "unat (distKey d w) = unat w * 10 + unat d"
    using unat_key [of d 10 w] wh_key_bound [OF assms(1,2), of 10] assms(3) by (simp add: distKey_def DIST_PER_WARE_def)
  moreover have "unat d \<le> 10" using assms(3) by (auto simp: word_le_nat_alt)
  ultimately show ?thesis by simp
qed

lemma dist_cust_bound:
  assumes "sizes_ok cfg" and "w \<in> {1..num_wh cfg}" and "d \<in> {1..10}"
  shows "(unat (distKey d w) + 1) * unat (cust_per_dist cfg) < 2 ^ 64"
proof -
  have "unat (cust_per_dist cfg) \<le> 2 ^ 16" using assms(1) by (simp add: sizes_ok_def word_le_nat_alt)
  then have "(unat (distKey d w) + 1) * unat (cust_per_dist cfg) \<le> 2 ^ 36 * 2 ^ 16"
    using distKey_bound [OF assms] by (intro mult_mono) auto
  then show ?thesis by simp
qed

lemma distKey_inject:
  assumes "sizes_ok cfg" and "w \<in> {1..num_wh cfg}" "v \<in> {1..num_wh cfg}" "d \<in> {1..10}" "e \<in> {1..10}"
    and "distKey d w = distKey e v"
  shows "w = v \<and> d = e"
  using key_inject [of d 10 e w v] assms wh_key_bound [OF assms(1,2), of 10] wh_key_bound [OF assms(1,3), of 10]
  by (simp add: distKey_def DIST_PER_WARE_def)

lemma stockKey_inject:
  assumes sz: "sizes_ok cfg" and w: "w \<in> {1..num_wh cfg}" "v \<in> {1..num_wh cfg}"
    and i: "i \<in> {1..max_items cfg}" "i' \<in> {1..max_items cfg}" and eq: "stockKey cfg i w = stockKey cfg i' v"
  shows "w = v \<and> i = i'"
proof -
  have "unat (max_items cfg) \<le> 2 ^ 20" using sz by (simp add: sizes_ok_def word_le_nat_alt)
  from key_inject [OF i wh_key_bound [OF sz w(1) this] wh_key_bound [OF sz w(2) this]] eq show ?thesis
    by (simp add: stockKey_def)
qed

lemma custKey_inject:
  assumes sz: "sizes_ok cfg" and w: "w \<in> {1..num_wh cfg}" "v \<in> {1..num_wh cfg}" and d: "d \<in> {1..10}" "e \<in> {1..10}"
    and c: "c \<in> {1..cust_per_dist cfg}" "c' \<in> {1..cust_per_dist cfg}" and eq: "custKey cfg c d w = custKey cfg c' e v"
  shows "w = v \<and> d = e \<and> c = c'"
  using key_inject [OF c dist_cust_bound [OF sz w(1) d(1)] dist_cust_bound [OF sz w(2) d(2)]] eq
    distKey_inject [OF sz w d] by (auto simp: custKey_def)

lemma order_part_inject:
  assumes sz: "sizes_ok cfg" and w: "w \<in> {1..num_wh cfg}" "v \<in> {1..num_wh cfg}" and d: "d \<in> {1..10}" "e \<in> {1..10}"
    and eq: "d_to_part w d = d_to_part v e"
  shows "w = v \<and> d = e"
proof -
  have "distKey d w = distKey e v" using eq by (simp add: d_to_part_def distKey_def algebra_simps)
  then show ?thesis by (rule distKey_inject [OF sz w d])
qed

text \<open>
  C19. Index keys name one record: in the sizes the benchmark is built with, two customers, two stock
  rows or two districts never share a key, and two orders with the same key in the same partition of
  the order index are the same order.  The partition is needed: the order number outgrows the number of
  customers, and then the key alone is also the key of an order of the next district.
\<close>

theorem tpcc_keys_unique:
  assumes sz: "sizes_ok cfg" and w: "w \<in> {1..num_wh cfg}" "v \<in> {1..num_wh cfg}" and d: "d \<in> {1..10}" "e \<in> {1..10}"
    and c: "c \<in> {1..cust_per_dist cfg}" "c' \<in> {1..cust_per_dist cfg}"
    and i: "i \<in> {1..max_items cfg}" "i' \<in> {1..max_items cfg}"
  shows "(distKey d w = distKey e v \<longrightarrow> w = v \<and> d = e) \<and>
    (custKey cfg c d w = custKey cfg c' e v \<longrightarrow> w = v \<and> d = e \<and> c = c') \<and>
    (stockKey cfg i w = stockKey cfg i' v \<longrightarrow> w = v \<and> i = i') \<and>
    (d_to_part w d = d_to_part v e \<and> orderPrimaryKey cfg w d oid = orderPrimaryKey cfg v e oid' \<longrightarrow>
      w = v \<and> d = e \<and> oid = oid') \<and>
    orderPrimaryKey cfg w d (cust_per_dist cfg + oid) = orderPrimaryKey cfg w (d + 1) oid"
proof -
  have "orderPrimaryKey cfg w d (cust_per_dist cfg + oid) = orderPrimaryKey cfg w (d + 1) oid"
    by (simp add: orderPrimaryKey_def orderlineKey_def distKey_def algebra_simps)
  then show ?thesis
    using distKey_inject [OF sz w d] custKey_inject [OF sz w d c] stockKey_inject [OF sz w i] order_part_inject [OF sz w d]
    by (auto simp: orderPrimaryKey_def orderlineKey_def)
qed

section \<open>Properties of the generator\<close>

text \<open>
  C17. The in-place removal of duplicates in \<open>gen_new_order\<close> ends and keeps, in order, the first line
  of every item: no item is lost and none appears twice, so the assertion that follows it holds.
\<close>

theorem dedup_keeps_first_lines:
  "\<exists>its' cnt. dedup_outer its (length its) 0 = (its', cnt) \<and> cnt \<le> length its' \<and> take cnt its' = first_lines its \<and>
     distinct (map ol_i_id (take cnt its')) \<and> ol_i_id ` set (take cnt its') = ol_i_id ` set its"
proof -
  obtain its' cnt where d: "dedup_outer its (length its) 0 = (its', cnt)" by fastforce
  then have "take cnt its' = first_lines its \<and> cnt \<le> length its'"
    using dedup_outer_first_lines [OF _ _ _ d] by simp
  then show ?thesis using d first_lines_distinct first_lines_ids by auto
qed

text \<open>
  C18. A generated new order is well formed: the generator returns within its fuel when the draws of
  a warehouse do not all agree, the warehouse, district, customer, items, quantities and suppliers are in
  range, there are between one and fifteen lines with different items, a supplier other than the home
  warehouse sets \<open>remote\<close>, and \<open>part_to_access\<close> lists exactly the partitions touched, each once, and fits
  its array.
\<close>

theorem gen_new_order_well_formed:
  assumes "cfg_ok cfg" and "draws_differ cfg n (draws s)"
  shows "\<exists>q' s'. gen_new_order cfg n thd q s = Some (q', s') \<and> new_order_ok cfg q' \<and> qtype q' = TPCC_NEW_ORDER"
  using gen_new_order_gives [OF assms] by (simp add: gives_def)

text \<open>
  A generated payment is well formed: the generator returns, every id is in range, the amount
  lies between 1 and 5000, a last name fits its sixteen characters, and \<open>part_to_access\<close> lists the
  partitions of the home and of the customer's warehouse without repetition.
\<close>

theorem gen_payment_well_formed:
  assumes "cfg_ok cfg" and "draws_differ cfg n (draws s)"
  shows "\<exists>q' s'. gen_payment cfg n thd q s = Some (q', s') \<and> payment_ok cfg q' \<and> qtype q' = TPCC_PAYMENT"
  using gen_payment_gives [OF assms] by (simp add: gives_def)

section \<open>Witnesses\<close>

definition demo_cfg :: tpcc_cfg where
  "demo_cfg = \<lparr>num_wh = 2, part_cnt = 2, cust_per_dist = 3000, max_items = 100000, perc_remote_payment = 15,
     perc_remote_neworder = 1, first_part_local = True, enforce_numa_distance = False,
     enforce_numa_distance_remote_only = True, numa_distance = 0, numa_dist_matrix = (\<lambda>_ _. 0),
     threads_per_socket = 0, omp_num_threads = 1, this_node = 0\<rparr>"

definition demo_gen :: gen_st where
  "demo_gen = \<lparr>draws = (\<lambda>n. if even n then 0 else 1), drawn = 0, C_255 = None, C_1023 = None, C_8191 = None\<rparr>"

definition demo_query :: tpcc_query where
  "demo_query = \<lparr>qtype = TPCC_ALL, part_to_access = [], w_id = 0, d_id = 0, c_id = 0, d_w_id = 0, c_w_id = 0,
     c_d_id = 0, c_last = [], h_amount = 0, by_last_name = False, items = [], rbk = False, remote = False,
     ol_cnt = 0, o_entry_d = 0, o_carrier_id = 0, ol_delivery_d = 0, threshold = 0\<rparr>"

lemma demo_cfg_ok: "cfg_ok demo_cfg"
  by (simp add: cfg_ok_def demo_cfg_def)

lemma demo_draws_differ: "draws_differ demo_cfg 2 (draws demo_gen)"
proof -
  have "\<exists>i<2. 1 + draws demo_gen (p + i) mod num_wh demo_cfg \<noteq> w" for w p
  proof (cases "1 + draws demo_gen p mod num_wh demo_cfg = w")
    case True
    then have "1 + draws demo_gen (p + 1) mod num_wh demo_cfg \<noteq> w"
      by (auto simp: demo_gen_def demo_cfg_def)
    then show ?thesis by (intro exI [of _ 1]) simp
  next
    case False
    then show ?thesis by (intro exI [of _ 0]) simp
  qed
  then show ?thesis by (simp add: draws_differ_def)
qed

theorem gen_new_order_well_formed_witness:
  "\<exists>q s. gen_new_order demo_cfg 2 3 demo_query demo_gen = Some (q, s) \<and> new_order_ok demo_cfg q"
  using gen_new_order_well_formed [OF demo_cfg_ok demo_draws_differ] by blast

theorem gen_payment_well_formed_witness:
  "\<exists>q s. gen_payment demo_cfg 2 3 demo_query demo_gen = Some (q, s) \<and> payment_ok demo_cfg q"
  using gen_payment_well_formed [OF demo_cfg_ok demo_draws_differ] by blast

theorem tpcc_keys_unique_witness:
  "custKey demo_cfg 7 3 1 \<noteq> custKey demo_cfg 8 3 1 \<and> stockKey demo_cfg 5 1 \<noteq> stockKey demo_cfg 5 2 \<and>
   orderPrimaryKey demo_cfg 1 3 (3000 + 1) = orderPrimaryKey demo_cfg 1 4 1"
  using tpcc_keys_unique [of demo_cfg 1 1 3 3 7 8 5 5 1 1] tpcc_keys_unique [of demo_cfg 1 2 3 3 7 8 5 5 1 1]
  by (auto simp: demo_cfg_def sizes_ok_def)

end
