(* ===== verification/TPCC_Txn.thy ===== *)
theory TPCC_Txn
  imports TPCC_Query
begin

text \<open>
  The five transactions of the TPC-C benchmark, benchmarks/tpcc/tpcc_txn.cpp, over the tables of
  tpcc_const.h and the index operations of system/txn.cpp, in the builds with \<open>TPCC_ALL_TXN\<close>.

  A record holds the columns that the transactions use.  A column is the 64-bit word that is stored:
  a \<open>double\<close> is its bit pattern, and the arithmetic on it is a parameter of the configuration, so that
  code which writes one type and reads another is modelled as it is.  A row is named by a pointer and an
  index maps a partition and a key to the rows entered there, the newest first, which is what
  \<open>Index_Perfect\<close> shows of the hash index.

  Concurrency control enters through \<open>cc\<close>: \<open>granted n\<close> says whether the \<open>n\<close>-th \<open>get_row\<close> returns a row,
  and \<open>validates\<close> whether \<open>finish(RCOK)\<close> commits.  Rows are updated in \<open>tx_db\<close>; \<open>finish\<close> publishes it or
  goes back to \<open>tx_start\<close>, which is what \<open>Txn_Locking\<close> shows of an abort.  Every transaction touches a row
  once.  \<open>None\<close> is a failed assertion, a null pointer that is followed, an array index out of range or the
  exception of a full buffer.  Statistics, prefetches and the columns \<open>H_DATA\<close> and \<open>OL_DIST_INFO\<close> are left out.
\<close>

section \<open>Records, tables and indexes\<close>

record w_record =
  W_YTD :: "64 word"

record d_record =
  D_YTD :: "64 word"
  D_NEXT_O_ID :: "64 word"

record c_record =
  C_ID :: "64 word"
  C_DISCOUNT :: "64 word"
  C_BALANCE :: "64 word"
  C_YTD_PAYMENT :: "64 word"
  C_PAYMENT_CNT :: "64 word"

record h_record =
  H_C_ID :: "64 word"
  H_C_D_ID :: "64 word"
  H_C_W_ID :: "64 word"
  H_D_ID :: "64 word"
  H_W_ID :: "64 word"
  H_DATE :: "64 word"
  H_AMOUNT :: "64 word"

record no_record =
  NO_O_ID :: "64 word"
  NO_D_ID :: "64 word"
  NO_W_ID :: "64 word"

record o_record =
  O_ID :: "64 word"
  O_C_ID :: "64 word"
  O_D_ID :: "64 word"
  O_W_ID :: "64 word"
  O_ENTRY_D :: "64 word"
  O_CARRIER_ID :: "64 word"
  O_OL_CNT :: "64 word"
  O_ALL_LOCAL :: "64 word"

record ol_record =
  OL_O_ID :: "64 word"
  OL_D_ID :: "64 word"
  OL_W_ID :: "64 word"
  OL_NUMBER :: "64 word"
  OL_I_ID :: "64 word"
  OL_SUPPLY_W_ID :: "64 word"
  OL_DELIVERY_D :: "64 word"
  OL_QUANTITY :: "64 word"
  OL_AMOUNT :: "64 word"

record i_record =
  I_PRICE :: "64 word"

record s_record =
  S_QUANTITY :: "64 word"
  S_YTD :: "64 word"
  S_ORDER_CNT :: "64 word"
  S_REMOTE_CNT :: "64 word"

datatype INDEX = I_item | I_warehouse | I_district | I_customer_id | I_customer_last | I_stock
  | I_order | I_order_cust | I_orderline | I_neworder

record tpcc_db =
  t_warehouse :: "row_ptr \<Rightarrow> w_record"
  t_district :: "row_ptr \<Rightarrow> d_record"
  t_customer :: "row_ptr \<Rightarrow> c_record"
  t_history :: "h_record list"
  t_neworder :: "row_ptr \<Rightarrow> no_record"
  t_order :: "row_ptr \<Rightarrow> o_record"
  t_orderline :: "row_ptr \<Rightarrow> ol_record"
  t_item :: "row_ptr \<Rightarrow> i_record"
  t_stock :: "row_ptr \<Rightarrow> s_record"
  free_row :: row_ptr
  index :: "INDEX \<Rightarrow> 64 word \<Rightarrow> 64 word \<Rightarrow> row_ptr list"

text \<open>The arithmetic of \<open>double\<close> on bit patterns and the conversion from an integer.\<close>

record dbl_ops =
  fadd :: "64 word \<Rightarrow> 64 word \<Rightarrow> 64 word"
  fsub :: "64 word \<Rightarrow> 64 word \<Rightarrow> 64 word"
  of_int64 :: "64 word \<Rightarrow> 64 word"

text \<open>\<open>junk_o\<close> and \<open>junk_ol\<close> are the contents of memory that is not initialised.\<close>

record txn_cfg =
  wlc :: tpcc_cfg
  TPCC_SMALL :: bool
  BULK_INSERT :: bool
  g_wh_update :: bool
  MAX_ROW_PER_TXN :: nat
  MAX_WRITE_SET :: nat
  fl :: dbl_ops
  junk_o :: o_record
  junk_ol :: ol_record

record cc =
  granted :: "nat \<Rightarrow> bool"
  validates :: bool

record txn =
  tx_start :: tpcc_db
  tx_db :: tpcc_db
  row_cnt :: nat
  insert_cnt :: nat
  insert_index_ops :: "(INDEX \<times> 64 word \<times> row_ptr \<times> 64 word) list"
  delete_index_ops :: "(INDEX \<times> 64 word \<times> 64 word) list"

definition begin_txn :: "tpcc_db \<Rightarrow> txn" where
  "begin_txn db = \<lparr>tx_start = db, tx_db = db, row_cnt = 0, insert_cnt = 0, insert_index_ops = [], delete_index_ops = []\<rparr>"

section \<open>The transaction manager\<close>

text \<open>\<open>get_row\<close>: \<open>k\<close> goes on with the row, \<open>ab\<close> is what follows a null pointer.\<close>

definition get_row_then :: "txn_cfg \<Rightarrow> cc \<Rightarrow> txn \<Rightarrow> (txn \<Rightarrow> 'r) \<Rightarrow> (txn \<Rightarrow> 'r) \<Rightarrow> 'r" where
  "get_row_then cfg cc st ab k =
     (if MAX_ROW_PER_TXN cfg \<le> row_cnt st \<or> \<not> granted cc (row_cnt st) then ab st
      else k (st\<lparr>row_cnt := Suc (row_cnt st)\<rparr>))"

definition tx_insert_row :: "txn_cfg \<Rightarrow> txn \<Rightarrow> txn option" where
  "tx_insert_row cfg st =
     assert_then (insert_cnt st < MAX_WRITE_SET cfg) (Some (st\<lparr>insert_cnt := Suc (insert_cnt st)\<rparr>))"

definition insert_index :: "txn_cfg \<Rightarrow> INDEX \<Rightarrow> 64 word \<Rightarrow> row_ptr \<Rightarrow> 64 word \<Rightarrow> txn \<Rightarrow> txn option" where
  "insert_index cfg ix key r pid st =
     assert_then (length (insert_index_ops st) < MAX_WRITE_SET cfg)
       (Some (st\<lparr>insert_index_ops := insert_index_ops st @ [(ix, key, r, pid)]\<rparr>))"

definition delete_index :: "txn_cfg \<Rightarrow> INDEX \<Rightarrow> 64 word \<Rightarrow> 64 word \<Rightarrow> txn \<Rightarrow> txn option" where
  "delete_index cfg ix key pid st =
     assert_then (length (delete_index_ops st) < MAX_WRITE_SET cfg)
       (Some (st\<lparr>delete_index_ops := delete_index_ops st @ [(ix, key, pid)]\<rparr>))"

text \<open>\<open>index_delete_safe\<close> without an item removes the oldest entry, \<open>index_insert_safe\<close> adds in front.\<close>

definition idx_delete :: "INDEX \<times> 64 word \<times> 64 word \<Rightarrow> tpcc_db \<Rightarrow> tpcc_db" where
  "idx_delete op db = (case op of (ix, key, pid) \<Rightarrow>
     db\<lparr>index := (\<lambda>j p k. if j = ix \<and> p = pid \<and> k = key then butlast (index db j p k) else index db j p k)\<rparr>)"

definition idx_insert :: "INDEX \<times> 64 word \<times> row_ptr \<times> 64 word \<Rightarrow> tpcc_db \<Rightarrow> tpcc_db" where
  "idx_insert op db = (case op of (ix, key, r, pid) \<Rightarrow>
     db\<lparr>index := (\<lambda>j p k. if j = ix \<and> p = pid \<and> k = key then r # index db j p k else index db j p k)\<rparr>)"

definition maintain_indexes :: "txn \<Rightarrow> tpcc_db" where
  "maintain_indexes st = fold idx_insert (insert_index_ops st) (fold idx_delete (delete_index_ops st) (tx_db st))"

definition tx_finish :: "cc \<Rightarrow> RC \<Rightarrow> txn \<Rightarrow> RC \<times> tpcc_db" where
  "tx_finish cc rc st = (if rc = RCOK \<and> validates cc then (RCOK, maintain_indexes st) else (Abort, tx_start st))"

definition abort_txn :: "cc \<Rightarrow> txn \<Rightarrow> (RC \<times> tpcc_db) option" where
  "abort_txn cc st = Some (tx_finish cc Abort st)"

text \<open>The row of the first item that an index holds under a key; the transaction follows the pointer.\<close>

definition first_item :: "row_ptr list \<Rightarrow> row_ptr option" where
  "first_item xs = (case xs of [] \<Rightarrow> None | r # _ \<Rightarrow> Some r)"

section \<open>Payment\<close>

text \<open>The walk to the middle of the customers with a last name.\<close>

fun mid_item :: "row_ptr list \<Rightarrow> row_ptr list \<Rightarrow> nat \<Rightarrow> row_ptr list" where
  "mid_item [] mid cnt = mid"
| "mid_item (x # it) mid cnt = mid_item it (if even (Suc cnt) then tl mid else mid) (Suc cnt)"

definition customer_by_name :: "txn_cfg \<Rightarrow> string \<Rightarrow> 64 word \<Rightarrow> 64 word \<Rightarrow> tpcc_db \<Rightarrow> row_ptr option" where
  "customer_by_name cfg name d w db = do {
     p \<leftarrow> wh_to_part (wlc cfg) w;
     let item = index db I_customer_last p (custNPKey name d w);
     first_item (mid_item item item 0) }"

definition customer_by_id :: "txn_cfg \<Rightarrow> 64 word \<Rightarrow> 64 word \<Rightarrow> 64 word \<Rightarrow> tpcc_db \<Rightarrow> row_ptr option" where
  "customer_by_id cfg c d w db = do {
     p \<leftarrow> wh_to_part (wlc cfg) w;
     first_item (index db I_customer_id p (custKey (wlc cfg) c d w)) }"

definition payment_customer :: "txn_cfg \<Rightarrow> tpcc_query \<Rightarrow> tpcc_db \<Rightarrow> row_ptr option" where
  "payment_customer cfg q db =
     (if by_last_name q then customer_by_name cfg (c_last q) (c_d_id q) (c_w_id q) db
      else customer_by_id cfg (c_id q) (c_d_id q) (c_w_id q) db)"

definition pay_customer :: "dbl_ops \<Rightarrow> 64 word \<Rightarrow> c_record \<Rightarrow> c_record" where
  "pay_customer f h c = c\<lparr>C_BALANCE := fsub f (C_BALANCE c) h, C_YTD_PAYMENT := fadd f (C_YTD_PAYMENT c) h,
     C_PAYMENT_CNT := fadd f (C_PAYMENT_CNT c) (of_int64 f 1)\<rparr>"

definition run_payment :: "txn_cfg \<Rightarrow> cc \<Rightarrow> tpcc_query \<Rightarrow> tpcc_db \<Rightarrow> (RC \<times> tpcc_db) option" where
  "run_payment cfg cc q db = do {
     let h = of_int64 (fl cfg) (h_amount q);
     p \<leftarrow> wh_to_part (wlc cfg) (w_id q);
     r_wh \<leftarrow> first_item (index db I_warehouse p (w_id q));
     get_row_then cfg cc (begin_txn db) (abort_txn cc) (\<lambda>st. do {
       let db = tx_db st;
       let db = (if g_wh_update cfg
         then db\<lparr>t_warehouse := (t_warehouse db)(r_wh := (t_warehouse db r_wh)\<lparr>W_YTD := fadd (fl cfg) (W_YTD (t_warehouse db r_wh)) h\<rparr>)\<rparr>
         else db);
       r_dist \<leftarrow> first_item (index db I_district p (distKey (d_id q) (d_w_id q)));
       get_row_then cfg cc (st\<lparr>tx_db := db\<rparr>) (abort_txn cc) (\<lambda>st. do {
         let db = tx_db st;
         let db = db\<lparr>t_district := (t_district db)(r_dist := (t_district db r_dist)\<lparr>D_YTD := fadd (fl cfg) (D_YTD (t_district db r_dist)) h\<rparr>)\<rparr>;
         r_cust \<leftarrow> payment_customer cfg q db;
         get_row_then cfg cc (st\<lparr>tx_db := db\<rparr>) (abort_txn cc) (\<lambda>st. do {
           let db = tx_db st;
           let db = db\<lparr>t_customer := (t_customer db)(r_cust := pay_customer (fl cfg) h (t_customer db r_cust))\<rparr>;
           let r_hist = \<lparr>H_C_ID = c_id q, H_C_D_ID = c_d_id q, H_C_W_ID = c_w_id q, H_D_ID = d_id q, H_W_ID = w_id q,
             H_DATE = 2013, H_AMOUNT = h\<rparr>;
           st \<leftarrow> tx_insert_row cfg (st\<lparr>tx_db := db\<lparr>t_history := t_history db @ [r_hist]\<rparr>\<rparr>);
           Some (tx_finish cc RCOK st) }) }) }) }"

section \<open>New order\<close>

text \<open>The stock quantity after an order of \<open>qty\<close> pieces, in \<open>uint64_t\<close>.\<close>

definition new_quantity :: "64 word \<Rightarrow> 64 word \<Rightarrow> 64 word" where
  "new_quantity s_quantity qty = (if s_quantity > qty + 10 then s_quantity - qty else s_quantity - qty + 91)"

definition order_stock :: "txn_cfg \<Rightarrow> bool \<Rightarrow> 64 word \<Rightarrow> s_record \<Rightarrow> s_record" where
  "order_stock cfg rem qty s =
     (let s = (if TPCC_SMALL cfg then s else s\<lparr>S_YTD := S_YTD s + qty, S_ORDER_CNT := S_ORDER_CNT s + 1\<rparr>);
          s = (if rem then s\<lparr>S_REMOTE_CNT := S_REMOTE_CNT s + 1\<rparr> else s)
      in s\<lparr>S_QUANTITY := new_quantity (S_QUANTITY s) qty\<rparr>)"

text \<open>
  The amount is computed with \<open>w_tax\<close> and \<open>d_tax\<close> equal to one.  The bulk insertion converts it to
  \<open>double\<close>; the other one copies the bytes of the integer.
\<close>

definition new_line :: "txn_cfg \<Rightarrow> tpcc_query \<Rightarrow> 64 word \<Rightarrow> 64 word \<Rightarrow> nat \<Rightarrow> Item_no \<Rightarrow> 64 word \<Rightarrow> ol_record" where
  "new_line cfg q o_id c_discount ol_number it i_price =
     (let l = (junk_ol cfg)\<lparr>OL_O_ID := o_id, OL_D_ID := d_id q, OL_W_ID := w_id q, OL_NUMBER := of_nat ol_number,
                OL_I_ID := ol_i_id it\<rparr>;
          ol_amount = ol_quantity it * i_price * (1 + 1 + 1) * (1 - c_discount)
      in if TPCC_SMALL cfg then l
         else l\<lparr>OL_SUPPLY_W_ID := ol_supply_w_id it, OL_QUANTITY := ol_quantity it,
                OL_AMOUNT := (if BULK_INSERT cfg then of_int64 (fl cfg) ol_amount else ol_amount)\<rparr>)"

definition new_row :: "txn \<Rightarrow> row_ptr \<times> txn" where
  "new_row st = (free_row (tx_db st), st\<lparr>tx_db := (tx_db st)\<lparr>free_row := Suc (free_row (tx_db st))\<rparr>\<rparr>)"

text \<open>The work on one line once its item and stock rows are there.\<close>

definition put_line :: "txn_cfg \<Rightarrow> tpcc_query \<Rightarrow> 64 word \<Rightarrow> 64 word \<Rightarrow> nat \<Rightarrow> Item_no \<Rightarrow> row_ptr \<Rightarrow> row_ptr
    \<Rightarrow> txn \<Rightarrow> txn option" where
  "put_line cfg q o_id c_discount ol_number it r_item r_stock st = do {
     let i_price = I_PRICE (t_item (tx_db st) r_item);
     let db = tx_db st;
     let db = db\<lparr>t_stock := (t_stock db)(r_stock := order_stock cfg (remote q) (ol_quantity it) (t_stock db r_stock))\<rparr>;
     let (r_ol, st) = new_row (st\<lparr>tx_db := db\<rparr>);
     let db = tx_db st;
     st \<leftarrow> tx_insert_row cfg (st\<lparr>tx_db := db\<lparr>t_orderline := (t_orderline db)(r_ol := new_line cfg q o_id c_discount ol_number it i_price)\<rparr>\<rparr>);
     insert_index cfg I_orderline (orderlineKey (wlc cfg) (w_id q) (d_id q) o_id) r_ol (d_to_part (w_id q) (d_id q)) st }"

definition item_row :: "Item_no \<Rightarrow> tpcc_db \<Rightarrow> row_ptr option" where
  "item_row it db = first_item (index db I_item 0 (ol_i_id it))"

definition stock_row :: "txn_cfg \<Rightarrow> Item_no \<Rightarrow> tpcc_db \<Rightarrow> row_ptr option" where
  "stock_row cfg it db = do {
     p \<leftarrow> wh_to_part (wlc cfg) (ol_supply_w_id it);
     first_item (index db I_stock p (stockKey (wlc cfg) (ol_i_id it) (ol_supply_w_id it))) }"

text \<open>The loop over the lines, which ends the transaction.\<close>

fun order_loop :: "txn_cfg \<Rightarrow> cc \<Rightarrow> tpcc_query \<Rightarrow> 64 word \<Rightarrow> 64 word \<Rightarrow> nat \<Rightarrow> Item_no list \<Rightarrow> txn
    \<Rightarrow> (RC \<times> tpcc_db) option" where
  "order_loop cfg cc q o_id c_discount ol_number [] st = Some (tx_finish cc RCOK st)"
| "order_loop cfg cc q o_id c_discount ol_number (it # its) st = do {
     r_item \<leftarrow> item_row it (tx_db st);
     get_row_then cfg cc st (abort_txn cc) (\<lambda>st. do {
       r_stock \<leftarrow> stock_row cfg it (tx_db st);
       get_row_then cfg cc st (abort_txn cc) (\<lambda>st. do {
         st \<leftarrow> put_line cfg q o_id c_discount ol_number it r_item r_stock st;
         order_loop cfg cc q o_id c_discount (Suc ol_number) its st }) }) }"

text \<open>
  With \<open>BATCHED_ACCESS\<close> the rows of all lines are looked up and accessed first, in arrays of fifteen
  pointers, and the loop finds them there.
\<close>

fun get_rows_then :: "txn_cfg \<Rightarrow> cc \<Rightarrow> nat \<Rightarrow> txn \<Rightarrow> (txn \<Rightarrow> 'r) \<Rightarrow> (txn \<Rightarrow> 'r) \<Rightarrow> 'r" where
  "get_rows_then cfg cc 0 st ab k = k st"
| "get_rows_then cfg cc (Suc n) st ab k = get_row_then cfg cc st ab (\<lambda>st. get_rows_then cfg cc n st ab k)"

fun batch_loop :: "txn_cfg \<Rightarrow> cc \<Rightarrow> tpcc_query \<Rightarrow> 64 word \<Rightarrow> 64 word \<Rightarrow> nat \<Rightarrow> (Item_no \<times> row_ptr \<times> row_ptr) list \<Rightarrow> txn
    \<Rightarrow> (RC \<times> tpcc_db) option" where
  "batch_loop cfg cc q o_id c_discount ol_number [] st = Some (tx_finish cc RCOK st)"
| "batch_loop cfg cc q o_id c_discount ol_number ((it, r_item, r_stock) # its) st = do {
     st \<leftarrow> put_line cfg q o_id c_discount ol_number it r_item r_stock st;
     batch_loop cfg cc q o_id c_discount (Suc ol_number) its st }"

definition batched_lines :: "txn_cfg \<Rightarrow> cc \<Rightarrow> tpcc_query \<Rightarrow> 64 word \<Rightarrow> 64 word \<Rightarrow> Item_no list \<Rightarrow> txn
    \<Rightarrow> (RC \<times> tpcc_db) option" where
  "batched_lines cfg cc q o_id c_discount its st =
     assert_then (length its \<le> 15) (do {
       stocks \<leftarrow> those (map (\<lambda>it. stock_row cfg it (tx_db st)) its);
       itms \<leftarrow> those (map (\<lambda>it. item_row it (tx_db st)) its);
       get_rows_then cfg cc (length its) st (abort_txn cc) (\<lambda>st.
         get_rows_then cfg cc (length its) st (abort_txn cc) (\<lambda>st.
           batch_loop cfg cc q o_id c_discount 0 (zip its (zip itms stocks)) st)) })"

text \<open>The rows of the order and of the new-order table and their index entries.\<close>

definition put_order :: "txn_cfg \<Rightarrow> tpcc_query \<Rightarrow> 64 word \<Rightarrow> txn \<Rightarrow> txn option" where
  "put_order cfg q o_id st = do {
     p \<leftarrow> wh_to_part (wlc cfg) (w_id q);
     let (r_order, st) = new_row st;
     let db = tx_db st;
     let o_rec = (junk_o cfg)\<lparr>O_ID := o_id, O_C_ID := c_id q, O_D_ID := d_id q, O_W_ID := w_id q,
       O_ENTRY_D := o_entry_d q, O_OL_CNT := of_nat (ol_cnt q), O_ALL_LOCAL := (if remote q then 0 else 1)\<rparr>;
     st \<leftarrow> tx_insert_row cfg (st\<lparr>tx_db := db\<lparr>t_order := (t_order db)(r_order := o_rec)\<rparr>\<rparr>);
     st \<leftarrow> insert_index cfg I_order (orderPrimaryKey (wlc cfg) (w_id q) (d_id q) o_id) r_order (d_to_part (w_id q) (d_id q)) st;
     st \<leftarrow> insert_index cfg I_order_cust (orderCustKey (wlc cfg) (d_id q) (c_id q)) r_order p st;
     let (r_no, st) = new_row st;
     let db = tx_db st;
     st \<leftarrow> tx_insert_row cfg (st\<lparr>tx_db := db\<lparr>t_neworder := (t_neworder db)(r_no := \<lparr>NO_O_ID = o_id, NO_D_ID = d_id q, NO_W_ID = w_id q\<rparr>)\<rparr>\<rparr>);
     insert_index cfg I_neworder (distKey (d_id q) (w_id q)) r_no p st }"

definition run_new_order :: "txn_cfg \<Rightarrow> bool \<Rightarrow> cc \<Rightarrow> tpcc_query \<Rightarrow> tpcc_db \<Rightarrow> (RC \<times> tpcc_db) option" where
  "run_new_order cfg batched cc q db = do {
     p \<leftarrow> wh_to_part (wlc cfg) (w_id q);
     r_wh \<leftarrow> first_item (index db I_warehouse p (w_id q));
     get_row_then cfg cc (begin_txn db) (abort_txn cc) (\<lambda>st. do {
       r_cust \<leftarrow> customer_by_id cfg (c_id q) (d_id q) (w_id q) (tx_db st);
       get_row_then cfg cc st (abort_txn cc) (\<lambda>st. do {
         let c_discount = C_DISCOUNT (t_customer (tx_db st) r_cust);
         r_dist \<leftarrow> first_item (index (tx_db st) I_district p (distKey (d_id q) (w_id q)));
         get_row_then cfg cc st (abort_txn cc) (\<lambda>st. do {
           let db = tx_db st;
           let o_id = D_NEXT_O_ID (t_district db r_dist);
           let db = db\<lparr>t_district := (t_district db)(r_dist := (t_district db r_dist)\<lparr>D_NEXT_O_ID := o_id + 1\<rparr>)\<rparr>;
           st \<leftarrow> put_order cfg q o_id (st\<lparr>tx_db := db\<rparr>);
           if batched then batched_lines cfg cc q o_id c_discount (order_lines q) st
           else order_loop cfg cc q o_id c_discount 0 (order_lines q) st }) }) }) }"

section \<open>Order status\<close>

fun read_lines_then :: "txn_cfg \<Rightarrow> cc \<Rightarrow> row_ptr list \<Rightarrow> txn \<Rightarrow> (txn \<Rightarrow> 'r) \<Rightarrow> (txn \<Rightarrow> 'r) \<Rightarrow> 'r" where
  "read_lines_then cfg cc [] st ab k = k st"
| "read_lines_then cfg cc (r # rs) st ab k = get_row_then cfg cc st ab (\<lambda>st. read_lines_then cfg cc rs st ab k)"

definition run_order_status :: "txn_cfg \<Rightarrow> cc \<Rightarrow> tpcc_query \<Rightarrow> tpcc_db \<Rightarrow> (RC \<times> tpcc_db) option" where
  "run_order_status cfg cc q db = do {
     r_cust \<leftarrow> (if by_last_name q then customer_by_name cfg (c_last q) (d_id q) (w_id q) db
                 else customer_by_id cfg (c_id q) (c_d_id q) (c_w_id q) db);
     get_row_then cfg cc (begin_txn db) (abort_txn cc) (\<lambda>st. do {
       let c = (if by_last_name q then C_ID (t_customer (tx_db st) r_cust) else c_id q);
       p \<leftarrow> wh_to_part (wlc cfg) (c_w_id q);
       r_order \<leftarrow> first_item (index (tx_db st) I_order_cust p (orderCustKey (wlc cfg) (d_id q) c));
       get_row_then cfg cc st (abort_txn cc) (\<lambda>st. do {
         let o_id = O_ID (t_order (tx_db st) r_order);
         let lines = index (tx_db st) I_orderline (d_to_part (w_id q) (d_id q)) (orderlineKey (wlc cfg) (w_id q) (d_id q) o_id);
         if lines = [] then abort_txn cc st
         else read_lines_then cfg cc lines st (abort_txn cc) (\<lambda>st. Some (tx_finish cc RCOK st)) }) }) }"

section \<open>Delivery\<close>

text \<open>The order lines of a delivered order: the delivery date and the sum of the amounts.\<close>

fun deliver_lines :: "txn_cfg \<Rightarrow> cc \<Rightarrow> tpcc_query \<Rightarrow> row_ptr list \<Rightarrow> 64 word \<Rightarrow> txn \<Rightarrow> (txn \<Rightarrow> 'r) \<Rightarrow> (64 word \<Rightarrow> txn \<Rightarrow> 'r) \<Rightarrow> 'r" where
  "deliver_lines cfg cc q [] amount st ab k = k amount st"
| "deliver_lines cfg cc q (r # rs) amount st ab k =
     get_row_then cfg cc st ab (\<lambda>st.
       let db = tx_db st; l = t_orderline db r;
           db' = (if TPCC_SMALL cfg then db
                  else db\<lparr>t_orderline := (t_orderline db)(r := l\<lparr>OL_DELIVERY_D := ol_delivery_d q\<rparr>)\<rparr>);
           ol_amount = (if TPCC_SMALL cfg then of_int64 (fl cfg) 0 else OL_AMOUNT l)
       in deliver_lines cfg cc q rs (fadd (fl cfg) amount ol_amount) (st\<lparr>tx_db := db'\<rparr>) ab k)"

text \<open>One district: its oldest new order is removed and delivered, if there is one.\<close>

definition deliver_district :: "txn_cfg \<Rightarrow> cc \<Rightarrow> tpcc_query \<Rightarrow> 64 word \<Rightarrow> txn \<Rightarrow> (txn \<Rightarrow> 'r option) \<Rightarrow> (txn \<Rightarrow> 'r option) \<Rightarrow> 'r option" where
  "deliver_district cfg cc q d st ab k = do {
     p \<leftarrow> wh_to_part (wlc cfg) (w_id q);
     let key = distKey d (w_id q);
     let waiting = index (tx_db st) I_neworder p key;
     if waiting = [] then k st
     else get_row_then cfg cc st ab (\<lambda>st. do {
       let no_o_id = NO_O_ID (t_neworder (tx_db st) (last waiting));
       st \<leftarrow> delete_index cfg I_neworder key p st;
       r_order \<leftarrow> first_item (index (tx_db st) I_order (d_to_part (w_id q) d) (orderPrimaryKey (wlc cfg) (w_id q) d no_o_id));
       get_row_then cfg cc st ab (\<lambda>st.
         let db = tx_db st; o_c_id = O_C_ID (t_order db r_order);
             db = db\<lparr>t_order := (t_order db)(r_order := (t_order db r_order)\<lparr>O_CARRIER_ID := o_carrier_id q\<rparr>)\<rparr>;
             lines = index db I_orderline (d_to_part (w_id q) d) (orderlineKey (wlc cfg) (w_id q) d no_o_id)
         in deliver_lines cfg cc q lines (of_int64 (fl cfg) 0) (st\<lparr>tx_db := db\<rparr>) ab (\<lambda>amount st. do {
              r_cust \<leftarrow> customer_by_id cfg o_c_id d (w_id q) (tx_db st);
              get_row_then cfg cc st ab (\<lambda>st.
                let db = tx_db st
                in k (st\<lparr>tx_db := db\<lparr>t_customer := (t_customer db)
                     (r_cust := (t_customer db r_cust)\<lparr>C_BALANCE := fsub (fl cfg) (C_BALANCE (t_customer db r_cust)) amount\<rparr>)\<rparr>\<rparr>)) })) }) }"

fun deliver_districts :: "txn_cfg \<Rightarrow> cc \<Rightarrow> tpcc_query \<Rightarrow> 64 word list \<Rightarrow> txn \<Rightarrow> (txn \<Rightarrow> 'r option) \<Rightarrow> (txn \<Rightarrow> 'r option) \<Rightarrow> 'r option" where
  "deliver_districts cfg cc q [] st ab k = k st"
| "deliver_districts cfg cc q (d # ds) st ab k =
     deliver_district cfg cc q d st ab (\<lambda>st. deliver_districts cfg cc q ds st ab k)"

text \<open>
  The flags are the array \<open>delivering\<close> with an element for each of \<open>NUM_WH\<close> warehouses, indexed by the
  number of the warehouse.  An abort returns before the flag is cleared.
\<close>

definition run_delivery :: "txn_cfg \<Rightarrow> cc \<Rightarrow> tpcc_query \<Rightarrow> bool list \<Rightarrow> tpcc_db \<Rightarrow> ((RC \<times> tpcc_db) \<times> bool list) option" where
  "run_delivery cfg cc q delivering db =
     assert_then (unat (w_id q) < length delivering)
       (if delivering ! unat (w_id q) then Some (tx_finish cc RCOK (begin_txn db), delivering)
        else let set_flag = delivering[unat (w_id q) := True]
          in deliver_districts cfg cc q [1, 2, 3, 4, 5, 6, 7, 8, 9, 10] (begin_txn db)
               (\<lambda>st. Some (tx_finish cc Abort st, set_flag))
               (\<lambda>st. Some (tx_finish cc RCOK st, set_flag[unat (w_id q) := False])))"

section \<open>Stock level\<close>

text \<open>The items of up to fifteen lines of an order; \<open>n\<close> is the number of entries of the array in use.\<close>

fun collect_lines :: "txn_cfg \<Rightarrow> cc \<Rightarrow> row_ptr list \<Rightarrow> 64 word list \<Rightarrow> txn \<Rightarrow> (txn \<Rightarrow> 'r option) \<Rightarrow> (64 word list \<Rightarrow> txn \<Rightarrow> 'r option) \<Rightarrow> 'r option" where
  "collect_lines cfg cc [] ids st ab k = k ids st"
| "collect_lines cfg cc (r # rs) ids st ab k =
     get_row_then cfg cc st ab (\<lambda>st.
       assert_then (length ids < 300)
         (let i = OL_I_ID (t_orderline (tx_db st) r)
          in assert_then (0 < i \<and> i \<le> 100000) (collect_lines cfg cc rs (ids @ [i]) st ab k)))"

fun collect_orders :: "txn_cfg \<Rightarrow> cc \<Rightarrow> tpcc_query \<Rightarrow> 64 word list \<Rightarrow> 64 word list \<Rightarrow> txn \<Rightarrow> (txn \<Rightarrow> 'r option) \<Rightarrow> (64 word list \<Rightarrow> txn \<Rightarrow> 'r option) \<Rightarrow> 'r option" where
  "collect_orders cfg cc q [] ids st ab k = k ids st"
| "collect_orders cfg cc q (oid # oids) ids st ab k =
     (let lines = index (tx_db st) I_orderline (d_to_part (w_id q) (d_id q)) (orderlineKey (wlc cfg) (w_id q) (d_id q) oid)
      in assert_then (lines \<noteq> [])
           (collect_lines cfg cc (take 15 lines) ids st ab (\<lambda>ids st. collect_orders cfg cc q oids ids st ab k)))"

text \<open>The count over the sorted items; \<open>prev\<close> is the item before, at first \<open>uint64_t(-1)\<close>.\<close>

fun count_low :: "txn_cfg \<Rightarrow> cc \<Rightarrow> tpcc_query \<Rightarrow> 64 word list \<Rightarrow> 64 word \<Rightarrow> nat \<Rightarrow> txn \<Rightarrow> (txn \<Rightarrow> 'r option) \<Rightarrow> (nat \<Rightarrow> txn \<Rightarrow> 'r option) \<Rightarrow> 'r option" where
  "count_low cfg cc q [] prev res st ab k = k res st"
| "count_low cfg cc q (i # ids) prev res st ab k =
     (if i \<noteq> prev
      then do {
        p \<leftarrow> wh_to_part (wlc cfg) (w_id q);
        r_stock \<leftarrow> first_item (index (tx_db st) I_stock p (stockKey (wlc cfg) i (w_id q)));
        get_row_then cfg cc st ab (\<lambda>st.
          count_low cfg cc q ids i (if S_QUANTITY (t_stock (tx_db st) r_stock) < threshold q then Suc res else res) st ab k) }
      else count_low cfg cc q ids prev res st ab k)"

text \<open>
  The last twenty orders of the district: \<open>i\<close> runs from \<open>o_id - 20\<close> to \<open>o_id - 1\<close> as a signed integer.
  The transaction returns \<open>RCOK\<close> whatever \<open>finish\<close> said; the count, which the code drops, is returned too.
\<close>

definition last_orders :: "64 word \<Rightarrow> 64 word list" where
  "last_orders o_id = map (\<lambda>j. o_id - 20 + of_nat j) [0..<20]"

definition run_stock_level :: "txn_cfg \<Rightarrow> cc \<Rightarrow> tpcc_query \<Rightarrow> tpcc_db \<Rightarrow> ((RC \<times> tpcc_db) \<times> nat option) option" where
  "run_stock_level cfg cc q db = do {
     p \<leftarrow> wh_to_part (wlc cfg) (w_id q);
     r_dist \<leftarrow> first_item (index db I_district p (distKey (d_id q) (w_id q)));
     let ab = (\<lambda>st. Some (tx_finish cc Abort st, None));
     get_row_then cfg cc (begin_txn db) ab (\<lambda>st.
       collect_orders cfg cc q (last_orders (D_NEXT_O_ID (t_district (tx_db st) r_dist))) [] st ab (\<lambda>ids st.
         count_low cfg cc q (sort ids) (- 1) 0 st ab (\<lambda>result st.
           Some ((RCOK, snd (tx_finish cc RCOK st)), Some result)))) }"

section \<open>The transaction manager\<close>

lemma begin_txn_simps [simp]:
  "tx_start (begin_txn db) = db" "tx_db (begin_txn db) = db" "row_cnt (begin_txn db) = 0" "insert_cnt (begin_txn db) = 0"
  "insert_index_ops (begin_txn db) = []" "delete_index_ops (begin_txn db) = []"
  by (simp_all add: begin_txn_def)

lemma first_item_simps [simp]: "first_item [] = None" "first_item (r # rs) = Some r"
  by (simp_all add: first_item_def)

lemma mid_item_drop: "mid_item it mid cnt = drop ((cnt + length it) div 2 - cnt div 2) mid"
proof (induction it arbitrary: mid cnt)
  case Nil
  then show ?case by simp
next
  case (Cons x it)
  have "Suc cnt div 2 = (if even (Suc cnt) then Suc (cnt div 2) else cnt div 2)" by (simp add: even_Suc_div_two odd_Suc_div_two)
  moreover have "Suc cnt div 2 \<le> (Suc cnt + length it) div 2" by (simp add: div_le_mono)
  ultimately show ?case by (auto simp: Cons.IH drop_Suc [symmetric] Suc_diff_Suc simp flip: drop_Suc)
qed

lemma customer_by_name_mid:
  "index db I_customer_last (w mod part_cnt (wlc cfg)) (custNPKey name d w) = xs \<Longrightarrow>
   wh_to_part (wlc cfg) w = Some (w mod part_cnt (wlc cfg)) \<Longrightarrow> xs \<noteq> [] \<Longrightarrow>
   customer_by_name cfg name d w db = Some (xs ! (length xs div 2))"
  by (simp add: customer_by_name_def mid_item_drop first_item_def Cons_nth_drop_Suc [symmetric])

lemma maintain_begin [simp]: "maintain_indexes (begin_txn db) = db"
  by (simp add: maintain_indexes_def)

section \<open>Payment\<close>

definition paid_db :: "txn_cfg \<Rightarrow> tpcc_query \<Rightarrow> row_ptr \<Rightarrow> row_ptr \<Rightarrow> row_ptr \<Rightarrow> tpcc_db \<Rightarrow> tpcc_db" where
  "paid_db cfg q rw rd rc db = (let h = of_int64 (fl cfg) (h_amount q) in
     db\<lparr>t_warehouse := (t_warehouse db)(rw := if g_wh_update cfg
           then (t_warehouse db rw)\<lparr>W_YTD := fadd (fl cfg) (W_YTD (t_warehouse db rw)) h\<rparr> else t_warehouse db rw),
        t_district := (t_district db)(rd := (t_district db rd)\<lparr>D_YTD := fadd (fl cfg) (D_YTD (t_district db rd)) h\<rparr>),
        t_customer := (t_customer db)(rc := pay_customer (fl cfg) h (t_customer db rc)),
        t_history := t_history db @ [\<lparr>H_C_ID = c_id q, H_C_D_ID = c_d_id q, H_C_W_ID = c_w_id q, H_D_ID = d_id q,
          H_W_ID = w_id q, H_DATE = 2013, H_AMOUNT = h\<rparr>]\<rparr>)"

lemma customer_same_index:
  "index db' = index db \<Longrightarrow> customer_by_name cfg name d w db' = customer_by_name cfg name d w db"
  "index db' = index db \<Longrightarrow> customer_by_id cfg c d w db' = customer_by_id cfg c d w db"
  by (simp_all add: customer_by_name_def customer_by_id_def)


section \<open>Witnesses\<close>

text \<open>
  One warehouse with row 0 in every table, one order with one line, and exact integers as \<open>double\<close>s.
\<close>

definition demo_wlc :: tpcc_cfg where
  "demo_wlc = \<lparr>num_wh = 1, part_cnt = 1, cust_per_dist = 3000, max_items = 100000, perc_remote_payment = 15,
     perc_remote_neworder = 1, first_part_local = True, enforce_numa_distance = False,
     enforce_numa_distance_remote_only = True, numa_distance = 0, numa_dist_matrix = (\<lambda>_ _. 0),
     threads_per_socket = 0, omp_num_threads = 1, this_node = 0\<rparr>"

definition demo_o :: o_record where
  "demo_o = \<lparr>O_ID = 30, O_C_ID = 7, O_D_ID = 1, O_W_ID = 1, O_ENTRY_D = 2013, O_CARRIER_ID = 0, O_OL_CNT = 1, O_ALL_LOCAL = 1\<rparr>"

definition demo_ol :: ol_record where
  "demo_ol = \<lparr>OL_O_ID = 30, OL_D_ID = 1, OL_W_ID = 1, OL_NUMBER = 0, OL_I_ID = 5, OL_SUPPLY_W_ID = 1, OL_DELIVERY_D = 0,
     OL_QUANTITY = 3, OL_AMOUNT = 9\<rparr>"

definition demo_tcfg :: txn_cfg where
  "demo_tcfg = \<lparr>wlc = demo_wlc, TPCC_SMALL = False, BULK_INSERT = True, g_wh_update = True, MAX_ROW_PER_TXN = 1024,
     MAX_WRITE_SET = 20, fl = \<lparr>fadd = (+), fsub = (-), of_int64 = (\<lambda>x. x)\<rparr>, junk_o = demo_o, junk_ol = demo_ol\<rparr>"

definition demo_db :: tpcc_db where
  "demo_db = \<lparr>t_warehouse = (\<lambda>_. \<lparr>W_YTD = 100\<rparr>), t_district = (\<lambda>_. \<lparr>D_YTD = 10, D_NEXT_O_ID = 31\<rparr>),
     t_customer = (\<lambda>_. \<lparr>C_ID = 7, C_DISCOUNT = 0, C_BALANCE = 50, C_YTD_PAYMENT = 0, C_PAYMENT_CNT = 1\<rparr>), t_history = [],
     t_neworder = (\<lambda>_. \<lparr>NO_O_ID = 30, NO_D_ID = 1, NO_W_ID = 1\<rparr>), t_order = (\<lambda>_. demo_o), t_orderline = (\<lambda>_. demo_ol),
     t_item = (\<lambda>_. \<lparr>I_PRICE = 2\<rparr>), t_stock = (\<lambda>_. \<lparr>S_QUANTITY = 14, S_YTD = 0, S_ORDER_CNT = 0, S_REMOTE_CNT = 0\<rparr>),
     free_row = 1, index = (\<lambda>ix p k. if ix = I_neworder \<and> k \<noteq> distKey 1 1 then [] else [0])\<rparr>"

definition demo_tq :: tpcc_query where
  "demo_tq = demo_query\<lparr>w_id := 1, d_id := 1, c_id := 7, d_w_id := 1, c_w_id := 1, c_d_id := 1, h_amount := 20,
     items := [\<lparr>ol_i_id = 5, ol_supply_w_id = 1, ol_quantity = 3\<rparr>], ol_cnt := 1, part_to_access := [0], threshold := 15\<rparr>"

definition demo_cc :: "bool \<Rightarrow> bool \<Rightarrow> cc" where
  "demo_cc g v = \<lparr>granted = (\<lambda>_. g), validates = v\<rparr>"

lemma demo_cfg_simps [simp]:
  "MAX_ROW_PER_TXN demo_tcfg = 1024" "MAX_WRITE_SET demo_tcfg = 20" "g_wh_update demo_tcfg" "\<not> TPCC_SMALL demo_tcfg"
  "fl demo_tcfg = \<lparr>fadd = (+), fsub = (-), of_int64 = (\<lambda>x. x)\<rparr>" "wlc demo_tcfg = demo_wlc" "wh_to_part demo_wlc w = Some 0"
  "granted (demo_cc g v) n = g" "validates (demo_cc g v) = v"
  by (simp_all add: demo_tcfg_def demo_cc_def wh_to_part_def demo_wlc_def)

lemma demo_db_simps [simp]:
  "t_warehouse demo_db r = \<lparr>W_YTD = 100\<rparr>" "t_district demo_db r = \<lparr>D_YTD = 10, D_NEXT_O_ID = 31\<rparr>"
  "t_stock demo_db r = \<lparr>S_QUANTITY = 14, S_YTD = 0, S_ORDER_CNT = 0, S_REMOTE_CNT = 0\<rparr>"
  "t_customer demo_db r = \<lparr>C_ID = 7, C_DISCOUNT = 0, C_BALANCE = 50, C_YTD_PAYMENT = 0, C_PAYMENT_CNT = 1\<rparr>"
  "t_neworder demo_db r = \<lparr>NO_O_ID = 30, NO_D_ID = 1, NO_W_ID = 1\<rparr>" "t_order demo_db r = demo_o" "t_orderline demo_db r = demo_ol"
  "ix \<noteq> I_neworder \<Longrightarrow> index demo_db ix p k = [0]" "index demo_db I_neworder p k = (if k = distKey 1 1 then [0] else [])"
  by (simp_all add: demo_db_def)

lemma demo_tq_simps [simp]:
  "order_lines demo_tq = [\<lparr>ol_i_id = 5, ol_supply_w_id = 1, ol_quantity = 3\<rparr>]" "w_id demo_tq = 1" "d_id demo_tq = 1"
  "c_id demo_tq = 7" "h_amount demo_tq = 20" "payment_customer demo_tcfg demo_tq demo_db = Some 0" "threshold demo_tq = 15"
  by (simp_all add: demo_tq_def demo_query_def order_lines_def payment_customer_def customer_by_id_def)

lemma demo_rows [simp]:
  "customer_by_id demo_tcfg c d w demo_db = Some 0" "item_row it demo_db = Some 0" "stock_row demo_tcfg it demo_db = Some 0"
  by (simp_all add: customer_by_id_def item_row_def stock_row_def)


end
