(* ===== verification/TPCC_New_Order.thy ===== *)
theory TPCC_New_Order
  imports TPCC_Txn
begin

text \<open>
  The new-order transaction of \<open>TPCC_Txn\<close>: its lines as one function without the accesses, the equality of the
  batched and the plain variant, what a committed order leaves in the tables and indexes, and the range
  of the stock quantities.
\<close>

section \<open>New order\<close>

text \<open>The work of a new order on its lines, apart from the accesses.\<close>

fun put_lines :: "txn_cfg \<Rightarrow> tpcc_query \<Rightarrow> 64 word \<Rightarrow> 64 word \<Rightarrow> nat \<Rightarrow> Item_no list \<Rightarrow> txn \<Rightarrow> txn option" where
  "put_lines cfg q oid disc n [] st = Some st"
| "put_lines cfg q oid disc n (it # its) st = do {
     ri \<leftarrow> item_row it (tx_db st);
     rs \<leftarrow> stock_row cfg it (tx_db st);
     st \<leftarrow> put_line cfg q oid disc n it ri rs st;
     put_lines cfg q oid disc (Suc n) its st }"

lemma put_line_eq:
  "put_line cfg q oid disc n it ri rs st =
     assert_then (insert_cnt st < MAX_WRITE_SET cfg \<and> length (insert_index_ops st) < MAX_WRITE_SET cfg)
       (Some (st\<lparr>tx_db := (tx_db st)\<lparr>
            t_orderline := (t_orderline (tx_db st))(free_row (tx_db st) := new_line cfg q oid disc n it (I_PRICE (t_item (tx_db st) ri))),
            t_stock := (t_stock (tx_db st))(rs := order_stock cfg (remote q) (ol_quantity it) (t_stock (tx_db st) rs)),
            free_row := Suc (free_row (tx_db st))\<rparr>,
          insert_cnt := Suc (insert_cnt st),
          insert_index_ops := insert_index_ops st @
            [(I_orderline, orderlineKey (wlc cfg) (w_id q) (d_id q) oid, free_row (tx_db st), d_to_part (w_id q) (d_id q))]\<rparr>))"
  by (auto simp: put_line_def new_row_def tx_insert_row_def insert_index_def assert_then_def Let_def)

lemma row_same_index:
  "index db' = index db \<Longrightarrow> item_row it db' = item_row it db"
  "index db' = index db \<Longrightarrow> stock_row cfg it db' = stock_row cfg it db"
  by (simp_all add: item_row_def stock_row_def)

lemma put_line_frame:
  "put_line cfg q oid disc n it ri rs st = Some st' \<Longrightarrow> index (tx_db st') = index (tx_db st) \<and> row_cnt st' = row_cnt st"
  by (auto simp: put_line_eq)

lemma put_line_row_cnt:
  "put_line cfg q oid disc n it ri rs (st\<lparr>row_cnt := k\<rparr>) =
     map_option (\<lambda>st'. st'\<lparr>row_cnt := k\<rparr>) (put_line cfg q oid disc n it ri rs st)"
  by (auto simp: put_line_eq assert_then_def)

lemma put_lines_row_cnt:
  "put_lines cfg q oid disc n its (st\<lparr>row_cnt := k\<rparr>) =
     map_option (\<lambda>st'. st'\<lparr>row_cnt := k\<rparr>) (put_lines cfg q oid disc n its st)"
proof (induction its arbitrary: n st)
  case (Cons it its)
  show ?case
    by (cases "item_row it (tx_db st)"; cases "stock_row cfg it (tx_db st)")
      (auto simp: put_line_row_cnt Cons.IH bind_map_option comp_def split: Option.bind_split)
qed simp

lemma finish_row_cnt [simp]: "tx_finish cc rc (st\<lparr>row_cnt := k\<rparr>) = tx_finish cc rc st"
  by (simp add: tx_finish_def maintain_indexes_def)

lemma order_loop_granted:
  assumes g: "\<forall>n. granted cc n" and "row_cnt st + 2 * length its \<le> MAX_ROW_PER_TXN cfg"
  shows "order_loop cfg cc q oid disc n its st = map_option (tx_finish cc RCOK) (put_lines cfg q oid disc n its st)"
  using assms(2)
proof (induction its arbitrary: n st)
  case (Cons it its)
  show ?case
  proof (cases "item_row it (tx_db st)")
    case (Some ri)
    show ?thesis
    proof (cases "stock_row cfg it (tx_db st)")
      case rs: (Some rs)
      let ?put = "put_line cfg q oid disc n it ri rs"
      have "order_loop cfg cc q oid disc n (it # its) st =
          ?put (st\<lparr>row_cnt := Suc (Suc (row_cnt st))\<rparr>) \<bind> order_loop cfg cc q oid disc (Suc n) its"
        using g Cons.prems Some rs by (simp add: get_row_then_def)
      also have "\<dots> = map_option (tx_finish cc RCOK) (?put st \<bind> put_lines cfg q oid disc (Suc n) its)"
      proof (cases "?put st")
        case None
        then show ?thesis by (simp add: put_line_row_cnt)
      next
        case st1: (Some st1)
        let ?st2 = "st1\<lparr>row_cnt := Suc (Suc (row_cnt st))\<rparr>"
        have "order_loop cfg cc q oid disc (Suc n) its ?st2 = map_option (tx_finish cc RCOK) (put_lines cfg q oid disc (Suc n) its ?st2)"
          by (rule Cons.IH) (use Cons.prems in simp)
        then show ?thesis using st1 by (simp add: put_line_row_cnt put_lines_row_cnt option.map_comp comp_def)
      qed
      finally show ?thesis using Some rs by simp
    qed (use Some g Cons.prems in \<open>simp add: get_row_then_def\<close>)
  qed simp
qed simp

lemma get_rows_granted:
  assumes "\<forall>n. granted cc n" and "row_cnt st + k \<le> MAX_ROW_PER_TXN cfg"
  shows "get_rows_then cfg cc k st ab f = f (st\<lparr>row_cnt := row_cnt st + k\<rparr>)"
  using assms(2)
proof (induction k arbitrary: st)
  case (Suc k)
  then show ?case using assms(1) by (simp add: get_row_then_def)
qed simp

lemma batch_loop_put_lines:
  assumes "index (tx_db st) = index db"
  shows "do { stocks \<leftarrow> those (map (\<lambda>it. stock_row cfg it db) its);
              itms \<leftarrow> those (map (\<lambda>it. item_row it db) its);
              batch_loop cfg cc q oid disc n (zip its (zip itms stocks)) st } =
    map_option (tx_finish cc RCOK) (put_lines cfg q oid disc n its st)"
  using assms
proof (induction its arbitrary: n st)
  case (Cons it its)
  show ?case
  proof (cases "item_row it db = None \<or> stock_row cfg it db = None")
    case True
    then have "put_lines cfg q oid disc n (it # its) st = None"
      using row_same_index [OF Cons.prems] by (auto split: Option.bind_split)
    then show ?thesis using True by (auto split: Option.bind_split option.split)
  next
    case False
    then obtain ri rs where r: "item_row it db = Some ri" "stock_row cfg it db = Some rs" by auto
    show ?thesis
    proof (cases "put_line cfg q oid disc n it ri rs st")
      case None
      then show ?thesis using r row_same_index [OF Cons.prems]
        by (auto split: Option.bind_split option.split simp: map_option_case)
    next
      case (Some st1)
      from put_line_frame [OF Some] Cons.prems have "index (tx_db st1) = index db" by simp
      from Cons.IH [OF this, of "Suc n"] show ?thesis using r Some row_same_index [OF Cons.prems]
        by (auto simp: bind_map_option comp_def split: Option.bind_split option.split)
    qed
  qed
qed simp

lemma batched_lines_granted:
  assumes "\<forall>n. granted cc n" and "row_cnt st + 2 * length its \<le> MAX_ROW_PER_TXN cfg" and "length its \<le> 15"
  shows "batched_lines cfg cc q oid disc its st = map_option (tx_finish cc RCOK) (put_lines cfg q oid disc 0 its st)"
proof -
  let ?st = "st\<lparr>row_cnt := row_cnt st + length its + length its\<rparr>"
  have "batched_lines cfg cc q oid disc its st =
    do { stocks \<leftarrow> those (map (\<lambda>it. stock_row cfg it (tx_db st)) its);
         itms \<leftarrow> those (map (\<lambda>it. item_row it (tx_db st)) its);
         batch_loop cfg cc q oid disc 0 (zip its (zip itms stocks)) ?st }"
    using assms by (simp add: batched_lines_def get_rows_granted)
  also have "\<dots> = map_option (tx_finish cc RCOK) (put_lines cfg q oid disc 0 its ?st)"
    by (rule batch_loop_put_lines) simp
  finally show ?thesis by (simp add: put_lines_row_cnt option.map_comp comp_def)
qed

text \<open>The accesses before the lines: warehouse, customer and district.\<close>

lemma put_order_row_cnt: "put_order cfg q oid st = Some st' \<Longrightarrow> row_cnt st' = row_cnt st \<and> index (tx_db st') = index (tx_db st)"
  by (auto simp: put_order_def new_row_def tx_insert_row_def insert_index_def Let_def split: Option.bind_splits)

text \<open>
  C11. The batched access changes nothing but the order of the accesses: when all rows are granted and
  the arrays of fifteen pointers suffice, \<open>run_new_order\<close> with \<open>BATCHED_ACCESS\<close> returns what it returns
  without it, missing index entries and full buffers included.
\<close>

theorem batched_new_order_same:
  assumes "\<forall>n. granted cc n" and "3 + 2 * length (order_lines q) \<le> MAX_ROW_PER_TXN cfg" and "length (order_lines q) \<le> 15"
  shows "run_new_order cfg True cc q db = run_new_order cfg False cc q db"
proof -
  have same: "batched_lines cfg cc q oid disc (order_lines q) st = order_loop cfg cc q oid disc 0 (order_lines q) st"
    if "row_cnt st = 3" for oid disc st
    using batched_lines_granted [of cc st "order_lines q" cfg q oid disc]
      order_loop_granted [of cc st "order_lines q" cfg q oid disc 0] assms that by simp
  have "3 \<le> MAX_ROW_PER_TXN cfg" using assms(2) by simp
  then show ?thesis unfolding run_new_order_def
    using assms(1) by (auto simp: get_row_then_def Let_def same dest!: put_order_row_cnt intro!: Option.bind_cong)
qed

text \<open>What the lines leave behind, when their rows are found and the buffers suffice.\<close>

lemma put_lines_ok:
  assumes "\<forall>it\<in>set its. item_row it (tx_db st) = Some (ri it) \<and> stock_row cfg it (tx_db st) = Some (rs it)"
    and "insert_cnt st + length its \<le> MAX_WRITE_SET cfg" and "length (insert_index_ops st) + length its \<le> MAX_WRITE_SET cfg"
    and "distinct (map rs its)"
  shows "\<exists>st' X Y. put_lines cfg q oid disc n its st = Some st' \<and> tx_start st' = tx_start st \<and>
    delete_index_ops st' = delete_index_ops st \<and>
    insert_index_ops st' = insert_index_ops st @ map (\<lambda>j. (I_orderline, orderlineKey (wlc cfg) (w_id q) (d_id q) oid,
        free_row (tx_db st) + j, d_to_part (w_id q) (d_id q))) [0..<length its] \<and>
    tx_db st' = (tx_db st)\<lparr>t_orderline := X, t_stock := Y, free_row := free_row (tx_db st) + length its\<rparr> \<and>
    (\<forall>j<length its. X (free_row (tx_db st) + j) = new_line cfg q oid disc (n + j) (its ! j) (I_PRICE (t_item (tx_db st) (ri (its ! j))))) \<and>
    (\<forall>r<free_row (tx_db st). X r = t_orderline (tx_db st) r) \<and>
    (\<forall>it\<in>set its. Y (rs it) = order_stock cfg (remote q) (ol_quantity it) (t_stock (tx_db st) (rs it))) \<and>
    (\<forall>r. r \<notin> rs ` set its \<longrightarrow> Y r = t_stock (tx_db st) r)"
  using assms
proof (induction its arbitrary: n st)
  case Nil
  then show ?case
    by (intro exI [of _ st] exI [of _ "t_orderline (tx_db st)"] exI [of _ "t_stock (tx_db st)"]) simp
next
  case (Cons it its)
  let ?f = "free_row (tx_db st)" and ?key = "orderlineKey (wlc cfg) (w_id q) (d_id q) oid" and ?part = "d_to_part (w_id q) (d_id q)"
  let ?l = "new_line cfg q oid disc n it (I_PRICE (t_item (tx_db st) (ri it)))"
  obtain st1 where st1: "put_line cfg q oid disc n it (ri it) (rs it) st = Some st1"
    using Cons.prems(2,3) by (simp add: put_line_eq)
  have db1: "tx_db st1 = (tx_db st)\<lparr>t_orderline := (t_orderline (tx_db st))(?f := ?l),
      t_stock := (t_stock (tx_db st))(rs it := order_stock cfg (remote q) (ol_quantity it) (t_stock (tx_db st) (rs it))),
      free_row := Suc ?f\<rparr>"
    and ops1: "insert_index_ops st1 = insert_index_ops st @ [(I_orderline, ?key, ?f, ?part)]"
    and st1': "insert_cnt st1 = Suc (insert_cnt st)" "tx_start st1 = tx_start st" "delete_index_ops st1 = delete_index_ops st"
    using st1 by (auto simp: put_line_eq)
  have look: "\<forall>it\<in>set its. item_row it (tx_db st1) = Some (ri it) \<and> stock_row cfg it (tx_db st1) = Some (rs it)"
    using Cons.prems(1) row_same_index [of "tx_db st1" "tx_db st"] put_line_frame [OF st1] by simp
  from Cons.IH [OF look, of "Suc n"] Cons.prems(2-4) st1' ops1 obtain st' X Y where
    IH: "put_lines cfg q oid disc (Suc n) its st1 = Some st'" "tx_start st' = tx_start st"
      "delete_index_ops st' = delete_index_ops st"
      "insert_index_ops st' = insert_index_ops st1 @ map (\<lambda>j. (I_orderline, ?key, Suc ?f + j, ?part)) [0..<length its]"
      "tx_db st' = (tx_db st1)\<lparr>t_orderline := X, t_stock := Y, free_row := Suc ?f + length its\<rparr>"
      "\<forall>j<length its. X (Suc ?f + j) = new_line cfg q oid disc (Suc n + j) (its ! j) (I_PRICE (t_item (tx_db st) (ri (its ! j))))"
      "\<forall>r<Suc ?f. X r = t_orderline (tx_db st1) r"
      "\<forall>it\<in>set its. Y (rs it) = order_stock cfg (remote q) (ol_quantity it) (t_stock (tx_db st1) (rs it))"
      "\<forall>r. r \<notin> rs ` set its \<longrightarrow> Y r = t_stock (tx_db st1) r"
    by (auto simp: db1)
  have "X ?f = ?l" using IH(7) by (simp add: db1)
  then have "\<forall>j<length (it # its). X (?f + j) = new_line cfg q oid disc (n + j) ((it # its) ! j)
      (I_PRICE (t_item (tx_db st) (ri ((it # its) ! j))))"
    using IH(6) by (auto simp: less_Suc_eq_0_disj)
  moreover have "\<forall>r<?f. X r = t_orderline (tx_db st) r" using IH(7) by (simp add: db1)
  moreover have "\<forall>x\<in>set (it # its). Y (rs x) = order_stock cfg (remote q) (ol_quantity x) (t_stock (tx_db st) (rs x))"
    using IH(8,9) Cons.prems(4) by (auto simp: db1 image_iff)
  moreover have "\<forall>r. r \<notin> rs ` set (it # its) \<longrightarrow> Y r = t_stock (tx_db st) r" using IH(9) by (simp add: db1)
  moreover have "insert_index_ops st' = insert_index_ops st @ map (\<lambda>j. (I_orderline, ?key, ?f + j, ?part)) [0..<length (it # its)]"
    using IH(4) by (simp add: ops1 upt_conv_Cons map_Suc_upt [symmetric] comp_def del: upt_Suc)
  moreover have "tx_db st' = (tx_db st)\<lparr>t_orderline := X, t_stock := Y, free_row := ?f + length (it # its)\<rparr>"
    using IH(5) by (simp add: db1)
  moreover have "put_lines cfg q oid disc n (it # its) st = Some st'" using Cons.prems(1) st1 IH(1) by simp
  ultimately show ?case using IH(2,3) by blast
qed

definition idx_entries :: "(INDEX \<times> 64 word \<times> row_ptr \<times> 64 word) list \<Rightarrow> INDEX \<Rightarrow> 64 word \<Rightarrow> 64 word \<Rightarrow> row_ptr list" where
  "idx_entries ops j p k = rev (map (\<lambda>(ix, key, r, pid). r) (filter (\<lambda>(ix, key, r, pid). ix = j \<and> pid = p \<and> key = k) ops))"

lemma fold_idx_insert: "fold idx_insert ops db = db\<lparr>index := \<lambda>j p k. idx_entries ops j p k @ index db j p k\<rparr>"
proof (induction ops arbitrary: db)
  case (Cons op ops)
  then show ?case by (cases op) (auto simp: idx_insert_def idx_entries_def fun_eq_iff)
qed (simp add: idx_entries_def)

lemma idx_entries_simps [simp]:
  "idx_entries [] j p k = []"
  "idx_entries (xs @ ys) j p k = idx_entries ys j p k @ idx_entries xs j p k"
  "idx_entries ((ix, key, r, pid) # ops) j p k =
     idx_entries ops j p k @ (if ix = j \<and> pid = p \<and> key = k then [r] else [])"
  by (simp_all add: idx_entries_def)

lemma idx_entries_lines [simp]:
  "idx_entries (map (\<lambda>i. (ix, key, f i, pid)) xs) j p k = (if ix = j \<and> pid = p \<and> key = k then rev (map f xs) else [])"
  by (induction xs) auto

lemma put_order_eq:
  assumes "wh_to_part (wlc cfg) (w_id q) = Some p" and "insert_cnt st + 2 \<le> MAX_WRITE_SET cfg"
    and "length (insert_index_ops st) + 3 \<le> MAX_WRITE_SET cfg"
  shows "put_order cfg q oid st = Some (st\<lparr>
    tx_db := (tx_db st)\<lparr>
      t_order := (t_order (tx_db st))(free_row (tx_db st) := (junk_o cfg)\<lparr>O_ID := oid, O_C_ID := c_id q, O_D_ID := d_id q,
        O_W_ID := w_id q, O_ENTRY_D := o_entry_d q, O_OL_CNT := of_nat (ol_cnt q), O_ALL_LOCAL := (if remote q then 0 else 1)\<rparr>),
      t_neworder := (t_neworder (tx_db st))(Suc (free_row (tx_db st)) := \<lparr>NO_O_ID = oid, NO_D_ID = d_id q, NO_W_ID = w_id q\<rparr>),
      free_row := Suc (Suc (free_row (tx_db st)))\<rparr>,
    insert_cnt := insert_cnt st + 2,
    insert_index_ops := insert_index_ops st @
      [(I_order, orderPrimaryKey (wlc cfg) (w_id q) (d_id q) oid, free_row (tx_db st), d_to_part (w_id q) (d_id q)),
       (I_order_cust, orderCustKey (wlc cfg) (d_id q) (c_id q), free_row (tx_db st), p),
       (I_neworder, distKey (d_id q) (w_id q), Suc (free_row (tx_db st)), p)]\<rparr>)"
  using assms by (simp add: put_order_def new_row_def tx_insert_row_def insert_index_def Let_def)

text \<open>The database after a committed new order.\<close>

definition ordered_db :: "txn_cfg \<Rightarrow> tpcc_query \<Rightarrow> row_ptr \<Rightarrow> row_ptr \<Rightarrow> (Item_no \<Rightarrow> row_ptr) \<Rightarrow> (Item_no \<Rightarrow> row_ptr) \<Rightarrow> 64 word
    \<Rightarrow> tpcc_db \<Rightarrow> tpcc_db \<Rightarrow> bool" where
  "ordered_db cfg q rcust rdist ri rs p db db' =
     (let oid = D_NEXT_O_ID (t_district db rdist); ro = free_row db; part = d_to_part (w_id q) (d_id q);
          n = length (order_lines q); lines = map (\<lambda>j. ro + 2 + j) [0..<n]
      in t_district db' = (t_district db)(rdist := (t_district db rdist)\<lparr>D_NEXT_O_ID := oid + 1\<rparr>) \<and>
         index db' = (\<lambda>j k' key. 
           (if j = I_order \<and> k' = part \<and> key = orderPrimaryKey (wlc cfg) (w_id q) (d_id q) oid then [ro]
            else if j = I_order_cust \<and> k' = p \<and> key = orderCustKey (wlc cfg) (d_id q) (c_id q) then [ro]
            else if j = I_neworder \<and> k' = p \<and> key = distKey (d_id q) (w_id q) then [ro + 1]
            else if j = I_orderline \<and> k' = part \<and> key = orderlineKey (wlc cfg) (w_id q) (d_id q) oid then rev lines
            else []) @ index db j k' key) \<and>
         (O_ID (t_order db' ro), O_C_ID (t_order db' ro), O_D_ID (t_order db' ro), O_W_ID (t_order db' ro)) =
           (oid, c_id q, d_id q, w_id q) \<and>
         t_neworder db' (ro + 1) = \<lparr>NO_O_ID = oid, NO_D_ID = d_id q, NO_W_ID = w_id q\<rparr> \<and>
         (\<forall>j<n. t_orderline db' (lines ! j) = new_line cfg q oid (C_DISCOUNT (t_customer db rcust)) j (order_lines q ! j)
             (I_PRICE (t_item db (ri (order_lines q ! j))))) \<and>
         (\<forall>it\<in>set (order_lines q). t_stock db' (rs it) = order_stock cfg (remote q) (ol_quantity it) (t_stock db (rs it))) \<and>
         (\<forall>r. r \<notin> rs ` set (order_lines q) \<longrightarrow> t_stock db' r = t_stock db r) \<and>
         t_warehouse db' = t_warehouse db \<and> t_customer db' = t_customer db \<and> t_history db' = t_history db \<and> t_item db' = t_item db)"

lemma new_order_effect:
  assumes p: "wh_to_part (wlc cfg) (w_id q) = Some p" and rw: "index db I_warehouse p (w_id q) = rw # ws"
    and rc: "customer_by_id cfg (c_id q) (d_id q) (w_id q) db = Some rcust"
    and rd: "index db I_district p (distKey (d_id q) (w_id q)) = rdist # ds"
    and look: "\<forall>it\<in>set (order_lines q). item_row it db = Some (ri it) \<and> stock_row cfg it db = Some (rs it)"
    and dist: "distinct (map rs (order_lines q))" and cc: "\<forall>n. granted cc n" "validates cc"
    and rows: "3 + 2 * length (order_lines q) \<le> MAX_ROW_PER_TXN cfg" and buf: "3 + length (order_lines q) \<le> MAX_WRITE_SET cfg"
  shows "\<exists>db'. run_new_order cfg False cc q db = Some (RCOK, db') \<and> ordered_db cfg q rcust rdist ri rs p db db'"
proof -
  let ?oid = "D_NEXT_O_ID (t_district db rdist)" and ?disc = "C_DISCOUNT (t_customer db rcust)"
  let ?db1 = "db\<lparr>t_district := (t_district db)(rdist := (t_district db rdist)\<lparr>D_NEXT_O_ID := ?oid + 1\<rparr>)\<rparr>"
  let ?st1 = "(begin_txn db)\<lparr>row_cnt := 3, tx_db := ?db1\<rparr>"
  let ?n = "length (order_lines q)"
  have "insert_cnt ?st1 + 2 \<le> MAX_WRITE_SET cfg" "length (insert_index_ops ?st1) + 3 \<le> MAX_WRITE_SET cfg" using buf by simp_all
  note put = put_order_eq [OF p this, of ?oid]
  obtain st2 where st2: "put_order cfg q ?oid ?st1 = Some st2" using put by blast
  have st2f: "tx_start st2 = db" "row_cnt st2 = 3" "insert_cnt st2 = 2" "delete_index_ops st2 = []"
    "index (tx_db st2) = index db" "free_row (tx_db st2) = free_row db + 2" "t_item (tx_db st2) = t_item db" "t_stock (tx_db st2) = t_stock db"
    using st2 put by auto
  have db2: "t_district (tx_db st2) = t_district ?db1" "t_warehouse (tx_db st2) = t_warehouse db" "t_customer (tx_db st2) = t_customer db"
    "t_history (tx_db st2) = t_history db" "t_item (tx_db st2) = t_item db"
    "t_neworder (tx_db st2) (free_row db + 1) = \<lparr>NO_O_ID = ?oid, NO_D_ID = d_id q, NO_W_ID = w_id q\<rparr>"
    "O_ID (t_order (tx_db st2) (free_row db)) = ?oid" "O_C_ID (t_order (tx_db st2) (free_row db)) = c_id q"
    "O_D_ID (t_order (tx_db st2) (free_row db)) = d_id q" "O_W_ID (t_order (tx_db st2) (free_row db)) = w_id q"
    using st2 put by auto
  have ops2: "insert_index_ops st2 =
      [(I_order, orderPrimaryKey (wlc cfg) (w_id q) (d_id q) ?oid, free_row db, d_to_part (w_id q) (d_id q)),
       (I_order_cust, orderCustKey (wlc cfg) (d_id q) (c_id q), free_row db, p),
       (I_neworder, distKey (d_id q) (w_id q), free_row db + 1, p)]" using st2 put by auto
  have "\<forall>it\<in>set (order_lines q). item_row it (tx_db st2) = Some (ri it) \<and> stock_row cfg it (tx_db st2) = Some (rs it)"
    using look row_same_index [OF st2f(5)] by simp
  moreover have "insert_cnt st2 + ?n \<le> MAX_WRITE_SET cfg" "length (insert_index_ops st2) + ?n \<le> MAX_WRITE_SET cfg"
    using buf by (simp_all add: st2f ops2)
  ultimately obtain st3 X Y where l: "put_lines cfg q ?oid ?disc 0 (order_lines q) st2 = Some st3"
    "tx_start st3 = db" "delete_index_ops st3 = []"
    "insert_index_ops st3 = insert_index_ops st2 @ map (\<lambda>j. (I_orderline, orderlineKey (wlc cfg) (w_id q) (d_id q) ?oid,
        free_row db + 2 + j, d_to_part (w_id q) (d_id q))) [0..<?n]"
    "tx_db st3 = (tx_db st2)\<lparr>t_orderline := X, t_stock := Y, free_row := free_row db + 2 + ?n\<rparr>"
    "\<forall>j<?n. X (free_row db + 2 + j) = new_line cfg q ?oid ?disc j (order_lines q ! j) (I_PRICE (t_item db (ri (order_lines q ! j))))"
    "\<forall>it\<in>set (order_lines q). Y (rs it) = order_stock cfg (remote q) (ol_quantity it) (t_stock db (rs it))"
    "\<forall>r. r \<notin> rs ` set (order_lines q) \<longrightarrow> Y r = t_stock db r"
    using put_lines_ok [OF _ _ _ dist, of st2 ri cfg q ?oid ?disc 0] st2f by auto
  have "order_loop cfg cc q ?oid ?disc 0 (order_lines q) st2 = Some (tx_finish cc RCOK st3)"
    using order_loop_granted [OF cc(1), of st2 "order_lines q" cfg q ?oid ?disc 0] rows l(1) st2f(2) by simp
  then have "run_new_order cfg False cc q db = Some (RCOK, maintain_indexes st3)"
    using p rw rc rd cc rows st2
    by (simp add: run_new_order_def get_row_then_def tx_finish_def eval_nat_numeral)
  moreover have "maintain_indexes st3 = (tx_db st3)\<lparr>index := \<lambda>j k key. idx_entries (insert_index_ops st3) j k key @ index db j k key\<rparr>"
    by (simp add: maintain_indexes_def fold_idx_insert l(3,5) st2f(5))
  moreover have "idx_entries (insert_index_ops st3) j k key =
      (if j = I_order \<and> k = d_to_part (w_id q) (d_id q) \<and> key = orderPrimaryKey (wlc cfg) (w_id q) (d_id q) ?oid then [free_row db]
       else if j = I_order_cust \<and> k = p \<and> key = orderCustKey (wlc cfg) (d_id q) (c_id q) then [free_row db]
       else if j = I_neworder \<and> k = p \<and> key = distKey (d_id q) (w_id q) then [free_row db + 1]
       else if j = I_orderline \<and> k = d_to_part (w_id q) (d_id q) \<and> key = orderlineKey (wlc cfg) (w_id q) (d_id q) ?oid
         then rev (map (\<lambda>j. free_row db + 2 + j) [0..<?n]) else [])" for j k key
    unfolding l(4) ops2 by (cases j) auto
  ultimately show ?thesis using l(6-8) db2 unfolding ordered_db_def Let_def by (simp add: l(5))
qed


section \<open>The stock stays between 10 and 101\<close>

definition stock_ok :: "tpcc_db \<Rightarrow> bool" where
  "stock_ok db \<longleftrightarrow> (\<forall>r. S_QUANTITY (t_stock db r) \<in> {10..101})"

lemma new_quantity_range:
  assumes "s \<in> {10..101}" and "qty \<in> {1..10}"
  shows "new_quantity s qty \<in> {10..101}"
proof -
  have b: "10 \<le> unat s" "unat s \<le> 101" "1 \<le> unat qty" "unat qty \<le> 10" using assms by (auto simp: word_le_nat_alt)
  have q10: "unat (qty + 10) = unat qty + 10" using b by (simp add: unat_word_ariths)
  have le: "qty \<le> s" using b by (simp add: word_le_nat_alt)
  have sub: "unat (s - qty) = unat s - unat qty" using le by (simp add: unat_sub)
  have "unat (s - qty + 91) = unat s - unat qty + 91" using b sub by (simp add: unat_word_ariths)
  then show ?thesis using b q10 sub by (auto simp: new_quantity_def word_le_nat_alt word_less_nat_alt)
qed

lemma order_stock_quantity: "S_QUANTITY (order_stock cfg rem qty s) = new_quantity (S_QUANTITY s) qty"
  by (simp add: order_stock_def Let_def)

lemma fold_idx_delete_tables: "\<exists>ix. fold idx_delete ops db = db\<lparr>index := ix\<rparr>"
proof (induction ops arbitrary: db)
  case Nil
  have "fold idx_delete [] db = db\<lparr>index := index db\<rparr>" by simp
  then show ?case by blast
next
  case (Cons op ops)
  obtain ix where "idx_delete op db = db\<lparr>index := ix\<rparr>" by (cases op) (auto simp: idx_delete_def)
  moreover obtain ix' where "fold idx_delete ops (db\<lparr>index := ix\<rparr>) = db\<lparr>index := ix\<rparr>\<lparr>index := ix'\<rparr>"
    using Cons.IH by blast
  ultimately show ?case by auto
qed

lemma maintain_indexes_tables: "\<exists>ix. maintain_indexes st = (tx_db st)\<lparr>index := ix\<rparr>"
  using fold_idx_delete_tables [of "delete_index_ops st" "tx_db st"]
  by (auto simp: maintain_indexes_def fold_idx_insert)

lemma finish_stock: "stock_ok (tx_start st) \<Longrightarrow> stock_ok (tx_db st) \<Longrightarrow> stock_ok (snd (tx_finish cc rc st))"
  using maintain_indexes_tables [of st] by (auto simp: tx_finish_def stock_ok_def)

lemma put_line_stock:
  "put_line cfg q oid disc n it ri rs st = Some st' \<Longrightarrow> ol_quantity it \<in> {1..10} \<Longrightarrow> stock_ok (tx_db st) \<Longrightarrow>
   stock_ok (tx_db st') \<and> tx_start st' = tx_start st"
  using new_quantity_range by (auto simp: put_line_eq stock_ok_def order_stock_quantity)

lemma put_order_stock:
  "put_order cfg q oid st = Some st' \<Longrightarrow> t_stock (tx_db st') = t_stock (tx_db st) \<and> tx_start st' = tx_start st"
  by (auto simp: put_order_def new_row_def tx_insert_row_def insert_index_def Let_def split: Option.bind_splits)

lemma get_row_stock:
  assumes "get_row_then cfg cc st (abort_txn cc) k = Some (rc, db')" and "stock_ok (tx_start st)" and "stock_ok (tx_db st)"
    and "\<And>st'. tx_start st' = tx_start st \<Longrightarrow> tx_db st' = tx_db st \<Longrightarrow> k st' = Some (rc, db') \<Longrightarrow> stock_ok db'"
  shows "stock_ok db'"
  using assms(1-3) assms(4) [of "st\<lparr>row_cnt := Suc (row_cnt st)\<rparr>"] finish_stock [of st cc Abort]
  by (auto simp: get_row_then_def abort_txn_def split: if_splits)

lemma order_loop_stock:
  "order_loop cfg cc q oid disc n its st = Some (rc, db') \<Longrightarrow> \<forall>it\<in>set its. ol_quantity it \<in> {1..10} \<Longrightarrow>
   stock_ok (tx_start st) \<Longrightarrow> stock_ok (tx_db st) \<Longrightarrow> stock_ok db'"
proof (induction its arbitrary: n st)
  case Nil
  then show ?case using finish_stock [of st cc RCOK] by simp
next
  case (Cons it its)
  then show ?case
    by (auto elim!: get_row_stock dest!: put_line_stock split: Option.bind_splits)
qed

lemma batch_loop_stock:
  "batch_loop cfg cc q oid disc n its st = Some (rc, db') \<Longrightarrow> \<forall>(it, _)\<in>set its. ol_quantity it \<in> {1..10} \<Longrightarrow>
   stock_ok (tx_start st) \<Longrightarrow> stock_ok (tx_db st) \<Longrightarrow> stock_ok db'"
proof (induction its arbitrary: n st)
  case Nil
  then show ?case using finish_stock [of st cc RCOK] by simp
next
  case (Cons x its)
  obtain it ri rs where "x = (it, ri, rs)" by (cases x)
  then show ?case using Cons by (auto dest!: put_line_stock split: Option.bind_splits)
qed

lemma get_rows_stock:
  assumes "get_rows_then cfg cc n st (abort_txn cc) k = Some (rc, db')" and "stock_ok (tx_start st)" and "stock_ok (tx_db st)"
    and "\<And>st'. tx_start st' = tx_start st \<Longrightarrow> tx_db st' = tx_db st \<Longrightarrow> k st' = Some (rc, db') \<Longrightarrow> stock_ok db'"
  shows "stock_ok db'"
  using assms
proof (induction n arbitrary: st)
  case (Suc n)
  from Suc.prems(1) have "get_row_then cfg cc st (abort_txn cc) (\<lambda>st. get_rows_then cfg cc n st (abort_txn cc) k) = Some (rc, db')"
    by simp
  then show ?case
  proof (rule get_row_stock [OF _ Suc.prems(2,3)])
    fix st' assume st': "tx_start st' = tx_start st" "tx_db st' = tx_db st" "get_rows_then cfg cc n st' (abort_txn cc) k = Some (rc, db')"
    show "stock_ok db'" by (rule Suc.IH [OF st'(3)]) (use st' Suc.prems in auto)
  qed
qed auto

lemma batched_lines_stock:
  assumes "batched_lines cfg cc q oid disc its st = Some (rc, db')" and "\<forall>it\<in>set its. ol_quantity it \<in> {1..10}"
    and "stock_ok (tx_start st)" and "stock_ok (tx_db st)"
  shows "stock_ok db'"
  using assms
  by (auto simp: batched_lines_def elim!: get_rows_stock batch_loop_stock dest!: set_zip_leftD split: Option.bind_splits)

text \<open>
  C12. The stock invariant: quantities between 10 and 101 stay there whatever a well-formed new order
  does, batched or not, committed or aborted.  In particular the subtraction of unsigned integers never
  wraps around for good.
\<close>

theorem new_order_keeps_stock:
  assumes "new_order_ok (wlc cfg) q" and "stock_ok db" and "run_new_order cfg batched cc q db = Some (rc, db')"
  shows "stock_ok db'"
proof -
  have q: "\<forall>it\<in>set (order_lines q). ol_quantity it \<in> {1..10}"
    using assms(1) by (simp add: new_order_ok_def line_ok_def)
  have lines: "stock_ok db'"
    if "(if batched then batched_lines cfg cc q oid disc (order_lines q) st else order_loop cfg cc q oid disc 0 (order_lines q) st) = Some (rc, db')"
      "t_stock (tx_db st) = t_stock db \<and> tx_start st = db" for st oid disc
  proof -
    have "stock_ok (tx_start st)" "stock_ok (tx_db st)" using that(2) assms(2) by (simp_all add: stock_ok_def)
    then show ?thesis
      using that(1) batched_lines_stock [OF _ q] order_loop_stock [OF _ q] by (auto split: if_splits)
  qed
  show ?thesis using assms(2,3) unfolding run_new_order_def
    by (auto simp: Let_def elim!: get_row_stock dest!: put_order_stock split: Option.bind_splits) (rule lines, assumption, simp)
qed

section \<open>Witnesses\<close>


theorem batched_new_order_same_witness:
  "run_new_order demo_tcfg True (demo_cc True True) demo_tq demo_db = run_new_order demo_tcfg False (demo_cc True True) demo_tq demo_db"
  by (rule batched_new_order_same) simp_all

theorem new_order_keeps_stock_witness:
  "\<exists>db'. run_new_order demo_tcfg False (demo_cc True True) demo_tq demo_db = Some (RCOK, db') \<and> stock_ok db'"
proof -
  have q: "new_order_ok (wlc demo_tcfg) demo_tq"
    unfolding new_order_ok_def line_ok_def demo_tq_simps by (simp add: demo_tq_def demo_query_def demo_wlc_def)
  have s: "stock_ok demo_db" by (simp add: stock_ok_def)
  from new_order_effect [of demo_tcfg demo_tq 0 demo_db 0 "[]" 0 0 "[]" "\<lambda>_. 0" "\<lambda>_. 0" "demo_cc True True"]
  obtain db' where "run_new_order demo_tcfg False (demo_cc True True) demo_tq demo_db = Some (RCOK, db')" by auto
  then show ?thesis using new_order_keeps_stock [OF q s] by blast
qed

end
