(* ===== verification/TPCC_Delivery.thy ===== *)
theory TPCC_Delivery
  imports TPCC_New_Order
begin

text \<open>
  The delivery and the stock-level transaction of \<open>TPCC_Txn\<close>.  The steps are written in continuation style;
  \<open>ends\<close> says what holds of the state that is handed on or given up.
\<close>

section \<open>Delivery\<close>

text \<open>
  The steps in continuation style end in one of their two continuations, or fail.  \<open>ends A P\<close> says that the
  state handed to the abort satisfies \<open>A\<close> and the one handed on satisfies \<open>P\<close>.
\<close>

definition ends :: "(txn \<Rightarrow> bool) \<Rightarrow> (txn \<Rightarrow> bool) \<Rightarrow> (txn \<Rightarrow> 'r option) \<Rightarrow> (txn \<Rightarrow> 'r option) \<Rightarrow> 'r option \<Rightarrow> bool" where
  "ends A P ab k res \<longleftrightarrow> res = None \<or> (\<exists>st. A st \<and> res = ab st) \<or> (\<exists>st. P st \<and> res = k st)"

text \<open>What delivering keeps of the state: only rows change, index entries and pending operations do not.\<close>

definition frame :: "txn \<Rightarrow> txn \<Rightarrow> bool" where
  "frame st st' \<longleftrightarrow> tx_start st' = tx_start st \<and> index (tx_db st') = index (tx_db st) \<and>
     insert_index_ops st' = insert_index_ops st \<and> delete_index_ops st' = delete_index_ops st"

lemma ends_None [simp]: "ends A P ab k None"
  by (simp add: ends_def)

lemma ends_next: "P st \<Longrightarrow> ends A P ab k (k st)"
  by (auto simp: ends_def)

lemma ends_get_row:
  assumes "A st" and "\<And>st'. frame st st' \<Longrightarrow> tx_db st' = tx_db st \<Longrightarrow> ends A P ab k (f st')"
  shows "ends A P ab k (get_row_then cfg cc st ab f)"
proof (cases "MAX_ROW_PER_TXN cfg \<le> row_cnt st \<or> \<not> granted cc (row_cnt st)")
  case True
  then show ?thesis using assms(1) by (auto simp: get_row_then_def ends_def)
next
  case False
  then show ?thesis
    using assms(2) [of "st\<lparr>row_cnt := Suc (row_cnt st)\<rparr>"] by (simp add: get_row_then_def frame_def)
qed

lemma ends_bind: "(\<And>x. m = Some x \<Longrightarrow> ends A P ab k (f x)) \<Longrightarrow> ends A P ab k (m \<bind> f)"
  by (cases m) simp_all

lemma ends_deliver_lines:
  assumes A: "\<And>st. frame st0 st \<Longrightarrow> A st" and f: "\<And>amount st. frame st0 st \<Longrightarrow> ends A P ab k (f amount st)"
  shows "frame st0 st \<Longrightarrow> ends A P ab k (deliver_lines cfg cc q rs amount st ab f)"
proof (induction rs arbitrary: amount st)
  case Nil
  then show ?case using f by simp
next
  case (Cons r rs)
  show ?case unfolding deliver_lines.simps Let_def
    by (rule ends_get_row, rule A [OF Cons.prems], rule Cons.IH) (use Cons.prems in \<open>simp add: frame_def\<close>)
qed

text \<open>After a district the removal of its oldest new order is pending, if it had one.\<close>

definition removal :: "64 word \<Rightarrow> 64 word \<Rightarrow> tpcc_db \<Rightarrow> 64 word \<Rightarrow> (INDEX \<times> 64 word \<times> 64 word) list" where
  "removal p w db d = (if index db I_neworder p (distKey d w) = [] then [] else [(I_neworder, distKey d w, p)])"

definition delivered :: "64 word \<Rightarrow> 64 word \<Rightarrow> tpcc_db \<Rightarrow> (INDEX \<times> 64 word \<times> 64 word) list \<Rightarrow> txn \<Rightarrow> bool" where
  "delivered p w db dels st \<longleftrightarrow> tx_start st = db \<and> index (tx_db st) = index db \<and> insert_index_ops st = [] \<and> delete_index_ops st = dels"

lemma ends_deliver_district:
  assumes p: "wh_to_part (wlc cfg) (w_id q) = Some p" and st: "delivered p (w_id q) db dels st"
    and f: "\<And>st. delivered p (w_id q) db (dels @ removal p (w_id q) db d) st \<Longrightarrow> ends A P ab k (f st)"
    and A: "\<And>st. tx_start st = db \<Longrightarrow> A st"
  shows "ends A P ab k (deliver_district cfg cc q d st ab f)"
proof (cases "index (tx_db st) I_neworder p (distKey d (w_id q)) = []")
  case True
  then have "removal p (w_id q) db d = []" using st by (simp add: removal_def delivered_def)
  with f [of st] st True p show ?thesis by (simp add: deliver_district_def)
next
  case False
  show ?thesis
    unfolding deliver_district_def Let_def p
    using st False
    by (auto simp: delivered_def delete_index_def frame_def removal_def
        intro!: ends_bind ends_get_row A f ends_deliver_lines [where ?st0.0 = "st\<lparr>delete_index_ops := dels @ removal p (w_id q) db d\<rparr>"])
qed

lemma ends_deliver_districts:
  assumes p: "wh_to_part (wlc cfg) (w_id q) = Some p"
  shows "delivered p (w_id q) db dels st \<Longrightarrow>
    ends (\<lambda>st. tx_start st = db) (delivered p (w_id q) db (dels @ concat (map (removal p (w_id q) db) ds))) ab k
      (deliver_districts cfg cc q ds st ab k)"
proof (induction ds arbitrary: dels st)
  case Nil
  then show ?case by (simp add: ends_next)
next
  case (Cons d ds)
  show ?case unfolding deliver_districts.simps
  proof (rule ends_deliver_district [OF p Cons.prems])
    fix st' assume "delivered p (w_id q) db (dels @ removal p (w_id q) db d) st'"
    from Cons.IH [OF this] show "ends (\<lambda>st. tx_start st = db)
        (delivered p (w_id q) db (dels @ concat (map (removal p (w_id q) db) (d # ds)))) ab k (deliver_districts cfg cc q ds st' ab k)"
      by simp
  qed simp
qed

lemma delivery_ends:
  assumes flag: "\<not> delivering ! unat (w_id q)" "unat (w_id q) < length delivering"
    and p: "wh_to_part (wlc cfg) (w_id q) = Some p"
  shows "ends (\<lambda>st. tx_start st = db)
      (delivered p (w_id q) db (concat (map (removal p (w_id q) db) [1, 2, 3, 4, 5, 6, 7, 8, 9, 10])))
      (\<lambda>st. Some (tx_finish cc Abort st, delivering[unat (w_id q) := True])) (\<lambda>st. Some (tx_finish cc RCOK st, delivering))
      (run_delivery cfg cc q delivering db)"
proof -
  have off: "delivering[unat (w_id q) := False] = delivering" using flag by (simp add: list_update_same_conv)
  have "run_delivery cfg cc q delivering db = deliver_districts cfg cc q [1, 2, 3, 4, 5, 6, 7, 8, 9, 10] (begin_txn db)
      (\<lambda>st. Some (tx_finish cc Abort st, delivering[unat (w_id q) := True])) (\<lambda>st. Some (tx_finish cc RCOK st, delivering))"
    using flag off by (simp add: run_delivery_def Let_def del: deliver_districts.simps)
  moreover have "delivered p (w_id q) db [] (begin_txn db)" by (simp add: delivered_def)
  ultimately show ?thesis using ends_deliver_districts [OF p] by (metis append_Nil)
qed

lemma delivery_part:
  "run_delivery cfg cc q delivering db = Some r \<Longrightarrow> \<not> delivering ! unat (w_id q) \<Longrightarrow> \<exists>p. wh_to_part (wlc cfg) (w_id q) = Some p"
  by (cases "wh_to_part (wlc cfg) (w_id q)") (simp_all add: run_delivery_def deliver_district_def Let_def)


lemma fold_idx_delete_index:
  "distinct ops \<Longrightarrow> index (fold idx_delete ops db) j p k = (if (j, k, p) \<in> set ops then butlast (index db j p k) else index db j p k)"
proof (induction ops arbitrary: db)
  case (Cons op ops)
  then show ?case by (cases op) (auto simp: idx_delete_def)
qed simp

lemma removal_mem:
  "(j, key, k) \<in> set (concat (map (removal p w db) ds)) \<longleftrightarrow>
     j = I_neworder \<and> k = p \<and> key \<in> (\<lambda>d. distKey d w) ` set ds \<and> index db j k key \<noteq> []"
  by (induction ds) (auto simp: removal_def)

lemma removals_distinct: "distinct ds \<Longrightarrow> distinct (concat (map (removal p w db) ds))"
proof (induction ds)
  case (Cons d ds)
  have "distKey d w \<notin> (\<lambda>d. distKey d w) ` set ds" using Cons.prems by (auto simp: distKey_def)
  then have "(I_neworder, distKey d w, p) \<notin> set (concat (map (removal p w db) ds))" by (simp only: removal_mem) simp
  then show ?case using Cons by (simp add: removal_def)
qed simp


text \<open>
  The flags are one element short: the generator numbers the warehouses from one to \<open>NUM_WH\<close>, so the
  delivery of the last warehouse tests and sets a flag behind the end of the array.
\<close>

theorem delivery_flag_out_of_range:
  assumes "cfg_ok (wlc cfg)" and "first_part_local (wlc cfg)" and "length delivering = unat (num_wh (wlc cfg))"
    and "thd mod num_wh (wlc cfg) = num_wh (wlc cfg) - 1"
  shows "\<exists>q' s'. gen_delivery (wlc cfg) thd q s = Some (q', s') \<and> run_delivery cfg cc q' delivering db = None"
proof -
  have w: "home_wh (wlc cfg) thd s = Some (num_wh (wlc cfg), s)"
    using assms(2,4) cfg_okD(3) [OF assms(1)] by (simp add: home_wh_def)
  have "gives (URand 1 10 s) (\<lambda>r s'. 1 \<le> r \<and> r \<le> 10 \<and> draws s' = draws s)" by (rule URand_gives) simp_all
  then obtain c s' where "URand 1 10 s = Some (c, s')" by (auto simp: gives_def)
  then show ?thesis
    using w wh_to_part_ok(1) [OF assms(1)] assms(3) by (simp add: gen_delivery_def run_delivery_def)
qed

section \<open>Stock level\<close>

lemma collect_lines_granted:
  assumes g: "\<forall>n. granted cc n"
  shows "row_cnt st + length rs \<le> MAX_ROW_PER_TXN cfg \<Longrightarrow> length ids + length rs \<le> 300 \<Longrightarrow>
    \<forall>r\<in>set rs. 0 < OL_I_ID (t_orderline (tx_db st) r) \<and> OL_I_ID (t_orderline (tx_db st) r) \<le> 100000 \<Longrightarrow>
    collect_lines cfg cc rs ids st ab k =
      k (ids @ map (\<lambda>r. OL_I_ID (t_orderline (tx_db st) r)) rs) (st\<lparr>row_cnt := row_cnt st + length rs\<rparr>)"
  by (induction rs arbitrary: ids st) (simp_all add: get_row_then_def g)

text \<open>The items of the lines of the given orders, at most fifteen lines each.\<close>

definition order_ids :: "txn_cfg \<Rightarrow> tpcc_query \<Rightarrow> tpcc_db \<Rightarrow> 64 word \<Rightarrow> 64 word list" where
  "order_ids cfg q db oid = map (\<lambda>r. OL_I_ID (t_orderline db r))
     (take 15 (index db I_orderline (d_to_part (w_id q) (d_id q)) (orderlineKey (wlc cfg) (w_id q) (d_id q) oid)))"

lemma collect_orders_granted:
  assumes g: "\<forall>n. granted cc n"
  shows "row_cnt st + 15 * length oids \<le> MAX_ROW_PER_TXN cfg \<Longrightarrow> length ids + 15 * length oids \<le> 300 \<Longrightarrow>
    \<forall>oid\<in>set oids. order_ids cfg q (tx_db st) oid \<noteq> [] \<and> (\<forall>i\<in>set (order_ids cfg q (tx_db st) oid). 0 < i \<and> i \<le> 100000) \<Longrightarrow>
    \<exists>m. collect_orders cfg cc q oids ids st ab k =
        k (ids @ concat (map (order_ids cfg q (tx_db st)) oids)) (st\<lparr>row_cnt := m\<rparr>) \<and> m \<le> row_cnt st + 15 * length oids"
proof (induction oids arbitrary: ids st)
  case Nil
  show ?case by (intro exI [of _ "row_cnt st"]) simp
next
  case (Cons oid oids)
  let ?ls = "take 15 (index (tx_db st) I_orderline (d_to_part (w_id q) (d_id q)) (orderlineKey (wlc cfg) (w_id q) (d_id q) oid))"
  let ?st = "st\<lparr>row_cnt := row_cnt st + length ?ls\<rparr>"
  have n: "length ?ls \<le> 15" by simp
  have "?ls \<noteq> []" using Cons.prems(3) by (simp add: order_ids_def)
  then have "collect_orders cfg cc q (oid # oids) ids st ab k =
      collect_lines cfg cc ?ls ids st ab (\<lambda>ids st. collect_orders cfg cc q oids ids st ab k)" by auto
  also have "\<dots> = collect_orders cfg cc q oids (ids @ order_ids cfg q (tx_db st) oid) ?st ab k"
    using collect_lines_granted [OF g, of st ?ls cfg ids ab] n Cons.prems by (simp add: order_ids_def)
  finally have run: "collect_orders cfg cc q (oid # oids) ids st ab k =
      collect_orders cfg cc q oids (ids @ order_ids cfg q (tx_db st) oid) ?st ab k" .
  have "\<exists>m. collect_orders cfg cc q oids (ids @ order_ids cfg q (tx_db st) oid) ?st ab k =
      k ((ids @ order_ids cfg q (tx_db st) oid) @ concat (map (order_ids cfg q (tx_db ?st)) oids)) (?st\<lparr>row_cnt := m\<rparr>) \<and>
      m \<le> row_cnt ?st + 15 * length oids"
    by (rule Cons.IH) (use Cons.prems n in \<open>auto simp: order_ids_def\<close>)
  then obtain m where "collect_orders cfg cc q oids (ids @ order_ids cfg q (tx_db st) oid) ?st ab k =
      k (ids @ concat (map (order_ids cfg q (tx_db st)) (oid # oids))) (st\<lparr>row_cnt := m\<rparr>)" "m \<le> row_cnt ?st + 15 * length oids"
    by auto
  then show ?case using run n by (intro exI [of _ m]) simp
qed

text \<open>The count over a list in which equal items are next to each other.\<close>

lemma count_low_granted:
  assumes g: "\<forall>n. granted cc n" and p: "wh_to_part (wlc cfg) (w_id q) = Some p"
  shows "row_cnt st + length ids \<le> MAX_ROW_PER_TXN cfg \<Longrightarrow> sorted ids \<Longrightarrow> (prev \<in> set ids \<longrightarrow> hd ids = prev) \<Longrightarrow>
    \<forall>i\<in>set ids. first_item (index (tx_db st) I_stock p (stockKey (wlc cfg) i (w_id q))) = Some (rs i) \<Longrightarrow>
    \<exists>m. count_low cfg cc q ids prev res st ab k =
      k (res + card {i \<in> set ids - {prev}. S_QUANTITY (t_stock (tx_db st) (rs i)) < threshold q}) (st\<lparr>row_cnt := m\<rparr>)"
proof (induction ids arbitrary: prev res st)
  case Nil
  show ?case by (intro exI [of _ "row_cnt st"]) simp
next
  case (Cons i ids)
  let ?low = "\<lambda>i. S_QUANTITY (t_stock (tx_db st) (rs i)) < threshold q"
  have head: "i \<in> set ids \<longrightarrow> hd ids = i" using Cons.prems(2) by (cases ids) (auto intro: order.antisym)
  show ?case
  proof (cases "i = prev")
    case True
    then have "{x \<in> set (i # ids) - {prev}. ?low x} = {x \<in> set ids - {prev}. ?low x}" by auto
    then show ?thesis using Cons.IH [of st prev res] Cons.prems head True by simp
  next
    case False
    let ?st = "st\<lparr>row_cnt := Suc (row_cnt st)\<rparr>" and ?res = "if ?low i then Suc res else res"
    have np: "prev \<notin> set ids" using Cons.prems(3) False by auto
    have run: "count_low cfg cc q (i # ids) prev res st ab k = count_low cfg cc q ids i ?res ?st ab k"
      using False p g Cons.prems(1,4) by (simp add: get_row_then_def)
    have "{x \<in> set (i # ids) - {prev}. ?low x} = (if ?low i then {i} else {}) \<union> {x \<in> set ids - {i}. ?low x}"
      using np False by auto
    then have "res + card {x \<in> set (i # ids) - {prev}. ?low x} = ?res + card {x \<in> set ids - {i}. ?low x}"
      by (auto simp: card_insert_if)
    then show ?thesis using Cons.IH [of ?st i ?res] Cons.prems head run by auto
  qed
qed

text \<open>
  The stock level is the number of different items in the lines of the last twenty orders of
  the district whose stock is below the threshold; the database is unchanged.  The transaction reports
  \<open>RCOK\<close> even when the validation fails.
\<close>

theorem stock_level_counts:
  assumes p: "wh_to_part (wlc cfg) (w_id q) = Some p" and rd: "index db I_district p (distKey (d_id q) (w_id q)) = rd # ds"
    and oids: "oids = last_orders (D_NEXT_O_ID (t_district db rd))"
    and ids: "\<forall>oid\<in>set oids. order_ids cfg q db oid \<noteq> [] \<and> (\<forall>i\<in>set (order_ids cfg q db oid). 0 < i \<and> i \<le> 100000 \<and>
        first_item (index db I_stock p (stockKey (wlc cfg) i (w_id q))) = Some (rs i))"
    and g: "\<forall>n. granted cc n" and rows: "601 \<le> MAX_ROW_PER_TXN cfg"
  shows "run_stock_level cfg cc q db = Some ((RCOK, db),
    Some (card {i \<in> \<Union>oid\<in>set oids. set (order_ids cfg q db oid). S_QUANTITY (t_stock db (rs i)) < threshold q}))"
proof -
  let ?st = "(begin_txn db)\<lparr>row_cnt := 1\<rparr>" and ?ids = "concat (map (order_ids cfg q db) oids)"
  let ?ab = "\<lambda>st. Some (tx_finish cc Abort st, None :: nat option)"
  let ?k2 = "\<lambda>result st. Some ((RCOK, snd (tx_finish cc RCOK st)), Some result)"
  let ?k1 = "\<lambda>ids st. count_low cfg cc q (sort ids) (- 1) 0 st ?ab ?k2"
  have n: "length oids = 20" by (simp add: oids last_orders_def)
  have "\<exists>m. collect_orders cfg cc q oids [] ?st ?ab ?k1 = ?k1 ([] @ concat (map (order_ids cfg q (tx_db ?st)) oids)) (?st\<lparr>row_cnt := m\<rparr>) \<and>
      m \<le> row_cnt ?st + 15 * length oids"
    by (rule collect_orders_granted [OF g]) (use ids rows n in auto)
  then obtain m where m: "collect_orders cfg cc q oids [] ?st ?ab ?k1 = ?k1 ?ids (?st\<lparr>row_cnt := m\<rparr>)" "m \<le> 301"
    using n by auto
  have len: "length ?ids \<le> 300"
  proof -
    have "length ?ids \<le> (\<Sum>x\<leftarrow>oids. 15)"
      unfolding length_concat map_map by (rule sum_list_mono) (simp add: order_ids_def)
    then show ?thesis using n by (simp add: sum_list_triv)
  qed
  have big: "\<not> (- 1 :: 64 word) \<le> 100000" unfolding UINT64_MAX_eq [symmetric] UINT64_MAX_def by simp
  have fresh: "- 1 \<notin> set ?ids"
  proof
    assume "- 1 \<in> set ?ids"
    then obtain oid where "oid \<in> set oids" "- 1 \<in> set (order_ids cfg q db oid)" by auto
    then show False using ids big by blast
  qed
  have "\<exists>m'. count_low cfg cc q (sort ?ids) (- 1) 0 (?st\<lparr>row_cnt := m\<rparr>) ?ab ?k2 =
      ?k2 (0 + card {i \<in> set (sort ?ids) - {- 1}. S_QUANTITY (t_stock (tx_db (?st\<lparr>row_cnt := m\<rparr>)) (rs i)) < threshold q})
        (?st\<lparr>row_cnt := m\<rparr>\<lparr>row_cnt := m'\<rparr>)"
    by (rule count_low_granted [OF g p]) (use len m(2) rows fresh ids in auto)
  moreover have eq: "{i \<in> set (sort ?ids) - {- 1}. S_QUANTITY (t_stock (tx_db (?st\<lparr>row_cnt := m\<rparr>)) (rs i)) < threshold q} =
      {i \<in> set ?ids. S_QUANTITY (t_stock db (rs i)) < threshold q}" using fresh by auto
  ultimately obtain m' where m': "?k1 ?ids (?st\<lparr>row_cnt := m\<rparr>) =
      ?k2 (card {i \<in> set ?ids. S_QUANTITY (t_stock db (rs i)) < threshold q}) (?st\<lparr>row_cnt := m'\<rparr>)"
    unfolding eq by auto
  have "run_stock_level cfg cc q db = collect_orders cfg cc q oids [] ?st ?ab ?k1"
    using p rd g rows by (simp add: run_stock_level_def get_row_then_def oids Let_def)
  also have "\<dots> = Some ((RCOK, db), Some (card {i \<in> set ?ids. S_QUANTITY (t_stock db (rs i)) < threshold q}))"
    unfolding m(1) m' by (simp add: tx_finish_def maintain_indexes_def)
  finally show ?thesis by simp
qed

section \<open>Witnesses\<close>


lemma demo_delivery: "\<exists>db'. run_delivery demo_tcfg (demo_cc True True) demo_tq [False, False] demo_db = Some ((RCOK, db'), [False, False])"
  by (simp add: run_delivery_def deliver_district_def get_row_then_def tx_finish_def Let_def delete_index_def customer_by_id_def distKey_def DIST_PER_WARE_def)


theorem delivery_flag_out_of_range_witness:
  "\<exists>q s. gen_delivery demo_wlc 0 demo_query demo_gen = Some (q, s) \<and>
     run_delivery demo_tcfg (demo_cc True True) q [False] demo_db = None"
proof -
  have "cfg_ok (wlc demo_tcfg)" "first_part_local (wlc demo_tcfg)" "length [False] = unat (num_wh (wlc demo_tcfg))"
    "0 mod num_wh (wlc demo_tcfg) = num_wh (wlc demo_tcfg) - 1" by (simp_all add: cfg_ok_def demo_wlc_def)
  from delivery_flag_out_of_range [OF this] show ?thesis by simp
qed

theorem stock_level_counts_witness:
  "run_stock_level demo_tcfg (demo_cc True False) demo_tq demo_db = Some ((RCOK, demo_db), Some 1)"
proof -
  have i: "order_ids demo_tcfg demo_tq demo_db oid = [5]" for oid by (simp add: order_ids_def demo_ol_def)
  have "last_orders 31 \<noteq> []" by (simp add: last_orders_def)
  with i show ?thesis
    using stock_level_counts [of demo_tcfg demo_tq 0 demo_db 0 "[]" "last_orders 31" "\<lambda>_. 0" "demo_cc True False"] by simp
qed

end
