(* ===== verification/TPCC_Load.thy ===== *)
theory TPCC_Load
  imports TPCC_New_Order
begin

text \<open>
  The initial contents of the TPC-C tables: benchmarks/tpcc/tpcc_wl.cpp and the strings of tpcc_helper.h, in the
  builds with \<open>TPCC_ALL_TXN\<close> and without \<open>REPLICATE_ITEM\<close>.

  What a warehouse gets depends on the random numbers of its own buffer only, so the functions here return the rows
  to create in order, each with the entries that \<open>index_insert\<close> makes for it; \<open>load_row\<close> creates one in the shared
  tables and indexes.  The threads of \<open>init_table\<close> each load some warehouses, and their rows are created in any
  interleaving.  The static constant of \<open>NURand\<close> belongs to the state of a warehouse's generator, which may start with
  any value for it.  Columns that no transaction uses are drawn, so that the buffer advances as in the source, and
  dropped.  \<open>quot x y\<close> is the \<open>double\<close> \<open>x / y\<close>; the other doubles are literals, given as bit patterns.
\<close>

section \<open>Rows to create\<close>

datatype trow = R_item i_record | R_wh w_record | R_dist d_record | R_stock s_record | R_cust c_record
  | R_hist h_record | R_order o_record | R_line ol_record | R_no no_record

type_synonym load_entry = "INDEX \<times> 64 word \<times> 64 word"

type_synonym row_spec = "trow \<times> load_entry list"

record load_cfg =
  ltc :: txn_cfg
  quot :: "64 word \<Rightarrow> 64 word \<Rightarrow> 64 word"

abbreviation lwc :: "load_cfg \<Rightarrow> tpcc_cfg" where
  "lwc lc \<equiv> wlc (ltc lc)"

fun store :: "trow \<Rightarrow> row_ptr \<Rightarrow> tpcc_db \<Rightarrow> tpcc_db" where
  "store (R_item x) r db = db\<lparr>t_item := (t_item db)(r := x)\<rparr>"
| "store (R_wh x) r db = db\<lparr>t_warehouse := (t_warehouse db)(r := x)\<rparr>"
| "store (R_dist x) r db = db\<lparr>t_district := (t_district db)(r := x)\<rparr>"
| "store (R_stock x) r db = db\<lparr>t_stock := (t_stock db)(r := x)\<rparr>"
| "store (R_cust x) r db = db\<lparr>t_customer := (t_customer db)(r := x)\<rparr>"
| "store (R_hist x) r db = db\<lparr>t_history := t_history db @ [x]\<rparr>"
| "store (R_order x) r db = db\<lparr>t_order := (t_order db)(r := x)\<rparr>"
| "store (R_line x) r db = db\<lparr>t_orderline := (t_orderline db)(r := x)\<rparr>"
| "store (R_no x) r db = db\<lparr>t_neworder := (t_neworder db)(r := x)\<rparr>"

text \<open>\<open>get_new_row\<close>, the values, and \<open>workload::index_insert\<close> for every entry.\<close>

definition load_row :: "row_spec \<Rightarrow> tpcc_db \<Rightarrow> tpcc_db" where
  "load_row op db =
     (let r = free_row db
      in fold (\<lambda>(ix, key, pid). idx_insert (ix, key, r, pid)) (snd op) (store (fst op) r (db\<lparr>free_row := Suc r\<rparr>)))"

section \<open>Strings and loops\<close>

definition char_list :: string where
  "char_list = ''123456789abcdefghijklmnopqrstuvwxyzABCDEFGHIJKLMNOPQRSTUVWXYZ''"

primrec draw_chars :: "string \<Rightarrow> nat \<Rightarrow> gen_st \<Rightarrow> string gen" where
  "draw_chars cs 0 s = Some ([], s)"
| "draw_chars cs (Suc n) s = do {
     (i, s) \<leftarrow> URand 0 (of_nat (length cs - 1)) s;
     (str, s) \<leftarrow> draw_chars cs n s;
     Some (cs ! unat i # str, s) }"

definition MakeAlphaString :: "64 word \<Rightarrow> 64 word \<Rightarrow> gen_st \<Rightarrow> string gen" where
  "MakeAlphaString mn mx s = do { (cnt, s) \<leftarrow> URand mn mx s; draw_chars char_list (unat cnt) s }"

definition MakeNumberString :: "64 word \<Rightarrow> 64 word \<Rightarrow> gen_st \<Rightarrow> string gen" where
  "MakeNumberString mn mx s = do { (cnt, s) \<leftarrow> URand mn mx s; draw_chars ''0123456789'' (unat cnt) s }"

text \<open>The ids \<open>1\<close> to \<open>n\<close>, and a loop over them that collects the rows.\<close>

definition ids :: "64 word \<Rightarrow> 64 word list" where
  "ids n = map of_nat [1..<Suc (unat n)]"

primrec for_each :: "('a \<Rightarrow> gen_st \<Rightarrow> 'b list gen) \<Rightarrow> 'a list \<Rightarrow> gen_st \<Rightarrow> 'b list gen" where
  "for_each f [] s = Some ([], s)"
| "for_each f (x # xs) s = do { (a, s) \<leftarrow> f x s; (b, s) \<leftarrow> for_each f xs s; Some (a @ b, s) }"

section \<open>Items, warehouses, districts and stock\<close>

definition load_item :: "64 word \<Rightarrow> gen_st \<Rightarrow> row_spec list gen" where
  "load_item i s = do {
     (im_id, s) \<leftarrow> URand 1 10000 s;
     (name, s) \<leftarrow> MakeAlphaString 14 24 s;
     (price, s) \<leftarrow> URand 1 100 s;
     (data, s) \<leftarrow> MakeAlphaString 26 50 s;
     (orig, s) \<leftarrow> RAND 10 s;
     Some ([(R_item \<lparr>I_PRICE = price\<rparr>, [(I_item, i, 0)])], s) }"

definition init_tab_item :: "load_cfg \<Rightarrow> gen_st \<Rightarrow> row_spec list gen" where
  "init_tab_item lc s = for_each load_item (ids (max_items (lwc lc))) s"

text \<open>Name, two streets, city, state, zip code and tax of a warehouse or district.\<close>

definition draw_address :: "gen_st \<Rightarrow> 64 word gen" where
  "draw_address s = do {
     (name, s) \<leftarrow> MakeAlphaString 6 10 s;
     (street1, s) \<leftarrow> MakeAlphaString 10 20 s;
     (street2, s) \<leftarrow> MakeAlphaString 10 20 s;
     (city, s) \<leftarrow> MakeAlphaString 10 20 s;
     (state, s) \<leftarrow> MakeAlphaString 2 2 s;
     (zip, s) \<leftarrow> MakeNumberString 9 9 s;
     URand 0 200 s }"

definition init_tab_wh :: "load_cfg \<Rightarrow> 64 word \<Rightarrow> gen_st \<Rightarrow> row_spec list gen" where
  "init_tab_wh lc wid s =
     assert_then (1 \<le> wid \<and> wid \<le> num_wh (lwc lc)) (do {
       (tax, s) \<leftarrow> draw_address s;
       p \<leftarrow> wh_to_part (lwc lc) wid;
       Some ([(R_wh \<lparr>W_YTD = 0x41124F8000000000\<rparr>, [(I_warehouse, wid, p)])], s) })"

definition load_dist :: "load_cfg \<Rightarrow> 64 word \<Rightarrow> 64 word \<Rightarrow> gen_st \<Rightarrow> row_spec list gen" where
  "load_dist lc wid did s = do {
     (tax, s) \<leftarrow> draw_address s;
     p \<leftarrow> wh_to_part (lwc lc) wid;
     Some ([(R_dist \<lparr>D_YTD = 0x40DD4C0000000000, D_NEXT_O_ID = 3001\<rparr>, [(I_district, distKey did wid, p)])], s) }"

definition init_tab_dist :: "load_cfg \<Rightarrow> 64 word \<Rightarrow> gen_st \<Rightarrow> row_spec list gen" where
  "init_tab_dist lc wid s = for_each (load_dist lc wid) (ids DIST_PER_WARE) s"

definition draw_stock_strings :: "gen_st \<Rightarrow> unit gen" where
  "draw_stock_strings s = do {
     (dists, s) \<leftarrow> for_each (\<lambda>_. MakeAlphaString 24 24) [1..<11] s;
     (data, s) \<leftarrow> MakeAlphaString 26 50 s;
     (r, s) \<leftarrow> RAND 100 s;
     (_, s) \<leftarrow> (if r < 10 then URand 0 (of_nat (length data) - 8) s else Some (0, s));
     Some ((), s) }"

definition load_stock :: "load_cfg \<Rightarrow> 64 word \<Rightarrow> 64 word \<Rightarrow> gen_st \<Rightarrow> row_spec list gen" where
  "load_stock lc wid sid s = do {
     (q, s) \<leftarrow> URand 10 100 s;
     (_, s) \<leftarrow> (if TPCC_SMALL (ltc lc) then Some ((), s) else draw_stock_strings s);
     p \<leftarrow> wh_to_part (lwc lc) wid;
     Some ([(R_stock \<lparr>S_QUANTITY = q, S_YTD = 0, S_ORDER_CNT = 0, S_REMOTE_CNT = 0\<rparr>,
             [(I_stock, stockKey (lwc lc) sid wid, p)])], s) }"

definition init_tab_stock :: "load_cfg \<Rightarrow> 64 word \<Rightarrow> gen_st \<Rightarrow> row_spec list gen" where
  "init_tab_stock lc wid s = for_each (load_stock lc wid) (ids (max_items (lwc lc))) s"

section \<open>Customers and their histories\<close>

definition draw_cust_strings :: "gen_st \<Rightarrow> unit gen" where
  "draw_cust_strings s = do {
     (first, s) \<leftarrow> MakeAlphaString 8 16 s;
     (street1, s) \<leftarrow> MakeAlphaString 10 20 s;
     (street2, s) \<leftarrow> MakeAlphaString 10 20 s;
     (city, s) \<leftarrow> MakeAlphaString 10 20 s;
     (state, s) \<leftarrow> MakeAlphaString 2 2 s;
     (zip, s) \<leftarrow> MakeNumberString 9 9 s;
     (phone, s) \<leftarrow> MakeNumberString 16 16 s;
     (data, s) \<leftarrow> MakeAlphaString 300 500 s;
     Some ((), s) }"

definition load_cust :: "load_cfg \<Rightarrow> 64 word \<Rightarrow> 64 word \<Rightarrow> 64 word \<Rightarrow> gen_st \<Rightarrow> row_spec list gen" where
  "load_cust lc did wid cid s = do {
     (num, s) \<leftarrow> (if cid \<le> 1000 then Some (cid - 1, s) else NURand 255 0 999 s);
     c_last \<leftarrow> Lastname num;
     (_, s) \<leftarrow> (if TPCC_SMALL (ltc lc) then Some ((), s) else draw_cust_strings s);
     (credit, s) \<leftarrow> RAND 10 s;
     (d, s) \<leftarrow> RAND 5000 s;
     p \<leftarrow> wh_to_part (lwc lc) wid;
     Some ([(R_cust \<lparr>C_ID = cid, C_DISCOUNT = quot lc d 10000, C_BALANCE = 0xC024000000000000,
               C_YTD_PAYMENT = 0x4024000000000000, C_PAYMENT_CNT = 1\<rparr>,
             [(I_customer_last, custNPKey c_last did wid, p), (I_customer_id, custKey (lwc lc) cid did wid, p)])], s) }"

definition init_tab_cust :: "load_cfg \<Rightarrow> 64 word \<Rightarrow> 64 word \<Rightarrow> gen_st \<Rightarrow> row_spec list gen" where
  "init_tab_cust lc did wid s =
     assert_then (1000 \<le> cust_per_dist (lwc lc)) (for_each (load_cust lc did wid) (ids (cust_per_dist (lwc lc))) s)"

definition init_tab_hist :: "load_cfg \<Rightarrow> 64 word \<Rightarrow> 64 word \<Rightarrow> 64 word \<Rightarrow> gen_st \<Rightarrow> row_spec list gen" where
  "init_tab_hist lc wid did cid s = do {
     (_, s) \<leftarrow> (if TPCC_SMALL (ltc lc) then Some ([], s) else MakeAlphaString 12 24 s);
     Some ([(R_hist \<lparr>H_C_ID = cid, H_C_D_ID = did, H_C_W_ID = wid, H_D_ID = did, H_W_ID = wid, H_DATE = 0,
               H_AMOUNT = 0x4024000000000000\<rparr>, [])], s) }"

section \<open>Orders\<close>

text \<open>The shuffle of the customer numbers: \<open>i\<close> is exchanged with a later position.\<close>

primrec shuffle :: "64 word \<Rightarrow> nat list \<Rightarrow> 64 word list \<Rightarrow> gen_st \<Rightarrow> 64 word list gen" where
  "shuffle n [] perm s = Some (perm, s)"
| "shuffle n (i # is) perm s = do {
     (j, s) \<leftarrow> URand (of_nat i + 1) (n - 1) s;
     assert_then (unat j < length perm) (shuffle n is (perm[i := perm ! unat j, unat j := perm ! i]) s) }"

definition init_permutation :: "load_cfg \<Rightarrow> gen_st \<Rightarrow> 64 word list gen" where
  "init_permutation lc s =
     (let n = cust_per_dist (lwc lc) in shuffle n [0..<unat (n - 1)] (ids n) s)"

definition load_line :: "load_cfg \<Rightarrow> 64 word \<Rightarrow> 64 word \<Rightarrow> 64 word \<Rightarrow> 64 word \<Rightarrow> gen_st \<Rightarrow> row_spec list gen" where
  "load_line lc did wid oid ol s = do {
     (i_id, s) \<leftarrow> URand 1 100000 s;
     (amount, s) \<leftarrow> (if oid < 2101 then Some (0, s) else do { (a, s) \<leftarrow> URand 1 999999 s; Some (quot lc a 100, s) });
     (dist_info, s) \<leftarrow> MakeAlphaString 24 24 s;
     Some ([(R_line \<lparr>OL_O_ID = oid, OL_D_ID = did, OL_W_ID = wid, OL_NUMBER = ol, OL_I_ID = i_id, OL_SUPPLY_W_ID = wid,
               OL_DELIVERY_D = (if oid < 2101 then 2013 else 0), OL_QUANTITY = 5, OL_AMOUNT = amount\<rparr>,
             [(I_orderline, orderlineKey (lwc lc) wid did oid, d_to_part wid did)])], s) }"

definition load_order :: "load_cfg \<Rightarrow> 64 word list \<Rightarrow> 64 word \<Rightarrow> 64 word \<Rightarrow> 64 word \<Rightarrow> gen_st \<Rightarrow> row_spec list gen" where
  "load_order lc perm did wid oid s = do {
     cid \<leftarrow> (if unat (oid - 1) < length perm then Some (perm ! unat (oid - 1)) else None);
     (carrier, s) \<leftarrow> (if oid < 2101 then URand 1 10 s else Some (0, s));
     (o_ol_cnt, s) \<leftarrow> URand 5 15 s;
     p \<leftarrow> wh_to_part (lwc lc) wid;
     let ord = (R_order \<lparr>O_ID = oid, O_C_ID = cid, O_D_ID = did, O_W_ID = wid, O_ENTRY_D = 2013, O_CARRIER_ID = carrier,
         O_OL_CNT = o_ol_cnt, O_ALL_LOCAL = 1\<rparr>,
         [(I_order, orderPrimaryKey (lwc lc) wid did oid, d_to_part wid did), (I_order_cust, orderCustKey (lwc lc) did cid, p)]);
     (lines, s) \<leftarrow> (if TPCC_SMALL (ltc lc) then Some ([], s) else for_each (load_line lc did wid oid) (ids o_ol_cnt) s);
     let no = (if 2100 < oid then [(R_no \<lparr>NO_O_ID = oid, NO_D_ID = did, NO_W_ID = wid\<rparr>, [(I_neworder, distKey did wid, p)])] else []);
     Some (ord # lines @ no, s) }"

definition init_tab_order :: "load_cfg \<Rightarrow> 64 word \<Rightarrow> 64 word \<Rightarrow> gen_st \<Rightarrow> row_spec list gen" where
  "init_tab_order lc did wid s = do {
     (perm, s) \<leftarrow> init_permutation lc s;
     for_each (load_order lc perm did wid) (ids (cust_per_dist (lwc lc))) s }"

section \<open>Warehouses and threads\<close>

definition load_district :: "load_cfg \<Rightarrow> 64 word \<Rightarrow> 64 word \<Rightarrow> gen_st \<Rightarrow> row_spec list gen" where
  "load_district lc wid did s = do {
     (custs, s) \<leftarrow> init_tab_cust lc did wid s;
     (orders, s) \<leftarrow> init_tab_order lc did wid s;
     (hists, s) \<leftarrow> for_each (init_tab_hist lc wid did) (ids (cust_per_dist (lwc lc))) s;
     Some (custs @ orders @ hists, s) }"

definition threadInitWarehouse :: "load_cfg \<Rightarrow> 64 word \<Rightarrow> gen_st \<Rightarrow> row_spec list gen" where
  "threadInitWarehouse lc tid s =
     (let wid = tid + 1 in
      assert_then (tid < num_wh (lwc lc)) (do {
        (items, s) \<leftarrow> (if tid = 0 then init_tab_item lc s else Some ([], s));
        (wh, s) \<leftarrow> init_tab_wh lc wid s;
        (dist, s) \<leftarrow> init_tab_dist lc wid s;
        (stock, s) \<leftarrow> init_tab_stock lc wid s;
        (rest, s) \<leftarrow> for_each (load_district lc wid) (ids DIST_PER_WARE) s;
        Some (items @ wh @ dist @ stock @ rest, s) }))"

text \<open>The warehouses of thread \<open>t\<close> of \<open>T\<close>, in \<open>uint32_t\<close>.\<close>

definition thread_whs :: "UInt32 \<Rightarrow> UInt32 \<Rightarrow> UInt32 \<Rightarrow> UInt32 list" where
  "thread_whs N T t =
     (let per = N div T; rest = N - per * T; cnt = per + (if t < rest then 1 else 0); prev = per * t + min t rest
      in map (\<lambda>i. prev + of_nat i) [0..<unat cnt])"

text \<open>\<open>mem w\<close> is the random buffer of warehouse \<open>w + 1\<close>.\<close>

definition thread_rows :: "load_cfg \<Rightarrow> (UInt32 \<Rightarrow> gen_st) \<Rightarrow> UInt32 list \<Rightarrow> row_spec list option" where
  "thread_rows lc mem ws = map_option concat (those (map (\<lambda>w. map_option fst (threadInitWarehouse lc (ucast w) (mem w))) ws))"

fun interleavings :: "'a list list \<Rightarrow> 'a list set" where
  "interleavings [] = {[]}"
| "interleavings (xs # xss) = (\<Union>ys \<in> interleavings xss. shuffles xs ys)"

text \<open>\<open>init_table\<close>: the databases that an interleaving of the threads can produce.\<close>

definition init_table :: "load_cfg \<Rightarrow> (UInt32 \<Rightarrow> gen_st) \<Rightarrow> UInt32 \<Rightarrow> tpcc_db \<Rightarrow> tpcc_db set option" where
  "init_table lc mem T db =
     assert_then (T \<noteq> 0)
       (map_option (\<lambda>threads. {fold load_row ops db | ops. ops \<in> interleavings threads})
         (those (map (\<lambda>t. thread_rows lc mem (thread_whs (ucast (num_wh (lwc lc))) T (of_nat t))) [0..<unat T])))"

end
