(* ===== verification/TPCC_Loaded.thy ===== *)
theory TPCC_Loaded
  imports TPCC_Load
begin

text \<open>
  What the loading of the TPC-C tables leaves behind, for every interleaving of the threads: \<open>TPCC_Load\<close> gives the rows
  of each warehouse, and the lemmas here follow them into the shared indexes.
\<close>

section \<open>Creating rows\<close>

definition hits :: "load_entry \<Rightarrow> row_spec list \<Rightarrow> row_spec list" where
  "hits e ops = filter (\<lambda>op. e \<in> set (snd op)) ops"

lemma hits_append [simp]: "hits e (xs @ ys) = hits e xs @ hits e ys"
  by (simp add: hits_def)

lemma hits_Nil [simp]: "hits e [] = []"
  by (simp add: hits_def)

lemma hits_concat: "hits e (concat xss) = concat (map (hits e) xss)"
  by (induction xss) simp_all

lemma hits_Cons [simp]: "hits e (x # xs) = (if e \<in> set (snd x) then x # hits e xs else hits e xs)"
  by (simp add: hits_def)

fun has_row :: "tpcc_db \<Rightarrow> row_ptr \<Rightarrow> trow \<Rightarrow> bool" where
  "has_row db r (R_item x) = (t_item db r = x)"
| "has_row db r (R_wh x) = (t_warehouse db r = x)"
| "has_row db r (R_dist x) = (t_district db r = x)"
| "has_row db r (R_stock x) = (t_stock db r = x)"
| "has_row db r (R_cust x) = (t_customer db r = x)"
| "has_row db r (R_hist x) = (x \<in> set (t_history db))"
| "has_row db r (R_order x) = (t_order db r = x)"
| "has_row db r (R_line x) = (t_orderline db r = x)"
| "has_row db r (R_no x) = (t_neworder db r = x)"

lemma fold_entries:
  assumes "distinct es"
  shows "fold (\<lambda>(ix, key, pid). idx_insert (ix, key, r, pid)) es db =
    db\<lparr>index := \<lambda>j p k. (if (j, k, p) \<in> set es then [r] else []) @ index db j p k\<rparr>"
  using assms
proof (induction es arbitrary: db)
  case (Cons e es)
  obtain ix key pid where e: "e = (ix, key, pid)" by (cases e)
  have "(j, k, p) \<notin> set es" if "j = ix" "k = key" "p = pid" for j k p using Cons.prems that e by auto
  then show ?case using Cons e by (auto simp: idx_insert_def fun_eq_iff)
qed simp

lemma store_frame [simp]:
  "index (store t r db) = index db" "free_row (store t r db) = free_row db"
  by (cases t; simp)+

lemma has_row_store: "has_row (store t r db) r t"
  by (cases t) simp_all

lemma has_row_store_other: "r' \<noteq> r \<Longrightarrow> has_row db r' t' \<Longrightarrow> has_row (store t r db) r' t'"
  by (cases t; cases t') auto

lemma has_row_index [simp]: "has_row (db\<lparr>index := ix\<rparr>) r t = has_row db r t" "has_row (db\<lparr>free_row := n\<rparr>) r t = has_row db r t"
  by (cases t; simp)+

lemma load_row_eq:
  assumes "distinct (snd op)"
  shows "load_row op db = (store (fst op) (free_row db) (db\<lparr>free_row := Suc (free_row db)\<rparr>))
    \<lparr>index := \<lambda>j p k. (if (j, k, p) \<in> set (snd op) then [free_row db] else []) @ index db j p k\<rparr>"
  using fold_entries [OF assms] by (simp add: load_row_def Let_def)

lemma load_rows:
  assumes "\<forall>op \<in> set ops. distinct (snd op)"
  shows "free_row (fold load_row ops db) = free_row db + length ops \<and>
    (\<forall>j p k. index (fold load_row ops db) j p k =
       rev (map (\<lambda>i. free_row db + i) (filter (\<lambda>i. (j, k, p) \<in> set (snd (ops ! i))) [0..<length ops])) @ index db j p k) \<and>
    (\<forall>i<length ops. has_row (fold load_row ops db) (free_row db + i) (fst (ops ! i)))"
  using assms
proof (induction ops rule: rev_induct)
  case (snoc op ops)
  let ?db = "fold load_row ops db" and ?n = "length ops"
  have IH: "free_row ?db = free_row db + ?n"
    "\<forall>j p k. index ?db j p k =
       rev (map (\<lambda>i. free_row db + i) (filter (\<lambda>i. (j, k, p) \<in> set (snd (ops ! i))) [0..<?n])) @ index db j p k"
    "\<forall>i<?n. has_row ?db (free_row db + i) (fst (ops ! i))" using snoc by auto
  have op: "distinct (snd op)" using snoc.prems by simp
  have old: "filter (\<lambda>i. (j, k, p) \<in> set (snd ((ops @ [op]) ! i))) [0..<?n] = filter (\<lambda>i. (j, k, p) \<in> set (snd (ops ! i))) [0..<?n]" for j k p
    by (intro filter_cong) (simp_all add: nth_append)
  have "has_row (load_row op ?db) (free_row db + i) (fst ((ops @ [op]) ! i))" if "i < Suc ?n" for i
  proof (cases "i = ?n")
    case True
    then show ?thesis using has_row_store [of "fst op" "free_row db + ?n"] IH(1) by (simp add: load_row_eq [OF op])
  next
    case False
    then show ?thesis using that IH by (simp add: load_row_eq [OF op] nth_append has_row_store_other)
  qed
  then show ?case using IH(1,2) by (simp add: load_row_eq [OF op] old)
qed simp

text \<open>The rows under a key are those of the hits, the newest first.\<close>

lemma load_rows_lookup:
  assumes wf: "\<forall>op \<in> set ops. distinct (snd op)" and empty: "index db j p k = []"
  shows "list_all2 (has_row (fold load_row ops db)) (index (fold load_row ops db) j p k) (rev (map fst (hits (j, k, p) ops)))"
proof -
  let ?is = "filter (\<lambda>i. (j, k, p) \<in> set (snd (ops ! i))) [0..<length ops]"
  have "hits (j, k, p) ops = map ((!) ops) ?is"
  proof -
    have "filter (\<lambda>op. (j, k, p) \<in> set (snd op)) (map ((!) ops) [0..<length ops]) = map ((!) ops) ?is"
      unfolding filter_map comp_def ..
    then show ?thesis by (simp add: hits_def map_nth)
  qed
  then show ?thesis
    using load_rows [OF wf, of db] empty
    by (auto simp: list_all2_rev list_all2_map1 list_all2_map2 list.rel_map intro!: list.rel_refl_strong simp flip: rev_map)
qed

lemma load_rows_shared:
  assumes wf: "\<forall>op \<in> set ops. distinct (snd op)" and empty: "\<forall>j p k. index db j p k = []"
    and r: "r \<in> set (index (fold load_row ops db) j p k)" "r \<in> set (index (fold load_row ops db) j' p' k')"
  shows "\<exists>op \<in> set ops. (j, k, p) \<in> set (snd op) \<and> (j', k', p') \<in> set (snd op)"
  using load_rows [OF wf, of db] r empty by auto

section \<open>Interleavings\<close>

lemma set_interleavings: "zs \<in> interleavings xss \<Longrightarrow> set zs = \<Union> (set ` set xss)"
  by (induction xss arbitrary: zs) (auto dest: set_shuffles)

lemma filter_interleavings: "zs \<in> interleavings xss \<Longrightarrow> filter P zs \<in> interleavings (map (filter P) xss)"
proof (induction xss arbitrary: zs)
  case (Cons xs xss)
  then obtain ys where ys: "ys \<in> interleavings xss" "zs \<in> shuffles xs ys" by auto
  then have "filter P zs \<in> shuffles (filter P xs) (filter P ys)" by (metis filter_shuffles imageI)
  then show ?case using Cons.IH [OF ys(1)] by auto
qed simp

lemma concat_one:
  assumes "distinct ws" "w \<in> set ws" "\<forall>v \<in> set ws. v \<noteq> w \<longrightarrow> f v = []"
  shows "concat (map f ws) = f w"
  using assms
proof (induction ws)
  case (Cons v ws)
  show ?case
  proof (cases "v = w")
    case True
    then have "\<forall>u \<in> set ws. f u = []" using Cons.prems by auto
    then have "concat (map f ws) = []" by simp
    then show ?thesis using True by simp
  qed (use Cons in auto)
qed simp

text \<open>When only one warehouse has hits, the threads cannot disagree on them.\<close>

lemma interleavings_one:
  assumes "distinct (concat (map g ts))" "w \<in> set (concat (map g ts))"
    "\<forall>v \<in> set (concat (map g ts)). v \<noteq> w \<longrightarrow> f v = []"
  shows "interleavings (map (\<lambda>t. concat (map f (g t))) ts) = {f w}"
  using assms
proof (induction ts)
  case (Cons t ts)
  show ?case
  proof (cases "w \<in> set (g t)")
    case True
    have "w \<notin> set (concat (map g ts))" using Cons.prems(1) True by auto
    then have nil: "\<forall>v \<in> set (concat (map g ts)). f v = []" using Cons.prems(3) by auto
    then have "interleavings (map (\<lambda>t. concat (map f (g t))) ts) = {[]}" by (induction ts) auto
    moreover have "concat (map f (g t)) = f w" by (rule concat_one) (use Cons.prems True in auto)
    ultimately show ?thesis by simp
  next
    case False
    then have e: "concat (map f (g t)) = []" using Cons.prems by auto
    have "interleavings (map (\<lambda>t. concat (map f (g t))) ts) = {f w}" by (rule Cons.IH) (use Cons.prems False in auto)
    then show ?thesis by (simp only: list.map interleavings.simps e) simp
  qed
qed simp

section \<open>The split over threads\<close>

lemma u32_add: "unat x + unat y < 2 ^ 32 \<Longrightarrow> unat (x + y) = unat x + unat (y :: UInt32)"
  by (simp add: unat_word_ariths)

lemma u32_mult: "unat x * unat y < 2 ^ 32 \<Longrightarrow> unat (x * y) = unat x * unat (y :: UInt32)"
  by (simp add: unat_word_ariths)

lemma thread_whs_upt:
  fixes N T :: UInt32
  assumes T: "T \<noteq> 0" and t: "t < unat T"
  defines "per \<equiv> unat N div unat T" and "rest \<equiv> unat N mod unat T"
  shows "map unat (thread_whs N T (of_nat t)) =
    [per * t + min t rest ..< per * Suc t + min (Suc t) rest]"
proof -
  let ?N = "unat N" and ?T = "unat T"
  have Tpos: "0 < ?T" using T by (simp add: unat_gt_0)
  have split: "?N = per * ?T + rest" by (simp add: per_def rest_def)
  have N32: "?N < 2 ^ 32" using unsigned_less [of N, where ?'a = nat] by simp
  have tw: "unat (of_nat t :: UInt32) = t"
    using t unsigned_less [of T, where ?'a = nat] by (simp add: unat_of_nat take_bit_nat_eq_self)
  have per: "unat (N div T) = per" by (simp add: unat_div per_def)
  have rest: "unat (N - N div T * T) = rest"
    by (metis minus_div_mult_eq_mod unat_mod rest_def)
  have tr: "(of_nat t :: UInt32) < N - N div T * T \<longleftrightarrow> t < rest" by (simp only: word_less_nat_alt tw rest)
  have rl: "rest < ?T" by (simp add: rest_def Tpos)
  have "per * Suc t \<le> per * ?T" using t by (intro mult_le_mono2) simp
  then have bound: "per * Suc t + min (Suc t) rest \<le> ?N" using split by simp
  have cnt: "unat (N div T + (if of_nat t < N - N div T * T then 1 else 0)) = per + (if t < rest then 1 else 0)"
  proof (cases "t < rest")
    case True
    then have "per + 1 \<le> ?N" using bound by (cases t) auto
    then show ?thesis using True N32 u32_add [of "N div T" 1] by (simp add: tr per)
  qed (simp add: tr per)
  have prev: "unat (N div T * of_nat t + min (of_nat t) (N - N div T * T)) = per * t + min t rest"
  proof -
    have "unat (min (of_nat t) (N - N div T * T)) = min t rest" by (simp add: min_def word_le_nat_alt tw rest)
    moreover have "per * t + min t rest \<le> ?N" using bound by (simp add: min_def split: if_splits)
    ultimately show ?thesis
      using N32 u32_mult [of "N div T" "of_nat t"] u32_add [of "N div T * of_nat t" "min (of_nat t) (N - N div T * T)"]
      by (simp add: per tw)
  qed
  have one: "unat (N div T * of_nat t + min (of_nat t) (N - N div T * T) + of_nat i :: UInt32) = per * t + min t rest + i"
    if "i < per + (if t < rest then 1 else 0)" for i
  proof -
    have "per * t + min t rest + i < ?N" using that bound by (auto simp: min_def split: if_splits)
    moreover from this have "unat (of_nat i :: UInt32) = i" using N32 by (simp add: unat_of_nat take_bit_nat_eq_self)
    ultimately show ?thesis
      using N32 prev u32_add [of "N div T * of_nat t + min (of_nat t) (N - N div T * T)" "of_nat i"] by simp
  qed
  have "map unat (thread_whs N T (of_nat t)) = map (\<lambda>i. per * t + min t rest + i) [0..<per + (if t < rest then 1 else 0)]"
    unfolding thread_whs_def Let_def cnt map_map comp_def by (intro map_cong) (simp_all add: one)
  also have "\<dots> = [per * t + min t rest ..< per * t + min t rest + (per + (if t < rest then 1 else 0))]"
    using map_add_upt [of "per * t + min t rest"] by (simp add: add.commute)
  also have "per * t + min t rest + (per + (if t < rest then 1 else 0)) = per * Suc t + min (Suc t) rest"
    by (simp add: min_def)
  finally show ?thesis .
qed

lemma concat_upt:
  assumes "\<And>t. b t \<le> b (Suc t)"
  shows "concat (map (\<lambda>t. [b t..<b (Suc t)]) [0..<n]) = [b 0..<b n]"
proof (induction n)
  case (Suc n)
  have "b 0 \<le> b n" using assms by (simp add: lift_Suc_mono_le)
  then have "[b 0..<b (Suc n)] = [b 0..<b n] @ [b n..<b (Suc n)]"
    using assms [of n] by (metis le_add_diff_inverse upt_add_eq_append)
  then show ?case using Suc by simp
qed simp

text \<open>The threads load every warehouse exactly once, whatever their number.\<close>

lemma threads_cover:
  assumes "T \<noteq> 0"
  shows "distinct (concat (map (\<lambda>t. thread_whs N T (of_nat t)) [0..<unat T])) \<and>
    set (concat (map (\<lambda>t. thread_whs N T (of_nat t)) [0..<unat T])) = {w. w < N}"
proof -
  let ?ws = "concat (map (\<lambda>t. thread_whs N T (of_nat t)) [0..<unat T])"
  let ?b = "\<lambda>t. unat N div unat T * t + min t (unat N mod unat T)"
  have mono: "?b t \<le> ?b (Suc t)" for t by (simp add: add_mono min.coboundedI1)
  have "map unat ?ws = concat (map (\<lambda>t. map unat (thread_whs N T (of_nat t))) [0..<unat T])"
    by (simp add: map_concat comp_def)
  also have "\<dots> = concat (map (\<lambda>t. [?b t..<?b (Suc t)]) [0..<unat T])"
    using thread_whs_upt [OF assms] by (intro arg_cong [of _ _ concat] map_cong) auto
  also have "\<dots> = [?b 0..<?b (unat T)]" using mono by (rule concat_upt)
  also have "?b (unat T) = unat N"
  proof -
    have "unat N mod unat T < unat T" using assms by (simp add: unat_gt_0)
    then show ?thesis by (simp add: min_def)
  qed
  finally have m: "map unat ?ws = [0..<unat N]" by simp
  have d: "distinct ?ws" using m by (metis distinct_map distinct_upt)
  have "unat ` set ?ws = {0..<unat N}" by (metis m set_map set_upt)
  then have "w \<in> set ?ws \<longleftrightarrow> w < N" for w
    by (smt (verit, ccfv_SIG) atLeastLessThan_iff imageE image_eqI unsigned_word_eqI word_less_nat_alt zero_le)
  then show ?thesis using d by blast
qed

section \<open>Loops and random values\<close>

lemma for_each_gives:
  assumes "\<And>x s. x \<in> set xs \<Longrightarrow> gives (f x s) (\<lambda>a _. Q x a)"
  shows "gives (for_each f xs s) (\<lambda>ops _. \<exists>as. ops = concat as \<and> list_all2 Q xs as)"
  using assms
proof (induction xs arbitrary: s)
  case (Cons x xs)
  obtain a s1 where a: "f x s = Some (a, s1)" "Q x a" using Cons.prems [of x s] by (auto simp: gives_def)
  obtain as s2 where "for_each f xs s1 = Some (concat as, s2)" "list_all2 Q xs as"
    using Cons.IH [of s1] Cons.prems by (auto simp: gives_def)
  then have "for_each f (x # xs) s = Some (concat (a # as), s2) \<and> list_all2 Q (x # xs) (a # as)" using a by simp
  then show ?case unfolding gives_def by blast
qed simp

lemma draw_chars_gives:
  assumes "(of_nat (length cs - 1) :: 64 word) + 1 \<noteq> 0"
  shows "gives (draw_chars cs n s) (\<lambda>str _. length str = n)"
proof (induction n arbitrary: s)
  case (Suc n)
  show ?case unfolding draw_chars.simps
    by (rule gives_bind [OF URand_gives]) (use assms in \<open>auto intro!: gives_bind [OF Suc.IH]\<close>)
qed simp

lemma MakeAlphaString_gives:
  assumes "mn \<le> mx" "mx - mn + 1 \<noteq> 0"
  shows "gives (MakeAlphaString mn mx s) (\<lambda>str _. mn \<le> of_nat (length str) \<and> (of_nat (length str) :: 64 word) \<le> mx)"
  unfolding MakeAlphaString_def
  by (rule gives_bind [OF URand_gives [OF assms]], rule gives_mono [OF draw_chars_gives]) (auto simp: char_list_def)

lemma MakeNumberString_gives:
  assumes "mn \<le> mx" "mx - mn + 1 \<noteq> 0"
  shows "gives (MakeNumberString mn mx s) (\<lambda>str _. mn \<le> of_nat (length str) \<and> (of_nat (length str) :: 64 word) \<le> mx)"
  unfolding MakeNumberString_def
  by (rule gives_bind [OF URand_gives [OF assms]], rule gives_mono [OF draw_chars_gives]) auto

lemma set_ids: "set (ids n) = {1..n}"
proof -
  have "x \<in> set (ids n) \<longleftrightarrow> x \<in> {1..n}" for x
  proof
    assume "x \<in> set (ids n)"
    then obtain i where i: "x = of_nat i" "1 \<le> i" "i \<le> unat n" by (auto simp: ids_def)
    then have "unat x = i" using unsigned_less [of n, where ?'a = nat] by (simp add: unat_of_nat take_bit_nat_eq_self)
    then show "x \<in> {1..n}" using i by (simp add: word_le_nat_alt)
  next
    assume "x \<in> {1..n}"
    then have "x = of_nat (unat x)" "unat x \<in> set [1..<Suc (unat n)]" by (auto simp: word_le_nat_alt)
    then show "x \<in> set (ids n)" unfolding ids_def by (metis image_eqI set_map)
  qed
  then show ?thesis by blast
qed

lemma distinct_ids: "distinct (ids n)"
proof -
  have "inj_on (of_nat :: nat \<Rightarrow> 64 word) {1..<Suc (unat n)}"
  proof (rule inj_onI)
    fix i j assume "i \<in> {1..<Suc (unat n)}" "j \<in> {1..<Suc (unat n)}" "(of_nat i :: 64 word) = of_nat j"
    moreover have "unat (of_nat k :: 64 word) = k" if "k \<in> {1..<Suc (unat n)}" for k
      using that unsigned_less [of n, where ?'a = nat] by (simp add: unat_of_nat take_bit_nat_eq_self)
    ultimately show "i = j" by metis
  qed
  then show ?thesis unfolding ids_def distinct_map set_upt by (simp only: distinct_upt simp_thms)
qed

lemma length_ids: "length (ids n) = unat n"
  by (simp add: ids_def)

section \<open>The rows of one warehouse\<close>

lemmas string_gives = gives_bind [OF MakeAlphaString_gives] gives_bind [OF MakeNumberString_gives]
  gives_bind [OF URand_gives] gives_bind [OF RAND_gives]

lemma load_item_gives: "gives (load_item i s) (\<lambda>a _. \<exists>x. a = [(R_item x, [(I_item, i, 0)])])"
  unfolding load_item_def by (auto intro!: string_gives)

lemma draw_address_gives: "gives (draw_address s) (\<lambda>_ _. True)"
  unfolding draw_address_def by (auto intro!: string_gives gives_mono [OF URand_gives])

lemma draw_cust_strings_gives: "gives (draw_cust_strings s) (\<lambda>_ _. True)"
  unfolding draw_cust_strings_def by (auto intro!: string_gives)

lemma draw_stock_strings_gives: "gives (draw_stock_strings s) (\<lambda>_ _. True)"
proof -
  have long: "(of_nat (length (str :: string)) :: 64 word) - 8 - 0 + 1 \<noteq> 0" if "26 \<le> (of_nat (length str) :: 64 word)" for str
    using that by unat_arith
  show ?thesis unfolding draw_stock_strings_def
    by (rule gives_bind [OF for_each_gives [where Q = "\<lambda>_ _. True"]])
      (auto intro!: string_gives gives_mono [OF MakeAlphaString_gives] gives_mono [OF URand_gives] simp: long [simplified] split: if_splits)
qed

lemma init_tab_wh_gives:
  assumes "cfg_ok (lwc lc)" "wid \<in> {1..num_wh (lwc lc)}"
  shows "gives (init_tab_wh lc wid s) (\<lambda>a _. \<exists>x. a = [(R_wh x, [(I_warehouse, wid, wid mod part_cnt (lwc lc))])])"
  unfolding init_tab_wh_def wh_to_part_ok [OF assms(1)] using assms(2)
  by (auto intro!: gives_bind [OF draw_address_gives])

lemma load_dist_gives:
  assumes "cfg_ok (lwc lc)"
  shows "gives (load_dist lc wid did s)
    (\<lambda>a _. \<exists>x. a = [(R_dist x, [(I_district, distKey did wid, wid mod part_cnt (lwc lc))])] \<and> D_NEXT_O_ID x = 3001)"
  unfolding load_dist_def wh_to_part_ok [OF assms(1)] by (auto intro!: gives_bind [OF draw_address_gives])

lemma load_stock_gives:
  assumes "cfg_ok (lwc lc)"
  shows "gives (load_stock lc wid sid s)
    (\<lambda>a _. \<exists>x. a = [(R_stock x, [(I_stock, stockKey (lwc lc) sid wid, wid mod part_cnt (lwc lc))])] \<and> S_QUANTITY x \<in> {10..100})"
  unfolding load_stock_def wh_to_part_ok [OF assms(1)]
  by (rule gives_bind [OF URand_gives]) (auto intro!: gives_bind [OF draw_stock_strings_gives])

lemma load_cust_gives:
  assumes "cfg_ok (lwc lc)" and cid: "1 \<le> cid"
  shows "gives (load_cust lc did wid cid s)
    (\<lambda>a _. \<exists>x l. a = [(R_cust x, [(I_customer_last, custNPKey l did wid, wid mod part_cnt (lwc lc)),
       (I_customer_id, custKey (lwc lc) cid did wid, wid mod part_cnt (lwc lc))])] \<and> C_ID x = cid)"
proof -
  have num: "gives (if cid \<le> 1000 then Some (cid - 1, s) else NURand 255 0 999 s) (\<lambda>n _. n \<le> 999)"
    using cid by (auto intro!: gives_mono [OF NURand_gives]) unat_arith
  have rest: "gives (do { c_last \<leftarrow> Lastname n; (_, s) \<leftarrow> (if TPCC_SMALL (ltc lc) then Some ((), s) else draw_cust_strings s);
       (credit, s) \<leftarrow> RAND 10 s; (d, s) \<leftarrow> RAND 5000 s;
       Some ([(R_cust \<lparr>C_ID = cid, C_DISCOUNT = quot lc d 10000, C_BALANCE = 0xC024000000000000,
               C_YTD_PAYMENT = 0x4024000000000000, C_PAYMENT_CNT = 1\<rparr>,
             [(I_customer_last, custNPKey c_last did wid, wid mod part_cnt (lwc lc)),
              (I_customer_id, custKey (lwc lc) cid did wid, wid mod part_cnt (lwc lc))])], s) })
      (\<lambda>a _. \<exists>x l. a = [(R_cust x, [(I_customer_last, custNPKey l did wid, wid mod part_cnt (lwc lc)),
       (I_customer_id, custKey (lwc lc) cid did wid, wid mod part_cnt (lwc lc))])] \<and> C_ID x = cid)" if n: "n \<le> 999" for n s
  proof -
    obtain l where "Lastname n = Some l" using Lastname_ok [OF n] by blast
    then show ?thesis by (cases "TPCC_SMALL (ltc lc)") (auto intro!: string_gives gives_bind [OF draw_cust_strings_gives])
  qed
  show ?thesis unfolding load_cust_def wh_to_part_ok [OF assms(1)]
    using gives_bind [OF num rest] by simp
qed

lemma init_tab_hist_gives: "gives (init_tab_hist lc wid did cid s) (\<lambda>a _. \<exists>x. a = [(R_hist x, [])])"
  unfolding init_tab_hist_def by (cases "TPCC_SMALL (ltc lc)") (auto intro!: string_gives)

text \<open>The shuffle permutes.\<close>

lemma shuffle_gives:
  assumes "\<forall>i \<in> set is. i < unat (n - 1)" "length perm = unat n" "1 \<le> n"
  shows "gives (shuffle n is perm s) (\<lambda>perm' _. mset perm' = mset perm)"
  using assms
proof (induction "is" arbitrary: perm s)
  case (Cons i "is")
  have i: "i < unat (n - 1)" "unat (n - 1) = unat n - 1" using Cons.prems by (auto simp: word_le_nat_alt unat_sub)
  have iw: "unat (of_nat i + 1 :: 64 word) = Suc i"
    using i unsigned_less [of n, where ?'a = nat] by (simp add: unat_word_ariths unat_of_nat take_bit_nat_eq_self)
  have range: "of_nat i + 1 \<le> n - 1" using i iw by (simp add: word_le_nat_alt)
  moreover have "n - 1 - (of_nat i + 1) + 1 \<noteq> 0"
  proof
    assume "n - 1 - (of_nat i + 1) + 1 = 0"
    then have "n = of_nat i + 1" by (simp add: algebra_simps)
    then show False using i iw by simp
  qed
  ultimately show ?case unfolding shuffle.simps
  proof (intro gives_bind [OF URand_gives])
    fix j and s' :: gen_st assume j: "of_nat i + 1 \<le> j \<and> j \<le> n - 1 \<and> draws s' = draws s"
    then have "unat j < length perm" using i Cons.prems(2,3) by (auto simp: word_le_nat_alt)
    moreover have "i < length perm" using i Cons.prems(2) by simp
    ultimately have "mset (perm[i := perm ! unat j, unat j := perm ! i]) = mset perm" by (metis mset_swap)
    then show "gives (assert_then (unat j < length perm) (shuffle n is (perm[i := perm ! unat j, unat j := perm ! i]) s'))
        (\<lambda>perm' _. mset perm' = mset perm)"
      using Cons.IH [of "perm[i := perm ! unat j, unat j := perm ! i]" s'] Cons.prems \<open>unat j < length perm\<close> by simp
  qed
qed simp

lemma init_permutation_gives:
  assumes "cfg_ok (lwc lc)"
  shows "gives (init_permutation lc s) (\<lambda>perm _. mset perm = mset (ids (cust_per_dist (lwc lc))))"
  unfolding init_permutation_def Let_def
  by (rule shuffle_gives) (use assms in \<open>auto simp: cfg_ok_def length_ids\<close>)

lemma list_all2_right: "list_all2 R xs ys \<Longrightarrow> y \<in> set ys \<Longrightarrow> \<exists>x \<in> set xs. R x y"
  by (induction rule: list_all2_induct) auto

lemma list_all2_left: "list_all2 R xs ys \<Longrightarrow> x \<in> set xs \<Longrightarrow> \<exists>y \<in> set ys. R x y"
  by (induction rule: list_all2_induct) auto

text \<open>Loops whose body creates one row.\<close>

lemma for_each_rows:
  assumes "\<And>x s. x \<in> set xs \<Longrightarrow> gives (f x s) (\<lambda>a _. \<exists>op. a = [op] \<and> R x op)"
  shows "gives (for_each f xs s) (\<lambda>ops _. list_all2 R xs ops)"
proof -
  have "list_all2 R xs (concat as)" if "list_all2 (\<lambda>x a. \<exists>op. a = [op] \<and> R x op) xs as" for as
    using that by (induction rule: list_all2_induct) auto
  moreover have "gives (for_each f xs s) (\<lambda>ops _. \<exists>as. ops = concat as \<and> list_all2 (\<lambda>x a. \<exists>op. a = [op] \<and> R x op) xs as)"
    by (rule for_each_gives) (rule assms)
  ultimately show ?thesis by (auto elim!: gives_mono)
qed

definition line_entry :: "load_cfg \<Rightarrow> 64 word \<Rightarrow> 64 word \<Rightarrow> 64 word \<Rightarrow> load_entry" where
  "line_entry lc wid did oid = (I_orderline, orderlineKey (lwc lc) wid did oid, d_to_part wid did)"

text \<open>The rows of one order.\<close>

definition order_rows :: "load_cfg \<Rightarrow> 64 word list \<Rightarrow> 64 word \<Rightarrow> 64 word \<Rightarrow> 64 word \<Rightarrow> row_spec list \<Rightarrow> bool" where
  "order_rows lc perm did wid oid a \<longleftrightarrow> (\<exists>x lines.
     a = (R_order x, [(I_order, orderPrimaryKey (lwc lc) wid did oid, d_to_part wid did),
            (I_order_cust, orderCustKey (lwc lc) did (O_C_ID x), wid mod part_cnt (lwc lc))]) # lines @
          (if 2100 < oid then [(R_no \<lparr>NO_O_ID = oid, NO_D_ID = did, NO_W_ID = wid\<rparr>,
             [(I_neworder, distKey did wid, wid mod part_cnt (lwc lc))])] else []) \<and>
     O_ID x = oid \<and> O_C_ID x = perm ! unat (oid - 1) \<and>
     length lines = (if TPCC_SMALL (ltc lc) then 0 else unat (O_OL_CNT x)) \<and>
     (\<forall>l \<in> set lines. \<exists>y. l = (R_line y, [line_entry lc wid did oid]) \<and> OL_O_ID y = oid))"

lemma load_line_gives:
  "gives (load_line lc did wid oid ol s)
     (\<lambda>a _. \<exists>op. a = [op] \<and> (\<exists>y. op = (R_line y, [line_entry lc wid did oid]) \<and> OL_O_ID y = oid))"
proof -
  have amount: "gives (if oid < 2101 then Some (0, s) else do { (a, s) \<leftarrow> URand 1 999999 s; Some (quot lc a 100, s) }) (\<lambda>_ _. True)" for s
    by (auto intro!: string_gives)
  show ?thesis unfolding load_line_def line_entry_def
    by (rule gives_bind [OF URand_gives], simp, simp, rule gives_bind [OF amount], rule gives_bind [OF MakeAlphaString_gives]) auto
qed

lemma load_order_gives:
  assumes "cfg_ok (lwc lc)" "oid \<in> {1..of_nat (length perm)}" "length perm < 2 ^ 64"
  shows "gives (load_order lc perm did wid oid s) (\<lambda>a _. order_rows lc perm did wid oid a)"
proof -
  let ?line = "\<lambda>_ op. \<exists>y. op = (R_line y, [line_entry lc wid did oid]) \<and> OL_O_ID y = oid"
  have len: "unat (of_nat (length perm) :: 64 word) = length perm" using assms(3) by (simp add: unat_of_nat take_bit_nat_eq_self)
  have oid: "unat (oid - 1) < length perm"
    using assms(2) len by (auto simp: word_le_nat_alt unat_sub)
  have carrier: "gives (if oid < 2101 then URand 1 10 s else Some (0, s)) (\<lambda>_ _. True)" for s
    by (auto intro: gives_mono [OF URand_gives])
  have lines: "gives (if TPCC_SMALL (ltc lc) then Some ([], s) else for_each (load_line lc did wid oid) (ids c) s)
      (\<lambda>ls _. length ls = (if TPCC_SMALL (ltc lc) then 0 else unat c) \<and> (\<forall>l \<in> set ls. ?line () l))" for c s
  proof -
    have all: "gives (for_each (load_line lc did wid oid) (ids c) s) (\<lambda>ls _. list_all2 ?line (ids c) ls)"
      by (rule for_each_rows) (rule load_line_gives)
    have "length ls = unat c \<and> (\<forall>l \<in> set ls. ?line () l)" if "list_all2 ?line (ids c) ls" for ls
      using that unfolding list_all2_conv_all_nth length_ids by (metis in_set_conv_nth)
    then show ?thesis using gives_mono [OF all] by simp
  qed
  show ?thesis unfolding load_order_def wh_to_part_ok [OF assms(1)] Let_def if_P [OF oid] Option.bind.simps
    by (rule gives_bind [OF carrier], rule gives_bind [OF URand_gives], simp, simp, rule gives_bind [OF lines])
      (auto simp: order_rows_def)
qed

definition item_op :: "64 word \<Rightarrow> row_spec \<Rightarrow> bool" where
  "item_op i op \<longleftrightarrow> (\<exists>x. op = (R_item x, [(I_item, i, 0)]))"

definition dist_op :: "load_cfg \<Rightarrow> 64 word \<Rightarrow> 64 word \<Rightarrow> row_spec \<Rightarrow> bool" where
  "dist_op lc wid did op \<longleftrightarrow>
     (\<exists>x. op = (R_dist x, [(I_district, distKey did wid, wid mod part_cnt (lwc lc))]) \<and> D_NEXT_O_ID x = 3001)"

definition stock_op :: "load_cfg \<Rightarrow> 64 word \<Rightarrow> 64 word \<Rightarrow> row_spec \<Rightarrow> bool" where
  "stock_op lc wid sid op \<longleftrightarrow>
     (\<exists>x. op = (R_stock x, [(I_stock, stockKey (lwc lc) sid wid, wid mod part_cnt (lwc lc))]) \<and> S_QUANTITY x \<in> {10..100})"

definition cust_op :: "load_cfg \<Rightarrow> 64 word \<Rightarrow> 64 word \<Rightarrow> 64 word \<Rightarrow> row_spec \<Rightarrow> bool" where
  "cust_op lc wid did cid op \<longleftrightarrow>
     (\<exists>x l. op = (R_cust x, [(I_customer_last, custNPKey l did wid, wid mod part_cnt (lwc lc)),
         (I_customer_id, custKey (lwc lc) cid did wid, wid mod part_cnt (lwc lc))]) \<and> C_ID x = cid)"

definition district_rows :: "load_cfg \<Rightarrow> 64 word \<Rightarrow> 64 word \<Rightarrow> row_spec list \<Rightarrow> bool" where
  "district_rows lc wid did a \<longleftrightarrow> (\<exists>custs perm orders hists.
     a = custs @ concat orders @ hists \<and> list_all2 (cust_op lc wid did) (ids (cust_per_dist (lwc lc))) custs \<and>
     mset perm = mset (ids (cust_per_dist (lwc lc))) \<and>
     list_all2 (order_rows lc perm did wid) (ids (cust_per_dist (lwc lc))) orders \<and> (\<forall>h \<in> set hists. snd h = []))"

definition warehouse_rows :: "load_cfg \<Rightarrow> 64 word \<Rightarrow> row_spec list \<Rightarrow> bool" where
  "warehouse_rows lc wid ops \<longleftrightarrow> (\<exists>items x dist stock rest.
     ops = items @ (R_wh x, [(I_warehouse, wid, wid mod part_cnt (lwc lc))]) # dist @ stock @ concat rest \<and>
     (if wid = 1 then list_all2 item_op (ids (max_items (lwc lc))) items else items = []) \<and>
     list_all2 (dist_op lc wid) (ids 10) dist \<and> list_all2 (stock_op lc wid) (ids (max_items (lwc lc))) stock \<and>
     list_all2 (district_rows lc wid) (ids 10) rest)"

lemma load_district_gives:
  assumes cfg: "cfg_ok (lwc lc)" and c: "1000 \<le> cust_per_dist (lwc lc)"
  shows "gives (load_district lc wid did s) (\<lambda>a _. district_rows lc wid did a)"
proof -
  let ?n = "cust_per_dist (lwc lc)"
  have custs: "gives (init_tab_cust lc did wid s) (\<lambda>ops _. list_all2 (cust_op lc wid did) (ids ?n) ops)" for s
    unfolding init_tab_cust_def using c
    by (simp, intro for_each_rows, intro gives_mono [OF load_cust_gives [OF cfg]]) (auto simp: set_ids cust_op_def)
  have orders: "gives (init_tab_order lc did wid s) (\<lambda>ops _. \<exists>perm orders. ops = concat orders \<and>
      mset perm = mset (ids ?n) \<and> list_all2 (order_rows lc perm did wid) (ids ?n) orders)" for s
    unfolding init_tab_order_def
  proof (rule gives_bind [OF init_permutation_gives [OF cfg]])
    fix perm and s' :: gen_st assume perm: "mset perm = mset (ids ?n)"
    then have len: "length perm = unat ?n" by (metis length_ids size_mset)
    have "gives (for_each (load_order lc perm did wid) (ids ?n) s')
        (\<lambda>ops _. \<exists>as. ops = concat as \<and> list_all2 (order_rows lc perm did wid) (ids ?n) as)"
      by (intro for_each_gives load_order_gives [OF cfg])
        (use len unsigned_less [of ?n, where ?'a = nat] in \<open>auto simp: set_ids\<close>)
    then show "gives (for_each (load_order lc perm did wid) (ids ?n) s') (\<lambda>ops _. \<exists>perm orders. ops = concat orders \<and>
        mset perm = mset (ids ?n) \<and> list_all2 (order_rows lc perm did wid) (ids ?n) orders)"
      using perm by (auto elim!: gives_mono)
  qed
  have hists: "gives (for_each (init_tab_hist lc wid did) (ids ?n) s) (\<lambda>ops _. \<forall>h \<in> set ops. snd h = [])" for s
  proof -
    have "gives (for_each (init_tab_hist lc wid did) (ids ?n) s) (\<lambda>ops _. list_all2 (\<lambda>_ h. snd h = []) (ids ?n) ops)"
      by (intro for_each_rows gives_mono [OF init_tab_hist_gives]) auto
    then show ?thesis
      by (rule gives_mono) (auto dest: list_all2_right)
  qed
  show ?thesis unfolding load_district_def
    by (rule gives_bind [OF custs], rule gives_bind [OF orders], rule gives_bind [OF hists])
      (auto simp: district_rows_def)
qed

lemma threadInitWarehouse_gives:
  assumes cfg: "cfg_ok (lwc lc)" and c: "1000 \<le> cust_per_dist (lwc lc)" and w: "w < num_wh (lwc lc)"
  shows "gives (threadInitWarehouse lc w s) (\<lambda>ops _. warehouse_rows lc (w + 1) ops)"
proof -
  have w1: "w + 1 \<in> {1..num_wh (lwc lc)}" "w + 1 = 1 \<longleftrightarrow> w = 0" using w by (auto, unat_arith, unat_arith)
  have items: "gives (if w = 0 then init_tab_item lc s else Some ([], s))
      (\<lambda>ops _. if w + 1 = 1 then list_all2 item_op (ids (max_items (lwc lc))) ops else ops = [])" for s
    unfolding init_tab_item_def
    by (auto intro!: for_each_rows gives_mono [OF load_item_gives] simp: item_op_def)
  have dist: "gives (init_tab_dist lc (w + 1) s) (\<lambda>ops _. list_all2 (dist_op lc (w + 1)) (ids 10) ops)" for s
    unfolding init_tab_dist_def DIST_PER_WARE_def
    by (auto intro!: for_each_rows gives_mono [OF load_dist_gives [OF cfg]] simp: dist_op_def)
  have stock: "gives (init_tab_stock lc (w + 1) s) (\<lambda>ops _. list_all2 (stock_op lc (w + 1)) (ids (max_items (lwc lc))) ops)" for s
    unfolding init_tab_stock_def
    by (auto intro!: for_each_rows gives_mono [OF load_stock_gives [OF cfg]] simp: stock_op_def)
  have rest: "gives (for_each (load_district lc (w + 1)) (ids DIST_PER_WARE) s)
      (\<lambda>ops _. \<exists>as. ops = concat as \<and> list_all2 (district_rows lc (w + 1)) (ids 10) as)" for s
    unfolding DIST_PER_WARE_def by (intro for_each_gives load_district_gives [OF cfg c])
  show ?thesis unfolding threadInitWarehouse_def Let_def assert_then_def if_P [OF w]
    by (intro gives_bind [OF items] gives_bind [OF init_tab_wh_gives [OF cfg w1(1)]] gives_bind [OF dist]
        gives_bind [OF stock] gives_bind [OF rest]) (fastforce simp: warehouse_rows_def)
qed

section \<open>The rows under a key\<close>

lemma hits_none: "\<forall>op \<in> set ops. \<forall>e' \<in> set (snd op). fst e' \<noteq> fst e \<Longrightarrow> hits e ops = []"
  by (auto simp: hits_def filter_empty_conv)

lemma hits_one:
  assumes "list_all2 R xs ops" "distinct xs" "x \<in> set xs"
    and "\<And>y op. y \<in> set xs \<Longrightarrow> R y op \<Longrightarrow> e \<in> set (snd op) \<longleftrightarrow> y = x"
  shows "\<exists>op. hits e ops = [op] \<and> R x op"
  using assms
proof (induction rule: list_all2_induct)
  case (Cons y ys op ops)
  have op: "e \<in> set (snd op) \<longleftrightarrow> y = x" using Cons.prems(3) [of y op] Cons.hyps(1) by simp
  show ?case
  proof (cases "y = x")
    case True
    have "e \<notin> set (snd op')" if "op' \<in> set ops" for op'
      using list_all2_right [OF Cons.hyps(2) that] Cons.prems True by fastforce
    then have "hits e ops = []" by (auto simp: hits_def filter_empty_conv)
    then show ?thesis using True op Cons.hyps(1) by simp
  next
    case False
    then show ?thesis using op Cons.IH Cons.prems by simp
  qed
qed simp

text \<open>Of the parts of a loop, the one of \<open>x\<close> has all hits of the entries that no other part has.\<close>

lemma hits_concat_one:
  assumes "list_all2 Q xs as" "distinct xs" "x \<in> set xs"
  shows "\<exists>a. Q x a \<and> (\<forall>e. (\<forall>y b. y \<in> set xs \<longrightarrow> y \<noteq> x \<longrightarrow> Q y b \<longrightarrow> hits e b = []) \<longrightarrow> hits e (concat as) = hits e a)"
  using assms
proof (induction rule: list_all2_induct)
  case (Cons y ys a as)
  show ?case
  proof (cases "y = x")
    case True
    have "hits e (concat as) = []" if e: "\<forall>z b. z \<in> set ys \<longrightarrow> z \<noteq> x \<longrightarrow> Q z b \<longrightarrow> hits e b = []" for e
    proof -
      have "hits e b = []" if "b \<in> set as" for b
        using list_all2_right [OF Cons.hyps(2) that] Cons.prems(1) True e by auto
      then show ?thesis by (simp add: hits_concat)
    qed
    then show ?thesis using True Cons.hyps(1) by (intro exI [of _ a]) auto
  next
    case False
    then obtain b where "Q x b" "\<forall>e. (\<forall>z b. z \<in> set ys \<longrightarrow> z \<noteq> x \<longrightarrow> Q z b \<longrightarrow> hits e b = []) \<longrightarrow> hits e (concat as) = hits e b"
      using Cons.IH Cons.prems by auto
    then show ?thesis using False Cons.hyps(1) by (intro exI [of _ b]) auto
  qed
qed simp

text \<open>The entries of a district and of a warehouse, by index.\<close>

definition dist_entry :: "load_cfg \<Rightarrow> 64 word \<Rightarrow> 64 word \<Rightarrow> load_entry \<Rightarrow> bool" where
  "dist_entry lc w d e = (case e of (j, k, p) \<Rightarrow>
     (case j of
        I_customer_id \<Rightarrow> \<exists>c \<in> {1..cust_per_dist (lwc lc)}. k = custKey (lwc lc) c d w
      | I_order \<Rightarrow> p = d_to_part w d
      | I_orderline \<Rightarrow> p = d_to_part w d
      | I_neworder \<Rightarrow> k = distKey d w
      | I_customer_last \<Rightarrow> True
      | I_order_cust \<Rightarrow> True
      | _ \<Rightarrow> False))"

lemma dist_entry_cust [simp]:
  "c \<in> {1..cust_per_dist (lwc lc)} \<Longrightarrow> dist_entry lc w d (I_customer_id, custKey (lwc lc) c d w, p)"
  by (simp only: dist_entry_def prod.case INDEX.case) blast

definition wh_entry :: "load_cfg \<Rightarrow> 64 word \<Rightarrow> load_entry \<Rightarrow> bool" where
  "wh_entry lc w e = (case e of (j, k, p) \<Rightarrow>
     (case j of
        I_item \<Rightarrow> w = 1
      | I_warehouse \<Rightarrow> k = w
      | I_district \<Rightarrow> \<exists>d \<in> {1..10}. k = distKey d w
      | I_stock \<Rightarrow> \<exists>i \<in> {1..max_items (lwc lc)}. k = stockKey (lwc lc) i w
      | _ \<Rightarrow> \<exists>d \<in> {1..10}. dist_entry lc w d e))"

lemma dist_entry_kinds:
  "dist_entry lc w d e \<Longrightarrow> fst e \<in> {I_customer_last, I_customer_id, I_order, I_order_cust, I_orderline, I_neworder}"
  by (cases e; cases "fst e") (auto simp: dist_entry_def)

lemma dist_wh_entry:
  assumes "dist_entry lc w d e" "d \<in> {1..10}"
  shows "wh_entry lc w e"
proof -
  have "\<exists>d \<in> {1..10}. dist_entry lc w d e" using assms by (rule bexI)
  then show ?thesis using dist_entry_kinds [OF assms(1)] by (cases e; cases "fst e") (simp_all add: wh_entry_def)
qed

lemma wh_entry_simps [simp]:
  "wh_entry lc w (I_item, k, p) \<longleftrightarrow> w = 1"
  "wh_entry lc w (I_warehouse, w, p)"
  "d \<in> {1..10} \<Longrightarrow> wh_entry lc w (I_district, distKey d w, p)"
  "i \<in> {1..max_items (lwc lc)} \<Longrightarrow> wh_entry lc w (I_stock, stockKey (lwc lc) i w, p)"
  unfolding wh_entry_def by (simp, simp) (simp only: prod.case INDEX.case, blast)+

lemma order_rows_cases:
  assumes "order_rows lc perm d w oid b" "op \<in> set b"
  obtains x where "op = (R_order x, [(I_order, orderPrimaryKey (lwc lc) w d oid, d_to_part w d),
          (I_order_cust, orderCustKey (lwc lc) d (O_C_ID x), w mod part_cnt (lwc lc))])"
    | y where "op = (R_line y, [line_entry lc w d oid])"
    | "op = (R_no \<lparr>NO_O_ID = oid, NO_D_ID = d, NO_W_ID = w\<rparr>, [(I_neworder, distKey d w, w mod part_cnt (lwc lc))])" "2100 < oid"
proof -
  from assms(1) obtain x lines where b: "b = (R_order x, [(I_order, orderPrimaryKey (lwc lc) w d oid, d_to_part w d),
            (I_order_cust, orderCustKey (lwc lc) d (O_C_ID x), w mod part_cnt (lwc lc))]) # lines @
          (if 2100 < oid then [(R_no \<lparr>NO_O_ID = oid, NO_D_ID = d, NO_W_ID = w\<rparr>,
             [(I_neworder, distKey d w, w mod part_cnt (lwc lc))])] else [])"
      "\<forall>l \<in> set lines. \<exists>y. l = (R_line y, [line_entry lc w d oid]) \<and> OL_O_ID y = oid"
    unfolding order_rows_def by blast
  show ?thesis using that(1) [of x] that(2,3) assms(2) b by (auto split: if_splits)
qed

lemma district_entries:
  assumes "district_rows lc w d a" and op: "op \<in> set a"
  shows "distinct (snd op) \<and> (\<forall>e \<in> set (snd op). dist_entry lc w d e)"
proof -
  from assms(1) obtain custs perm orders hists where a: "a = custs @ concat orders @ hists"
    "list_all2 (cust_op lc w d) (ids (cust_per_dist (lwc lc))) custs"
    "list_all2 (order_rows lc perm d w) (ids (cust_per_dist (lwc lc))) orders" "\<forall>h \<in> set hists. snd h = []"
    by (auto simp: district_rows_def)
  consider "op \<in> set custs" | b where "b \<in> set orders" "op \<in> set b" | "snd op = []" using op a(1,4) by auto
  then show ?thesis
  proof cases
    case 1
    from list_all2_right [OF a(2) this] obtain c where "c \<in> {1..cust_per_dist (lwc lc)}" "cust_op lc w d c op"
      by (auto simp: set_ids)
    then show ?thesis unfolding cust_op_def by (elim exE conjE) (simp, simp add: dist_entry_def)
  next
    case (2 b)
    from list_all2_right [OF a(3) 2(1)] obtain oid where "order_rows lc perm d w oid b" by auto
    from this 2(2) show ?thesis
      by (rule order_rows_cases) (simp_all add: dist_entry_def line_entry_def)
  qed simp
qed

lemma warehouse_entries:
  assumes "warehouse_rows lc w ops" "op \<in> set ops"
  shows "distinct (snd op) \<and> (\<forall>e \<in> set (snd op). wh_entry lc w e)"
proof -
  from assms(1) obtain items x dist stock rest where
    ops: "ops = items @ (R_wh x, [(I_warehouse, w, w mod part_cnt (lwc lc))]) # dist @ stock @ concat rest"
      "if w = 1 then list_all2 item_op (ids (max_items (lwc lc))) items else items = []"
      "list_all2 (dist_op lc w) (ids 10) dist" "list_all2 (stock_op lc w) (ids (max_items (lwc lc))) stock"
      "list_all2 (district_rows lc w) (ids 10) rest" unfolding warehouse_rows_def by blast
  consider "op \<in> set items" | "op = (R_wh x, [(I_warehouse, w, w mod part_cnt (lwc lc))])" | "op \<in> set dist" | "op \<in> set stock"
    | a where "a \<in> set rest" "op \<in> set a" using assms(2) ops(1) by auto
  then show ?thesis
  proof cases
    case 1
    then show ?thesis using ops(2) by (auto simp: item_op_def dest!: list_all2_right split: if_splits)
  next
    case 2
    then show ?thesis by simp
  next
    case 3
    from list_all2_right [OF ops(3) this] show ?thesis
      by (auto simp: dist_op_def set_ids)
  next
    case 4
    from list_all2_right [OF ops(4) this] show ?thesis
      by (auto simp: stock_op_def set_ids)
  next
    case (5 a)
    from list_all2_right [OF ops(5) 5(1)] obtain d where "d \<in> {1..10}" "district_rows lc w d a" by (auto simp: set_ids)
    from district_entries [OF this(2) 5(2)] dist_wh_entry [OF _ this(1)] show ?thesis by blast
  qed
qed

text \<open>The rows of a district under its own keys.\<close>

lemma order_hits:
  assumes "order_rows lc perm d w oid b"
  shows "\<exists>x es. hits (I_order, orderPrimaryKey (lwc lc) w d oid, d_to_part w d) b = [(R_order x, es)] \<and>
    O_ID x = oid \<and> O_C_ID x = perm ! unat (oid - 1) \<and>
    length (hits (line_entry lc w d oid) b) = (if TPCC_SMALL (ltc lc) then 0 else unat (O_OL_CNT x)) \<and>
    (\<forall>l \<in> set (hits (line_entry lc w d oid) b). \<exists>y. fst l = R_line y \<and> OL_O_ID y = oid)"
proof -
  from assms obtain x lines where b: "b = (R_order x, [(I_order, orderPrimaryKey (lwc lc) w d oid, d_to_part w d),
            (I_order_cust, orderCustKey (lwc lc) d (O_C_ID x), w mod part_cnt (lwc lc))]) # lines @
          (if 2100 < oid then [(R_no \<lparr>NO_O_ID = oid, NO_D_ID = d, NO_W_ID = w\<rparr>,
             [(I_neworder, distKey d w, w mod part_cnt (lwc lc))])] else [])"
      "O_ID x = oid" "O_C_ID x = perm ! unat (oid - 1)"
      "length lines = (if TPCC_SMALL (ltc lc) then 0 else unat (O_OL_CNT x))"
      "\<forall>l \<in> set lines. \<exists>y. l = (R_line y, [line_entry lc w d oid]) \<and> OL_O_ID y = oid"
    unfolding order_rows_def by blast
  have "hits (I_order, k, p) lines = []" for k p using b(5) by (intro hits_none) (auto simp: line_entry_def)
  moreover have "hits (line_entry lc w d oid) lines = lines"
    using b(5) by (auto simp: hits_def filter_id_conv)
  ultimately show ?thesis using b by (auto simp: line_entry_def)
qed

lemma order_other_hits:
  assumes "order_rows lc perm d w oid' b" "oid' \<noteq> oid"
  shows "hits (I_order, orderPrimaryKey (lwc lc) w d oid, p) b = []" "hits (line_entry lc w d oid) b = []"
proof -
  have k: "orderlineKey (lwc lc) w d oid \<noteq> orderlineKey (lwc lc) w d oid'" using assms(2) by (simp add: orderlineKey_def)
  have "e \<notin> set (snd op)" if "op \<in> set b" "e = (I_order, orderPrimaryKey (lwc lc) w d oid, p) \<or> e = line_entry lc w d oid" for op e
    using assms(1) that(1) by (rule order_rows_cases) (use that(2) k in \<open>auto simp: line_entry_def orderPrimaryKey_def\<close>)
  then show "hits (I_order, orderPrimaryKey (lwc lc) w d oid, p) b = []" "hits (line_entry lc w d oid) b = []"
    by (auto simp: hits_def filter_empty_conv)
qed

lemma neworder_hits:
  assumes "list_all2 (order_rows lc perm d w) os orders"
  shows "map fst (hits (I_neworder, distKey d w, w mod part_cnt (lwc lc)) (concat orders)) =
    map (\<lambda>oid. R_no \<lparr>NO_O_ID = oid, NO_D_ID = d, NO_W_ID = w\<rparr>) (filter (\<lambda>oid. 2100 < oid) os)"
  using assms
proof (induction rule: list_all2_induct)
  case (Cons oid os b orders)
  from Cons.hyps(1) obtain x lines where b: "b = (R_order x, [(I_order, orderPrimaryKey (lwc lc) w d oid, d_to_part w d),
            (I_order_cust, orderCustKey (lwc lc) d (O_C_ID x), w mod part_cnt (lwc lc))]) # lines @
          (if 2100 < oid then [(R_no \<lparr>NO_O_ID = oid, NO_D_ID = d, NO_W_ID = w\<rparr>,
             [(I_neworder, distKey d w, w mod part_cnt (lwc lc))])] else [])"
      "\<forall>l \<in> set lines. \<exists>y. l = (R_line y, [line_entry lc w d oid]) \<and> OL_O_ID y = oid"
    unfolding order_rows_def by blast
  have "hits (I_neworder, k, p) lines = []" for k p using b(2) by (intro hits_none) (auto simp: line_entry_def)
  then show ?case using Cons.IH b(1) by simp
qed simp

lemma district_hits:
  assumes rows: "district_rows lc w d a" and sz: "sizes_ok (lwc lc)" and w: "w \<in> {1..num_wh (lwc lc)}" and d: "d \<in> {1..10}"
  shows "(\<forall>c \<in> {1..cust_per_dist (lwc lc)}. \<exists>op.
      hits (I_customer_id, custKey (lwc lc) c d w, w mod part_cnt (lwc lc)) a = [op] \<and> cust_op lc w d c op) \<and>
    (\<exists>perm. mset perm = mset (ids (cust_per_dist (lwc lc))) \<and> (\<forall>oid \<in> {1..cust_per_dist (lwc lc)}. \<exists>x es.
      hits (I_order, orderPrimaryKey (lwc lc) w d oid, d_to_part w d) a = [(R_order x, es)] \<and>
      O_ID x = oid \<and> O_C_ID x = perm ! unat (oid - 1) \<and>
      length (hits (line_entry lc w d oid) a) = (if TPCC_SMALL (ltc lc) then 0 else unat (O_OL_CNT x)) \<and>
      (\<forall>l \<in> set (hits (line_entry lc w d oid) a). \<exists>y. fst l = R_line y \<and> OL_O_ID y = oid))) \<and>
    map fst (hits (I_neworder, distKey d w, w mod part_cnt (lwc lc)) a) =
      map (\<lambda>oid. R_no \<lparr>NO_O_ID = oid, NO_D_ID = d, NO_W_ID = w\<rparr>) (filter (\<lambda>oid. 2100 < oid) (ids (cust_per_dist (lwc lc))))"
proof -
  let ?n = "cust_per_dist (lwc lc)"
  from rows obtain custs perm orders hists where a: "a = custs @ concat orders @ hists"
    "list_all2 (cust_op lc w d) (ids ?n) custs" "mset perm = mset (ids ?n)"
    "list_all2 (order_rows lc perm d w) (ids ?n) orders" "\<forall>h \<in> set hists. snd h = []"
    unfolding district_rows_def by blast
  have hist: "hits e hists = []" for e using a(5) by (auto simp: hits_def filter_empty_conv)
  have cust: "hits e custs = []" if "fst e \<notin> {I_customer_last, I_customer_id}" for e
    using that list_all2_right [OF a(2)] by (intro hits_none) (fastforce simp: cust_op_def)
  have ord: "hits e (concat orders) = []" if "fst e = I_customer_id" for e
  proof (rule hits_none, intro ballI)
    fix op e' assume "op \<in> set (concat orders)" "e' \<in> set (snd op)"
    then obtain b where b: "b \<in> set orders" "op \<in> set b" by auto
    from list_all2_right [OF a(4) b(1)] obtain oid where "order_rows lc perm d w oid b" by auto
    from this b(2) show "fst e' \<noteq> fst e" by (rule order_rows_cases) (use \<open>e' \<in> set (snd op)\<close> that in \<open>auto simp: line_entry_def\<close>)
  qed
  have cs: "\<exists>op. hits (I_customer_id, custKey (lwc lc) c d w, w mod part_cnt (lwc lc)) a = [op] \<and> cust_op lc w d c op" if "c \<in> {1..?n}" for c
  proof -
    have "\<exists>op. hits (I_customer_id, custKey (lwc lc) c d w, w mod part_cnt (lwc lc)) custs = [op] \<and> cust_op lc w d c op"
    proof (rule hits_one [OF a(2) distinct_ids])
      fix c' op assume c': "c' \<in> set (ids ?n)" "cust_op lc w d c' op"
      then show "(I_customer_id, custKey (lwc lc) c d w, w mod part_cnt (lwc lc)) \<in> set (snd op) \<longleftrightarrow> c' = c"
        using custKey_inject [OF sz w w d d that, of c'] unfolding cust_op_def set_ids by auto
    qed (use that set_ids in auto)
    then show ?thesis using a(1) hist ord by simp
  qed
  have os: "\<exists>x es. hits (I_order, orderPrimaryKey (lwc lc) w d oid, d_to_part w d) a = [(R_order x, es)] \<and>
      O_ID x = oid \<and> O_C_ID x = perm ! unat (oid - 1) \<and>
      length (hits (line_entry lc w d oid) a) = (if TPCC_SMALL (ltc lc) then 0 else unat (O_OL_CNT x)) \<and>
      (\<forall>l \<in> set (hits (line_entry lc w d oid) a). \<exists>y. fst l = R_line y \<and> OL_O_ID y = oid)" if "oid \<in> {1..?n}" for oid
  proof -
    have "oid \<in> set (ids ?n)" using that by (simp add: set_ids)
    from hits_concat_one [OF a(4) distinct_ids this] obtain b where b: "order_rows lc perm d w oid b"
      "\<forall>e. (\<forall>y c. y \<in> set (ids ?n) \<longrightarrow> y \<noteq> oid \<longrightarrow> order_rows lc perm d w y c \<longrightarrow> hits e c = []) \<longrightarrow>
         hits e (concat orders) = hits e b" by blast
    have "hits (I_order, orderPrimaryKey (lwc lc) w d oid, d_to_part w d) a = hits (I_order, orderPrimaryKey (lwc lc) w d oid, d_to_part w d) b"
      "hits (line_entry lc w d oid) a = hits (line_entry lc w d oid) b"
      using b(2) order_other_hits cust hist a(1) by (simp_all add: line_entry_def)
    then show ?thesis using order_hits [OF b(1)] by simp
  qed
  have "hits (I_neworder, k, p) a = hits (I_neworder, k, p) (concat orders)" for k p using cust hist a(1) by simp
  then show ?thesis using neworder_hits [OF a(4)] by (intro conjI ballI exI [of _ perm] cs os a(3)) simp_all
qed

text \<open>Two districts or warehouses share entries in the indexes by last name and by customer's order only.\<close>

lemma dist_entry_unique:
  assumes "dist_entry lc w d e" "dist_entry lc v d' e" "fst e \<notin> {I_customer_last, I_order_cust}"
    and sz: "sizes_ok (lwc lc)" and w: "w \<in> {1..num_wh (lwc lc)}" "v \<in> {1..num_wh (lwc lc)}" and d: "d \<in> {1..10}" "d' \<in> {1..10}"
  shows "w = v \<and> d = d'"
proof -
  obtain j k p where e: "e = (j, k, p)" by (cases e)
  from dist_entry_kinds [OF assms(1)] assms(3) consider "j = I_customer_id" | "j \<in> {I_order, I_orderline}" | "j = I_neworder"
    by (auto simp: e)
  then show ?thesis
  proof cases
    case 1
    then obtain c c' where "c \<in> {1..cust_per_dist (lwc lc)}" "c' \<in> {1..cust_per_dist (lwc lc)}"
      "custKey (lwc lc) c d w = custKey (lwc lc) c' d' v"
      using assms(1,2) unfolding e dist_entry_def by auto
    then show ?thesis using custKey_inject [OF sz w d] by blast
  next
    case 2
    then show ?thesis using assms(1,2) order_part_inject [OF sz w d] by (auto simp: e dist_entry_def)
  next
    case 3
    then show ?thesis using assms(1,2) distKey_inject [OF sz w d] by (auto simp: e dist_entry_def)
  qed
qed

lemma wh_entry_unique:
  assumes "wh_entry lc w e" "wh_entry lc v e" "fst e \<notin> {I_customer_last, I_order_cust}"
    and sz: "sizes_ok (lwc lc)" and w: "w \<in> {1..num_wh (lwc lc)}" "v \<in> {1..num_wh (lwc lc)}"
  shows "w = v"
proof (cases "fst e \<in> {I_item, I_warehouse, I_district, I_stock}")
  case False
  then obtain d d' where "d \<in> {1..10}" "d' \<in> {1..10}" "dist_entry lc w d e" "dist_entry lc v d' e"
    using assms(1,2) by (cases e; cases "fst e") (auto simp: wh_entry_def)
  then show ?thesis using dist_entry_unique [OF _ _ assms(3) sz w] by blast
next
  case True
  obtain j k p where e: "e = (j, k, p)" by (cases e)
  from True consider "j \<in> {I_item, I_warehouse}" | "j = I_district" | "j = I_stock" by (auto simp: e)
  then show ?thesis
  proof cases
    case 1
    then show ?thesis using assms(1,2) by (auto simp: e wh_entry_def)
  next
    case 2
    then obtain d d' where "d \<in> {1..10}" "d' \<in> {1..10}" "distKey d w = distKey d' v"
      using assms(1,2) unfolding e wh_entry_def by auto
    then show ?thesis using distKey_inject [OF sz w] by blast
  next
    case 3
    then obtain i i' where "i \<in> {1..max_items (lwc lc)}" "i' \<in> {1..max_items (lwc lc)}" "stockKey (lwc lc) i w = stockKey (lwc lc) i' v"
      using assms(1,2) unfolding e wh_entry_def by auto
    then show ?thesis using stockKey_inject [OF sz w] by blast
  qed
qed

lemma warehouse_segments:
  assumes "warehouse_rows lc w ops"
  obtains items x dist stock rest where
    "if w = 1 then list_all2 item_op (ids (max_items (lwc lc))) items else items = []"
    "list_all2 (dist_op lc w) (ids 10) dist" "list_all2 (stock_op lc w) (ids (max_items (lwc lc))) stock"
    "list_all2 (district_rows lc w) (ids 10) rest"
    "\<And>e. hits e ops = (case fst e of I_item \<Rightarrow> hits e items
        | I_warehouse \<Rightarrow> hits e [(R_wh x, [(I_warehouse, w, w mod part_cnt (lwc lc))])]
        | I_district \<Rightarrow> hits e dist | I_stock \<Rightarrow> hits e stock | _ \<Rightarrow> hits e (concat rest))"
proof -
  from assms obtain items x dist stock rest where
    ops: "ops = items @ (R_wh x, [(I_warehouse, w, w mod part_cnt (lwc lc))]) # dist @ stock @ concat rest"
      "if w = 1 then list_all2 item_op (ids (max_items (lwc lc))) items else items = []"
      "list_all2 (dist_op lc w) (ids 10) dist" "list_all2 (stock_op lc w) (ids (max_items (lwc lc))) stock"
      "list_all2 (district_rows lc w) (ids 10) rest" unfolding warehouse_rows_def by blast
  have items: "fst e \<noteq> I_item \<Longrightarrow> hits e items = []" for e
    using ops(2) by (intro hits_none) (auto simp: item_op_def dest!: list_all2_right split: if_splits)
  have dist: "fst e \<noteq> I_district \<Longrightarrow> hits e dist = []" for e
    using list_all2_right [OF ops(3)] by (intro hits_none) (fastforce simp: dist_op_def)
  have stock: "fst e \<noteq> I_stock \<Longrightarrow> hits e stock = []" for e
    using list_all2_right [OF ops(4)] by (intro hits_none) (fastforce simp: stock_op_def)
  have rest: "hits e (concat rest) = []" if "fst e \<in> {I_item, I_warehouse, I_district, I_stock}" for e
  proof (rule hits_none, intro ballI)
    fix op e' assume "op \<in> set (concat rest)" and e': "e' \<in> set (snd op)"
    then obtain a where a: "a \<in> set rest" "op \<in> set a" by auto
    from list_all2_right [OF ops(5) a(1)] obtain d where "district_rows lc w d a" by auto
    from district_entries [OF this a(2)] e' have "dist_entry lc w d e'" by blast
    from dist_entry_kinds [OF this] that show "fst e' \<noteq> fst e" by auto
  qed
  have "hits e ops = (case fst e of I_item \<Rightarrow> hits e items
        | I_warehouse \<Rightarrow> hits e [(R_wh x, [(I_warehouse, w, w mod part_cnt (lwc lc))])]
        | I_district \<Rightarrow> hits e dist | I_stock \<Rightarrow> hits e stock | _ \<Rightarrow> hits e (concat rest))" for e
    using items [of e] dist [of e] stock [of e] rest [of e] by (cases e) (auto simp: ops(1) split: INDEX.split)
  then show ?thesis using that [OF ops(2-5), of x] by blast
qed

lemma warehouse_hits:
  assumes rows: "warehouse_rows lc w ops" and sz: "sizes_ok (lwc lc)" and w: "w \<in> {1..num_wh (lwc lc)}"
  shows "\<exists>x es. hits (I_warehouse, w, w mod part_cnt (lwc lc)) ops = [(R_wh x, es)]"
    and "d \<in> {1..10} \<Longrightarrow> \<exists>op. hits (I_district, distKey d w, w mod part_cnt (lwc lc)) ops = [op] \<and> dist_op lc w d op"
    and "i \<in> {1..max_items (lwc lc)} \<Longrightarrow> \<exists>op. hits (I_stock, stockKey (lwc lc) i w, w mod part_cnt (lwc lc)) ops = [op] \<and> stock_op lc w i op"
    and "i \<in> {1..max_items (lwc lc)} \<Longrightarrow> w = 1 \<Longrightarrow> \<exists>op. hits (I_item, i, 0) ops = [op] \<and> item_op i op"
    and "d \<in> {1..10} \<Longrightarrow> \<exists>a. district_rows lc w d a \<and>
      (\<forall>e. dist_entry lc w d e \<longrightarrow> fst e \<notin> {I_customer_last, I_order_cust} \<longrightarrow> hits e ops = hits e a)"
proof -
  from rows obtain items x dist stock rest where
    seg: "if w = 1 then list_all2 item_op (ids (max_items (lwc lc))) items else items = []"
    "list_all2 (dist_op lc w) (ids 10) dist" "list_all2 (stock_op lc w) (ids (max_items (lwc lc))) stock"
    "list_all2 (district_rows lc w) (ids 10) rest"
    "\<And>e. hits e ops = (case fst e of I_item \<Rightarrow> hits e items
        | I_warehouse \<Rightarrow> hits e [(R_wh x, [(I_warehouse, w, w mod part_cnt (lwc lc))])]
        | I_district \<Rightarrow> hits e dist | I_stock \<Rightarrow> hits e stock | _ \<Rightarrow> hits e (concat rest))"
    by (rule warehouse_segments) blast
  show "\<exists>x es. hits (I_warehouse, w, w mod part_cnt (lwc lc)) ops = [(R_wh x, es)]" by (simp add: seg(5))
  show "\<exists>op. hits (I_district, distKey d w, w mod part_cnt (lwc lc)) ops = [op] \<and> dist_op lc w d op" if "d \<in> {1..10}"
    unfolding seg(5) fst_conv INDEX.case using distKey_inject [OF sz w w] that
    by (intro hits_one [OF seg(2) distinct_ids]) (auto simp: set_ids dist_op_def)
  show "\<exists>op. hits (I_stock, stockKey (lwc lc) i w, w mod part_cnt (lwc lc)) ops = [op] \<and> stock_op lc w i op"
    if "i \<in> {1..max_items (lwc lc)}"
    unfolding seg(5) fst_conv INDEX.case using stockKey_inject [OF sz w w] that
    by (intro hits_one [OF seg(3) distinct_ids]) (auto simp: set_ids stock_op_def)
  show "\<exists>op. hits (I_item, i, 0) ops = [op] \<and> item_op i op" if "i \<in> {1..max_items (lwc lc)}" "w = 1"
  proof -
    have it: "list_all2 item_op (ids (max_items (lwc lc))) items" using seg(1) that(2) by simp
    show ?thesis unfolding seg(5) fst_conv INDEX.case using that
      by (intro hits_one [OF it distinct_ids]) (auto simp: set_ids item_op_def)
  qed
  show "\<exists>a. district_rows lc w d a \<and>
      (\<forall>e. dist_entry lc w d e \<longrightarrow> fst e \<notin> {I_customer_last, I_order_cust} \<longrightarrow> hits e ops = hits e a)" if d: "d \<in> {1..10}"
  proof -
    have "d \<in> set (ids 10)" using d by (simp add: set_ids)
    from hits_concat_one [OF seg(4) distinct_ids this] obtain a where a: "district_rows lc w d a"
      "\<forall>e. (\<forall>y b. y \<in> set (ids 10) \<longrightarrow> y \<noteq> d \<longrightarrow> district_rows lc w y b \<longrightarrow> hits e b = []) \<longrightarrow> hits e (concat rest) = hits e a" by blast
    have "hits e ops = hits e a" if e: "dist_entry lc w d e" "fst e \<notin> {I_customer_last, I_order_cust}" for e
    proof -
      have "hits e b = []" if y: "y \<in> set (ids 10)" "y \<noteq> d" "district_rows lc w y b" for y b
      proof -
        have "e \<notin> set (snd op)" if "op \<in> set b" for op
          using district_entries [OF y(3) that] dist_entry_unique [OF e(1) _ e(2) sz w w d, of y] y(1,2) by (auto simp: set_ids)
        then show ?thesis by (auto simp: hits_def filter_empty_conv)
      qed
      then have "hits e (concat rest) = hits e a" using a(2) by blast
      then show ?thesis using seg(5) [of e] dist_entry_kinds [OF e(1)] e(2) by (auto split: INDEX.splits)
    qed
    then show ?thesis using a(1) by blast
  qed
qed

section \<open>All warehouses together\<close>

lemma those_map_Some: "(\<And>x. x \<in> set xs \<Longrightarrow> f x = Some (g x)) \<Longrightarrow> those (map f xs) = Some (map g xs)"
  by (induction xs) simp_all

definition wh_ops :: "load_cfg \<Rightarrow> (UInt32 \<Rightarrow> gen_st) \<Rightarrow> UInt32 \<Rightarrow> row_spec list" where
  "wh_ops lc mem w = fst (the (threadInitWarehouse lc (ucast w) (mem w)))"

lemma unat_ucast_up: "unat (ucast (w :: UInt32) :: 64 word) = unat w"
  using unsigned_less [of w, where ?'a = nat] by (simp add: unsigned_ucast_eq take_bit_nat_eq_self)

lemma ucast_wh:
  assumes "cfg_ok cfg" "(w :: UInt32) < ucast (num_wh cfg)"
  shows "ucast w < num_wh cfg"
proof -
  have "unat (num_wh cfg) < 2 ^ 32" using assms(1) by (simp add: cfg_ok_def word_less_nat_alt)
  then have "unat (ucast (num_wh cfg) :: UInt32) = unat (num_wh cfg)"
    by (simp add: unsigned_ucast_eq unsigned_take_bit_eq take_bit_nat_eq_self)
  then show ?thesis using assms(2) by (simp add: word_less_nat_alt unat_ucast_up)
qed

lemma wh_ops_ok:
  assumes "cfg_ok (lwc lc)" "1000 \<le> cust_per_dist (lwc lc)" "w < ucast (num_wh (lwc lc))"
  shows "map_option fst (threadInitWarehouse lc (ucast w) (mem w)) = Some (wh_ops lc mem w)"
    "warehouse_rows lc (ucast w + 1) (wh_ops lc mem w)"
  using threadInitWarehouse_gives [OF assms(1,2) ucast_wh [OF assms(1,3)], of "mem w"]
  by (auto simp: gives_def wh_ops_def)

lemma init_table_eq:
  assumes "cfg_ok (lwc lc)" "1000 \<le> cust_per_dist (lwc lc)" "T \<noteq> 0"
  shows "init_table lc mem T db = Some {fold load_row ops db | ops. ops \<in>
     interleavings (map (\<lambda>t. concat (map (wh_ops lc mem) (thread_whs (ucast (num_wh (lwc lc))) T (of_nat t)))) [0..<unat T])}"
proof -
  let ?N = "ucast (num_wh (lwc lc)) :: UInt32"
  have "thread_rows lc mem (thread_whs ?N T (of_nat t)) = Some (concat (map (wh_ops lc mem) (thread_whs ?N T (of_nat t))))"
    if "t \<in> set [0..<unat T]" for t
  proof -
    have "w < ?N" if "w \<in> set (thread_whs ?N T (of_nat t))" for w
      using threads_cover [OF assms(3), of ?N] that \<open>t \<in> set [0..<unat T]\<close> by auto
    then have "those (map (\<lambda>w. map_option fst (threadInitWarehouse lc (ucast w) (mem w))) (thread_whs ?N T (of_nat t))) =
        Some (map (wh_ops lc mem) (thread_whs ?N T (of_nat t)))"
      using wh_ops_ok(1) [OF assms(1,2)] by (intro those_map_Some) auto
    then show ?thesis by (simp add: thread_rows_def)
  qed
  then have "those (map (\<lambda>t. thread_rows lc mem (thread_whs ?N T (of_nat t))) [0..<unat T]) =
      Some (map (\<lambda>t. concat (map (wh_ops lc mem) (thread_whs ?N T (of_nat t)))) [0..<unat T])"
    by (rule those_map_Some)
  then show ?thesis using assms(3) by (simp add: init_table_def)
qed

text \<open>The index number \<open>w\<close> of a warehouse as a number of the thread split.\<close>

lemma wh_index:
  assumes "cfg_ok cfg" "w \<in> {1..num_wh cfg}"
  obtains v :: UInt32 where "v < ucast (num_wh cfg)" "ucast v + 1 = w"
proof -
  let ?v = "ucast (w - 1) :: UInt32"
  have n: "unat (num_wh cfg) < 2 ^ 32" using assms(1) by (simp add: cfg_ok_def word_less_nat_alt)
  have w: "unat (w - 1) = unat w - 1" "1 \<le> unat w" "unat w \<le> unat (num_wh cfg)" using assms(2) by (auto simp: word_le_nat_alt unat_sub)
  then have v: "unat ?v = unat w - 1" using n by (simp add: unsigned_ucast_eq unsigned_take_bit_eq take_bit_nat_eq_self)
  have "unat (ucast (num_wh cfg) :: UInt32) = unat (num_wh cfg)"
    using n by (simp add: unsigned_ucast_eq unsigned_take_bit_eq take_bit_nat_eq_self)
  then have "?v < ucast (num_wh cfg)" using v w by (simp add: word_less_nat_alt)
  moreover have "unat (ucast ?v :: 64 word) = unat (w - 1)" using v w by (simp add: unat_ucast_up)
  then have "ucast ?v = w - 1" by (simp only: word_unat_eq_iff)
  ultimately show ?thesis using that [of ?v] by simp
qed

definition load_run :: "load_cfg \<Rightarrow> (UInt32 \<Rightarrow> gen_st) \<Rightarrow> UInt32 \<Rightarrow> row_spec list \<Rightarrow> bool" where
  "load_run lc mem T ops \<longleftrightarrow> cfg_ok (lwc lc) \<and> sizes_ok (lwc lc) \<and> 1000 \<le> cust_per_dist (lwc lc) \<and> T \<noteq> 0 \<and>
     ops \<in> interleavings (map (\<lambda>t. concat (map (wh_ops lc mem) (thread_whs (ucast (num_wh (lwc lc))) T (of_nat t)))) [0..<unat T])"

lemma load_run_entries:
  assumes "load_run lc mem T ops" "op \<in> set ops"
  shows "distinct (snd op) \<and> (\<exists>w \<in> {1..num_wh (lwc lc)}. \<forall>e \<in> set (snd op). wh_entry lc w e)"
proof -
  have cfg: "cfg_ok (lwc lc)" "1000 \<le> cust_per_dist (lwc lc)" "T \<noteq> 0" using assms(1) by (auto simp: load_run_def)
  have "set ops = \<Union> (set ` set (map (\<lambda>t. concat (map (wh_ops lc mem) (thread_whs (ucast (num_wh (lwc lc))) T (of_nat t)))) [0..<unat T]))"
    using set_interleavings assms(1) unfolding load_run_def by blast
  then obtain t v where t: "t \<in> set [0..<unat T]" "v \<in> set (thread_whs (ucast (num_wh (lwc lc))) T (of_nat t))" "op \<in> set (wh_ops lc mem v)"
    using assms(2) by auto
  then have v: "v < ucast (num_wh (lwc lc))" using threads_cover [OF cfg(3), of "ucast (num_wh (lwc lc))"] by auto
  have "ucast v < num_wh (lwc lc)" by (rule ucast_wh [OF cfg(1) v])
  then have "ucast v + 1 \<in> {1..num_wh (lwc lc)}" by (simp, unat_arith)
  then show ?thesis using warehouse_entries [OF wh_ops_ok(2) [OF cfg(1,2) v] t(3)] by blast
qed

text \<open>In an interleaving of all threads, the rows under a key of one warehouse are those of that warehouse.\<close>

lemma load_run_hits:
  assumes run: "load_run lc mem T ops" and w: "w \<in> {1..num_wh (lwc lc)}"
  obtains wops where "warehouse_rows lc w wops"
    "\<And>e. wh_entry lc w e \<Longrightarrow> fst e \<notin> {I_customer_last, I_order_cust} \<Longrightarrow> hits e ops = hits e wops"
proof -
  let ?N = "ucast (num_wh (lwc lc)) :: UInt32"
  have cfg: "cfg_ok (lwc lc)" "1000 \<le> cust_per_dist (lwc lc)" "T \<noteq> 0" and sz: "sizes_ok (lwc lc)"
    using run by (auto simp: load_run_def)
  from wh_index [OF cfg(1) w] obtain v :: UInt32 where v: "v < ?N" "ucast v + 1 = w" .
  have rows: "warehouse_rows lc w (wh_ops lc mem v)" using wh_ops_ok(2) [OF cfg(1,2) v(1)] v(2) by metis
  let ?g = "\<lambda>t. thread_whs ?N T (of_nat t)"
  have "hits e ops = hits e (wh_ops lc mem v)" if e: "wh_entry lc w e" "fst e \<notin> {I_customer_last, I_order_cust}" for e
  proof -
    have none: "hits e (wh_ops lc mem u) = []" if u: "u < ?N" "u \<noteq> v" for u
    proof -
      have r: "ucast u + 1 \<in> {1..num_wh (lwc lc)}" using ucast_wh [OF cfg(1) u(1)] by (simp, unat_arith)
      have ne: "ucast u + 1 \<noteq> w"
      proof
        assume "ucast u + 1 = w"
        then have "(ucast u :: 64 word) = ucast v" using v(2) by (metis add_right_cancel)
        then show False using u(2) by (metis unat_ucast_up word_unat_eq_iff)
      qed
      have "e \<notin> set (snd op)" if "op \<in> set (wh_ops lc mem u)" for op
        using warehouse_entries [OF wh_ops_ok(2) [OF cfg(1,2) u(1)] that] wh_entry_unique [OF e(1) _ e(2) sz w r] ne by metis
      then show ?thesis by (auto simp: hits_def filter_empty_conv)
    qed
    have "hits e ops \<in> interleavings (map (hits e) (map (\<lambda>t. concat (map (wh_ops lc mem) (?g t))) [0..<unat T]))"
      using filter_interleavings run unfolding load_run_def hits_def [abs_def] by blast
    also have "map (hits e) (map (\<lambda>t. concat (map (wh_ops lc mem) (?g t))) [0..<unat T]) =
        map (\<lambda>t. concat (map (\<lambda>u. hits e (wh_ops lc mem u)) (?g t))) [0..<unat T]"
      by (simp add: hits_concat comp_def)
    also have "interleavings \<dots> = {hits e (wh_ops lc mem v)}"
      by (rule interleavings_one) (use threads_cover [OF cfg(3), of ?N] v(1) none in auto)
    finally show ?thesis by simp
  qed
  then show ?thesis using that rows by blast
qed

section \<open>The loaded database\<close>

definition loaded_district :: "load_cfg \<Rightarrow> 64 word \<Rightarrow> 64 word \<Rightarrow> tpcc_db \<Rightarrow> bool" where
  "loaded_district lc w d db \<longleftrightarrow>
     (let cfg = lwc lc; n = cust_per_dist cfg; p = w mod part_cnt cfg in
      (\<exists>r. index db I_district p (distKey d w) = [r] \<and> D_NEXT_O_ID (t_district db r) = 3001) \<and>
      (\<forall>c \<in> {1..n}. \<exists>r. index db I_customer_id p (custKey cfg c d w) = [r] \<and> C_ID (t_customer db r) = c) \<and>
      (\<exists>row. bij_betw (\<lambda>oid. O_C_ID (t_order db (row oid))) {1..n} {1..n} \<and>
        (\<forall>oid \<in> {1..n}. index db I_order (d_to_part w d) (orderPrimaryKey cfg w d oid) = [row oid] \<and>
           O_ID (t_order db (row oid)) = oid \<and>
           length (index db I_orderline (d_to_part w d) (orderlineKey cfg w d oid)) =
             (if TPCC_SMALL (ltc lc) then 0 else unat (O_OL_CNT (t_order db (row oid)))) \<and>
           (\<forall>r \<in> set (index db I_orderline (d_to_part w d) (orderlineKey cfg w d oid)). OL_O_ID (t_orderline db r) = oid))) \<and>
      map (\<lambda>r. NO_O_ID (t_neworder db r)) (index db I_neworder p (distKey d w)) = rev (filter (\<lambda>oid. 2100 < oid) (ids n)))"

definition loaded :: "load_cfg \<Rightarrow> tpcc_db \<Rightarrow> bool" where
  "loaded lc db \<longleftrightarrow>
     (let cfg = lwc lc; P = part_cnt cfg in
      (\<forall>i \<in> {1..max_items cfg}. \<exists>r. index db I_item 0 i = [r]) \<and>
      (\<forall>w \<in> {1..num_wh cfg}. (\<exists>r. index db I_warehouse (w mod P) w = [r]) \<and>
        (\<forall>i \<in> {1..max_items cfg}. \<exists>r. index db I_stock (w mod P) (stockKey cfg i w) = [r] \<and> S_QUANTITY (t_stock db r) \<in> {10..100}) \<and>
        (\<forall>d \<in> {1..10}. loaded_district lc w d db)) \<and>
      (\<forall>w \<in> {1..num_wh cfg}. \<forall>v \<in> {1..num_wh cfg}. \<forall>i \<in> {1..max_items cfg}. \<forall>k \<in> {1..max_items cfg}.
        index db I_stock (w mod P) (stockKey cfg i w) = index db I_stock (v mod P) (stockKey cfg k v) \<longrightarrow> w = v \<and> i = k))"

lemma lookup_hits:
  assumes run: "load_run lc mem T ops" and empty: "\<forall>j p k. index db j p k = []"
  shows "list_all2 (has_row (fold load_row ops db)) (index (fold load_row ops db) j p k) (rev (map fst (hits (j, k, p) ops)))"
  using load_rows_lookup [of ops db j p k] load_run_entries [OF run] empty by auto

lemma lookup_one:
  assumes "load_run lc mem T ops" "\<forall>j p k. index db j p k = []" "hits (j, k, p) ops = [op]"
  shows "\<exists>r. index (fold load_row ops db) j p k = [r] \<and> has_row (fold load_row ops db) r (fst op)"
  using lookup_hits [OF assms(1,2), of j p k] assms(3) by (auto simp: list_all2_Cons2)

lemma perm_bij:
  assumes "mset perm = mset (ids n)" "\<And>oid. oid \<in> {1..n} \<Longrightarrow> f oid = perm ! unat (oid - 1)"
  shows "bij_betw f {1..n} {1..n :: 64 word}"
proof (rule bij_betw_imageI)
  have d: "distinct perm" "set perm = {1..n}" "length perm = unat n"
    using assms(1) distinct_ids [of n] set_ids [of n] length_ids [of n]
    by (metis mset_eq_imp_distinct_iff, metis set_mset_mset, metis size_mset)
  have u: "unat (oid - 1) < length perm" "unat (oid - 1) = unat oid - 1" "1 \<le> unat oid" if "oid \<in> {1..n}" for oid
    using that d(3) by (auto simp: word_le_nat_alt unat_sub)
  show "inj_on f {1..n}"
  proof (rule inj_onI)
    fix x y assume xy: "x \<in> {1..n}" "y \<in> {1..n}" "f x = f y"
    then have "unat (x - 1) = unat (y - 1)" using d(1) u(1) assms(2) by (metis nth_eq_iff_index_eq)
    then show "x = y" using u(2,3) [OF xy(1)] u(2,3) [OF xy(2)] by (simp add: word_unat_eq_iff)
  qed
  have "y \<in> f ` {1..n}" if y: "y \<in> {1..n}" for y
  proof -
    obtain i where i: "i < unat n" "perm ! i = y" using y d by (metis in_set_conv_nth)
    let ?o = "of_nat (Suc i) :: 64 word"
    have o: "unat ?o = Suc i"
      using i(1) unsigned_less [of n, where ?'a = nat] by (subst unat_of_nat) (simp add: take_bit_nat_eq_self)
    then have "?o \<in> {1..n}" using i(1) by (simp add: word_le_nat_alt)
    moreover from this have "f ?o = y" using assms(2) u(2) o i(2) by simp
    ultimately show ?thesis by (metis image_eqI)
  qed
  moreover have "f ` {1..n} \<subseteq> {1..n}"
  proof (rule image_subsetI)
    fix x assume "x \<in> {1..n}"
    then show "f x \<in> {1..n}" using assms(2) u(1) d(2) by (metis nth_mem)
  qed
  ultimately show "f ` {1..n} = {1..n}" by blast
qed

lemma load_run_district:
  assumes run: "load_run lc mem T ops" and empty: "\<forall>j p k. index db j p k = []"
    and w: "w \<in> {1..num_wh (lwc lc)}" and d: "d \<in> {1..10}"
  shows "loaded_district lc w d (fold load_row ops db)"
proof -
  let ?db = "fold load_row ops db" and ?n = "cust_per_dist (lwc lc)" and ?p = "w mod part_cnt (lwc lc)"
  have sz: "sizes_ok (lwc lc)" using run by (simp add: load_run_def)
  obtain wops where wops: "warehouse_rows lc w wops"
    "\<And>e. wh_entry lc w e \<Longrightarrow> fst e \<notin> {I_customer_last, I_order_cust} \<Longrightarrow> hits e ops = hits e wops"
    by (rule load_run_hits [OF run w]) blast
  obtain a where a: "district_rows lc w d a"
    "\<forall>e. dist_entry lc w d e \<longrightarrow> fst e \<notin> {I_customer_last, I_order_cust} \<longrightarrow> hits e wops = hits e a"
    using warehouse_hits(5) [OF wops(1) sz w d] by blast
  have hits: "hits e ops = hits e a" if "dist_entry lc w d e" "fst e \<notin> {I_customer_last, I_order_cust}" for e
    using wops(2) [OF dist_wh_entry [OF that(1) d] that(2)] a(2) [rule_format, OF that] by (rule trans)
  note dh = district_hits [OF a(1) sz w d]
  have dist: "\<exists>r. index ?db I_district ?p (distKey d w) = [r] \<and> D_NEXT_O_ID (t_district ?db r) = 3001"
  proof -
    obtain op where op: "hits (I_district, distKey d w, ?p) ops = [op]" "dist_op lc w d op"
      using warehouse_hits(2) [OF wops(1) sz w d] wops(2) [of "(I_district, distKey d w, ?p)"] d by auto
    from lookup_one [OF run empty op(1)] op(2) show ?thesis by (auto simp: dist_op_def)
  qed
  have cust: "\<exists>r. index ?db I_customer_id ?p (custKey (lwc lc) c d w) = [r] \<and> C_ID (t_customer ?db r) = c" if c: "c \<in> {1..?n}" for c
  proof -
    obtain op where op: "hits (I_customer_id, custKey (lwc lc) c d w, ?p) ops = [op]" "cust_op lc w d c op"
      using conjunct1 [OF dh, rule_format, OF c] hits [of "(I_customer_id, custKey (lwc lc) c d w, ?p)"] c by auto
    from lookup_one [OF run empty op(1)] op(2) show ?thesis by (auto simp: cust_op_def)
  qed
  obtain perm where perm: "mset perm = mset (ids ?n)" "\<forall>oid \<in> {1..?n}. \<exists>x es.
      hits (I_order, orderPrimaryKey (lwc lc) w d oid, d_to_part w d) a = [(R_order x, es)] \<and>
      O_ID x = oid \<and> O_C_ID x = perm ! unat (oid - 1) \<and>
      length (hits (line_entry lc w d oid) a) = (if TPCC_SMALL (ltc lc) then 0 else unat (O_OL_CNT x)) \<and>
      (\<forall>l \<in> set (hits (line_entry lc w d oid) a). \<exists>y. fst l = R_line y \<and> OL_O_ID y = oid)"
    using dh by blast
  define row where "row oid = hd (index ?db I_order (d_to_part w d) (orderPrimaryKey (lwc lc) w d oid))" for oid
  have order: "index ?db I_order (d_to_part w d) (orderPrimaryKey (lwc lc) w d oid) = [row oid] \<and>
      O_ID (t_order ?db (row oid)) = oid \<and> O_C_ID (t_order ?db (row oid)) = perm ! unat (oid - 1) \<and>
      length (index ?db I_orderline (d_to_part w d) (orderlineKey (lwc lc) w d oid)) =
        (if TPCC_SMALL (ltc lc) then 0 else unat (O_OL_CNT (t_order ?db (row oid)))) \<and>
      (\<forall>r \<in> set (index ?db I_orderline (d_to_part w d) (orderlineKey (lwc lc) w d oid)). OL_O_ID (t_orderline ?db r) = oid)"
    if oid: "oid \<in> {1..?n}" for oid
  proof -
    let ?e = "(I_order, orderPrimaryKey (lwc lc) w d oid, d_to_part w d)" and ?l = "line_entry lc w d oid"
    obtain x es where x: "hits ?e a = [(R_order x, es)]" "O_ID x = oid" "O_C_ID x = perm ! unat (oid - 1)"
      "length (hits ?l a) = (if TPCC_SMALL (ltc lc) then 0 else unat (O_OL_CNT x))"
      "\<forall>l \<in> set (hits ?l a). \<exists>y. fst l = R_line y \<and> OL_O_ID y = oid" using perm(2) oid by blast
    have h: "hits ?e ops = hits ?e a" "hits ?l ops = hits ?l a"
      using hits [of ?e] hits [of ?l] by (auto simp: dist_entry_def line_entry_def)
    from lookup_one [OF run empty h(1) [unfolded x(1)]] have row: "index ?db I_order (d_to_part w d) (orderPrimaryKey (lwc lc) w d oid) = [row oid]"
      "t_order ?db (row oid) = x" by (auto simp: row_def)
    have lines: "list_all2 (has_row ?db) (index ?db I_orderline (d_to_part w d) (orderlineKey (lwc lc) w d oid)) (rev (map fst (hits ?l a)))"
      using lookup_hits [OF run empty, of I_orderline "d_to_part w d" "orderlineKey (lwc lc) w d oid"] h(2) by (simp add: line_entry_def)
    have "OL_O_ID (t_orderline ?db r) = oid" if r: "r \<in> set (index ?db I_orderline (d_to_part w d) (orderlineKey (lwc lc) w d oid))" for r
    proof -
      obtain t where "t \<in> set (rev (map fst (hits ?l a)))" "has_row ?db r t"
        using list_all2_left [OF lines r] by blast
      then show ?thesis using x(5) by auto
    qed
    then show ?thesis using row x list_all2_lengthD [OF lines] by auto
  qed
  have bij: "bij_betw (\<lambda>oid. O_C_ID (t_order ?db (row oid))) {1..?n} {1..?n}"
    by (rule perm_bij [OF perm(1)]) (use order in blast)
  have "map (\<lambda>r. NO_O_ID (t_neworder ?db r)) (index ?db I_neworder ?p (distKey d w)) = rev (filter (\<lambda>oid. 2100 < oid) (ids ?n))"
  proof -
    let ?os = "rev (filter (\<lambda>oid. 2100 < oid) (ids ?n))"
    have "list_all2 (has_row ?db) (index ?db I_neworder ?p (distKey d w)) (map (\<lambda>oid. R_no \<lparr>NO_O_ID = oid, NO_D_ID = d, NO_W_ID = w\<rparr>) ?os)"
      using lookup_hits [OF run empty, of I_neworder ?p "distKey d w"] hits [of "(I_neworder, distKey d w, ?p)"] dh
      by (simp add: dist_entry_def rev_map)
    then have "list_all2 (\<lambda>r oid. NO_O_ID (t_neworder ?db r) = oid) (index ?db I_neworder ?p (distKey d w)) ?os"
      unfolding list_all2_map2 by (rule list_all2_mono) auto
    then show ?thesis by (simp add: list_all2_conv_all_nth list_eq_iff_nth_eq)
  qed
  then show ?thesis using dist cust bij order unfolding loaded_district_def Let_def by blast
qed

lemma load_run_loaded:
  assumes run: "load_run lc mem T ops" and empty: "\<forall>j p k. index db j p k = []"
  shows "loaded lc (fold load_row ops db)"
proof -
  let ?db = "fold load_row ops db" and ?P = "part_cnt (lwc lc)"
  have sz: "sizes_ok (lwc lc)" and cfg: "cfg_ok (lwc lc)" using run by (auto simp: load_run_def)
  have item: "\<exists>r. index ?db I_item 0 i = [r]" if i: "i \<in> {1..max_items (lwc lc)}" for i
  proof -
    have one: "1 \<in> {1..num_wh (lwc lc)}" using cfg by (simp add: cfg_ok_def)
    from load_run_hits [OF run one] obtain wops where wops: "warehouse_rows lc 1 wops"
      "\<And>e. wh_entry lc 1 e \<Longrightarrow> fst e \<notin> {I_customer_last, I_order_cust} \<Longrightarrow> hits e ops = hits e wops" by blast
    obtain op where "hits (I_item, i, 0) ops = [op]"
      using warehouse_hits(4) [OF wops(1) sz one i] wops(2) [of "(I_item, i, 0)"] by auto
    from lookup_one [OF run empty this] show ?thesis by blast
  qed
  have wh: "\<exists>r. index ?db I_warehouse (w mod ?P) w = [r]" if w: "w \<in> {1..num_wh (lwc lc)}" for w
  proof -
    from load_run_hits [OF run w] obtain wops where wops: "warehouse_rows lc w wops"
      "\<And>e. wh_entry lc w e \<Longrightarrow> fst e \<notin> {I_customer_last, I_order_cust} \<Longrightarrow> hits e ops = hits e wops" by blast
    obtain op where "hits (I_warehouse, w, w mod ?P) ops = [op]"
      using warehouse_hits(1) [OF wops(1) sz w] wops(2) [of "(I_warehouse, w, w mod ?P)"] by auto
    from lookup_one [OF run empty this] show ?thesis by blast
  qed
  have stock_hit: "\<exists>op. hits (I_stock, stockKey (lwc lc) i w, w mod ?P) ops = [op] \<and> stock_op lc w i op"
    if w: "w \<in> {1..num_wh (lwc lc)}" and i: "i \<in> {1..max_items (lwc lc)}" for w i
  proof -
    from load_run_hits [OF run w] obtain wops where wops: "warehouse_rows lc w wops"
      "\<And>e. wh_entry lc w e \<Longrightarrow> fst e \<notin> {I_customer_last, I_order_cust} \<Longrightarrow> hits e ops = hits e wops" by blast
    show ?thesis
      using warehouse_hits(3) [OF wops(1) sz w i] wops(2) [of "(I_stock, stockKey (lwc lc) i w, w mod ?P)"] i by simp
  qed
  have stock: "\<exists>r. index ?db I_stock (w mod ?P) (stockKey (lwc lc) i w) = [r] \<and> S_QUANTITY (t_stock ?db r) \<in> {10..100}"
    if wi: "w \<in> {1..num_wh (lwc lc)}" "i \<in> {1..max_items (lwc lc)}" for w i
  proof -
    from stock_hit [OF wi] obtain op where op: "hits (I_stock, stockKey (lwc lc) i w, w mod ?P) ops = [op]" "stock_op lc w i op" by blast
    from lookup_one [OF run empty op(1)] op(2) show ?thesis by (auto simp: stock_op_def)
  qed
  have apart: "w = v \<and> i = k"
    if wi: "w \<in> {1..num_wh (lwc lc)}" "i \<in> {1..max_items (lwc lc)}" and vk: "v \<in> {1..num_wh (lwc lc)}" "k \<in> {1..max_items (lwc lc)}"
      and eq: "index ?db I_stock (w mod ?P) (stockKey (lwc lc) i w) = index ?db I_stock (v mod ?P) (stockKey (lwc lc) k v)" for w i v k
  proof -
    obtain r where r: "index ?db I_stock (w mod ?P) (stockKey (lwc lc) i w) = [r]" using stock [OF wi] by blast
    have dist: "\<forall>op \<in> set ops. distinct (snd op)" using load_run_entries [OF run] by blast
    from load_rows_shared [OF dist empty, of r I_stock "w mod ?P" "stockKey (lwc lc) i w" I_stock "v mod ?P" "stockKey (lwc lc) k v"]
    obtain op where op: "op \<in> set ops" "(I_stock, stockKey (lwc lc) i w, w mod ?P) \<in> set (snd op)"
      "(I_stock, stockKey (lwc lc) k v, v mod ?P) \<in> set (snd op)" using r eq by auto
    from op(1,2) have "op \<in> set (hits (I_stock, stockKey (lwc lc) i w, w mod ?P) ops)" by (simp add: hits_def)
    then have "stock_op lc w i op" using stock_hit [OF wi] by auto
    then have "stockKey (lwc lc) k v = stockKey (lwc lc) i w" using op(3) by (auto simp: stock_op_def)
    from stockKey_inject [OF sz vk(1) wi(1) vk(2) wi(2) this] show ?thesis by auto
  qed
  show ?thesis using item wh stock apart load_run_district [OF run empty] unfolding loaded_def Let_def by blast
qed

lemma concat_interleaving: "concat xss \<in> interleavings xss"
proof (induction xss)
  case (Cons xs xss)
  have "xs @ ys \<in> shuffles xs ys" for ys :: "'a list"
  proof (induction xs)
    case (Cons x xs)
    then show ?case by (cases ys) auto
  qed simp
  then show ?case using Cons by auto
qed simp

lemma load_completes:
  assumes "cfg_ok (lwc lc)" and "sizes_ok (lwc lc)" and "1000 \<le> cust_per_dist (lwc lc)" and "T \<noteq> 0"
    and "\<forall>j p k. index db j p k = []"
  shows "\<exists>dbs. init_table lc mem T db = Some dbs \<and> dbs \<noteq> {} \<and> (\<forall>db' \<in> dbs. loaded lc db')"
proof -
  have "loaded lc db'" if "db' \<in> {fold load_row ops db | ops. ops \<in> interleavings (map (\<lambda>t. concat (map (wh_ops lc mem)
      (thread_whs (ucast (num_wh (lwc lc))) T (of_nat t)))) [0..<unat T])}" for db'
    using that load_run_loaded [OF _ assms(5)] assms by (auto simp: load_run_def)
  then show ?thesis
    unfolding init_table_eq [OF assms(1,3,4), of mem db] using concat_interleaving by auto
qed


section \<open>New orders on a loaded database\<close>

lemma loaded_order_lookups:
  assumes "loaded lc db" and cfg: "cfg_ok (lwc lc)" and q: "new_order_ok (lwc lc) q"
  obtains rw rc rd ri rs where "index db I_warehouse (w_id q mod part_cnt (lwc lc)) (w_id q) = [rw]"
    "customer_by_id (ltc lc) (c_id q) (d_id q) (w_id q) db = Some rc"
    "index db I_district (w_id q mod part_cnt (lwc lc)) (distKey (d_id q) (w_id q)) = [rd]"
    "D_NEXT_O_ID (t_district db rd) = 3001"
    "\<forall>it \<in> set (order_lines q). item_row it db = Some (ri it) \<and> stock_row (ltc lc) it db = Some (rs it)"
    "distinct (map rs (order_lines q))"
proof -
  let ?P = "part_cnt (lwc lc)" and ?p = "w_id q mod part_cnt (lwc lc)"
  have w: "w_id q \<in> {1..num_wh (lwc lc)}" "d_id q \<in> {1..10}" "c_id q \<in> {1..cust_per_dist (lwc lc)}"
    and its: "\<forall>it \<in> set (order_lines q). ol_i_id it \<in> {1..max_items (lwc lc)} \<and> ol_supply_w_id it \<in> {1..num_wh (lwc lc)}"
    and dist: "distinct (map ol_i_id (order_lines q))"
    using q unfolding new_order_ok_def line_ok_def by blast+
  from assms(1) have ld: "\<forall>i \<in> {1..max_items (lwc lc)}. \<exists>r. index db I_item 0 i = [r]"
    "\<forall>w \<in> {1..num_wh (lwc lc)}. (\<exists>r. index db I_warehouse (w mod ?P) w = [r]) \<and>
        (\<forall>i \<in> {1..max_items (lwc lc)}. \<exists>r. index db I_stock (w mod ?P) (stockKey (lwc lc) i w) = [r] \<and> S_QUANTITY (t_stock db r) \<in> {10..100}) \<and>
        (\<forall>d \<in> {1..10}. loaded_district lc w d db)"
    "\<forall>w \<in> {1..num_wh (lwc lc)}. \<forall>v \<in> {1..num_wh (lwc lc)}. \<forall>i \<in> {1..max_items (lwc lc)}. \<forall>k \<in> {1..max_items (lwc lc)}.
        index db I_stock (w mod ?P) (stockKey (lwc lc) i w) = index db I_stock (v mod ?P) (stockKey (lwc lc) k v) \<longrightarrow> w = v \<and> i = k"
    unfolding loaded_def Let_def by blast+
  obtain rw where rw: "index db I_warehouse ?p (w_id q) = [rw]" using ld(2) w(1) by blast
  have "loaded_district lc (w_id q) (d_id q) db" using ld(2) w by blast
  then obtain rd rc where rd: "index db I_district ?p (distKey (d_id q) (w_id q)) = [rd]" "D_NEXT_O_ID (t_district db rd) = 3001"
    and rc: "index db I_customer_id ?p (custKey (lwc lc) (c_id q) (d_id q) (w_id q)) = [rc]"
    unfolding loaded_district_def Let_def using w(3) by blast
  define ri rs where "ri it = hd (index db I_item 0 (ol_i_id it))"
    and "rs it = hd (index db I_stock (ol_supply_w_id it mod ?P) (stockKey (lwc lc) (ol_i_id it) (ol_supply_w_id it)))" for it :: Item_no
  have stock: "index db I_stock (ol_supply_w_id it mod ?P) (stockKey (lwc lc) (ol_i_id it) (ol_supply_w_id it)) = [rs it]"
    and item: "index db I_item 0 (ol_i_id it) = [ri it]" if "it \<in> set (order_lines q)" for it
    using ld(1,2) its that unfolding ri_def rs_def by fastforce+
  have "item_row it db = Some (ri it) \<and> stock_row (ltc lc) it db = Some (rs it)" if "it \<in> set (order_lines q)" for it
    using stock [OF that] item [OF that] wh_to_part_ok(1) [OF cfg] by (simp add: item_row_def stock_row_def first_item_def)
  moreover have "distinct (map rs (order_lines q))"
  proof -
    have "inj_on rs (set (order_lines q))"
    proof (rule inj_onI)
      fix x y assume xy: "x \<in> set (order_lines q)" "y \<in> set (order_lines q)" "rs x = rs y"
      then have "ol_i_id x = ol_i_id y" using stock [OF xy(1)] stock [OF xy(2)] ld(3) its by metis
      then show "x = y" using dist xy by (auto simp: distinct_map dest: inj_onD)
    qed
    then show ?thesis using dist by (simp add: distinct_map)
  qed
  moreover have "customer_by_id (ltc lc) (c_id q) (d_id q) (w_id q) db = Some rc"
    using rc wh_to_part_ok(1) [OF cfg] by (simp add: customer_by_id_def first_item_def)
  ultimately show ?thesis using that rw rd by blast
qed


section \<open>Witnesses\<close>

definition demo_lc :: load_cfg where
  "demo_lc = \<lparr>ltc = demo_tcfg\<lparr>wlc := demo_cfg, MAX_ROW_PER_TXN := 64, MAX_WRITE_SET := 20\<rparr>, quot = (\<lambda>x y. x)\<rparr>"

definition blank_db :: tpcc_db where
  "blank_db = demo_db\<lparr>index := (\<lambda>_ _ _. []), free_row := 0\<rparr>"

lemma demo_lc_ok: "cfg_ok (lwc demo_lc)" "sizes_ok (lwc demo_lc)" "1000 \<le> cust_per_dist (lwc demo_lc)"
  using demo_cfg_ok by (simp_all add: demo_lc_def sizes_ok_def demo_cfg_def)



end
