(* ===== verification/Index_Ops.thy ===== *)
theory Index_Ops
  imports TPCC_Txn
begin

text \<open>
  The index operations that a transaction defers, across the transactions of a thread: \<open>insert_index\<close>,
  \<open>delete_index\<close>, \<open>maintain_indexes\<close> and the calls of the latter in \<open>cleanup\<close>, \<open>finish\<close>, \<open>validate_silo\<close> and
  \<open>validate_tictoc\<close>.  The buffers belong to the transaction manager and live as long as the thread.  Under
  Silo and TicToc the validation calls \<open>maintain_indexes\<close> and \<open>cleanup\<close> does not, so a transaction that gives up
  before its validation leaves its operations in the buffers.
\<close>

section \<open>Transactions of a thread\<close>

type_synonym idx_ins = "INDEX \<times> 64 word \<times> row_ptr \<times> 64 word"
type_synonym idx_del = "INDEX \<times> 64 word \<times> 64 word"

text \<open>
  What a transaction does to the buffers: the operations it defers, whether it reaches the validation, and
  whether the validation succeeds.  The database is the one with its rows written back.
\<close>

record txn_try =
  try_ins :: "idx_ins list"
  try_del :: "idx_del list"
  reaches_end :: bool
  try_valid :: bool

record op_buffers =
  buf_db :: tpcc_db
  buf_ins :: "idx_ins list"
  buf_del :: "idx_del list"

definition apply_ops :: "idx_ins list \<Rightarrow> idx_del list \<Rightarrow> tpcc_db \<Rightarrow> tpcc_db" where
  "apply_ops ins del db = fold idx_insert ins (fold idx_delete del db)"

definition flush_ops :: "RC \<Rightarrow> op_buffers \<Rightarrow> op_buffers" where
  "flush_ops rc b = b\<lparr>buf_db := (if rc = RCOK then apply_ops (buf_ins b) (buf_del b) (buf_db b) else buf_db b),
     buf_ins := [], buf_del := []\<rparr>"

definition finish_ops :: "bool \<Rightarrow> RC \<Rightarrow> bool \<Rightarrow> op_buffers \<Rightarrow> RC \<times> op_buffers" where
  "finish_ops silo_or_tictoc rc valid b =
     (if rc = RCOK then (let rc' = (if valid then RCOK else Abort) in (rc', flush_ops rc' b))
      else (Abort, if silo_or_tictoc then b else flush_ops Abort b))"

definition try_txn :: "nat \<Rightarrow> bool \<Rightarrow> txn_try \<Rightarrow> op_buffers \<Rightarrow> (RC \<times> op_buffers) option" where
  "try_txn max_write_set silo_or_tictoc t b =
     (let b = b\<lparr>buf_ins := buf_ins b @ try_ins t, buf_del := buf_del b @ try_del t\<rparr>
      in assert_then (length (buf_ins b) \<le> max_write_set \<and> length (buf_del b) \<le> max_write_set)
           (Some (finish_ops silo_or_tictoc (if reaches_end t then RCOK else Abort) (try_valid t) b)))"

definition run_tries :: "nat \<Rightarrow> bool \<Rightarrow> txn_try list \<Rightarrow> op_buffers \<Rightarrow> (RC list \<times> op_buffers) option" where
  "run_tries max_write_set silo_or_tictoc ts b = run_ops (try_txn max_write_set silo_or_tictoc) ts b"

definition start_ops :: "tpcc_db \<Rightarrow> op_buffers" where
  "start_ops db = \<lparr>buf_db = db, buf_ins = [], buf_del = []\<rparr>"

section \<open>Only committed transactions change the indexes\<close>

definition commits :: "txn_try \<Rightarrow> bool" where
  "commits t \<longleftrightarrow> reaches_end t \<and> try_valid t"

definition committed_ops :: "txn_try list \<Rightarrow> tpcc_db \<Rightarrow> tpcc_db" where
  "committed_ops ts db = fold (\<lambda>t. if commits t then apply_ops (try_ins t) (try_del t) else id) ts db"

lemma try_txn_plain:
  assumes "length (try_ins t) \<le> n" and "length (try_del t) \<le> n" and "\<not> silo \<or> reaches_end t"
  shows "try_txn n silo t (start_ops db) =
    Some (if commits t then (RCOK, start_ops (apply_ops (try_ins t) (try_del t) db)) else (Abort, start_ops db))"
  using assms by (auto simp: try_txn_def finish_ops_def flush_ops_def start_ops_def commits_def Let_def)

text \<open>
  C16. The indexes see exactly the committed transactions of a thread: in any sequence of transactions whose
  operations fit the buffers, each of the committed ones is applied once and in order and none of the aborted
  ones, if the algorithm is not Silo or TicToc, or if no transaction gives up before its validation.
\<close>

theorem index_ops_of_commits_only:
  assumes "\<forall>t\<in>set ts. length (try_ins t) \<le> n \<and> length (try_del t) \<le> n \<and> (\<not> silo \<or> reaches_end t)"
  shows "run_tries n silo ts (start_ops db) =
    Some (map (\<lambda>t. if commits t then RCOK else Abort) ts, start_ops (committed_ops ts db))"
  using assms
proof (induction ts arbitrary: db)
  case (Cons t ts)
  have t: "length (try_ins t) \<le> n" "length (try_del t) \<le> n" "\<not> silo \<or> reaches_end t" using Cons.prems by auto
  show ?case
    using try_txn_plain [OF t, of db] Cons.IH Cons.prems by (auto simp: run_tries_def committed_ops_def)
qed (simp add: run_tries_def committed_ops_def)

text \<open>
  Under Silo and TicToc the indexes also get the operations of aborted transactions: when a transaction
  gives up before its validation, the next one of the thread that commits applies both transactions' operations,
  although the rows of the first are given back to the allocator.
\<close>

theorem aborted_index_ops_leak:
  assumes "\<not> reaches_end t1" and "commits t2"
    and "length (try_ins t1) + length (try_ins t2) \<le> n" and "length (try_del t1) + length (try_del t2) \<le> n"
  shows "run_tries n True [t1, t2] (start_ops db) =
    Some ([Abort, RCOK], start_ops (apply_ops (try_ins t1 @ try_ins t2) (try_del t1 @ try_del t2) db))"
  using assms
  by (auto simp: run_tries_def try_txn_def finish_ops_def flush_ops_def start_ops_def commits_def Let_def)

section \<open>Witnesses\<close>

definition demo_try :: "bool \<Rightarrow> row_ptr \<Rightarrow> txn_try" where
  "demo_try ends_well r = \<lparr>try_ins = [(I_order, 7, r, 0)], try_del = [], reaches_end = ends_well, try_valid = True\<rparr>"

theorem index_ops_of_commits_only_witness:
  "\<exists>b. run_tries 20 False [demo_try False 1, demo_try True 2] (start_ops demo_db) = Some ([Abort, RCOK], b) \<and>
     index (buf_db b) I_order 0 7 = 2 # index demo_db I_order 0 7"
  using index_ops_of_commits_only [of "[demo_try False 1, demo_try True 2]" 20 False demo_db]
  by (simp add: demo_try_def commits_def committed_ops_def apply_ops_def idx_insert_def start_ops_def)

theorem aborted_index_ops_leak_witness:
  "\<exists>b. run_tries 20 True [demo_try False 1, demo_try True 2] (start_ops demo_db) = Some ([Abort, RCOK], b) \<and>
     index (buf_db b) I_order 0 7 = 2 # 1 # index demo_db I_order 0 7"
  using aborted_index_ops_leak [of "demo_try False 1" "demo_try True 2" 20 demo_db]
  by (simp add: demo_try_def commits_def apply_ops_def idx_insert_def start_ops_def)

end
