(* ===== verification/YCSB_Query.thy ===== *)
theory YCSB_Query
  imports Complex_Main Bubble_Sort "HOL-Library.Monad_Syntax"
begin

text \<open>
  The query generator of the YCSB benchmark: benchmarks/ycsb/ycsb_query.h and ycsb_query.cpp.

  The generator draws row ids from a Zipf distribution that it computes in \<open>double\<close>.  The type of
  doubles is a type variable and its operations are the record \<open>dbl\<close>, so that the code is modelled as it
  is written; \<open>real_ops\<close> are the exact operations on the reals.  The values that \<open>drand48_r\<close> and \<open>lrand48_r\<close> will
  return are fields of the generator's state.  \<open>UInt32\<close> counts that take part in 64-bit arithmetic are
  64-bit words, the others natural numbers.  \<open>None\<close> is a failed assertion, a remainder by zero or an array
  index out of range.
\<close>

section \<open>Doubles, configuration and queries\<close>

record 'd dbl =
  d_of :: "64 word \<Rightarrow> 'd"
  d_half :: 'd
  d_add :: "'d \<Rightarrow> 'd \<Rightarrow> 'd"
  d_sub :: "'d \<Rightarrow> 'd \<Rightarrow> 'd"
  d_mul :: "'d \<Rightarrow> 'd \<Rightarrow> 'd"
  d_div :: "'d \<Rightarrow> 'd \<Rightarrow> 'd"
  d_pow :: "'d \<Rightarrow> 'd \<Rightarrow> 'd"
  d_less :: "'d \<Rightarrow> 'd \<Rightarrow> bool"
  d_le :: "'d \<Rightarrow> 'd \<Rightarrow> bool"
  d_eq :: "'d \<Rightarrow> 'd \<Rightarrow> bool"
  d_trunc :: "'d \<Rightarrow> 64 word"

record 'd ycsb_cfg =
  ops :: "'d dbl"
  g_synth_table_size :: "64 word"
  g_virtual_part_cnt :: "64 word"
  g_part_cnt :: "64 word"
  g_part_per_txn :: nat
  g_req_per_query :: nat
  FIRST_PART_LOCAL :: bool
  g_key_order :: bool
  CC_HSTORE :: bool
  SCAN_LEN :: UInt32
  g_perc_multi_part :: 'd
  g_read_perc :: 'd
  g_write_perc :: 'd
  g_zipf_theta :: 'd

record ycsb_request =
  rtype :: access_t
  key :: "64 word"
  rvalue :: "8 word"
  scan_len :: UInt32

text \<open>\<open>requests\<close> are the first \<open>request_cnt\<close> slots of the array, \<open>part_to_access\<close> has length \<open>part_num\<close>.\<close>

record ycsb_query =
  part_to_access :: "64 word list"
  requests :: "ycsb_request list"

record 'd ycsb_rng =
  drands :: "nat \<Rightarrow> 'd"
  lrands :: "nat \<Rightarrow> 64 word"
  used :: nat

definition drand48 :: "'d ycsb_rng \<Rightarrow> 'd \<times> 'd ycsb_rng" where
  "drand48 g = (drands g (used g), g\<lparr>used := Suc (used g)\<rparr>)"

definition lrand48 :: "'d ycsb_rng \<Rightarrow> 64 word \<times> 'd ycsb_rng" where
  "lrand48 g = (lrands g (used g), g\<lparr>used := Suc (used g)\<rparr>)"

section \<open>The Zipf distribution\<close>

definition zeta :: "'d dbl \<Rightarrow> 64 word \<Rightarrow> 'd \<Rightarrow> 'd" where
  "zeta D n theta =
     fold (\<lambda>i sum. d_add D sum (d_pow D (d_div D (d_of D 1) (d_of D (of_nat i))) theta)) [1..<Suc (unat n)] (d_of D 0)"

text \<open>The static members.\<close>

record 'd zipf_consts =
  the_n :: "64 word"
  denom :: 'd

definition calculateDenom :: "'d ycsb_cfg \<Rightarrow> 'd zipf_consts \<Rightarrow> 'd zipf_consts option" where
  "calculateDenom cfg z =
     assert_then (the_n z = 0) (assert_then (g_virtual_part_cnt cfg \<noteq> 0)
       (let table_size = g_synth_table_size cfg div g_virtual_part_cnt cfg; n = table_size - 1
        in Some \<lparr>the_n = n, denom = zeta (ops cfg) n (g_zipf_theta cfg)\<rparr>))"

text \<open>\<open>zipf\<close> after the draw of \<open>u\<close>.\<close>

definition zipf_of :: "'d dbl \<Rightarrow> 64 word \<Rightarrow> 'd \<Rightarrow> 'd \<Rightarrow> 'd \<Rightarrow> 'd \<Rightarrow> 64 word" where
  "zipf_of D n theta zetan zeta_2_theta u =
     (let one = d_of D 1;
          alpha = d_div D one (d_sub D one theta);
          eta = d_div D (d_sub D one (d_pow D (d_div D (d_of D 2) (d_of D n)) (d_sub D one theta)))
                  (d_sub D one (d_div D zeta_2_theta zetan));
          uz = d_mul D u zetan
      in if d_less D uz one then 1
         else if d_less D uz (d_add D one (d_pow D (d_half D) theta)) then 2
         else 1 + d_trunc D (d_mul D (d_of D n)
                    (d_pow D (d_add D (d_sub D (d_mul D eta u) eta) one) alpha)))"

definition zipf :: "'d ycsb_cfg \<Rightarrow> 'd zipf_consts \<Rightarrow> 'd \<Rightarrow> 64 word \<Rightarrow> 'd \<Rightarrow> 'd ycsb_rng
    \<Rightarrow> (64 word \<times> 'd ycsb_rng) option" where
  "zipf cfg z zeta_2_theta n theta g =
     assert_then (the_n z = n) (assert_then (d_eq (ops cfg) theta (g_zipf_theta cfg))
       (let (u, g) = drand48 g in Some (zipf_of (ops cfg) n theta (denom z) zeta_2_theta u, g)))"

section \<open>Requests\<close>

text \<open>The loop over \<open>g_part_per_txn\<close>: a partition that is there already is not added again.\<close>

definition part_step :: "'d ycsb_cfg \<Rightarrow> 64 word \<Rightarrow> 64 word \<Rightarrow> nat \<Rightarrow> 64 word list \<Rightarrow> 64 word list" where
  "part_step cfg thd_id rint i parts =
     (let p = (if i = 0 \<and> FIRST_PART_LOCAL cfg then thd_id else rint) mod g_virtual_part_cnt cfg
      in if p \<in> set parts then parts else parts @ [p])"

definition gen_parts :: "'d ycsb_cfg \<Rightarrow> 64 word \<Rightarrow> 'd ycsb_rng \<Rightarrow> (64 word list \<times> 'd ycsb_rng) option" where
  "gen_parts cfg thd_id g =
     (let (r, g) = drand48 g; (rint, g) = lrand48 g
      in if d_less (ops cfg) r (g_perc_multi_part cfg)
         then assert_then (g_virtual_part_cnt cfg \<noteq> 0)
                (Some (fold (part_step cfg thd_id rint) [0..<g_part_per_txn cfg] [], g))
         else assert_then (g_part_cnt cfg \<noteq> 0 \<and> g_part_per_txn cfg \<noteq> 0)
                (Some ([(if FIRST_PART_LOCAL cfg then thd_id else rint) mod g_part_cnt cfg], g)))"

definition req_type :: "'d ycsb_cfg \<Rightarrow> 'd \<Rightarrow> access_t" where
  "req_type cfg r =
     (let D = ops cfg in
      if d_less D r (g_read_perc cfg) then RD
      else if d_le D (g_read_perc cfg) r \<and> d_le D r (d_add D (g_write_perc cfg) (g_read_perc cfg)) then WR
      else SCAN)"

definition scan_keys :: "'d ycsb_cfg \<Rightarrow> 64 word \<Rightarrow> 64 word \<Rightarrow> UInt32 \<Rightarrow> 64 word list" where
  "scan_keys cfg row_id part_id len = map (\<lambda>i. (row_id + of_nat i) * g_part_cnt cfg + part_id) [0..<unat len]"

record 'd req_st =
  slots :: "ycsb_request list"
  rid :: nat
  all_keys :: "64 word set"
  rng :: "'d ycsb_rng"

text \<open>One round of the loop; a request that conflicts with an earlier one leaves its slot to the next.\<close>

definition req_step :: "'d ycsb_cfg \<Rightarrow> 'd zipf_consts \<Rightarrow> 'd \<Rightarrow> 64 word list \<Rightarrow> nat \<Rightarrow> 'd req_st \<Rightarrow> 'd req_st option" where
  "req_step cfg z zeta_2_theta parts tmp st = do {
     let (r, g) = drand48 (rng st);
     let t = req_type cfg r;
     let req = (slots st ! rid st)\<lparr>rtype := t\<rparr>;
     let req = (if t = SCAN then req\<lparr>scan_len := SCAN_LEN cfg\<rparr> else req);
     let ith = (of_nat tmp * of_nat (length parts)) div (of_nat (g_req_per_query cfg) :: 64 word);
     part_id \<leftarrow> (if unat ith < length parts then Some (parts ! unat ith) else None);
     let table_size = g_synth_table_size cfg div g_virtual_part_cnt cfg;
     (row_id, g) \<leftarrow> zipf cfg z zeta_2_theta (table_size - 1) (g_zipf_theta cfg) g;
     assert_then (row_id < table_size) (do {
       let req = req\<lparr>key := row_id * g_virtual_part_cnt cfg + part_id\<rparr>;
       let (v, g) = lrand48 g;
       let req = req\<lparr>rvalue := ucast v\<rparr>;
       let st = st\<lparr>slots := (slots st)[rid st := req], rng := g\<rparr>;
       let ks = (if t = SCAN then scan_keys cfg row_id part_id (scan_len req) else [key req]);
       Some (if list_ex (\<lambda>k. k \<in> all_keys st) ks then st
             else st\<lparr>all_keys := all_keys st \<union> set ks, rid := Suc (rid st)\<rparr>) }) }"

primrec req_loop :: "'d ycsb_cfg \<Rightarrow> 'd zipf_consts \<Rightarrow> 'd \<Rightarrow> 64 word list \<Rightarrow> nat list \<Rightarrow> 'd req_st \<Rightarrow> 'd req_st option" where
  "req_loop cfg z zeta_2_theta parts [] st = Some st"
| "req_loop cfg z zeta_2_theta parts (t # ts) st =
     Option.bind (req_step cfg z zeta_2_theta parts t st) (req_loop cfg z zeta_2_theta parts ts)"

text \<open>The final loop runs to \<open>request_cnt - 1\<close>, which wraps when there is no request.\<close>

definition sort_requests :: "'d ycsb_cfg \<Rightarrow> ycsb_request list \<Rightarrow> ycsb_request list option" where
  "sort_requests cfg rs =
     (if g_key_order cfg
      then let rs = bubble_sort (\<lambda>a b. key b < key a) rs
           in assert_then (rs \<noteq> [] \<and> list_all (\<lambda>i. key (rs ! i) < key (rs ! Suc i)) [0..<length rs - 1]) (Some rs)
      else Some rs)"

definition gen_requests :: "'d ycsb_cfg \<Rightarrow> 'd zipf_consts \<Rightarrow> 'd \<Rightarrow> ycsb_request list \<Rightarrow> 64 word \<Rightarrow> 'd ycsb_rng
    \<Rightarrow> (ycsb_query \<times> 'd ycsb_rng) option" where
  "gen_requests cfg z zeta_2_theta mem thd_id g =
     assert_then (CC_HSTORE cfg \<longrightarrow> g_virtual_part_cnt cfg = g_part_cnt cfg) (do {
       (parts, g) \<leftarrow> gen_parts cfg thd_id g;
       st \<leftarrow> req_loop cfg z zeta_2_theta parts [0..<g_req_per_query cfg]
               \<lparr>slots = mem, rid = 0, all_keys = {}, rng = g\<rparr>;
       rs \<leftarrow> sort_requests cfg (take (rid st) (slots st));
       Some (\<lparr>part_to_access = parts, requests = rs\<rparr>, rng st) })"

text \<open>\<open>mem\<close> is the memory of the request array that \<open>init\<close> allocates.\<close>

definition ycsb_query_init :: "'d ycsb_cfg \<Rightarrow> 'd zipf_consts \<Rightarrow> ycsb_request list \<Rightarrow> 64 word \<Rightarrow> 'd ycsb_rng
    \<Rightarrow> (ycsb_query \<times> 'd ycsb_rng) option" where
  "ycsb_query_init cfg z mem thd_id g =
     (let zeta_2_theta = zeta (ops cfg) 2 (g_zipf_theta cfg)
      in assert_then (the_n z \<noteq> 0) (assert_then (\<not> d_eq (ops cfg) (denom z) (d_of (ops cfg) 0))
           (gen_requests cfg z zeta_2_theta mem thd_id g)))"

section \<open>The distribution in exact arithmetic\<close>

definition real_ops :: "real dbl" where
  "real_ops = \<lparr>d_of = (\<lambda>w. real (unat w)), d_half = 1 / 2, d_add = (+), d_sub = (-), d_mul = (*), d_div = (/),
     d_pow = (powr), d_less = (<), d_le = (\<le>), d_eq = (=), d_trunc = (\<lambda>x. of_int \<lfloor>x\<rfloor>)\<rparr>"

lemma fold_add_sum: "fold (\<lambda>i s. s + f i) [m..<n] (s :: real) = s + (\<Sum>i\<in>{m..<n}. f i)"
proof (cases "m \<le> n")
  case True
  then show ?thesis
  proof (induction n)
    case (Suc n)
    then show ?case by (cases "m = Suc n") simp_all
  qed simp
qed simp

lemma zeta_real: "zeta real_ops n theta = (\<Sum>i\<in>{1..unat n}. (1 / real i) powr theta)"
proof -
  have small: "i < Suc (unat n) \<Longrightarrow> unat (of_nat i :: 64 word) = i" for i
    using unsigned_less [of n, where ?'a = nat] by (simp add: unat_of_nat take_bit_nat_eq_self)
  have "zeta real_ops n theta = (\<Sum>i\<in>{1..<Suc (unat n)}. (1 / real (unat (of_nat i :: 64 word))) powr theta)"
    by (simp add: zeta_def real_ops_def fold_add_sum)
  also have "\<dots> = (\<Sum>i\<in>{1..<Suc (unat n)}. (1 / real i) powr theta)"
    by (intro sum.cong) (simp_all add: small)
  finally show ?thesis by (simp add: atLeastLessThanSuc_atLeastAtMost)
qed

lemma sum_powr_grows:
  fixes theta :: real
  assumes "m < n"
  shows "(\<Sum>i\<in>{1..m}. (1 / real i) powr theta) < (\<Sum>i\<in>{1..n}. (1 / real i) powr theta)"
  using assms by (intro sum_strict_mono2 [where b = n]) auto

text \<open>The power that the third case takes lies between \<open>2 / n\<close> and one.\<close>

lemma zipf_power:
  fixes theta :: real
  assumes n: "2 < n" and th: "theta < 1" and z: "0 < z2" "z2 < zn" and u: "z2 \<le> u * zn" "u < 1"
    and eta: "eta = (1 - (2 / n) powr (1 - theta)) / (1 - z2 / zn)"
  shows "2 / n \<le> (eta * u - eta + 1) powr (1 / (1 - theta))" "(eta * u - eta + 1) powr (1 / (1 - theta)) < 1"
proof -
  let ?p = "(2 / n) powr (1 - theta)" and ?b = "eta * u - eta + 1" and ?a = "1 / (1 - theta)"
  have q: "0 < 1 - z2 / zn" using z by simp
  have p1: "0 < ?p" using n by simp
  have p2: "?p < 1" using powr_less_mono2 [of "1 - theta" "2 / n" 1] n th by simp
  have e: "0 < eta" using q p2 by (simp add: eta)
  have "z2 / zn \<le> u" using z u by (simp add: divide_le_eq)
  then have "eta * (1 - u) \<le> eta * (1 - z2 / zn)" using e by (intro mult_left_mono) auto
  also have "\<dots> = 1 - ?p" using q unfolding eta by (metis less_irrefl nonzero_eq_divide_eq)
  finally have b1: "?p \<le> ?b" by (simp add: algebra_simps)
  have b2: "?b < 1" using e u by (simp add: algebra_simps)
  have "2 / n = ?p powr ?a" using n th by (simp add: powr_powr)
  also have "\<dots> \<le> ?b powr ?a" using b1 p1 th by (intro powr_mono2) auto
  finally show "2 / n \<le> ?b powr ?a" .
  show "?b powr ?a < 1" using powr_less_mono2 [of ?a ?b 1] b1 b2 p1 th by simp
qed

lemma scale_unit: "2 < (N :: real) \<Longrightarrow> 2 / N \<le> p \<Longrightarrow> p < 1 \<Longrightarrow> 2 \<le> N * p \<and> N * p < N"
  by (simp add: field_simps)

text \<open>
  The Zipf generator in exact arithmetic: for a skew below one and a draw in [0, 1) it yields a row id
  between one and \<open>n\<close>, so that the assertion \<open>row_id < table_size\<close> of \<open>gen_requests\<close> holds.
\<close>

lemma zipf_in_range:
  assumes "theta < 1" and "1 \<le> n" and "0 \<le> u" and "u < 1"
  shows "1 \<le> zipf_of real_ops n theta (zeta real_ops n theta) (zeta real_ops 2 theta) u \<and>
    zipf_of real_ops n theta (zeta real_ops n theta) (zeta real_ops 2 theta) u \<le> n"
proof -
  let ?zn = "zeta real_ops n theta" and ?z2 = "zeta real_ops 2 theta" and ?N = "real (unat n)"
  have two: "{Suc 0..2} = {1, 2}" by auto
  have z2: "?z2 = 1 + (1 / 2) powr theta" by (simp add: zeta_real two)
  have z2pos: "0 < ?z2" unfolding z2 by (simp add: add_pos_nonneg)
  consider (one) "u * ?zn < 1" | (two) "1 \<le> u * ?zn" "u * ?zn < ?z2" | (more) "1 \<le> u * ?zn" "?z2 \<le> u * ?zn" by linarith
  then show ?thesis
  proof cases
    case one
    then show ?thesis using assms(2) by (simp add: zipf_of_def real_ops_def)
  next
    case two
    have "unat n \<noteq> 1" 
    proof
      assume "unat n = 1"
      then have "?zn = 1" by (simp add: zeta_real)
      then show False using two(1) assms(4) by simp
    qed
    then have "2 \<le> n" using assms(2) by (simp add: word_le_nat_alt)
    then show ?thesis using two z2 by (simp add: zipf_of_def real_ops_def)
  next
    case more
    have big: "2 < unat n"
    proof (rule ccontr)
      assume "\<not> 2 < unat n"
      then have "?zn \<le> ?z2" unfolding zeta_real by (intro sum_mono2) auto
      moreover have "u * ?zn < ?zn" using more assms(3,4) z2pos
        by (smt (verit) mult_less_cancel_right2 zero_less_mult_iff)
      ultimately show False using more by simp
    qed
    have zn: "?z2 < ?zn" using sum_powr_grows [OF big, of theta] by (simp add: zeta_real)
    define x where "x = ?N * ((1 - (2 / ?N) powr (1 - theta)) / (1 - ?z2 / ?zn) * u
      - (1 - (2 / ?N) powr (1 - theta)) / (1 - ?z2 / ?zn) + 1) powr (1 / (1 - theta))"
    note pw = zipf_power [OF _ assms(1) z2pos zn more(2) assms(4) refl, of ?N]
    have N: "2 < ?N" using big by linarith
    have x: "2 \<le> x" "x < ?N"
      using scale_unit [OF N pw, OF N N] by (auto simp only: x_def)
    define k where "k = nat \<lfloor>x\<rfloor>"
    have k: "2 \<le> k" "k < unat n" "of_int \<lfloor>x\<rfloor> = (of_nat k :: 64 word)"
      using x by (auto simp: k_def le_nat_iff le_floor_iff nat_less_iff floor_less_iff)
    have ku: "unat (1 + of_nat k :: 64 word) = Suc k"
      using k(2) unsigned_less [of n, where ?'a = nat] by (simp add: unat_of_nat unat_word_ariths take_bit_nat_eq_self)
    have "zipf_of real_ops n theta ?zn ?z2 u = 1 + of_int \<lfloor>x\<rfloor>"
      using more z2 by (simp add: zipf_of_def real_ops_def x_def Let_def)
    then show ?thesis using k ku by (simp add: word_le_nat_alt)
  qed
qed

section \<open>Generated requests\<close>

text \<open>The keys that a request stands for.\<close>

definition req_rows :: "'d ycsb_cfg \<Rightarrow> ycsb_request \<Rightarrow> 64 word set" where
  "req_rows cfg r =
     (if rtype r = SCAN then (\<lambda>i. key r + of_nat i * g_part_cnt cfg) ` {0..<unat (scan_len r)} else {key r})"

definition req_ok :: "'d ycsb_cfg \<Rightarrow> 64 word list \<Rightarrow> ycsb_request \<Rightarrow> bool" where
  "req_ok cfg parts r \<longleftrightarrow>
     g_virtual_part_cnt cfg \<le> key r \<and> key r < g_synth_table_size cfg \<and> key r mod g_virtual_part_cnt cfg \<in> set parts \<and>
     rtype r \<in> {RD, WR, SCAN} \<and> (rtype r = SCAN \<longrightarrow> scan_len r = SCAN_LEN cfg)"

text \<open>What the generator needs of its settings, and of the Zipf distribution.\<close>

definition ycsb_cfg_ok :: "'d ycsb_cfg \<Rightarrow> bool" where
  "ycsb_cfg_ok cfg \<longleftrightarrow>
     g_virtual_part_cnt cfg \<noteq> 0 \<and> g_part_cnt cfg = g_virtual_part_cnt cfg \<and> g_part_per_txn cfg \<noteq> 0 \<and>
     0 < g_req_per_query cfg \<and> g_req_per_query cfg < 2 ^ 32 \<and> SCAN_LEN cfg \<noteq> 0 \<and>
     d_eq (ops cfg) (g_zipf_theta cfg) (g_zipf_theta cfg)"

definition zipf_fits :: "'d ycsb_cfg \<Rightarrow> 'd zipf_consts \<Rightarrow> 'd \<Rightarrow> (nat \<Rightarrow> 'd) \<Rightarrow> bool" where
  "zipf_fits cfg z z2 us \<longleftrightarrow>
     the_n z = g_synth_table_size cfg div g_virtual_part_cnt cfg - 1 \<and>
     (\<forall>k. let r = zipf_of (ops cfg) (the_n z) (g_zipf_theta cfg) (denom z) z2 (us k)
          in 1 \<le> r \<and> r < g_synth_table_size cfg div g_virtual_part_cnt cfg)"

lemma req_key_bounds:
  fixes v :: "64 word"
  assumes "row_id < sz div v" and "part_id < v" and "1 \<le> row_id"
  shows "v \<le> row_id * v + part_id \<and> row_id * v + part_id < sz \<and> (row_id * v + part_id) mod v = part_id"
proof -
  let ?r = "unat row_id" and ?v = "unat v" and ?p = "unat part_id" and ?s = "unat sz"
  have r: "?r < ?s div ?v" "?p < ?v" "1 \<le> ?r" using assms by (simp_all add: word_less_nat_alt word_le_nat_alt unat_div)
  have "Suc ?r * ?v \<le> ?s div ?v * ?v" using r by (intro mult_le_mono1) simp
  also have "\<dots> \<le> ?s" by simp
  finally have lt: "?r * ?v + ?p < ?s" using r by simp
  have s: "?s < 2 ^ 64" using unsigned_less [of sz, where ?'a = nat] by simp
  have u: "unat (row_id * v + part_id) = ?r * ?v + ?p"
    using lt s by (simp add: unat_word_ariths)
  have "?v \<le> ?r * ?v + ?p" using r(3) by (cases ?r) simp_all
  then show ?thesis using lt u r by (simp add: word_less_nat_alt word_le_nat_alt unat_mod word_unat_eq_iff)
qed

lemma part_step_set: "set (part_step cfg t r i ps) \<subseteq> insert (t mod g_virtual_part_cnt cfg) (insert (r mod g_virtual_part_cnt cfg) (set ps))"
  by (auto simp: part_step_def Let_def)

lemma part_step_distinct: "distinct ps \<Longrightarrow> distinct (part_step cfg t r i ps)"
  by (auto simp: part_step_def Let_def)

lemma part_step_ne: "part_step cfg t r i ps \<noteq> []"
  by (auto simp: part_step_def Let_def)

lemma fold_part_step:
  assumes "set ps \<subseteq> {t mod g_virtual_part_cnt cfg, r mod g_virtual_part_cnt cfg}" "distinct ps"
  shows "set (fold (part_step cfg t r) is ps) \<subseteq> {t mod g_virtual_part_cnt cfg, r mod g_virtual_part_cnt cfg} \<and>
    distinct (fold (part_step cfg t r) is ps) \<and> (ps \<noteq> [] \<or> is \<noteq> [] \<longrightarrow> fold (part_step cfg t r) is ps \<noteq> [])"
  using assms
proof (induction "is" arbitrary: ps)
  case (Cons i "is")
  have "set (part_step cfg t r i ps) \<subseteq> {t mod g_virtual_part_cnt cfg, r mod g_virtual_part_cnt cfg}"
    using part_step_set [of cfg t r i ps] Cons.prems by auto
  from Cons.IH [OF this part_step_distinct [OF Cons.prems(2)]] show ?case using part_step_ne [of cfg t r i ps] by auto
qed simp

lemma word_mod_lt: "v \<noteq> 0 \<Longrightarrow> (x :: 64 word) mod v < v"
  by (simp add: word_less_nat_alt unat_mod unat_gt_0)

lemma gen_parts_ok:
  assumes "ycsb_cfg_ok cfg"
  obtains parts g' where "gen_parts cfg t g = Some (parts, g')" "parts \<noteq> []" "distinct parts" "length parts \<le> 2"
    "\<forall>p \<in> set parts. p < g_virtual_part_cnt cfg" "drands g' = drands g"
proof (cases "d_less (ops cfg) (fst (drand48 g)) (g_perc_multi_part cfg)")
  case True
  let ?r = "lrands g (Suc (used g))" and ?v = "g_virtual_part_cnt cfg"
  let ?ps = "fold (part_step cfg t ?r) [0..<g_part_per_txn cfg] []"
  have f: "set ?ps \<subseteq> {t mod ?v, ?r mod ?v}" "distinct ?ps" "?ps \<noteq> []"
    using fold_part_step [of "[]" t cfg ?r "[0..<g_part_per_txn cfg]"] assms by (auto simp: ycsb_cfg_ok_def)
  have "length ?ps = card (set ?ps)" using f(2) by (simp add: distinct_card)
  also have "\<dots> \<le> card {t mod ?v, ?r mod ?v}" using f(1) by (intro card_mono) auto
  also have "\<dots> \<le> 2" by (simp add: card_insert_if)
  finally have "length ?ps \<le> 2" .
  moreover have "\<forall>p \<in> set ?ps. p < ?v" using f(1) assms word_mod_lt [of ?v] by (auto simp: ycsb_cfg_ok_def)
  ultimately show ?thesis using True f assms that [of ?ps "g\<lparr>used := Suc (Suc (used g))\<rparr>"]
    by (simp add: gen_parts_def drand48_def lrand48_def ycsb_cfg_ok_def Let_def)
next
  case False
  then show ?thesis
    using assms word_mod_lt [of "g_virtual_part_cnt cfg"] that [of "[(if FIRST_PART_LOCAL cfg then t else lrands g (Suc (used g))) mod g_part_cnt cfg]" "g\<lparr>used := Suc (Suc (used g))\<rparr>"]
    by (simp add: gen_parts_def drand48_def lrand48_def ycsb_cfg_ok_def Let_def)
qed


definition gen_inv :: "'d ycsb_cfg \<Rightarrow> 64 word list \<Rightarrow> (nat \<Rightarrow> 'd) \<Rightarrow> nat \<Rightarrow> 'd req_st \<Rightarrow> bool" where
  "gen_inv cfg parts us tmp st \<longleftrightarrow>
     length (slots st) = g_req_per_query cfg \<and> rid st \<le> tmp \<and> (0 < tmp \<longrightarrow> 0 < rid st) \<and>
     drands (rng st) = us \<and>
     all_keys st = \<Union> (req_rows cfg ` set (take (rid st) (slots st))) \<and>
     sorted_wrt (\<lambda>a b. req_rows cfg a \<inter> req_rows cfg b = {}) (take (rid st) (slots st)) \<and>
     (\<forall>r \<in> set (take (rid st) (slots st)). req_ok cfg parts r)"

lemma take_Suc_update: "n < length xs \<Longrightarrow> take (Suc n) (xs[n := x]) = take n xs @ [x]"
  by (simp add: take_Suc_conv_app_nth)

text \<open>What a round puts into its slot.\<close>

definition new_request :: "'d ycsb_cfg \<Rightarrow> 'd zipf_consts \<Rightarrow> 'd \<Rightarrow> 64 word \<Rightarrow> 'd req_st \<Rightarrow> ycsb_request" where
  "new_request cfg z z2 part_id st =
     (let g = rng st; t = req_type cfg (drands g (used g)); old = slots st ! rid st;
          row_id = zipf_of (ops cfg) (the_n z) (g_zipf_theta cfg) (denom z) z2 (drands g (Suc (used g)));
          req = old\<lparr>rtype := t\<rparr>; req = (if t = SCAN then req\<lparr>scan_len := SCAN_LEN cfg\<rparr> else req)
      in req\<lparr>key := row_id * g_virtual_part_cnt cfg + part_id, rvalue := ucast (lrands g (Suc (Suc (used g))))\<rparr>)"

lemma req_type_cases: "req_type cfg r \<in> {RD, WR, SCAN}"
  by (simp add: req_type_def Let_def)

lemma req_part:
  assumes "tmp < g_req_per_query cfg" "g_req_per_query cfg < 2 ^ 32" "length parts \<le> 2" "parts \<noteq> []"
  shows "unat ((of_nat tmp * of_nat (length parts)) div (of_nat (g_req_per_query cfg) :: 64 word)) < length parts"
proof -
  let ?R = "g_req_per_query cfg" and ?l = "length parts"
  have "tmp * ?l \<le> 2 ^ 32 * 2" using assms by (intro mult_le_mono) auto
  then have p: "tmp * ?l < 2 ^ 64" by simp
  have "unat (of_nat tmp * of_nat ?l :: 64 word) = tmp * ?l"
    using p unfolding of_nat_mult [symmetric] by (subst unat_of_nat) (simp add: take_bit_nat_eq_self)
  moreover have "unat (of_nat ?R :: 64 word) = ?R" using assms(2) by (simp add: unat_of_nat take_bit_nat_eq_self)
  moreover have "tmp * ?l div ?R < ?l"
    using assms by (simp add: div_less_iff_less_mult)
  ultimately show ?thesis by (simp add: unat_div)
qed

lemma req_step_eq:
  assumes cfg: "ycsb_cfg_ok cfg" and z: "zipf_fits cfg z z2 us" and us: "drands (rng st) = us"
    and t: "tmp < g_req_per_query cfg" and ps: "length parts \<le> 2" "parts \<noteq> []"
  obtains part_id where "part_id \<in> set parts"
    "req_step cfg z z2 parts tmp st =
      (let req = new_request cfg z z2 part_id st;
           st = st\<lparr>slots := (slots st)[rid st := req], rng := (rng st)\<lparr>used := Suc (Suc (Suc (used (rng st))))\<rparr>\<rparr>
       in Some (if req_rows cfg req \<inter> all_keys st \<noteq> {} then st
                else st\<lparr>all_keys := all_keys st \<union> req_rows cfg req, rid := Suc (rid st)\<rparr>))"
proof -
  let ?i = "unat ((of_nat tmp * of_nat (length parts)) div (of_nat (g_req_per_query cfg) :: 64 word))"
  have i: "?i < length parts" using req_part [OF t _ ps] cfg by (simp add: ycsb_cfg_ok_def)
  let ?p = "parts ! ?i" and ?g = "rng st"
  let ?row = "zipf_of (ops cfg) (the_n z) (g_zipf_theta cfg) (denom z) z2 (us (Suc (used ?g)))"
  have n: "the_n z = g_synth_table_size cfg div g_virtual_part_cnt cfg - 1"
    and row: "?row < g_synth_table_size cfg div g_virtual_part_cnt cfg"
    using z by (auto simp: zipf_fits_def Let_def)
  have v: "g_part_cnt cfg = g_virtual_part_cnt cfg" using cfg by (simp add: ycsb_cfg_ok_def)
  have ks: "set (scan_keys cfg r p l) = (\<lambda>i. r * g_virtual_part_cnt cfg + p + of_nat i * g_part_cnt cfg) ` {0..<unat l}" for r p l
    by (simp add: scan_keys_def v algebra_simps)
  let ?req = "new_request cfg z z2 ?p st"
  have "req_step cfg z z2 parts tmp st =
      (let req = ?req;
           st = st\<lparr>slots := (slots st)[rid st := req], rng := ?g\<lparr>used := Suc (Suc (Suc (used ?g)))\<rparr>\<rparr>
       in Some (if req_rows cfg req \<inter> all_keys st \<noteq> {} then st
                else st\<lparr>all_keys := all_keys st \<union> req_rows cfg req, rid := Suc (rid st)\<rparr>))"
    using cfg i row us n unfolding req_step_def zipf_def new_request_def req_rows_def
    by (auto simp: drand48_def lrand48_def ycsb_cfg_ok_def Let_def list_ex_iff ks)
  with i show ?thesis by (intro that [of ?p]) auto
qed

lemma new_request_ok:
  assumes cfg: "ycsb_cfg_ok cfg" and z: "zipf_fits cfg z z2 (drands (rng st))" and p: "p \<in> set parts"
    and v: "\<forall>p \<in> set parts. p < g_virtual_part_cnt cfg"
  shows "req_ok cfg parts (new_request cfg z z2 p st)"
proof -
  let ?row = "zipf_of (ops cfg) (the_n z) (g_zipf_theta cfg) (denom z) z2 (drands (rng st) (Suc (used (rng st))))"
  have "1 \<le> ?row" "?row < g_synth_table_size cfg div g_virtual_part_cnt cfg"
    using z by (auto simp: zipf_fits_def Let_def)
  from req_key_bounds [OF this(2) _ this(1), of p] p v show ?thesis
    using req_type_cases [of cfg "drands (rng st) (used (rng st))"] by (auto simp: req_ok_def new_request_def Let_def)
qed

lemma req_step_inv:
  assumes cfg: "ycsb_cfg_ok cfg" and z: "zipf_fits cfg z z2 us" and t: "tmp < g_req_per_query cfg"
    and ps: "length parts \<le> 2" "parts \<noteq> []" "\<forall>p \<in> set parts. p < g_virtual_part_cnt cfg"
    and inv: "gen_inv cfg parts us tmp st"
  shows "\<exists>st'. req_step cfg z z2 parts tmp st = Some st' \<and> gen_inv cfg parts us (Suc tmp) st'"
proof -
  have us: "drands (rng st) = us" and len: "rid st < length (slots st)" using inv t by (auto simp: gen_inv_def)
  from req_step_eq [OF cfg z us t ps(1,2)] obtain p where p: "p \<in> set parts" and
    step: "req_step cfg z z2 parts tmp st =
      (let req = new_request cfg z z2 p st;
           st = st\<lparr>slots := (slots st)[rid st := req], rng := (rng st)\<lparr>used := Suc (Suc (Suc (used (rng st))))\<rparr>\<rparr>
       in Some (if req_rows cfg req \<inter> all_keys st \<noteq> {} then st
                else st\<lparr>all_keys := all_keys st \<union> req_rows cfg req, rid := Suc (rid st)\<rparr>))" .
  let ?req = "new_request cfg z z2 p st"
  have ok: "req_ok cfg parts ?req" using new_request_ok [OF cfg _ p ps(3)] z us by blast
  show ?thesis
  proof (cases "req_rows cfg ?req \<inter> all_keys st \<noteq> {}")
    case True
    then have "0 < rid st" using inv by (auto simp: gen_inv_def)
    then show ?thesis using True step inv by (auto simp: gen_inv_def Let_def)
  next
    case False
    then show ?thesis using step inv ok len
      by (auto simp: gen_inv_def Let_def take_Suc_update sorted_wrt_append)
  qed
qed

lemma req_loop_inv:
  assumes cfg: "ycsb_cfg_ok cfg" and z: "zipf_fits cfg z z2 us"
    and ps: "length parts \<le> 2" "parts \<noteq> []" "\<forall>p \<in> set parts. p < g_virtual_part_cnt cfg"
    and inv: "gen_inv cfg parts us m st" and m: "m \<le> g_req_per_query cfg"
  shows "\<exists>st'. req_loop cfg z z2 parts [m..<g_req_per_query cfg] st = Some st' \<and>
    gen_inv cfg parts us (g_req_per_query cfg) st'"
  using m inv
proof (induction m arbitrary: st rule: inc_induct)
  case (step m)
  from req_step_inv [OF cfg z step.hyps(2) ps step.prems] obtain st1 where
    "req_step cfg z z2 parts m st = Some st1" "gen_inv cfg parts us (Suc m) st1" by blast
  then show ?case using step.IH [of st1] step.hyps by (simp add: upt_conv_Cons)
qed simp

interpretation by_key: sort_order "\<lambda>a b. key b < key (a :: ycsb_request)"
  by unfold_locales auto

lemma sort_requests_ok:
  assumes "distinct (map key rs)" and "rs \<noteq> []"
  obtains rs' where "sort_requests cfg rs = Some rs'" "mset rs' = mset rs"
    "g_key_order cfg \<longrightarrow> sorted_wrt (\<lambda>a b. key a < key b) rs'"
proof (cases "g_key_order cfg")
  case True
  let ?s = "bubble_sort (\<lambda>a b. key b < key a) rs"
  have m: "mset ?s = mset rs" by (rule mset_bubble_sort)
  have "mset (map key ?s) = mset (map key rs)" by (simp add: m)
  then have d: "distinct (map key ?s)" using assms(1) mset_eq_imp_distinct_iff by blast
  have le: "sorted_wrt (\<lambda>a b. \<not> key b < key a) ?s" by (rule by_key.sorted_bubble_sort)
  have lt: "sorted_wrt (\<lambda>a b. key a < key b) ?s"
    unfolding sorted_wrt_iff_nth_less
  proof (intro allI impI)
    fix i j assume ij: "i < j" "j < length ?s"
    then have "key (?s ! i) \<le> key (?s ! j)" using le by (auto simp: sorted_wrt_iff_nth_less not_less)
    moreover have "key (?s ! i) \<noteq> key (?s ! j)" using d ij by (auto simp: distinct_conv_nth)
    ultimately show "key (?s ! i) < key (?s ! j)" by simp
  qed
  have "?s \<noteq> []" using assms(2) m by force
  moreover have "key (?s ! i) < key (?s ! Suc i)" if "i < length ?s - 1" for i
    using lt that by (simp add: sorted_wrt_iff_nth_less)
  ultimately have "sort_requests cfg rs = Some ?s"
    using True by (simp add: sort_requests_def list_all_iff Let_def)
  then show ?thesis using that m lt by blast
next
  case False
  then show ?thesis using that [of rs] by (simp add: sort_requests_def)
qed

text \<open>A symmetric relation that holds between all members does not depend on their order.\<close>

lemma sorted_wrt_mset:
  assumes "symp R"
  shows "sorted_wrt R xs \<longleftrightarrow> (\<forall>x \<in># mset xs. \<forall>y \<in># mset xs - {#x#}. R x y)"
proof (induction xs)
  case (Cons a xs)
  have "(\<forall>x \<in># mset (a # xs). \<forall>y \<in># mset (a # xs) - {#x#}. R x y) \<longleftrightarrow>
      (\<forall>y \<in># mset xs. R a y) \<and> (\<forall>x \<in># mset xs. R x a \<and> (\<forall>y \<in># mset xs - {#x#}. R x y))"
    by (auto simp: in_diff_count split: if_splits)
  then show ?case using Cons assms by (auto dest: sympD)
qed simp

lemma sorted_wrt_perm: "symp R \<Longrightarrow> mset xs = mset ys \<Longrightarrow> sorted_wrt R xs \<longleftrightarrow> sorted_wrt R ys"
  by (simp add: sorted_wrt_mset)

lemma key_in_rows: "req_ok cfg parts r \<Longrightarrow> SCAN_LEN cfg \<noteq> 0 \<Longrightarrow> key r \<in> req_rows cfg r"
  by (auto simp: req_ok_def req_rows_def unat_gt_0 intro!: image_eqI [where x = 0])

lemma disjoint_rows_keys:
  assumes "sorted_wrt (\<lambda>a b. req_rows cfg a \<inter> req_rows cfg b = {}) rs" "\<forall>r \<in> set rs. req_ok cfg parts r" "SCAN_LEN cfg \<noteq> 0"
  shows "distinct (map key rs)"
  using assms
proof (induction rs)
  case (Cons r rs)
  have "key r \<noteq> key s" if "s \<in> set rs" for s
  proof
    assume "key r = key s"
    then have "key s \<in> req_rows cfg r \<inter> req_rows cfg s"
      using Cons.prems that key_in_rows [of cfg parts r] key_in_rows [of cfg parts s] by auto
    then show False using Cons.prems(1) that by auto
  qed
  then show ?case using Cons by auto
qed simp

definition ycsb_query_ok :: "'d ycsb_cfg \<Rightarrow> ycsb_query \<Rightarrow> bool" where
  "ycsb_query_ok cfg q \<longleftrightarrow>
     requests q \<noteq> [] \<and> length (requests q) \<le> g_req_per_query cfg \<and>
     part_to_access q \<noteq> [] \<and> distinct (part_to_access q) \<and> length (part_to_access q) \<le> 2 \<and>
     (\<forall>r \<in> set (requests q). req_ok cfg (part_to_access q) r) \<and>
     sorted_wrt (\<lambda>a b. req_rows cfg a \<inter> req_rows cfg b = {}) (requests q) \<and>
     (g_key_order cfg \<longrightarrow> sorted_wrt (\<lambda>a b. key a < key b) (requests q))"

lemma gen_requests_ok:
  assumes cfg: "ycsb_cfg_ok cfg" and z: "zipf_fits cfg z z2 (drands g)" and mem: "length mem = g_req_per_query cfg"
  shows "\<exists>q g'. gen_requests cfg z z2 mem thd_id g = Some (q, g') \<and> ycsb_query_ok cfg q"
proof -
  from gen_parts_ok [OF cfg] obtain parts g1 where
    p: "gen_parts cfg thd_id g = Some (parts, g1)" "parts \<noteq> []" "distinct parts" "length parts \<le> 2"
      "\<forall>p \<in> set parts. p < g_virtual_part_cnt cfg" "drands g1 = drands g" .
  let ?st = "\<lparr>slots = mem, rid = 0, all_keys = {}, rng = g1\<rparr>" and ?R = "g_req_per_query cfg"
  have "gen_inv cfg parts (drands g) 0 ?st" using mem p(6) by (simp add: gen_inv_def)
  from req_loop_inv [OF cfg z p(4,2,5) this] obtain st where
    st: "req_loop cfg z z2 parts [0..<?R] ?st = Some st" "gen_inv cfg parts (drands g) ?R st" by auto
  let ?rs = "take (rid st) (slots st)"
  have rs: "sorted_wrt (\<lambda>a b. req_rows cfg a \<inter> req_rows cfg b = {}) ?rs" "\<forall>r \<in> set ?rs. req_ok cfg parts r"
    "?rs \<noteq> []" "length ?rs \<le> ?R" using st(2) cfg by (auto simp: gen_inv_def ycsb_cfg_ok_def)
  have "distinct (map key ?rs)" using disjoint_rows_keys [OF rs(1,2)] cfg by (simp add: ycsb_cfg_ok_def)
  from sort_requests_ok [OF this rs(3)] obtain rs' where
    rs': "sort_requests cfg ?rs = Some rs'" "mset rs' = mset ?rs" "g_key_order cfg \<longrightarrow> sorted_wrt (\<lambda>a b. key a < key b) rs'"
    by (metis (no_types))
  have sym: "symp (\<lambda>a b. req_rows cfg a \<inter> req_rows cfg b = {})" by (auto intro: sympI)
  have perm: "set rs' = set ?rs" "length rs' = length ?rs" "rs' \<noteq> []"
    using rs'(2) rs(3) by (metis set_mset_mset, metis size_mset, force)
  have "gen_requests cfg z z2 mem thd_id g = Some (\<lparr>part_to_access = parts, requests = rs'\<rparr>, rng st)"
    using cfg p(1) st(1) rs'(1) by (simp add: gen_requests_def ycsb_cfg_ok_def)
  then show ?thesis using p rs rs'(3) perm sorted_wrt_perm [OF sym rs'(2)] by (auto simp: ycsb_query_ok_def)
qed

text \<open>
  C20. What the YCSB generator produces: with as many virtual partitions as partitions and row ids from the Zipf
  generator that are in range, no assertion fails.  There is at least one request and at most
  \<open>g_req_per_query\<close>; every key lies in the table, beyond the first row of each partition, and, modulo the number of
  partitions, in a partition that the query declares; no row is asked for twice, scans included; and with
  \<open>g_key_order\<close> the keys increase strictly.  Whatever \<open>g_part_per_txn\<close> says, at most two partitions are declared,
  since all but the first come from one draw.
\<close>

theorem ycsb_queries_well_formed:
  assumes "ycsb_cfg_ok cfg" and "the_n z \<noteq> 0" and "\<not> d_eq (ops cfg) (denom z) (d_of (ops cfg) 0)"
    and "zipf_fits cfg z (zeta (ops cfg) 2 (g_zipf_theta cfg)) (drands g)" and "length mem = g_req_per_query cfg"
  shows "\<exists>q g'. ycsb_query_init cfg z mem thd_id g = Some (q, g') \<and>
    requests q \<noteq> [] \<and> length (requests q) \<le> g_req_per_query cfg \<and>
    part_to_access q \<noteq> [] \<and> distinct (part_to_access q) \<and> length (part_to_access q) \<le> 2 \<and>
    (\<forall>r \<in> set (requests q). req_ok cfg (part_to_access q) r) \<and>
    sorted_wrt (\<lambda>a b. req_rows cfg a \<inter> req_rows cfg b = {}) (requests q) \<and>
    (g_key_order cfg \<longrightarrow> sorted_wrt (\<lambda>a b. key a < key b) (requests q))"
  using gen_requests_ok [OF assms(1,4,5), of thd_id] assms(2,3)
  by (auto simp: ycsb_query_init_def ycsb_query_ok_def Let_def)

text \<open>In exact arithmetic the constants that \<open>calculateDenom\<close> computes put every draw in range.\<close>

lemma real_zipf_fits:
  assumes "ops cfg = real_ops" "calculateDenom cfg z0 = Some z" "g_zipf_theta cfg < 1"
    "2 \<le> g_synth_table_size cfg div g_virtual_part_cnt cfg" "\<forall>k. 0 \<le> us k \<and> us k < 1"
  shows "zipf_fits cfg z (zeta (ops cfg) 2 (g_zipf_theta cfg)) us" "the_n z \<noteq> 0" "0 < denom z"
proof -
  let ?t = "g_synth_table_size cfg div g_virtual_part_cnt cfg"
  have z: "the_n z = ?t - 1" "denom z = zeta real_ops (?t - 1) (g_zipf_theta cfg)"
    using assms(1,2) by (auto simp: calculateDenom_def Let_def)
  have n: "1 \<le> ?t - 1" "x \<le> ?t - 1 \<Longrightarrow> x < ?t" for x
    using assms(4) by (simp_all add: word_le_nat_alt word_less_nat_alt unat_sub)
  show "zipf_fits cfg z (zeta (ops cfg) 2 (g_zipf_theta cfg)) us"
    using zipf_in_range [OF assms(3) n(1)] assms(1,5) n(2) by (simp add: zipf_fits_def z Let_def)
  show "the_n z \<noteq> 0" using n(1) z(1) by auto
  have "1 \<le> unat (?t - 1)" using n(1) by (simp add: word_le_nat_alt)
  then show "0 < denom z" using sum_powr_grows [of 0 "unat (?t - 1)" "g_zipf_theta cfg"] by (simp add: z(2) zeta_real)
qed

definition demo_ycsb :: "real ycsb_cfg" where
  "demo_ycsb = \<lparr>ops = real_ops, g_synth_table_size = 40960, g_virtual_part_cnt = 1024, g_part_cnt = 1024,
     g_part_per_txn = 1, g_req_per_query = 16, FIRST_PART_LOCAL = True, g_key_order = True, CC_HSTORE = True,
     SCAN_LEN = 20, g_perc_multi_part = 1, g_read_perc = 9/10, g_write_perc = 1/10, g_zipf_theta = 3/5\<rparr>"

definition demo_rng :: "real ycsb_rng" where
  "demo_rng = \<lparr>drands = (\<lambda>k. if even k then 1/3 else 2/3), lrands = (\<lambda>k. of_nat k), used = 0\<rparr>"

definition demo_mem :: "ycsb_request list" where
  "demo_mem = replicate 16 \<lparr>rtype = RD, key = 0, rvalue = 0, scan_len = 0\<rparr>"

theorem ycsb_queries_well_formed_witness:
  "\<exists>z q g'. calculateDenom demo_ycsb \<lparr>the_n = 0, denom = 0\<rparr> = Some z \<and>
     ycsb_query_init demo_ycsb z demo_mem 0 demo_rng = Some (q, g') \<and> requests q \<noteq> [] \<and>
     sorted_wrt (\<lambda>a b. key a < key b) (requests q)"
proof -
  obtain z where z: "calculateDenom demo_ycsb \<lparr>the_n = 0, denom = 0\<rparr> = Some z"
    by (simp add: calculateDenom_def demo_ycsb_def)
  have fits: "zipf_fits demo_ycsb z (zeta (ops demo_ycsb) 2 (g_zipf_theta demo_ycsb)) (drands demo_rng)" "the_n z \<noteq> 0" "0 < denom z"
    using real_zipf_fits [OF _ z, of "drands demo_rng"] by (simp_all add: demo_ycsb_def demo_rng_def)
  have "ycsb_cfg_ok demo_ycsb" by (simp add: ycsb_cfg_ok_def demo_ycsb_def real_ops_def)
  from ycsb_queries_well_formed [OF this fits(2) _ fits(1), of demo_mem 0] fits(3) z show ?thesis
    by (auto simp: demo_ycsb_def real_ops_def demo_mem_def)
qed

end
