(* ===== verification/Schema_File.thy ===== *)
theory Schema_File
  imports Row_Storage Index_Perfect
begin

text \<open>
  Schema files: \<open>workload::init_schema\<close> of system/wl.cpp, which reads the description of the tables and
  indexes and creates them.

  The input stream is the rest of the file with the two state bits \<open>getline\<close> depends on: a stream that
  has hit the end of the file is not read again and leaves the line as it was.  The loop that collects
  the fields of a table need not end, so it is a partial function whose \<open>None\<close> is a loop that never
  returns.  Everywhere else \<open>None\<close> also stands for a failed assertion, a call of \<open>abort\<close>, an exception or an
  operation the language leaves undefined.  The files are a parameter.  Modelled are the builds with one
  of the two hash indexes and the TPC-C workload.
\<close>

section \<open>Streams and strings\<close>

abbreviation newline :: char where "newline \<equiv> CHR 0x0A"
abbreviation comma :: char where "comma \<equiv> CHR '',''"

record ifstream =
  rest :: string
  eof :: bool
  fail :: bool

definition open_stream :: "string \<Rightarrow> ifstream" where
  "open_stream text = \<lparr>rest = text, eof = False, fail = False\<rparr>"

definition getline :: "ifstream \<Rightarrow> string \<Rightarrow> string \<times> ifstream" where
  "getline fin line =
     (if eof fin \<or> fail fin then (line, fin\<lparr>fail := True\<rparr>)
      else let l = takeWhile (\<lambda>c. c \<noteq> newline) (rest fin) in
        (case dropWhile (\<lambda>c. c \<noteq> newline) (rest fin) of
           [] \<Rightarrow> (l, fin\<lparr>rest := [], eof := True, fail := (l = [])\<rparr>)
         | _ # r \<Rightarrow> (l, fin\<lparr>rest := r\<rparr>)))"

definition c_str :: "string \<Rightarrow> string" where
  "c_str s = takeWhile (\<lambda>c. c \<noteq> CHR 0x00) s"

text \<open>The loop that cuts a line at its commas.\<close>

function split_line :: "string \<Rightarrow> string list" where
  "split_line line =
     (if line = [] then []
      else let pos = length (takeWhile (\<lambda>c. c \<noteq> comma) line) in take pos line # split_line (drop (pos + 1) line))"
  by auto
termination
  by (relation "measure length") auto

declare split_line.simps [simp del]

definition isspace :: "char \<Rightarrow> bool" where
  "isspace c \<longleftrightarrow> c = CHR '' '' \<or> of_char c \<in> {9 .. 13 :: nat}"

definition isdigit :: "char \<Rightarrow> bool" where
  "isdigit c \<longleftrightarrow> of_char c \<in> {48 .. 57 :: nat}"

definition digits_value :: "string \<Rightarrow> nat" where
  "digits_value ds = foldl (\<lambda>n c. 10 * n + (of_char c - 48)) 0 ds"

text \<open>White space, a sign and digits: whether the sign is a minus, and the digits.\<close>

definition scan_number :: "string \<Rightarrow> bool \<times> string" where
  "scan_number s =
     (case dropWhile isspace s of
        [] \<Rightarrow> (False, [])
      | c # t \<Rightarrow> (if c = CHR ''-'' then (True, takeWhile isdigit t)
                 else if c = CHR ''+'' then (False, takeWhile isdigit t)
                 else (False, takeWhile isdigit (c # t))))"

text \<open>The result of \<open>atoi\<close> is undefined when it does not fit.\<close>

definition atoi :: "string \<Rightarrow> int option" where
  "atoi s =
     (case scan_number s of (neg, ds) \<Rightarrow>
        let v = (if neg then - int (digits_value ds) else int (digits_value ds)) in
          if - (2 ^ 31) \<le> v \<and> v < 2 ^ 31 then Some v else None)"

definition stoull :: "string \<Rightarrow> 64 word option" where
  "stoull s =
     (case scan_number s of (neg, ds) \<Rightarrow>
        if ds = [] \<or> 2 ^ 64 \<le> digits_value ds then None
        else Some (if neg then - of_nat (digits_value ds) else of_nat (digits_value ds)))"

section \<open>Tables\<close>

text \<open>The loop that reads lines of more than one character.\<close>

partial_function (option) read_fields :: "ifstream \<Rightarrow> string \<Rightarrow> string list \<Rightarrow> (string list \<times> string \<times> ifstream) option" where
  "read_fields fin line ls =
     (if 1 < length line
      then (case getline fin line of (line', fin') \<Rightarrow> read_fields fin' line' (ls @ [line]))
      else Some (ls, line, fin))"

definition add_field :: "string \<Rightarrow> Catalog \<Rightarrow> Catalog option" where
  "add_field line c =
     (case split_line line of
        [sz, ty, nm] \<Rightarrow> do { n \<leftarrow> atoi (c_str sz); add_col (c_str nm) (of_int n) (c_str ty) c }
      | _ \<Rightarrow> None)"

fun add_fields :: "string list \<Rightarrow> Catalog \<Rightarrow> Catalog option" where
  "add_fields [] c = Some c"
| "add_fields (l # ls) c = do { c' \<leftarrow> add_field l c; add_fields ls c' }"

definition read_table :: "string \<Rightarrow> ifstream \<Rightarrow> (table_t \<times> string \<times> ifstream) option" where
  "read_table line fin =
     (case getline fin line of (line', fin') \<Rightarrow> do {
        (ls, line'', fin'') \<leftarrow> read_fields fin' line' [];
        c \<leftarrow> add_fields ls (catalog_init (c_str (drop 6 line)) (length ls));
        Some (table_init c, line'', fin'')
      })"

section \<open>Indexes\<close>

record schema_cfg =
  sc_idx :: idx_cfg
  sc_perfect :: bool
  CENTRAL_INDEX :: bool
  g_part_cnt :: UInt32
  REPLICATE_ITEM :: bool
  MAX_SOCKETS :: nat

datatype index_obj = Hash IndexHash | Perfect IndexHashPerfect

record workload =
  tables :: "string \<rightharpoonup> table_t"
  indexes :: "string \<rightharpoonup> index_obj"

definition int_mult :: "int \<Rightarrow> int \<Rightarrow> int option" where
  "int_mult a b = (if - (2 ^ 31) \<le> a * b \<and> a * b < 2 ^ 31 then Some (a * b) else None)"

definition base_parts :: "schema_cfg \<Rightarrow> int" where
  "base_parts cfg = (if CENTRAL_INDEX cfg then 1 else sint (g_part_cnt cfg))"

definition last_name_parts :: "schema_cfg \<Rightarrow> int option" where
  "last_name_parts cfg =
     (if TPCC_ALL_TXN (sc_idx cfg) then int_mult (base_parts cfg) 10 else Some (base_parts cfg))"

definition index_parts :: "schema_cfg \<Rightarrow> string \<Rightarrow> string \<Rightarrow> int option" where
  "index_parts cfg iname tname = do {
     n \<leftarrow> (if iname = ''ORDER-LINE_IDX'' \<or> iname = ''ORDER_IDX'' then int_mult (base_parts cfg) 10
           else Some (base_parts cfg));
     Some (if tname = ''ITEM'' then (if REPLICATE_ITEM cfg then int (MAX_SOCKETS cfg) else 1) else n)
   }"

text \<open>In the builds with the perfect hash index, last names still go to the chained one.\<close>

definition make_index :: "schema_cfg \<Rightarrow> (item_ptr \<Rightarrow> itemid_t) \<Rightarrow> string \<Rightarrow> string \<Rightarrow> 64 word \<Rightarrow> index_obj option" where
  "make_index cfg mem iname tname cnt =
     (if sc_perfect cfg \<and> iname = ''CUSTOMER_LAST_IDX'' then do {
        n \<leftarrow> last_name_parts cfg;
        map_option Hash (ih_init (cnt * of_int n) (nat n))
      } else do {
        n \<leftarrow> index_parts cfg iname tname;
        if sc_perfect cfg then map_option Perfect (hp_init (cnt * of_int n) (nat n) mem)
        else map_option Hash (ih_init (cnt * of_int n) (nat n))
      })"

definition read_index :: "schema_cfg \<Rightarrow> (item_ptr \<Rightarrow> itemid_t) \<Rightarrow> string \<Rightarrow> ifstream \<Rightarrow> workload \<Rightarrow> (index_obj \<times> ifstream) option" where
  "read_index cfg mem line fin wl =
     (case getline fin line of (line', fin') \<Rightarrow>
        (case split_line line' of
           tname # cnt # _ \<Rightarrow>
             assert_then (tables wl tname \<noteq> None) (do {
               n \<leftarrow> stoull cnt;
               ix \<leftarrow> make_index cfg mem (c_str (drop 6 line)) tname n;
               Some (ix, fin')
             })
         | _ \<Rightarrow> None))"

section \<open>The file\<close>

partial_function (option) schema_loop :: "schema_cfg \<Rightarrow> (item_ptr \<Rightarrow> itemid_t) \<Rightarrow> ifstream \<Rightarrow> string \<Rightarrow> workload \<Rightarrow> workload option" where
  "schema_loop cfg mem fin line0 wl =
     (case getline fin line0 of (line, fin1) \<Rightarrow>
        if fail fin1 then Some wl
        else if take 6 line = ''TABLE='' then do {
          (t, line', fin2) \<leftarrow> read_table line fin1;
          schema_loop cfg mem fin2 line' (wl\<lparr>tables := (tables wl)(c_str (drop 6 line) \<mapsto> t)\<rparr>)
        }
        else if take 6 line = ''INDEX='' then do {
          (ix, fin2) \<leftarrow> read_index cfg mem line fin1 wl;
          schema_loop cfg mem fin2 [] (wl\<lparr>indexes := (indexes wl)(c_str (drop 6 line) \<mapsto> ix)\<rparr>)
        }
        else schema_loop cfg mem fin1 line wl)"

definition schema_paths :: "string list" where
  "schema_paths = [''./benchmarks/tpcc/'', ''../benchmarks/tpcc/'', ''../../../src/benchmarks/tpcc/'', ''../../benchmarks/tpcc/'']"

definition init_schema :: "schema_cfg \<Rightarrow> (item_ptr \<Rightarrow> itemid_t) \<Rightarrow> (string \<rightharpoonup> string) \<Rightarrow> string \<Rightarrow> workload \<Rightarrow> workload option" where
  "init_schema cfg mem files schema_file wl =
     (case List.find (\<lambda>p. files (p @ schema_file) \<noteq> None) schema_paths of
        None \<Rightarrow> None
      | Some p \<Rightarrow> do { text \<leftarrow> files (p @ schema_file); schema_loop cfg mem (open_stream text) [] wl })"

text \<open>
  The insertion the workloads use: a fresh item for the row goes into the index, in the given partition
  or in that of the row's address, which \<open>part_of\<close> gives.  The index copies the item into a slot or keeps it.
\<close>

definition workload_index_insert :: "schema_cfg \<Rightarrow> itemid_t \<Rightarrow> (row_ptr \<Rightarrow> nat) \<Rightarrow> idx_key_t \<Rightarrow> row_ptr \<Rightarrow> nat option \<Rightarrow> bool
    \<Rightarrow> index_obj \<Rightarrow> index_obj option" where
  "workload_index_insert cfg fresh part_of key row part no_collision ix =
     (let pid = (case part of None \<Rightarrow> part_of row | Some p \<Rightarrow> p) in
      case ix of
        Perfect hp \<Rightarrow>
          map_option Perfect (index_insert (sc_idx cfg) key
            ((item_init (sc_idx cfg) fresh)\<lparr>it_type := DT_row, it_location := Some row, it_valid := True\<rparr>) pid no_collision hp)
      | Hash ih \<Rightarrow> map_option Hash (ih_insert key \<lparr>item_type = DT_row, item_location = Some row\<rparr> pid ih))"

section \<open>Lemmas on lines and tokens\<close>

lemma getline_line [simp]:
  "newline \<notin> set l \<Longrightarrow> getline (open_stream (l @ newline # r)) x = (l, open_stream r)"
  by (simp add: getline_def open_stream_def takeWhile_tail takeWhile_append dropWhile_append Let_def)

lemma getline_end [simp]: "getline (open_stream []) x = ([], \<lparr>rest = [], eof = True, fail = True\<rparr>)"
  by (simp add: getline_def open_stream_def)

lemma getline_ended: "eof fin \<Longrightarrow> getline fin x = (x, fin\<lparr>fail := True\<rparr>)"
  by (simp add: getline_def)

lemma fail_open_stream [simp]: "\<not> fail (open_stream t)"
  by (simp add: open_stream_def)

lemma c_str_id: "CHR 0x00 \<notin> set s \<Longrightarrow> c_str s = s"
  by (induction s) (auto simp: c_str_def)

lemma split_line_comma [simp]: "comma \<notin> set t \<Longrightarrow> split_line (t @ comma # r) = t # split_line r"
  by (subst split_line.simps) (simp add: takeWhile_tail takeWhile_append Let_def)

lemma split_line_last [simp]: "comma \<notin> set t \<Longrightarrow> t \<noteq> [] \<Longrightarrow> split_line t = [t]"
proof -
  assume t: "comma \<notin> set t" "t \<noteq> []"
  then have tw: "takeWhile (\<lambda>c. c \<noteq> comma) t = t" by (auto simp: takeWhile_eq_all_conv)
  show ?thesis using t(2) unfolding split_line.simps [of t] tw by (simp add: Let_def split_line.simps [of "[]"])
qed

text \<open>Decimal numbers.\<close>

fun dec :: "nat \<Rightarrow> string" where
  "dec n = (if n < 10 then [char_of (48 + n)] else dec (n div 10) @ [char_of (48 + n mod 10)])"

declare dec.simps [simp del]

lemma isdigit_char_of [simp]: "(d :: nat) < 10 \<Longrightarrow> isdigit (char_of (48 + d))"
  by (simp add: isdigit_def)

lemma dec_digits: "set (dec n) \<subseteq> Collect isdigit \<and> dec n \<noteq> []"
proof (induction n rule: dec.induct)
  case (1 n)
  then show ?case by (cases "n < 10") (simp_all add: dec.simps [of n])
qed

lemma digits_value_dec [simp]: "digits_value (dec n) = n"
proof (induction n rule: dec.induct)
  case (1 n)
  then show ?case by (subst dec.simps) (auto simp: digits_value_def)
qed

lemma isdigit_not [simp]:
  "\<not> isdigit comma" "\<not> isdigit newline" "\<not> isdigit (CHR ''-'')" "\<not> isdigit (CHR ''+'')" "\<not> isdigit (CHR 0x00)"
  by (simp_all add: isdigit_def)

lemma dec_not_mem [simp]: "comma \<notin> set (dec n)" "newline \<notin> set (dec n)" "CHR 0x00 \<notin> set (dec n)" "dec n \<noteq> []"
  using dec_digits [of n] by (auto simp: subset_iff)

lemma scan_number_dec [simp]: "scan_number (dec n) = (False, dec n)" "scan_number (CHR 0x09 # dec n) = (False, dec n)"
proof -
  obtain c t where ct: "dec n = c # t" by (cases "dec n") auto
  have d: "isdigit x" if "x \<in> set (dec n)" for x using that dec_digits [of n] by auto
  have c: "isdigit c" "\<not> isspace c" "c \<noteq> CHR ''-''" "c \<noteq> CHR ''+''"
    using d [of c] by (auto simp: ct isdigit_def isspace_def)
  have "takeWhile isdigit (dec n) = dec n" using d by (simp add: takeWhile_eq_all_conv)
  then show "scan_number (dec n) = (False, dec n)" using c by (simp add: scan_number_def ct)
  then show "scan_number (CHR 0x09 # dec n) = (False, dec n)" by (simp add: scan_number_def isspace_def)
qed

lemma atoi_dec: "n < 2 ^ 31 \<Longrightarrow> atoi (CHR 0x09 # dec n) = Some (int n)"
  by (simp add: atoi_def Let_def)

lemma stoull_dec: "n < 2 ^ 64 \<Longrightarrow> stoull (dec n) = Some (of_nat n)"
  by (simp add: stoull_def)

section \<open>Printed schemas are read back\<close>

text \<open>
  A file is a list of tables, indexes and other lines.  A table ends with a line of at most one
  character.
\<close>

datatype schema_decl = Table_decl string "(string \<times> nat \<times> string) list" string
  | Index_decl string string nat | Other_line string

fun print_field :: "string \<times> nat \<times> string \<Rightarrow> string" where
  "print_field (nm, sz, ty) = CHR 0x09 # dec sz @ comma # ty @ comma # nm"

definition print_lines :: "string list \<Rightarrow> string" where
  "print_lines ls = concat (map (\<lambda>l. l @ [newline]) ls)"

lemma print_lines_simps [simp]: "print_lines [] = []" "print_lines (l # ls) = l @ newline # print_lines ls"
  by (simp_all add: print_lines_def)

fun print_decl :: "schema_decl \<Rightarrow> string" where
  "print_decl (Table_decl tn fs e) = ''TABLE='' @ tn @ newline # print_lines (map print_field fs) @ e @ [newline]"
| "print_decl (Index_decl iname tn cnt) = ''INDEX='' @ iname @ newline # tn @ comma # dec cnt @ [newline]"
| "print_decl (Other_line l) = l @ [newline]"

text \<open>What the declarations mean, without any text.\<close>

fun field_spec :: "string \<times> nat \<times> string \<Rightarrow> col_spec" where
  "field_spec (nm, sz, ty) = (nm, of_nat sz, ty)"

fun declare_one :: "schema_cfg \<Rightarrow> (item_ptr \<Rightarrow> itemid_t) \<Rightarrow> schema_decl \<Rightarrow> workload \<Rightarrow> workload option" where
  "declare_one cfg mem (Table_decl tn fs e) wl = do {
     c \<leftarrow> add_cols (map field_spec fs) (catalog_init tn (length fs));
     Some (wl\<lparr>tables := (tables wl)(tn \<mapsto> table_init c)\<rparr>)
   }"
| "declare_one cfg mem (Index_decl iname tn cnt) wl =
     assert_then (tables wl tn \<noteq> None) (do {
       ix \<leftarrow> make_index cfg mem iname tn (of_nat cnt);
       Some (wl\<lparr>indexes := (indexes wl)(iname \<mapsto> ix)\<rparr>)
     })"
| "declare_one cfg mem (Other_line l) wl = Some wl"

fun declare_all :: "schema_cfg \<Rightarrow> (item_ptr \<Rightarrow> itemid_t) \<Rightarrow> schema_decl list \<Rightarrow> workload \<Rightarrow> workload option" where
  "declare_all cfg mem [] wl = Some wl"
| "declare_all cfg mem (d # ds) wl = do { wl' \<leftarrow> declare_one cfg mem d wl; declare_all cfg mem ds wl' }"

definition plain :: "string \<Rightarrow> bool" where
  "plain s \<longleftrightarrow> newline \<notin> set s \<and> CHR 0x00 \<notin> set s"

fun field_ok :: "string \<times> nat \<times> string \<Rightarrow> bool" where
  "field_ok (nm, sz, ty) \<longleftrightarrow> plain nm \<and> comma \<notin> set nm \<and> nm \<noteq> [] \<and> plain ty \<and> comma \<notin> set ty \<and> sz < 2 ^ 31"

fun decl_ok :: "schema_decl \<Rightarrow> bool" where
  "decl_ok (Table_decl tn fs e) \<longleftrightarrow> plain tn \<and> (\<forall>f\<in>set fs. field_ok f) \<and> newline \<notin> set e \<and> length e \<le> 1"
| "decl_ok (Index_decl iname tn cnt) \<longleftrightarrow> plain iname \<and> plain tn \<and> comma \<notin> set tn \<and> cnt < 2 ^ 64"
| "decl_ok (Other_line l) \<longleftrightarrow> newline \<notin> set l \<and> take 6 l \<noteq> ''TABLE='' \<and> take 6 l \<noteq> ''INDEX=''"

lemma print_field_line: "field_ok f \<Longrightarrow> newline \<notin> set (print_field f) \<and> 1 < length (print_field f)"
  by (cases f) (auto simp: plain_def)

lemma read_fields_lines:
  assumes "newline \<notin> set e" "length e \<le> 1"
  shows "\<forall>l\<in>set ls. newline \<notin> set l \<and> 1 < length l \<Longrightarrow>
    (case getline (open_stream (print_lines ls @ e @ newline # r)) x of (l, fin) \<Rightarrow> read_fields fin l acc) = Some (acc @ ls, e, open_stream r)"
proof (induction ls arbitrary: acc x)
  case Nil
  then show ?case using assms by (simp add: read_fields.simps)
next
  case (Cons l ls)
  then show ?case by (subst read_fields.simps) simp
qed

lemma add_field_print: "field_ok f \<Longrightarrow> add_field (print_field f) c = (case field_spec f of (nm, sz, ty) \<Rightarrow> add_col nm sz ty c)"
proof -
  assume f: "field_ok f"
  obtain nm sz ty where x: "f = (nm, sz, ty)" by (cases f)
  have "split_line (print_field f) = [CHR 0x09 # dec sz, ty, nm]"
    using f split_line_comma [of "CHR 0x09 # dec sz" "ty @ comma # nm"] by (simp add: x)
  then show ?thesis using f by (simp add: add_field_def x plain_def c_str_id atoi_dec)
qed

lemma add_fields_print: "\<forall>f\<in>set fs. field_ok f \<Longrightarrow> add_fields (map print_field fs) c = add_cols (map field_spec fs) c"
proof (induction fs arbitrary: c)
  case (Cons f fs)
  obtain nm sz ty where f: "field_spec f = (nm, sz, ty)" by (cases "field_spec f")
  show ?case using Cons by (simp add: add_field_print f del: print_field.simps split: option.split)
qed simp

lemma schema_loop_cong_line: "schema_loop cfg mem (open_stream r) x wl = schema_loop cfg mem (open_stream r) y wl"
proof -
  have "getline (open_stream r) x = getline (open_stream r) y" by (simp add: getline_def open_stream_def)
  then show ?thesis by (simp only: schema_loop.simps [of cfg mem "open_stream r"])
qed

lemma read_table_print:
  assumes "decl_ok (Table_decl tn fs e)"
  shows "read_table (''TABLE='' @ tn) (open_stream (print_lines (map print_field fs) @ e @ newline # r)) =
    map_option (\<lambda>c. (table_init c, e, open_stream r)) (add_cols (map field_spec fs) (catalog_init tn (length fs)))"
proof -
  obtain l fin where l: "getline (open_stream (print_lines (map print_field fs) @ e @ newline # r)) (''TABLE='' @ tn) = (l, fin)"
    by force
  have "read_fields fin l [] = Some (map print_field fs, e, open_stream r)"
    using assms read_fields_lines [of e "map print_field fs" "[]" r "''TABLE='' @ tn"] print_field_line
    by (auto simp: l simp del: append.simps)
  then show ?thesis using assms l
    by (auto simp: read_table_def add_fields_print plain_def c_str_id map_option_case split: option.split)
qed

lemma schema_loop_decl:
  assumes "decl_ok d"
  shows "schema_loop cfg mem (open_stream (print_decl d @ r)) x wl =
    do { wl' \<leftarrow> declare_one cfg mem d wl; schema_loop cfg mem (open_stream r) [] wl' }"
proof (cases d)
  case (Table_decl tn fs e)
  have g: "getline (open_stream (print_decl d @ r)) x =
      (''TABLE='' @ tn, open_stream (print_lines (map print_field fs) @ e @ newline # r))"
    using assms getline_line [of "''TABLE='' @ tn"] by (simp add: Table_decl plain_def)
  show ?thesis unfolding schema_loop.simps [of cfg mem "open_stream (print_decl d @ r)"] g
    using assms read_table_print [of tn fs e r] schema_loop_cong_line [of cfg mem r e _ "[]"]
    by (cases "add_cols (map field_spec fs) (catalog_init tn (length fs))") (auto simp: Table_decl plain_def c_str_id)
next
  case (Index_decl iname tn cnt)
  have g: "getline (open_stream (print_decl d @ r)) x = (''INDEX='' @ iname, open_stream (tn @ comma # dec cnt @ newline # r))"
    using assms getline_line [of "''INDEX='' @ iname"] by (simp add: Index_decl plain_def)
  have ri: "read_index cfg mem (''INDEX='' @ iname) (open_stream (tn @ comma # dec cnt @ newline # r)) wl =
      assert_then (tables wl tn \<noteq> None)
        (map_option (\<lambda>ix. (ix, open_stream r)) (make_index cfg mem iname tn (of_nat cnt)))"
    using assms getline_line [of "tn @ comma # dec cnt" r "''INDEX='' @ iname"]
    by (auto simp: Index_decl read_index_def plain_def c_str_id stoull_dec map_option_case split: option.split)
  show ?thesis unfolding schema_loop.simps [of cfg mem "open_stream (print_decl d @ r)"] g using assms ri
    by (cases "make_index cfg mem iname tn (of_nat cnt)") (auto simp: Index_decl plain_def c_str_id assert_then_def)
next
  case (Other_line l)
  have g: "getline (open_stream (print_decl d @ r)) x = (l, open_stream r)" using assms by (simp add: Other_line)
  show ?thesis unfolding schema_loop.simps [of cfg mem "open_stream (print_decl d @ r)"] g
    using assms schema_loop_cong_line [of cfg mem r l wl "[]"] by (simp add: Other_line)
qed

lemma schema_loop_decls:
  "\<forall>d\<in>set ds. decl_ok d \<Longrightarrow> schema_loop cfg mem (open_stream (concat (map print_decl ds))) x wl = declare_all cfg mem ds wl"
proof (induction ds arbitrary: x wl)
  case Nil
  then show ?case by (subst schema_loop.simps) simp
next
  case (Cons d ds)
  then show ?case by (simp add: schema_loop_decl del: print_decl.simps declare_one.simps)
qed

text \<open>
  Declarations that can be carried out: names are declared once and before they are used, names and
  types fit their 80 bytes, a tuple has less than \<open>2 ^ 32\<close> bytes, and an index has partitions.
\<close>

definition parts_of :: "schema_cfg \<Rightarrow> string \<Rightarrow> string \<Rightarrow> int option" where
  "parts_of cfg iname tn = (if sc_perfect cfg \<and> iname = ''CUSTOMER_LAST_IDX'' then last_name_parts cfg else index_parts cfg iname tn)"

fun schema_ok :: "schema_cfg \<Rightarrow> string list \<Rightarrow> string list \<Rightarrow> schema_decl list \<Rightarrow> bool" where
  "schema_ok cfg T I [] \<longleftrightarrow> True"
| "schema_ok cfg T I (Table_decl tn fs e # ds) \<longleftrightarrow>
     tn \<notin> set T \<and> decl_ok (Table_decl tn fs e) \<and> (\<Sum>(nm, sz, ty)\<leftarrow>fs. sz) < 2 ^ 32 \<and>
     (\<forall>(nm, sz, ty)\<in>set fs. length nm < 80 \<and> length ty < 80) \<and> schema_ok cfg (tn # T) I ds"
| "schema_ok cfg T I (Index_decl iname tn cnt # ds) \<longleftrightarrow>
     iname \<notin> set I \<and> tn \<in> set T \<and> decl_ok (Index_decl iname tn cnt) \<and>
     (case parts_of cfg iname tn of None \<Rightarrow> False | Some n \<Rightarrow> 0 < n) \<and> schema_ok cfg T (iname # I) ds"
| "schema_ok cfg T I (Other_line l # ds) \<longleftrightarrow> decl_ok (Other_line l) \<and> schema_ok cfg T I ds"

definition field_of :: "Column \<Rightarrow> string \<times> nat \<times> string" where
  "field_of c = (col_name c, unat (col_size c), col_type c)"

fun decl_done :: "schema_cfg \<Rightarrow> (item_ptr \<Rightarrow> itemid_t) \<Rightarrow> workload \<Rightarrow> schema_decl \<Rightarrow> bool" where
  "decl_done cfg mem wl (Table_decl tn fs e) \<longleftrightarrow>
     (case tables wl tn of
        None \<Rightarrow> False
      | Some t \<Rightarrow> tbl_name t = tn \<and> map field_of (columns (tbl_schema t)) = fs \<and> layout_ok (tbl_schema t))"
| "decl_done cfg mem wl (Index_decl iname tn cnt) \<longleftrightarrow>
     (case indexes wl iname of
        None \<Rightarrow> False
      | Some ix \<Rightarrow> make_index cfg mem iname tn (of_nat cnt) = Some ix)"
| "decl_done cfg mem wl (Other_line l) \<longleftrightarrow> True"

lemma make_index_ok: "parts_of cfg iname tn = Some n \<Longrightarrow> 0 < n \<Longrightarrow> make_index cfg mem iname tn cnt \<noteq> None"
  by (auto simp: parts_of_def make_index_def hp_init_def ih_init_def split: if_splits)

lemma add_col_fields:
  assumes "add_col nm sz ty c = Some c'" "unat sz < 2 ^ 32"
  shows "map field_of (columns c') = map field_of (columns c) @ [(nm, unat sz, ty)]" "table_name c' = table_name c"
  using assms by (auto simp: add_col_def strcpy80_def field_of_def unsigned_ucast_eq unsigned_take_bit_eq take_bit_nat_eq_self split: if_splits)

lemma add_cols_fields:
  assumes "\<forall>(nm, sz, ty)\<in>set fs. sz < 2 ^ 31"
  shows "add_cols (map field_spec fs) c = Some c' \<Longrightarrow>
    map field_of (columns c') = map field_of (columns c) @ fs \<and> table_name c' = table_name c"
  using assms
proof (induction fs arbitrary: c)
  case (Cons f fs)
  obtain nm sz ty where f: "f = (nm, sz, ty)" by (cases f)
  have sz: "unat (of_nat sz :: 64 word) = sz" "sz < 2 ^ 32" using Cons.prems(2) by (auto simp: f unat_of_nat)
  obtain c1 where c1: "add_col nm (of_nat sz) ty c = Some c1" "add_cols (map field_spec fs) c1 = Some c'"
    using Cons.prems(1) by (auto simp: f split: option.splits)
  show ?case using Cons.IH [OF c1(2)] Cons.prems(2) add_col_fields [OF c1(1)] sz by (simp add: f)
qed simp

lemma declare_table:
  assumes "schema_ok cfg T I (Table_decl tn fs e # ds)"
  obtains c where "add_cols (map field_spec fs) (catalog_init tn (length fs)) = Some c"
    "map field_of (columns c) = fs" "table_name c = tn" "layout_ok c"
proof -
  let ?c = "catalog_init tn (length fs)"
  have sz: "\<forall>(nm, sz, ty)\<in>set fs. sz < 2 ^ 31" using assms by auto
  then have so: "map (size_of \<circ> field_spec) fs = map (\<lambda>(nm, sz, ty). sz) fs" by (auto simp: size_of_def unat_of_nat)
  have "layout_ok ?c" by (simp add: catalog_init_def layout_ok_def)
  moreover have "unat (tuple_size ?c) + sum_list (map size_of (map field_spec fs)) < 2 ^ 32"
    using assms by (simp add: so catalog_init_def)
  moreover have "length (columns ?c) + length (map field_spec fs) \<le> max_field_cnt ?c" by (simp add: catalog_init_def)
  moreover have "\<forall>(nm, sz, ty)\<in>set (map field_spec fs). length nm < 80 \<and> length ty < 80" using assms by auto
  ultimately obtain c where c: "add_cols (map field_spec fs) ?c = Some c" "layout_ok c" using add_cols_layout by blast
  then show ?thesis using that add_cols_fields [OF sz c(1)] by (simp add: catalog_init_def)
qed

lemma declare_all_ok:
  assumes "schema_ok cfg T I ds" "\<forall>tn\<in>set T. tables wl tn \<noteq> None"
  shows "\<exists>wl'. declare_all cfg mem ds wl = Some wl' \<and> (\<forall>tn\<in>set T. tables wl' tn = tables wl tn) \<and>
    (\<forall>iname\<in>set I. indexes wl' iname = indexes wl iname) \<and> (\<forall>d\<in>set ds. decl_done cfg mem wl' d)"
  using assms
proof (induction cfg T I ds arbitrary: wl rule: schema_ok.induct)
  case (2 cfg T I tn fs e ds)
  from declare_table [OF 2(2)] obtain c where
    c: "add_cols (map field_spec fs) (catalog_init tn (length fs)) = Some c" "map field_of (columns c) = fs" "table_name c = tn" "layout_ok c" .
  let ?wl = "wl\<lparr>tables := (tables wl)(tn \<mapsto> table_init c)\<rparr>"
  obtain wl' where wl': "declare_all cfg mem ds ?wl = Some wl'" "\<forall>n\<in>set (tn # T). tables wl' n = tables ?wl n"
    "\<forall>iname\<in>set I. indexes wl' iname = indexes ?wl iname" "\<forall>d\<in>set ds. decl_done cfg mem wl' d"
  proof -
    have "schema_ok cfg (tn # T) I ds" "\<forall>n\<in>set (tn # T). tables ?wl n \<noteq> None" using 2(2,3) by simp_all
    from 2(1) [OF this] show ?thesis using that by blast
  qed
  have "decl_done cfg mem wl' (Table_decl tn fs e)" using wl'(2) c by (simp add: table_init_def)
  then show ?case using wl' c(1) 2(2) by (intro exI [of _ wl']) auto
next
  case (3 cfg T I iname tn cnt ds)
  obtain ix where ix: "make_index cfg mem iname tn (of_nat cnt) = Some ix"
    using 3(2) make_index_ok [of cfg iname tn _ mem "of_nat cnt"] by (auto split: option.splits)
  let ?wl = "wl\<lparr>indexes := (indexes wl)(iname \<mapsto> ix)\<rparr>"
  obtain wl' where wl': "declare_all cfg mem ds ?wl = Some wl'" "\<forall>n\<in>set T. tables wl' n = tables ?wl n"
    "\<forall>i\<in>set (iname # I). indexes wl' i = indexes ?wl i" "\<forall>d\<in>set ds. decl_done cfg mem wl' d"
    using 3(1) [of ?wl] 3(2,3) by (auto split: option.splits)
  have "decl_done cfg mem wl' (Index_decl iname tn cnt)" using wl'(3) ix by simp
  moreover have "tables wl tn \<noteq> None" using 3(2,3) by simp
  ultimately show ?case using wl' ix 3(2) by (intro exI [of _ wl']) auto
qed simp_all

lemma schema_ok_decl_ok: "schema_ok cfg T I ds \<Longrightarrow> \<forall>d\<in>set ds. decl_ok d"
  by (induction cfg T I ds rule: schema_ok.induct) auto

lemma init_schema_first: "files (hd schema_paths @ f) = Some text \<Longrightarrow>
    init_schema cfg mem files f wl = schema_loop cfg mem (open_stream text) [] wl"
  by (simp add: init_schema_def schema_paths_def)


text \<open>A small file with a comment, a table and an index, read in a build with four partitions.\<close>

definition demo_schema_cfg :: schema_cfg where
  "demo_schema_cfg = \<lparr>sc_idx = \<lparr>TPCC_ALL_TXN = True, HAWK_ALLOC = False\<rparr>, sc_perfect = True, CENTRAL_INDEX = False,
     g_part_cnt = 4, REPLICATE_ITEM = False, MAX_SOCKETS = 1\<rparr>"

definition demo_decls :: "schema_decl list" where
  "demo_decls = [Other_line ''//size,type,name'', Table_decl ''ORDER'' [(''O_ID'', 8, ''int64_t''), (''O_C_ID'', 8, ''int64_t'')] [],
     Index_decl ''ORDER_IDX'' ''ORDER'' 24]"

lemma demo_decls_ok: "schema_ok demo_schema_cfg [] [] demo_decls"
  by (simp add: demo_decls_def demo_schema_cfg_def parts_of_def index_parts_def int_mult_def base_parts_def plain_def)


text \<open>
  A file that ends inside a table, without a line break behind its last field, is never read to its
  end: the stream is exhausted, so \<open>getline\<close> leaves the last line where it is and the loop stores it again
  and again.
\<close>

lemma read_fields_returns:
  assumes "read_fields fin line ls = Some r"
  shows "\<not> (eof fin \<and> 1 < length line)"
  using assms
proof (rule read_fields.raw_induct [where P = "\<lambda>fin line ls r. \<not> (eof fin \<and> 1 < length line)", rotated])
  fix rf fin line ls r
  assume ih: "\<And>fin line ls r. rf fin line ls = Some r \<Longrightarrow> \<not> (eof fin \<and> 1 < length line)"
    and r: "(if 1 < length line then (case getline fin line of (line', fin') \<Rightarrow> rf fin' line' (ls @ [line]))
             else Some (ls, line, fin)) = Some r"
  show "\<not> (eof fin \<and> 1 < length line)"
  proof
    assume e: "eof fin \<and> 1 < length line"
    then have "rf (fin\<lparr>fail := True\<rparr>) line (ls @ [line]) = Some r" using r by (simp add: getline_ended)
    from ih [OF this] show False using e by simp
  qed
qed

theorem unterminated_field_never_returns:
  assumes "1 < length line" and "newline \<notin> set line"
  shows "case getline (open_stream line) x of (l, fin) \<Rightarrow> l = line \<and> read_fields fin l ls = None"
proof -
  have "takeWhile (\<lambda>c. c \<noteq> newline) line = line" "dropWhile (\<lambda>c. c \<noteq> newline) line = []"
    using assms(2) by (auto simp: takeWhile_eq_all_conv dropWhile_eq_Nil_conv)
  then have "getline (open_stream line) x = (line, \<lparr>rest = [], eof = True, fail = (line = [])\<rparr>)"
    by (simp only: getline_def open_stream_def Let_def ifstream.simps if_False simp_thms list.case)
  then show ?thesis using read_fields_returns [of "\<lparr>rest = [], eof = True, fail = (line = [])\<rparr>" line ls] assms(1)
    by (cases "read_fields \<lparr>rest = [], eof = True, fail = (line = [])\<rparr> line ls") auto
qed

end
