(* ===== verification/Schema_TPCC.thy ===== *)
theory Schema_TPCC
  imports Schema_File TPCC_Query
begin

text \<open>
  The schema of the TPC-C benchmark: benchmarks/tpcc/TPCC_full_schema-all_txn.txt, the file
  \<open>tpcc_wl::init\<close> gives to \<open>init_schema\<close> in the builds with all transactions, and the column numbers and
  packed structures of benchmarks/tpcc/tpcc_const.h, whose offsets the builds without a catalog use
  instead of the schema.  The theorems compare the two, and the sizes of the indexes with the keys that
  are put into them.
\<close>

section \<open>The file and the structures\<close>

definition full_schema_all_txn :: "schema_decl list" where
  "full_schema_all_txn = [
    Other_line ''//size,type,name'',
    Table_decl ''WAREHOUSE''
      [(''W_ID'', 8, ''int64_t''), (''W_NAME'', 10, ''string''), (''W_STREET_1'', 20, ''string''),
       (''W_STREET_2'', 20, ''string''), (''W_CITY'', 20, ''string''), (''W_STATE'', 2, ''string''),
       (''W_ZIP'', 9, ''string''), (''W_TAX'', 8, ''double''), (''W_YTD'', 8, ''double'')] [],
    Table_decl ''DISTRICT''
      [(''D_ID'', 8, ''int64_t''), (''D_W_ID'', 8, ''int64_t''), (''D_NAME'', 10, ''string''),
       (''D_STREET_1'', 20, ''string''), (''D_STREET_2'', 20, ''string''), (''D_CITY'', 20, ''string''),
       (''D_STATE'', 2, ''string''), (''D_ZIP'', 9, ''string''), (''D_TAX'', 8, ''double''),
       (''D_YTD'', 8, ''double''), (''D_NEXT_O_ID'', 8, ''int64_t'')] [],
    Table_decl ''CUSTOMER''
      [(''C_ID'', 8, ''int64_t''), (''C_D_ID'', 8, ''int64_t''), (''C_W_ID'', 8, ''int64_t''),
       (''C_FIRST'', 16, ''string''), (''C_MIDDLE'', 2, ''string''), (''C_LAST'', 16, ''string''),
       (''C_STREET_1'', 20, ''string''), (''C_STREET_2'', 20, ''string''), (''C_CITY'', 20, ''string''),
       (''C_STATE'', 2, ''string''), (''C_ZIP'', 9, ''string''), (''C_PHONE'', 16, ''string''),
       (''C_SINCE'', 8, ''int64_t''), (''C_CREDIT'', 2, ''string''), (''C_CREDIT_LIM'', 8, ''int64_t''),
       (''C_DISCOUNT'', 8, ''int64_t''), (''C_BALANCE'', 8, ''double''),
       (''C_YTD_PAYMENT'', 8, ''double''), (''C_PAYMENT_CNT'', 8, ''uint64_t''),
       (''C_DELIVERY_CNT'', 8, ''uint64_t''), (''C_DATA'', 500, ''string'')] [CHR 0x09],
    Table_decl ''HISTORY''
      [(''H_C_ID'', 8, ''int64_t''), (''H_C_D_ID'', 8, ''int64_t''), (''H_C_W_ID'', 8, ''int64_t''),
       (''H_D_ID'', 8, ''int64_t''), (''H_W_ID'', 8, ''int64_t''), (''H_DATE'', 8, ''int64_t''),
       (''H_AMOUNT'', 8, ''double''), (''H_DATA'', 24, ''string'')] [],
    Table_decl ''NEW-ORDER''
      [(''NO_O_ID'', 8, ''int64_t''), (''NO_D_ID'', 8, ''int64_t''), (''NO_W_ID'', 8, ''int64_t'')] [],
    Table_decl ''ORDER''
      [(''O_ID'', 8, ''int64_t''), (''O_C_ID'', 8, ''int64_t''), (''O_D_ID'', 8, ''int64_t''),
       (''O_W_ID'', 8, ''int64_t''), (''O_ENTRY_D'', 8, ''int64_t''), (''O_CARRIER_ID'', 8, ''int64_t''),
       (''O_OL_CNT'', 8, ''int64_t''), (''O_ALL_LOCAL'', 8, ''int64_t'')] [],
    Table_decl ''ORDER-LINE''
      [(''OL_O_ID'', 8, ''int64_t''), (''OL_D_ID'', 8, ''int64_t''), (''OL_W_ID'', 8, ''int64_t''),
       (''OL_NUMBER'', 8, ''int64_t''), (''OL_I_ID'', 8, ''int64_t''),
       (''OL_SUPPLY_W_ID'', 8, ''int64_t''), (''OL_DELIVERY_D'', 8, ''int64_t''),
       (''OL_QUANTITY'', 8, ''int64_t''), (''OL_AMOUNT'', 8, ''double''),
       (''OL_DIST_INFO'', 8, ''int64_t'')] [],
    Table_decl ''ITEM''
      [(''I_ID'', 8, ''int64_t''), (''I_IM_ID'', 8, ''int64_t''), (''I_NAME'', 24, ''string''),
       (''I_PRICE'', 8, ''int64_t''), (''I_DATA'', 50, ''string'')] [],
    Table_decl ''STOCK''
      [(''S_I_ID'', 8, ''int64_t''), (''S_W_ID'', 8, ''int64_t''), (''S_QUANTITY'', 8, ''int64_t''),
       (''S_DIST_01'', 24, ''string''), (''S_DIST_02'', 24, ''string''), (''S_DIST_03'', 24, ''string''),
       (''S_DIST_04'', 24, ''string''), (''S_DIST_05'', 24, ''string''), (''S_DIST_06'', 24, ''string''),
       (''S_DIST_07'', 24, ''string''), (''S_DIST_08'', 24, ''string''), (''S_DIST_09'', 24, ''string''),
       (''S_DIST_10'', 24, ''string''), (''S_YTD'', 8, ''int64_t''), (''S_ORDER_CNT'', 8, ''int64_t''),
       (''S_REMOTE_CNT'', 8, ''int64_t''), (''S_DATA'', 50, ''string'')] [],
    Index_decl ''ITEM_IDX'' ''ITEM'' 110000,
    Other_line [],
    Index_decl ''WAREHOUSE_IDX'' ''WAREHOUSE'' 100,
    Other_line [],
    Index_decl ''DISTRICT_IDX'' ''DISTRICT'' 1000,
    Other_line [],
    Index_decl ''CUSTOMER_ID_IDX'' ''CUSTOMER'' 33000,
    Other_line [],
    Index_decl ''CUSTOMER_LAST_IDX'' ''CUSTOMER'' 33000,
    Other_line [],
    Index_decl ''STOCK_IDX'' ''STOCK'' 110000,
    Other_line [],
    Index_decl ''ORDER_IDX'' ''ORDER'' 24000,
    Other_line [],
    Index_decl ''ORDER_CUST_IDX'' ''ORDER'' 240000,
    Other_line [],
    Index_decl ''ORDER-LINE_IDX'' ''ORDER-LINE'' 240000,
    Other_line [],
    Index_decl ''NEW-ORDER_IDX'' ''NEW-ORDER'' 240000]"

text \<open>The enumerations: the number of a column is its position.\<close>

definition tpcc_columns :: "string list list" where
  "tpcc_columns = [
    [''W_ID'', ''W_NAME'', ''W_STREET_1'', ''W_STREET_2'', ''W_CITY'', ''W_STATE'', ''W_ZIP'', ''W_TAX'',
     ''W_YTD''],
    [''D_ID'', ''D_W_ID'', ''D_NAME'', ''D_STREET_1'', ''D_STREET_2'', ''D_CITY'', ''D_STATE'',
     ''D_ZIP'', ''D_TAX'', ''D_YTD'', ''D_NEXT_O_ID''],
    [''C_ID'', ''C_D_ID'', ''C_W_ID'', ''C_FIRST'', ''C_MIDDLE'', ''C_LAST'', ''C_STREET_1'',
     ''C_STREET_2'', ''C_CITY'', ''C_STATE'', ''C_ZIP'', ''C_PHONE'', ''C_SINCE'', ''C_CREDIT'',
     ''C_CREDIT_LIM'', ''C_DISCOUNT'', ''C_BALANCE'', ''C_YTD_PAYMENT'', ''C_PAYMENT_CNT'',
     ''C_DELIVERY_CNT'', ''C_DATA''],
    [''H_C_ID'', ''H_C_D_ID'', ''H_C_W_ID'', ''H_D_ID'', ''H_W_ID'', ''H_DATE'', ''H_AMOUNT'', ''H_DATA''],
    [''NO_O_ID'', ''NO_D_ID'', ''NO_W_ID''],
    [''O_ID'', ''O_C_ID'', ''O_D_ID'', ''O_W_ID'', ''O_ENTRY_D'', ''O_CARRIER_ID'', ''O_OL_CNT'',
     ''O_ALL_LOCAL''],
    [''OL_O_ID'', ''OL_D_ID'', ''OL_W_ID'', ''OL_NUMBER'', ''OL_I_ID'', ''OL_SUPPLY_W_ID'',
     ''OL_DELIVERY_D'', ''OL_QUANTITY'', ''OL_AMOUNT'', ''OL_DIST_INFO''],
    [''I_ID'', ''I_IM_ID'', ''I_NAME'', ''I_PRICE'', ''I_DATA''],
    [''S_I_ID'', ''S_W_ID'', ''S_QUANTITY'', ''S_DIST_01'', ''S_DIST_02'', ''S_DIST_03'', ''S_DIST_04'',
     ''S_DIST_05'', ''S_DIST_06'', ''S_DIST_07'', ''S_DIST_08'', ''S_DIST_09'', ''S_DIST_10'', ''S_YTD'',
     ''S_ORDER_CNT'', ''S_REMOTE_CNT'', ''S_DATA'']]"

text \<open>The members of each structure with their sizes; the structure of a table stands under its name.\<close>

definition tpcc_structs :: "(string \<times> (string \<times> nat) list) list" where
  "tpcc_structs = [
    (''WAREHOUSE'',
      [(''W_ID'', 8), (''W_NAME'', 10), (''W_STREET_1'', 20), (''W_STREET_2'', 20), (''W_CITY'', 20),
       (''W_STATE'', 2), (''W_ZIP'', 9), (''W_TAX'', 8), (''W_YTD'', 8)]),
    (''DISTRICT'',
      [(''D_ID'', 8), (''D_W_ID'', 8), (''D_NAME'', 10), (''D_STREET_1'', 20), (''D_STREET_2'', 20),
       (''D_CITY'', 20), (''D_STATE'', 2), (''D_ZIP'', 9), (''D_TAX'', 8), (''D_YTD'', 8),
       (''D_NEXT_O_ID'', 8)]),
    (''CUSTOMER'',
      [(''C_ID'', 8), (''C_D_ID'', 8), (''C_W_ID'', 8), (''C_FIRST'', 16), (''C_MIDDLE'', 2),
       (''C_LAST'', 16), (''C_STREET_1'', 20), (''C_STREET_2'', 20), (''C_CITY'', 20), (''C_STATE'', 2),
       (''C_ZIP'', 9), (''C_PHONE'', 16), (''C_SINCE'', 8), (''C_CREDIT'', 2), (''C_CREDIT_LIM'', 8),
       (''C_DISCOUNT'', 8), (''C_BALANCE'', 8), (''C_YTD_PAYMENT'', 8), (''C_PAYMENT_CNT'', 8),
       (''C_DELIVERY_CNT'', 8), (''C_DATA'', 500)]),
    (''HISTORY'',
      [(''H_C_ID'', 8), (''H_C_D_ID'', 8), (''H_C_W_ID'', 8), (''H_D_ID'', 8), (''H_W_ID'', 8),
       (''H_DATE'', 8), (''H_AMOUNT'', 8), (''H_DATA'', 24)]),
    (''NEW-ORDER'',
      [(''NO_O_ID'', 8), (''NO_D_ID'', 8), (''NO_W_ID'', 8)]),
    (''ORDER'',
      [(''O_ID'', 8), (''O_C_ID'', 8), (''O_D_ID'', 8), (''O_W_ID'', 8), (''O_ENTRY_D'', 8),
       (''O_CARRIER_ID'', 8), (''O_OL_CNT'', 8), (''O_ALL_LOCAL'', 8)]),
    (''ORDER-LINE'',
      [(''OL_O_ID'', 8), (''OL_D_ID'', 8), (''OL_W_ID'', 8), (''OL_NUMBER'', 8), (''OL_I_ID'', 8),
       (''OL_SUPPLY_W_ID'', 8), (''OL_DELIVERY_D'', 8), (''OL_QUANTITY'', 8), (''OL_AMOUNT'', 8),
       (''OL_DIST_INFO'', 8)]),
    (''ITEM'',
      [(''I_ID'', 8), (''I_IM_ID'', 8), (''I_NAME'', 24), (''I_PRICE'', 8), (''I_DATA'', 50)]),
    (''STOCK'',
      [(''S_I_ID'', 8), (''S_W_ID'', 8), (''S_QUANTITY'', 8), (''S_DIST_01'', 24), (''S_DIST_02'', 24),
       (''S_DIST_03'', 24), (''S_DIST_04'', 24), (''S_DIST_05'', 24), (''S_DIST_06'', 24),
       (''S_DIST_07'', 24), (''S_DIST_08'', 24), (''S_DIST_09'', 24), (''S_DIST_10'', 24), (''S_YTD'', 8),
       (''S_ORDER_CNT'', 8), (''S_REMOTE_CNT'', 8), (''S_DATA'', 50)])]"

text \<open>A packed structure has no padding.\<close>

definition offset_of :: "(string \<times> nat) list \<Rightarrow> nat \<Rightarrow> nat" where
  "offset_of flds i = sum_list (map snd (take i flds))"

definition schema_name :: string where
  "schema_name = ''TPCC_full_schema-all_txn.txt''"

definition shipped :: "(string \<rightharpoonup> string) \<Rightarrow> bool" where
  "shipped files \<longleftrightarrow> files (hd schema_paths @ schema_name) = Some (concat (map print_decl full_schema_all_txn))"

section \<open>The declarations can be carried out\<close>

definition parts_ok :: "schema_cfg \<Rightarrow> bool" where
  "parts_ok cfg \<longleftrightarrow> 0 < base_parts cfg \<and> base_parts cfg * 10 < 2 ^ 31 \<and> (REPLICATE_ITEM cfg \<longrightarrow> 0 < MAX_SOCKETS cfg)"

lemma parts_of_pos: "parts_ok cfg \<Longrightarrow> case parts_of cfg iname tn of None \<Rightarrow> False | Some n \<Rightarrow> 0 < n"
  by (auto simp: parts_ok_def parts_of_def last_name_parts_def index_parts_def int_mult_def)

lemma schema_ok_cong:
  assumes "parts_ok cfg'"
  shows "parts_ok cfg \<Longrightarrow> schema_ok cfg T I ds = schema_ok cfg' T I ds"
proof (induction cfg T I ds rule: schema_ok.induct)
  case (3 cfg T I iname tn cnt ds)
  then show ?case using parts_of_pos [OF 3(2)] parts_of_pos [OF assms] by simp
qed simp_all

definition one_part :: schema_cfg where
  "one_part = \<lparr>sc_idx = \<lparr>TPCC_ALL_TXN = True, HAWK_ALLOC = False\<rparr>, sc_perfect = True, CENTRAL_INDEX = False,
     g_part_cnt = 1, REPLICATE_ITEM = False, MAX_SOCKETS = 1\<rparr>"

lemma parts_ok_one_part: "parts_ok one_part"
  by (simp add: parts_ok_def base_parts_def one_part_def)

lemma full_schema_ok: "parts_ok cfg \<Longrightarrow> schema_ok cfg [] [] full_schema_all_txn"
proof -
  assume "parts_ok cfg"
  moreover have "schema_ok one_part [] [] full_schema_all_txn"
    by (simp add: full_schema_all_txn_def parts_of_pos [OF parts_ok_one_part] plain_def)
  ultimately show ?thesis using schema_ok_cong [OF parts_ok_one_part] by blast
qed

lemma read_shipped:
  assumes "shipped files" and "parts_ok cfg"
  obtains wl' where "init_schema cfg mem files schema_name wl = Some wl'" "\<forall>d\<in>set full_schema_all_txn. decl_done cfg mem wl' d"
  using schema_loop_decls [OF schema_ok_decl_ok [OF full_schema_ok [OF assms(2)]], of cfg mem "[]" wl]
    declare_all_ok [OF full_schema_ok [OF assms(2)], of wl mem] init_schema_first [of files schema_name] assms(1)
  by (auto simp: shipped_def)

section \<open>The structures\<close>

fun table_fields :: "schema_decl list \<Rightarrow> (string \<times> (string \<times> nat) list) list" where
  "table_fields [] = []"
| "table_fields (Table_decl tn fs e # ds) = (tn, map (\<lambda>(nm, sz, ty). (nm, sz)) fs) # table_fields ds"
| "table_fields (_ # ds) = table_fields ds"

lemma table_fields_mem: "(tn, flds) \<in> set (table_fields ds) \<Longrightarrow> \<exists>fs e. Table_decl tn fs e \<in> set ds \<and> flds = map (\<lambda>(nm, sz, ty). (nm, sz)) fs"
  by (induction ds rule: table_fields.induct) auto

lemma full_schema_structs: "table_fields full_schema_all_txn = tpcc_structs"
  by (simp add: full_schema_all_txn_def tpcc_structs_def)

lemma tpcc_structs_columns: "map (\<lambda>s. map fst (snd s)) tpcc_structs = tpcc_columns" "\<forall>cs\<in>set tpcc_columns. distinct cs"
  by (simp_all add: tpcc_structs_def tpcc_columns_def)

definition same_layout :: "Catalog \<Rightarrow> (string \<times> nat) list \<Rightarrow> bool" where
  "same_layout c flds \<longleftrightarrow>
     length (columns c) = length flds \<and> unat (tuple_size c) = offset_of flds (length flds) \<and>
     (\<forall>i<length flds. get_field_id (fst (flds ! i)) c = Some i \<and> get_field_index i c = offset_of flds i \<and>
        get_field_size i c = snd (flds ! i))"

lemma find_col_nth:
  "distinct (map col_name cs) \<Longrightarrow> i < length cs \<Longrightarrow> find_col (col_name (cs ! i)) n cs = n + i"
proof (induction cs arbitrary: i n)
  case (Cons c cs)
  show ?case
  proof (cases i)
    case (Suc j)
    have "col_name c \<noteq> col_name (cs ! j)" using Cons.prems Suc by (auto simp: image_iff)
    then show ?thesis using Cons Suc by simp
  qed simp
qed simp

lemma same_layoutI:
  assumes l: "layout_ok c" and fs: "map field_of (columns c) = fs" and flds: "flds = map (\<lambda>(nm, sz, ty). (nm, sz)) fs"
    and d: "distinct (map fst flds)"
  shows "same_layout c flds"
proof -
  have f: "flds = map (\<lambda>x. (col_name x, unat (col_size x))) (columns c)"
    unfolding flds fs [symmetric] by (simp add: field_of_def)
  have len: "length (columns c) = length flds" by (simp add: f)
  have sz: "get_field_size i c = snd (flds ! i)" if "i < length flds" for i
    using that by (simp add: f get_field_size_def)
  have off: "(\<Sum>k<i. get_field_size k c) = offset_of flds i" if "i \<le> length flds" for i
  proof -
    have "offset_of flds i = (\<Sum>k<i. snd (flds ! k))"
      using that by (simp add: offset_of_def sum_list_sum_nth atLeast0LessThan)
    also have "\<dots> = (\<Sum>k<i. get_field_size k c)" using that sz by (intro sum.cong) auto
    finally show ?thesis by simp
  qed
  have "get_field_id (fst (flds ! i)) c = Some i" if "i < length flds" for i
    using that d find_col_nth [of "columns c" i 0] by (simp add: f get_field_id_def Let_def comp_def)
  then show ?thesis using l len sz off by (simp add: same_layout_def layout_ok_def)
qed

text \<open>
  The schema file and the source agree.  Reading the shipped file succeeds for every build whose
  indexes get partitions, and for every table the number of a column in tpcc_const.h is its number in
  the schema, its offset in the packed structure is its offset in the schema, the sizes agree, and the
  structure has the size of a tuple.  So the builds that bypass the catalog and those that do not access
  the same bytes.
\<close>
theorem schema_matches_structs:
  assumes "shipped files" and "parts_ok cfg"
  shows "\<exists>wl'. init_schema cfg mem files schema_name wl = Some wl' \<and>
    (\<forall>k<length tpcc_columns. \<exists>t. tables wl' (fst (tpcc_structs ! k)) = Some t \<and>
       map fst (snd (tpcc_structs ! k)) = tpcc_columns ! k \<and> same_layout (tbl_schema t) (snd (tpcc_structs ! k)))"
proof -
  obtain wl' where wl': "init_schema cfg mem files schema_name wl = Some wl'" "\<forall>d\<in>set full_schema_all_txn. decl_done cfg mem wl' d"
    by (rule read_shipped [OF assms])
  have "\<exists>t. tables wl' (fst (tpcc_structs ! k)) = Some t \<and>
      map fst (snd (tpcc_structs ! k)) = tpcc_columns ! k \<and> same_layout (tbl_schema t) (snd (tpcc_structs ! k))"
    if "k < length tpcc_columns" for k
  proof -
    have k: "k < length tpcc_structs" using that by (simp flip: tpcc_structs_columns(1))
    obtain tn flds where s: "tpcc_structs ! k = (tn, flds)" by force
    have col: "map fst flds = tpcc_columns ! k" using k s by (simp flip: tpcc_structs_columns(1))
    have "(tn, flds) \<in> set (table_fields full_schema_all_txn)" using k s by (metis full_schema_structs nth_mem)
    from table_fields_mem [OF this] obtain fs e where
      fs: "Table_decl tn fs e \<in> set full_schema_all_txn" "flds = map (\<lambda>(nm, sz, ty). (nm, sz)) fs" by blast
    then obtain t where t: "tables wl' tn = Some t" "map field_of (columns (tbl_schema t)) = fs" "layout_ok (tbl_schema t)"
      using wl'(2) by (force split: option.splits)
    have "distinct (map fst flds)" using that tpcc_structs_columns(2) by (simp add: col)
    then show ?thesis using same_layoutI [OF t(3,2) fs(2)] t(1) by (simp add: s col)
  qed
  then show ?thesis using wl'(1) by blast
qed

theorem schema_matches_structs_witness:
  "shipped (\<lambda>_. Some (concat (map print_decl full_schema_all_txn))) \<and> parts_ok one_part \<and>
   (\<exists>wl' t. init_schema one_part (\<lambda>_. demo_blank) (\<lambda>_. Some (concat (map print_decl full_schema_all_txn))) schema_name
        \<lparr>tables = Map.empty, indexes = Map.empty\<rparr> = Some wl' \<and>
      tables wl' ''CUSTOMER'' = Some t \<and> get_field_id ''C_BALANCE'' (tbl_schema t) = Some 16 \<and> get_field_index 16 (tbl_schema t) = 171)"
proof -
  let ?files = "\<lambda>_ :: string. Some (concat (map print_decl full_schema_all_txn))"
  have sh: "shipped ?files" by (simp add: shipped_def)
  obtain wl' where wl': "init_schema one_part (\<lambda>_. demo_blank) ?files schema_name \<lparr>tables = Map.empty, indexes = Map.empty\<rparr> = Some wl'"
    "\<forall>k<length tpcc_columns. \<exists>t. tables wl' (fst (tpcc_structs ! k)) = Some t \<and>
       map fst (snd (tpcc_structs ! k)) = tpcc_columns ! k \<and> same_layout (tbl_schema t) (snd (tpcc_structs ! k))"
    using schema_matches_structs [OF sh parts_ok_one_part, of "\<lambda>_. demo_blank" "\<lparr>tables = Map.empty, indexes = Map.empty\<rparr>"] by blast
  have "2 < length tpcc_columns" by (simp add: tpcc_columns_def)
  then obtain t where t: "tables wl' (fst (tpcc_structs ! 2)) = Some t" "same_layout (tbl_schema t) (snd (tpcc_structs ! 2))"
    using wl'(2) by blast
  then have "get_field_id ''C_BALANCE'' (tbl_schema t) = Some 16 \<and> get_field_index 16 (tbl_schema t) = 171"
    unfolding same_layout_def by (auto simp: tpcc_structs_def offset_of_def dest!: spec [of _ 16])
  moreover have "tables wl' ''CUSTOMER'' = Some t" using t(1) by (simp add: tpcc_structs_def)
  ultimately show ?thesis using wl'(1) sh parts_ok_one_part by blast
qed

section \<open>The sizes of the indexes\<close>

text \<open>
  The build with the perfect hash index, one partition per warehouse and the sizes of the benchmark.
  The entries of an index are the keys with the partitions they are put into: by \<open>wh_to_part\<close> for stock,
  customers, districts and warehouses, by \<open>d_to_part\<close> for orders, and in every copy for items.
\<close>

definition tpcc_build :: "schema_cfg \<Rightarrow> tpcc_cfg \<Rightarrow> bool" where
  "tpcc_build cfg wc \<longleftrightarrow>
     sc_perfect cfg \<and> \<not> CENTRAL_INDEX cfg \<and> unat (g_part_cnt cfg) = unat (part_cnt wc) \<and>
     (REPLICATE_ITEM cfg \<longrightarrow> 0 < MAX_SOCKETS cfg \<and> MAX_SOCKETS cfg < 2 ^ 31) \<and>
     part_cnt wc = num_wh wc \<and> 1 \<le> num_wh wc \<and> num_wh wc \<le> 100000000 \<and>
     cust_per_dist wc = 3000 \<and> max_items wc = 100000"

type_synonym entry = "idx_key_t \<times> nat"

definition item_entries :: "schema_cfg \<Rightarrow> tpcc_cfg \<Rightarrow> entry set" where
  "item_entries cfg wc = {(i, p). i \<in> {1..max_items wc} \<and> p < (if REPLICATE_ITEM cfg then MAX_SOCKETS cfg else 1)}"

definition wh_entries :: "tpcc_cfg \<Rightarrow> entry set" where
  "wh_entries wc = {(w, unat p) | w p. w \<in> {1..num_wh wc} \<and> wh_to_part wc w = Some p}"

definition dist_entries :: "tpcc_cfg \<Rightarrow> entry set" where
  "dist_entries wc = {(distKey d w, unat p) | d w p. w \<in> {1..num_wh wc} \<and> d \<in> {1..10} \<and> wh_to_part wc w = Some p}"

definition cust_entries :: "tpcc_cfg \<Rightarrow> entry set" where
  "cust_entries wc = {(custKey wc c d w, unat p) | c d w p.
     w \<in> {1..num_wh wc} \<and> d \<in> {1..10} \<and> c \<in> {1..cust_per_dist wc} \<and> wh_to_part wc w = Some p}"

definition stock_entries :: "tpcc_cfg \<Rightarrow> entry set" where
  "stock_entries wc = {(stockKey wc i w, unat p) | i w p.
     w \<in> {1..num_wh wc} \<and> i \<in> {1..max_items wc} \<and> wh_to_part wc w = Some p}"

definition order_entries :: "tpcc_cfg \<Rightarrow> 64 word \<Rightarrow> entry set" where
  "order_entries wc n = {(orderPrimaryKey wc w d oid, unat (d_to_part w d)) | w d oid.
     w \<in> {1..num_wh wc} \<and> d \<in> {1..10} \<and> oid \<in> {1..n}}"

text \<open>Every entry has a partition and a bucket, and no two share both.\<close>

definition perfect_for :: "workload \<Rightarrow> string \<Rightarrow> entry set \<Rightarrow> bool" where
  "perfect_for wl iname E \<longleftrightarrow>
     (case indexes wl iname of
        Some (Perfect ix) \<Rightarrow>
          (\<forall>(k, p)\<in>E. p < hp_parts ix \<and> hp_hash ix k \<noteq> None) \<and> inj_on (\<lambda>(k, p). (p, hp_hash ix k)) E
      | _ \<Rightarrow> False)"

lemma mod_interval_inj:
  assumes "a \<le> x" "x < a + n" "a \<le> y" "y < a + n" "x mod n = y mod (n :: nat)"
  shows "x = y"
proof -
  have "x = y" if xy: "a \<le> x" "y < a + n" "x mod n = y mod n" "x \<le> y" for x y
  proof -
    have "n dvd y - x" using xy by (metis mod_eq_dvd_iff_nat)
    moreover have "y - x < n" using xy by linarith
    ultimately have "y - x = 0" by (metis dvd_imp_le linorder_not_less gr0I)
    then show ?thesis using xy(4) by simp
  qed
  then show ?thesis using assms by (metis nat_le_linear)
qed

lemma perfect_forI:
  assumes "indexes wl iname = Some (Perfect ix)" and "unat (hp_cnt ix) = c" and "0 < c"
    and E: "\<And>k p. (k, p) \<in> E \<Longrightarrow> p < hp_parts ix \<and> base p \<le> unat k \<and> unat k < base p + c"
  shows "perfect_for wl iname E"
proof -
  have c: "hp_cnt ix \<noteq> 0" using assms(2,3) by auto
  have "k = k'" if "(k, p) \<in> E" "(k', p) \<in> E" "unat (k mod hp_cnt ix) = unat (k' mod hp_cnt ix)" for k k' p
    using mod_interval_inj [of "base p" "unat k" c "unat k'"] E that assms(2) by (simp add: unat_mod_distrib word_unat_eq_iff)
  then have "inj_on (\<lambda>(k, p). (p, hp_hash ix k)) E"
    using c by (auto simp: inj_on_def hp_hash_def)
  then show ?thesis using assms(1) E c by (auto simp: perfect_for_def hp_hash_def)
qed

lemma tpcc_build_parts:
  assumes "tpcc_build cfg wc"
  obtains n where "unat (num_wh wc) = n" "base_parts cfg = int n" "1 \<le> n" "n \<le> 100000000"
proof -
  define n where n: "n = unat (num_wh wc)"
  have w: "1 \<le> n" "n \<le> 100000000" using assms by (auto simp: n tpcc_build_def word_le_nat_alt)
  have u: "uint (g_part_cnt cfg) = int n" using assms by (metis n tpcc_build_def uint_nat)
  have "sint (g_part_cnt cfg) = uint (g_part_cnt cfg)"
    unfolding sint_uint by (rule signed_take_bit_int_eq_self) (use u w in simp_all)
  then show ?thesis using that [of n] n w u assms by (simp add: base_parts_def tpcc_build_def)
qed

lemma tpcc_build_parts_ok: "tpcc_build cfg wc \<Longrightarrow> parts_ok cfg"
  using tpcc_build_parts [of cfg wc "parts_ok cfg"] by (auto simp: parts_ok_def tpcc_build_def)

lemma made_index:
  assumes "sc_perfect cfg" "iname \<noteq> ''CUSTOMER_LAST_IDX''" "index_parts cfg iname tn = Some (int n)" "0 < n" "n < 2 ^ 31" "cnt < 2 ^ 32"
    and "decl_done cfg mem wl (Index_decl iname tn cnt)"
  obtains ix where "indexes wl iname = Some (Perfect ix)" "unat (hp_cnt ix) = cnt" "hp_parts ix = n"
proof -
  have "cnt * n \<le> 2 ^ 32 * 2 ^ 31" using assms(5,6) by (intro mult_mono) auto
  then have "cnt * n < 2 ^ 64" by simp
  moreover have "cnt * 1 \<le> cnt * n" using assms(4) by (intro mult_le_mono) auto
  ultimately have "unat ((of_nat cnt * of_nat n :: 64 word) div of_nat n) = cnt"
    using assms(4,5) by (simp add: unat_div unat_of_nat flip: of_nat_mult)
  then show ?thesis using assms that
    by (auto simp: make_index_def hp_init_def split: option.splits)
qed

lemma made_perfect:
  assumes "tpcc_build cfg wc" and "decl_done cfg mem wl (Index_decl iname tn cnt)" and "iname \<noteq> ''CUSTOMER_LAST_IDX''"
    and "index_parts cfg iname tn = Some (int m)" and "0 < m" "m < 2 ^ 31" "0 < cnt" "cnt < 2 ^ 32"
    and "\<And>k p. (k, p) \<in> E \<Longrightarrow> p < m \<and> base p \<le> unat k \<and> unat k < base p + cnt"
  shows "perfect_for wl iname E"
proof -
  have "sc_perfect cfg" using assms(1) by (simp add: tpcc_build_def)
  from made_index [OF this assms(3-6,8,2)] obtain ix where
    ix: "indexes wl iname = Some (Perfect ix)" "unat (hp_cnt ix) = cnt" "hp_parts ix = m" .
  show ?thesis by (rule perfect_forI [OF ix(1,2) assms(7), where base = base]) (use assms(9) ix(3) in simp)
qed

lemma sizes_ok_build: "tpcc_build cfg wc \<Longrightarrow> sizes_ok wc"
  by (auto simp: tpcc_build_def sizes_ok_def word_le_nat_alt word_less_nat_alt)

lemma index_parts_build:
  assumes "tpcc_build cfg wc" and "unat (num_wh wc) = n"
  shows "index_parts cfg ''WAREHOUSE_IDX'' ''WAREHOUSE'' = Some (int n)" "index_parts cfg ''DISTRICT_IDX'' ''DISTRICT'' = Some (int n)"
    "index_parts cfg ''CUSTOMER_ID_IDX'' ''CUSTOMER'' = Some (int n)" "index_parts cfg ''STOCK_IDX'' ''STOCK'' = Some (int n)"
    "index_parts cfg ''ORDER_IDX'' ''ORDER'' = Some (int (n * 10))"
    "index_parts cfg ''ITEM_IDX'' ''ITEM'' = Some (int (if REPLICATE_ITEM cfg then MAX_SOCKETS cfg else 1))"
  using tpcc_build_parts [OF assms(1), of "base_parts cfg = int n \<and> n \<le> 100000000"] assms(2)
  by (auto simp: index_parts_def int_mult_def)

text \<open>The keys of one warehouse lie in one interval, and so do those of one district.\<close>

definition wh_no :: "tpcc_cfg \<Rightarrow> nat \<Rightarrow> nat" where
  "wh_no wc p = (if p = 0 then unat (num_wh wc) else p)"

lemma wh_part_unat:
  assumes b: "tpcc_build cfg wc" and w: "w \<in> {1..num_wh wc}" and p: "wh_to_part wc w = Some p"
  shows "unat p < unat (num_wh wc)" "unat w = wh_no wc (unat p)"
proof -
  have pm: "p = w mod num_wh wc" "num_wh wc \<noteq> 0" using p b by (auto simp: wh_to_part_def tpcc_build_def)
  have wn: "1 \<le> unat w" "unat w \<le> unat (num_wh wc)" using w by (auto simp: word_le_nat_alt)
  show "unat p < unat (num_wh wc)" using pm wn by (simp add: unat_mod_distrib)
  show "unat w = wh_no wc (unat p)"
    using pm wn by (cases "unat w = unat (num_wh wc)") (simp_all add: unat_mod_distrib wh_no_def)
qed

lemma unat_keys:
  assumes b: "tpcc_build cfg wc" and w: "w \<in> {1..num_wh wc}" and d: "d \<in> {1..10}"
  shows "unat (distKey d w) = unat w * 10 + unat d" "1 \<le> unat d" "unat d \<le> 10"
    "c \<le> 3000 \<Longrightarrow> unat (custKey wc c d w) = (unat w * 10 + unat d) * 3000 + unat c"
    "i \<le> 100000 \<Longrightarrow> unat (stockKey wc i w) = unat w * 100000 + unat i"
    "oid \<le> 24001 \<Longrightarrow> unat (orderPrimaryKey wc w d oid) = (unat w * 10 + unat d) * 3000 + unat oid"
    "unat (d_to_part w d) = (unat w - 1) * 10 + (unat d - 1)"
proof -
  have wn: "1 \<le> unat w" "unat w \<le> 100000000" using w b by (auto simp: tpcc_build_def word_le_nat_alt)
  have dn: "1 \<le> unat d" "unat d \<le> 10" using d by (auto simp: word_le_nat_alt)
  have dk: "unat (distKey d w) = unat w * 10 + unat d" using wn dn by (simp add: distKey_def DIST_PER_WARE_def unat_word_ariths)
  have big: "unat (distKey d w * 3000 + c) = (unat w * 10 + unat d) * 3000 + unat c" if "unat c \<le> 24001" for c
    using wn dn that by (simp add: unat_word_ariths dk)
  show "unat (distKey d w) = unat w * 10 + unat d" "1 \<le> unat d" "unat d \<le> 10" by (fact dk dn)+
  show "c \<le> 3000 \<Longrightarrow> unat (custKey wc c d w) = (unat w * 10 + unat d) * 3000 + unat c"
    using big [of c] b by (simp add: custKey_def tpcc_build_def word_le_nat_alt)
  show "oid \<le> 24001 \<Longrightarrow> unat (orderPrimaryKey wc w d oid) = (unat w * 10 + unat d) * 3000 + unat oid"
    using big [of oid] b by (simp add: orderPrimaryKey_def orderlineKey_def tpcc_build_def word_le_nat_alt)
  show "i \<le> 100000 \<Longrightarrow> unat (stockKey wc i w) = unat w * 100000 + unat i"
    using b wn by (simp add: stockKey_def tpcc_build_def unat_word_ariths word_le_nat_alt)
  have "unat (w - 1) = unat w - 1" "unat (d - 1) = unat d - 1" using w d by (auto simp: unat_sub)
  moreover have "unat (a * 10 + e) = unat a * 10 + unat e" if "unat a \<le> 100000000" "unat e \<le> 10" for a e :: "64 word"
    using that by (simp add: unat_word_ariths)
  from this [of "w - 1" "d - 1"] calculation show "unat (d_to_part w d) = (unat w - 1) * 10 + (unat d - 1)"
    using wn dn unfolding d_to_part_def DIST_PER_WARE_def by linarith
qed

lemma one_dist: "1 \<in> {1..10 :: 64 word}"
  by simp

lemma item_entries_bounds:
  "tpcc_build cfg wc \<Longrightarrow> (k, p) \<in> item_entries cfg wc \<Longrightarrow>
     p < (if REPLICATE_ITEM cfg then MAX_SOCKETS cfg else 1) \<and> 0 \<le> unat k \<and> unat k < 0 + 110000"
  by (auto simp: item_entries_def tpcc_build_def word_le_nat_alt split: if_splits)

lemma wh_entries_bounds:
  assumes b: "tpcc_build cfg wc" and e: "(k, p) \<in> wh_entries wc"
  shows "p < unat (num_wh wc) \<and> wh_no wc p \<le> unat k \<and> unat k < wh_no wc p + 100"
  using e wh_part_unat [OF b] by (auto simp: wh_entries_def)

lemma dist_entries_bounds:
  assumes b: "tpcc_build cfg wc" and e: "(k, p) \<in> dist_entries wc"
  shows "p < unat (num_wh wc) \<and> wh_no wc p * 10 \<le> unat k \<and> unat k < wh_no wc p * 10 + 1000"
proof -
  obtain d w q where x: "k = distKey d w" "p = unat q" "w \<in> {1..num_wh wc}" "d \<in> {1..10}" "wh_to_part wc w = Some q"
    using e unfolding dist_entries_def by blast
  show ?thesis using wh_part_unat [OF b x(3,5)] unat_keys(1-3) [OF b x(3,4)] by (simp add: x(1,2))
qed

lemma cust_entries_bounds:
  assumes b: "tpcc_build cfg wc" and e: "(k, p) \<in> cust_entries wc"
  shows "p < unat (num_wh wc) \<and> wh_no wc p * 30000 + 3001 \<le> unat k \<and> unat k < wh_no wc p * 30000 + 3001 + 33000"
proof -
  obtain c d w q where x: "k = custKey wc c d w" "p = unat q" "w \<in> {1..num_wh wc}" "d \<in> {1..10}" "c \<in> {1..cust_per_dist wc}"
      "wh_to_part wc w = Some q"
    using e unfolding cust_entries_def by blast
  have c: "c \<le> 3000" "1 \<le> unat c" "unat c \<le> 3000" using x(5) b by (auto simp: tpcc_build_def word_le_nat_alt)
  show ?thesis using wh_part_unat [OF b x(3,6)] unat_keys(2,3) [OF b x(3,4)] unat_keys(4) [OF b x(3,4) c(1)] c(2,3)
    by (simp add: x(1,2))
qed

lemma stock_entries_bounds:
  assumes b: "tpcc_build cfg wc" and e: "(k, p) \<in> stock_entries wc"
  shows "p < unat (num_wh wc) \<and> wh_no wc p * 100000 \<le> unat k \<and> unat k < wh_no wc p * 100000 + 110000"
proof -
  obtain i w q where x: "k = stockKey wc i w" "p = unat q" "w \<in> {1..num_wh wc}" "i \<in> {1..max_items wc}" "wh_to_part wc w = Some q"
    using e unfolding stock_entries_def by blast
  have i: "i \<le> 100000" "unat i \<le> 100000" using x(4) b by (auto simp: tpcc_build_def word_le_nat_alt)
  show ?thesis using wh_part_unat [OF b x(3,5)] unat_keys(5) [OF b x(3) one_dist i(1)] i(2) by (simp add: x(1,2))
qed

text \<open>Partition \<open>(w - 1) * 10 + (d - 1)\<close> belongs to district \<open>d\<close> of warehouse \<open>w\<close>, whose number is eleven more.\<close>

lemma order_entries_bounds:
  assumes b: "tpcc_build cfg wc" and e: "(k, p) \<in> order_entries wc 24000"
  shows "p < unat (num_wh wc) * 10 \<and> (p + 11) * 3000 + 1 \<le> unat k \<and> unat k < (p + 11) * 3000 + 1 + 24000"
proof -
  obtain w d oid where x: "k = orderPrimaryKey wc w d oid" "p = unat (d_to_part w d)" "w \<in> {1..num_wh wc}" "d \<in> {1..10}" "oid \<in> {1..24000}"
    using e unfolding order_entries_def by blast
  have o: "oid \<le> 24001" "1 \<le> unat oid" "unat oid \<le> 24000" using x(5) by (auto simp: word_le_nat_alt)
  have w: "1 \<le> unat w" "unat w \<le> unat (num_wh wc)" using x(3) by (auto simp: word_le_nat_alt)
  have d: "1 \<le> unat d" "unat d \<le> 10" by (fact unat_keys(2,3) [OF b x(3,4)])+
  have "p + 11 = unat w * 10 + unat d" using w d by (simp add: x(2) unat_keys(7) [OF b x(3,4)] algebra_simps)
  then show ?thesis using w d unat_keys(6) [OF b x(3,4) o(1)] o(2,3) by (simp add: x(1))
qed

lemma order_collision:
  assumes b: "tpcc_build cfg wc" and ix: "indexes wl iname = Some (Perfect ix)" "unat (hp_cnt ix) = 24000"
  shows "\<not> perfect_for wl iname (order_entries wc 24001)"
proof
  assume "perfect_for wl iname (order_entries wc 24001)"
  then have inj: "inj_on (\<lambda>(k, p). (p, hp_hash ix k)) (order_entries wc 24001)" using ix by (simp add: perfect_for_def)
  have w: "1 \<in> {1..num_wh wc}" using b by (simp add: tpcc_build_def)
  have k: "unat (orderPrimaryKey wc 1 1 1) = 33001" "unat (orderPrimaryKey wc 1 1 24001) = 57001"
    using unat_keys(6) [OF b w one_dist, of 1] unat_keys(6) [OF b w one_dist, of 24001] by (simp_all add: word_le_nat_alt)
  then have "hp_hash ix (orderPrimaryKey wc 1 1 1) = hp_hash ix (orderPrimaryKey wc 1 1 24001)"
    using ix(2) by (simp add: hp_hash_def unat_mod_distrib)
  moreover have "(orderPrimaryKey wc 1 1 oid, unat (d_to_part 1 1)) \<in> order_entries wc 24001" if "oid \<in> {1..24001}" for oid
    using that w one_dist unfolding order_entries_def by blast
  ultimately have "orderPrimaryKey wc 1 1 1 = orderPrimaryKey wc 1 1 24001"
    using inj_onD [OF inj, of "(orderPrimaryKey wc 1 1 1, unat (d_to_part 1 1))" "(orderPrimaryKey wc 1 1 24001, unat (d_to_part 1 1))"]
    by (simp add: word_le_nat_alt)
  then show False using k by simp
qed

text \<open>
  C30. The perfect hash index needs one bucket per key of a partition, and the shipped sizes provide it.
  In the build with one partition per warehouse the file is read, and then for the items, warehouses,
  districts, customers and stock, and for the orders up to number 24000 of a district, every key has a
  partition and a bucket, and no two keys share both.  For the orders the bound is exact: order
  24001 of a district falls into the bucket of its order 1.
\<close>
theorem shipped_indexes_are_perfect:
  assumes b: "tpcc_build cfg wc" and f: "shipped files"
  shows "\<exists>wl'. init_schema cfg mem files schema_name wl = Some wl' \<and>
    perfect_for wl' ''ITEM_IDX'' (item_entries cfg wc) \<and> perfect_for wl' ''WAREHOUSE_IDX'' (wh_entries wc) \<and>
    perfect_for wl' ''DISTRICT_IDX'' (dist_entries wc) \<and> perfect_for wl' ''CUSTOMER_ID_IDX'' (cust_entries wc) \<and>
    perfect_for wl' ''STOCK_IDX'' (stock_entries wc) \<and> perfect_for wl' ''ORDER_IDX'' (order_entries wc 24000) \<and>
    \<not> perfect_for wl' ''ORDER_IDX'' (order_entries wc 24001)"
proof -
  obtain wl' where wl': "init_schema cfg mem files schema_name wl = Some wl'" "\<forall>d\<in>set full_schema_all_txn. decl_done cfg mem wl' d"
    by (rule read_shipped [OF f tpcc_build_parts_ok [OF b]])
  obtain n where n: "unat (num_wh wc) = n" "1 \<le> n" "n \<le> 100000000" using tpcc_build_parts [OF b] by metis
  have decl: "decl_done cfg mem wl' (Index_decl ''ITEM_IDX'' ''ITEM'' 110000)"
    "decl_done cfg mem wl' (Index_decl ''WAREHOUSE_IDX'' ''WAREHOUSE'' 100)"
    "decl_done cfg mem wl' (Index_decl ''DISTRICT_IDX'' ''DISTRICT'' 1000)"
    "decl_done cfg mem wl' (Index_decl ''CUSTOMER_ID_IDX'' ''CUSTOMER'' 33000)"
    "decl_done cfg mem wl' (Index_decl ''STOCK_IDX'' ''STOCK'' 110000)"
    "decl_done cfg mem wl' (Index_decl ''ORDER_IDX'' ''ORDER'' 24000)"
    using wl'(2) unfolding full_schema_all_txn_def by (simp_all only: list.set ball_simps simp_thms)
  note parts = index_parts_build [OF b n(1)]
  have "sc_perfect cfg" "0 < (if REPLICATE_ITEM cfg then MAX_SOCKETS cfg else 1)" "(if REPLICATE_ITEM cfg then MAX_SOCKETS cfg else 1) < 2 ^ 31"
    using b by (auto simp: tpcc_build_def)
  note build = this
  have "perfect_for wl' ''ITEM_IDX'' (item_entries cfg wc)"
    by (rule made_perfect [OF b decl(1) _ parts(6) build(2,3) _ _ item_entries_bounds [OF b]]) simp_all
  moreover have "perfect_for wl' ''WAREHOUSE_IDX'' (wh_entries wc)"
    by (rule made_perfect [OF b decl(2) _ parts(1) _ _ _ _ wh_entries_bounds [OF b, unfolded n(1)]]) (use n in simp_all)
  moreover have "perfect_for wl' ''DISTRICT_IDX'' (dist_entries wc)"
    by (rule made_perfect [OF b decl(3) _ parts(2) _ _ _ _ dist_entries_bounds [OF b, unfolded n(1)]]) (use n in simp_all)
  moreover have "perfect_for wl' ''CUSTOMER_ID_IDX'' (cust_entries wc)"
    by (rule made_perfect [OF b decl(4) _ parts(3) _ _ _ _ cust_entries_bounds [OF b, unfolded n(1)]]) (use n in simp_all)
  moreover have "perfect_for wl' ''STOCK_IDX'' (stock_entries wc)"
    by (rule made_perfect [OF b decl(5) _ parts(4) _ _ _ _ stock_entries_bounds [OF b, unfolded n(1)]]) (use n in simp_all)
  moreover have "perfect_for wl' ''ORDER_IDX'' (order_entries wc 24000)"
    by (rule made_perfect [OF b decl(6) _ parts(5) _ _ _ _ order_entries_bounds [OF b, unfolded n(1)]]) (use n in simp_all)
  moreover have "\<not> perfect_for wl' ''ORDER_IDX'' (order_entries wc 24001)"
  proof (rule made_index [OF build(1) _ parts(5) _ _ _ decl(6)])
    fix ix assume "indexes wl' ''ORDER_IDX'' = Some (Perfect ix)" "unat (hp_cnt ix) = 24000"
    then show ?thesis by (rule order_collision [OF b])
  qed (use n in simp_all)
  ultimately show ?thesis using wl'(1) by blast
qed

definition four_wh :: tpcc_cfg where
  "four_wh = demo_cfg\<lparr>num_wh := 4, part_cnt := 4, cust_per_dist := 3000, max_items := 100000\<rparr>"

definition four_parts :: schema_cfg where
  "four_parts = one_part\<lparr>g_part_cnt := 4\<rparr>"

theorem shipped_indexes_are_perfect_witness:
  "tpcc_build four_parts four_wh \<and> shipped (\<lambda>_. Some (concat (map print_decl full_schema_all_txn))) \<and>
   (\<exists>wl'. init_schema four_parts (\<lambda>_. demo_blank) (\<lambda>_. Some (concat (map print_decl full_schema_all_txn))) schema_name
        \<lparr>tables = Map.empty, indexes = Map.empty\<rparr> = Some wl' \<and>
      perfect_for wl' ''STOCK_IDX'' (stock_entries four_wh) \<and> (stockKey four_wh 100000 4, 0) \<in> stock_entries four_wh)"
proof -
  let ?files = "\<lambda>_ :: string. Some (concat (map print_decl full_schema_all_txn))"
  have b: "tpcc_build four_parts four_wh" by (simp add: tpcc_build_def four_parts_def four_wh_def one_part_def)
  have sh: "shipped ?files" by (simp add: shipped_def)
  have "wh_to_part four_wh 4 = Some 0" by (simp add: wh_to_part_def four_wh_def)
  moreover have "(4 :: 64 word) \<in> {1..num_wh four_wh}" "(100000 :: 64 word) \<in> {1..max_items four_wh}"
    by (simp_all add: four_wh_def)
  ultimately have "(stockKey four_wh 100000 4, 0) \<in> stock_entries four_wh"
    unfolding stock_entries_def mem_Collect_eq by (intro exI [of _ 100000] exI [of _ 4] exI [of _ "0 :: 64 word"]) simp
  then show ?thesis using b sh
    shipped_indexes_are_perfect [OF b sh, of "\<lambda>_. demo_blank" "\<lparr>tables = Map.empty, indexes = Map.empty\<rparr>"] by blast
qed

end
