(* ===== verification/Index_Btree.thy ===== *)
theory Index_Btree
  imports Index_Hash "HOL-Library.Monad_Syntax"
begin

text \<open>
  The B-tree index, storage/index_btree.h and index_btree.cpp, on nodes at addresses with arrays of fixed
  size and pointers to the parent.

  An address is a partition and a number; \<open>mem_allocator.alloc\<close> is not part of the model and hands out the
  next number in the partition it is called with.  The items of a key are a linked list in the source and a list here, as in
  Index_Hash.  The contents of fresh memory are the parameters \<open>junk_key\<close> and \<open>junk_cnt\<close>.  \<open>get_part_id\<close> of a
  node and of its array of keys are parameters too; the assertions on them are kept.

  \<open>None\<close> is a failed assertion, an access outside an array or through a pointer that is not one, or a loop
  that does not end.  There is one exception: the loop of \<open>insert_into_parent\<close> that looks for the place of a key reads
  the key behind the last before it tests the index, which in a full node lies one element behind
  the array; the model reads \<open>junk_key\<close> there, and no result depends on it.  The latches are modelled as one thread
  runs through them: a latch that is taken is waited for forever.
\<close>

section \<open>Nodes\<close>

definition BTREE_ORDER :: nat where
  "BTREE_ORDER = 16"

type_synonym bt_addr = "nat \<times> nat"

datatype bt_ptr = Null | Child bt_addr | Items "item_data list"

record bt_node =
  bt_keys :: "idx_key_t list"
  bt_pointers :: "bt_ptr list"
  is_leaf :: bool
  bt_parent :: "bt_addr option"
  num_keys :: nat
  bt_next :: "bt_addr option"
  bt_latch :: bool
  latch_type :: latch_t
  share_cnt :: UInt32

record bt_cfg =
  ENABLE_LATCH :: bool
  node_part :: "bt_addr \<Rightarrow> nat"
  keys_part :: "bt_addr \<Rightarrow> nat"
  junk_key :: idx_key_t
  junk_cnt :: UInt32

text \<open>\<open>bt_brk\<close> is the next number; \<open>bt_live\<close> marks the addresses of nodes.\<close>

record index_btree =
  bt_heap :: "bt_addr \<Rightarrow> bt_node"
  bt_live :: "bt_addr \<Rightarrow> bool"
  bt_brk :: nat
  roots :: "bt_addr list"
  cur_leaf_per_thd :: "bt_addr option list"
  cur_idx_per_thd :: "nat list"

definition arr_get :: "nat \<Rightarrow> 'a list \<Rightarrow> 'a option" where
  "arr_get i xs = (if i < length xs then Some (xs ! i) else None)"

definition arr_set :: "nat \<Rightarrow> 'a \<Rightarrow> 'a list \<Rightarrow> 'a list option" where
  "arr_set i x xs = (if i < length xs then Some (xs[i := x]) else None)"

definition bt_at :: "index_btree \<Rightarrow> bt_addr \<Rightarrow> bt_node option" where
  "bt_at ix a = (if bt_live ix a then Some (bt_heap ix a) else None)"

definition bt_put :: "bt_addr \<Rightarrow> bt_node \<Rightarrow> index_btree \<Rightarrow> index_btree option" where
  "bt_put a n ix = (if bt_live ix a then Some (ix\<lparr>bt_heap := (bt_heap ix)(a := n)\<rparr>) else None)"

fun as_child :: "bt_ptr \<Rightarrow> bt_addr option" where
  "as_child (Child a) = Some a"
| "as_child _ = None"

fun as_items :: "bt_ptr \<Rightarrow> item_data list option" where
  "as_items (Items v) = Some v"
| "as_items _ = None"

definition make_node :: "bt_cfg \<Rightarrow> nat \<Rightarrow> bool \<Rightarrow> index_btree \<Rightarrow> bt_addr \<times> index_btree" where
  "make_node cfg part leaf ix =
     (let a = (part, bt_brk ix);
          n = \<lparr>bt_keys = replicate (BTREE_ORDER - 1) (junk_key cfg), bt_pointers = replicate BTREE_ORDER Null, is_leaf = leaf,
               bt_parent = None, num_keys = 0, bt_next = None, bt_latch = False, latch_type = LATCH_NONE, share_cnt = junk_cnt cfg\<rparr>
      in (a, ix\<lparr>bt_heap := (bt_heap ix)(a := n), bt_live := (bt_live ix)(a := True), bt_brk := bt_brk ix + 1\<rparr>))"

definition make_lf :: "bt_cfg \<Rightarrow> nat \<Rightarrow> index_btree \<Rightarrow> bt_addr \<times> index_btree" where
  "make_lf cfg part ix = make_node cfg part True ix"

definition make_nl :: "bt_cfg \<Rightarrow> nat \<Rightarrow> index_btree \<Rightarrow> bt_addr \<times> index_btree" where
  "make_nl cfg part ix = make_node cfg part False ix"

primrec make_roots :: "bt_cfg \<Rightarrow> nat \<Rightarrow> index_btree \<Rightarrow> index_btree" where
  "make_roots cfg 0 ix = ix"
| "make_roots cfg (Suc p) ix =
     (case make_lf cfg p (make_roots cfg p ix) of (a, ix') \<Rightarrow> ix'\<lparr>roots := roots ix' @ [a]\<rparr>)"

definition bt_init :: "bt_cfg \<Rightarrow> nat \<Rightarrow> nat \<Rightarrow> (bt_addr \<Rightarrow> bt_node) \<Rightarrow> index_btree" where
  "bt_init cfg part_cnt thread_cnt mem =
     make_roots cfg part_cnt
       \<lparr>bt_heap = mem, bt_live = (\<lambda>_. False), bt_brk = 0, roots = [],
        cur_leaf_per_thd = replicate thread_cnt None, cur_idx_per_thd = replicate thread_cnt 0\<rparr>"

definition find_root :: "nat \<Rightarrow> index_btree \<Rightarrow> bt_addr option" where
  "find_root part ix = arr_get part (roots ix)"

definition cut :: "nat \<Rightarrow> nat" where
  "cut l = (if l mod 2 = 0 then l div 2 else l div 2 + 1)"

section \<open>Latches\<close>

definition latch_node :: "bt_cfg \<Rightarrow> bt_addr \<Rightarrow> latch_t \<Rightarrow> index_btree \<Rightarrow> (bool \<times> index_btree) option" where
  "latch_node cfg a ty ix =
     (if \<not> ENABLE_LATCH cfg then Some (True, ix)
      else do {
        n \<leftarrow> bt_at ix a;
        assert_then (\<not> bt_latch n)
          (if latch_type n = LATCH_NONE \<or> latch_type n = LATCH_SH \<and> ty = LATCH_SH then
             assert_then (latch_type n = LATCH_NONE \<longrightarrow> share_cnt n = 0)
               (map_option (Pair True)
                 (bt_put a (n\<lparr>latch_type := ty, share_cnt := (if ty = LATCH_SH then share_cnt n + 1 else share_cnt n)\<rparr>) ix))
           else Some (False, ix))
      })"

definition bt_release_latch :: "bt_cfg \<Rightarrow> bt_addr \<Rightarrow> index_btree \<Rightarrow> (latch_t \<times> index_btree) option" where
  "bt_release_latch cfg a ix =
     (if \<not> ENABLE_LATCH cfg then Some (LATCH_SH, ix)
      else do {
        n \<leftarrow> bt_at ix a;
        assert_then (\<not> bt_latch n \<and> latch_type n \<noteq> LATCH_NONE)
          (map_option (Pair (latch_type n))
            (bt_put a
              (if latch_type n = LATCH_EX then n\<lparr>latch_type := LATCH_NONE\<rparr>
               else n\<lparr>share_cnt := share_cnt n - 1, latch_type := (if share_cnt n - 1 = 0 then LATCH_NONE else latch_type n)\<rparr>) ix))
      })"

definition upgrade_latch :: "bt_cfg \<Rightarrow> bt_addr \<Rightarrow> index_btree \<Rightarrow> (RC \<times> index_btree) option" where
  "upgrade_latch cfg a ix =
     (if \<not> ENABLE_LATCH cfg then Some (RCOK, ix)
      else do {
        n \<leftarrow> bt_at ix a;
        assert_then (\<not> bt_latch n \<and> latch_type n = LATCH_SH)
          (if 1 < share_cnt n then Some (Abort, ix)
           else map_option (Pair RCOK) (bt_put a (n\<lparr>latch_type := LATCH_EX, share_cnt := 0\<rparr>) ix))
      })"

partial_function (option) bt_cleanup_loop :: "bt_cfg \<Rightarrow> bt_addr \<Rightarrow> bt_addr \<Rightarrow> index_btree \<Rightarrow> index_btree option" where
  "bt_cleanup_loop cfg a last_ex ix = do {
     n \<leftarrow> bt_at ix a;
     p \<leftarrow> bt_parent n;
     r \<leftarrow> bt_release_latch cfg p ix;
     if p = last_ex then Some (snd r) else bt_cleanup_loop cfg p last_ex (snd r)
   }"

definition bt_cleanup :: "bt_cfg \<Rightarrow> bt_addr \<Rightarrow> bt_addr option \<Rightarrow> index_btree \<Rightarrow> index_btree option" where
  "bt_cleanup cfg a last_ex ix = (case last_ex of None \<Rightarrow> Some ix | Some l \<Rightarrow> bt_cleanup_loop cfg a l ix)"

section \<open>Search\<close>

text \<open>The first position whose key is larger; \<open>n\<close> is the number of keys.\<close>

function find_slot :: "idx_key_t \<Rightarrow> idx_key_t list \<Rightarrow> nat \<Rightarrow> nat \<Rightarrow> nat option" where
  "find_slot key ks n i =
     (if i < n then do { k \<leftarrow> arr_get i ks; if key < k then Some i else find_slot key ks n (i + 1) } else Some i)"
  by auto
termination
  by (relation "measure (\<lambda>(key, ks, n, i). n - i)") auto

function leaf_has_key :: "idx_key_t \<Rightarrow> idx_key_t list \<Rightarrow> nat \<Rightarrow> nat \<Rightarrow> nat option option" where
  "leaf_has_key key ks n i =
     (if i < n then do { k \<leftarrow> arr_get i ks; if k = key then Some (Some i) else leaf_has_key key ks n (i + 1) } else Some None)"
  by auto
termination
  by (relation "measure (\<lambda>(key, ks, n, i). n - i)") auto

definition child_for :: "idx_key_t \<Rightarrow> bt_node \<Rightarrow> bt_addr option" where
  "child_for key n = do {
     i \<leftarrow> find_slot key (bt_keys n) (num_keys n) 0;
     p \<leftarrow> arr_get i (bt_pointers n);
     as_child p
   }"

text \<open>
  Leaving after a latch was refused: the nodes in \<open>held\<close> and those from \<open>c\<close> up to \<open>last_ex\<close> are released.
  The result is the code, the leaf if there is one, and the last node latched exclusively.
\<close>

definition leave_latches :: "bt_cfg \<Rightarrow> bt_addr list \<Rightarrow> bt_addr \<Rightarrow> bt_addr option \<Rightarrow> bt_addr option \<Rightarrow> index_btree
    \<Rightarrow> (RC \<times> bt_addr option \<times> bt_addr option \<times> index_btree) option" where
  "leave_latches cfg held c last_ex last_ex' ix = do {
     ix1 \<leftarrow> fold (\<lambda>a m. do { i \<leftarrow> m; r \<leftarrow> bt_release_latch cfg a i; Some (snd r) }) held (Some ix);
     ix2 \<leftarrow> bt_cleanup cfg c last_ex ix1;
     Some (Abort, None, last_ex', ix2)
   }"

partial_function (option) find_leaf_loop :: "bt_cfg \<Rightarrow> nat \<Rightarrow> idx_key_t \<Rightarrow> idx_acc_t \<Rightarrow> bt_addr \<Rightarrow> bt_addr option \<Rightarrow> index_btree
    \<Rightarrow> (RC \<times> bt_addr option \<times> bt_addr option \<times> index_btree) option" where
  "find_leaf_loop cfg part key acc c last_ex ix = do {
     n \<leftarrow> bt_at ix c;
     if is_leaf n then
       (if acc = INDEX_INSERT then do {
          (rc, ix1) \<leftarrow> upgrade_latch cfg c ix;
          if rc \<noteq> RCOK then leave_latches cfg [c] c last_ex last_ex ix1 else Some (RCOK, Some c, last_ex, ix1)
        } else Some (RCOK, Some c, last_ex, ix))
     else if node_part cfg c \<noteq> part \<or> keys_part cfg c \<noteq> part then None
     else do {
         child \<leftarrow> child_for key n;
         (ok, ix1) \<leftarrow> latch_node cfg child LATCH_SH ix;
         if \<not> ok then leave_latches cfg [c] c last_ex None ix1
         else do {
           cn \<leftarrow> bt_at ix1 child;
           if acc = INDEX_INSERT then
             (if num_keys cn = BTREE_ORDER - 1 then do {
                (rc, ix2) \<leftarrow> upgrade_latch cfg c ix1;
                if rc \<noteq> RCOK then leave_latches cfg [c, child] c last_ex None ix2
                else find_leaf_loop cfg part key acc child (if last_ex = None then Some c else last_ex) ix2
              } else do {
                ix2 \<leftarrow> bt_cleanup cfg c last_ex ix1;
                (ty, ix3) \<leftarrow> bt_release_latch cfg c ix2;
                find_leaf_loop cfg part key acc child None ix3
              })
           else do {
             (ty, ix2) \<leftarrow> bt_release_latch cfg c ix1;
             find_leaf_loop cfg part key acc child last_ex ix2
           }
         }
       }
   }"

text \<open>Without latches, for \<open>INDEX_NONE\<close>.\<close>

partial_function (option) find_leaf_none :: "idx_key_t \<Rightarrow> bt_addr \<Rightarrow> index_btree \<Rightarrow> bt_addr option" where
  "find_leaf_none key c ix = do {
     n \<leftarrow> bt_at ix c;
     if is_leaf n then Some c else do { child \<leftarrow> child_for key n; find_leaf_none key child ix }
   }"

definition find_leaf :: "bt_cfg \<Rightarrow> nat \<Rightarrow> idx_key_t \<Rightarrow> idx_acc_t \<Rightarrow> index_btree
    \<Rightarrow> (RC \<times> bt_addr option \<times> bt_addr option \<times> index_btree) option" where
  "find_leaf cfg part key acc ix = do {
     c \<leftarrow> find_root part ix;
     if acc = INDEX_NONE then do { l \<leftarrow> find_leaf_none key c ix; Some (RCOK, Some l, None, ix) }
     else do {
       (ok, ix1) \<leftarrow> latch_node cfg c LATCH_SH ix;
       if \<not> ok then Some (Abort, None, None, ix1) else find_leaf_loop cfg part key acc c None ix1
     }
   }"

text \<open>
  \<open>index_read\<close> ignores the code of \<open>find_leaf\<close>: when there is no leaf, it goes on with a pointer that was
  never set.  The result is the list of items of the key.
\<close>

definition bt_index_read :: "bt_cfg \<Rightarrow> idx_key_t \<Rightarrow> nat \<Rightarrow> nat \<Rightarrow> index_btree \<Rightarrow> (item_data list \<times> index_btree) option" where
  "bt_index_read cfg key thd part ix = do {
     (rc, leaf, last_ex, ix1) \<leftarrow> find_leaf cfg part key INDEX_READ ix;
     l \<leftarrow> leaf;
     n \<leftarrow> bt_at ix1 l;
     found \<leftarrow> leaf_has_key key (bt_keys n) (num_keys n) 0;
     i \<leftarrow> found;
     p \<leftarrow> arr_get i (bt_pointers n);
     v \<leftarrow> as_items p;
     (ty, ix2) \<leftarrow> bt_release_latch cfg l ix1;
     cl \<leftarrow> arr_set thd (Some l) (cur_leaf_per_thd ix2);
     ci \<leftarrow> arr_set thd i (cur_idx_per_thd ix2);
     Some (v, ix2\<lparr>cur_leaf_per_thd := cl, cur_idx_per_thd := ci\<rparr>)
   }"

text \<open>
  \<open>index_next\<close>: the items at the next position, or none.  The memory of a cursor is not initialised in the
  source; here it is \<open>None\<close> until a read sets it.
\<close>

definition bt_index_next :: "nat \<Rightarrow> bool \<Rightarrow> index_btree \<Rightarrow> (item_data list option \<times> index_btree) option" where
  "bt_index_next thd samekey ix = do {
     idx \<leftarrow> arr_get thd (cur_idx_per_thd ix);
     leaf \<leftarrow> arr_get thd (cur_leaf_per_thd ix);
     l \<leftarrow> leaf;
     n \<leftarrow> bt_at ix l;
     cur_key \<leftarrow> arr_get idx (bt_keys n);
     let (leaf', idx') = (if num_keys n \<le> idx + 1 then (bt_next n, 0) else (Some l, idx + 1));
     let ix' = ix\<lparr>cur_leaf_per_thd := (cur_leaf_per_thd ix)[thd := leaf'], cur_idx_per_thd := (cur_idx_per_thd ix)[thd := idx']\<rparr>;
     case leaf' of
       None \<Rightarrow> Some (None, ix')
     | Some l' \<Rightarrow> do {
         n' \<leftarrow> bt_at ix l';
         differs \<leftarrow> assert_then (is_leaf n')
           (if samekey then map_option (\<lambda>k. k \<noteq> cur_key) (arr_get idx' (bt_keys n')) else Some False);
         if differs then Some (None, ix')
         else do { p \<leftarrow> arr_get idx' (bt_pointers n'); v \<leftarrow> as_items p; Some (Some v, ix') }
       }
   }"

section \<open>Insertion\<close>

subsection \<open>Arrays\<close>

text \<open>The loop of \<open>insert_into_leaf\<close> that makes room, on the two arrays.\<close>

fun shift_leaf :: "nat \<Rightarrow> nat \<Rightarrow> 'a list \<Rightarrow> 'a list option" where
  "shift_leaf i ip xs =
     (if ip < i then do { x \<leftarrow> arr_get (i - 1) xs; xs' \<leftarrow> arr_set i x xs; shift_leaf (i - 1) ip xs' } else Some xs)"

function leaf_slot :: "idx_key_t \<Rightarrow> idx_key_t list \<Rightarrow> nat \<Rightarrow> nat \<Rightarrow> nat option" where
  "leaf_slot key ks n i =
     (if i < n then do { k \<leftarrow> arr_get i ks; if k < key then leaf_slot key ks n (i + 1) else Some i } else Some i)"
  by auto
termination
  by (relation "measure (\<lambda>(key, ks, n, i). n - i)") auto

text \<open>Copying with a gap: \<open>n\<close> elements from position \<open>i\<close> on, to position \<open>j\<close> on, leaving out position \<open>gap\<close>.\<close>

primrec copy_gap :: "nat \<Rightarrow> nat \<Rightarrow> nat \<Rightarrow> nat \<Rightarrow> 'a list \<Rightarrow> 'a list \<Rightarrow> 'a list option" where
  "copy_gap 0 gap i j src dst = Some dst"
| "copy_gap (Suc n) gap i j src dst = do {
     let j' = (if j = gap then j + 1 else j);
     x \<leftarrow> arr_get i src;
     dst' \<leftarrow> arr_set j' x dst;
     copy_gap n gap (i + 1) (j' + 1) src dst'
   }"

primrec copy_range :: "nat \<Rightarrow> nat \<Rightarrow> nat \<Rightarrow> 'a list \<Rightarrow> 'a list \<Rightarrow> 'a list option" where
  "copy_range 0 i j src dst = Some dst"
| "copy_range (Suc n) i j src dst = do {
     x \<leftarrow> arr_get i src;
     dst' \<leftarrow> arr_set j x dst;
     copy_range n (i + 1) (j + 1) src dst'
   }"

primrec null_range :: "nat \<Rightarrow> nat \<Rightarrow> bt_ptr list \<Rightarrow> bt_ptr list option" where
  "null_range 0 i ps = Some ps"
| "null_range (Suc n) i ps = do { ps' \<leftarrow> arr_set i Null ps; null_range n (i + 1) ps' }"

text \<open>
  The loops of \<open>insert_into_parent\<close>.  The index of the second is a \<open>UInt32\<close> that counts down, so with
  \<open>idx = 0\<close> its condition never fails.
\<close>

function parent_slot :: "idx_key_t \<Rightarrow> idx_key_t \<Rightarrow> idx_key_t list \<Rightarrow> nat \<Rightarrow> nat \<Rightarrow> nat" where
  "parent_slot junk key ks n i =
     (if (if i < length ks then ks ! i else junk) < key \<and> i < n then parent_slot junk key ks n (i + 1) else i)"
  by auto
termination
  by (relation "measure (\<lambda>(junk, key, ks, n, i). n - i)") auto

partial_function (option) parent_shift :: "UInt32 \<Rightarrow> UInt32 \<Rightarrow> idx_key_t list \<Rightarrow> bt_ptr list \<Rightarrow> (idx_key_t list \<times> bt_ptr list) option" where
  "parent_shift i idx ks ps =
     (if idx \<le> i then do {
        k \<leftarrow> arr_get (unat i) ks;
        ks' \<leftarrow> arr_set (unat (i + 1)) k ks;
        p \<leftarrow> arr_get (unat (i + 1)) ps;
        ps' \<leftarrow> arr_set (unat (i + 2)) p ps;
        parent_shift (i - 1) idx ks' ps'
      } else Some (ks, ps))"

subsection \<open>Leaves and parents\<close>

definition insert_into_leaf :: "bt_addr \<Rightarrow> idx_key_t \<Rightarrow> item_data \<Rightarrow> index_btree \<Rightarrow> index_btree option" where
  "insert_into_leaf l key item ix = do {
     n \<leftarrow> bt_at ix l;
     found \<leftarrow> leaf_has_key key (bt_keys n) (num_keys n) 0;
     case found of
       Some i \<Rightarrow> do {
         p \<leftarrow> arr_get i (bt_pointers n);
         v \<leftarrow> as_items p;
         bt_put l (n\<lparr>bt_pointers := (bt_pointers n)[i := Items (item # v)]\<rparr>) ix
       }
     | None \<Rightarrow> do {
         ip \<leftarrow> leaf_slot key (bt_keys n) (num_keys n) 0;
         ks \<leftarrow> shift_leaf (num_keys n) ip (bt_keys n);
         ps \<leftarrow> shift_leaf (num_keys n) ip (bt_pointers n);
         ks' \<leftarrow> arr_set ip key ks;
         ps' \<leftarrow> arr_set ip (Items [item]) ps;
         assert_then (num_keys n + 1 < BTREE_ORDER)
           (bt_put l (n\<lparr>bt_keys := ks', bt_pointers := ps', num_keys := num_keys n + 1\<rparr>) ix)
       }
   }"

definition insert_into_new_root :: "bt_cfg \<Rightarrow> nat \<Rightarrow> bt_addr \<Rightarrow> idx_key_t \<Rightarrow> bt_addr \<Rightarrow> index_btree \<Rightarrow> index_btree option" where
  "insert_into_new_root cfg part left key right ix =
     (case make_nl cfg part ix of (r, ix1) \<Rightarrow> do {
        n \<leftarrow> bt_at ix1 r;
        ks \<leftarrow> arr_set 0 key (bt_keys n);
        ps \<leftarrow> arr_set 0 (Child left) (bt_pointers n);
        ps' \<leftarrow> arr_set 1 (Child right) ps;
        ix2 \<leftarrow> bt_put r (n\<lparr>bt_keys := ks, bt_pointers := ps', num_keys := num_keys n + 1, bt_parent := None\<rparr>) ix1;
        ln \<leftarrow> bt_at ix2 left;
        ix3 \<leftarrow> bt_put left (ln\<lparr>bt_parent := Some r\<rparr>) ix2;
        rn \<leftarrow> bt_at ix3 right;
        ix4 \<leftarrow> bt_put right (rn\<lparr>bt_parent := Some r\<rparr>) ix3;
        ln' \<leftarrow> bt_at ix4 left;
        ix5 \<leftarrow> bt_put left (ln'\<lparr>bt_next := Some right\<rparr>) ix4;
        rs \<leftarrow> arr_set part r (roots ix5);
        Some (ix5\<lparr>roots := rs\<rparr>)
      })"

primrec set_parents :: "nat \<Rightarrow> nat \<Rightarrow> bt_ptr list \<Rightarrow> bt_addr \<Rightarrow> index_btree \<Rightarrow> index_btree option" where
  "set_parents 0 i ps a ix = Some ix"
| "set_parents (Suc m) i ps a ix = do {
     p \<leftarrow> arr_get i ps;
     c \<leftarrow> as_child p;
     n \<leftarrow> bt_at ix c;
     ix' \<leftarrow> bt_put c (n\<lparr>bt_parent := Some a\<rparr>) ix;
     set_parents m (i + 1) ps a ix'
   }"

text \<open>\<open>split_nl_insert\<close> up to its last call: the middle key and the new node.\<close>

definition split_nl :: "bt_cfg \<Rightarrow> nat \<Rightarrow> bt_addr \<Rightarrow> nat \<Rightarrow> idx_key_t \<Rightarrow> bt_addr \<Rightarrow> index_btree
    \<Rightarrow> (idx_key_t \<times> bt_addr \<times> index_btree) option" where
  "split_nl cfg part old left_index key right ix =
     (case make_node cfg part False ix of (new, ix1) \<Rightarrow> do {
        on \<leftarrow> bt_at ix1 old;
        tp \<leftarrow> copy_gap (num_keys on + 1) (left_index + 1) 0 0 (bt_pointers on) (replicate (BTREE_ORDER + 1) Null);
        tk \<leftarrow> copy_gap (num_keys on) left_index 0 0 (bt_keys on) (replicate BTREE_ORDER (junk_key cfg));
        tp' \<leftarrow> arr_set (left_index + 1) (Child right) tp;
        tk' \<leftarrow> arr_set left_index key tk;
        let split = cut BTREE_ORDER;
        op \<leftarrow> copy_range (split - 1) 0 0 tp' (bt_pointers on);
        ok \<leftarrow> copy_range (split - 1) 0 0 tk' (bt_keys on);
        pm \<leftarrow> arr_get (split - 1) tp';
        op' \<leftarrow> arr_set (split - 1) pm op;
        k_prime \<leftarrow> arr_get (split - 1) tk';
        nn \<leftarrow> bt_at ix1 new;
        np \<leftarrow> copy_range (BTREE_ORDER - split) split 0 tp' (bt_pointers nn);
        nk \<leftarrow> copy_range (BTREE_ORDER - split) split 0 tk' (bt_keys nn);
        pl \<leftarrow> arr_get BTREE_ORDER tp';
        np' \<leftarrow> arr_set (BTREE_ORDER - split) pl np;
        ix2 \<leftarrow> assert_then (split - 1 < BTREE_ORDER)
          (bt_put old (on\<lparr>bt_keys := ok, bt_pointers := op', num_keys := split - 1, bt_next := Some new\<rparr>) ix1);
        ix3 \<leftarrow> bt_put new (nn\<lparr>bt_keys := nk, bt_pointers := np', num_keys := BTREE_ORDER - split, bt_next := bt_next on,
                 bt_parent := bt_parent on\<rparr>) ix2;
        ix4 \<leftarrow> set_parents (BTREE_ORDER - split + 1) 0 np' new ix3;
        Some (k_prime, new, ix4)
      })"

partial_function (option) insert_into_parent :: "bt_cfg \<Rightarrow> nat \<Rightarrow> bt_addr \<Rightarrow> idx_key_t \<Rightarrow> bt_addr \<Rightarrow> index_btree \<Rightarrow> index_btree option" where
  "insert_into_parent cfg part left key right ix = do {
     ln \<leftarrow> bt_at ix left;
     (case bt_parent ln of
        None \<Rightarrow> insert_into_new_root cfg part left key right ix
      | Some parent \<Rightarrow> do {
          pn \<leftarrow> bt_at ix parent;
          let idx = parent_slot (junk_key cfg) key (bt_keys pn) (num_keys pn) 0;
          if num_keys pn < BTREE_ORDER - 1 then do {
            (ks, ps) \<leftarrow> parent_shift (of_nat (num_keys pn) - 1) (of_nat idx) (bt_keys pn) (bt_pointers pn);
            ks' \<leftarrow> arr_set idx key ks;
            ps' \<leftarrow> arr_set (idx + 1) (Child right) ps;
            bt_put parent (pn\<lparr>bt_keys := ks', bt_pointers := ps', num_keys := num_keys pn + 1\<rparr>) ix
          } else do {
            (k_prime, new, ix') \<leftarrow> split_nl cfg part parent idx key right ix;
            insert_into_parent cfg part parent k_prime new ix'
          }
        })
   }"

text \<open>\<open>split_lf_insert\<close> up to its last call: the first key of the new leaf, and the new leaf.\<close>

definition split_lf :: "bt_cfg \<Rightarrow> nat \<Rightarrow> bt_addr \<Rightarrow> idx_key_t \<Rightarrow> item_data \<Rightarrow> index_btree \<Rightarrow> (idx_key_t \<times> bt_addr \<times> index_btree) option" where
  "split_lf cfg part leaf key item ix =
     (case make_lf cfg part ix of (new, ix1) \<Rightarrow> do {
        n \<leftarrow> bt_at ix1 leaf;
        ins \<leftarrow> assert_then (num_keys n = BTREE_ORDER - 1) (leaf_slot key (bt_keys n) (BTREE_ORDER - 1) 0);
        tk \<leftarrow> copy_gap (num_keys n) ins 0 0 (bt_keys n) (replicate BTREE_ORDER (junk_key cfg));
        tp \<leftarrow> copy_gap (num_keys n) ins 0 0 (bt_pointers n) (replicate BTREE_ORDER Null);
        tk' \<leftarrow> arr_set ins key tk;
        tp' \<leftarrow> arr_set ins (Items [item]) tp;
        let split = cut (BTREE_ORDER - 1);
        ok \<leftarrow> copy_range split 0 0 tk' (bt_keys n);
        op \<leftarrow> copy_range split 0 0 tp' (bt_pointers n);
        nn \<leftarrow> bt_at ix1 new;
        nk \<leftarrow> copy_range (BTREE_ORDER - split) split 0 tk' (bt_keys nn);
        np \<leftarrow> copy_range (BTREE_ORDER - split) split 0 tp' (bt_pointers nn);
        op' \<leftarrow> null_range (BTREE_ORDER - 1 - split) split op;
        np' \<leftarrow> null_range (BTREE_ORDER - 1 - (BTREE_ORDER - split)) (BTREE_ORDER - split) np;
        ix2 \<leftarrow> assert_then (split < BTREE_ORDER)
          (bt_put leaf (n\<lparr>bt_keys := ok, bt_pointers := op', num_keys := split, bt_next := Some new\<rparr>) ix1);
        ix3 \<leftarrow> bt_put new (nn\<lparr>bt_keys := nk, bt_pointers := np', num_keys := BTREE_ORDER - split, bt_next := bt_next n,
                 bt_parent := bt_parent n\<rparr>) ix2;
        new_key \<leftarrow> arr_get 0 nk;
        Some (new_key, new, ix3)
      })"

definition split_lf_insert :: "bt_cfg \<Rightarrow> nat \<Rightarrow> bt_addr \<Rightarrow> idx_key_t \<Rightarrow> item_data \<Rightarrow> index_btree \<Rightarrow> index_btree option" where
  "split_lf_insert cfg part leaf key item ix = do {
     (new_key, new, ix') \<leftarrow> split_lf cfg part leaf key item ix;
     insert_into_parent cfg part leaf new_key new ix'
   }"

text \<open>The nodes from the leaf up to the last one latched exclusively; there is room for a hundred.\<close>

partial_function (option) ex_path :: "bt_addr \<Rightarrow> bt_addr \<Rightarrow> bt_addr list \<Rightarrow> index_btree \<Rightarrow> bt_addr list option" where
  "ex_path a last_ex ex ix =
     (if a = last_ex then Some (ex @ [last_ex])
      else do {
        n \<leftarrow> bt_at ix a;
        p \<leftarrow> bt_parent n;
        if length ex + 1 < 100 then ex_path p last_ex (ex @ [a]) ix else None
      })"

definition bt_index_insert :: "bt_cfg \<Rightarrow> idx_key_t \<Rightarrow> item_data \<Rightarrow> nat \<Rightarrow> index_btree \<Rightarrow> index_btree option" where
  "bt_index_insert cfg key item part ix = do {
     (rc, leaf, last_ex, ix1) \<leftarrow> find_leaf cfg part key INDEX_INSERT ix;
     l \<leftarrow> assert_then (rc = RCOK) leaf;
     ex \<leftarrow> (case last_ex of None \<Rightarrow> Some [l] | Some e \<Rightarrow> ex_path l e [] ix1);
     n \<leftarrow> bt_at ix1 l;
     found \<leftarrow> leaf_has_key key (bt_keys n) (num_keys n) 0;
     ix2 \<leftarrow> (if num_keys n < BTREE_ORDER - 1 \<or> found \<noteq> None then insert_into_leaf l key item ix1
             else split_lf_insert cfg part l key item ix1);
     fold (\<lambda>a m. do { i \<leftarrow> m; r \<leftarrow> bt_release_latch cfg a i; Some (snd r) }) ex (Some ix2)
   }"

text \<open>\<open>start_new_tree\<close>, which nothing calls.\<close>

definition start_new_tree :: "bt_cfg \<Rightarrow> nat \<Rightarrow> idx_key_t \<Rightarrow> item_data \<Rightarrow> index_btree \<Rightarrow> index_btree option" where
  "start_new_tree cfg part key item ix =
     (if roots ix = [] then None
      else case make_lf cfg part ix of (a, ix1) \<Rightarrow> do {
        rs \<leftarrow> arr_set (part mod length (roots ix)) a (roots ix1);
        n \<leftarrow> bt_at ix1 a;
        ks \<leftarrow> arr_set 0 key (bt_keys n);
        ps \<leftarrow> arr_set 0 (Items [item]) (bt_pointers n);
        bt_put a (n\<lparr>bt_keys := ks, bt_pointers := ps, bt_parent := None, num_keys := num_keys n + 1\<rparr>) (ix1\<lparr>roots := rs\<rparr>)
      })"

text \<open>A sequence of insertions.\<close>

fun bt_inserts :: "bt_cfg \<Rightarrow> (nat \<times> idx_key_t \<times> item_data) list \<Rightarrow> index_btree \<Rightarrow> index_btree option" where
  "bt_inserts cfg [] ix = Some ix"
| "bt_inserts cfg ((part, key, item) # ops) ix = Option.bind (bt_index_insert cfg key item part ix) (bt_inserts cfg ops)"

declare find_slot.simps [simp del] leaf_has_key.simps [simp del] leaf_slot.simps [simp del] parent_slot.simps [simp del]
  shift_leaf.simps [simp del]

end
