(* ===== verification/Btree_Arrays.thy ===== *)
theory Btree_Arrays
  imports Index_Btree
begin

text \<open>
  What the loops of the B-tree do to its arrays: searching a prefix, making room, copying with a gap and
  copying a part, each as an equation on lists.
\<close>

section \<open>Searching\<close>

lemma arr_get_Some [simp]: "i < length xs \<Longrightarrow> arr_get i xs = Some (xs ! i)"
  by (simp add: arr_get_def)

lemma arr_set_Some [simp]: "i < length xs \<Longrightarrow> arr_set i x xs = Some (xs[i := x])"
  by (simp add: arr_set_def)

lemma drop_take_Suc: "i < n \<Longrightarrow> n \<le> length xs \<Longrightarrow> drop i (take n xs) = xs ! i # drop (Suc i) (take n xs)"
  by (subst Cons_nth_drop_Suc [symmetric]) auto

lemma find_slot_eq:
  "n \<le> length ks \<Longrightarrow> i \<le> n \<Longrightarrow> find_slot key ks n i = Some (i + length (takeWhile (\<lambda>k. \<not> key < k) (drop i (take n ks))))"
proof (induction key ks n i rule: find_slot.induct)
  case (1 key ks n i)
  then show ?case by (subst find_slot.simps) (auto simp: drop_take_Suc)
qed

lemma leaf_slot_eq:
  "n \<le> length ks \<Longrightarrow> i \<le> n \<Longrightarrow> leaf_slot key ks n i = Some (i + length (takeWhile (\<lambda>k. k < key) (drop i (take n ks))))"
proof (induction key ks n i rule: leaf_slot.induct)
  case (1 key ks n i)
  then show ?case by (subst leaf_slot.simps) (auto simp: drop_take_Suc)
qed

lemma leaf_has_key_eq:
  "n \<le> length ks \<Longrightarrow> i \<le> n \<Longrightarrow> leaf_has_key key ks n i =
     Some (if key \<in> set (drop i (take n ks)) then Some (i + length (takeWhile (\<lambda>k. k \<noteq> key) (drop i (take n ks)))) else None)"
proof (induction key ks n i rule: leaf_has_key.induct)
  case (1 key ks n i)
  then show ?case by (subst leaf_has_key.simps) (auto simp: drop_take_Suc)
qed

lemma parent_slot_eq:
  "n \<le> length ks \<Longrightarrow> i \<le> n \<Longrightarrow> parent_slot junk key ks n i = i + length (takeWhile (\<lambda>k. k < key) (drop i (take n ks)))"
proof (induction junk key ks n i rule: parent_slot.induct)
  case (1 junk key ks n i)
  then show ?case by (cases "i < n"; subst parent_slot.simps) (auto simp: drop_take_Suc)
qed

section \<open>Making room\<close>

definition insert_at :: "nat \<Rightarrow> 'a \<Rightarrow> 'a list \<Rightarrow> 'a list" where
  "insert_at i x xs = take i xs @ x # drop i xs"

lemma length_insert_at [simp]: "i \<le> length xs \<Longrightarrow> length (insert_at i x xs) = Suc (length xs)"
  by (simp add: insert_at_def)

lemma nth_insert_at:
  "i \<le> length xs \<Longrightarrow> k \<le> length xs \<Longrightarrow> insert_at i x xs ! k = (if k < i then xs ! k else if k = i then x else xs ! (k - 1))"
  by (auto simp: insert_at_def nth_append nth_Cons' not_less Suc_diff_le)

lemma insert_at_append [simp]: "insert_at (length xs) x (xs @ ys) = xs @ x # ys"
  by (simp add: insert_at_def)

lemma map_insert_at: "map f (insert_at i x xs) = insert_at i (f x) (map f xs)"
  by (simp add: insert_at_def take_map drop_map)

lemma eq_insert_atI:
  assumes "length ys = Suc n" "i \<le> n" "n \<le> length xs" "\<And>k. k < i \<Longrightarrow> ys ! k = xs ! k" "ys ! i = x" "\<And>k. i \<le> k \<Longrightarrow> k < n \<Longrightarrow> ys ! Suc k = xs ! k"
  shows "ys = insert_at i x (take n xs)"
proof (rule nth_equalityI)
  show "length ys = length (insert_at i x (take n xs))" using assms(1-3) by simp
  fix k assume "k < length ys"
  then have k: "k \<le> n" using assms(1) by simp
  consider "k < i" | "k = i" | "i < k" by linarith
  then show "ys ! k = insert_at i x (take n xs) ! k"
  proof cases
    case 3
    then obtain j where "k = Suc j" by (cases k) auto
    then show ?thesis using 3 k assms(2,3,6) by (simp add: nth_insert_at)
  qed (use k assms(2-5) in \<open>simp_all add: nth_insert_at\<close>)
qed

lemma shift_leaf_eq:
  "ip \<le> i \<Longrightarrow> i < length xs \<Longrightarrow>
     shift_leaf i ip xs = Some (map (\<lambda>j. if ip < j \<and> j \<le> i then xs ! (j - 1) else xs ! j) [0..<length xs])"
proof (induction i ip xs rule: shift_leaf.induct)
  case (1 i ip xs)
  show ?case
  proof (cases "ip < i")
    case True
    let ?ys = "xs[i := xs ! (i - 1)]"
    have "shift_leaf i ip xs = shift_leaf (i - 1) ip ?ys" using True 1(3) by (subst shift_leaf.simps) simp
    also have "\<dots> = Some (map (\<lambda>j. if ip < j \<and> j \<le> i - 1 then ?ys ! (j - 1) else ?ys ! j) [0..<length xs])"
      using 1(1) [of "xs ! (i - 1)" ?ys] True 1(2,3) by simp
    also have "\<dots> = Some (map (\<lambda>j. if ip < j \<and> j \<le> i then xs ! (j - 1) else xs ! j) [0..<length xs])"
      using True 1(3) by (auto simp: nth_list_update)
    finally show ?thesis .
  next
    case False
    have "map (\<lambda>j. if ip < j \<and> j \<le> i then xs ! (j - 1) else xs ! j) [0..<length xs] = xs"
      using False by (intro nth_equalityI) auto
    then show ?thesis using False by (subst shift_leaf.simps) simp
  qed
qed

lemma shift_leaf_insert:
  assumes "ip \<le> n" "n < length xs"
  obtains ys where "shift_leaf n ip xs = Some ys" "length ys = length xs" "take (Suc n) (ys[ip := x]) = insert_at ip x (take n xs)"
proof -
  let ?ys = "map (\<lambda>j. if ip < j \<and> j \<le> n then xs ! (j - 1) else xs ! j) [0..<length xs]"
  have "take (Suc n) (?ys[ip := x]) = insert_at ip x (take n xs)"
    by (rule eq_insert_atI) (use assms in \<open>auto simp: nth_list_update\<close>)
  then show ?thesis using that shift_leaf_eq [OF assms] by simp
qed

lemma unat_small: "n < 2 ^ 32 \<Longrightarrow> unat (of_nat n :: UInt32) = n"
  by (simp add: unat_of_nat)

lemma parent_shift_step:
  assumes "idx \<le> m" "m < 2 ^ 31" "Suc m < length ks" "m + 2 < length ps"
  shows "parent_shift (of_nat (Suc m) - 1) (of_nat idx) ks ps =
    parent_shift (of_nat m - 1) (of_nat idx) (ks[Suc m := ks ! m]) (ps[m + 2 := ps ! Suc m])"
proof -
  have w: "(of_nat (Suc m) - 1 :: UInt32) = of_nat m" "(of_nat m + 1 :: UInt32) = of_nat (Suc m)" "(of_nat m + 2 :: UInt32) = of_nat (m + 2)"
    by simp_all
  have u: "unat (of_nat m :: UInt32) = m" "unat (of_nat (Suc m) :: UInt32) = Suc m" "unat (of_nat (m + 2) :: UInt32) = m + 2"
    using assms(2) by (simp_all only: unat_of_nat) (simp_all add: take_bit_nat_eq_self)
  have "(of_nat idx :: UInt32) \<le> of_nat m" using assms(1,2) u(1) by (simp add: word_le_nat_alt unat_of_nat take_bit_nat_eq_self)
  then have "parent_shift (of_nat m) (of_nat idx) ks ps =
      parent_shift (of_nat m - 1) (of_nat idx) (ks[Suc m := ks ! m]) (ps[m + 2 := ps ! Suc m])"
    using assms by (subst parent_shift.simps) (simp only: w u arr_get_Some arr_set_Some Option.bind.simps if_True)
  then show ?thesis by (simp only: w(1))
qed

lemma parent_shift_eq:
  assumes "1 \<le> idx" "idx \<le> m" "m < 2 ^ 31"
  shows "m < length ks \<Longrightarrow> Suc m < length ps \<Longrightarrow> parent_shift (of_nat m - 1) (of_nat idx) ks ps =
    Some (map (\<lambda>j. if idx < j \<and> j \<le> m then ks ! (j - 1) else ks ! j) [0..<length ks],
          map (\<lambda>j. if idx + 1 < j \<and> j \<le> m + 1 then ps ! (j - 1) else ps ! j) [0..<length ps])"
  using assms(2,3)
proof (induction m arbitrary: ks ps rule: dec_induct)
  case base
  have "\<not> (of_nat idx :: UInt32) \<le> of_nat idx - 1"
  proof -
    have "unat (of_nat idx - 1 :: UInt32) = idx - 1" "unat (of_nat idx :: UInt32) = idx"
      using base(3) assms(1) unat_sub [of 1 "of_nat idx :: UInt32"] by (simp_all add: unat_of_nat take_bit_nat_eq_self word_le_nat_alt)
    then show ?thesis using assms(1) by (simp add: word_le_nat_alt)
  qed
  moreover have "map (\<lambda>j. if idx < j \<and> j \<le> idx then ks ! (j - 1) else ks ! j) [0..<length ks] = ks"
    "map (\<lambda>j. if idx + 1 < j \<and> j \<le> idx + 1 then ps ! (j - 1) else ps ! j) [0..<length ps] = ps"
    by (auto intro!: nth_equalityI)
  ultimately show ?case by (subst parent_shift.simps) simp
next
  case (step m)
  let ?ks = "ks[Suc m := ks ! m]" and ?ps = "ps[m + 2 := ps ! Suc m]"
  have "parent_shift (of_nat (Suc m) - 1) (of_nat idx) ks ps = parent_shift (of_nat m - 1) (of_nat idx) ?ks ?ps"
    by (rule parent_shift_step) (use step in simp_all)
  also have "\<dots> = Some (map (\<lambda>j. if idx < j \<and> j \<le> m then ?ks ! (j - 1) else ?ks ! j) [0..<length ks],
      map (\<lambda>j. if idx + 1 < j \<and> j \<le> m + 1 then ?ps ! (j - 1) else ?ps ! j) [0..<length ps])"
    using step.IH [of ?ks ?ps] step.prems by simp
  also have "map (\<lambda>j. if idx < j \<and> j \<le> m then ?ks ! (j - 1) else ?ks ! j) [0..<length ks] =
      map (\<lambda>j. if idx < j \<and> j \<le> Suc m then ks ! (j - 1) else ks ! j) [0..<length ks]"
    using step.hyps step.prems by (auto simp: nth_list_update)
  also have "map (\<lambda>j. if idx + 1 < j \<and> j \<le> m + 1 then ?ps ! (j - 1) else ?ps ! j) [0..<length ps] =
      map (\<lambda>j. if idx + 1 < j \<and> j \<le> Suc m + 1 then ps ! (j - 1) else ps ! j) [0..<length ps]"
    using step.hyps step.prems by (auto simp: nth_list_update)
  finally show ?case .
qed

lemma parent_shift_insert:
  assumes "1 \<le> idx" "idx \<le> n" "n < length ks" "Suc n < length ps" "n < 2 ^ 31"
  obtains ks' ps' where "parent_shift (of_nat n - 1) (of_nat idx) ks ps = Some (ks', ps')"
    "length ks' = length ks" "length ps' = length ps"
    "take (Suc n) (ks'[idx := k]) = insert_at idx k (take n ks)"
    "take (Suc (Suc n)) (ps'[idx + 1 := p]) = insert_at (idx + 1) p (take (Suc n) ps)"
proof -
  let ?ks = "map (\<lambda>j. if idx < j \<and> j \<le> n then ks ! (j - 1) else ks ! j) [0..<length ks]"
  let ?ps = "map (\<lambda>j. if idx + 1 < j \<and> j \<le> n + 1 then ps ! (j - 1) else ps ! j) [0..<length ps]"
  have "take (Suc n) (?ks[idx := k]) = insert_at idx k (take n ks)"
    by (rule eq_insert_atI) (use assms in \<open>auto simp: nth_list_update\<close>)
  moreover have "take (Suc (Suc n)) (?ps[idx + 1 := p]) = insert_at (idx + 1) p (take (Suc n) ps)"
    by (rule eq_insert_atI) (use assms in \<open>auto simp: nth_list_update\<close>)
  ultimately show ?thesis using that [of ?ks ?ps] parent_shift_eq [OF assms(1,2,5,3,4)] by simp
qed

text \<open>At the front the index passes zero and the loop leaves the array.\<close>

lemma parent_shift_front:
  "m < 2 ^ 31 \<Longrightarrow> length ks < 2 ^ 31 \<Longrightarrow> parent_shift (of_nat m - 1) 0 ks ps = None"
proof (induction m arbitrary: ks ps)
  case 0
  have "(- 1 :: UInt32) = 4294967295" by simp
  then have "unat (- 1 :: UInt32) = 2 ^ 32 - 1" by (simp only:) simp
  then have "arr_get (unat (- 1 :: UInt32)) ks = None" using 0 by (simp add: arr_get_def)
  then show ?case by (subst parent_shift.simps) simp
next
  case (Suc m)
  have w: "(of_nat (Suc m) - 1 :: UInt32) = of_nat m" by simp
  have "parent_shift (of_nat m - 1) 0 ks' ps' = None" if "length ks' = length ks" for ks' ps'
    using Suc that by simp
  then show ?case unfolding w
    by (subst parent_shift.simps) (auto simp: arr_set_def split: Option.bind_split if_splits)
qed

section \<open>Copying\<close>

lemma copy_gap_eq:
  assumes "i + n \<le> length src" "i + n < length dst" "gap \<le> i + n"
  shows "j = (if i \<le> gap then i else Suc i) \<Longrightarrow> copy_gap n gap i j src dst =
    Some (map (\<lambda>k. if i \<le> k \<and> k < gap \<and> k < i + n then src ! k else if i < k \<and> gap < k \<and> k \<le> i + n then src ! (k - 1) else dst ! k) [0..<length dst])"
  using assms
proof (induction n arbitrary: i j dst)
  case 0
  then show ?case by (auto intro!: nth_equalityI)
next
  case (Suc n)
  let ?j = "if j = gap then j + 1 else j"
  let ?d = "dst[?j := src ! i]"
  have j: "?j = (if i < gap then i else Suc i)" "?j < length dst" using Suc.prems by (auto split: if_splits)
  have "copy_gap (Suc n) gap i j src dst = copy_gap n gap (i + 1) (?j + 1) src ?d"
    using Suc.prems j by (simp add: Let_def)
  also have "\<dots> = Some (map (\<lambda>k. if i + 1 \<le> k \<and> k < gap \<and> k < i + 1 + n then src ! k
      else if i + 1 < k \<and> gap < k \<and> k \<le> i + 1 + n then src ! (k - 1) else ?d ! k) [0..<length ?d])"
    using Suc.prems j by (intro Suc.IH) auto
  also have "\<dots> = Some (map (\<lambda>k. if i \<le> k \<and> k < gap \<and> k < i + Suc n then src ! k
      else if i < k \<and> gap < k \<and> k \<le> i + Suc n then src ! (k - 1) else dst ! k) [0..<length dst])"
    using Suc.prems j by (auto simp: nth_list_update intro!: arg_cong [of _ _ "(!) src"])
  finally show ?case .
qed

lemma copy_gap_insert:
  assumes "n \<le> length src" "n < length dst" "gap \<le> n"
  obtains d where "copy_gap n gap 0 0 src dst = Some d" "length d = length dst" "take (Suc n) (d[gap := x]) = insert_at gap x (take n src)"
proof -
  let ?d = "map (\<lambda>k. if 0 \<le> k \<and> k < gap \<and> k < 0 + n then src ! k else if 0 < k \<and> gap < k \<and> k \<le> 0 + n then src ! (k - 1) else dst ! k) [0..<length dst]"
  have "copy_gap n gap 0 0 src dst = Some ?d" by (rule copy_gap_eq) (use assms in auto)
  moreover have "take (Suc n) (?d[gap := x]) = insert_at gap x (take n src)"
    by (rule eq_insert_atI) (use assms in \<open>auto simp: nth_list_update\<close>)
  ultimately show ?thesis using that by simp
qed

lemma copy_range_eq:
  "i + n \<le> length src \<Longrightarrow> j + n \<le> length dst \<Longrightarrow> copy_range n i j src dst = Some (take j dst @ take n (drop i src) @ drop (j + n) dst)"
proof (induction n arbitrary: i j dst)
  case (Suc n)
  have "drop i src = src ! i # drop (Suc i) src" using Suc.prems by (simp add: Cons_nth_drop_Suc)
  moreover have "take (Suc j) (dst[j := src ! i]) = take j dst @ [src ! i]" using Suc.prems by (simp add: take_Suc_conv_app_nth)
  ultimately show ?case using Suc by simp
qed simp

lemma null_range_eq:
  "i + n \<le> length ps \<Longrightarrow> null_range n i ps = Some (take i ps @ replicate n Null @ drop (i + n) ps)"
proof (induction n arbitrary: i ps)
  case (Suc n)
  have "take (Suc i) (ps[i := Null]) = take i ps @ [Null]" using Suc.prems by (simp add: take_Suc_conv_app_nth)
  then show ?case using Suc by simp
qed simp

end
