(* ===== verification/Btree_Rep.thy ===== *)
theory Btree_Rep
  imports Btree_Arrays
begin

text \<open>
  The tree that the nodes of a partition represent, and the same tree seen from one of its nodes: a
  subtree and the path above it, a list of frames from the parent to the root.  A frame holds what lies
  to the left and to the right of the path.  The order of a tree is stated on the sequence of its keys and separators from left to
  right, which splitting an inner node does not change.
\<close>

section \<open>Trees and paths\<close>

datatype btree = Leaf bt_addr "(idx_key_t \<times> item_data list) list" | Node bt_addr "idx_key_t list" "btree list"

datatype path_frame = Frame bt_addr "idx_key_t list" "btree list" "idx_key_t list" "btree list"

datatype tok = Sep idx_key_t | Key idx_key_t "item_data list"

fun addr :: "btree \<Rightarrow> bt_addr" where
  "addr (Leaf a es) = a"
| "addr (Node a ks ts) = a"

fun node_addrs :: "btree \<Rightarrow> bt_addr list" where
  "node_addrs (Leaf a es) = [a]"
| "node_addrs (Node a ks ts) = a # concat (map node_addrs ts)"

fun leaves :: "btree \<Rightarrow> bt_addr list" where
  "leaves (Leaf a es) = [a]"
| "leaves (Node a ks ts) = concat (map leaves ts)"

fun weave :: "'a list \<Rightarrow> 'a list list \<Rightarrow> 'a list" where
  "weave (k # ks) (t # ts) = t @ k # weave ks ts"
| "weave [] (t # ts) = t"
| "weave ks [] = []"

fun toks :: "btree \<Rightarrow> tok list" where
  "toks (Leaf a es) = map (\<lambda>(k, v). Key k v) es"
| "toks (Node a ks ts) = weave (map Sep ks) (map toks ts)"

definition lweave :: "'a list \<Rightarrow> 'a list list \<Rightarrow> 'a list" where
  "lweave ks ts = concat (map2 (\<lambda>k t. t @ [k]) ks ts)"

definition rweave :: "'a list \<Rightarrow> 'a list list \<Rightarrow> 'a list" where
  "rweave ks ts = concat (map2 (\<lambda>k t. k # t) ks ts)"

fun up :: "path_frame list \<Rightarrow> bt_addr option" where
  "up [] = None"
| "up (Frame a ks1 ts1 ks2 ts2 # fs) = Some a"

fun faddr :: "path_frame \<Rightarrow> bt_addr" where
  "faddr (Frame a ks1 ts1 ks2 ts2) = a"

fun plug :: "path_frame list \<Rightarrow> btree \<Rightarrow> btree" where
  "plug [] t = t"
| "plug (Frame a ks1 ts1 ks2 ts2 # fs) t = plug fs (Node a (ks1 @ ks2) (ts1 @ t # ts2))"

fun frames_ok :: "path_frame list \<Rightarrow> bool" where
  "frames_ok [] \<longleftrightarrow> True"
| "frames_ok (Frame a ks1 ts1 ks2 ts2 # fs) \<longleftrightarrow> length ts1 = length ks1 \<and> length ts2 = length ks2 \<and> frames_ok fs"

fun caddrs :: "path_frame list \<Rightarrow> bt_addr list" where
  "caddrs [] = []"
| "caddrs (Frame a ks1 ts1 ks2 ts2 # fs) = a # concat (map node_addrs ts1) @ concat (map node_addrs ts2) @ caddrs fs"

fun ltoks :: "path_frame list \<Rightarrow> tok list" where
  "ltoks [] = []"
| "ltoks (Frame a ks1 ts1 ks2 ts2 # fs) = ltoks fs @ lweave (map Sep ks1) (map toks ts1)"

fun rtoks :: "path_frame list \<Rightarrow> tok list" where
  "rtoks [] = []"
| "rtoks (Frame a ks1 ts1 ks2 ts2 # fs) = rweave (map Sep ks2) (map toks ts2) @ rtoks fs"

fun lleaves :: "path_frame list \<Rightarrow> bt_addr list" where
  "lleaves [] = []"
| "lleaves (Frame a ks1 ts1 ks2 ts2 # fs) = lleaves fs @ concat (map leaves ts1)"

fun rleaves :: "path_frame list \<Rightarrow> bt_addr list" where
  "rleaves [] = []"
| "rleaves (Frame a ks1 ts1 ks2 ts2 # fs) = concat (map leaves ts2) @ rleaves fs"

lemma addr_in_addrs [simp]: "addr t \<in> set (node_addrs t)"
  by (cases t) auto

lemma leaves_subset: "set (leaves t) \<subseteq> set (node_addrs t)"
  by (induction t) auto

lemma lweave_simps [simp]: "lweave [] ts = []" "lweave ks [] = []" "lweave (k # ks) (t # ts) = t @ k # lweave ks ts"
  by (simp_all add: lweave_def)

lemma rweave_simps [simp]: "rweave [] ts = []" "rweave ks [] = []" "rweave (k # ks) (t # ts) = k # t @ rweave ks ts"
  by (simp_all add: rweave_def)

lemma weave_front: "length ts = length ks \<Longrightarrow> weave ks (t # ts) = t @ rweave ks ts"
  by (induction ts ks arbitrary: t rule: list_induct2) auto

lemma weave_focus:
  "length ts1 = length ks1 \<Longrightarrow> length ts2 = length ks2 \<Longrightarrow> weave (ks1 @ ks2) (ts1 @ t # ts2) = lweave ks1 ts1 @ t @ rweave ks2 ts2"
  by (induction ts1 ks1 rule: list_induct2) (auto simp: weave_front)

lemma weave_split:
  "length ts1 = Suc (length ks1) \<Longrightarrow> weave (ks1 @ k # ks2) (ts1 @ ts2) = weave ks1 ts1 @ k # weave ks2 ts2"
proof (induction ks1 arbitrary: ts1)
  case (Cons x ks1)
  then show ?case by (cases ts1) auto
next
  case Nil
  then show ?case by (cases ts1) auto
qed

lemma toks_plug: "frames_ok ctx \<Longrightarrow> toks (plug ctx t) = ltoks ctx @ toks t @ rtoks ctx"
  by (induction ctx t rule: plug.induct) (simp_all add: weave_focus)

lemma leaves_plug: "leaves (plug ctx t) = lleaves ctx @ leaves t @ rleaves ctx"
  by (induction ctx t rule: plug.induct) simp_all

lemma mset_addrs_plug: "mset (node_addrs (plug ctx t)) = mset (node_addrs t) + mset (caddrs ctx)"
  by (induction ctx t rule: plug.induct) simp_all

lemma addr_plug: "ctx \<noteq> [] \<Longrightarrow> addr (plug ctx t) = addr (plug ctx t')"
proof (induction ctx arbitrary: t t')
  case (Cons f fs)
  obtain a ks1 ts1 ks2 ts2 where f: "f = Frame a ks1 ts1 ks2 ts2" by (cases f)
  show ?case using Cons.IH by (cases "fs = []") (simp_all add: f)
qed simp

section \<open>Order\<close>

fun tord :: "tok \<Rightarrow> tok \<Rightarrow> bool" where
  "tord (Key k v) (Key l w) \<longleftrightarrow> k < l"
| "tord (Key k v) (Sep s) \<longleftrightarrow> k < s"
| "tord (Sep s) (Key k v) \<longleftrightarrow> s \<le> k"
| "tord (Sep s) (Sep s') \<longleftrightarrow> s < s'"

fun before :: "idx_key_t \<Rightarrow> tok \<Rightarrow> bool" where
  "before key (Key k v) \<longleftrightarrow> k < key"
| "before key (Sep s) \<longleftrightarrow> s \<le> key"

fun after :: "idx_key_t \<Rightarrow> tok \<Rightarrow> bool" where
  "after key (Key k v) \<longleftrightarrow> key < k"
| "after key (Sep s) \<longleftrightarrow> key < s"

fun kvs :: "tok list \<Rightarrow> (idx_key_t \<times> item_data list) list" where
  "kvs [] = []"
| "kvs (Sep s # ts) = kvs ts"
| "kvs (Key k v # ts) = (k, v) # kvs ts"

lemma kvs_append [simp]: "kvs (xs @ ys) = kvs xs @ kvs ys"
  by (induction xs rule: kvs.induct) auto

lemma kvs_leaf [simp]: "kvs (map (\<lambda>(k, v). Key k v) xs) = xs"
  by (induction xs) auto

lemma set_kvs: "set (kvs ts) = {(k, v). Key k v \<in> set ts}"
  by (induction ts rule: kvs.induct) auto

lemma tord_before: "tord t (Sep s) \<Longrightarrow> s \<le> key \<Longrightarrow> before key t"
  by (cases t) auto

lemma tord_after: "tord (Sep s) t \<Longrightarrow> key < s \<Longrightarrow> after key t"
  by (cases t) auto

lemma sorted_kvs: "sorted_wrt tord ts \<Longrightarrow> sorted_wrt (<) (map fst (kvs ts))"
proof (induction ts)
  case (Cons t ts)
  then show ?case by (cases t) (force simp: set_kvs)+
qed simp

section \<open>Shape\<close>

text \<open>All leaves are at the same depth; every node except the root is half full.\<close>

fun full :: "nat \<Rightarrow> btree \<Rightarrow> bool" where
  "full n (Leaf a es) \<longleftrightarrow> n = 0 \<and> 8 \<le> length es"
| "full n (Node a ks ts) \<longleftrightarrow>
     0 < n \<and> 7 \<le> length ks \<and> length ts = Suc (length ks) \<and> (\<forall>t\<in>set ts. full (n - 1) t)"

fun top :: "nat \<Rightarrow> btree \<Rightarrow> bool" where
  "top n (Leaf a es) \<longleftrightarrow> n = 0"
| "top n (Node a ks ts) \<longleftrightarrow>
     0 < n \<and> 1 \<le> length ks \<and> length ts = Suc (length ks) \<and> (\<forall>t\<in>set ts. full (n - 1) t)"

fun cshape :: "nat \<Rightarrow> path_frame list \<Rightarrow> bool" where
  "cshape n [] \<longleftrightarrow> True"
| "cshape n (Frame a ks1 ts1 ks2 ts2 # fs) \<longleftrightarrow>
     (\<forall>t\<in>set ts1 \<union> set ts2. full n t) \<and> (if fs = [] then 1 else 7) \<le> length ks1 + length ks2 \<and> cshape (Suc n) fs"

definition zshape :: "nat \<Rightarrow> path_frame list \<Rightarrow> btree \<Rightarrow> bool" where
  "zshape n ctx t \<longleftrightarrow> (if ctx = [] then top n t else full n t) \<and> cshape n ctx"

lemma full_top: "full n t \<Longrightarrow> top n t"
  by (cases t) auto

lemma zshape_down:
  assumes "length ts1 = length ks1" "length ts2 = length ks2"
  shows "zshape (Suc n) ctx (Node a (ks1 @ ks2) (ts1 @ t # ts2)) \<longleftrightarrow> zshape n (Frame a ks1 ts1 ks2 ts2 # ctx) t"
  using assms by (auto simp: zshape_def)

lemma zshape_plug: "frames_ok ctx \<Longrightarrow> top (n + length ctx) (plug ctx t) \<longleftrightarrow> zshape n ctx t"
proof (induction ctx t arbitrary: n rule: plug.induct)
  case (2 a ks1 ts1 ks2 ts2 fs t)
  then show ?case using 2(1) [of "Suc n"] zshape_down [of ts1 ks1 ts2 ks2 n fs a t] by simp
qed (simp add: zshape_def)

lemma top_plug_length: "frames_ok ctx \<Longrightarrow> top n (plug ctx t) \<Longrightarrow> length ctx \<le> n"
proof (induction ctx arbitrary: t n rule: rev_induct)
  case (snoc f ctx)
  obtain a ks1 ts1 ks2 ts2 where f: "f = Frame a ks1 ts1 ks2 ts2" by (cases f)
  have pl: "plug (ctx @ fs) t = plug fs (plug ctx t)" for fs t
    by (induction ctx t rule: plug.induct) auto
  have ok: "frames_ok ctx" using snoc.prems(1)
    by (induction ctx rule: frames_ok.induct) auto
  have "full (n - 1) (plug ctx t)" "0 < n" using snoc.prems(2) by (auto simp: pl f)
  then show ?case using snoc.IH [OF ok full_top] by fastforce
qed simp

lemma full_count: "full n t \<Longrightarrow> 8 ^ Suc n \<le> length (kvs (toks t))"
proof (induction t arbitrary: n)
  case (Node a ks ts)
  obtain m where n: "n = Suc m" using Node.prems by (cases n) auto
  have len: "length ts = Suc (length ks)" "7 \<le> length ks" using Node.prems by auto
  have each: "8 ^ n \<le> length (kvs (toks t))" if "t \<in> set ts" for t
    using that Node by (auto simp: n)
  have "length ts * c \<le> length (kvs (weave (map Sep ks) (map toks ts)))"
    if "length ts = Suc (length ks)" "\<forall>t\<in>set ts. c \<le> length (kvs (toks t))" for ks ts c
    using that
  proof (induction ks arbitrary: ts)
    case (Cons k ks)
    then show ?case by (cases ts) fastforce+
  next
    case Nil
    then show ?case by (cases ts) auto
  qed
  from this [OF len(1), of "8 ^ n"] each have "length ts * 8 ^ n \<le> length (kvs (toks (Node a ks ts)))" by simp
  moreover have "8 * 8 ^ n \<le> length ts * (8 ^ n :: nat)" using len by (intro mult_right_mono) auto
  ultimately show ?case by (metis power_Suc le_trans)
qed simp

lemma top_height:
  assumes "top n t" "sorted_wrt tord (toks t)"
  shows "n < 30"
proof (cases t)
  case (Leaf a es)
  then show ?thesis using assms by simp
next
  case (Node a ks ts)
  let ?K = "kvs (toks t)"
  obtain t1 where t1: "t1 \<in> set ts" using assms(1) Node by (cases ts) auto
  obtain us1 us2 where us: "ts = us1 @ t1 # us2" using t1 by (auto simp: in_set_conv_decomp)
  have len: "length us1 + length us2 = length ks" using assms(1) by (simp add: Node us)
  have "toks t = weave (map Sep (take (length us1) ks) @ map Sep (drop (length us1) ks)) (map toks us1 @ toks t1 # map toks us2)"
    by (simp only: Node us toks.simps map_append [symmetric] append_take_drop_id) simp
  also have "\<dots> = lweave (map Sep (take (length us1) ks)) (map toks us1) @ toks t1 @ rweave (map Sep (drop (length us1) ks)) (map toks us2)"
    by (rule weave_focus) (use len in simp_all)
  finally have "length (kvs (toks t1)) \<le> length ?K" by simp
  moreover have "8 ^ n \<le> length (kvs (toks t1))"
    using full_count [of "n - 1" t1] assms(1) t1 by (cases n) (auto simp: Node)
  moreover have "length ?K \<le> 2 ^ 64"
  proof -
    have "distinct (map fst ?K)" using sorted_kvs [OF assms(2)] by (simp add: strict_sorted_iff)
    then have "length ?K = card (set (map fst ?K))" by (metis distinct_card length_map)
    also have "\<dots> \<le> CARD(64 word)" by (intro card_mono) auto
    finally show ?thesis by (simp add: card_word)
  qed
  ultimately have "8 ^ n \<le> (2 :: nat) ^ 64" by linarith
  then have "(2 :: nat) ^ (3 * n) \<le> 2 ^ 64" by (simp add: power_mult)
  then have "3 * n \<le> 64" by (rule power_le_imp_le_exp [rotated]) simp
  then show ?thesis by simp
qed

section \<open>Representation\<close>

type_synonym bt_mem = "bt_addr \<Rightarrow> bt_node"

definition node_ok :: "bt_node \<Rightarrow> bool" where
  "node_ok n \<longleftrightarrow> length (bt_keys n) = BTREE_ORDER - 1 \<and> length (bt_pointers n) = BTREE_ORDER"

definition leaf_rep :: "bt_node \<Rightarrow> (idx_key_t \<times> item_data list) list \<Rightarrow> bt_addr option \<Rightarrow> bool" where
  "leaf_rep n es par \<longleftrightarrow>
     node_ok n \<and> is_leaf n \<and> bt_parent n = par \<and> num_keys n = length es \<and> length es \<le> BTREE_ORDER - 1 \<and>
     take (length es) (bt_keys n) = map fst es \<and> take (length es) (bt_pointers n) = map (\<lambda>e. Items (snd e)) es"

definition inner_rep :: "bt_node \<Rightarrow> idx_key_t list \<Rightarrow> bt_addr list \<Rightarrow> bt_addr option \<Rightarrow> bool" where
  "inner_rep n ks cs par \<longleftrightarrow>
     node_ok n \<and> \<not> is_leaf n \<and> bt_parent n = par \<and> num_keys n = length ks \<and> length ks \<le> BTREE_ORDER - 1 \<and>
     length cs = Suc (length ks) \<and> take (length ks) (bt_keys n) = ks \<and> take (Suc (length ks)) (bt_pointers n) = map Child cs"

fun rep :: "bt_mem \<Rightarrow> bt_addr option \<Rightarrow> btree \<Rightarrow> bool" where
  "rep h par (Leaf a es) \<longleftrightarrow> leaf_rep (h a) es par"
| "rep h par (Node a ks ts) \<longleftrightarrow> inner_rep (h a) ks (map addr ts) par \<and> (\<forall>t\<in>set ts. rep h (Some a) t)"

fun ctx_rep :: "bt_mem \<Rightarrow> path_frame list \<Rightarrow> bt_addr \<Rightarrow> bool" where
  "ctx_rep h [] c \<longleftrightarrow> True"
| "ctx_rep h (Frame a ks1 ts1 ks2 ts2 # fs) c \<longleftrightarrow>
     inner_rep (h a) (ks1 @ ks2) (map addr ts1 @ c # map addr ts2) (up fs) \<and>
     (\<forall>t\<in>set ts1 \<union> set ts2. rep h (Some a) t) \<and> ctx_rep h fs a"

lemma rep_parent: "rep h par t \<Longrightarrow> bt_parent (h (addr t)) = par"
  by (cases t) (auto simp: leaf_rep_def inner_rep_def)

lemma rep_plug: "rep h None (plug ctx t) \<longleftrightarrow> rep h (up ctx) t \<and> ctx_rep h ctx (addr t)"
proof (induction ctx t rule: plug.induct)
  case (2 a ks1 ts1 ks2 ts2 fs t)
  then show ?case by auto
qed simp

lemma rep_cong: "(\<And>a. a \<in> set (node_addrs t) \<Longrightarrow> h' a = h a) \<Longrightarrow> rep h' par t = rep h par t"
proof (induction t arbitrary: par)
  case (Node a ks ts)
  have "h' a = h a" using Node.prems by simp
  moreover have "rep h' (Some a) t = rep h (Some a) t" if "t \<in> set ts" for t
    using that Node.prems by (intro Node.IH) auto
  ultimately show ?case by simp
qed simp

lemma ctx_rep_cong: "(\<And>a. a \<in> set (caddrs ctx) \<Longrightarrow> h' a = h a) \<Longrightarrow> ctx_rep h' ctx c = ctx_rep h ctx c"
proof (induction ctx arbitrary: c)
  case (Cons f fs)
  obtain a ks1 ts1 ks2 ts2 where f: "f = Frame a ks1 ts1 ks2 ts2" by (cases f)
  have "rep h' (Some a) t = rep h (Some a) t" if "t \<in> set ts1 \<union> set ts2" for t
    using that Cons.prems by (intro rep_cong) (auto simp: f)
  then show ?case using Cons by (simp add: f)
qed simp

lemma rep_set_parent:
  assumes "distinct (node_addrs t)" "rep h par t"
  shows "rep (h(addr t := (h (addr t))\<lparr>bt_parent := par'\<rparr>)) par' t"
proof (cases t)
  case (Leaf a es)
  then show ?thesis using assms(2) by (simp add: leaf_rep_def node_ok_def)
next
  case (Node a ks ts)
  have "rep (h(a := x)) (Some a) s = rep h (Some a) s" if "s \<in> set ts" for s x
    using that assms(1) by (intro rep_cong) (auto simp: Node)
  then show ?thesis using assms(2) by (simp add: Node inner_rep_def node_ok_def)
qed

lemma rep_next:
  assumes "distinct (node_addrs t)"
  shows "rep (h(addr t := (h (addr t))\<lparr>bt_next := x\<rparr>)) par t = rep h par t"
proof (cases t)
  case (Leaf a es)
  then show ?thesis by (simp add: leaf_rep_def node_ok_def)
next
  case (Node a ks ts)
  have "rep (h(a := x)) (Some a) s = rep h (Some a) s" if "s \<in> set ts" for s x
    using that assms(1) by (intro rep_cong) (auto simp: Node)
  then show ?thesis by (simp add: Node inner_rep_def node_ok_def)
qed

text \<open>The leaves are linked from left to right.\<close>

fun linked :: "bt_mem \<Rightarrow> bt_addr list \<Rightarrow> bool" where
  "linked h [] \<longleftrightarrow> True"
| "linked h [a] \<longleftrightarrow> bt_next (h a) = None"
| "linked h (a # b # as) \<longleftrightarrow> bt_next (h a) = Some b \<and> linked h (b # as)"

lemma linked_cong: "(\<And>a. a \<in> set as \<Longrightarrow> bt_next (h' a) = bt_next (h a)) \<Longrightarrow> linked h' as = linked h as"
  by (induction as rule: induct_list012) auto

lemma linked_split:
  assumes "distinct (as @ l # bs)" "new \<notin> set (as @ l # bs)" "linked h (as @ l # bs)"
    and "bt_next (h' l) = Some new" "bt_next (h' new) = bt_next (h l)"
    and "\<And>a. a \<in> set (as @ bs) \<Longrightarrow> bt_next (h' a) = bt_next (h a)"
  shows "linked h' (as @ l # new # bs)"
  using assms
proof (induction as rule: induct_list012)
  case 1
  have "linked h' bs = linked h bs" using 1 by (intro linked_cong) auto
  then show ?case using 1 by (cases bs) auto
next
  case (2 x)
  have "linked h' bs = linked h bs" using 2 by (intro linked_cong) auto
  then show ?case using 2 by (cases bs) auto
qed auto

section \<open>The tree of a partition\<close>

definition tree_at :: "index_btree \<Rightarrow> nat \<Rightarrow> btree \<Rightarrow> bool" where
  "tree_at ix p t \<longleftrightarrow>
     p < length (roots ix) \<and> roots ix ! p = addr t \<and> rep (bt_heap ix) None t \<and> distinct (node_addrs t) \<and>
     (\<forall>a\<in>set (node_addrs t). bt_live ix a \<and> fst a = p) \<and> sorted_wrt tord (toks t) \<and> (\<exists>n. top n t) \<and>
     linked (bt_heap ix) (leaves t)"

text \<open>Nodes that will be allocated are not in use.\<close>

definition brk_ok :: "index_btree \<Rightarrow> bool" where
  "brk_ok ix \<longleftrightarrow> (\<forall>a. bt_live ix a \<longrightarrow> snd a < bt_brk ix)"

end
