(* ===== verification/Btree_Search.thy ===== *)
theory Btree_Search
  imports Btree_Rep
begin

text \<open>
  Searching and inserting in the tree of a partition.  The latches are off, as in every configuration of
  the repository, and \<open>get_part_id\<close> gives the partition a node was allocated in.
\<close>

definition plain_cfg :: "bt_cfg \<Rightarrow> bool" where
  "plain_cfg cfg \<longleftrightarrow> \<not> ENABLE_LATCH cfg \<and> node_part cfg = fst \<and> keys_part cfg = fst"

lemma plain_cfgD [simp]:
  assumes "plain_cfg cfg"
  shows "latch_node cfg a ty ix = Some (True, ix)" "bt_release_latch cfg a ix = Some (LATCH_SH, ix)"
    "upgrade_latch cfg a ix = Some (RCOK, ix)" "node_part cfg a = fst a" "keys_part cfg a = fst a"
  using assms by (simp_all add: plain_cfg_def latch_node_def bt_release_latch_def upgrade_latch_def)

lemma release_all_plain:
  "plain_cfg cfg \<Longrightarrow> fold (\<lambda>a m. do { i \<leftarrow> m; r \<leftarrow> bt_release_latch cfg a i; Some (snd r) }) ex (Some ix) = Some ix"
  by (induction ex) simp_all

section \<open>Search\<close>

lemma set_lweave: "length ts = length ks \<Longrightarrow> set ks \<subseteq> set (lweave ks ts)"
  by (induction ts ks rule: list_induct2) auto

lemma set_rweave: "length ts = length ks \<Longrightarrow> set ks \<subseteq> set (rweave ks ts)"
  by (induction ts ks rule: list_induct2) auto

lemma lweave_last: "length ts = length ks \<Longrightarrow> ks \<noteq> [] \<Longrightarrow> \<exists>xs. lweave ks ts = xs @ [last ks]"
  by (induction ts ks rule: list_induct2) auto

lemma lweave_before:
  assumes "length ts = length ks" "sorted_wrt tord (lweave (map Sep ks) ts)" "\<And>k. k \<in> set ks \<Longrightarrow> k \<le> key"
  shows "\<forall>x\<in>set (lweave (map Sep ks) ts). before key x"
proof (cases "ks = []")
  case False
  obtain xs where xs: "lweave (map Sep ks) ts = xs @ [Sep (last ks)]"
    using lweave_last [of ts "map Sep ks"] assms(1) False by (auto simp: last_map)
  have "last ks \<le> key" using False assms(3) by simp
  then show ?thesis using assms(2) tord_before [of _ "last ks" key] by (auto simp: xs sorted_wrt_append)
qed simp

lemma rweave_after:
  assumes "length ts = length ks" "sorted_wrt tord (rweave (map Sep ks) ts)" "ks \<noteq> [] \<Longrightarrow> key < hd ks"
  shows "\<forall>x\<in>set (rweave (map Sep ks) ts). after key x"
proof (cases ks)
  case (Cons k ks')
  obtain t ts' where "ts = t # ts'" using assms(1) Cons by (cases ts) auto
  then show ?thesis using assms(2,3) tord_after [of k _ key] by (auto simp: Cons)
qed simp

lemma child_for_eq:
  assumes "inner_rep n (ks1 @ ks2) (cs1 @ c # cs2) par" "length cs1 = length ks1"
    and "\<forall>k\<in>set ks1. \<not> key < k" "ks2 \<noteq> [] \<Longrightarrow> key < hd ks2"
  shows "child_for key n = Some c"
proof -
  let ?ks = "ks1 @ ks2"
  have n: "num_keys n = length ?ks" "length ?ks \<le> length (bt_keys n)" "take (length ?ks) (bt_keys n) = ?ks"
    "take (Suc (length ?ks)) (bt_pointers n) = map Child (cs1 @ c # cs2)" "length (bt_pointers n) = 16" "length ?ks \<le> 15"
    using assms(1) by (auto simp: inner_rep_def node_ok_def BTREE_ORDER_def)
  have "takeWhile (\<lambda>k. \<not> key < k) ?ks = ks1"
    using assms(3,4) by (cases ks2) (auto simp: takeWhile_append)
  then have "find_slot key (bt_keys n) (num_keys n) 0 = Some (length ks1)"
    using n(1-3) by (simp add: find_slot_eq)
  moreover have "bt_pointers n ! length ks1 = Child c"
  proof -
    have "bt_pointers n ! length ks1 = take (Suc (length ?ks)) (bt_pointers n) ! length ks1" by simp
    also have "\<dots> = Child c" unfolding n(4) using assms(2) by (simp add: nth_append)
    finally show ?thesis .
  qed
  ultimately show ?thesis using n(5,6) by (simp add: child_for_def)
qed

lemma tree_at_live: "tree_at ix p (plug ctx t) \<Longrightarrow> a \<in> set (node_addrs t) \<union> set (caddrs ctx) \<Longrightarrow> bt_live ix a \<and> fst a = p"
proof -
  assume t: "tree_at ix p (plug ctx t)" and a: "a \<in> set (node_addrs t) \<union> set (caddrs ctx)"
  have "set (node_addrs (plug ctx t)) = set (node_addrs t) \<union> set (caddrs ctx)"
    using mset_addrs_plug [of ctx t] by (metis set_append set_mset_mset mset_append)
  then show ?thesis using t a by (auto simp: tree_at_def)
qed

lemma tree_at_node: "tree_at ix p (plug ctx t) \<Longrightarrow> bt_at ix (addr t) = Some (bt_heap ix (addr t))"
  using tree_at_live [of ix p ctx t "addr t"] by (simp add: bt_at_def)

lemma tree_at_rep: "tree_at ix p (plug ctx t) \<Longrightarrow> rep (bt_heap ix) (up ctx) t \<and> ctx_rep (bt_heap ix) ctx (addr t)"
  by (simp add: tree_at_def rep_plug)

lemma cleanup_ok:
  assumes c: "plain_cfg cfg"
  shows "tree_at ix p (plug ctx t) \<Longrightarrow> e \<in> faddr ` set ctx \<Longrightarrow> bt_cleanup_loop cfg (addr t) e ix = Some ix"
proof (induction ctx arbitrary: t)
  case (Cons f fs)
  obtain a ks1 ts1 ks2 ts2 where f: "f = Frame a ks1 ts1 ks2 ts2" by (cases f)
  have par: "bt_parent (bt_heap ix (addr t)) = Some a"
    using rep_parent tree_at_rep [OF Cons.prems(1)] by (fastforce simp: f)
  have "tree_at ix p (plug fs (Node a (ks1 @ ks2) (ts1 @ t # ts2)))" using Cons.prems(1) by (simp add: f)
  from Cons.IH [OF this] Cons.prems(2) have "a \<noteq> e \<Longrightarrow> bt_cleanup_loop cfg a e ix = Some ix" by (auto simp: f)
  then show ?case by (subst bt_cleanup_loop.simps) (simp add: tree_at_node [OF Cons.prems(1)] par c)
qed simp

lemma ex_path_ok:
  "tree_at ix p (plug ctx t) \<Longrightarrow> e \<in> insert (addr t) (faddr ` set ctx) \<Longrightarrow> length ex + length ctx < 100 \<Longrightarrow>
    \<exists>ps. ex_path (addr t) e ex ix = Some ps"
proof (induction ctx arbitrary: t ex)
  case Nil
  then show ?case by (subst ex_path.simps) simp
next
  case (Cons f fs)
  obtain a ks1 ts1 ks2 ts2 where f: "f = Frame a ks1 ts1 ks2 ts2" by (cases f)
  have par: "bt_parent (bt_heap ix (addr t)) = Some a"
    using rep_parent tree_at_rep [OF Cons.prems(1)] by (fastforce simp: f)
  show ?case
  proof (cases "addr t = e")
    case True
    then show ?thesis by (subst ex_path.simps) simp
  next
    case False
    have "\<exists>ps. ex_path a e (ex @ [addr t]) ix = Some ps"
      using Cons.IH [of "Node a (ks1 @ ks2) (ts1 @ t # ts2)" "ex @ [addr t]"] Cons.prems False by (auto simp: f)
    then show ?thesis using False Cons.prems(3)
      by (subst ex_path.simps) (simp add: tree_at_node [OF Cons.prems(1)] par)
  qed
qed

text \<open>Where the search ends: a leaf, with everything to the left of it before the key and everything to the right after it.\<close>

definition leaf_for :: "idx_key_t \<Rightarrow> btree \<Rightarrow> path_frame list \<Rightarrow> bt_addr \<Rightarrow> (idx_key_t \<times> item_data list) list \<Rightarrow> bool" where
  "leaf_for key t ctx a es \<longleftrightarrow>
     frames_ok ctx \<and> t = plug ctx (Leaf a es) \<and> (\<forall>x\<in>set (ltoks ctx). before key x) \<and> (\<forall>x\<in>set (rtoks ctx). after key x)"

lemma descend:
  assumes ok: "frames_ok ctx" and t: "tree_at ix p (plug ctx (Node a ks ts))"
    and b: "\<forall>x\<in>set (ltoks ctx). before key x" "\<forall>x\<in>set (rtoks ctx). after key x"
  obtains ks1 ts1 c ks2 ts2 where "ks = ks1 @ ks2" "ts = ts1 @ c # ts2" "frames_ok (Frame a ks1 ts1 ks2 ts2 # ctx)"
    "child_for key (bt_heap ix a) = Some (addr c)"
    "\<forall>x\<in>set (ltoks (Frame a ks1 ts1 ks2 ts2 # ctx)). before key x" "\<forall>x\<in>set (rtoks (Frame a ks1 ts1 ks2 ts2 # ctx)). after key x"
proof -
  define ks1 where "ks1 = takeWhile (\<lambda>k. \<not> key < k) ks"
  define ks2 where "ks2 = dropWhile (\<lambda>k. \<not> key < k) ks"
  have ks: "ks = ks1 @ ks2" by (simp add: ks1_def ks2_def)
  have ir: "inner_rep (bt_heap ix a) ks (map addr ts) (up ctx)" using tree_at_rep [OF t] by simp
  then have len: "length ts = Suc (length ks)" by (simp add: inner_rep_def)
  define ts1 where "ts1 = take (length ks1) ts"
  obtain c ts2 where ts2: "drop (length ks1) ts = c # ts2" using len ks by (cases "drop (length ks1) ts") auto
  have ts: "ts = ts1 @ c # ts2" by (metis append_take_drop_id ts1_def ts2)
  have l1: "length ts1 = length ks1" using len ks by (simp add: ts1_def)
  have l2: "length ts2 = length ks2" using len l1 by (simp add: ks ts)
  have k1: "\<forall>k\<in>set ks1. \<not> key < k" by (auto simp: ks1_def dest: set_takeWhileD)
  have k2: "key < hd ks2" if "ks2 \<noteq> []" using hd_dropWhile [of "\<lambda>k. \<not> key < k" ks] that by (simp add: ks2_def)
  have "toks (plug ctx (Node a ks ts)) = ltoks ctx @ (lweave (map Sep ks1) (map toks ts1) @ toks c @ rweave (map Sep ks2) (map toks ts2)) @ rtoks ctx"
    using weave_focus [of "map toks ts1" "map Sep ks1" "map toks ts2" "map Sep ks2"] l1 l2 by (simp add: toks_plug [OF ok] ks ts)
  moreover have "sorted_wrt tord (toks (plug ctx (Node a ks ts)))" using t by (simp add: tree_at_def)
  ultimately have s: "sorted_wrt tord (lweave (map Sep ks1) (map toks ts1))" "sorted_wrt tord (rweave (map Sep ks2) (map toks ts2))"
    by (simp_all add: sorted_wrt_append)
  have "\<forall>x\<in>set (lweave (map Sep ks1) (map toks ts1)). before key x"
    by (rule lweave_before) (use l1 s k1 in auto)
  moreover have "\<forall>x\<in>set (rweave (map Sep ks2) (map toks ts2)). after key x"
    by (rule rweave_after) (use l2 s k2 in auto)
  moreover have "child_for key (bt_heap ix a) = Some (addr c)"
    by (rule child_for_eq [of _ ks1 ks2 "map addr ts1" _ "map addr ts2"]) (use ir k1 k2 l1 in \<open>auto simp: ks ts\<close>)
  ultimately show ?thesis using that [of ks1 ks2 ts1 c ts2] b ok l1 l2 ks ts by auto
qed

lemma find_leaf_loop_ok:
  assumes c: "plain_cfg cfg"
  shows "frames_ok ctx \<Longrightarrow> tree_at ix p (plug ctx t) \<Longrightarrow> \<forall>x\<in>set (ltoks ctx). before key x \<Longrightarrow> \<forall>x\<in>set (rtoks ctx). after key x \<Longrightarrow>
    (\<And>e. last_ex = Some e \<Longrightarrow> e \<in> faddr ` set ctx) \<Longrightarrow>
    \<exists>ctx' a es last_ex'. find_leaf_loop cfg p key acc (addr t) last_ex ix = Some (RCOK, Some a, last_ex', ix) \<and>
      leaf_for key (plug ctx t) ctx' a es \<and> (\<forall>e. last_ex' = Some e \<longrightarrow> e \<in> faddr ` set ctx')"
proof (induction t arbitrary: ctx last_ex)
  case (Leaf a es)
  have "is_leaf (bt_heap ix a)" using tree_at_rep [OF Leaf.prems(2)] by (simp add: leaf_rep_def)
  then have "find_leaf_loop cfg p key acc a last_ex ix = Some (RCOK, Some a, last_ex, ix)"
    using tree_at_node [OF Leaf.prems(2)] by (subst find_leaf_loop.simps) (simp add: c)
  then show ?case using Leaf.prems by (auto simp: leaf_for_def)
next
  case (Node a ks ts)
  obtain ks1 ts1 d ks2 ts2 where
    d: "ks = ks1 @ ks2" "ts = ts1 @ d # ts2" "frames_ok (Frame a ks1 ts1 ks2 ts2 # ctx)"
      "child_for key (bt_heap ix a) = Some (addr d)"
      "\<forall>x\<in>set (ltoks (Frame a ks1 ts1 ks2 ts2 # ctx)). before key x" "\<forall>x\<in>set (rtoks (Frame a ks1 ts1 ks2 ts2 # ctx)). after key x"
    by (rule descend [OF Node.prems(1-4)])
  let ?ctx = "Frame a ks1 ts1 ks2 ts2 # ctx"
  have pl: "plug ctx (Node a ks ts) = plug ?ctx d" by (simp add: d)
  have t: "tree_at ix p (plug ?ctx d)" using Node.prems(2) by (simp add: pl)
  have here: "bt_at ix a = Some (bt_heap ix a)" "\<not> is_leaf (bt_heap ix a)" "fst a = p"
    using tree_at_node [OF Node.prems(2)] tree_at_rep [OF Node.prems(2)] tree_at_live [OF Node.prems(2), of a] by (auto simp: inner_rep_def)
  have clean: "bt_cleanup cfg a last_ex ix = Some ix"
    using cleanup_ok [OF c Node.prems(2)] Node.prems(5) by (auto simp: bt_cleanup_def split: option.split)
  obtain last_ex' where step: "find_leaf_loop cfg p key acc a last_ex ix = find_leaf_loop cfg p key acc (addr d) last_ex' ix"
    "\<And>e. last_ex' = Some e \<Longrightarrow> e \<in> faddr ` set ?ctx"
  proof (cases "acc = INDEX_INSERT \<and> num_keys (bt_heap ix (addr d)) = BTREE_ORDER - 1")
    case True
    then have "find_leaf_loop cfg p key acc a last_ex ix =
        find_leaf_loop cfg p key acc (addr d) (if last_ex = None then Some a else last_ex) ix"
      by (subst find_leaf_loop.simps) (simp add: here d(4) tree_at_node [OF t] c)
    then show ?thesis using that Node.prems(5) by (auto split: if_splits)
  next
    case False
    then have "find_leaf_loop cfg p key acc a last_ex ix =
        find_leaf_loop cfg p key acc (addr d) (if acc = INDEX_INSERT then None else last_ex) ix"
      by (subst find_leaf_loop.simps) (simp add: here d(4) tree_at_node [OF t] c clean)
    then show ?thesis using that Node.prems(5) by (auto split: if_splits)
  qed
  have "d \<in> set ts" by (simp add: d)
  from Node.IH [OF this d(3) t d(5,6) step(2)] show ?case using step(1) by (simp add: pl)
qed

lemma find_leaf_ok:
  assumes "plain_cfg cfg" and t: "tree_at ix p t" and acc: "acc \<noteq> INDEX_NONE"
  obtains ctx a es last_ex where "find_leaf cfg p key acc ix = Some (RCOK, Some a, last_ex, ix)"
    "leaf_for key t ctx a es" "\<And>e. last_ex = Some e \<Longrightarrow> e \<in> faddr ` set ctx"
proof -
  have "find_root p ix = Some (addr t)" using t by (simp add: find_root_def tree_at_def)
  then show ?thesis using find_leaf_loop_ok [OF assms(1), of "[]" ix p t key None acc] t that assms(1) acc
    by (auto simp: find_leaf_def)
qed

section \<open>The entries of a tree\<close>

fun add_item :: "idx_key_t \<Rightarrow> item_data \<Rightarrow> (idx_key_t \<times> item_data list) list \<Rightarrow> (idx_key_t \<times> item_data list) list" where
  "add_item key item [] = [(key, [item])]"
| "add_item key item ((k, v) # es) =
     (if k = key then (k, item # v) # es else if key < k then (key, [item]) # (k, v) # es else (k, v) # add_item key item es)"

lemma fst_add_item: "fst ` set (add_item key item es) = insert key (fst ` set es)"
  by (induction key item es rule: add_item.induct) auto

lemma length_add_item: "length (add_item key item es) = (if key \<in> fst ` set es then length es else Suc (length es))"
  if "sorted_wrt (<) (map fst es)"
  using that by (induction key item es rule: add_item.induct) auto

lemma sorted_add_item: "sorted_wrt (<) (map fst es) \<Longrightarrow> sorted_wrt (<) (map fst (add_item key item es))"
proof (induction key item es rule: add_item.induct)
  case (2 key item k v es)
  have x: "fst e = key \<or> fst e \<in> fst ` set es" if "e \<in> set (add_item key item es)" for e
    using that fst_add_item [of key item es] by blast
  consider "k = key" | "key < k" | "k < key" by force
  then show ?case
  proof cases
    case 3
    then have "k < fst e" if "e \<in> set (add_item key item es)" for e using x [OF that] 2(2) by auto
    then show ?thesis using 2 3 by auto
  qed (use 2(2) in force)+
qed simp

lemma add_item_append:
  "\<forall>e\<in>set xs. fst e < key \<Longrightarrow> \<forall>e\<in>set zs. key < fst e \<Longrightarrow> add_item key item (xs @ ys @ zs) = xs @ add_item key item ys @ zs"
proof (induction xs)
  case Nil
  have "add_item key item zs = [(key, [item])] @ zs" using Nil by (cases zs) auto
  then show ?case by (induction key item ys rule: add_item.induct) auto
qed auto

lemma map_of_add_item:
  "sorted_wrt (<) (map fst es) \<Longrightarrow>
    map_of (add_item key item es) = (map_of es)(key \<mapsto> item # (case map_of es key of None \<Rightarrow> [] | Some v \<Rightarrow> v))"
proof (induction key item es rule: add_item.induct)
  case (2 key item k v es)
  consider "k = key" | "key < k" | "k < key" by force
  then show ?case
  proof cases
    case 2
    then have "map_of es key = None" using \<open>sorted_wrt (<) (map fst ((k, v) # es))\<close> by (force simp: map_of_eq_None_iff)
    then show ?thesis using 2 by (auto simp: fun_eq_iff)
  next
    case 3
    then show ?thesis using 2 by (auto simp: fun_eq_iff)
  qed auto
qed simp

lemma add_item_new:
  "key \<notin> fst ` set es \<Longrightarrow> add_item key item es = insert_at (length (takeWhile (\<lambda>k. k < key) (map fst es))) (key, [item]) es"
  by (induction key item es rule: add_item.induct) (auto simp: insert_at_def)

lemma add_item_old:
  "key \<in> fst ` set es \<Longrightarrow> sorted_wrt (<) (map fst es) \<Longrightarrow>
    \<exists>v. es ! length (takeWhile (\<lambda>k. k \<noteq> key) (map fst es)) = (key, v) \<and> length (takeWhile (\<lambda>k. k \<noteq> key) (map fst es)) < length es \<and>
      add_item key item es = es[length (takeWhile (\<lambda>k. k \<noteq> key) (map fst es)) := (key, item # v)]"
proof (induction key item es rule: add_item.induct)
  case (2 key item k v es)
  consider "k = key" | "key < k" | "k < key" by force
  then show ?case
  proof cases
    case 2
    then have "key \<notin> fst ` set ((k, v) # es)" using \<open>sorted_wrt (<) (map fst ((k, v) # es))\<close> by force
    then show ?thesis using \<open>key \<in> fst ` set ((k, v) # es)\<close> by blast
  next
    case 3
    then show ?thesis using 2 by auto
  qed auto
qed simp

definition entries :: "btree \<Rightarrow> (idx_key_t \<times> item_data list) list" where
  "entries t = kvs (toks t)"

lemma leaf_for_entries:
  assumes "leaf_for key t ctx a es"
  shows "entries t = kvs (ltoks ctx) @ es @ kvs (rtoks ctx)" "\<forall>e\<in>set (kvs (ltoks ctx)). fst e < key" "\<forall>e\<in>set (kvs (rtoks ctx)). key < fst e"
  using assms by (fastforce simp: leaf_for_def entries_def toks_plug set_kvs)+

lemma leaf_for_map_of:
  assumes "leaf_for key t ctx a es"
  shows "map_of (entries t) key = map_of es key"
proof -
  have "map_of (kvs (ltoks ctx)) key = None" "map_of (kvs (rtoks ctx)) key = None"
    using leaf_for_entries(2,3) [OF assms] by (auto simp: map_of_eq_None_iff)
  then show ?thesis by (simp add: leaf_for_entries(1) [OF assms] map_add_def split: option.split)
qed

lemma sorted_toks_entries: "sorted_wrt tord (toks t) \<Longrightarrow> sorted_wrt (<) (map fst (entries t))"
  by (simp add: entries_def sorted_kvs)

lemma leaf_sorted:
  assumes "leaf_for key t ctx a es" "sorted_wrt tord (toks t)"
  shows "sorted_wrt (<) (map fst es)"
  using sorted_toks_entries [OF assms(2)] by (simp add: leaf_for_entries(1) [OF assms(1)] sorted_wrt_append)

lemma sorted_keys: "sorted_wrt tord (map (\<lambda>(k, v). Key k v) es) \<longleftrightarrow> sorted_wrt (<) (map fst es)"
  by (induction es) auto

lemma tord_key_cong: "tord x (Key k v) \<longleftrightarrow> tord x (Key k w)" "tord (Key k v) x \<longleftrightarrow> tord (Key k w) x"
  by (cases x; simp)+

text \<open>Adding to the leaf keeps the order of the whole sequence.\<close>

lemma leaf_for_add_item:
  assumes l: "leaf_for key t ctx a es" and s: "sorted_wrt tord (toks t)"
  shows "sorted_wrt tord (ltoks ctx @ map (\<lambda>(k, v). Key k v) (add_item key item es) @ rtoks ctx)"
proof -
  let ?K = "map (\<lambda>(k, v). Key k v)"
  have old: "sorted_wrt tord (ltoks ctx @ ?K es @ rtoks ctx)" using l s by (simp add: leaf_for_def toks_plug)
  have key: "k = key \<or> (\<exists>w. (k, w) \<in> set es)" if "(k, v) \<in> set (add_item key item es)" for k v
  proof -
    have "k \<in> fst ` set (add_item key item es)" using that by force
    then show ?thesis unfolding fst_add_item by auto
  qed
  have "tord x (Key k v)" if x: "x \<in> set (ltoks ctx)" and kv: "(k, v) \<in> set (add_item key item es)" for x k v
  proof (cases "k = key")
    case True
    then show ?thesis using x l by (cases x) (auto simp: leaf_for_def)
  next
    case False
    then obtain w where "(k, w) \<in> set es" using key [OF kv] by blast
    then have "tord x (Key k w)" using old x by (force simp: sorted_wrt_append)
    then show ?thesis using tord_key_cong(1) by blast
  qed
  moreover have "tord (Key k v) x" if x: "x \<in> set (rtoks ctx)" and kv: "(k, v) \<in> set (add_item key item es)" for x k v
  proof (cases "k = key")
    case True
    then show ?thesis using x l by (cases x) (auto simp: leaf_for_def)
  next
    case False
    then obtain w where "(k, w) \<in> set es" using key [OF kv] by blast
    then have "tord (Key k w) x" using old x by (force simp: sorted_wrt_append)
    then show ?thesis using tord_key_cong(2) by blast
  qed
  moreover have "sorted_wrt tord (?K (add_item key item es))"
    using sorted_add_item [OF leaf_sorted [OF l s]] by (simp add: sorted_keys)
  ultimately show ?thesis using old by (auto simp: sorted_wrt_append)
qed

end
