(* ===== verification/Btree_Split.thy ===== *)
theory Btree_Split
  imports Btree_Search
begin

text \<open>
  Insertion changes the tree of its partition as it should: into a leaf with room, and by splitting a
  leaf and, from there upwards, the nodes that are full.
\<close>

section \<open>What an insertion leaves alone\<close>

definition same_elsewhere :: "nat \<Rightarrow> index_btree \<Rightarrow> index_btree \<Rightarrow> bool" where
  "same_elsewhere p ix ix' \<longleftrightarrow>
     (\<forall>b. fst b \<noteq> p \<longrightarrow> bt_heap ix' b = bt_heap ix b \<and> bt_live ix' b = bt_live ix b) \<and>
     length (roots ix') = length (roots ix) \<and> (\<forall>q. q \<noteq> p \<longrightarrow> roots ix' ! q = roots ix ! q) \<and>
     cur_leaf_per_thd ix' = cur_leaf_per_thd ix \<and> cur_idx_per_thd ix' = cur_idx_per_thd ix"

lemma same_elsewhereI:
  assumes "\<And>b. fst b \<noteq> p \<Longrightarrow> bt_heap ix' b = bt_heap ix b" "\<And>b. fst b \<noteq> p \<Longrightarrow> bt_live ix' b = bt_live ix b"
    and "length (roots ix') = length (roots ix)" "\<And>q. q \<noteq> p \<Longrightarrow> roots ix' ! q = roots ix ! q"
    and "cur_leaf_per_thd ix' = cur_leaf_per_thd ix" "cur_idx_per_thd ix' = cur_idx_per_thd ix"
  shows "same_elsewhere p ix ix'"
  using assms unfolding same_elsewhere_def by blast

lemma same_elsewhere_refl [simp]: "same_elsewhere p ix ix"
  by (simp add: same_elsewhere_def)

lemma same_elsewhere_trans: "same_elsewhere p ix ix1 \<Longrightarrow> same_elsewhere p ix1 ix2 \<Longrightarrow> same_elsewhere p ix ix2"
  by (simp add: same_elsewhere_def)

lemma same_elsewhere_tree:
  assumes "same_elsewhere p ix ix'" "q \<noteq> p" "tree_at ix q t"
  shows "tree_at ix' q t"
proof -
  have q: "fst a = q" if "a \<in> set (node_addrs t)" for a using that assms(3) by (simp add: tree_at_def)
  have h: "bt_heap ix' a = bt_heap ix a" "bt_live ix' a = bt_live ix a" if a: "a \<in> set (node_addrs t)" for a
    using q [OF a] assms(1,2) unfolding same_elsewhere_def by blast+
  have "rep (bt_heap ix') None t = rep (bt_heap ix) None t" using h by (intro rep_cong) auto
  moreover have "linked (bt_heap ix') (leaves t) = linked (bt_heap ix) (leaves t)"
    using h leaves_subset [of t] by (intro linked_cong) auto
  ultimately show ?thesis using assms h by (simp add: tree_at_def same_elsewhere_def)
qed

section \<open>A leaf with room\<close>

lemma tree_at_put_leaf:
  assumes t: "tree_at ix p (plug ctx (Leaf a es))" and ok: "frames_ok ctx" and n: "leaf_rep n es' (up ctx)" "bt_next n = bt_next (bt_heap ix a)"
    and len: "length es \<le> length es'" and s: "sorted_wrt tord (ltoks ctx @ map (\<lambda>(k, v). Key k v) es' @ rtoks ctx)"
  shows "tree_at (ix\<lparr>bt_heap := (bt_heap ix)(a := n)\<rparr>) p (plug ctx (Leaf a es'))"
proof -
  let ?h = "(bt_heap ix)(a := n)"
  have d: "distinct (a # caddrs ctx)"
    using t mset_eq_imp_distinct_iff [of "node_addrs (plug ctx (Leaf a es))" "a # caddrs ctx"] mset_addrs_plug [of ctx "Leaf a es"]
    by (simp add: tree_at_def)
  have "ctx_rep ?h ctx a = ctx_rep (bt_heap ix) ctx a" using d by (intro ctx_rep_cong) auto
  then have r: "rep ?h None (plug ctx (Leaf a es'))" using tree_at_rep [OF t] n(1) by (simp add: rep_plug)
  have m: "mset (node_addrs (plug ctx (Leaf a es'))) = mset (node_addrs (plug ctx (Leaf a es)))" by (simp add: mset_addrs_plug)
  have ad: "addr (plug ctx (Leaf a es')) = addr (plug ctx (Leaf a es))"
    by (cases "ctx = []") (simp_all add: addr_plug [of ctx "Leaf a es'" "Leaf a es"])
  have li: "linked ?h (leaves (plug ctx (Leaf a es')))"
  proof -
    have "linked ?h (leaves (plug ctx (Leaf a es))) = linked (bt_heap ix) (leaves (plug ctx (Leaf a es)))"
      using n(2) by (intro linked_cong) auto
    then show ?thesis using t by (simp add: tree_at_def leaves_plug)
  qed
  have "\<exists>k. top k (plug ctx (Leaf a es'))"
  proof -
    obtain k where k: "top k (plug ctx (Leaf a es))" using t by (auto simp: tree_at_def)
    then have "length ctx \<le> k" using top_plug_length [OF ok k] by simp
    then obtain j where j: "k = j + length ctx" by (metis add.commute le_Suc_ex)
    have "zshape j ctx (Leaf a es')" using zshape_plug [OF ok, of j "Leaf a es"] k len by (auto simp: j zshape_def)
    then show ?thesis using zshape_plug [OF ok, of j "Leaf a es'"] by blast
  qed
  moreover have "distinct (node_addrs (plug ctx (Leaf a es')))" "set (node_addrs (plug ctx (Leaf a es'))) = set (node_addrs (plug ctx (Leaf a es)))"
    using m t mset_eq_imp_distinct_iff [OF m] mset_eq_setD [OF m] by (simp_all add: tree_at_def)
  ultimately show ?thesis using t r ad li s by (simp add: tree_at_def toks_plug [OF ok])
qed

lemma leaf_rep_lookup:
  assumes r: "leaf_rep n es par"
  shows "leaf_has_key key (bt_keys n) (num_keys n) 0 =
      Some (if key \<in> fst ` set es then Some (length (takeWhile (\<lambda>k. k \<noteq> key) (map fst es))) else None)"
    "i < length es \<Longrightarrow> arr_get i (bt_pointers n) = Some (Items (snd (es ! i)))"
proof -
  have n: "num_keys n = length es" "length es \<le> length (bt_keys n)" "take (length es) (bt_keys n) = map fst es"
    "take (length es) (bt_pointers n) = map (\<lambda>e. Items (snd e)) es" "length es < length (bt_pointers n)"
    using r by (auto simp: leaf_rep_def node_ok_def BTREE_ORDER_def)
  show "leaf_has_key key (bt_keys n) (num_keys n) 0 =
      Some (if key \<in> fst ` set es then Some (length (takeWhile (\<lambda>k. k \<noteq> key) (map fst es))) else None)"
    using n(1-3) by (simp add: leaf_has_key_eq)
  show "arr_get i (bt_pointers n) = Some (Items (snd (es ! i)))" if "i < length es"
    using that n(4,5) by (metis (no_types, lifting) arr_get_Some length_map nth_map nth_take order_less_trans)
qed

lemma insert_into_leaf_ok:
  assumes t: "tree_at ix p (plug ctx (Leaf a es))" and so: "sorted_wrt (<) (map fst es)"
    and room: "length es < 15 \<or> key \<in> fst ` set es"
  obtains n where "insert_into_leaf a key item ix = Some (ix\<lparr>bt_heap := (bt_heap ix)(a := n)\<rparr>)"
    "leaf_rep n (add_item key item es) (up ctx)" "bt_next n = bt_next (bt_heap ix a)"
proof -
  let ?n = "bt_heap ix a"
  have r: "leaf_rep ?n es (up ctx)" using tree_at_rep [OF t] by simp
  have n: "num_keys ?n = length es" "length (bt_keys ?n) = 15" "length (bt_pointers ?n) = 16" "length es \<le> 15"
    "take (length es) (bt_keys ?n) = map fst es" "take (length es) (bt_pointers ?n) = map (\<lambda>e. Items (snd e)) es"
    using r by (auto simp: leaf_rep_def node_ok_def BTREE_ORDER_def)
  have at: "bt_at ix a = Some ?n" "bt_live ix a" using tree_at_node [OF t] tree_at_live [OF t, of a] by auto
  show ?thesis
  proof (cases "key \<in> fst ` set es")
    case True
    let ?i = "length (takeWhile (\<lambda>k. k \<noteq> key) (map fst es))"
    obtain v where v: "es ! ?i = (key, v)" "?i < length es" "add_item key item es = es[?i := (key, item # v)]"
      using add_item_old [OF True so] by blast
    let ?m = "?n\<lparr>bt_pointers := (bt_pointers ?n)[?i := Items (item # v)]\<rparr>"
    have "insert_into_leaf a key item ix = Some (ix\<lparr>bt_heap := (bt_heap ix)(a := ?m)\<rparr>)"
      using True leaf_rep_lookup [OF r] v(1,2) at by (simp add: insert_into_leaf_def bt_put_def)
    moreover have "take (length es) ((bt_pointers ?n)[?i := Items (item # v)]) = map (\<lambda>e. Items (snd e)) (es[?i := (key, item # v)])"
      using n(6) by (simp add: take_update_swap map_update)
    moreover have "map fst (es[?i := (key, item # v)]) = map fst es"
    proof -
      have "map fst (es[j := (key, w)]) = map fst es" if "es ! j = (key, v)" "j < length es" for j w
        using that by (intro nth_equalityI) (auto simp: nth_list_update)
      from this [OF v(1,2)] show ?thesis .
    qed
    ultimately show ?thesis using that [of ?m] r v(3) by (simp add: leaf_rep_def node_ok_def)
  next
    case False
    let ?i = "length (takeWhile (\<lambda>k. k < key) (map fst es))"
    have i: "?i \<le> length es" using length_takeWhile_le [of _ "map fst es"] by (metis length_map)
    have small: "length es < 15" using room False by simp
    have lk: "length es < length (bt_keys ?n)" and lp: "length es < length (bt_pointers ?n)" using small n(2,3) by simp_all
    obtain ks where ks: "shift_leaf (length es) ?i (bt_keys ?n) = Some ks" "length ks = length (bt_keys ?n)"
        "take (Suc (length es)) (ks[?i := key]) = insert_at ?i key (take (length es) (bt_keys ?n))"
      by (rule shift_leaf_insert [OF i lk])
    obtain ps where ps: "shift_leaf (length es) ?i (bt_pointers ?n) = Some ps" "length ps = length (bt_pointers ?n)"
        "take (Suc (length es)) (ps[?i := Items [item]]) = insert_at ?i (Items [item]) (take (length es) (bt_pointers ?n))"
      by (rule shift_leaf_insert [OF i lp])
    let ?m = "?n\<lparr>bt_keys := ks[?i := key], bt_pointers := ps[?i := Items [item]], num_keys := Suc (length es)\<rparr>"
    have "leaf_slot key (bt_keys ?n) (num_keys ?n) 0 = Some ?i" using n(1,2,4,5) by (simp add: leaf_slot_eq)
    then have "insert_into_leaf a key item ix = Some (ix\<lparr>bt_heap := (bt_heap ix)(a := ?m)\<rparr>)"
      using False leaf_rep_lookup(1) [OF r, of key] at n(1-3) ks(1,2) ps(1,2) i small
      by (simp add: insert_into_leaf_def bt_put_def BTREE_ORDER_def)
    moreover have "leaf_rep ?m (add_item key item es) (up ctx)"
      using r n ks(2,3) ps(2,3) small i add_item_new [OF False, of item]
      by (simp add: leaf_rep_def node_ok_def map_insert_at BTREE_ORDER_def)
    ultimately show ?thesis using that [of ?m] by simp
  qed
qed

section \<open>Splitting a leaf\<close>

definition with_node :: "bt_addr \<Rightarrow> bt_mem \<Rightarrow> index_btree \<Rightarrow> index_btree" where
  "with_node new h ix = ix\<lparr>bt_heap := h, bt_live := (bt_live ix)(new := True), bt_brk := bt_brk ix + 1\<rparr>"

lemma with_node_simps [simp]:
  "bt_heap (with_node new h ix) = h" "bt_live (with_node new h ix) = (bt_live ix)(new := True)"
  "bt_brk (with_node new h ix) = Suc (bt_brk ix)" "roots (with_node new h ix) = roots ix"
  "cur_leaf_per_thd (with_node new h ix) = cur_leaf_per_thd ix" "cur_idx_per_thd (with_node new h ix) = cur_idx_per_thd ix"
  by (simp_all add: with_node_def)

definition blank_node :: "bt_cfg \<Rightarrow> bool \<Rightarrow> bt_node" where
  "blank_node cfg leaf =
     \<lparr>bt_keys = replicate (BTREE_ORDER - 1) (junk_key cfg), bt_pointers = replicate BTREE_ORDER Null, is_leaf = leaf,
      bt_parent = None, num_keys = 0, bt_next = None, bt_latch = False, latch_type = LATCH_NONE, share_cnt = junk_cnt cfg\<rparr>"

lemma make_node_eq:
  "make_node cfg p leaf ix = ((p, bt_brk ix), with_node (p, bt_brk ix) ((bt_heap ix)((p, bt_brk ix) := blank_node cfg leaf)) ix)"
  by (simp add: make_node_def with_node_def blank_node_def Let_def)

lemma brk_fresh: "brk_ok ix \<Longrightarrow> \<not> bt_live ix (p, bt_brk ix)"
  by (auto simp: brk_ok_def)

lemma brk_ok_with_node: "brk_ok ix \<Longrightarrow> brk_ok (with_node (p, bt_brk ix) h ix)"
  by (auto simp: brk_ok_def less_Suc_eq)

lemma copy_low: "8 \<le> length xs \<Longrightarrow> 8 \<le> length old \<Longrightarrow> copy_range 8 0 0 xs old = Some (take 8 xs @ drop 8 old)"
  using copy_range_eq [of 0 8 xs 0 old] by simp

lemma copy_high: "length xs = 16 \<Longrightarrow> 8 \<le> length fresh \<Longrightarrow> copy_range 8 8 0 xs fresh = Some (drop 8 xs @ drop 8 fresh)"
  using copy_range_eq [of 8 8 xs 0 fresh] by simp

lemma split_lf_ok:
  assumes t: "tree_at ix p (plug ctx (Leaf a es))" and brk: "brk_ok ix" and len: "length es = 15" and new: "key \<notin> fst ` set es"
    and all: "all = add_item key item es"
  obtains n1 n2 where
    "split_lf cfg p a key item ix =
       Some (fst (all ! 8), (p, bt_brk ix), with_node (p, bt_brk ix) ((bt_heap ix)(a := n1, (p, bt_brk ix) := n2)) ix)"
    "leaf_rep n1 (take 8 all) (up ctx)" "leaf_rep n2 (drop 8 all) (up ctx)"
    "bt_next n1 = Some (p, bt_brk ix)" "bt_next n2 = bt_next (bt_heap ix a)"
proof -
  let ?n = "bt_heap ix a" and ?new = "(p, bt_brk ix)" and ?i = "length (takeWhile (\<lambda>k. k < key) (map fst es))"
  have r: "leaf_rep ?n es (up ctx)" using tree_at_rep [OF t] by simp
  have n: "num_keys ?n = 15" "length (bt_keys ?n) = 15" "length (bt_pointers ?n) = 16" "is_leaf ?n" "bt_parent ?n = up ctx"
    "take 15 (bt_keys ?n) = map fst es" "take 15 (bt_pointers ?n) = map (\<lambda>e. Items (snd e)) es"
    using r by (auto simp: leaf_rep_def node_ok_def BTREE_ORDER_def len)
  have live: "bt_live ix a" using tree_at_live [OF t, of a] by simp
  then have ne: "a \<noteq> ?new" using brk_fresh [OF brk] by auto
  have i: "?i \<le> 15" using length_takeWhile_le [of "\<lambda>k. k < key" "map fst es"] by (simp add: len)
  have al: "all = insert_at ?i (key, [item]) es" "length all = 16" using add_item_new [OF new, of item] i by (simp_all add: all len)
  obtain tk where tk: "copy_gap 15 ?i 0 0 (bt_keys ?n) (replicate 16 (junk_key cfg)) = Some tk" "length tk = 16"
      "take (Suc 15) (tk[?i := key]) = insert_at ?i key (take 15 (bt_keys ?n))"
    using copy_gap_insert [of 15 "bt_keys ?n" "replicate 16 (junk_key cfg)" ?i key] n(2) i by auto
  obtain tp where tp: "copy_gap 15 ?i 0 0 (bt_pointers ?n) (replicate 16 Null) = Some tp" "length tp = 16"
      "take (Suc 15) (tp[?i := Items [item]]) = insert_at ?i (Items [item]) (take 15 (bt_pointers ?n))"
    using copy_gap_insert [of 15 "bt_pointers ?n" "replicate 16 Null" ?i "Items [item]"] n(3) i by auto
  have k: "tk[?i := key] = map fst all" using tk(2,3) n(6) by (simp add: al(1) map_insert_at)
  have q: "tp[?i := Items [item]] = map (\<lambda>e. Items (snd e)) all" using tp(2,3) n(7) by (simp add: al(1) map_insert_at)
  let ?ok = "map fst (take 8 all) @ drop 8 (bt_keys ?n)" and ?op = "map (\<lambda>e. Items (snd e)) (take 8 all) @ drop 8 (bt_pointers ?n)"
  let ?nk = "map fst (drop 8 all) @ replicate 7 (junk_key cfg)" and ?np = "map (\<lambda>e. Items (snd e)) (drop 8 all) @ replicate 8 Null"
  let ?op' = "map (\<lambda>e. Items (snd e)) (take 8 all) @ replicate 7 Null @ drop 15 (bt_pointers ?n)"
  have c: "copy_range 8 0 0 (map fst all) (bt_keys ?n) = Some ?ok" "copy_range 8 0 0 (map (\<lambda>e. Items (snd e)) all) (bt_pointers ?n) = Some ?op"
    "copy_range 8 8 0 (map fst all) (replicate 15 (junk_key cfg)) = Some ?nk"
    "copy_range 8 8 0 (map (\<lambda>e. Items (snd e)) all) (replicate 16 Null) = Some ?np"
    using al(2) n(2,3) by (simp_all add: copy_low copy_high take_map drop_map)
  have rp: "replicate 7 Null @ [Null] = replicate 8 Null" by (simp add: numeral_eq_Suc)
  have z: "null_range 7 8 ?op = Some ?op'" "null_range 7 8 ?np = Some ?np"
    using null_range_eq [of 8 7 ?op] null_range_eq [of 8 7 ?np] n(3) al(2) by (simp_all add: rp)
  let ?n1 = "?n\<lparr>bt_keys := ?ok, bt_pointers := ?op', num_keys := 8, bt_next := Some ?new\<rparr>"
  let ?n2 = "(blank_node cfg True)\<lparr>bt_keys := ?nk, bt_pointers := ?np, num_keys := 8, bt_next := bt_next ?n, bt_parent := bt_parent ?n\<rparr>"
  have s: "leaf_slot key (bt_keys ?n) 15 0 = Some ?i" using n(2,6) by (simp add: leaf_slot_eq)
  have g: "arr_get 0 ?nk = Some (fst (all ! 8))" using al(2) by (simp add: arr_get_def nth_append)
  have "split_lf cfg p a key item ix = Some (fst (all ! 8), ?new, with_node ?new ((bt_heap ix)(a := ?n1, ?new := ?n2)) ix)"
    using ne live i tk(1,2) tp(1,2) n(1) s k q c z g
    unfolding split_lf_def make_lf_def make_node_eq
    by (simp add: bt_at_def bt_put_def BTREE_ORDER_def cut_def blank_node_def with_node_def fun_upd_twist [OF ne])
  moreover have "leaf_rep ?n1 (take 8 all) (up ctx)" "leaf_rep ?n2 (drop 8 all) (up ctx)"
    using n al(2) by (simp_all add: leaf_rep_def node_ok_def blank_node_def BTREE_ORDER_def)
  ultimately show ?thesis using that [of ?n1 ?n2] by simp
qed

end
