(* ===== verification/Btree_Parent.thy ===== *)
theory Btree_Parent
  imports Btree_Split
begin

text \<open>
  \<open>insert_into_parent\<close>: a path whose last child has become two, with a key between them.  Going up,
  either the parent takes the new child, or it is split and the path gets shorter, or there is no
  parent and the two get a new root.  The parent cannot take a child that is not to the right of one of
  its keys: there the loop that makes room leaves the array.
\<close>

section \<open>Two trees at the end of a path\<close>

definition two_at :: "index_btree \<Rightarrow> nat \<Rightarrow> path_frame list \<Rightarrow> btree \<Rightarrow> idx_key_t \<Rightarrow> btree \<Rightarrow> bool" where
  "two_at ix p ctx l key r \<longleftrightarrow>
     frames_ok ctx \<and> rep (bt_heap ix) (up ctx) l \<and> rep (bt_heap ix) (up ctx) r \<and> ctx_rep (bt_heap ix) ctx (addr l) \<and>
     distinct (node_addrs l @ node_addrs r @ caddrs ctx) \<and> (\<forall>a\<in>set (node_addrs l @ node_addrs r @ caddrs ctx). bt_live ix a \<and> fst a = p) \<and>
     sorted_wrt tord (ltoks ctx @ toks l @ Sep key # toks r @ rtoks ctx) \<and> (\<exists>n. full n l \<and> full n r \<and> cshape n ctx) \<and>
     linked (bt_heap ix) (lleaves ctx @ leaves l @ leaves r @ rleaves ctx) \<and>
     p < length (roots ix) \<and> roots ix ! p = addr (plug ctx l) \<and> brk_ok ix"

definition grown :: "index_btree \<Rightarrow> nat \<Rightarrow> tok list \<Rightarrow> index_btree \<Rightarrow> bool" where
  "grown ix p ts ix' \<longleftrightarrow> (\<exists>t. tree_at ix' p t \<and> toks t = ts) \<and> brk_ok ix' \<and> same_elsewhere p ix ix'"

lemma addr_leaf: "distinct (node_addrs t) \<Longrightarrow> addr t \<in> set (leaves t) \<Longrightarrow> \<exists>es. t = Leaf (addr t) es"
proof (cases t)
  case (Node a ks ts)
  assume "distinct (node_addrs t)" "addr t \<in> set (leaves t)"
  then obtain s where "s \<in> set ts" "a \<in> set (leaves s)" by (auto simp: Node)
  then have "a \<in> set (node_addrs s)" using leaves_subset by blast
  then show ?thesis using \<open>distinct (node_addrs t)\<close> \<open>s \<in> set ts\<close> by (auto simp: Node)
qed auto

section \<open>A new root\<close>

text \<open>Two leaves are linked already; the link between inner nodes means nothing.\<close>

lemma two_at_next:
  assumes t: "two_at ix p [] l key r" and x: "addr l \<in> set (leaves l @ leaves r)"
  shows "bt_next (bt_heap ix (addr l)) = Some (addr r)"
proof -
  have d: "distinct (node_addrs l)" "set (node_addrs l) \<inter> set (node_addrs r) = {}" using t by (auto simp: two_at_def)
  then have "addr l \<in> set (leaves l)" using x leaves_subset [of r] addr_in_addrs [of l] unfolding set_append by blast
  then obtain es where l: "l = Leaf (addr l) es" using addr_leaf [OF d(1)] by blast
  then obtain es' where "r = Leaf (addr r) es'" using t by (cases r; cases l) (auto simp: two_at_def)
  moreover have "linked (bt_heap ix) (leaves l @ leaves r)" using t by (simp add: two_at_def)
  ultimately show ?thesis using l by (metis append_Cons append_Nil leaves.simps(1) linked.simps(3))
qed

lemma new_root_ok:
  assumes t: "two_at ix p [] l key r"
  shows "\<exists>ix'. insert_into_new_root cfg p (addr l) key (addr r) ix = Some ix' \<and> grown ix p (toks l @ Sep key # toks r) ix'"
proof -
  let ?h = "bt_heap ix" and ?a = "addr l" and ?b = "addr r" and ?c = "(p, bt_brk ix)"
  have d: "distinct (node_addrs l)" "distinct (node_addrs r)" "set (node_addrs l) \<inter> set (node_addrs r) = {}" using t by (auto simp: two_at_def)
  have live: "bt_live ix a \<and> fst a = p" if "a \<in> set (node_addrs l) \<union> set (node_addrs r)" for a using t that by (auto simp: two_at_def)
  have nc: "?c \<notin> set (node_addrs l) \<union> set (node_addrs r)" using live brk_fresh [of ix p] t by (auto simp: two_at_def)
  have ne: "?a \<noteq> ?b" "?c \<noteq> ?a" "?c \<noteq> ?b"
    using d(3) nc by (metis IntI addr_in_addrs empty_iff, metis UnCI addr_in_addrs, metis UnCI addr_in_addrs)
  let ?n = "(blank_node cfg False)\<lparr>bt_keys := (replicate 15 (junk_key cfg))[0 := key],
      bt_pointers := (replicate 16 Null)[0 := Child ?a, 1 := Child ?b], num_keys := 1\<rparr>"
  let ?h' = "?h(?c := ?n, ?a := (?h ?a)\<lparr>bt_parent := Some ?c, bt_next := Some ?b\<rparr>, ?b := (?h ?b)\<lparr>bt_parent := Some ?c\<rparr>)"
  let ?ix = "(with_node ?c ?h' ix)\<lparr>roots := (roots ix)[p := ?c]\<rparr>"
  have lv: "bt_live ix ?a" "bt_live ix ?b" using live by auto
  have pl: "p < length (roots ix)" using t by (simp add: two_at_def)
  have run: "insert_into_new_root cfg p ?a key ?b ix = Some ?ix"
    using ne lv pl unfolding insert_into_new_root_def make_nl_def make_node_eq
    by (auto simp: bt_at_def bt_put_def with_node_def blank_node_def BTREE_ORDER_def fun_upd_twist)
  have "rep (?h(?a := (?h ?a)\<lparr>bt_parent := Some ?c\<rparr>)) (Some ?c) l" "rep (?h(?b := (?h ?b)\<lparr>bt_parent := Some ?c\<rparr>)) (Some ?c) r"
    using rep_set_parent d t by (auto simp: two_at_def)
  then have "rep (?h(?a := (?h ?a)\<lparr>bt_parent := Some ?c, bt_next := Some ?b\<rparr>)) (Some ?c) l"
    "rep (?h(?b := (?h ?b)\<lparr>bt_parent := Some ?c\<rparr>)) (Some ?c) r"
    using rep_next [OF d(1), of "?h(?a := (?h ?a)\<lparr>bt_parent := Some ?c\<rparr>)" "Some ?b" "Some ?c"] by simp_all
  moreover have "x \<noteq> ?b \<and> x \<noteq> ?c" if "x \<in> set (node_addrs l)" for x
    using that d(3) nc addr_in_addrs [of r] by (metis IntI UnCI empty_iff)
  then have "rep ?h' (Some ?c) l = rep (?h(?a := (?h ?a)\<lparr>bt_parent := Some ?c, bt_next := Some ?b\<rparr>)) (Some ?c) l"
    by (intro rep_cong) simp
  moreover have "x \<noteq> ?a \<and> x \<noteq> ?c" if "x \<in> set (node_addrs r)" for x
    using that d(3) nc addr_in_addrs [of l] by (metis IntI UnCI empty_iff)
  then have "rep ?h' (Some ?c) r = rep (?h(?b := (?h ?b)\<lparr>bt_parent := Some ?c\<rparr>)) (Some ?c) r"
    by (intro rep_cong) simp
  ultimately have rp: "rep ?h' (Some ?c) l" "rep ?h' (Some ?c) r" by blast+
  moreover have "inner_rep ?n [key] [?a, ?b] None"
    by (simp add: inner_rep_def node_ok_def blank_node_def BTREE_ORDER_def numeral_eq_Suc)
  ultimately have rep: "rep ?h' None (Node ?c [key] [l, r])" using ne by simp
  have "bt_next (?h' x) = bt_next (?h x)" if x: "x \<in> set (leaves l @ leaves r)" for x
  proof (cases "x = ?a")
    case True
    then show ?thesis using two_at_next [OF t] x ne by simp
  next
    case False
    then show ?thesis using x nc leaves_subset [of l] leaves_subset [of r] by auto
  qed
  then have "linked ?h' (leaves (Node ?c [key] [l, r]))" using linked_cong [of "leaves l @ leaves r" ?h' ?h] t by (simp add: two_at_def)
  moreover obtain n where "full n l" "full n r" using t by (auto simp: two_at_def)
  then have "top (Suc n) (Node ?c [key] [l, r])" by simp
  ultimately have "tree_at ?ix p (Node ?c [key] [l, r])"
    using rep pl d nc live t by (auto simp: tree_at_def two_at_def)
  moreover have "same_elsewhere p ix ?ix"
  proof (rule same_elsewhereI)
    have f: "fst ?a = p" "fst ?b = p" "fst ?c = p" using live by auto
    show "bt_heap ?ix b = bt_heap ix b" "bt_live ?ix b = bt_live ix b" if "fst b \<noteq> p" for b
      using f that by (cases "b = ?a \<or> b = ?b \<or> b = ?c"; auto)+
  qed auto
  moreover have "brk_ok ?ix" using brk_ok_with_node [of ix p ?h'] t by (simp add: two_at_def brk_ok_def)
  ultimately show ?thesis using run unfolding grown_def
    by (intro exI [of _ ?ix] conjI exI [of _ "Node ?c [key] [l, r]"]) simp_all
qed

section \<open>A parent with room\<close>

lemma tree_at_plugI:
  assumes ok: "frames_ok fs" and r: "rep (bt_heap ix) (up fs) t" "ctx_rep (bt_heap ix) fs (addr t)"
    and d: "distinct (node_addrs t @ caddrs fs)" and live: "\<And>a. a \<in> set (node_addrs t @ caddrs fs) \<Longrightarrow> bt_live ix a \<and> fst a = p"
    and s: "sorted_wrt tord (ltoks fs @ toks t @ rtoks fs)" and z: "zshape n fs t"
    and li: "linked (bt_heap ix) (lleaves fs @ leaves t @ rleaves fs)" and root: "p < length (roots ix)" "roots ix ! p = addr (plug fs t)"
  shows "tree_at ix p (plug fs t)"
proof -
  have m: "mset (node_addrs (plug fs t)) = mset (node_addrs t @ caddrs fs)" by (simp add: mset_addrs_plug)
  have "distinct (node_addrs (plug fs t))" using d mset_eq_imp_distinct_iff [OF m] by blast
  moreover have "\<forall>a\<in>set (node_addrs (plug fs t)). bt_live ix a \<and> fst a = p" using live mset_eq_setD [OF m] by blast
  moreover have "top (n + length fs) (plug fs t)" using z zshape_plug [OF ok] by blast
  ultimately show ?thesis using r s li root ok by (auto simp: tree_at_def rep_plug toks_plug leaves_plug)
qed

lemma two_at_frame:
  assumes t: "two_at ix p (Frame a ks1 ts1 ks2 ts2 # fs) l key r"
  shows "length ts1 = length ks1" "length ts2 = length ks2" "frames_ok fs"
    "inner_rep (bt_heap ix a) (ks1 @ ks2) (map addr ts1 @ addr l # map addr ts2) (up fs)" "ctx_rep (bt_heap ix) fs a"
    "\<And>u. u \<in> set (ts1 @ l # r # ts2) \<Longrightarrow> rep (bt_heap ix) (Some a) u"
    "distinct (a # concat (map node_addrs (ts1 @ l # r # ts2)) @ caddrs fs)"
    "\<And>b. b \<in> set (a # concat (map node_addrs (ts1 @ l # r # ts2)) @ caddrs fs) \<Longrightarrow> bt_live ix b \<and> fst b = p"
    "sorted_wrt tord (ltoks fs @ (lweave (map Sep ks1) (map toks ts1) @ toks l @ Sep key # toks r @ rweave (map Sep ks2) (map toks ts2)) @ rtoks fs)"
    "linked (bt_heap ix) (lleaves fs @ concat (map leaves (ts1 @ l # r # ts2)) @ rleaves fs)"
    "roots ix ! p = addr (plug fs (Node a xs ys))" "p < length (roots ix)" "brk_ok ix"
proof -
  have m: "mset (a # concat (map node_addrs (ts1 @ l # r # ts2)) @ caddrs fs) = mset (node_addrs l @ node_addrs r @ caddrs (Frame a ks1 ts1 ks2 ts2 # fs))"
    by simp
  show "distinct (a # concat (map node_addrs (ts1 @ l # r # ts2)) @ caddrs fs)"
    using t mset_eq_imp_distinct_iff [OF m] unfolding two_at_def by blast
  show "bt_live ix b \<and> fst b = p" if "b \<in> set (a # concat (map node_addrs (ts1 @ l # r # ts2)) @ caddrs fs)" for b
    using t that mset_eq_setD [OF m] unfolding two_at_def by blast
  have "roots ix ! p = addr (plug fs (Node a (ks1 @ ks2) (ts1 @ l # ts2)))" using t by (simp add: two_at_def)
  then show "roots ix ! p = addr (plug fs (Node a xs ys))"
    using addr_plug [of fs "Node a (ks1 @ ks2) (ts1 @ l # ts2)" "Node a xs ys"] by (cases "fs = []") auto
qed (use t in \<open>auto simp: two_at_def\<close>)

lemma two_at_shape:
  assumes "two_at ix p (Frame a ks1 ts1 ks2 ts2 # fs) l key r"
  obtains n where "\<forall>u\<in>set (ts1 @ l # r # ts2). full n u" "cshape (Suc n) fs" "(if fs = [] then 1 else 7) \<le> length ks1 + length ks2"
proof -
  obtain n where "full n l" "full n r" "cshape n (Frame a ks1 ts1 ks2 ts2 # fs)" using assms unfolding two_at_def by blast
  then show ?thesis using that [of n] by auto
qed

lemma sorted_middle: "sorted_wrt P (xs @ ys @ zs) \<Longrightarrow> sorted_wrt P ys"
  by (simp add: sorted_wrt_append)

lemma sorted_pair: "sorted_wrt P (xs @ ys) \<Longrightarrow> x \<in> set xs \<Longrightarrow> y \<in> set ys \<Longrightarrow> P x y"
  by (simp add: sorted_wrt_append)

lemma two_at_slot:
  assumes t: "two_at ix p (Frame a ks1 ts1 ks2 ts2 # fs) l key r"
  shows "parent_slot junk key (bt_keys (bt_heap ix a)) (num_keys (bt_heap ix a)) 0 = length ks1"
proof -
  note f = two_at_frame [OF t]
  have s: "sorted_wrt tord (lweave (map Sep ks1) (map toks ts1) @ toks l @ Sep key # toks r @ rweave (map Sep ks2) (map toks ts2))"
    by (rule sorted_middle [OF f(9)])
  have "k < key" if "k \<in> set ks1" for k
  proof -
    have "Sep k \<in> set (lweave (map Sep ks1) (map toks ts1))" using that set_lweave [of "map toks ts1" "map Sep ks1"] f(1) by auto
    then have "tord (Sep k) (Sep key)" by (rule sorted_pair [OF s]) simp
    then show ?thesis by simp
  qed
  moreover have "\<not> k < key" if "k \<in> set ks2" for k
  proof -
    have "Sep k \<in> set (rweave (map Sep ks2) (map toks ts2))" using that set_rweave [of "map toks ts2" "map Sep ks2"] f(2) by auto
    then have "tord (Sep key) (Sep k)" using sorted_pair [of tord "lweave (map Sep ks1) (map toks ts1) @ toks l @ [Sep key]" "toks r @ rweave (map Sep ks2) (map toks ts2)" "Sep key" "Sep k"] s
      by simp
    then show ?thesis by simp
  qed
  ultimately have "takeWhile (\<lambda>k. k < key) (ks1 @ ks2) = ks1" by (cases ks2) (auto simp: takeWhile_append)
  moreover have "num_keys (bt_heap ix a) = length (ks1 @ ks2)" "length (ks1 @ ks2) \<le> length (bt_keys (bt_heap ix a))"
    "take (length (ks1 @ ks2)) (bt_keys (bt_heap ix a)) = ks1 @ ks2"
    using f(4) by (auto simp: inner_rep_def node_ok_def)
  ultimately show ?thesis by (simp add: parent_slot_eq)
qed

lemma toks_two:
  assumes "length ts1 = length ks1" "length ts2 = length ks2"
  shows "toks (Node a (ks1 @ key # ks2) (ts1 @ l # r # ts2)) =
    lweave (map Sep ks1) (map toks ts1) @ toks l @ Sep key # toks r @ rweave (map Sep ks2) (map toks ts2)"
  using weave_split [of "map toks (ts1 @ [l])" "map Sep ks1" "Sep key" "map Sep ks2" "map toks (r # ts2)"]
    weave_focus [of "map toks ts1" "map Sep ks1" "[]" "[]" "toks l"] weave_front [of "map toks ts2" "map Sep ks2" "toks r"] assms
  by simp

lemma parent_room_ok:
  assumes t: "two_at ix p (Frame a ks1 ts1 ks2 ts2 # fs) l key r" and room: "length ks1 + length ks2 < 15"
    and n: "inner_rep n (ks1 @ key # ks2) (map addr (ts1 @ l # r # ts2)) (up fs)" "bt_next n = bt_next (bt_heap ix a)"
  shows "grown ix p (ltoks fs @ (lweave (map Sep ks1) (map toks ts1) @ toks l @ Sep key # toks r @ rweave (map Sep ks2) (map toks ts2)) @ rtoks fs)
    (ix\<lparr>bt_heap := (bt_heap ix)(a := n)\<rparr>)"
proof -
  note f = two_at_frame [OF t]
  let ?h = "(bt_heap ix)(a := n)" and ?t = "Node a (ks1 @ key # ks2) (ts1 @ l # r # ts2)"
  let ?ix = "ix\<lparr>bt_heap := ?h\<rparr>"
  obtain k where k: "\<forall>u\<in>set (ts1 @ l # r # ts2). full k u" "cshape (Suc k) fs" "(if fs = [] then 1 else 7) \<le> length ks1 + length ks2"
    by (rule two_at_shape [OF t])
  have "rep ?h (Some a) u" if u: "u \<in> set (ts1 @ l # r # ts2)" for u
  proof -
    have "a \<notin> set (node_addrs u)" using u f(7) by auto
    then have "rep ?h (Some a) u = rep (bt_heap ix) (Some a) u" by (intro rep_cong) auto
    then show ?thesis using f(6) [OF u] by simp
  qed
  then have r: "rep (bt_heap ?ix) (up fs) ?t" using n(1) by auto
  have "ctx_rep ?h fs a = ctx_rep (bt_heap ix) fs a" using f(7) by (intro ctx_rep_cong) auto
  then have c: "ctx_rep (bt_heap ?ix) fs (addr ?t)" using f(5) by simp
  have li: "linked (bt_heap ?ix) (lleaves fs @ leaves ?t @ rleaves fs)"
    using f(10) linked_cong [of _ ?h "bt_heap ix"] n(2) by simp
  have z: "zshape (Suc k) fs ?t" using k f(1,2) by (auto simp: zshape_def)
  have "tree_at ?ix p (plug fs ?t)"
  proof (rule tree_at_plugI [OF f(3) r c _ _ _ z li])
    show "distinct (node_addrs ?t @ caddrs fs)" using f(7) by simp
    show "bt_live ?ix b \<and> fst b = p" if "b \<in> set (node_addrs ?t @ caddrs fs)" for b using f(8) [of b] that by simp
    show "sorted_wrt tord (ltoks fs @ toks ?t @ rtoks fs)" using f(9) unfolding toks_two [OF f(1,2)] .
  qed (use f(11,12) in simp_all)
  moreover have "toks (plug fs ?t) = ltoks fs @ (lweave (map Sep ks1) (map toks ts1) @ toks l @ Sep key # toks r @ rweave (map Sep ks2) (map toks ts2)) @ rtoks fs"
    using toks_two [OF f(1,2)] by (simp add: toks_plug [OF f(3)])
  moreover have "same_elsewhere p ix ?ix" using f(8) [of a] by (intro same_elsewhereI) auto
  moreover have "brk_ok ?ix" using f(13) by (simp add: brk_ok_def)
  ultimately show ?thesis unfolding grown_def by blast
qed

section \<open>Splitting an inner node\<close>

lemma set_parents_eq:
  "i + length cs \<le> length ps \<Longrightarrow> take (length cs) (drop i ps) = map Child cs \<Longrightarrow> \<forall>c\<in>set cs. bt_live ix c \<Longrightarrow>
    set_parents (length cs) i ps a ix =
      Some (ix\<lparr>bt_heap := (\<lambda>b. if b \<in> set cs then (bt_heap ix b)\<lparr>bt_parent := Some a\<rparr> else bt_heap ix b)\<rparr>)"
proof (induction cs arbitrary: i ix)
  case (Cons c cs)
  have "drop i ps = ps ! i # drop (Suc i) ps" using Cons.prems(1) by (simp add: Cons_nth_drop_Suc)
  then have ps: "ps ! i = Child c" "take (length cs) (drop (Suc i) ps) = map Child cs" using Cons.prems(2) by simp_all
  let ?ix = "ix\<lparr>bt_heap := (bt_heap ix)(c := (bt_heap ix c)\<lparr>bt_parent := Some a\<rparr>)\<rparr>"
  have "set_parents (length (c # cs)) i ps a ix = set_parents (length cs) (Suc i) ps a ?ix"
    using Cons.prems ps(1) by (simp add: bt_at_def bt_put_def)
  also have "\<dots> = Some (?ix\<lparr>bt_heap := (\<lambda>b. if b \<in> set cs then (bt_heap ?ix b)\<lparr>bt_parent := Some a\<rparr> else bt_heap ?ix b)\<rparr>)"
    by (rule Cons.IH) (use Cons.prems ps(2) in simp_all)
  also have "\<dots> = Some (ix\<lparr>bt_heap := (\<lambda>b. if b \<in> set (c # cs) then (bt_heap ix b)\<lparr>bt_parent := Some a\<rparr> else bt_heap ix b)\<rparr>)"
    by (auto simp: fun_eq_iff)
  finally show ?case .
qed simp

lemma with_node_update [simp]: "(with_node new h ix)\<lparr>bt_heap := h'\<rparr> = with_node new h' ix"
  by (simp add: with_node_def)

lemma with_node_access [simp]:
  "b = new \<or> bt_live ix b \<Longrightarrow> bt_at (with_node new h ix) b = Some (h b)"
  "b = new \<or> bt_live ix b \<Longrightarrow> bt_put b n (with_node new h ix) = Some (with_node new (h(b := n)) ix)"
  by (auto simp: bt_at_def bt_put_def)

lemma set_parents_with_node:
  assumes "length cs = m" "m \<le> length ps" "take m ps = map Child cs" "\<forall>c\<in>set cs. bt_live ix c"
  shows "set_parents m 0 ps a (with_node new h ix) = Some (with_node new (\<lambda>b. if b \<in> set cs then (h b)\<lparr>bt_parent := Some a\<rparr> else h b) ix)"
  using set_parents_eq [of 0 cs ps "with_node new h ix" a] assms by (simp cong: if_cong)

lemma Suc_8: "Suc 8 = 9"
  by simp

lemma Suc_15: "Suc 15 = 16"
  by simp

text \<open>What the split does to the arrays: the keys and children with the new ones in place are cut in two.\<close>

lemma split_nl_run:
  assumes r: "inner_rep (bt_heap ix a) (ks1 @ ks2) (cs1 @ c # cs2) par" and len: "length cs1 = length ks1" "length ks1 + length ks2 = 15"
    and live: "bt_live ix a" "\<forall>b\<in>set (drop 8 (cs1 @ c # d # cs2)). bt_live ix b" and brk: "brk_ok ix"
    and K: "K = ks1 @ key # ks2" and C: "C = cs1 @ c # d # cs2" and new: "new = (p, bt_brk ix)"
  obtains n1 n2 where
    "split_nl cfg p a (length ks1) key d ix = Some (K ! 7, new, with_node new
       (\<lambda>b. if b \<in> set (drop 8 C) then (((bt_heap ix)(a := n1, new := n2)) b)\<lparr>bt_parent := Some new\<rparr> else ((bt_heap ix)(a := n1, new := n2)) b) ix)"
    "inner_rep n1 (take 7 K) (take 8 C) par" "inner_rep n2 (drop 8 K) (drop 8 C) par"
proof -
  let ?n = "bt_heap ix a" and ?i = "length ks1"
  have n: "num_keys ?n = 15" "length (bt_keys ?n) = 15" "length (bt_pointers ?n) = 16" "\<not> is_leaf ?n" "bt_parent ?n = par"
    "take 15 (bt_keys ?n) = ks1 @ ks2" "take 16 (bt_pointers ?n) = map Child (cs1 @ c # cs2)" "length cs2 = length ks2"
    using r len by (auto simp: inner_rep_def node_ok_def BTREE_ORDER_def)
  have ne: "a \<noteq> new" using live(1) brk_fresh [OF brk] new by auto
  have l: "length K = 16" "length C = 17" using len n(8) by (simp_all add: K C)
  obtain tk where tk: "copy_gap 15 ?i 0 0 (bt_keys ?n) (replicate 16 (junk_key cfg)) = Some tk" "length tk = 16"
      "take (Suc 15) (tk[?i := key]) = insert_at ?i key (take 15 (bt_keys ?n))"
    using copy_gap_insert [of 15 "bt_keys ?n" "replicate 16 (junk_key cfg)" ?i key] n(2) len by auto
  obtain tp where tp: "copy_gap 16 (Suc ?i) 0 0 (bt_pointers ?n) (replicate 17 Null) = Some tp" "length tp = 17"
      "take (Suc 16) (tp[Suc ?i := Child d]) = insert_at (Suc ?i) (Child d) (take 16 (bt_pointers ?n))"
    using copy_gap_insert [of 16 "bt_pointers ?n" "replicate 17 Null" "Suc ?i" "Child d"] n(3) len by auto
  have k: "tk[?i := key] = K" using tk(2,3) n(6) by (simp add: K)
  have "insert_at (Suc ?i) (Child d) (map Child (cs1 @ c # cs2)) = map Child C"
    using insert_at_append [of "map Child (cs1 @ [c])" "Child d" "map Child cs2"] len(1) by (simp add: C)
  then have q: "tp[Suc ?i := Child d] = map Child C" using tp(2,3) n(7) by simp
  let ?ok = "take 7 K @ drop 7 (bt_keys ?n)" and ?op = "take 7 (map Child C) @ drop 7 (bt_pointers ?n)"
  let ?nk = "drop 8 K @ replicate 7 (junk_key cfg)" and ?np = "take 8 (drop 8 (map Child C)) @ replicate 8 Null"
  have cp: "copy_range 7 0 0 (map Child C) (bt_pointers ?n) = Some ?op" "copy_range 7 0 0 K (bt_keys ?n) = Some ?ok"
    "copy_range 8 8 0 (map Child C) (replicate 16 Null) = Some ?np" "copy_range 8 8 0 K (replicate 15 (junk_key cfg)) = Some ?nk"
    using l n(2,3) by (simp_all add: copy_range_eq)
  let ?op' = "?op[7 := Child (C ! 7)]" and ?np' = "?np[8 := Child (C ! 16)]"
  have o8: "take 8 ?op' = map Child (take 8 C)"
    by (rule nth_equalityI) (use l n(3) in \<open>auto simp: nth_list_update nth_append less_Suc_eq numeral_eq_Suc\<close>)
  have n9: "take 9 ?np' = map Child (drop 8 C)"
    by (rule nth_equalityI) (use l in \<open>auto simp: nth_list_update nth_append less_Suc_eq numeral_eq_Suc\<close>)
  let ?n1 = "?n\<lparr>bt_keys := ?ok, bt_pointers := ?op', num_keys := 7, bt_next := Some new\<rparr>"
  let ?n2 = "(blank_node cfg False)\<lparr>bt_keys := ?nk, bt_pointers := ?np', num_keys := 8, bt_next := bt_next ?n, bt_parent := par\<rparr>"
  have sp: "set_parents 9 0 ?np' new (with_node new ((bt_heap ix)(a := ?n1, new := ?n2)) ix) =
    Some (with_node new (\<lambda>b. if b \<in> set (drop 8 C) then (((bt_heap ix)(a := ?n1, new := ?n2)) b)\<lparr>bt_parent := Some new\<rparr>
       else ((bt_heap ix)(a := ?n1, new := ?n2)) b) ix)"
    by (rule set_parents_with_node) (use l n9 live(2) C in simp_all)
  have "split_nl cfg p a (length ks1) key d ix =
      do { ix4 \<leftarrow> set_parents 9 0 ?np' new (with_node new ((bt_heap ix)(a := ?n1, new := ?n2)) ix); Some (K ! 7, new, ix4) }"
    using ne live(1) tk(1,2) tp(1,2) n k q cp l len
    unfolding split_nl_def make_node_eq new [symmetric]
    by (simp add: BTREE_ORDER_def cut_def blank_node_def fun_upd_twist [OF ne] Suc_15 Suc_8 del: set_parents.simps copy_gap.simps)
  then have "split_nl cfg p a (length ks1) key d ix = Some (K ! 7, new, with_node new
       (\<lambda>b. if b \<in> set (drop 8 C) then (((bt_heap ix)(a := ?n1, new := ?n2)) b)\<lparr>bt_parent := Some new\<rparr> else ((bt_heap ix)(a := ?n1, new := ?n2)) b) ix)"
    unfolding sp Option.bind.simps .
  moreover have "inner_rep ?n1 (take 7 K) (take 8 C) par" "inner_rep ?n2 (drop 8 K) (drop 8 C) par"
    using n(1-5) l o8 n9 by (simp_all add: inner_rep_def node_ok_def blank_node_def BTREE_ORDER_def)
  ultimately show ?thesis by (rule that)
qed

end
