(* ===== verification/Btree_Path.thy ===== *)
theory Btree_Path
  imports Btree_Parent
begin

text \<open>
  \<open>insert_into_parent\<close> from the leaf to the root: a full parent is split in two, which stand where it stood, and the
  loop goes on one level higher.  It returns unless the first node with room would get the new child at its front.
\<close>

section \<open>A full parent\<close>

lemma addr_own:
  "distinct (concat (map node_addrs ts)) \<Longrightarrow> u \<in> set ts \<Longrightarrow> w \<in> set ts \<Longrightarrow> addr w \<in> set (node_addrs u) \<Longrightarrow> w = u"
proof (induction ts)
  case (Cons t ts)
  have "set (node_addrs t) \<inter> set (node_addrs x) = {}" if "x \<in> set ts" for x using that Cons.prems(1) by auto
  then show ?case using Cons addr_in_addrs [of w] by (metis IntI distinct_append empty_iff concat.simps(2) list.simps(9) set_ConsD)
qed simp

lemma addr_in_concat: "u \<in> set ts \<Longrightarrow> addr u \<in> set (concat (map node_addrs ts))"
  by (auto intro!: bexI [of _ u])

text \<open>Memory after the split: two nodes written, the children that moved pointing to their new parent.\<close>

definition split_mem :: "bt_mem \<Rightarrow> bt_addr \<Rightarrow> bt_node \<Rightarrow> bt_addr \<Rightarrow> bt_node \<Rightarrow> bt_addr list \<Rightarrow> bt_mem" where
  "split_mem h a n1 new n2 cs =
     (\<lambda>b. if b \<in> set cs then ((h(a := n1, new := n2)) b)\<lparr>bt_parent := Some new\<rparr> else (h(a := n1, new := n2)) b)"

lemma split_mem_rep:
  assumes d: "distinct (a # new # concat (map node_addrs (us @ vs)))" and r: "\<And>u. u \<in> set (us @ vs) \<Longrightarrow> rep h (Some a) u"
  shows "u \<in> set us \<Longrightarrow> rep (split_mem h a n1 new n2 (map addr vs)) (Some a) u"
    and "u \<in> set vs \<Longrightarrow> rep (split_mem h a n1 new n2 (map addr vs)) (Some new) u"
    and "split_mem h a n1 new n2 (map addr vs) a = n1" "split_mem h a n1 new n2 (map addr vs) new = n2"
proof -
  let ?h = "split_mem h a n1 new n2 (map addr vs)"
  have out: "b \<noteq> a \<and> b \<noteq> new" if "b \<in> set (node_addrs u)" "u \<in> set (us @ vs)" for b u
    using that d by auto
  show "rep ?h (Some a) u" if u: "u \<in> set us"
  proof -
    have "b \<notin> addr ` set vs" if "b \<in> set (node_addrs u)" for b
    proof
      assume "b \<in> addr ` set vs"
      then obtain w where "w \<in> set vs" "b = addr w" by blast
      then have "b \<in> set (concat (map node_addrs vs))" using addr_in_concat by blast
      moreover have "b \<in> set (concat (map node_addrs us))" using that u by auto
      ultimately show False using d by auto
    qed
    then have "rep ?h (Some a) u = rep h (Some a) u"
      using out u by (intro rep_cong) (auto simp: split_mem_def)
    then show ?thesis using r u by simp
  qed
  show "rep ?h (Some new) u" if u: "u \<in> set vs"
  proof -
    have "b \<in> addr ` set vs \<longleftrightarrow> b = addr u" if "b \<in> set (node_addrs u)" for b
      using that u addr_own [of vs u] d by (auto simp: image_iff)
    then have "rep ?h (Some new) u = rep (h(addr u := (h (addr u))\<lparr>bt_parent := Some new\<rparr>)) (Some new) u"
      using out u by (intro rep_cong) (auto simp: split_mem_def)
    moreover have "distinct (node_addrs u)" using d u by (auto simp: distinct_concat_iff)
    ultimately show ?thesis using rep_set_parent [of u h "Some a"] r [of u] u by simp
  qed
  show "?h a = n1" "?h new = n2" using d addr_in_addrs by (force simp: split_mem_def)+
qed

lemma cleaves_subset: "set (lleaves ctx) \<union> set (rleaves ctx) \<subseteq> set (caddrs ctx)"
proof (induction ctx)
  case (Cons f fs)
  obtain a ks1 ts1 ks2 ts2 where f: "f = Frame a ks1 ts1 ks2 ts2" by (cases f)
  show ?case using Cons leaves_subset by (fastforce simp: f)
qed simp

lemma toks_cut:
  assumes "length K = 16" "length TS = 17"
  shows "toks (Node a (take 7 K) (take 8 TS)) @ Sep (K ! 7) # toks (Node new (drop 8 K) (drop 8 TS)) = toks (Node a K TS)"
proof -
  have "K = take 7 K @ K ! 7 # drop 8 K" using assms(1) id_take_nth_drop [of 7 K] by simp
  then have "map Sep K = map Sep (take 7 K) @ Sep (K ! 7) # map Sep (drop 8 K)" by (metis list.simps(9) map_append)
  moreover have "map toks TS = map toks (take 8 TS) @ map toks (drop 8 TS)" by (metis append_take_drop_id map_append)
  ultimately show ?thesis using weave_split [of "map toks (take 8 TS)" "map Sep (take 7 K)"] assms by simp
qed

lemma split_mem_other: "b \<notin> set cs \<Longrightarrow> b \<noteq> a \<Longrightarrow> b \<noteq> new \<Longrightarrow> split_mem h a n1 new n2 cs b = h b"
  by (simp add: split_mem_def)

lemma split_mem_linked: "a \<notin> set as \<Longrightarrow> new \<notin> set as \<Longrightarrow> linked (split_mem h a n1 new n2 cs) as = linked h as"
  by (intro linked_cong) (auto simp: split_mem_def)

lemma split_mem_same:
  assumes "fst a = p" "fst new = p" "\<And>c. c \<in> set cs \<Longrightarrow> fst c = p"
  shows "same_elsewhere p ix (with_node new (split_mem (bt_heap ix) a n1 new n2 cs) ix)"
proof (rule same_elsewhereI)
  show "bt_heap (with_node new (split_mem (bt_heap ix) a n1 new n2 cs) ix) b = bt_heap ix b" if "fst b \<noteq> p" for b
    using that assms split_mem_other [of b cs a new] by (metis with_node_simps(1))
qed (use assms(2) in auto)

lemma concat_take_drop: "concat (map g TS) = concat (map g (take n TS)) @ concat (map g (drop n TS))"
  by (metis append_take_drop_id concat_append map_append)

text \<open>The two halves of a full parent stand where the parent stood.\<close>

lemma split_mem_two_at:
  assumes t: "two_at ix p (Frame a ks1 ts1 ks2 ts2 # fs) l key r" and full: "length ks1 + length ks2 = 15"
    and K: "K = ks1 @ key # ks2" and TS: "TS = ts1 @ l # r # ts2" and new: "new = (p, bt_brk ix)"
    and n: "inner_rep n1 (take 7 K) (map addr (take 8 TS)) (up fs)" "inner_rep n2 (drop 8 K) (map addr (drop 8 TS)) (up fs)"
  shows "two_at (with_node new (split_mem (bt_heap ix) a n1 new n2 (map addr (drop 8 TS))) ix) p fs
    (Node a (take 7 K) (take 8 TS)) (K ! 7) (Node new (drop 8 K) (drop 8 TS))" (is "two_at ?ix p fs ?l _ ?r")
proof -
  note f = two_at_frame [OF t]
  let ?h = "split_mem (bt_heap ix) a n1 new n2 (map addr (drop 8 TS))"
  have len: "length K = 16" "length TS = 17" using f(1,2) full by (simp_all add: K TS)
  have sub: "set (drop 8 TS) \<subseteq> set TS" "set (take 8 TS) \<subseteq> set TS" by (auto dest: in_set_takeD in_set_dropD)
  have fresh: "new \<notin> set (a # concat (map node_addrs TS) @ caddrs fs)" using f(8) brk_fresh [OF f(13), of p] new unfolding TS by blast
  have d: "distinct (a # new # concat (map node_addrs (take 8 TS @ drop 8 TS)) @ caddrs fs)"
    using f(7) fresh unfolding append_take_drop_id TS by auto
  have d0: "distinct (a # new # concat (map node_addrs (take 8 TS @ drop 8 TS)))"
    using d unfolding append_Cons [symmetric] distinct_append by blast
  have "rep (bt_heap ix) (Some a) u" if "u \<in> set (take 8 TS @ drop 8 TS)" for u
    using f(6) that unfolding append_take_drop_id TS by blast
  note sm = split_mem_rep [OF d0 this, where ?n1.0 = n1 and ?n2.0 = n2]
  have "?h b = bt_heap ix b" if "b \<in> set (caddrs fs)" for b
  proof -
    have "b \<notin> set (concat (map node_addrs TS))" "b \<noteq> a" "b \<noteq> new" using d that unfolding append_take_drop_id by auto
    moreover from this have "b \<notin> set (map addr (drop 8 TS))" using sub(1) addr_in_concat [of _ TS] unfolding set_map by blast
    ultimately show ?thesis by (simp only: split_mem_other simp_thms)
  qed
  then have "ctx_rep ?h fs a = ctx_rep (bt_heap ix) fs a" by (rule ctx_rep_cong)
  then have cr: "ctx_rep (bt_heap ?ix) fs (addr ?l)" using f(5) by simp
  have r: "rep (bt_heap ?ix) (up fs) ?l" "rep (bt_heap ?ix) (up fs) ?r" using n sm by simp_all
  have m: "mset (node_addrs ?l @ node_addrs ?r @ caddrs fs) = mset (a # new # concat (map node_addrs (take 8 TS @ drop 8 TS)) @ caddrs fs)"
    using concat_take_drop [of node_addrs TS 8] by simp
  have "distinct (node_addrs ?l @ node_addrs ?r @ caddrs fs)" using d mset_eq_imp_distinct_iff [OF m] by blast
  moreover have "\<forall>b\<in>set (node_addrs ?l @ node_addrs ?r @ caddrs fs). bt_live ?ix b \<and> fst b = p"
  proof
    fix b assume "b \<in> set (node_addrs ?l @ node_addrs ?r @ caddrs fs)"
    then have "b = new \<or> b \<in> set (a # concat (map node_addrs TS) @ caddrs fs)"
      unfolding mset_eq_setD [OF m] append_take_drop_id list.set by blast
    then show "bt_live ?ix b \<and> fst b = p" using f(8) [of b] new unfolding TS by (cases "b = new") simp_all
  qed
  moreover have "sorted_wrt tord (ltoks fs @ toks ?l @ Sep (K ! 7) # toks ?r @ rtoks fs)"
    using f(9) toks_two [OF f(1,2), of a key l r] toks_cut [OF len, of a new] unfolding K TS by (metis append.assoc append_Cons)
  moreover obtain k where k: "\<forall>u\<in>set TS. full k u" "cshape (Suc k) fs" using two_at_shape [OF t] unfolding TS by blast
  then have "full (Suc k) ?l" "full (Suc k) ?r" using sub len by auto
  moreover have "linked (bt_heap ?ix) (lleaves fs @ leaves ?l @ leaves ?r @ rleaves fs)"
  proof -
    have "set (lleaves fs @ concat (map leaves TS) @ rleaves fs) \<subseteq> set (concat (map node_addrs TS) @ caddrs fs)"
      using leaves_subset cleaves_subset [of fs] by fastforce
    moreover have "a \<notin> set (concat (map node_addrs TS) @ caddrs fs)" "new \<notin> set (concat (map node_addrs TS) @ caddrs fs)"
      using fresh f(7) unfolding TS by simp_all
    ultimately have "linked ?h (lleaves fs @ concat (map leaves TS) @ rleaves fs)"
      using f(10) split_mem_linked [of a "lleaves fs @ concat (map leaves TS) @ rleaves fs" new] unfolding TS by blast
    then show ?thesis using concat_take_drop [of leaves TS 8] by simp
  qed
  moreover have "p < length (roots ?ix)" "roots ?ix ! p = addr (plug fs ?l)" "brk_ok ?ix"
    using f(11) [of "take 7 K" "take 8 TS"] f(12) brk_ok_with_node [OF f(13)] new by simp_all
  ultimately show ?thesis using f(3) r cr k(2) unfolding two_at_def by blast
qed

lemma split_nl_ok:
  assumes t: "two_at ix p (Frame a ks1 ts1 ks2 ts2 # fs) l key r" and full: "length ks1 + length ks2 = 15"
    and K: "K = ks1 @ key # ks2" and TS: "TS = ts1 @ l # r # ts2" and new: "new = (p, bt_brk ix)"
  obtains ix' where "split_nl cfg p a (length ks1) key (addr r) ix = Some (K ! 7, new, ix')"
    "two_at ix' p fs (Node a (take 7 K) (take 8 TS)) (K ! 7) (Node new (drop 8 K) (drop 8 TS))" "same_elsewhere p ix ix'"
proof -
  note f = two_at_frame [OF t]
  have C: "map addr TS = map addr ts1 @ addr l # addr r # map addr ts2" by (simp add: TS)
  have live: "bt_live ix (addr u) \<and> fst (addr u) = p" if "u \<in> set TS" for u
    using f(8) [of "addr u"] addr_in_concat [OF that] unfolding TS by auto
  have sub: "set (drop 8 (map addr TS)) \<subseteq> addr ` set TS" by (auto dest: in_set_dropD)
  have lv: "bt_live ix a" "\<forall>b\<in>set (drop 8 (map addr ts1 @ addr l # addr r # map addr ts2)). bt_live ix b"
    using f(8) [of a] live sub unfolding C [symmetric] by auto
  have l1: "length (map addr ts1) = length ks1" using f(1) by simp
  obtain n1 n2 where raw: "split_nl cfg p a (length ks1) key (addr r) ix = Some (K ! 7, new, with_node new
        (\<lambda>b. if b \<in> set (drop 8 (map addr TS)) then (((bt_heap ix)(a := n1, new := n2)) b)\<lparr>bt_parent := Some new\<rparr>
          else ((bt_heap ix)(a := n1, new := n2)) b) ix)"
      "inner_rep n1 (take 7 K) (take 8 (map addr TS)) (up fs)" "inner_rep n2 (drop 8 K) (drop 8 (map addr TS)) (up fs)"
    by (rule split_nl_run [OF f(4) l1 full lv f(13) K C new])
  let ?ix = "with_node new (split_mem (bt_heap ix) a n1 new n2 (map addr (drop 8 TS))) ix"
  have "split_nl cfg p a (length ks1) key (addr r) ix = Some (K ! 7, new, ?ix)" using raw(1) unfolding split_mem_def drop_map .
  moreover have "two_at ?ix p fs (Node a (take 7 K) (take 8 TS)) (K ! 7) (Node new (drop 8 K) (drop 8 TS))"
    by (rule split_mem_two_at [OF t full K TS new]) (use raw(2,3) in \<open>simp_all add: take_map drop_map\<close>)
  moreover have "same_elsewhere p ix ?ix"
    using f(8) [of a] new live sub by (intro split_mem_same) (auto simp: drop_map)
  ultimately show ?thesis by (rule that)
qed

section \<open>Going up\<close>

text \<open>Whether the first parent on the path that has room gets the new child at its front.\<close>

fun at_front :: "path_frame list \<Rightarrow> bool" where
  "at_front [] \<longleftrightarrow> False"
| "at_front (Frame a ks1 ts1 ks2 ts2 # fs) \<longleftrightarrow> (if length ks1 + length ks2 < 15 then ks1 = [] else at_front fs)"

lemma two_at_left:
  assumes "two_at ix p ctx l key r"
  shows "bt_at ix (addr l) = Some (bt_heap ix (addr l))" "bt_parent (bt_heap ix (addr l)) = up ctx"
  using assms rep_parent addr_in_addrs [of l] by (fastforce simp: two_at_def bt_at_def)+

lemma two_at_parent:
  assumes t: "two_at ix p (Frame a ks1 ts1 ks2 ts2 # fs) l key r"
  shows "insert_into_parent cfg p (addr l) key (addr r) ix =
    (if length ks1 + length ks2 < 15 then do {
       (ks, ps) \<leftarrow> parent_shift (of_nat (length ks1 + length ks2) - 1) (of_nat (length ks1)) (bt_keys (bt_heap ix a)) (bt_pointers (bt_heap ix a));
       ks' \<leftarrow> arr_set (length ks1) key ks;
       ps' \<leftarrow> arr_set (length ks1 + 1) (Child (addr r)) ps;
       bt_put a ((bt_heap ix a)\<lparr>bt_keys := ks', bt_pointers := ps', num_keys := length ks1 + length ks2 + 1\<rparr>) ix
     } else do {
       (k_prime, new, ix') \<leftarrow> split_nl cfg p a (length ks1) key (addr r) ix;
       insert_into_parent cfg p a k_prime new ix'
     })"
proof -
  have n: "num_keys (bt_heap ix a) = length ks1 + length ks2" using two_at_frame(4) [OF t] by (simp add: inner_rep_def)
  have a: "bt_at ix a = Some (bt_heap ix a)" using two_at_frame(8) [OF t, of a] by (simp add: bt_at_def)
  show ?thesis
    using two_at_slot [OF t, of "junk_key cfg"] two_at_left [OF t] a
    by (subst insert_into_parent.simps) (simp add: n BTREE_ORDER_def Let_def)
qed

lemma parent_front:
  assumes t: "two_at ix p (Frame a [] [] ks2 ts2 # fs) l key r" and room: "length ks2 < 15"
  shows "insert_into_parent cfg p (addr l) key (addr r) ix = None"
proof -
  have "length (bt_keys (bt_heap ix a)) = 15" using two_at_frame(4) [OF t] by (simp add: inner_rep_def node_ok_def BTREE_ORDER_def)
  then have "parent_shift (of_nat (length ks2) - 1) 0 (bt_keys (bt_heap ix a)) (bt_pointers (bt_heap ix a)) = None"
    using room by (intro parent_shift_front) simp_all
  then show ?thesis using room by (simp add: two_at_parent [OF t])
qed

lemma parent_room:
  assumes t: "two_at ix p (Frame a ks1 ts1 ks2 ts2 # fs) l key r" and room: "length ks1 + length ks2 < 15" and ne: "ks1 \<noteq> []"
  shows "\<exists>ix'. insert_into_parent cfg p (addr l) key (addr r) ix = Some ix' \<and>
    grown ix p (ltoks (Frame a ks1 ts1 ks2 ts2 # fs) @ toks l @ Sep key # toks r @ rtoks (Frame a ks1 ts1 ks2 ts2 # fs)) ix'"
proof -
  note f = two_at_frame [OF t]
  let ?n = "bt_heap ix a" and ?m = "length ks1 + length ks2" and ?i = "length ks1"
  have n: "length (bt_keys ?n) = 15" "length (bt_pointers ?n) = 16" "\<not> is_leaf ?n" "bt_parent ?n = up fs"
    "take ?m (bt_keys ?n) = ks1 @ ks2" "take (Suc ?m) (bt_pointers ?n) = map Child (map addr ts1 @ addr l # map addr ts2)"
    using f(4) by (auto simp: inner_rep_def node_ok_def BTREE_ORDER_def)
  have i: "1 \<le> ?i" "?i \<le> ?m" "?m < length (bt_keys ?n)" "Suc ?m < length (bt_pointers ?n)" "?m < 2 ^ 31"
    using ne room n(1,2) by (simp_all add: Suc_le_eq)
  obtain ks ps where sh: "parent_shift (of_nat ?m - 1) (of_nat ?i) (bt_keys ?n) (bt_pointers ?n) = Some (ks, ps)"
      "length ks = length (bt_keys ?n)" "length ps = length (bt_pointers ?n)"
      "take (Suc ?m) (ks[?i := key]) = insert_at ?i key (take ?m (bt_keys ?n))"
      "take (Suc (Suc ?m)) (ps[?i + 1 := Child (addr r)]) = insert_at (?i + 1) (Child (addr r)) (take (Suc ?m) (bt_pointers ?n))"
    by (rule parent_shift_insert [OF i])
  let ?n' = "?n\<lparr>bt_keys := ks[?i := key], bt_pointers := ps[?i + 1 := Child (addr r)], num_keys := ?m + 1\<rparr>"
  have "insert_at (?i + 1) (Child (addr r)) (map Child (map addr ts1 @ addr l # map addr ts2)) = map Child (map addr (ts1 @ l # r # ts2))"
    using insert_at_append [of "map Child (map addr (ts1 @ [l]))" "Child (addr r)"] f(1) by simp
  then have "inner_rep ?n' (ks1 @ key # ks2) (map addr (ts1 @ l # r # ts2)) (up fs)"
    using n(1-4) sh(2-5) room f(1,2) unfolding n(5,6) by (simp add: inner_rep_def node_ok_def BTREE_ORDER_def)
  from parent_room_ok [OF t room this]
  have "grown ix p (ltoks (Frame a ks1 ts1 ks2 ts2 # fs) @ toks l @ Sep key # toks r @ rtoks (Frame a ks1 ts1 ks2 ts2 # fs))
      (ix\<lparr>bt_heap := (bt_heap ix)(a := ?n')\<rparr>)" by simp
  moreover have "insert_into_parent cfg p (addr l) key (addr r) ix = Some (ix\<lparr>bt_heap := (bt_heap ix)(a := ?n')\<rparr>)"
    using sh(1-3) n(1,2) room f(8) [of a] unfolding two_at_parent [OF t] by (simp add: bt_put_def)
  ultimately show ?thesis by blast
qed

lemma insert_into_parent_ok:
  "two_at ix p ctx l key r \<Longrightarrow>
    (case insert_into_parent cfg p (addr l) key (addr r) ix of
       None \<Rightarrow> at_front ctx
     | Some ix' \<Rightarrow> \<not> at_front ctx \<and> grown ix p (ltoks ctx @ toks l @ Sep key # toks r @ rtoks ctx) ix')"
proof (induction ctx arbitrary: ix l key r)
  case Nil
  obtain ix' where "insert_into_new_root cfg p (addr l) key (addr r) ix = Some ix'" "grown ix p (toks l @ Sep key # toks r) ix'"
    using new_root_ok [OF Nil] by blast
  then show ?case using two_at_left [OF Nil] by (subst insert_into_parent.simps) simp
next
  case (Cons f fs)
  obtain a ks1 ts1 ks2 ts2 where fr: "f = Frame a ks1 ts1 ks2 ts2" by (cases f)
  note t = Cons.prems [unfolded fr]
  note f = two_at_frame [OF t]
  have le: "length ks1 + length ks2 \<le> 15" using f(4) by (simp add: inner_rep_def BTREE_ORDER_def)
  consider "length ks1 + length ks2 < 15" "ks1 = []" | "length ks1 + length ks2 < 15" "ks1 \<noteq> []" | "length ks1 + length ks2 = 15"
    using le by linarith
  then show ?case
  proof cases
    case 1
    then have "ts1 = []" using f(1) by simp
    then show ?thesis using 1 t parent_front [of ix p a ks2 ts2 fs l key r cfg] by (simp add: fr)
  next
    case 2
    then show ?thesis using parent_room [OF t 2, of cfg] by (auto simp: fr)
  next
    case 3
    let ?K = "ks1 @ key # ks2" and ?TS = "ts1 @ l # r # ts2" and ?new = "(p, bt_brk ix)"
    let ?l = "Node a (take 7 ?K) (take 8 ?TS)" and ?r = "Node ?new (drop 8 ?K) (drop 8 ?TS)"
    obtain ix' where ix': "split_nl cfg p a (length ks1) key (addr r) ix = Some (?K ! 7, ?new, ix')"
        "two_at ix' p fs ?l (?K ! 7) ?r" "same_elsewhere p ix ix'"
      by (rule split_nl_ok [OF t 3 refl refl refl])
    have run: "insert_into_parent cfg p (addr l) key (addr r) ix = insert_into_parent cfg p (addr ?l) (?K ! 7) (addr ?r) ix'"
      using ix'(1) 3 unfolding two_at_parent [OF t] by simp
    have "toks ?l @ Sep (?K ! 7) # toks ?r = lweave (map Sep ks1) (map toks ts1) @ toks l @ Sep key # toks r @ rweave (map Sep ks2) (map toks ts2)"
      using toks_cut [of ?K ?TS a ?new] toks_two [OF f(1,2), of a key l r] 3 f(1,2) by simp
    then have tk: "ltoks fs @ toks ?l @ Sep (?K ! 7) # toks ?r @ rtoks fs = ltoks (f # fs) @ toks l @ Sep key # toks r @ rtoks (f # fs)"
      unfolding fr ltoks.simps rtoks.simps by (metis append.assoc append_Cons)
    have "grown ix' p ts ix2 \<Longrightarrow> grown ix p ts ix2" for ts ix2
      using ix'(3) same_elsewhere_trans unfolding grown_def by blast
    then show ?thesis using Cons.IH [OF ix'(2)] 3 unfolding run tk by (auto simp: fr split: option.splits)
  qed
qed

end
