(* ===== verification/Btree_Ops.thy ===== *)
theory Btree_Ops
  imports Btree_Path
begin

text \<open>
  The operations of the index on the entries of a partition, a sorted list of keys with their items:
  \<open>index_insert\<close> adds an item or leaves the array, and \<open>index_read\<close> is the lookup.
\<close>

section \<open>Splitting a leaf\<close>

lemma sorted_add_sep:
  assumes s: "sorted_wrt tord (xs @ map (\<lambda>(k, v). Key k v) es @ ys)" and i: "0 < i" "i < length es"
  shows "sorted_wrt tord (xs @ map (\<lambda>(k, v). Key k v) (take i es) @ Sep (fst (es ! i)) # map (\<lambda>(k, v). Key k v) (drop i es) @ ys)"
proof -
  let ?K = "map (\<lambda>(k, v). Key k v)"
  obtain k v where kv: "es ! i = (k, v)" by force
  have d: "drop i es = (k, v) # drop (Suc i) es" using i(2) kv by (metis Cons_nth_drop_Suc)
  obtain k0 v0 es0 where t: "take i es = (k0, v0) # es0" using i by (cases "take i es") auto
  have "?K es = ?K (take i es) @ ?K (drop i es)" by (metis append_take_drop_id map_append)
  then have s': "sorted_wrt tord (xs @ Key k0 v0 # ?K es0 @ Key k v # ?K (drop (Suc i) es) @ ys)"
    using s by (simp add: t d)
  have "tord x (Sep k)" if "x \<in> set (xs @ Key k0 v0 # ?K es0)" for x
  proof (cases "x \<in> set xs")
    case True
    then have "tord x (Key k0 v0)" "k0 < k" using s' by (auto simp: sorted_wrt_append)
    then show ?thesis by (cases x) auto
  next
    case False
    then have "x \<in> set (Key k0 v0 # ?K es0)" using that by auto
    then have "tord x (Key k v)" "\<exists>k' v'. x = Key k' v'" using s' by (auto simp: sorted_wrt_append)
    then show ?thesis by auto
  qed
  moreover have "tord (Sep k) y" if "y \<in> set (?K (drop (Suc i) es) @ ys)" for y
  proof -
    have "tord (Key k v) y" using s' that by (auto simp: sorted_wrt_append)
    then show ?thesis by (cases y) auto
  qed
  ultimately show ?thesis using s' unfolding t d kv by (auto simp: sorted_wrt_append)
qed

lemma distinct_leaves: "distinct (node_addrs t) \<Longrightarrow> distinct (leaves t)"
proof -
  have "mset (leaves t) \<subseteq># mset (node_addrs t)"
  proof (induction t)
    case (Node a ks ts)
    have "mset (concat (map leaves us)) \<subseteq># mset (concat (map node_addrs us))" if "set us \<subseteq> set ts" for us
      using that by (induction us) (auto intro: subset_mset.add_mono Node)
    from this [of ts] show ?case by (auto intro: subset_mset.order_trans)
  qed simp
  then have le: "count (mset (leaves t)) a \<le> count (mset (node_addrs t)) a" for a by (rule mset_subset_eq_count)
  assume "distinct (node_addrs t)"
  then have "count (mset (node_addrs t)) a = (if a \<in> set (node_addrs t) then 1 else 0)" for a
    unfolding distinct_count_atmost_1 by blast
  then have "count (mset (node_addrs t)) a \<le> 1" for a by simp
  then have one: "count (mset (leaves t)) a \<le> 1" for a using le [of a] order_trans by blast
  have "count (mset (leaves t)) a = (if a \<in> set (leaves t) then 1 else 0)" for a
    using one [of a] count_greater_zero_iff [of "mset (leaves t)" a] by (auto simp del: count_greater_zero_iff)
  then show "distinct (leaves t)" unfolding distinct_count_atmost_1 by blast
qed

lemma leaf_for_cshape:
  assumes "leaf_for key t ctx a es" "tree_at ix p t"
  shows "cshape 0 ctx"
proof -
  have ok: "frames_ok ctx" and pl: "t = plug ctx (Leaf a es)" using assms(1) by (simp_all add: leaf_for_def)
  obtain n where n: "top n (plug ctx (Leaf a es))" using assms(2) by (auto simp: tree_at_def pl)
  obtain j where j: "n = j + length ctx" using top_plug_length [OF ok n] by (metis add.commute le_Suc_ex)
  have "zshape j ctx (Leaf a es)" using zshape_plug [OF ok, of j "Leaf a es"] n by (simp add: j)
  then show ?thesis by (auto simp: zshape_def split: if_splits)
qed

lemma leaf_split_linked:
  assumes t: "tree_at ix p (plug ctx (Leaf a es))" and new: "new \<notin> set (a # caddrs ctx)" and d: "distinct (a # caddrs ctx)"
    and n: "bt_next n1 = Some new" "bt_next n2 = bt_next (bt_heap ix a)"
  shows "linked ((bt_heap ix)(a := n1, new := n2)) (lleaves ctx @ a # new # rleaves ctx)"
proof (rule linked_split)
  let ?h = "(bt_heap ix)(a := n1, new := n2)"
  have sub: "set (lleaves ctx @ rleaves ctx) \<subseteq> set (caddrs ctx)" using cleaves_subset [of ctx] by auto
  show "distinct (lleaves ctx @ a # rleaves ctx)"
    using t distinct_leaves [of "plug ctx (Leaf a es)"] by (simp add: tree_at_def leaves_plug)
  show "linked (bt_heap ix) (lleaves ctx @ a # rleaves ctx)" using t by (simp add: tree_at_def leaves_plug)
  show "new \<notin> set (lleaves ctx @ a # rleaves ctx)" using new sub by auto
  show "bt_next (?h b) = bt_next (bt_heap ix b)" if "b \<in> set (lleaves ctx @ rleaves ctx)" for b
  proof -
    have "b \<noteq> a" "b \<noteq> new" using that sub new d by (metis distinct.simps(2) list.set_intros(2) subsetD)+
    then show ?thesis by simp
  qed
qed (use n new in auto)

lemma leaf_split_ok:
  assumes l: "leaf_for key t ctx a es" and t: "tree_at ix p t" and brk: "brk_ok ix" and len: "length es = 15" and k: "key \<notin> fst ` set es"
    and all: "all = add_item key item es" and new: "new = (p, bt_brk ix)"
  obtains ix' where "split_lf cfg p a key item ix = Some (fst (all ! 8), new, ix')"
    "two_at ix' p ctx (Leaf a (take 8 all)) (fst (all ! 8)) (Leaf new (drop 8 all))" "same_elsewhere p ix ix'"
proof -
  have ok: "frames_ok ctx" and pl: "t = plug ctx (Leaf a es)" using l by (simp_all add: leaf_for_def)
  note t' = t [unfolded pl]
  obtain n1 n2 where run: "split_lf cfg p a key item ix = Some (fst (all ! 8), new, with_node new ((bt_heap ix)(a := n1, new := n2)) ix)"
    and n: "leaf_rep n1 (take 8 all) (up ctx)" "leaf_rep n2 (drop 8 all) (up ctx)" "bt_next n1 = Some new" "bt_next n2 = bt_next (bt_heap ix a)"
    using split_lf_ok [OF t' brk len k all, of cfg] unfolding new by blast
  let ?h = "(bt_heap ix)(a := n1, new := n2)"
  let ?ix = "with_node new ?h ix" and ?l = "Leaf a (take 8 all)" and ?r = "Leaf new (drop 8 all)"
  have live: "bt_live ix b \<and> fst b = p" if "b \<in> set (a # caddrs ctx)" for b using tree_at_live [OF t', of b] that by simp
  then have fresh: "new \<notin> set (a # caddrs ctx)" using brk_fresh [OF brk, of p] new by blast
  have m: "mset (node_addrs (plug ctx (Leaf a es))) = mset (a # caddrs ctx)" by (simp add: mset_addrs_plug)
  have d: "distinct (a # caddrs ctx)" using t' mset_eq_imp_distinct_iff [OF m] by (simp add: tree_at_def)
  have al: "length all = 16" "0 < (8 :: nat)" "8 < length all"
    using length_add_item [OF leaf_sorted [OF l]] t k by (simp_all add: all len tree_at_def)
  have "ctx_rep ?h ctx a = ctx_rep (bt_heap ix) ctx a" using d fresh by (intro ctx_rep_cong) auto
  then have r: "ctx_rep (bt_heap ?ix) ctx (addr ?l)" "rep (bt_heap ?ix) (up ctx) ?l" "rep (bt_heap ?ix) (up ctx) ?r"
    using tree_at_rep [OF t'] n(1,2) fresh by auto
  have dd: "distinct (node_addrs ?l @ node_addrs ?r @ caddrs ctx)" using d fresh by auto
  have lv: "\<forall>b\<in>set (node_addrs ?l @ node_addrs ?r @ caddrs ctx). bt_live ?ix b \<and> fst b = p"
  proof
    fix b assume "b \<in> set (node_addrs ?l @ node_addrs ?r @ caddrs ctx)"
    then have "b = new \<or> b \<in> set (a # caddrs ctx)" by auto
    then show "bt_live ?ix b \<and> fst b = p" using live new by (cases "b = new") simp_all
  qed
  have so: "sorted_wrt tord (ltoks ctx @ toks ?l @ Sep (fst (all ! 8)) # toks ?r @ rtoks ctx)"
    using sorted_add_sep [OF leaf_for_add_item [OF l] al(2), of item] t al(3) by (simp add: all tree_at_def)
  have sh: "full 0 ?l \<and> full 0 ?r \<and> cshape 0 ctx" using al(1) leaf_for_cshape [OF l t] by simp
  have li: "linked (bt_heap ?ix) (lleaves ctx @ leaves ?l @ leaves ?r @ rleaves ctx)"
    using leaf_split_linked [OF t' fresh d n(3,4)] by simp
  have "roots ix ! p = addr (plug ctx ?l)"
    using t' addr_plug [of ctx "Leaf a es" ?l] by (cases "ctx = []") (auto simp: tree_at_def)
  then have "two_at ?ix p ctx ?l (fst (all ! 8)) ?r"
    using ok r dd lv so sh li t brk_ok_with_node [OF brk] unfolding two_at_def new tree_at_def with_node_simps by blast
  moreover have "same_elsewhere p ix ?ix" using live [of a] new by (intro same_elsewhereI) auto
  ultimately show ?thesis using that run by blast
qed

section \<open>Insertion\<close>

text \<open>The leaf with a new item: as one leaf, or as two with a separator.\<close>

definition leaf_toks :: "idx_key_t \<Rightarrow> item_data \<Rightarrow> (idx_key_t \<times> item_data list) list \<Rightarrow> tok list" where
  "leaf_toks key item es =
     (let all = add_item key item es
      in if length all = 16
         then map (\<lambda>(k, v). Key k v) (take 8 all) @ Sep (fst (all ! 8)) # map (\<lambda>(k, v). Key k v) (drop 8 all)
         else map (\<lambda>(k, v). Key k v) all)"

definition must_fail :: "idx_key_t \<Rightarrow> path_frame list \<Rightarrow> (idx_key_t \<times> item_data list) list \<Rightarrow> bool" where
  "must_fail key ctx es \<longleftrightarrow> length es = 15 \<and> key \<notin> fst ` set es \<and> at_front ctx"

lemma kvs_leaf_toks [simp]: "kvs (leaf_toks key item es) = add_item key item es"
  by (simp add: leaf_toks_def Let_def)

lemma insert_room:
  assumes l: "leaf_for key t ctx a es" and t: "tree_at ix p t" and brk: "brk_ok ix" and len: "length es \<le> 15"
    and room: "length es < 15 \<or> key \<in> fst ` set es"
  shows "\<exists>ix'. insert_into_leaf a key item ix = Some ix' \<and> grown ix p (ltoks ctx @ leaf_toks key item es @ rtoks ctx) ix'"
proof -
  have ok: "frames_ok ctx" and pl: "t = plug ctx (Leaf a es)" using l by (simp_all add: leaf_for_def)
  have so: "sorted_wrt tord (toks t)" using t by (simp add: tree_at_def)
  note t' = t [unfolded pl]
  obtain n where n: "insert_into_leaf a key item ix = Some (ix\<lparr>bt_heap := (bt_heap ix)(a := n)\<rparr>)"
      "leaf_rep n (add_item key item es) (up ctx)" "bt_next n = bt_next (bt_heap ix a)"
    using insert_into_leaf_ok [OF t' leaf_sorted [OF l so] room] by blast
  let ?ix = "ix\<lparr>bt_heap := (bt_heap ix)(a := n)\<rparr>" and ?t = "plug ctx (Leaf a (add_item key item es))"
  have al: "length (add_item key item es) = (if key \<in> fst ` set es then length es else Suc (length es))"
    using length_add_item [OF leaf_sorted [OF l so]] .
  have "tree_at ?ix p ?t"
    by (rule tree_at_put_leaf [OF t' ok n(2,3) _ leaf_for_add_item [OF l so]]) (simp add: al)
  moreover have "leaf_toks key item es = map (\<lambda>(k, v). Key k v) (add_item key item es)" using al room len by (auto simp: leaf_toks_def)
  then have "toks ?t = ltoks ctx @ leaf_toks key item es @ rtoks ctx" by (simp add: toks_plug [OF ok])
  moreover have "same_elsewhere p ix ?ix" using tree_at_live [OF t', of a] by (intro same_elsewhereI) auto
  moreover have "brk_ok ?ix" using brk by (simp add: brk_ok_def)
  ultimately show ?thesis using n(1) unfolding grown_def by blast
qed

lemma insert_split:
  assumes l: "leaf_for key t ctx a es" and t: "tree_at ix p t" and brk: "brk_ok ix" and full: "length es = 15" "key \<notin> fst ` set es"
  shows "case split_lf_insert cfg p a key item ix of
     None \<Rightarrow> at_front ctx | Some ix' \<Rightarrow> \<not> at_front ctx \<and> grown ix p (ltoks ctx @ leaf_toks key item es @ rtoks ctx) ix'"
proof -
  let ?all = "add_item key item es" and ?new = "(p, bt_brk ix)"
  let ?l = "Leaf a (take 8 ?all)" and ?r = "Leaf ?new (drop 8 ?all)"
  obtain ix1 where ix1: "split_lf cfg p a key item ix = Some (fst (?all ! 8), ?new, ix1)"
      "two_at ix1 p ctx ?l (fst (?all ! 8)) ?r" "same_elsewhere p ix ix1"
    by (rule leaf_split_ok [OF l t brk full refl refl])
  have run: "split_lf_insert cfg p a key item ix = insert_into_parent cfg p (addr ?l) (fst (?all ! 8)) (addr ?r) ix1"
    using ix1(1) by (simp add: split_lf_insert_def)
  have "sorted_wrt tord (toks t)" using t by (simp add: tree_at_def)
  then have "length ?all = 16" using length_add_item [OF leaf_sorted [OF l]] full by simp
  then have tk: "ltoks ctx @ toks ?l @ Sep (fst (?all ! 8)) # toks ?r @ rtoks ctx = ltoks ctx @ leaf_toks key item es @ rtoks ctx"
    by (simp add: leaf_toks_def Let_def)
  have "grown ix1 p ts ix2 \<Longrightarrow> grown ix p ts ix2" for ts ix2
    using ix1(3) same_elsewhere_trans unfolding grown_def by blast
  then show ?thesis using insert_into_parent_ok [OF ix1(2), of cfg] unfolding run tk by (auto split: option.splits)
qed

lemma bt_index_insert_ok:
  assumes c: "plain_cfg cfg" and t: "tree_at ix p t" and brk: "brk_ok ix"
  obtains ctx a es where "leaf_for key t ctx a es"
    "case bt_index_insert cfg key item p ix of
       None \<Rightarrow> must_fail key ctx es
     | Some ix' \<Rightarrow> \<not> must_fail key ctx es \<and> grown ix p (ltoks ctx @ leaf_toks key item es @ rtoks ctx) ix'"
proof -
  obtain ctx a es last_ex where fl: "find_leaf cfg p key INDEX_INSERT ix = Some (RCOK, Some a, last_ex, ix)"
      and l: "leaf_for key t ctx a es" and ex: "\<And>e. last_ex = Some e \<Longrightarrow> e \<in> faddr ` set ctx"
    using find_leaf_ok [OF c t] by (metis idx_acc_t.distinct)
  have ok: "frames_ok ctx" and pl: "t = plug ctx (Leaf a es)" using l by (simp_all add: leaf_for_def)
  note t' = t [unfolded pl]
  have n: "leaf_rep (bt_heap ix a) es (up ctx)" "bt_at ix a = Some (bt_heap ix a)" using tree_at_rep [OF t'] tree_at_node [OF t'] by simp_all
  obtain h where "top h t" "sorted_wrt tord (toks t)" using t by (auto simp: tree_at_def)
  then have "length ctx < 100" using top_height [of h t] top_plug_length [OF ok, of h "Leaf a es"] by (simp add: pl)
  then obtain ps where ps: "(case last_ex of None \<Rightarrow> Some [a] | Some e \<Rightarrow> ex_path a e [] ix) = Some ps"
    using ex_path_ok [OF t', of _ "[]"] ex by (cases last_ex) auto
  have nk: "num_keys (bt_heap ix a) = length es" "length es \<le> 15" using n(1) by (simp_all add: leaf_rep_def BTREE_ORDER_def)
  let ?room = "length es < 15 \<or> key \<in> fst ` set es"
  have run: "bt_index_insert cfg key item p ix = (if ?room then insert_into_leaf a key item ix else split_lf_insert cfg p a key item ix)"
    unfolding bt_index_insert_def fl using ps n(2) leaf_rep_lookup(1) [OF n(1), of key] nk
    by (auto simp: BTREE_ORDER_def release_all_plain [OF c] split: Option.bind_splits)
  have "case bt_index_insert cfg key item p ix of
       None \<Rightarrow> must_fail key ctx es
     | Some ix' \<Rightarrow> \<not> must_fail key ctx es \<and> grown ix p (ltoks ctx @ leaf_toks key item es @ rtoks ctx) ix'"
  proof (cases ?room)
    case True
    then obtain ix' where "insert_into_leaf a key item ix = Some ix'" "grown ix p (ltoks ctx @ leaf_toks key item es @ rtoks ctx) ix'"
      using insert_room [OF l t brk nk(2)] by blast
    then show ?thesis using True unfolding run must_fail_def by auto
  next
    case False
    then have full: "length es = 15" "key \<notin> fst ` set es" using nk(2) by auto
    then show ?thesis
      using False insert_split [OF l t brk full, of item cfg] unfolding run must_fail_def by (auto split: option.splits)
  qed
  then show ?thesis by (rule that [OF l])
qed

text \<open>On the entries, an insertion that returns adds the item.\<close>

definition inserted :: "nat \<Rightarrow> idx_key_t \<Rightarrow> item_data \<Rightarrow> btree \<Rightarrow> index_btree \<Rightarrow> index_btree \<Rightarrow> bool" where
  "inserted p key item t ix ix' \<longleftrightarrow>
     (\<exists>t'. tree_at ix' p t' \<and> entries t' = add_item key item (entries t)) \<and> brk_ok ix' \<and> same_elsewhere p ix ix'"

lemma grown_inserted:
  assumes l: "leaf_for key t ctx a es" and g: "grown ix p (ltoks ctx @ leaf_toks key item es @ rtoks ctx) ix'"
  shows "inserted p key item t ix ix'"
proof -
  obtain t' where t': "tree_at ix' p t'" "toks t' = ltoks ctx @ leaf_toks key item es @ rtoks ctx" "brk_ok ix'" "same_elsewhere p ix ix'"
    using g unfolding grown_def by blast
  have "entries t' = add_item key item (entries t)"
    using leaf_for_entries [OF l] by (simp add: entries_def t'(2) add_item_append)
  then show ?thesis using t' unfolding inserted_def by blast
qed

section \<open>Reading\<close>

lemma read_found:
  assumes c: "plain_cfg cfg" and t: "tree_at ix p t" and thd: "thd < length (cur_leaf_per_thd ix)" "thd < length (cur_idx_per_thd ix)"
    and v: "map_of (entries t) key = Some v"
  obtains ctx a es i where "leaf_for key t ctx a es" "i < length es" "es ! i = (key, v)"
    "bt_index_read cfg key thd p ix =
       Some (v, ix\<lparr>cur_leaf_per_thd := (cur_leaf_per_thd ix)[thd := Some a], cur_idx_per_thd := (cur_idx_per_thd ix)[thd := i]\<rparr>)"
proof -
  obtain ctx a es last_ex where fl: "find_leaf cfg p key INDEX_READ ix = Some (RCOK, Some a, last_ex, ix)"
      and l: "leaf_for key t ctx a es"
    using find_leaf_ok [OF c t] by (metis idx_acc_t.distinct)
  have pl: "t = plug ctx (Leaf a es)" and so: "sorted_wrt tord (toks t)" using l t by (simp_all add: leaf_for_def tree_at_def)
  note t' = t [unfolded pl]
  have n: "leaf_rep (bt_heap ix a) es (up ctx)" "bt_at ix a = Some (bt_heap ix a)" using tree_at_rep [OF t'] tree_at_node [OF t'] by simp_all
  let ?i = "length (takeWhile (\<lambda>k. k \<noteq> key) (map fst es))"
  have vs: "map_of es key = Some v" using v leaf_for_map_of [OF l] by simp
  have k: "key \<in> fst ` set es" using map_of_SomeD [OF vs] by force
  obtain w where w: "es ! ?i = (key, w)" "?i < length es" using add_item_old [OF k leaf_sorted [OF l so]] by blast
  have "(key, w) \<in> set es" using w nth_mem by fastforce
  then have "w = v" using leaf_sorted [OF l so] vs by (simp add: map_of_eq_Some_iff strict_sorted_iff)
  moreover have "bt_index_read cfg key thd p ix =
       Some (w, ix\<lparr>cur_leaf_per_thd := (cur_leaf_per_thd ix)[thd := Some a], cur_idx_per_thd := (cur_idx_per_thd ix)[thd := ?i]\<rparr>)"
    using k w thd leaf_rep_lookup(1) [OF n(1), of key] leaf_rep_lookup(2) [OF n(1) w(2)] by (simp add: bt_index_read_def fl n(2) c)
  ultimately show ?thesis using that [OF l w(2)] w(1) by simp
qed

lemma read_missing:
  assumes c: "plain_cfg cfg" and t: "tree_at ix p t" and k: "map_of (entries t) key = None"
  shows "bt_index_read cfg key thd p ix = None"
proof -
  obtain ctx a es last_ex where fl: "find_leaf cfg p key INDEX_READ ix = Some (RCOK, Some a, last_ex, ix)"
      and l: "leaf_for key t ctx a es"
    using find_leaf_ok [OF c t] by (metis idx_acc_t.distinct)
  have pl: "t = plug ctx (Leaf a es)" using l by (simp add: leaf_for_def)
  note t' = t [unfolded pl]
  have n: "leaf_rep (bt_heap ix a) es (up ctx)" "bt_at ix a = Some (bt_heap ix a)" using tree_at_rep [OF t'] tree_at_node [OF t'] by simp_all
  have "key \<notin> fst ` set es" using k leaf_for_map_of [OF l] by (simp add: map_of_eq_None_iff)
  then show ?thesis using leaf_rep_lookup(1) [OF n(1), of key] by (simp add: bt_index_read_def fl n(2))
qed

lemma bt_index_read_ok:
  assumes c: "plain_cfg cfg" and t: "tree_at ix p t" and thd: "thd < length (cur_leaf_per_thd ix)" "thd < length (cur_idx_per_thd ix)"
  shows "map_option fst (bt_index_read cfg key thd p ix) = map_of (entries t) key"
proof (cases "map_of (entries t) key")
  case (Some v)
  show ?thesis by (rule read_found [OF c t thd Some]) (simp add: Some)
qed (simp add: read_missing [OF c t])

end
