(* ===== verification/Btree_Index.thy ===== *)
theory Btree_Index
  imports Btree_Ops
begin

text \<open>
  The B-tree as an index: a new one is empty, insertions obey the laws of \<open>index_laws\<close>, and in ascending
  order they all return.
\<close>

section \<open>A new index\<close>

lemma make_roots_eq:
  assumes "bt_brk ix = 0" "roots ix = []" "bt_live ix = (\<lambda>_. False)"
  shows "bt_brk (make_roots cfg n ix) = n \<and> roots (make_roots cfg n ix) = map (\<lambda>q. (q, q)) [0..<n] \<and>
    bt_live (make_roots cfg n ix) = (\<lambda>a. fst a = snd a \<and> fst a < n) \<and>
    (\<forall>q<n. bt_heap (make_roots cfg n ix) (q, q) = blank_node cfg True) \<and>
    cur_leaf_per_thd (make_roots cfg n ix) = cur_leaf_per_thd ix \<and> cur_idx_per_thd (make_roots cfg n ix) = cur_idx_per_thd ix"
proof (induction n)
  case (Suc n)
  then show ?case by (auto simp: make_lf_def make_node_eq fun_eq_iff less_Suc_eq)
qed (use assms in simp_all)

lemma bt_init_ok:
  shows "p < part_cnt \<Longrightarrow> tree_at (bt_init cfg part_cnt thread_cnt mem) p (Leaf (p, p) [])" "brk_ok (bt_init cfg part_cnt thread_cnt mem)"
    "length (cur_leaf_per_thd (bt_init cfg part_cnt thread_cnt mem)) = thread_cnt"
    "length (cur_idx_per_thd (bt_init cfg part_cnt thread_cnt mem)) = thread_cnt"
proof -
  let ?ix = "\<lparr>bt_heap = mem, bt_live = (\<lambda>_. False), bt_brk = 0, roots = [],
        cur_leaf_per_thd = replicate thread_cnt None, cur_idx_per_thd = replicate thread_cnt 0\<rparr>"
  have "leaf_rep (blank_node cfg True) [] None" by (simp add: leaf_rep_def node_ok_def blank_node_def)
  then show "p < part_cnt \<Longrightarrow> tree_at (bt_init cfg part_cnt thread_cnt mem) p (Leaf (p, p) [])" "brk_ok (bt_init cfg part_cnt thread_cnt mem)"
    "length (cur_leaf_per_thd (bt_init cfg part_cnt thread_cnt mem)) = thread_cnt"
    "length (cur_idx_per_thd (bt_init cfg part_cnt thread_cnt mem)) = thread_cnt"
    using make_roots_eq [of ?ix cfg part_cnt]
    by (simp_all add: bt_init_def tree_at_def brk_ok_def blank_node_def)
qed

section \<open>Ascending keys\<close>

lemma rtoks_nil:
  "frames_ok ctx \<Longrightarrow> cshape n ctx \<Longrightarrow> kvs (rtoks ctx) = [] \<Longrightarrow> \<not> at_front ctx"
proof (induction ctx arbitrary: n)
  case (Cons f fs)
  obtain a ks1 ts1 ks2 ts2 where f: "f = Frame a ks1 ts1 ks2 ts2" by (cases f)
  have "ks2 = []"
  proof (rule ccontr)
    assume "ks2 \<noteq> []"
    then obtain k ks t ts where c: "ks2 = k # ks" "ts2 = t # ts" using Cons.prems(1) by (cases ks2; cases ts2) (auto simp: f)
    then have "full n t" using Cons.prems(2) by (simp add: f)
    then have "8 ^ Suc n \<le> length (kvs (toks t))" by (rule full_count)
    moreover have "kvs (toks t) = []" using Cons.prems(3) by (simp add: f c)
    ultimately show False by simp
  qed
  then show ?case using Cons by (auto simp: f split: if_splits)
qed simp

lemma insert_largest:
  assumes c: "plain_cfg cfg" and t: "tree_at ix p t" and brk: "brk_ok ix" and big: "\<And>k. k \<in> fst ` set (entries t) \<Longrightarrow> k \<le> key"
  shows "\<exists>ix'. bt_index_insert cfg key item p ix = Some ix' \<and> inserted p key item t ix ix'"
proof -
  obtain ctx a es where l: "leaf_for key t ctx a es" and
    r: "case bt_index_insert cfg key item p ix of
       None \<Rightarrow> must_fail key ctx es
     | Some ix' \<Rightarrow> \<not> must_fail key ctx es \<and> grown ix p (ltoks ctx @ leaf_toks key item es @ rtoks ctx) ix'"
    by (rule bt_index_insert_ok [OF c t brk])
  have "kvs (rtoks ctx) = []"
  proof (cases "kvs (rtoks ctx)")
    case (Cons e x)
    then have "key < fst e" "fst e \<le> key" using leaf_for_entries [OF l] big [of "fst e"] by auto
    then show ?thesis by simp
  qed
  then have "\<not> at_front ctx" using rtoks_nil leaf_for_cshape [OF l t] l unfolding leaf_for_def by blast
  then show ?thesis using r grown_inserted [OF l] by (auto simp: must_fail_def split: option.splits)
qed

section \<open>The index as a multimap\<close>

definition part_good :: "index_btree \<Rightarrow> nat \<Rightarrow> btree \<Rightarrow> bool" where
  "part_good ix p t \<longleftrightarrow> tree_at ix p t \<and> (\<forall>e\<in>set (entries t). snd e \<noteq> [])"

definition bt_good :: "bt_cfg \<Rightarrow> nat \<Rightarrow> index_btree \<Rightarrow> bool" where
  "bt_good cfg nt ix \<longleftrightarrow>
     plain_cfg cfg \<and> brk_ok ix \<and> 0 < nt \<and> length (cur_leaf_per_thd ix) = nt \<and> length (cur_idx_per_thd ix) = nt \<and>
     (\<forall>p<length (roots ix). \<exists>t. part_good ix p t)"

definition bt_items :: "bt_cfg \<Rightarrow> index_btree \<Rightarrow> nat \<Rightarrow> idx_key_t \<Rightarrow> item_data list" where
  "bt_items cfg ix p key = (case bt_index_read cfg key 0 p ix of None \<Rightarrow> [] | Some r \<Rightarrow> fst r)"

lemma bt_items_entries:
  assumes "bt_good cfg nt ix" "tree_at ix p t"
  shows "bt_items cfg ix p key = (case map_of (entries t) key of None \<Rightarrow> [] | Some v \<Rightarrow> v)"
proof -
  have "plain_cfg cfg" "0 < length (cur_leaf_per_thd ix)" "0 < length (cur_idx_per_thd ix)" using assms(1) by (auto simp: bt_good_def)
  from bt_index_read_ok [OF this(1) assms(2) this(2,3), of key] show ?thesis by (auto simp: bt_items_def split: option.splits)
qed

lemma bt_read_items:
  assumes g: "bt_good cfg nt ix" and p: "p < length (roots ix)" and thd: "thd < nt"
  shows "map_option fst (bt_index_read cfg key thd p ix) = (if bt_items cfg ix p key = [] then None else Some (bt_items cfg ix p key))"
proof -
  obtain t where t: "tree_at ix p t" "\<forall>e\<in>set (entries t). snd e \<noteq> []" using g p unfolding bt_good_def part_good_def by blast
  have "v \<noteq> []" if "map_of (entries t) key = Some v" for v using map_of_SomeD [OF that] t(2) by auto
  then show ?thesis
    using bt_index_read_ok [of cfg ix p t thd key] g t(1) thd bt_items_entries [OF g t(1), of key]
    by (auto simp: bt_good_def split: option.splits)
qed

lemma add_item_nonempty: "\<forall>e\<in>set es. snd e \<noteq> [] \<Longrightarrow> \<forall>e\<in>set (add_item key item es). snd e \<noteq> []"
  by (induction key item es rule: add_item.induct) auto

lemma inserted_good:
  assumes g: "bt_good cfg nt ix" and t: "part_good ix p t" and i: "inserted p key item t ix ix'"
  shows "bt_good cfg nt ix'" "length (roots ix') = length (roots ix)"
    "bt_items cfg ix' q l = (if q = p \<and> l = key then item # bt_items cfg ix q l else bt_items cfg ix q l)"
proof -
  obtain t' where t': "tree_at ix' p t'" "entries t' = add_item key item (entries t)" and b: "brk_ok ix'" and s: "same_elsewhere p ix ix'"
    using i unfolding inserted_def by blast
  have p': "part_good ix' p t'" using t t' add_item_nonempty [of "entries t"] unfolding part_good_def by simp
  have other: "part_good ix' q u" if "q \<noteq> p" "part_good ix q u" for q u
    using that same_elsewhere_tree [OF s] by (simp add: part_good_def)
  show len: "length (roots ix') = length (roots ix)" using s by (simp add: same_elsewhere_def)
  have "\<exists>u. part_good ix' q u" if "q < length (roots ix)" for q
    using that p' other g unfolding bt_good_def by (cases "q = p") blast+
  then show g': "bt_good cfg nt ix'" using g b s len unfolding bt_good_def same_elsewhere_def by simp
  have srt: "sorted_wrt (<) (map fst (entries t))" using t by (simp add: part_good_def tree_at_def sorted_toks_entries)
  show "bt_items cfg ix' q l = (if q = p \<and> l = key then item # bt_items cfg ix q l else bt_items cfg ix q l)"
  proof (cases "q = p")
    case True
    have "tree_at ix p t" using t by (simp add: part_good_def)
    then show ?thesis
      using True bt_items_entries [OF g' t'(1), of l] bt_items_entries [OF g, of p t l] unfolding t'(2) map_of_add_item [OF srt]
      by (auto split: option.splits)
  next
    case q: False
    show ?thesis
    proof (cases "q < length (roots ix)")
      case True
      then obtain u where "part_good ix q u" using g unfolding bt_good_def by blast
      then have "tree_at ix q u" "tree_at ix' q u" using other [OF q] by (simp_all add: part_good_def)
      then show ?thesis using q bt_items_entries [OF g, of q u l] bt_items_entries [OF g', of q u l] by simp
    next
      case False
      then show ?thesis using q len by (simp add: bt_items_def bt_index_read_def find_leaf_def find_root_def arr_get_def)
    qed
  qed
qed

interpretation bt: index_laws "bt_good cfg nt" "\<lambda>ix p. p < length (roots ix)" "bt_index_insert cfg" "bt_items cfg" for cfg nt
proof
  fix ix p key item ix'
  assume g: "bt_good cfg nt ix" and p: "p < length (roots ix)" and i: "bt_index_insert cfg key item p ix = Some ix'"
  obtain t where t: "part_good ix p t" using g p unfolding bt_good_def by blast
  have c: "plain_cfg cfg" "brk_ok ix" "tree_at ix p t" using g t by (simp_all add: bt_good_def part_good_def)
  have "inserted p key item t ix ix'"
    by (rule bt_index_insert_ok [OF c(1,3,2), of key item]) (use i grown_inserted in fastforce)
  from inserted_good [OF g t this]
  show "bt_good cfg nt ix' \<and> (\<lambda>p. p < length (roots ix')) = (\<lambda>p. p < length (roots ix)) \<and>
      (\<forall>q l. bt_items cfg ix' q l = (if q = p \<and> l = key then item # bt_items cfg ix q l else bt_items cfg ix q l))"
    by simp
qed

lemma bt_init_good:
  assumes "plain_cfg cfg" "0 < thread_cnt"
  shows "bt_good cfg thread_cnt (bt_init cfg part_cnt thread_cnt mem)" "length (roots (bt_init cfg part_cnt thread_cnt mem)) = part_cnt"
proof -
  show l: "length (roots (bt_init cfg part_cnt thread_cnt mem)) = part_cnt" by (simp add: bt_init_def make_roots_eq)
  have "part_good (bt_init cfg part_cnt thread_cnt mem) p (Leaf (p, p) [])" if "p < part_cnt" for p
    using bt_init_ok(1) [OF that] by (simp add: part_good_def entries_def)
  then show "bt_good cfg thread_cnt (bt_init cfg part_cnt thread_cnt mem)"
    using assms bt_init_ok(2) [of cfg part_cnt thread_cnt mem] bt_init_ok(3,4) [of cfg part_cnt thread_cnt mem]
    unfolding bt_good_def l by blast
qed

lemma bt_items_init:
  assumes "plain_cfg cfg" "0 < thread_cnt"
  shows "bt_items cfg (bt_init cfg part_cnt thread_cnt mem) p key = []"
proof (cases "p < part_cnt")
  case True
  then show ?thesis
    using bt_items_entries [OF bt_init_good(1) [OF assms] bt_init_ok(1)] by (simp add: entries_def)
next
  case False
  then show ?thesis
    using bt_init_good(2) [OF assms, of part_cnt mem] by (simp add: bt_items_def bt_index_read_def find_leaf_def find_root_def arr_get_def)
qed

section \<open>Sequences of insertions\<close>

lemma insert_largest_total:
  assumes g: "bt_good cfg nt ix" and p: "p < length (roots ix)" and big: "\<And>k. bt_items cfg ix p k \<noteq> [] \<Longrightarrow> k \<le> key"
  shows "\<exists>ix'. bt_index_insert cfg key item p ix = Some ix'"
proof -
  obtain t where t: "tree_at ix p t" "\<forall>e\<in>set (entries t). snd e \<noteq> []" using g p unfolding bt_good_def part_good_def by blast
  have "k \<le> key" if k: "k \<in> fst ` set (entries t)" for k
  proof -
    obtain v where v: "map_of (entries t) k = Some v" using k by (cases "map_of (entries t) k") (auto simp: map_of_eq_None_iff)
    then have "v \<noteq> []" using map_of_SomeD [OF v] t(2) by auto
    then show ?thesis using big [of k] bt_items_entries [OF g t(1), of k] v by simp
  qed
  then show ?thesis using insert_largest [OF _ t(1)] g unfolding bt_good_def by blast
qed

lemma bt_reads:
  assumes "plain_cfg cfg" "thd < thread_cnt" "part < part_cnt" "\<forall>op\<in>set ops. fst op < part_cnt"
    and ix: "bt_inserts cfg ops (bt_init cfg part_cnt thread_cnt mem) = Some ix"
  shows "bt_good cfg thread_cnt ix" "part < length (roots ix)"
    "map_option fst (bt_index_read cfg key thd part ix) =
      (case rev (map (snd \<circ> snd) (filter (\<lambda>op. fst op = part \<and> fst (snd op) = key) ops)) of [] \<Rightarrow> None | is \<Rightarrow> Some is)"
proof -
  let ?ix = "bt_init cfg part_cnt thread_cnt mem"
  have g: "bt_good cfg thread_cnt ?ix" "length (roots ?ix) = part_cnt" using bt_init_good [of cfg thread_cnt] assms(1,2) by auto
  have e: "bt_items cfg ?ix q k = []" for q k using bt_items_init [OF assms(1)] assms(2) by simp
  have p: "\<forall>op\<in>set ops. fst op < length (roots ?ix)" using assms(4) g(2) by simp
  have s: "bt_good cfg thread_cnt ix" "(\<lambda>q. q < length (roots ix)) = (\<lambda>q. q < length (roots ?ix))"
    "bt_items cfg ix part key = rev (map (snd \<circ> snd) (filter (\<lambda>op. fst op = part \<and> fst (snd op) = key) ops))"
    using bt.inserts_some [OF g(1) p bt_inserts.simps ix] by (simp_all add: e)
  show "bt_good cfg thread_cnt ix" by (rule s)
  show r: "part < length (roots ix)" using s(2) assms(3) g(2) by metis
  show "map_option fst (bt_index_read cfg key thd part ix) =
      (case rev (map (snd \<circ> snd) (filter (\<lambda>op. fst op = part \<and> fst (snd op) = key) ops)) of [] \<Rightarrow> None | is \<Rightarrow> Some is)"
    using bt_read_items [OF s(1) r assms(2), of key] unfolding s(3) by (auto split: list.splits)
qed

text \<open>In every partition the keys never get smaller.\<close>

definition ascending :: "(nat \<times> idx_key_t \<times> item_data) list \<Rightarrow> bool" where
  "ascending ops \<longleftrightarrow> sorted_wrt (\<lambda>a b. fst a = fst b \<longrightarrow> fst (snd a) \<le> fst (snd b)) ops"

lemma ascending_total:
  "bt_good cfg nt ix \<Longrightarrow> \<forall>op\<in>set ops. fst op < length (roots ix) \<Longrightarrow> ascending ops \<Longrightarrow>
    (\<And>op k. op \<in> set ops \<Longrightarrow> bt_items cfg ix (fst op) k \<noteq> [] \<Longrightarrow> k \<le> fst (snd op)) \<Longrightarrow> \<exists>ix'. bt_inserts cfg ops ix = Some ix'"
proof (induction ops arbitrary: ix)
  case (Cons op ops)
  obtain p k v where op: "op = (p, k, v)" by (cases op)
  have p: "p < length (roots ix)" using Cons.prems(2) by (simp add: op)
  obtain ix1 where i: "bt_index_insert cfg k v p ix = Some ix1"
    using insert_largest_total [OF Cons.prems(1) p, of k v] Cons.prems(4) [of op] by (auto simp: op)
  have g: "bt_good cfg nt ix1" "(\<lambda>q. q < length (roots ix1)) = (\<lambda>q. q < length (roots ix))"
      "\<And>q l. bt_items cfg ix1 q l = (if q = p \<and> l = k then v # bt_items cfg ix q l else bt_items cfg ix q l)"
    using bt.ins_some [OF Cons.prems(1) p i] by auto
  have "\<exists>ix'. bt_inserts cfg ops ix1 = Some ix'"
  proof (rule Cons.IH [OF g(1)])
    show "\<forall>op\<in>set ops. fst op < length (roots ix1)" using Cons.prems(2) g(2) by (metis list.set_intros(2))
    show "ascending ops" using Cons.prems(3) by (simp add: ascending_def)
    show "k' \<le> fst (snd op')" if "op' \<in> set ops" "bt_items cfg ix1 (fst op') k' \<noteq> []" for op' k'
      using that Cons.prems(3) Cons.prems(4) [of op' k'] by (auto simp: g(3) op ascending_def split: if_splits)
  qed
  then show ?case by (simp add: op i)
qed simp

lemma ascending_inserts:
  assumes "plain_cfg cfg" "thd < thread_cnt" "\<forall>op\<in>set ops. fst op < part_cnt" "ascending ops"
  shows "\<exists>ix. bt_inserts cfg ops (bt_init cfg part_cnt thread_cnt mem) = Some ix"
proof -
  let ?ix = "bt_init cfg part_cnt thread_cnt mem"
  have g: "bt_good cfg thread_cnt ?ix" "length (roots ?ix) = part_cnt" using bt_init_good [of cfg thread_cnt] assms(1,2) by auto
  have "\<forall>op\<in>set ops. fst op < length (roots ?ix)" using assms(3) g(2) by simp
  from ascending_total [OF g(1) this assms(4)] bt_items_init [OF assms(1)] assms(2) show ?thesis by auto
qed



definition demo_bt_cfg :: bt_cfg where
  "demo_bt_cfg = \<lparr>ENABLE_LATCH = False, node_part = fst, keys_part = fst, junk_key = 7, junk_cnt = 3\<rparr>"

definition demo_bt_index :: index_btree where
  "demo_bt_index = bt_init demo_bt_cfg 2 1 (\<lambda>_. blank_node demo_bt_cfg False)"

text \<open>Twenty keys in one partition, two of them twice: a leaf is split on the way.\<close>

definition demo_bt_ops :: "(nat \<times> idx_key_t \<times> item_data) list" where
  "demo_bt_ops = map (\<lambda>k. (1, of_nat (min k 19), demo_item k)) [0..<22]"

lemma demo_bt_facts:
  "plain_cfg demo_bt_cfg" "\<forall>op\<in>set demo_bt_ops. fst op < 2" "ascending demo_bt_ops"
  "rev (map (snd \<circ> snd) (filter (\<lambda>op. fst op = 1 \<and> fst (snd op) = 19) demo_bt_ops)) = [demo_item 21, demo_item 20, demo_item 19]"
proof -
  show "ascending demo_bt_ops" unfolding ascending_def by code_simp
  show "rev (map (snd \<circ> snd) (filter (\<lambda>op. fst op = 1 \<and> fst (snd op) = 19) demo_bt_ops)) = [demo_item 21, demo_item 20, demo_item 19]"
    by code_simp
qed (simp_all add: plain_cfg_def demo_bt_cfg_def demo_bt_ops_def)


lemma demo_bt_inserts: "\<exists>ix. bt_inserts demo_bt_cfg demo_bt_ops demo_bt_index = Some ix"
  unfolding demo_bt_index_def by (rule ascending_inserts [OF demo_bt_facts(1) _ demo_bt_facts(2,3), of 0]) simp


end
