(* ===== verification/Btree_Scan.thy ===== *)
theory Btree_Scan
  imports Btree_Index
begin

text \<open>
  Scanning with \<open>index_next\<close> from the key that \<open>index_read\<close> found: the leaves are linked, so the cursor of a
  thread goes through the keys in ascending order.
\<close>

section \<open>The leaves in order\<close>

fun lvs :: "btree \<Rightarrow> (bt_addr \<times> (idx_key_t \<times> item_data list) list) list" where
  "lvs (Leaf a es) = [(a, es)]"
| "lvs (Node a ks ts) = concat (map lvs ts)"

lemma lvs_leaves: "map fst (lvs t) = leaves t"
  by (induction t) (auto simp: map_concat cong: map_cong)

lemma kvs_weave: "length ts = Suc (length ks) \<Longrightarrow> kvs (weave (map Sep ks) ts) = concat (map kvs ts)"
proof (induction ks arbitrary: ts)
  case (Cons k ks)
  then show ?case by (cases ts) auto
next
  case Nil
  then show ?case by (cases ts) auto
qed

lemma lvs_entries: "rep h par t \<Longrightarrow> entries t = concat (map snd (lvs t))"
proof (induction t arbitrary: par)
  case (Node a ks ts)
  have "concat (map snd (concat (map lvs us))) = concat (map (\<lambda>t. concat (map snd (lvs t))) us)" for us by (induction us) simp_all
  moreover have "kvs (toks t) = concat (map snd (lvs t))" if "t \<in> set ts" for t
    using Node that by (auto simp: entries_def)
  then have "map kvs (map toks ts) = map (\<lambda>t. concat (map snd (lvs t))) ts" by simp
  moreover have "length (map toks ts) = Suc (length ks)" using Node.prems by (simp add: inner_rep_def)
  ultimately show ?case unfolding entries_def toks.simps lvs.simps by (simp only: kvs_weave)
qed (simp add: entries_def)

lemma lvs_rep: "rep h par t \<Longrightarrow> (a, es) \<in> set (lvs t) \<Longrightarrow> \<exists>par. leaf_rep (h a) es par"
  by (induction t arbitrary: par) auto

lemma lvs_plug: "\<exists>us vs. lvs (plug ctx (Leaf a es)) = us @ (a, es) # vs"
proof -
  have "\<exists>us vs. lvs (plug ctx t) = us @ lvs t @ vs" for t
  proof (induction ctx arbitrary: t)
    case (Cons f fs)
    obtain b ks1 ts1 ks2 ts2 where f: "f = Frame b ks1 ts1 ks2 ts2" by (cases f)
    obtain us vs where "lvs (plug fs (Node b (ks1 @ ks2) (ts1 @ t # ts2))) = us @ lvs (Node b (ks1 @ ks2) (ts1 @ t # ts2)) @ vs"
      using Cons by blast
    then have "lvs (plug (f # fs) t) = (us @ concat (map lvs ts1)) @ lvs t @ concat (map lvs ts2) @ vs" by (simp add: f)
    then show ?case by blast
  next
    case Nil
    show ?case by (intro exI [of _ "[]"]) simp
  qed
  from this [of "Leaf a es"] show ?thesis by simp
qed

lemma full_lvs: "full n t \<Longrightarrow> (a, es) \<in> set (lvs t) \<Longrightarrow> es \<noteq> []"
  by (induction t arbitrary: n) auto

lemma top_lvs:
  assumes "top n t" "lvs t = us @ (a, es) # (b, fs) # vs"
  shows "fs \<noteq> []"
proof (cases t)
  case (Node c ks ts)
  have "(b, fs) \<in> set (lvs t)" using assms(2) by simp
  then obtain s where "s \<in> set ts" "(b, fs) \<in> set (lvs s)" by (auto simp: Node)
  moreover from this have "full (n - 1) s" using assms(1) by (simp add: Node)
  ultimately show ?thesis using full_lvs by blast
qed (use assms(2) in \<open>simp add: Cons_eq_append_conv\<close>)

section \<open>The cursor\<close>

text \<open>The cursor of a thread stands at a key; \<open>xs\<close> are the entries behind it.\<close>

definition cursor :: "index_btree \<Rightarrow> nat \<Rightarrow> btree \<Rightarrow> (idx_key_t \<times> item_data list) list \<Rightarrow> bool" where
  "cursor ix thd t xs \<longleftrightarrow>
     thd < length (cur_leaf_per_thd ix) \<and> thd < length (cur_idx_per_thd ix) \<and>
     (\<exists>us a es vs i. lvs t = us @ (a, es) # vs \<and> i < length es \<and> cur_leaf_per_thd ix ! thd = Some a \<and> cur_idx_per_thd ix ! thd = i \<and>
        xs = drop (Suc i) es @ concat (map snd vs))"

lemma cursorI:
  "lvs t = us @ (a, es) # vs \<Longrightarrow> i < length es \<Longrightarrow> thd < length cl \<Longrightarrow> thd < length ci \<Longrightarrow>
    cursor (ix\<lparr>cur_leaf_per_thd := cl[thd := Some a], cur_idx_per_thd := ci[thd := i]\<rparr>) thd t (drop (Suc i) es @ concat (map snd vs))"
  unfolding cursor_def by (intro conjI exI [of _ us] exI [of _ a] exI [of _ es] exI [of _ vs] exI [of _ i]) simp_all

lemma linked_next: "linked h (as @ a # bs) \<Longrightarrow> bt_next (h a) = (case bs of [] \<Rightarrow> None | b # _ \<Rightarrow> Some b)"
proof (induction as rule: induct_list012)
  case (2 x)
  then show ?case by (cases bs) auto
qed (cases bs; auto)+

lemma index_next_ok:
  assumes t: "tree_at ix p t" and c: "cursor ix thd t xs"
  obtains ix' where "bt_index_next thd False ix = Some (map_option snd (case xs of [] \<Rightarrow> None | x # _ \<Rightarrow> Some x), ix')"
    "tree_at ix' p t" "xs \<noteq> [] \<longrightarrow> cursor ix' thd t (tl xs)"
proof -
  obtain us a es vs i where cu: "lvs t = us @ (a, es) # vs" "i < length es" "cur_leaf_per_thd ix ! thd = Some a" "cur_idx_per_thd ix ! thd = i"
      "xs = drop (Suc i) es @ concat (map snd vs)" and thd: "thd < length (cur_leaf_per_thd ix)" "thd < length (cur_idx_per_thd ix)"
    using c unfolding cursor_def by blast
  have r: "rep (bt_heap ix) None t" using t by (simp add: tree_at_def)
  have leaf: "leaf_rep (bt_heap ix b) fs (bt_parent (bt_heap ix b)) \<and> bt_at ix b = Some (bt_heap ix b)" if b: "(b, fs) \<in> set (lvs t)" for b fs
  proof -
    have "b \<in> set (leaves t)" unfolding lvs_leaves [symmetric] using b by force
    then have "bt_live ix b" using t leaves_subset [of t] unfolding tree_at_def by blast
    then show ?thesis using lvs_rep [OF r b] by (auto simp: bt_at_def leaf_rep_def)
  qed
  have la: "leaf_rep (bt_heap ix a) es (bt_parent (bt_heap ix a))" "bt_at ix a = Some (bt_heap ix a)" using leaf [of a es] cu(1) by simp_all
  have na: "num_keys (bt_heap ix a) = length es" "length (bt_keys (bt_heap ix a)) = 15" "length es \<le> 15"
    using la(1) by (simp_all add: leaf_rep_def node_ok_def BTREE_ORDER_def)
  have nx: "bt_next (bt_heap ix a) = (case map fst vs of [] \<Rightarrow> None | b # _ \<Rightarrow> Some b)"
    using t linked_next [of "bt_heap ix" "map fst us" a "map fst vs"] lvs_leaves [of t] unfolding cu(1) by (simp add: tree_at_def)
  have same: "tree_at (ix\<lparr>cur_leaf_per_thd := x, cur_idx_per_thd := y\<rparr>) p t" for x y using t by (simp add: tree_at_def)
  consider (inside) "Suc i < length es" | (last) "Suc i = length es" "vs = []" | (next_leaf) b fs vs' where "Suc i = length es" "vs = (b, fs) # vs'"
    using cu(2) by (cases vs) fastforce+
  then show ?thesis
  proof cases
    case inside
    let ?ix = "ix\<lparr>cur_leaf_per_thd := (cur_leaf_per_thd ix)[thd := Some a], cur_idx_per_thd := (cur_idx_per_thd ix)[thd := Suc i]\<rparr>"
    have d: "drop (Suc i) es = es ! Suc i # drop (Suc (Suc i)) es" using inside by (simp add: Cons_nth_drop_Suc)
    have "bt_index_next thd False ix = Some (Some (snd (es ! Suc i)), ?ix)"
      using inside thd cu(2-4) la na leaf_rep_lookup(2) [OF la(1) inside] by (simp add: bt_index_next_def leaf_rep_def)
    moreover have "cursor ?ix thd t (drop (Suc (Suc i)) es @ concat (map snd vs))"
      by (rule cursorI [OF cu(1) inside thd])
    ultimately show ?thesis using that [of ?ix] same unfolding cu(5) d by simp
  next
    case last
    let ?ix = "ix\<lparr>cur_leaf_per_thd := (cur_leaf_per_thd ix)[thd := None], cur_idx_per_thd := (cur_idx_per_thd ix)[thd := 0]\<rparr>"
    have "bt_index_next thd False ix = Some (None, ?ix)"
      using last thd cu(2-4) la na nx by (simp add: bt_index_next_def)
    then show ?thesis using that [of ?ix] same last unfolding cu(5) by simp
  next
    case next_leaf
    let ?ix = "ix\<lparr>cur_leaf_per_thd := (cur_leaf_per_thd ix)[thd := Some b], cur_idx_per_thd := (cur_idx_per_thd ix)[thd := 0]\<rparr>"
    obtain n where "top n t" using t by (auto simp: tree_at_def)
    then have ne: "fs \<noteq> []" by (rule top_lvs) (use cu(1) next_leaf in simp)
    have lb: "leaf_rep (bt_heap ix b) fs (bt_parent (bt_heap ix b))" "bt_at ix b = Some (bt_heap ix b)" using leaf [of b fs] cu(1) next_leaf by simp_all
    then have nb: "0 < length (bt_keys (bt_heap ix b))" "is_leaf (bt_heap ix b)" by (simp_all add: leaf_rep_def node_ok_def BTREE_ORDER_def)
    have "bt_index_next thd False ix = Some (Some (snd (fs ! 0)), ?ix)"
      using next_leaf thd cu(2-4) la na nx lb nb ne leaf_rep_lookup(2) [OF lb(1), of 0] by (simp add: bt_index_next_def)
    moreover have "cursor ?ix thd t (drop (Suc 0) fs @ concat (map snd vs'))"
      by (rule cursorI [of t "us @ [(a, es)]"]) (use next_leaf thd cu(1) ne in simp_all)
    moreover obtain e fs' where "fs = e # fs'" using ne by (cases fs) auto
    ultimately show ?thesis using that [of ?ix] same next_leaf unfolding cu(5) by simp
  qed
qed

section \<open>A scan\<close>

text \<open>\<open>n\<close> calls of \<open>index_next\<close>, until one finds nothing.\<close>

primrec bt_scan :: "nat \<Rightarrow> nat \<Rightarrow> index_btree \<Rightarrow> item_data list list option" where
  "bt_scan 0 thd ix = Some []"
| "bt_scan (Suc n) thd ix = do {
     (r, ix') \<leftarrow> bt_index_next thd False ix;
     (case r of None \<Rightarrow> Some [] | Some v \<Rightarrow> map_option (Cons v) (bt_scan n thd ix'))
   }"

lemma bt_scan_ok: "tree_at ix p t \<Longrightarrow> cursor ix thd t xs \<Longrightarrow> bt_scan n thd ix = Some (map snd (take n xs))"
proof (induction n arbitrary: ix xs)
  case (Suc n)
  obtain ix' where ix': "bt_index_next thd False ix = Some (map_option snd (case xs of [] \<Rightarrow> None | x # _ \<Rightarrow> Some x), ix')"
    "tree_at ix' p t" "xs \<noteq> [] \<longrightarrow> cursor ix' thd t (tl xs)"
    by (rule index_next_ok [OF Suc.prems])
  show ?case
  proof (cases xs)
    case (Cons x ys)
    then show ?thesis using Suc.IH [OF ix'(2), of ys] ix'(1,3) by simp
  qed (simp add: ix'(1))
qed simp

lemma filter_above:
  assumes "sorted_wrt (<) (map fst (xs @ (key :: idx_key_t, v) # ys))"
  shows "filter (\<lambda>e. key < fst e) (xs @ (key, v) # ys) = ys"
proof -
  have o: "\<forall>e\<in>set xs. fst e < key" "\<forall>e\<in>set ys. key < fst e" using assms by (auto simp: sorted_wrt_append)
  have "\<not> key < fst e" if "e \<in> set xs" for e by (rule less_not_sym) (use o(1) that in blast)
  then have "filter (\<lambda>e. key < fst e) xs = []" unfolding filter_empty_conv by blast
  then show ?thesis using o(2) by simp
qed

lemma read_cursor:
  assumes c: "plain_cfg cfg" and t: "tree_at ix p t" and thd: "thd < length (cur_leaf_per_thd ix)" "thd < length (cur_idx_per_thd ix)"
    and v: "map_of (entries t) key = Some v"
  obtains ix' where "bt_index_read cfg key thd p ix = Some (v, ix')" "tree_at ix' p t" "cursor ix' thd t (filter (\<lambda>e. key < fst e) (entries t))"
proof -
  obtain ctx a es i where l: "leaf_for key t ctx a es" and i: "i < length es" "es ! i = (key, v)"
    and r: "bt_index_read cfg key thd p ix =
       Some (v, ix\<lparr>cur_leaf_per_thd := (cur_leaf_per_thd ix)[thd := Some a], cur_idx_per_thd := (cur_idx_per_thd ix)[thd := i]\<rparr>)"
    by (rule read_found [OF c t thd v])
  let ?ix = "ix\<lparr>cur_leaf_per_thd := (cur_leaf_per_thd ix)[thd := Some a], cur_idx_per_thd := (cur_idx_per_thd ix)[thd := i]\<rparr>"
  obtain us vs where lv: "lvs t = us @ (a, es) # vs" using lvs_plug [of ctx a es] l by (auto simp: leaf_for_def)
  have "es = take i es @ (key, v) # drop (Suc i) es" using id_take_nth_drop [OF i(1)] i(2) by simp
  moreover have "entries t = concat (map snd us) @ es @ concat (map snd vs)" using lvs_entries [of "bt_heap ix" None t] t lv by (simp add: tree_at_def)
  ultimately have e: "entries t = (concat (map snd us) @ take i es) @ (key, v) # (drop (Suc i) es @ concat (map snd vs))"
    by (metis append.assoc append_Cons)
  have "sorted_wrt (<) (map fst (entries t))" using t by (simp add: tree_at_def sorted_toks_entries)
  then have "filter (\<lambda>e. key < fst e) (entries t) = drop (Suc i) es @ concat (map snd vs)" unfolding e by (rule filter_above)
  moreover have "tree_at ?ix p t" using t by (simp add: tree_at_def)
  ultimately show ?thesis using that r cursorI [OF lv i(1) thd] by simp
qed

text \<open>What was inserted: the keys of a partition in order, and the items of a key, the newest first.\<close>

definition ops_keys :: "(nat \<times> idx_key_t \<times> item_data) list \<Rightarrow> nat \<Rightarrow> idx_key_t list" where
  "ops_keys ops part = sort (remdups (map (fst \<circ> snd) (filter (\<lambda>op. fst op = part) ops)))"

definition ops_items :: "(nat \<times> idx_key_t \<times> item_data) list \<Rightarrow> nat \<Rightarrow> idx_key_t \<Rightarrow> item_data list" where
  "ops_items ops part key = rev (map (snd \<circ> snd) (filter (\<lambda>op. fst op = part \<and> fst (snd op) = key) ops))"

lemma entries_ops:
  assumes s: "sorted_wrt (<) (map fst es)" and m: "\<And>k. map_of es k = (if ops_items ops part k = [] then None else Some (ops_items ops part k))"
  shows "es = map (\<lambda>k. (k, ops_items ops part k)) (ops_keys ops part)"
proof -
  have d: "distinct (map fst es)" "sorted (map fst es)" using s by (simp_all add: strict_sorted_iff)
  have "set (map fst es) = dom (map_of es)" by (simp add: dom_map_of_conv_image_fst)
  also have "\<dots> = {k. ops_items ops part k \<noteq> []}" using m by (auto simp: dom_def)
  also have "\<dots> = set (ops_keys ops part)" by (auto simp: ops_items_def ops_keys_def filter_empty_conv)
  finally have "map fst es = ops_keys ops part"
    using d by (intro sorted_distinct_set_unique) (simp_all add: ops_keys_def)
  moreover have "es = map (\<lambda>k. (k, ops_items ops part k)) (map fst es)"
  proof (rule nth_equalityI)
    fix i assume i: "i < length es"
    have "map_of es (fst (es ! i)) = Some (snd (es ! i))" using i d(1) by (simp add: map_of_eq_Some_iff)
    then show "es ! i = map (\<lambda>k. (k, ops_items ops part k)) (map fst es) ! i"
      using i m [of "fst (es ! i)"] by (auto simp: prod_eq_iff split: if_splits)
  qed simp
  ultimately show ?thesis by simp
qed

lemma part_entries_ops:
  assumes "plain_cfg cfg" "thd < thread_cnt" "part < part_cnt" "\<forall>op\<in>set ops. fst op < part_cnt"
    and ix: "bt_inserts cfg ops (bt_init cfg part_cnt thread_cnt mem) = Some ix"
  obtains t where "tree_at ix part t" "entries t = map (\<lambda>k. (k, ops_items ops part k)) (ops_keys ops part)"
    "length (cur_leaf_per_thd ix) = thread_cnt" "length (cur_idx_per_thd ix) = thread_cnt"
proof -
  note r = bt_reads [OF assms]
  obtain t where t: "tree_at ix part t" using r(1,2) unfolding bt_good_def part_good_def by blast
  have thd: "thd < length (cur_leaf_per_thd ix)" "thd < length (cur_idx_per_thd ix)" using r(1) assms(2) by (simp_all add: bt_good_def)
  have "map_of (entries t) k = (if ops_items ops part k = [] then None else Some (ops_items ops part k))" for k
    using bt_index_read_ok [OF assms(1) t thd, of k] r(3) [of k] unfolding ops_items_def by (auto split: list.splits)
  then have "entries t = map (\<lambda>k. (k, ops_items ops part k)) (ops_keys ops part)"
    using t by (intro entries_ops) (simp_all add: tree_at_def sorted_toks_entries)
  then show ?thesis using that t r(1) by (simp add: bt_good_def)
qed



end
