(* ===== verification/Btree_Front.thy ===== *)
theory Btree_Front
  imports Btree_Index
begin

text \<open>
  Descending keys: the leaf at the very left fills up, and when it is split for the second time the new
  leaf belongs at the front of the root, which the loop of \<open>insert_into_parent\<close> cannot do.
\<close>

lemma keys_sep_unique:
  "map (\<lambda>(k, v). Key k v) es @ Sep s # xs = map (\<lambda>(k, v). Key k v) fs @ Sep s' # ys \<Longrightarrow> es = fs \<and> s = s' \<and> xs = ys"
proof (induction es arbitrary: fs)
  case Nil
  then show ?case by (cases fs) auto
next
  case (Cons e es)
  then show ?case by (cases fs; cases e) auto
qed

lemma frame_seps:
  assumes "frames_ok (Frame a ks1 ts1 ks2 ts2 # fs)"
  shows "ks1 \<noteq> [] \<Longrightarrow> Sep (hd ks1) \<in> set (ltoks (Frame a ks1 ts1 ks2 ts2 # fs))"
    "ks2 \<noteq> [] \<Longrightarrow> Sep (hd ks2) \<in> set (rtoks (Frame a ks1 ts1 ks2 ts2 # fs))"
proof -
  have "Sep ` set ks1 \<subseteq> set (lweave (map Sep ks1) (map toks ts1))" "Sep ` set ks2 \<subseteq> set (rweave (map Sep ks2) (map toks ts2))"
    using assms set_lweave [of "map toks ts1" "map Sep ks1"] set_rweave [of "map toks ts2" "map Sep ks2"] by simp_all
  then show "ks1 \<noteq> [] \<Longrightarrow> Sep (hd ks1) \<in> set (ltoks (Frame a ks1 ts1 ks2 ts2 # fs))"
    "ks2 \<noteq> [] \<Longrightarrow> Sep (hd ks2) \<in> set (rtoks (Frame a ks1 ts1 ks2 ts2 # fs))"
    using hd_in_set by fastforce+
qed

lemma leaf_only:
  assumes l: "leaf_for key t ctx a es" and t: "tree_at ix p t" and k: "toks t = map (\<lambda>(k, v). Key k v) fs"
  shows "ctx = [] \<and> es = fs"
proof -
  have tk: "ltoks ctx @ map (\<lambda>(k, v). Key k v) es @ rtoks ctx = map (\<lambda>(k, v). Key k v) fs"
    using l k by (simp add: leaf_for_def toks_plug)
  then have no: "Sep s \<notin> set (ltoks ctx) \<union> set (rtoks ctx)" for s
    by (metis (no_types, lifting) UnE UnI1 UnI2 case_prod_beta imageE list.set_map set_append tok.distinct(1))
  have "ctx = []"
  proof (cases ctx)
    case (Cons f cs)
    obtain b ks1 ts1 ks2 ts2 where f: "f = Frame b ks1 ts1 ks2 ts2" by (cases f)
    have "1 \<le> length ks1 + length ks2" using leaf_for_cshape [OF l t] by (auto simp: Cons f split: if_splits)
    moreover have "frames_ok ctx" using l by (simp add: leaf_for_def)
    then have "ks1 = []" "ks2 = []" using frame_seps [of b ks1 ts1 ks2 ts2 cs] no unfolding Cons f by blast+
    ultimately show ?thesis by simp
  qed simp
  moreover from this have "kvs (map (\<lambda>(k, v). Key k v) es) = kvs (map (\<lambda>(k, v). Key k v) fs)" using tk by simp
  ultimately show ?thesis by simp
qed

lemma leaf_leftmost:
  assumes l: "leaf_for key t ctx a es" and t: "tree_at ix p t"
    and k: "toks t = map (\<lambda>(k, v). Key k v) fs @ Sep s # map (\<lambda>(k, v). Key k v) gs" and fs: "fs \<noteq> []" "\<forall>e\<in>set fs. key < fst e"
  shows "es = fs \<and> ltoks ctx = [] \<and> rtoks ctx = Sep s # map (\<lambda>(k, v). Key k v) gs \<and> at_front ctx"
proof -
  let ?K = "map (\<lambda>(k, v). Key k v)"
  have ok: "frames_ok ctx" and tk: "ltoks ctx @ ?K es @ rtoks ctx = ?K fs @ Sep s # ?K gs"
    using l k by (simp_all add: leaf_for_def toks_plug)
  have so: "sorted_wrt tord (?K fs @ Sep s # ?K gs)" using t k by (simp add: tree_at_def)
  obtain k0 v0 fs' where f0: "fs = (k0, v0) # fs'" using fs(1) by (cases fs) auto
  have s: "key < s" using so fs(2) by (auto simp: f0)
  have "after key x" if "x \<in> set (?K fs @ Sep s # ?K gs)" for x
    using that so fs(2) s by (force simp: sorted_wrt_append)
  moreover have "\<not> (before key x \<and> after key x)" for x by (cases x) auto
  ultimately have lt: "ltoks ctx = []" using l tk unfolding leaf_for_def by (metis list.set_intros(1) neq_Nil_conv UnI1 set_append)
  have one: "Sep s' \<in> set xs \<Longrightarrow> xs \<noteq> ?K gs" for s' xs by auto
  show ?thesis
  proof (cases ctx)
    case Nil
    then have "Sep s \<in> set (?K es)" using tk by simp
    then show ?thesis by auto
  next
    case (Cons f cs)
    obtain b ks1 ts1 ks2 ts2 where f: "f = Frame b ks1 ts1 ks2 ts2" by (cases f)
    have "1 \<le> length ks1 + length ks2" using leaf_for_cshape [OF l t] by (auto simp: Cons f split: if_splits)
    moreover have k1: "ks1 = []" using frame_seps(1) [of b ks1 ts1 ks2 ts2 cs] ok lt by (auto simp: Cons f)
    ultimately obtain k' ks u us where k2: "ks2 = k' # ks" "ts2 = u # us" "length us = length ks" using ok
      by (cases ks2; cases ts2) (auto simp: Cons f)
    have r: "rtoks ctx = Sep k' # toks u @ rweave (map Sep ks) (map toks us) @ rtoks cs" by (simp add: Cons f k2)
    then have eq: "es = fs" "k' = s" "toks u @ rweave (map Sep ks) (map toks us) @ rtoks cs = ?K gs"
      using tk keys_sep_unique [of es k' _ fs s "?K gs"] by (simp_all add: lt)
    have "ks = []"
    proof (cases ks)
      case (Cons c cs')
      then have "Sep c \<in> set (toks u @ rweave (map Sep ks) (map toks us) @ rtoks cs)"
        using set_rweave [of "map toks us" "map Sep ks"] k2(3) by auto
      then show ?thesis using one eq(3) by blast
    qed
    then show ?thesis using eq lt r k1 k2 by (simp add: Cons f)
  qed
qed

section \<open>Twenty-four keys\<close>

text \<open>The sequence of keys and separators after \<open>m\<close> insertions.\<close>

definition desc_toks :: "nat \<Rightarrow> tok list \<Rightarrow> bool" where
  "desc_toks m ts \<longleftrightarrow>
     (if m \<le> 15 then \<exists>es. ts = map (\<lambda>(k, v). Key k v) es \<and> length es = m
      else \<exists>es s gs. ts = map (\<lambda>(k, v). Key k v) es @ Sep s # map (\<lambda>(k, v). Key k v) gs \<and> length es = m - 8)"

lemma desc_toksI:
  "length es = m \<Longrightarrow> m \<le> 15 \<Longrightarrow> desc_toks m (map (\<lambda>(k, v). Key k v) es)"
  "length es = m - 8 \<Longrightarrow> 15 < m \<Longrightarrow> desc_toks m (map (\<lambda>(k, v). Key k v) es @ Sep s # map (\<lambda>(k, v). Key k v) gs)"
  unfolding desc_toks_def by auto

lemma add_item_front: "\<forall>e\<in>set es. key < fst e \<Longrightarrow> add_item key item es = (key, [item]) # es"
  by (cases es) auto

lemma desc_insert:
  assumes c: "plain_cfg cfg" and t: "tree_at ix p t" and brk: "brk_ok ix" and d: "desc_toks m (toks t)" "m \<le> 23"
    and small: "\<forall>e\<in>set (entries t). key < fst e"
  shows "case bt_index_insert cfg key item p ix of
     None \<Rightarrow> m = 23 | Some ix' \<Rightarrow> m < 23 \<and> (\<exists>ts. desc_toks (Suc m) ts \<and> kvs ts = (key, [item]) # entries t \<and> grown ix p ts ix')"
proof -
  obtain ctx a es where l: "leaf_for key t ctx a es" and i: "case bt_index_insert cfg key item p ix of
       None \<Rightarrow> must_fail key ctx es
     | Some ix' \<Rightarrow> \<not> must_fail key ctx es \<and> grown ix p (ltoks ctx @ leaf_toks key item es @ rtoks ctx) ix'"
    by (rule bt_index_insert_ok [OF c t brk])
  let ?ts = "ltoks ctx @ leaf_toks key item es @ rtoks ctx"
  have e: "kvs ?ts = (key, [item]) # entries t"
    using leaf_for_entries [OF l] add_item_front [OF small, of item] by (simp add: add_item_append)
  have es: "\<forall>e\<in>set es. key < fst e" using small leaf_for_entries(1) [OF l] by simp
  then have new: "key \<notin> fst ` set es" by auto
  have "(must_fail key ctx es \<longleftrightarrow> m = 23) \<and> (m < 23 \<longrightarrow> desc_toks (Suc m) ?ts)"
  proof (cases "m \<le> 15")
    case True
    then obtain fs where "toks t = map (\<lambda>(k, v). Key k v) fs" "length fs = m" using d(1) unfolding desc_toks_def by auto
    then have x: "ctx = []" "length es = m" using leaf_only [OF l t] by auto
    have "desc_toks (Suc m) (leaf_toks key item es)"
    proof (cases "m = 15")
      case 15: True
      let ?all = "(key, [item]) # es"
      have "leaf_toks key item es = map (\<lambda>(k, v). Key k v) (take 8 ?all) @ Sep (fst (?all ! 8)) # map (\<lambda>(k, v). Key k v) (drop 8 ?all)"
        using 15 x(2) unfolding leaf_toks_def add_item_front [OF es] Let_def by simp
      moreover have "length (take 8 ?all) = Suc m - 8" using 15 x(2) by simp
      ultimately show ?thesis using 15 desc_toksI(2) [of "take 8 ?all" "Suc m"] by simp
    next
      case False
      then have "leaf_toks key item es = map (\<lambda>(k, v). Key k v) ((key, [item]) # es)"
        using x(2) unfolding leaf_toks_def add_item_front [OF es] Let_def by simp
      moreover have "length ((key, [item]) # es) = Suc m" using x(2) by simp
      ultimately show ?thesis using True False desc_toksI(1) [of "(key, [item]) # es" "Suc m"] by simp
    qed
    then show ?thesis using x True by (simp add: must_fail_def)
  next
    case False
    then obtain fs s gs where f: "toks t = map (\<lambda>(k, v). Key k v) fs @ Sep s # map (\<lambda>(k, v). Key k v) gs" "length fs = m - 8"
      using d(1) unfolding desc_toks_def by auto
    moreover have "fs \<noteq> []" "\<forall>e\<in>set fs. key < fst e" using f False small by (auto simp: entries_def)
    ultimately have x: "es = fs" "ltoks ctx = []" "rtoks ctx = Sep s # map (\<lambda>(k, v). Key k v) gs" "at_front ctx"
      using leaf_leftmost [OF l t f(1)] by blast+
    have "desc_toks (Suc m) ?ts" if "m < 23"
    proof -
      have "?ts = map (\<lambda>(k, v). Key k v) ((key, [item]) # es) @ Sep s # map (\<lambda>(k, v). Key k v) gs"
        using that False f(2) by (simp add: x leaf_toks_def add_item_front [OF es [unfolded x(1)]] Let_def)
      moreover have "length ((key, [item]) # es) = Suc m - 8" using False f(2) by (simp add: x(1))
      ultimately show ?thesis using False desc_toksI(2) [of "(key, [item]) # es" "Suc m" s gs] by simp
    qed
    then show ?thesis using x(1,4) f(2) False d(2) new by (auto simp: must_fail_def)
  qed
  then show ?thesis using i e d(2) by (auto split: option.splits)
qed

lemma desc_inserts:
  assumes c: "plain_cfg cfg"
  shows "tree_at ix p t \<Longrightarrow> brk_ok ix \<Longrightarrow> desc_toks m (toks t) \<Longrightarrow> m + length kis = 24 \<Longrightarrow> kis \<noteq> [] \<Longrightarrow>
    sorted_wrt (>) (map fst (rev (entries t)) @ map fst kis) \<Longrightarrow> bt_inserts cfg (map (Pair p) kis) ix = None"
proof (induction kis arbitrary: ix t m)
  case (Cons ki kis)
  obtain key item where ki: "ki = (key, item)" by (cases ki)
  have "\<forall>e\<in>set (entries t). key < fst e" using Cons.prems(6) by (auto simp: ki sorted_wrt_append)
  from desc_insert [OF c Cons.prems(1-3) _ this, of item]
  have i: "case bt_index_insert cfg key item p ix of
     None \<Rightarrow> m = 23 | Some ix' \<Rightarrow> m < 23 \<and> (\<exists>ts. desc_toks (Suc m) ts \<and> kvs ts = (key, [item]) # entries t \<and> grown ix p ts ix')"
    using Cons.prems(4) by simp
  show ?case
  proof (cases "bt_index_insert cfg key item p ix")
    case (Some ix')
    then obtain t' where m: "m < 23" and t': "tree_at ix' p t'" "brk_ok ix'" "desc_toks (Suc m) (toks t')" "entries t' = (key, [item]) # entries t"
      using i unfolding grown_def entries_def by auto
    have "bt_inserts cfg (map (Pair p) kis) ix' = None"
      by (rule Cons.IH [OF t'(1-3)]) (use Cons.prems(4,6) m t'(4) in \<open>auto simp: ki\<close>)
    then show ?thesis by (simp add: ki Some)
  qed (simp add: ki)
qed simp

lemma bt_inserts_append: "bt_inserts cfg (xs @ ys) ix = Option.bind (bt_inserts cfg xs ix) (bt_inserts cfg ys)"
proof (induction cfg xs ix rule: bt_inserts.induct)
  case (2 cfg part key item ops ix)
  then show ?case by (cases "bt_index_insert cfg key item part ix") simp_all
qed simp

text \<open>
  C38. The B-tree index cannot be filled in descending order.  Whatever the keys, the configuration without
  latches and the contents of fresh memory: the twenty-fourth of a sequence of strictly descending keys, at the latest,
  makes \<open>insert_into_parent\<close> count its unsigned index below zero and leave the array of keys.
\<close>

theorem btree_descending_fails:
  assumes "plain_cfg cfg" and "part < part_cnt" and "sorted_wrt (>) (map fst kis)" and "24 \<le> length kis"
  shows "bt_inserts cfg (map (Pair part) kis) (bt_init cfg part_cnt thread_cnt mem) = None"
proof -
  let ?ix = "bt_init cfg part_cnt thread_cnt mem"
  have "kis \<noteq> []" using assms(4) by auto
  moreover have "sorted_wrt (>) (map fst (take 24 kis))" using assms(3) by (metis sorted_wrt_take take_map)
  ultimately have "bt_inserts cfg (map (Pair part) (take 24 kis)) ?ix = None"
    using desc_inserts [OF assms(1) bt_init_ok(1) [OF assms(2), of cfg thread_cnt mem] bt_init_ok(2), of 0 "take 24 kis"] assms(4)
    by (auto simp: desc_toks_def entries_def)
  then show ?thesis using bt_inserts_append [of cfg "map (Pair part) (take 24 kis)" "map (Pair part) (drop 24 kis)" ?ix]
    by (simp add: map_append [symmetric])
qed

definition demo_descending :: "(idx_key_t \<times> item_data) list" where
  "demo_descending = map (\<lambda>k. (of_nat k, demo_item k)) (rev [0..<24])"

theorem btree_descending_fails_witness:
  "bt_inserts demo_bt_cfg (map (Pair 1) demo_descending) demo_bt_index = None"
proof -
  have "sorted_wrt (>) (map fst demo_descending)" "24 \<le> length demo_descending" by code_simp+
  then show ?thesis
    using btree_descending_fails [OF demo_bt_facts(1), of 1 2 demo_descending 1 "\<lambda>_. blank_node demo_bt_cfg False"]
    unfolding demo_bt_index_def by simp
qed

end
