(* ===== verification/Spec2Isabelle.thy ===== *)
theory Spec2Isabelle
  imports
    Lock_System Txn_Locking DL_Detect Linked_List Plock Silo TicToc OCC_System MVCC_System Timestamps
    Index_Perfect Index_Keys Worker TPCC_Delivery TPCC_Loaded Index_Ops YCSB_Query Schema_TPCC Btree_Scan Btree_Front
begin

text \<open>
  \<^bold>\<open>The program.\<close>  DBx1000 is an in-memory database that compares concurrency control algorithms.
  Worker threads (system/thread.cpp) take queries from a queue, run them as transactions
  (system/txn.cpp) against rows (storage/row.cpp), and retry what was aborted.  A row delegates every access
  to a row manager of the algorithm the program was compiled for (concurrency_control/row_*.cpp); the
  optimistic algorithms validate a transaction when it ends (concurrency_control/occ, silo, tictoc),
  two-phase locking may use a deadlock detector (dl_detect), H-Store locks whole partitions (plock.cpp).
  Indexes (storage/index_*.h) map keys to rows, tables and catalogs (storage/table.cpp, catalog.cpp)
  describe tuples, and a global manager (system/manager.cpp) hands out timestamps.  The transactions come from
  the benchmarks: TPC-C draws its queries in tpcc_query.cpp and runs its five transactions in tpcc_txn.cpp.

  \<^bold>\<open>Conventions.\<close>  Timestamps, keys and ids are 64-bit words and wrap; \<open>None\<close> is a failed assertion, an access
  through a null or dangling pointer, or a division by zero.  A section of code under a latch is one step.
  Concurrency appears in two ways: as a transition system whose steps are the latched sections of all
  threads in any order (locking, OCC, MVCC, timestamp ordering), or, where a transaction works with
  atomic instructions, as an environment that may change shared memory before each of them
  (Silo, TicToc).  Components of a state that record history are not in the program and are named as such.

  \<^bold>\<open>Theories.\<close>
  \<^item> DBx_Prelude: the enumerations of system/global.h, assertions, lists as the code walks them, runs of
    operations and the locale \<open>simulation\<close>.
  \<^item> Linked_List: the list macros of system/helper.h on pointers; they refine operations on lists, which is
    how the other theories use them.  Bubble_Sort: the sort of the access sets, sorted and a permutation.
  \<^item> Row_Lock, Lock_System: row_lock.cpp and all rows and threads together.  Mutual exclusion, no lost
    wake-up, no failed assertion; under WAIT_DIE no deadlock and always a thread that runs.
  \<^item> Txn_Locking: \<open>get_row\<close>, \<open>cleanup\<close> and \<open>finish\<close> of txn.cpp with the locking branches of row.cpp on top of
    Lock_System.  Serializability in commit order for any interleaving, and rollback.
  \<^item> DL_Detect: the search of dl_detect.cpp finds a deadlock exactly when there is one, for ids that fit
    in 31 bits, and none otherwise.
  \<^item> Plock: partition locks.  No deadlock, and a thread whose counter is zero owns its partitions.
  \<^item> OCC, OCC_System: row_occ.cpp and occ.cpp.  Per-row validation is serializable in the order of the end
    timestamps; central validation misses conflicts.
  \<^item> Lock_Word, Silo, TicToc: words with a lock bit, the two validation procedures, and snapshots of a tuple
    without a latch.  Lock_Word holds the locale for the two kinds of word and the lemmas on locking a write set.
  \<^item> Row_TS: timestamp ordering with its buffers.  Row_MVCC, MVCC_System: the version history of a row and its
    reads, which are those of the serial order of the timestamps.
  \<^item> Timestamps: manager.cpp; timestamps of all threads are different.
  \<^item> Row_Storage: catalogs, tables and tuples as bytes; a value written is the value read, and no other column
    changes.
  \<^item> Index_Hash, Index_Perfect: the two hash indexes.  The first agrees with a reference definition through
    the locale \<open>multi_index\<close>; the second, on pointers, refines a queue per bucket by \<open>simulation\<close>.
  \<^item> Index_Btree: index_btree.cpp on nodes at addresses, with arrays of fixed size, parent pointers and latches.
    Btree_Arrays: its loops as equations on lists.  Btree_Rep: the tree that the nodes of a partition represent, seen as a whole or as a path,
    and its order as the sequence of keys and separators.  Btree_Search: descent to a leaf, and what an insertion means for
    the entries.  Btree_Split, Btree_Parent, Btree_Path: a leaf takes a key or is split, and the split goes
    up.  Btree_Ops, Btree_Index: insertion and reading; the index obeys \<open>index_laws\<close>, the locale that \<open>multi_index\<close> extends, and
    ascending insertions always return.  Btree_Scan: a scan is in the order of the keys.  Btree_Front: descending insertions
    leave an array.  The latches are off in all configurations of the repository, and the theorems are about these.
  \<^item> Index_Keys: composite keys can be taken apart.
  \<^item> Worker: the loop of a worker with its abort buffer and its query array.
  \<^item> TPCC_Query: index keys, random values and the query generators of tpcc_helper.h and tpcc_query.cpp.  Generated
    queries are well formed, keys name one record, the removal of duplicate items keeps the first of each.
  \<^item> TPCC_Txn: the tables as maps from rows to records, the indexes as maps from keys to rows, the transaction
    manager as the transactions use it (accesses that may be refused, rows inserted, index operations
    deferred to the commit), and the five transactions.  A payment is all or nothing.
    TPCC_New_Order: new orders, batched and not.  TPCC_Delivery: deliveries, whose flag per
    warehouse stays set after an abort, and stock levels.
  \<^item> TPCC_Load: the rows and index entries that tpcc_wl.cpp creates, per warehouse, and the split of the warehouses over
    threads.  TPCC_Loaded: for every interleaving the indexes hold exactly these rows, and a generated new order commits
    on the loaded database.
  \<^item> YCSB_Query: the request generator of YCSB over an arithmetic of doubles that is a parameter; with exact
    arithmetic its Zipf distribution stays in range.
  \<^item> Schema_File: the reader of schema files of wl.cpp.  A file does what it declares, and one that ends inside a
    field is never read to its end.  Schema_TPCC: the schema file of TPC-C with all transactions agrees with
    the structures of tpcc_const.h, and its index sizes leave every key of a partition a bucket of its own.
  \<^item> Index_Ops: the buffers of deferred index operations of txn.cpp over a sequence of transactions.

  \<^bold>\<open>Fuel and bounds.\<close>  \<open>nextNode\<close> in DL_Detect has the number of threads plus one as fuel, which the exactness
  theorem shows to be enough.  The loops of Silo and TicToc that spin take a number of rounds and return \<open>Spins\<close>
  when it is used up; the theorems about a transaction that runs alone give a number that suffices.  The
  waiting loop of Worker takes the readings of the clock, and \<open>worker_turn_returns\<close> says which suffice.  The loop that
  draws another warehouse in TPCC_Query takes a number of draws, and the theorems assume that they do not all give the
  home warehouse.  Other
  loops are structural recursion, and the search for a predecessor in Index_Perfect, the reader of schema files and the loops of
  Index_Btree that follow pointers are
  partial functions whose results are proved to exist.

  \<^bold>\<open>Limits that the theorems state as hypotheses.\<close>  MVCC reads are right for timestamps below \<open>2 ^ 32\<close>, the
  deadlock detector is right for ids below \<open>2 ^ 31\<close>, Silo's next id must not reach the lock bit, and
  timestamps must not use up the counter; the theorems about the opposite cases show what goes wrong there.

  \<^bold>\<open>Not modelled.\<close>  The vendored performance counter library libs/pcm, statistics, command line parsing and
  thread affinity have no part in the results of transactions.  The allocators are parameters: a block that
  is handed out is not in use.  No build uses the B-tree: with INDEX_STRUCT == IDX_BTREE the call in wl.cpp has an argument too many.  VLL, Hekaton, and the transactions of YCSB do not compile in this revision: they call members and
  signatures that do not exist.
\<close>

end
